(* ===== verification/Sfs_Prelude.thy ===== *)
theory Sfs_Prelude
  imports Main "HOL-Library.Word"
begin

text \<open>
  Shared vocabulary of the development: machine integers and byte strings, the error values of
  the crate (\<^verbatim>\<open>sfs-core/src/lib.rs\<close>), the \<^verbatim>\<open>Result\<close> type with its \<open>?\<close> operator, slices of byte
  buffers, little-endian integer codecs, sorted association lists (Rust's \<^verbatim>\<open>BTreeMap\<close>), and the
  interface \<open>codec\<close> that every encode/decode pair of the container format satisfies.
\<close>

section \<open>Machine integers and bytes\<close>

type_synonym u8 = "8 word"
type_synonym u16 = "16 word"
type_synonym u32 = "32 word"
type_synonym u64 = "64 word"
type_synonym bytes = "u8 list"

named_theorems codec_simps \<open>lengths and slices of encoded fields\<close>

section \<open>Errors and results\<close>

text \<open>
  \<^verbatim>\<open>Error\<close> of the crate. Formatted arguments of a message are dropped, its fixed text is kept in a
  shortened form. \<open>Panic\<close> stands for the panics of the language (a failed \<^verbatim>\<open>expect\<close>, an
  out-of-range index, an arithmetic overflow): it is not a value of the Rust type, but a branch
  of the program that the model must not hide.
\<close>

datatype io_kind = InvalidInput | StorageFull | UnexpectedEof | OtherIo

datatype error =
    NotFound string
  | Integrity string
  | Crypto string
  | Io io_kind string
  | UnsupportedVersion u32
  | Panic string

type_synonym 'a result = "error + 'a"

text \<open>The \<open>?\<close> operator: return the error at once, or go on with the value.\<close>

fun bind_r :: "'a result \<Rightarrow> ('a \<Rightarrow> 'b result) \<Rightarrow> 'b result" where
  "bind_r (Inl e) f = Inl e"
| "bind_r (Inr x) f = f x"

fun is_ok :: "'a result \<Rightarrow> bool" where
  "is_ok (Inl _) = False"
| "is_ok (Inr _) = True"

lemma bind_r_Inr_iff: "bind_r m f = Inr y \<longleftrightarrow> (\<exists>x. m = Inr x \<and> f x = Inr y)"
  by (cases m) auto

lemma bind_r_cong [fundef_cong]:
  "m = m' \<Longrightarrow> (\<And>x. m' = Inr x \<Longrightarrow> f x = g x) \<Longrightarrow> bind_r m f = bind_r m' g"
  by (cases m') auto

lemma bind_r_InrE [elim!]:
  assumes "bind_r m f = Inr y"
  obtains x where "m = Inr x" "f x = Inr y"
  using assms by (auto simp: bind_r_Inr_iff)

lemma is_ok_iff: "is_ok m \<longleftrightarrow> (\<exists>x. m = Inr x)"
  by (cases m) auto

text \<open>
  The same operator where the call also changes a state: an error returns with the state the call
  has left behind, so that what a failed operation did before it failed stays visible.
\<close>

definition bind_s :: "'a result \<times> 's \<Rightarrow> ('a \<Rightarrow> 's \<Rightarrow> 'b result \<times> 's) \<Rightarrow> 'b result \<times> 's" where
  "bind_s m f = (case m of (Inl e, s) \<Rightarrow> (Inl e, s) | (Inr x, s) \<Rightarrow> f x s)"

lemma bind_s_simps [simp]: "bind_s (Inl e, s) f = (Inl e, s)" "bind_s (Inr x, s) f = f x s"
  by (simp_all add: bind_s_def)

lemma bind_s_cong [fundef_cong]:
  "m = m' \<Longrightarrow> (\<And>x s. m' = (Inr x, s) \<Longrightarrow> f x s = g x s) \<Longrightarrow> bind_s m f = bind_s m' g"
  by (auto simp: bind_s_def split: prod.splits sum.splits)

lemma bind_s_InrE:
  assumes "bind_s m f = (Inr y, t)"
  obtains x s where "m = (Inr x, s)" "f x s = (Inr y, t)"
  using assms by (auto simp: bind_s_def split: prod.splits sum.splits)

section \<open>Slices\<close>

text \<open>\<open>slice off n xs\<close> is \<^verbatim>\<open>xs[off..off+n]\<close> of the source, wherever that is in range.\<close>

definition slice :: "nat \<Rightarrow> nat \<Rightarrow> 'a list \<Rightarrow> 'a list" where
  "slice off n xs = take n (drop off xs)"

text \<open>\<^verbatim>\<open>buf.get(off..off+n)\<close>: the slice, or \<open>None\<close> out of range.\<close>

definition get_range :: "'a list \<Rightarrow> nat \<Rightarrow> nat \<Rightarrow> 'a list option" where
  "get_range xs off n = (if off + n \<le> length xs then Some (slice off n xs) else None)"

text \<open>\<^verbatim>\<open>dst[off..off+src.len()].copy_from_slice(src)\<close>, in range.\<close>

definition splice :: "nat \<Rightarrow> 'a list \<Rightarrow> 'a list \<Rightarrow> 'a list" where
  "splice off src dst = take off dst @ src @ drop (off + length src) dst"

lemma length_slice [simp]: "length (slice off n xs) = min n (length xs - off)"
  by (simp add: slice_def)

lemma length_slice_exact: "off + n \<le> length xs \<Longrightarrow> length (slice off n xs) = n"
  by simp

lemma slice_0 [simp]: "slice off 0 xs = []"
  by (simp add: slice_def)

lemma slice_append_skip [codec_simps]:
  "length xs \<le> off \<Longrightarrow> slice off n (xs @ ys) = slice (off - length xs) n ys"
  by (simp add: slice_def)

lemma slice_append_exact [codec_simps]:
  "n = length xs \<Longrightarrow> slice 0 n (xs @ ys) = xs"
  by (simp add: slice_def)

lemma slice_all [codec_simps]: "n = length xs \<Longrightarrow> slice 0 n xs = xs"
  by (simp add: slice_def)

lemma slice_append_left: "off + n \<le> length xs \<Longrightarrow> slice off n (xs @ ys) = slice off n xs"
  by (simp add: slice_def)

lemma slice_Cons_skip [codec_simps]:
  "0 < off \<Longrightarrow> slice off n (x # xs) = slice (off - 1) n xs"
  by (cases off) (simp_all add: slice_def)

lemma slice_take: "off + n \<le> k \<Longrightarrow> slice off n (take k xs) = slice off n xs"
  by (simp add: slice_def drop_take min_def)

lemma slice_slice: "a + n \<le> m \<Longrightarrow> slice a n (slice off m xs) = slice (off + a) n xs"
  by (simp add: slice_def drop_take min_def ac_simps)

lemma nth_slice: "i < n \<Longrightarrow> off + n \<le> length xs \<Longrightarrow> slice off n xs ! i = xs ! (off + i)"
  by (simp add: slice_def)

lemma slice_join: "slice off m xs @ slice (off + m) n xs = slice off (m + n) xs"
  by (simp add: slice_def take_add add.commute)

lemma take_as_slice: "take n xs = slice 0 n xs"
  by (simp add: slice_def)

lemma length_splice [simp]: "off + length src \<le> length dst \<Longrightarrow> length (splice off src dst) = length dst"
  by (simp add: splice_def)

lemma slice_splice_same: "off + length src \<le> length dst \<Longrightarrow> slice off (length src) (splice off src dst) = src"
  by (simp add: splice_def slice_def)

lemma slice_splice_below:
  "o' + n \<le> off \<Longrightarrow> off + length src \<le> length dst \<Longrightarrow> slice o' n (splice off src dst) = slice o' n dst"
  by (simp add: splice_def slice_append_left slice_take)

lemma slice_splice_above:
  "off + length src \<le> o' \<Longrightarrow> off + length src \<le> length dst \<Longrightarrow>
   slice o' n (splice off src dst) = slice o' n dst"
  by (simp add: splice_def slice_def)

lemma nth_splice:
  "off + length src \<le> length dst \<Longrightarrow> i < length dst \<Longrightarrow>
   splice off src dst ! i = (if off \<le> i \<and> i < off + length src then src ! (i - off) else dst ! i)"
  by (auto simp: splice_def nth_append min_def)

section \<open>Little-endian integers\<close>

fun le_bytes :: "nat \<Rightarrow> nat \<Rightarrow> bytes" where
  "le_bytes 0 v = []"
| "le_bytes (Suc n) v = word_of_nat (v mod 256) # le_bytes n (v div 256)"

fun le_val :: "bytes \<Rightarrow> nat" where
  "le_val [] = 0"
| "le_val (b # bs) = unat b + 256 * le_val bs"

text \<open>\<^verbatim>\<open>to_le_bytes\<close> and \<^verbatim>\<open>from_le_bytes\<close> of \<^verbatim>\<open>u16\<close>, \<^verbatim>\<open>u32\<close> and \<^verbatim>\<open>u64\<close>.\<close>

definition u16_to_le :: "u16 \<Rightarrow> bytes" where "u16_to_le w = le_bytes 2 (unat w)"
definition u32_to_le :: "u32 \<Rightarrow> bytes" where "u32_to_le w = le_bytes 4 (unat w)"
definition u64_to_le :: "u64 \<Rightarrow> bytes" where "u64_to_le w = le_bytes 8 (unat w)"
definition u16_from_le :: "bytes \<Rightarrow> u16" where "u16_from_le bs = word_of_nat (le_val bs)"
definition u32_from_le :: "bytes \<Rightarrow> u32" where "u32_from_le bs = word_of_nat (le_val bs)"
definition u64_from_le :: "bytes \<Rightarrow> u64" where "u64_from_le bs = word_of_nat (le_val bs)"

lemma unat_lt2p: "unat (w :: 'a::len word) < 2 ^ LENGTH('a)"
  by (fact unsigned_less)

lemma unat_of_nat_less: "x < 2 ^ LENGTH('a) \<Longrightarrow> unat (word_of_nat x :: 'a::len word) = x"
  by (simp add: unat_of_nat)

lemma length_le_bytes [simp, codec_simps]: "length (le_bytes n v) = n"
  by (induction n arbitrary: v) auto

lemma unat_byte_of_nat: "unat (word_of_nat (v mod 256) :: u8) = v mod 256"
  by (simp add: unat_of_nat)

lemma le_val_le_bytes: "le_val (le_bytes n v) = v mod 256 ^ n"
proof (induction n arbitrary: v)
  case 0
  then show ?case by simp
next
  case (Suc n)
  have "v mod 256 ^ Suc n = v mod 256 + 256 * (v div 256 mod 256 ^ n)"
    by (simp add: mod_mult2_eq)
  with Suc show ?case by (simp add: unat_byte_of_nat)
qed

lemma le_val_bound: "le_val bs < 256 ^ length bs"
proof (induction bs)
  case Nil
  then show ?case by simp
next
  case (Cons b bs)
  have "unat b < 256" using unat_lt2p[of b] by simp
  with Cons show ?case by simp
qed

lemma le_bytes_le_val: "le_bytes (length bs) (le_val bs) = bs"
proof (induction bs)
  case Nil
  then show ?case by simp
next
  case (Cons b bs)
  have b: "unat b < 256" using unat_lt2p[of b] by simp
  then have "(unat b + 256 * le_val bs) mod 256 = unat b"
    and "(unat b + 256 * le_val bs) div 256 = le_val bs" by simp_all
  with Cons show ?case by simp
qed

lemma u16_le_length [simp, codec_simps]: "length (u16_to_le w) = 2"
  by (simp add: u16_to_le_def)

lemma u32_le_length [simp, codec_simps]: "length (u32_to_le w) = 4"
  by (simp add: u32_to_le_def)

lemma u64_le_length [simp, codec_simps]: "length (u64_to_le w) = 8"
  by (simp add: u64_to_le_def)

lemma u16_le_inverse [simp]: "u16_from_le (u16_to_le w) = w"
  using unat_lt2p[of w] by (simp add: u16_from_le_def u16_to_le_def le_val_le_bytes)

lemma u32_le_inverse [simp]: "u32_from_le (u32_to_le w) = w"
  using unat_lt2p[of w] by (simp add: u32_from_le_def u32_to_le_def le_val_le_bytes)

lemma u64_le_inverse [simp]: "u64_from_le (u64_to_le w) = w"
  using unat_lt2p[of w] by (simp add: u64_from_le_def u64_to_le_def le_val_le_bytes)

lemma u16_from_le_inverse: "length bs = 2 \<Longrightarrow> u16_to_le (u16_from_le bs) = bs"
  using le_val_bound[of bs] le_bytes_le_val[of bs]
  by (simp add: u16_from_le_def u16_to_le_def unat_of_nat)

lemma u32_from_le_inverse: "length bs = 4 \<Longrightarrow> u32_to_le (u32_from_le bs) = bs"
  using le_val_bound[of bs] le_bytes_le_val[of bs]
  by (simp add: u32_from_le_def u32_to_le_def unat_of_nat)

lemma u64_from_le_inverse: "length bs = 8 \<Longrightarrow> u64_to_le (u64_from_le bs) = bs"
  using le_val_bound[of bs] le_bytes_le_val[of bs]
  by (simp add: u64_from_le_def u64_to_le_def unat_of_nat)

section \<open>Tables of fixed-width records\<close>

lemma length_concat_fixed:
  "(\<And>x. x \<in> set xs \<Longrightarrow> length (f x) = w) \<Longrightarrow> length (concat (map f xs)) = w * length xs"
  by (induction xs) auto

lemma slice_concat_fixed:
  assumes "\<And>x. x \<in> set xs \<Longrightarrow> length (f x) = w" and "i < length xs"
  shows "slice (w * i) w (concat (map f xs)) = f (xs ! i)"
  using assms
proof (induction xs arbitrary: i)
  case Nil
  then show ?case by simp
next
  case (Cons x xs)
  show ?case
  proof (cases i)
    case 0
    with Cons.prems show ?thesis by (simp add: slice_append_exact)
  next
    case (Suc j)
    with Cons show ?thesis by (simp add: slice_append_skip)
  qed
qed

section \<open>Ordered maps\<close>

text \<open>
  Rust's \<^verbatim>\<open>BTreeMap\<close> as an association list in ascending key order: \<open>bt_insert\<close> is \<^verbatim>\<open>insert\<close>,
  \<open>bt_remove\<close> is \<^verbatim>\<open>remove\<close>, \<open>bt_last_le\<close> is \<^verbatim>\<open>range(..=k).next_back()\<close>, \<open>bt_range\<close> is
  \<^verbatim>\<open>range(lo..=hi)\<close>, \<open>bt_from\<close> is \<^verbatim>\<open>range(lo..)\<close>, and \<open>map_of\<close> is \<^verbatim>\<open>get\<close>.
\<close>

fun bt_insert :: "'k::linorder \<Rightarrow> 'v \<Rightarrow> ('k \<times> 'v) list \<Rightarrow> ('k \<times> 'v) list" where
  "bt_insert k v [] = [(k, v)]"
| "bt_insert k v (e # es) =
     (if k < fst e then (k, v) # e # es
      else if k = fst e then (k, v) # es
      else e # bt_insert k v es)"

definition bt_remove :: "'k \<Rightarrow> ('k \<times> 'v) list \<Rightarrow> ('k \<times> 'v) list" where
  "bt_remove k es = filter (\<lambda>e. fst e \<noteq> k) es"

definition bt_last_le :: "'k::linorder \<Rightarrow> ('k \<times> 'v) list \<Rightarrow> ('k \<times> 'v) option" where
  "bt_last_le k es = (let xs = filter (\<lambda>e. fst e \<le> k) es in if xs = [] then None else Some (last xs))"

definition bt_range :: "'k::linorder \<Rightarrow> 'k \<Rightarrow> ('k \<times> 'v) list \<Rightarrow> ('k \<times> 'v) list" where
  "bt_range lo hi es = filter (\<lambda>e. lo \<le> fst e \<and> fst e \<le> hi) es"

definition bt_from :: "'k::linorder \<Rightarrow> ('k \<times> 'v) list \<Rightarrow> ('k \<times> 'v) list" where
  "bt_from lo es = filter (\<lambda>e. lo \<le> fst e) es"

definition bt_sorted :: "('k::linorder \<times> 'v) list \<Rightarrow> bool" where
  "bt_sorted es \<longleftrightarrow> sorted_wrt (<) (map fst es)"

lemma bt_sorted_Nil [simp]: "bt_sorted []"
  by (simp add: bt_sorted_def)

lemma bt_sorted_Cons: "bt_sorted (e # es) \<longleftrightarrow> (\<forall>f \<in> set es. fst e < fst f) \<and> bt_sorted es"
  by (simp add: bt_sorted_def)

lemma set_bt_insert: "set (bt_insert k v es) \<subseteq> insert (k, v) (set es)"
  by (induction es) auto

lemma set_bt_insert_new: "k \<notin> fst ` set es \<Longrightarrow> set (bt_insert k v es) = insert (k, v) (set es)"
  by (induction es) auto

lemma bt_sorted_insert: "bt_sorted es \<Longrightarrow> bt_sorted (bt_insert k v es)"
proof (induction es)
  case Nil
  then show ?case by (simp add: bt_sorted_Cons)
next
  case (Cons e es)
  then show ?case
    using set_bt_insert[of k v es] by (auto simp: bt_sorted_Cons)
qed

lemma map_of_bt_insert: "map_of (bt_insert k v es) = (map_of es)(k \<mapsto> v)"
  by (induction es) (auto simp: fun_eq_iff)

lemma bt_sorted_remove: "bt_sorted es \<Longrightarrow> bt_sorted (bt_remove k es)"
  by (induction es) (auto simp: bt_sorted_Cons bt_remove_def)

lemma map_of_bt_remove: "map_of (bt_remove k es) = (map_of es)(k := None)"
  by (induction es) (auto simp: fun_eq_iff bt_remove_def)

lemma set_bt_remove [simp]: "set (bt_remove k es) = {e \<in> set es. fst e \<noteq> k}"
  by (simp add: bt_remove_def)

lemma set_bt_range [simp]: "set (bt_range lo hi es) = {e \<in> set es. lo \<le> fst e \<and> fst e \<le> hi}"
  by (simp add: bt_range_def)

lemma bt_last_le_None: "bt_last_le k es = None \<longleftrightarrow> (\<forall>e \<in> set es. k < fst e)"
  by (auto simp: bt_last_le_def Let_def filter_empty_conv not_le)

lemma bt_last_le_Some:
  assumes "bt_sorted es" and "bt_last_le k es = Some p"
  shows "p \<in> set es \<and> fst p \<le> k \<and> (\<forall>e \<in> set es. fst e \<le> k \<longrightarrow> fst e \<le> fst p)"
proof -
  let ?xs = "filter (\<lambda>e. fst e \<le> k) es"
  from assms(2) have ne: "?xs \<noteq> []" and p: "p = last ?xs"
    by (auto simp: bt_last_le_def Let_def split: if_splits)
  from ne obtain ys x where xs: "?xs = ys @ [x]" by (metis rev_exhaust)
  from assms(1) have "sorted_wrt (<) (map fst ?xs)"
    by (simp add: bt_sorted_def sorted_wrt_map sorted_wrt_filter)
  then have "\<forall>e \<in> set ?xs. fst e \<le> fst x"
    unfolding xs by (auto simp: sorted_wrt_append)
  moreover have "x \<in> set ?xs" unfolding xs by simp
  moreover have "p = x" using p xs by simp
  ultimately show ?thesis by auto
qed

lemma bt_sorted_distinct: "bt_sorted es \<Longrightarrow> distinct (map fst es)"
  by (simp add: bt_sorted_def strict_sorted_iff)

lemma bt_sorted_map_of: "bt_sorted es \<Longrightarrow> map_of es k = Some v \<longleftrightarrow> (k, v) \<in> set es"
  by (simp add: bt_sorted_distinct)

section \<open>The interface of a codec\<close>

text \<open>
  Every on-disk structure has an encoder and a validating decoder. The contract: the decoder
  accepts what the encoder writes for a well-formed value and gives that value back. Clients use
  it for the two facts below: no two well-formed values share an encoding, and an encoding never
  decodes to an error.
\<close>

locale codec =
  fixes wf :: "'a \<Rightarrow> bool"
    and enc :: "'a \<Rightarrow> bytes"
    and dec :: "bytes \<Rightarrow> 'a result"
  assumes dec_enc: "wf x \<Longrightarrow> dec (enc x) = Inr x"
begin

lemma enc_inj: "wf x \<Longrightarrow> wf y \<Longrightarrow> enc x = enc y \<Longrightarrow> x = y"
  by (metis dec_enc sum.inject(2))

lemma dec_ok: "wf x \<Longrightarrow> is_ok (dec (enc x))"
  by (simp add: dec_enc)

end

text \<open>A canonical codec also rejects every byte string that is not an encoding.\<close>

locale canonical_codec = codec +
  assumes enc_dec: "dec bs = Inr x \<Longrightarrow> wf x \<and> enc x = bs"
begin

lemma dec_inj: "dec bs = Inr x \<Longrightarrow> dec cs = Inr x \<Longrightarrow> bs = cs"
  using enc_dec by metis

lemma dec_iff: "dec bs = Inr x \<longleftrightarrow> wf x \<and> enc x = bs"
  using dec_enc enc_dec by metis

end

lemma length_2: "length xs = 2 \<Longrightarrow> \<exists>a b. xs = [a, b]"
  by (auto simp: numeral_2_eq_2 length_Suc_conv)

lemma length_4: "length xs = 4 \<Longrightarrow> \<exists>a b c d. xs = [a, b, c, d]"
  by (auto simp: numeral_eq_Suc length_Suc_conv)

section \<open>A byte string inside a buffer\<close>

definition lies_at :: "'a list \<Rightarrow> nat \<Rightarrow> 'a list \<Rightarrow> bool" where
  "lies_at buf off bs \<longleftrightarrow> off + length bs \<le> length buf \<and> slice off (length bs) buf = bs"

lemma lies_at_Nil [simp]: "lies_at buf off [] \<longleftrightarrow> off \<le> length buf"
  by (simp add: lies_at_def)

lemma lies_at_Cons [simp]: "lies_at buf off (x # xs) \<longleftrightarrow> off < length buf \<and> buf ! off = x \<and> lies_at buf (off + 1) xs"
proof (cases "off < length buf")
  case True
  then have "slice off (Suc (length xs)) buf = buf ! off # slice (off + 1) (length xs) buf"
    by (simp add: slice_def Cons_nth_drop_Suc[symmetric])
  then show ?thesis using True by (auto simp: lies_at_def)
qed (simp add: lies_at_def)

lemma lies_at_le: "lies_at buf off bs \<Longrightarrow> off \<le> length buf"
  by (simp add: lies_at_def)

lemma lies_at_append [simp]: "lies_at buf off (xs @ ys) \<longleftrightarrow> lies_at buf off xs \<and> lies_at buf (off + length xs) ys"
  by (induction xs arbitrary: off) (auto dest: lies_at_le)

lemma lies_at_get_range: "lies_at buf off bs \<Longrightarrow> n = length bs \<Longrightarrow> get_range buf off n = Some bs"
  by (simp add: lies_at_def get_range_def)

lemma get_range_lies_at: "get_range buf off n = Some bs \<Longrightarrow> lies_at buf off bs \<and> length bs = n"
  by (auto simp: lies_at_def get_range_def length_slice_exact split: if_splits)

lemma lies_at_here: "lies_at (pre @ bs @ post) (length pre) bs"
  by (simp add: lies_at_def slice_def)

lemma lies_at_extend: "lies_at buf off bs \<Longrightarrow> lies_at (buf @ more) off bs"
  by (simp add: lies_at_def slice_append_left)

lemma lies_at_splice_same: "off + length src \<le> length dst \<Longrightarrow> lies_at (splice off src dst) off src"
  by (simp add: lies_at_def slice_splice_same)

lemma lies_at_splice_other:
  "lies_at dst a bs \<Longrightarrow> off + length src \<le> length dst \<Longrightarrow> a + length bs \<le> off \<or> off + length src \<le> a \<Longrightarrow>
   lies_at (splice off src dst) a bs"
  by (auto simp: lies_at_def slice_splice_below slice_splice_above)

section \<open>A buffer in chunks of one width\<close>

primrec chunks_at :: "nat \<Rightarrow> nat \<Rightarrow> 'a list \<Rightarrow> nat \<Rightarrow> 'a list list" where
  "chunks_at w 0 buf off = []"
| "chunks_at w (Suc n) buf off = slice off w buf # chunks_at w n buf (off + w)"

lemma chunks_at_here: "list_all (\<lambda>c. length c = w) cs \<Longrightarrow> chunks_at w (length cs) (pre @ concat cs @ rest) (length pre) = cs"
proof (induction cs arbitrary: pre)
  case (Cons c cs)
  have "chunks_at w (length cs) ((pre @ c) @ concat cs @ rest) (length (pre @ c)) = cs" using Cons by (intro Cons.IH) simp
  then show ?case using Cons.prems by (simp add: slice_append_skip slice_append_exact)
qed simp

lemma length_chunks_at [simp]: "length (chunks_at w n buf off) = n"
  by (induction n arbitrary: off) simp_all

lemma chunks_at_width: "off + w * n \<le> length buf \<Longrightarrow> list_all (\<lambda>c. length c = w) (chunks_at w n buf off)"
  by (induction n arbitrary: off) (simp_all add: length_slice_exact)

lemma concat_chunks_at: "concat (chunks_at w n buf off) = slice off (w * n) buf"
  by (induction n arbitrary: off) (simp_all add: slice_join)

lemma length_concat_width: "list_all (\<lambda>c. length c = w) cs \<Longrightarrow> length (concat cs) = w * length cs"
  by (induction cs) auto

end
