(* ===== verification/Version_Vector.thy ===== *)
theory Version_Vector
  imports Sfs_Prelude
begin

text \<open>
  The sparse version vector and the peer registry, \<^verbatim>\<open>sfs-core/src/version/vector.rs\<close>. A vector is a
  list of pairs (alias, counter), strictly ascending in the alias and without zero counters; an
  absent alias counts as zero. The operations keep that invariant, dominance is the pointwise
  order, \<open>join\<close> is its least upper bound, and the wire format is a canonical codec.
\<close>

section \<open>Version vectors\<close>

type_synonym host_alias = u16

record version_vector =
  vv_entries :: "(host_alias \<times> u64) list"

definition vv_new :: version_vector where
  "vv_new = \<lparr>vv_entries = []\<rparr>"

text \<open>
  \<^verbatim>\<open>binary_search_by_key\<close> of the standard library on a slice sorted by alias: \<open>Inr i\<close> is
  \<^verbatim>\<open>Ok(i)\<close>, the position of the key, \<open>Inl i\<close> is \<^verbatim>\<open>Err(i)\<close>, the position where it would be inserted.
\<close>

fun bsearch :: "host_alias \<Rightarrow> (host_alias \<times> u64) list \<Rightarrow> nat + nat" where
  "bsearch h [] = Inl 0"
| "bsearch h (e # es) =
     (if fst e = h then Inr 0
      else if h < fst e then Inl 0
      else map_sum Suc Suc (bsearch h es))"

definition vv_get :: "version_vector \<Rightarrow> host_alias \<Rightarrow> u64" where
  "vv_get v h = (case bsearch h (vv_entries v) of
      Inr i \<Rightarrow> snd (vv_entries v ! i)
    | Inl _ \<Rightarrow> 0)"

definition vv_bump :: "version_vector \<Rightarrow> host_alias \<Rightarrow> (version_vector \<times> u64) result" where
  "vv_bump v h = (case bsearch h (vv_entries v) of
      Inr i \<Rightarrow>
        (if snd (vv_entries v ! i) = - 1 then Inl (Panic ''sync_id overflow'')
         else let c = snd (vv_entries v ! i) + 1
              in Inr (v\<lparr>vv_entries := (vv_entries v)[i := (fst (vv_entries v ! i), c)]\<rparr>, c))
    | Inl i \<Rightarrow>
        Inr (v\<lparr>vv_entries := take i (vv_entries v) @ (h, 1) # drop i (vv_entries v)\<rparr>, 1))"

fun dominates_loop :: "version_vector \<Rightarrow> (host_alias \<times> u64) list \<Rightarrow> bool" where
  "dominates_loop v [] = True"
| "dominates_loop v (e # es) = (if vv_get v (fst e) < snd e then False else dominates_loop v es)"

definition vv_dominates :: "version_vector \<Rightarrow> version_vector \<Rightarrow> bool" where
  "vv_dominates v w = dominates_loop v (vv_entries w)"

definition vv_concurrent_with :: "version_vector \<Rightarrow> version_vector \<Rightarrow> bool" where
  "vv_concurrent_with v w = (\<not> vv_dominates v w \<and> \<not> vv_dominates w v)"

text \<open>The merge loop of \<^verbatim>\<open>join\<close>, with the two tails appended at the end.\<close>

fun join_loop ::
  "(host_alias \<times> u64) list \<Rightarrow> (host_alias \<times> u64) list \<Rightarrow> (host_alias \<times> u64) list" where
  "join_loop [] ys = ys"
| "join_loop xs [] = xs"
| "join_loop (x # xs) (y # ys) =
     (if fst x < fst y then x # join_loop xs (y # ys)
      else if fst y < fst x then y # join_loop (x # xs) ys
      else (fst x, max (snd x) (snd y)) # join_loop xs ys)"

definition vv_join :: "version_vector \<Rightarrow> version_vector \<Rightarrow> version_vector" where
  "vv_join v w = \<lparr>vv_entries = join_loop (vv_entries v) (vv_entries w)\<rparr>"

definition vv_entry_bytes :: "host_alias \<times> u64 \<Rightarrow> bytes" where
  "vv_entry_bytes e = u16_to_le (fst e) @ u64_to_le (snd e)"

definition vv_to_bytes :: "version_vector \<Rightarrow> bytes" where
  "vv_to_bytes v =
     u16_to_le (word_of_nat (length (vv_entries v))) @ concat (map vv_entry_bytes (vv_entries v))"

text \<open>The loop of \<^verbatim>\<open>from_bytes\<close>: entry \<open>i\<close>, with \<open>n\<close> entries left.\<close>

fun vv_from_loop ::
  "bytes \<Rightarrow> nat \<Rightarrow> nat \<Rightarrow> host_alias option \<Rightarrow> (host_alias \<times> u64) list result" where
  "vv_from_loop buf i 0 prev = Inr []"
| "vv_from_loop buf i (Suc n) prev =
     (let off = 2 + i * 10;
          alias = u16_from_le (slice off 2 buf);
          sync_id = u64_from_le (slice (off + 2) 8 buf)
      in if (case prev of None \<Rightarrow> False | Some p \<Rightarrow> alias \<le> p)
         then Inl (Integrity ''version vector aliases not strictly ascending'')
         else if sync_id = 0
         then Inl (Integrity ''version vector entry has sync_id == 0'')
         else bind_r (vv_from_loop buf (Suc i) n (Some alias))
                (\<lambda>es. Inr ((alias, sync_id) # es)))"

definition vv_from_bytes :: "bytes \<Rightarrow> version_vector result" where
  "vv_from_bytes buf =
     (if length buf < 2 then Inl (Integrity ''version vector buffer too short'')
      else let count = unat (u16_from_le (slice 0 2 buf))
           in if length buf \<noteq> 2 + count * 10
              then Inl (Integrity ''version vector buffer length mismatch'')
              else bind_r (vv_from_loop buf 0 count None) (\<lambda>es. Inr \<lparr>vv_entries = es\<rparr>))"

section \<open>The peer registry\<close>

record peer_entry =
  pe_alias :: host_alias
  pe_pubkey :: bytes
  pe_retired :: bool

record peer_registry =
  pr_local_alias :: host_alias
  pr_entries :: "peer_entry list"

definition PEER_ENTRY_MAGIC :: bytes where
  "PEER_ENTRY_MAGIC = [0x53, 0x46, 0x50, 0x52]"

definition PEER_ENTRY_VERSION :: u8 where
  "PEER_ENTRY_VERSION = 1"

definition PEER_ENTRY_SIZE :: nat where
  "PEER_ENTRY_SIZE = 38"

definition pe_encode :: "peer_entry \<Rightarrow> bytes" where
  "pe_encode e = PEER_ENTRY_MAGIC @ [PEER_ENTRY_VERSION] @ [if pe_retired e then 1 else 0] @ pe_pubkey e"

definition pe_decode :: "host_alias \<Rightarrow> bytes \<Rightarrow> peer_entry result" where
  "pe_decode alias buf =
     (if length buf < PEER_ENTRY_SIZE then Inl (Integrity ''peer entry too short'')
      else if slice 0 4 buf \<noteq> PEER_ENTRY_MAGIC then Inl (Integrity ''peer entry: bad magic'')
      else if buf ! 4 \<noteq> PEER_ENTRY_VERSION then Inl (Integrity ''peer entry: unsupported version'')
      else if buf ! 5 = 0 then
        Inr \<lparr>pe_alias = alias, pe_pubkey = slice 6 32 buf, pe_retired = False\<rparr>
      else if buf ! 5 = 1 then
        Inr \<lparr>pe_alias = alias, pe_pubkey = slice 6 32 buf, pe_retired = True\<rparr>
      else Inl (Integrity ''peer entry: invalid status''))"

definition pr_local :: peer_registry where
  "pr_local = \<lparr>pr_local_alias = 0, pr_entries = []\<rparr>"

definition pr_from_entries :: "host_alias \<Rightarrow> peer_entry list \<Rightarrow> peer_registry" where
  "pr_from_entries a es = \<lparr>pr_local_alias = a, pr_entries = sort_key pe_alias es\<rparr>"

definition pr_alias_of :: "peer_registry \<Rightarrow> bytes \<Rightarrow> host_alias option" where
  "pr_alias_of r pk = map_option pe_alias (List.find (\<lambda>e. pe_pubkey e = pk) (pr_entries r))"

text \<open>
  \<^verbatim>\<open>candidate += 1\<close> at 65535 overflows the alias type: a panic in a build with overflow checks
  (the value wraps to 0 without them).
\<close>

fun next_free_loop :: "host_alias \<Rightarrow> peer_entry list \<Rightarrow> host_alias result" where
  "next_free_loop c [] = Inr c"
| "next_free_loop c (e # es) =
     (if pe_alias e = c then
        (if c = - 1 then Inl (Panic ''attempt to add with overflow'')
         else next_free_loop (c + 1) es)
      else if c < pe_alias e then Inr c
      else next_free_loop c es)"

definition pr_next_free_alias :: "peer_registry \<Rightarrow> host_alias result" where
  "pr_next_free_alias r = next_free_loop 0 (pr_entries r)"

section \<open>The invariant and the pointwise view\<close>

definition vv_inv :: "version_vector \<Rightarrow> bool" where
  "vv_inv v \<longleftrightarrow> sorted_wrt (<) (map fst (vv_entries v)) \<and> (\<forall>e \<in> set (vv_entries v). snd e \<noteq> 0)"

text \<open>The number a sorted list of entries assigns to an alias.\<close>

definition counter :: "(host_alias \<times> u64) list \<Rightarrow> host_alias \<Rightarrow> u64" where
  "counter es h = (case map_of es h of None \<Rightarrow> 0 | Some c \<Rightarrow> c)"

lemma counter_Nil [simp]: "counter [] h = 0"
  by (simp add: counter_def)

lemma counter_Cons [simp]: "counter (e # es) h = (if fst e = h then snd e else counter es h)"
  by (cases e) (auto simp: counter_def)

lemma counter_notin: "h \<notin> fst ` set es \<Longrightarrow> counter es h = 0"
  by (induction es) auto

lemma counter_below: "(\<And>e. e \<in> set es \<Longrightarrow> h < fst e) \<Longrightarrow> counter es h = 0"
  by (rule counter_notin) auto

lemma bsearch_Inr:
  "bsearch h es = Inr i \<Longrightarrow> i < length es \<and> fst (es ! i) = h"
  by (induction es arbitrary: i) (auto split: if_splits simp: map_sum_def split: sum.splits)

lemma bsearch_Inr_counter:
  "sorted_wrt (<) (map fst es) \<Longrightarrow> bsearch h es = Inr i \<Longrightarrow> counter es h = snd (es ! i)"
proof (induction es arbitrary: i)
  case Nil
  then show ?case by simp
next
  case (Cons e es)
  then show ?case by (cases "bsearch h es") (auto split: if_splits)
qed

lemma bsearch_Inl:
  "sorted_wrt (<) (map fst es) \<Longrightarrow> bsearch h es = Inl i \<Longrightarrow>
   i \<le> length es \<and> (\<forall>e \<in> set (take i es). fst e < h) \<and> (\<forall>e \<in> set (drop i es). h < fst e)"
proof (induction es arbitrary: i)
  case Nil
  then show ?case by simp
next
  case (Cons e es)
  then show ?case
    by (cases "bsearch h es") (fastforce split: if_splits)+
qed

lemma vv_get_counter:
  assumes "sorted_wrt (<) (map fst (vv_entries v))"
  shows "vv_get v h = counter (vv_entries v) h"
proof (cases "bsearch h (vv_entries v)")
  case (Inl i)
  have "set (vv_entries v) = set (take i (vv_entries v)) \<union> set (drop i (vv_entries v))"
    by (metis append_take_drop_id set_append)
  with bsearch_Inl[OF assms Inl] have "h \<notin> fst ` set (vv_entries v)" by auto
  with Inl show ?thesis by (simp add: vv_get_def counter_notin)
next
  case (Inr i)
  with bsearch_Inr_counter[OF assms Inr] show ?thesis by (simp add: vv_get_def)
qed

lemma counter_in_set:
  "sorted_wrt (<) (map fst es) \<Longrightarrow> e \<in> set es \<Longrightarrow> counter es (fst e) = snd e"
  by (induction es) (auto simp: sorted_wrt_append)

lemma vv_dominates_iff:
  assumes "vv_inv v" "vv_inv w"
  shows "vv_dominates v w \<longleftrightarrow> (\<forall>h. vv_get w h \<le> vv_get v h)"
proof -
  have sv: "sorted_wrt (<) (map fst (vv_entries v))" and sw: "sorted_wrt (<) (map fst (vv_entries w))"
    using assms by (auto simp: vv_inv_def)
  have loop: "dominates_loop v es \<longleftrightarrow> (\<forall>e \<in> set es. snd e \<le> vv_get v (fst e))" for es
    by (induction es) (auto simp: not_less)
  have "(\<forall>e \<in> set (vv_entries w). snd e \<le> vv_get v (fst e)) \<longleftrightarrow> (\<forall>h. vv_get w h \<le> vv_get v h)"
  proof
    assume L: "\<forall>e \<in> set (vv_entries w). snd e \<le> vv_get v (fst e)"
    show "\<forall>h. vv_get w h \<le> vv_get v h"
    proof
      fix h
      show "vv_get w h \<le> vv_get v h"
      proof (cases "map_of (vv_entries w) h")
        case None
        then show ?thesis by (simp add: vv_get_counter[OF sw] counter_def)
      next
        case (Some c)
        then have "(h, c) \<in> set (vv_entries w)" by (rule map_of_SomeD)
        with L Some show ?thesis by (auto simp: vv_get_counter[OF sw] counter_def)
      qed
    qed
  next
    assume R: "\<forall>h. vv_get w h \<le> vv_get v h"
    then show "\<forall>e \<in> set (vv_entries w). snd e \<le> vv_get v (fst e)"
      using counter_in_set[OF sw] by (metis vv_get_counter[OF sw])
  qed
  with loop show ?thesis by (simp add: vv_dominates_def)
qed

lemma sorted_entries_eq:
  assumes "sorted_wrt (<) (map fst xs)" "sorted_wrt (<) (map fst ys)"
    and "\<forall>e \<in> set xs. snd e \<noteq> 0" "\<forall>e \<in> set ys. snd e \<noteq> 0"
    and "\<And>h. counter xs h = counter ys h"
  shows "xs = ys"
proof -
  have s: "sorted (map fst xs)" "distinct (map fst xs)" "sorted (map fst ys)" "distinct (map fst ys)"
    using assms(1,2) by (simp_all add: strict_sorted_iff)
  have nz: "map_of zs h = Some c \<longleftrightarrow> c \<noteq> 0 \<and> counter zs h = c"
    if "\<forall>e \<in> set zs. snd e \<noteq> 0" for zs h c
    using that by (force simp: counter_def split: option.splits dest: map_of_SomeD)
  have "map_of xs = map_of ys"
  proof
    fix h
    show "map_of xs h = map_of ys h"
      using nz[OF assms(3)] nz[OF assms(4)] assms(5)[of h] by (metis not_None_eq)
  qed
  then have eq: "set xs = set ys" using s by (simp add: map_of_inject_set)
  with s have "inj_on fst (set xs \<union> set ys)" by (simp add: distinct_map)
  with s eq show ?thesis by (blast intro: map_sorted_distinct_set_unique)
qed

section \<open>The operations keep the invariant\<close>

lemma vv_inv_new: "vv_inv vv_new"
  by (simp add: vv_inv_def vv_new_def)

lemma sorted_insert_at:
  assumes "sorted_wrt (<) (map fst es)"
    and "\<forall>e \<in> set (take i es). fst e < h" and "\<forall>e \<in> set (drop i es). h < fst e"
  shows "sorted_wrt (<) (map fst (take i es @ (h, c) # drop i es))"
proof -
  have "sorted_wrt (<) (map fst (take i es) @ map fst (drop i es))"
    using assms(1) by (metis append_take_drop_id map_append)
  with assms(2,3) show ?thesis by (auto simp: sorted_wrt_append)
qed

lemma vv_bump_inv:
  assumes "vv_inv v" and "vv_bump v h = Inr (v', c)"
  shows "vv_inv v'"
proof (cases "bsearch h (vv_entries v)")
  case (Inl i)
  let ?es = "vv_entries v"
  from assms(1) have s: "sorted_wrt (<) (map fst ?es)" and nz: "\<forall>e \<in> set ?es. snd e \<noteq> 0"
    by (auto simp: vv_inv_def)
  from Inl assms(2) have v': "vv_entries v' = take i ?es @ (h, 1) # drop i ?es"
    by (auto simp: vv_bump_def)
  have "set (vv_entries v') \<subseteq> insert (h, 1) (set ?es)"
    by (auto simp: v' dest: in_set_takeD in_set_dropD)
  with nz have "\<forall>e \<in> set (vv_entries v'). snd e \<noteq> 0" by auto
  moreover have "sorted_wrt (<) (map fst (vv_entries v'))"
    unfolding v' using bsearch_Inl[OF s Inl] by (intro sorted_insert_at[OF s]) auto
  ultimately show ?thesis by (simp add: vv_inv_def)
next
  case (Inr i)
  let ?es = "vv_entries v"
  from Inr have i: "i < length ?es" by (simp add: bsearch_Inr)
  from assms(2) Inr have v': "vv_entries v' = ?es[i := (fst (?es ! i), snd (?es ! i) + 1)]"
    and m: "snd (?es ! i) \<noteq> - 1"
    by (auto simp: vv_bump_def Let_def split: if_splits)
  have "map fst (vv_entries v') = map fst ?es"
    using i by (simp add: v' map_update) (metis list_update_id nth_map)
  moreover have "snd (?es ! i) + 1 \<noteq> 0" using m by (metis add_eq_0_iff2)
  ultimately show ?thesis
    using assms(1) i v' by (auto simp: vv_inv_def dest!: set_update_subset_insert[THEN subsetD])
qed

lemma vv_bump_get:
  assumes "vv_inv v" and "vv_bump v h = Inr (v', c)"
  shows "c = vv_get v h + 1" and "vv_get v' k = (if k = h then c else vv_get v k)"
proof -
  let ?es = "vv_entries v"
  have s: "sorted_wrt (<) (map fst ?es)" using assms(1) by (simp add: vv_inv_def)
  have s': "sorted_wrt (<) (map fst (vv_entries v'))"
    using vv_bump_inv[OF assms] by (simp add: vv_inv_def)
  have "c = vv_get v h + 1 \<and> counter (vv_entries v') k = (if k = h then c else counter ?es k)"
  proof (cases "bsearch h ?es")
    case (Inl i)
    have split: "counter (xs @ ys) j = (if j \<in> fst ` set xs then counter xs j else counter ys j)"
      for xs ys j by (induction xs) auto
    have cat: "counter ?es k = counter (take i ?es @ drop i ?es) k" by simp
    from bsearch_Inl[OF s Inl] have h: "h \<notin> fst ` set (take i ?es)" by auto
    from Inl assms(2) have v': "vv_entries v' = take i ?es @ (h, 1) # drop i ?es" and c: "c = 1"
      by (auto simp: vv_bump_def)
    have "counter (vv_entries v') k = (if k = h then c else counter ?es k)"
      unfolding v' cat c split using h by simp
    moreover have "c = vv_get v h + 1" using Inl c by (simp add: vv_get_def)
    ultimately show ?thesis by simp
  next
    case (Inr i)
    from bsearch_Inr[OF Inr] have i: "i < length ?es" "fst (?es ! i) = h" by auto
    have upd: "i < length zs \<Longrightarrow> distinct (map fst zs) \<Longrightarrow>
        counter (zs[i := (fst (zs ! i), x)]) k = (if k = fst (zs ! i) then x else counter zs k)" for zs x
      by (induction zs arbitrary: i) (auto simp: nth_Cons split: nat.splits)
    from s have "distinct (map fst ?es)" by (simp add: strict_sorted_iff)
    with upd[OF i(1)] i(2) Inr assms(2) show ?thesis
      by (auto simp: vv_bump_def vv_get_def Let_def split: if_splits)
  qed
  then show "c = vv_get v h + 1" and "vv_get v' k = (if k = h then c else vv_get v k)"
    by (auto simp: vv_get_counter[OF s] vv_get_counter[OF s'])
qed

lemma join_loop_fst: "fst ` set (join_loop xs ys) = fst ` set xs \<union> fst ` set ys"
  by (induction xs ys rule: join_loop.induct) (auto simp: not_less)

lemma join_loop_sorted:
  "sorted_wrt (<) (map fst xs) \<Longrightarrow> sorted_wrt (<) (map fst ys) \<Longrightarrow>
   sorted_wrt (<) (map fst (join_loop xs ys))"
proof (induction xs ys rule: join_loop.induct)
  case (3 x xs y ys)
  have below: "(\<forall>k \<in> fst ` set (join_loop as bs). a < k) \<longleftrightarrow>
      (\<forall>k \<in> fst ` set as. a < k) \<and> (\<forall>k \<in> fst ` set bs. a < k)" for a as bs
    unfolding join_loop_fst by blast
  show ?case
  proof (cases "fst x < fst y")
    case True
    with 3 below[of xs "y # ys" "fst x"] show ?thesis by (auto simp: image_iff)
  next
    case False
    then show ?thesis
    proof (cases "fst y < fst x")
      case True
      with 3 below[of "x # xs" ys "fst y"] show ?thesis by (auto simp: image_iff)
    next
      case F: False
      with False have "fst x = fst y" by simp
      with 3 False below[of xs ys "fst x"] show ?thesis by (auto simp: image_iff)
    qed
  qed
qed auto

lemma join_loop_nonzero:
  "\<forall>e \<in> set xs. snd e \<noteq> 0 \<Longrightarrow> \<forall>e \<in> set ys. snd e \<noteq> 0 \<Longrightarrow> \<forall>e \<in> set (join_loop xs ys). snd e \<noteq> 0"
  by (induction xs ys rule: join_loop.induct) (auto simp: max_def)

lemma join_loop_counter:
  "sorted_wrt (<) (map fst xs) \<Longrightarrow> sorted_wrt (<) (map fst ys) \<Longrightarrow>
   counter (join_loop xs ys) h = max (counter xs h) (counter ys h)"
proof (induction xs ys rule: join_loop.induct)
  case (3 x xs y ys)
  have low: "counter zs h = 0" if "sorted_wrt (<) (map fst (z # zs))" "h \<le> fst z" for z zs
    using that by (intro counter_below) auto
  show ?case
    using 3 low[of x xs] low[of y ys] by (auto simp: not_less)
qed auto

lemma vv_join_inv: "vv_inv v \<Longrightarrow> vv_inv w \<Longrightarrow> vv_inv (vv_join v w)"
  using join_loop_nonzero[of "vv_entries v" "vv_entries w"]
  by (simp add: vv_inv_def vv_join_def join_loop_sorted)

lemma vv_join_get:
  "vv_inv v \<Longrightarrow> vv_inv w \<Longrightarrow> vv_get (vv_join v w) h = max (vv_get v h) (vv_get w h)"
  using vv_join_inv[of v w]
  by (simp add: vv_inv_def vv_get_counter) (simp add: vv_join_def join_loop_counter)

lemma vv_eqI:
  assumes "vv_inv v" "vv_inv w" "\<And>h. vv_get v h = vv_get w h"
  shows "v = w"
proof -
  have "vv_entries v = vv_entries w"
    using assms by (intro sorted_entries_eq) (auto simp: vv_inv_def vv_get_counter)
  then show ?thesis by simp
qed

section \<open>The lattice of version vectors\<close>

text \<open>
  What the sync code relies on: dominance is a partial order and \<open>join\<close> its least upper bound,
  on the vectors that satisfy the invariant. The algebraic laws, and that a set of replicas
  converges to one vector in whatever order (and however often) they exchange theirs, follow
  from that alone.
\<close>

locale causal_lattice =
  fixes inv :: "'v \<Rightarrow> bool"
    and ge :: "'v \<Rightarrow> 'v \<Rightarrow> bool"
    and join :: "'v \<Rightarrow> 'v \<Rightarrow> 'v"
  assumes ge_refl: "inv a \<Longrightarrow> ge a a"
    and ge_trans: "inv a \<Longrightarrow> inv b \<Longrightarrow> inv c \<Longrightarrow> ge a b \<Longrightarrow> ge b c \<Longrightarrow> ge a c"
    and ge_antisym: "inv a \<Longrightarrow> inv b \<Longrightarrow> ge a b \<Longrightarrow> ge b a \<Longrightarrow> a = b"
    and join_inv: "inv a \<Longrightarrow> inv b \<Longrightarrow> inv (join a b)"
    and join_ge_iff: "inv a \<Longrightarrow> inv b \<Longrightarrow> inv c \<Longrightarrow> ge c (join a b) \<longleftrightarrow> ge c a \<and> ge c b"
begin

lemma join_upper: "inv a \<Longrightarrow> inv b \<Longrightarrow> ge (join a b) a \<and> ge (join a b) b"
  using join_ge_iff[of a b "join a b"] by (simp add: ge_refl join_inv)

lemma eq_by_upper_bounds:
  "inv a \<Longrightarrow> inv b \<Longrightarrow> (\<And>c. inv c \<Longrightarrow> ge c a \<longleftrightarrow> ge c b) \<Longrightarrow> a = b"
  by (meson ge_antisym ge_refl)

lemma join_commute: "inv a \<Longrightarrow> inv b \<Longrightarrow> join a b = join b a"
  by (rule eq_by_upper_bounds) (auto simp: join_inv join_ge_iff)

lemma join_assoc: "inv a \<Longrightarrow> inv b \<Longrightarrow> inv c \<Longrightarrow> join (join a b) c = join a (join b c)"
  by (rule eq_by_upper_bounds) (auto simp: join_inv join_ge_iff)

lemma join_idem: "inv a \<Longrightarrow> join a a = a"
  by (rule eq_by_upper_bounds) (auto simp: join_inv join_ge_iff)

lemma join_absorb: "inv a \<Longrightarrow> inv b \<Longrightarrow> ge a b \<longleftrightarrow> join a b = a"
  by (metis ge_antisym ge_refl join_ge_iff join_inv join_upper)

lemma fold_join_inv: "inv z \<Longrightarrow> \<forall>a \<in> set xs. inv a \<Longrightarrow> inv (foldl join z xs)"
  by (induction xs arbitrary: z) (auto simp: join_inv)

lemma fold_join_ge_iff:
  "inv z \<Longrightarrow> \<forall>a \<in> set xs. inv a \<Longrightarrow> inv c \<Longrightarrow>
   ge c (foldl join z xs) \<longleftrightarrow> ge c z \<and> (\<forall>a \<in> set xs. ge c a)"
  by (induction xs arbitrary: z) (auto simp: join_inv join_ge_iff)

lemma convergence:
  assumes "inv z" "inv z'" "\<forall>a \<in> set xs. inv a" "\<forall>a \<in> set ys. inv a"
    and "set (z # xs) = set (z' # ys)"
  shows "foldl join z xs = foldl join z' ys"
proof (rule eq_by_upper_bounds)
  show "inv (foldl join z xs)" "inv (foldl join z' ys)"
    using assms by (auto intro!: fold_join_inv)
  fix c assume "inv c"
  with assms show "ge c (foldl join z xs) \<longleftrightarrow> ge c (foldl join z' ys)"
    by (simp add: fold_join_ge_iff) (metis insert_iff)
qed

end

interpretation vv: causal_lattice vv_inv vv_dominates vv_join
proof (unfold_locales, goal_cases)
  case (1 a)
  then show ?case by (simp add: vv_dominates_iff)
next
  case (2 a b c)
  then show ?case by (meson vv_dominates_iff order_trans)
next
  case (3 a b)
  then show ?case by (intro vv_eqI) (auto simp: vv_dominates_iff intro: antisym)
next
  case (4 a b)
  then show ?case by (rule vv_join_inv)
next
  case (5 a b c)
  then show ?case
    by (auto simp: vv_dominates_iff vv_join_inv vv_join_get)
qed

section \<open>The wire formats\<close>

lemma vv_entry_bytes_length [simp]: "length (vv_entry_bytes e) = 10"
  by (simp add: vv_entry_bytes_def)

lemma vv_entries_bytes_length [simp]: "length (concat (map vv_entry_bytes es)) = 10 * length es"
  by (simp add: length_concat_fixed[where w = 10])

definition vv_wire_ok :: "version_vector \<Rightarrow> bool" where
  "vv_wire_ok v \<longleftrightarrow> vv_inv v \<and> length (vv_entries v) < 65536"

lemma vv_from_loop_enc:
  assumes "sorted_wrt (<) (map fst es)" "\<forall>e \<in> set es. snd e \<noteq> 0"
    and "case prev of None \<Rightarrow> True | Some p \<Rightarrow> \<forall>e \<in> set es. p < fst e"
    and "slice (2 + i * 10) (10 * length es) buf = concat (map vv_entry_bytes es)"
  shows "vv_from_loop buf i (length es) prev = Inr es"
  using assms
proof (induction es arbitrary: i prev)
  case Nil
  then show ?case by simp
next
  case (Cons e es)
  let ?s = "slice (2 + i * 10) (10 + 10 * length es) buf"
  have s: "?s = u16_to_le (fst e) @ u64_to_le (snd e) @ concat (map vv_entry_bytes es)"
    using Cons.prems(4) by (simp add: vv_entry_bytes_def[of e])
  have a: "slice (2 + i * 10) 2 buf = u16_to_le (fst e)"
    using slice_slice[of 0 2 "10 + 10 * length es" "2 + i * 10" buf] s by (simp add: codec_simps)
  have b: "slice (2 + i * 10 + 2) 8 buf = u64_to_le (snd e)"
    using slice_slice[of 2 8 "10 + 10 * length es" "2 + i * 10" buf] s by (simp add: codec_simps)
  have c: "slice (2 + Suc i * 10) (10 * length es) buf = concat (map vv_entry_bytes es)"
    using slice_slice[of 10 "10 * length es" "10 + 10 * length es" "2 + i * 10" buf] s
    by (simp add: codec_simps add.commute)
  have "vv_from_loop buf (Suc i) (length es) (Some (fst e)) = Inr es"
    using Cons.prems c by (intro Cons.IH) auto
  with Cons.prems a b show ?case by (auto simp: Let_def split: option.splits)
qed

lemma vv_from_loop_dec:
  assumes "vv_from_loop buf i n prev = Inr es" and "2 + (i + n) * 10 \<le> length buf"
  shows "length es = n \<and> sorted_wrt (<) (map fst es) \<and> (\<forall>e \<in> set es. snd e \<noteq> 0) \<and>
    (case prev of None \<Rightarrow> True | Some p \<Rightarrow> \<forall>e \<in> set es. p < fst e) \<and>
    concat (map vv_entry_bytes es) = slice (2 + i * 10) (10 * n) buf"
  using assms
proof (induction n arbitrary: i prev es)
  case 0
  then show ?case by (auto split: option.splits)
next
  case (Suc n)
  let ?a = "u16_from_le (slice (2 + i * 10) 2 buf)" and ?c = "u64_from_le (slice (2 + i * 10 + 2) 8 buf)"
  from Suc.prems(1) obtain es' where es: "es = (?a, ?c) # es'" and c0: "?c \<noteq> 0"
    and p: "case prev of None \<Rightarrow> True | Some p \<Rightarrow> p < ?a"
    and r: "vv_from_loop buf (Suc i) n (Some ?a) = Inr es'"
    by (auto simp: Let_def not_le split: if_splits option.splits)
  from Suc.IH[OF r] Suc.prems(2) have IH: "length es' = n" "sorted_wrt (<) (map fst es')"
    "\<forall>e \<in> set es'. snd e \<noteq> 0" "\<forall>e \<in> set es'. ?a < fst e"
    "concat (map vv_entry_bytes es') = slice (2 + Suc i * 10) (10 * n) buf"
    by auto
  have "vv_entry_bytes (?a, ?c) = slice (2 + i * 10) 2 buf @ slice (2 + i * 10 + 2) 8 buf"
    using Suc.prems(2) by (simp add: vv_entry_bytes_def u16_from_le_inverse u64_from_le_inverse)
  then have "vv_entry_bytes (?a, ?c) = slice (2 + i * 10) 10 buf"
    using slice_join[of "2 + i * 10" 2 buf 8] by simp
  with IH(5) have "concat (map vv_entry_bytes es) = slice (2 + i * 10) 10 buf @ slice (2 + i * 10 + 10) (10 * n) buf"
    by (simp add: es add.commute)
  then have "concat (map vv_entry_bytes es) = slice (2 + i * 10) (10 * Suc n) buf"
    using slice_join[of "2 + i * 10" 10 buf "10 * n"] by simp
  with IH c0 p show ?case
    by (auto simp: es split: option.splits dest: less_trans)
qed

interpretation vv_wire: canonical_codec vv_wire_ok vv_to_bytes vv_from_bytes
proof (unfold_locales, goal_cases)
  case (1 v)
  let ?es = "vv_entries v" and ?buf = "vv_to_bytes v"
  have n: "unat (word_of_nat (length ?es) :: u16) = length ?es"
    using 1 by (simp add: vv_wire_ok_def unat_of_nat)
  have len: "length ?buf = 2 + 10 * length ?es"
    by (simp add: vv_to_bytes_def)
  have "slice 2 (10 * length ?es) ?buf = concat (map vv_entry_bytes ?es)"
    by (simp add: vv_to_bytes_def codec_simps)
  then have "vv_from_loop ?buf 0 (length ?es) None = Inr ?es"
    using 1 by (intro vv_from_loop_enc) (auto simp: vv_wire_ok_def vv_inv_def numeral_2_eq_2)
  moreover have "slice 0 2 ?buf = u16_to_le (word_of_nat (length ?es))"
    by (simp add: vv_to_bytes_def codec_simps)
  ultimately show ?case using len n by (simp add: vv_from_bytes_def)
next
  case (2 bs v)
  let ?n = "u16_from_le (slice 0 2 bs)"
  from 2 have l: "length bs = 2 + unat ?n * 10"
    and r: "vv_from_loop bs 0 (unat ?n) None = Inr (vv_entries v)"
    by (auto simp: vv_from_bytes_def Let_def split: if_splits)
  from vv_from_loop_dec[OF r] l have d: "length (vv_entries v) = unat ?n" "vv_inv v"
    "concat (map vv_entry_bytes (vv_entries v)) = slice 2 (10 * unat ?n) bs"
    by (auto simp: vv_inv_def numeral_2_eq_2)
  have "vv_to_bytes v = slice 0 2 bs @ slice 2 (10 * unat ?n) bs"
    using d l by (simp add: vv_to_bytes_def u16_from_le_inverse)
  also have "\<dots> = bs"
    using slice_join[of 0 2 bs "10 * unat ?n"] l by (simp add: slice_def mult.commute)
  finally show ?case using d unat_lt2p[of ?n] by (simp add: vv_wire_ok_def)
qed

definition pe_wf :: "host_alias \<Rightarrow> peer_entry \<Rightarrow> bool" where
  "pe_wf a e \<longleftrightarrow> pe_alias e = a \<and> length (pe_pubkey e) = 32"

interpretation pe_wire: codec "pe_wf a" pe_encode "pe_decode a" for a
proof (unfold_locales, goal_cases)
  case (1 e)
  then show ?case
    by (cases e) (simp add: pe_wf_def pe_decode_def pe_encode_def PEER_ENTRY_SIZE_def
        PEER_ENTRY_MAGIC_def PEER_ENTRY_VERSION_def codec_simps slice_def)
qed

section \<open>Alias assignment\<close>

lemma next_free_loop_ok:
  assumes "sorted (map pe_alias es)" and "next_free_loop c es = Inr a"
  shows "c \<le> a \<and> a \<notin> pe_alias ` set es \<and> (\<forall>b. c \<le> b \<and> b < a \<longrightarrow> b \<in> pe_alias ` set es)"
  using assms
proof (induction es arbitrary: c)
  case Nil
  then show ?case by auto
next
  case (Cons e es)
  show ?case
  proof (cases "pe_alias e = c")
    case True
    with Cons.prems have m: "c \<noteq> - 1" and r: "next_free_loop (c + 1) es = Inr a"
      by (auto split: if_splits)
    from Cons.IH[OF _ r] Cons.prems(1) have IH: "c + 1 \<le> a" "a \<notin> pe_alias ` set es"
      "\<forall>b. c + 1 \<le> b \<and> b < a \<longrightarrow> b \<in> pe_alias ` set es" by auto
    with m have "c < a" "\<And>b. c + 1 \<le> b \<longleftrightarrow> c < b" by (auto simp: inc_less_eq_iff)
    with IH True show ?thesis by (auto simp: le_less)
  next
    case ne: False
    show ?thesis
    proof (cases "c < pe_alias e")
      case True
      with Cons.prems ne show ?thesis by auto
    next
      case False
      with ne have lt: "pe_alias e < c" by simp
      with Cons.prems False ne have "next_free_loop c es = Inr a" by simp
      with Cons.IH[OF _ this] Cons.prems(1) lt show ?thesis by auto
    qed
  qed
qed

lemma next_free_loop_full:
  assumes "next_free_loop c es = Inl x"
  shows "\<forall>b. c \<le> b \<longrightarrow> b \<in> pe_alias ` set es"
  using assms
proof (induction es arbitrary: c)
  case Nil
  then show ?case by simp
next
  case (Cons e es)
  show ?case
  proof (cases "pe_alias e = c \<and> c \<noteq> - 1")
    case True
    with Cons.prems Cons.IH[of "c + 1"] have "\<forall>b. c + 1 \<le> b \<longrightarrow> b \<in> pe_alias ` set es" by simp
    with True show ?thesis by (metis image_insert inc_le insert_iff le_less list.set(2))
  next
    case False
    show ?thesis
    proof (cases "pe_alias e = c")
      case True
      with False have "c = - 1" by simp
      with True show ?thesis by (auto simp: word_order.extremum_unique)
    next
      case F: False
      with Cons show ?thesis by (auto split: if_splits)
    qed
  qed
qed

lemma sorted_from_entries: "sorted (map pe_alias (pr_entries (pr_from_entries a es)))"
  by (simp add: pr_from_entries_def)

lemma set_from_entries: "set (pr_entries (pr_from_entries a es)) = set es"
  by (simp add: pr_from_entries_def)

section \<open>Properties\<close>

text \<open>\<open>join\<close> keeps the invariant, computes the pointwise maximum of the counters, and is the least
  vector that dominates both arguments.\<close>

theorem vv_join_lub:
  assumes "vv_inv v" and "vv_inv w"
  shows "vv_inv (vv_join v w)
    \<and> (\<forall>h. vv_get (vv_join v w) h = max (vv_get v h) (vv_get w h))
    \<and> vv_dominates (vv_join v w) v \<and> vv_dominates (vv_join v w) w
    \<and> (\<forall>u. vv_inv u \<longrightarrow> vv_dominates u v \<longrightarrow> vv_dominates u w \<longrightarrow> vv_dominates u (vv_join v w))"
  using assms by (simp add: vv_join_inv vv_join_get vv.join_upper vv.join_ge_iff)

theorem vv_join_lub_witness:
  "vv_inv \<lparr>vv_entries = [(0, 3), (2, 1)]\<rparr> \<and> vv_inv \<lparr>vv_entries = [(1, 4), (2, 5)]\<rparr>
   \<and> vv_dominates (vv_join \<lparr>vv_entries = [(0, 3), (2, 1)]\<rparr> \<lparr>vv_entries = [(1, 4), (2, 5)]\<rparr>)
       \<lparr>vv_entries = [(0, 3), (2, 1)]\<rparr>
   \<and> vv_join \<lparr>vv_entries = [(0, 3), (2, 1)]\<rparr> \<lparr>vv_entries = [(1, 4), (2, 5)]\<rparr>
       = \<lparr>vv_entries = [(0, 3), (1, 4), (2, 5)]\<rparr>"
proof -
  have i: "vv_inv \<lparr>vv_entries = [(0, 3), (2, 1)]\<rparr>" "vv_inv \<lparr>vv_entries = [(1, 4), (2, 5)]\<rparr>"
    by (simp_all add: vv_inv_def)
  show ?thesis using i vv_join_lub[OF i] by (simp add: vv_join_def)
qed

text \<open>C10. Replicas that exchange the same set of version vectors by \<open>join\<close> end with the same vector,
  whatever the order and the number of repetitions of the exchanges.\<close>

theorem vv_convergence:
  assumes "\<forall>v \<in> set (z # xs). vv_inv v" and "set (z # xs) = set (z' # ys)"
  shows "foldl vv_join z xs = foldl vv_join z' ys"
proof -
  from assms have "\<forall>v \<in> set (z' # ys). vv_inv v" by (simp only:)
  with assms show ?thesis by (intro vv.convergence) auto
qed

theorem vv_convergence_witness:
  "foldl vv_join \<lparr>vv_entries = [(0, 1)]\<rparr> [\<lparr>vv_entries = [(1, 2)]\<rparr>, \<lparr>vv_entries = [(0, 3)]\<rparr>]
   = foldl vv_join \<lparr>vv_entries = [(0, 3)]\<rparr>
       [\<lparr>vv_entries = [(0, 1)]\<rparr>, \<lparr>vv_entries = [(1, 2)]\<rparr>, \<lparr>vv_entries = [(0, 1)]\<rparr>]"
  by (rule vv_convergence) (auto simp: vv_inv_def)

text \<open>\<open>bump\<close> on an alias keeps the invariant, adds one to that counter and to no other, returns the
  new counter, and the new vector strictly dominates the old one; it fails only at the largest
  64-bit counter.\<close>

theorem vv_bump_correct:
  assumes "vv_inv v"
  shows "(case vv_bump v h of
      Inr (v', c) \<Rightarrow> vv_inv v' \<and> c = vv_get v h + 1 \<and> vv_get v h < c
        \<and> (\<forall>k. vv_get v' k = (if k = h then c else vv_get v k))
        \<and> vv_dominates v' v \<and> \<not> vv_dominates v v'
    | Inl _ \<Rightarrow> vv_get v h = - 1)"
proof (cases "vv_bump v h")
  case (Inl e)
  then show ?thesis
    by (auto simp: vv_bump_def vv_get_def Let_def split: sum.splits if_splits)
next
  case (Inr p)
  obtain v' c where p: "p = (v', c)" by (cases p)
  with Inr have r: "vv_bump v h = Inr (v', c)" by simp
  note g = vv_bump_get[OF assms r] and i = vv_bump_inv[OF assms r]
  have "vv_get v h \<noteq> - 1"
    using r by (auto simp: vv_bump_def vv_get_def Let_def split: sum.splits if_splits)
  then have "vv_get v h < c"
    using g(1) inc_less_eq_self_iff_eq[of "vv_get v h"] by (simp add: not_le)
  with g i assms Inr p show ?thesis by (auto simp: vv_dominates_iff not_le)
qed

theorem vv_bump_correct_witness:
  "vv_inv \<lparr>vv_entries = [(0, 3), (2, 1)]\<rparr>
   \<and> vv_bump \<lparr>vv_entries = [(0, 3), (2, 1)]\<rparr> 1 = Inr (\<lparr>vv_entries = [(0, 3), (1, 1), (2, 1)]\<rparr>, 1)
   \<and> \<not> vv_dominates \<lparr>vv_entries = [(0, 3), (2, 1)]\<rparr> \<lparr>vv_entries = [(0, 3), (1, 1), (2, 1)]\<rparr>"
proof -
  have i: "vv_inv \<lparr>vv_entries = [(0, 3), (2, 1)]\<rparr>" by (simp add: vv_inv_def)
  have b: "vv_bump \<lparr>vv_entries = [(0, 3), (2, 1)]\<rparr> 1 = Inr (\<lparr>vv_entries = [(0, 3), (1, 1), (2, 1)]\<rparr>, 1)"
    by (simp add: vv_bump_def)
  show ?thesis using i b vv_bump_correct[OF i, of 1] by simp
qed

text \<open>C15. The wire format is canonical: a byte string decodes to a vector exactly if the vector
  satisfies the invariant, has fewer than 65536 entries and the string is its encoding. So
  encoding and decoding are inverse to each other and malformed input is always rejected.\<close>

theorem vv_wire_canonical:
  "vv_from_bytes bs = Inr v \<longleftrightarrow> vv_wire_ok v \<and> vv_to_bytes v = bs"
  by (rule vv_wire.dec_iff)

text \<open>C16. The 16-bit entry count is truncated: a well-formed vector that names all 65536 aliases encodes
  to a string that \<open>from_bytes\<close> rejects.\<close>

theorem vv_full_vector_not_decodable:
  assumes "vv_inv v" and "length (vv_entries v) = 65536"
  shows "vv_from_bytes (vv_to_bytes v) = Inl (Integrity ''version vector buffer length mismatch'')"
proof -
  have "(word_of_nat 65536 :: u16) = 0"
    by (rule word_of_nat_eq_0_iff[THEN iffD2]) simp
  then have "slice 0 2 (vv_to_bytes v) = u16_to_le 0"
    using assms(2) by (simp add: vv_to_bytes_def codec_simps del: of_nat_numeral)
  moreover have "length (vv_to_bytes v) = 2 + 655360"
    using assms(2) by (simp add: vv_to_bytes_def)
  ultimately show ?thesis by (simp add: vv_from_bytes_def)
qed

lemma sorted_wrt_word_upt:
  "n \<le> 65536 \<Longrightarrow> sorted_wrt (<) (map (word_of_nat :: nat \<Rightarrow> u16) [0..<n])"
  by (induction n) (auto simp: sorted_wrt_append word_less_nat_alt unat_of_nat)

theorem vv_full_vector_not_decodable_witness:
  "vv_from_bytes (vv_to_bytes \<lparr>vv_entries = map (\<lambda>i. (word_of_nat i, 1)) [0..<65536]\<rparr>)
   = Inl (Integrity ''version vector buffer length mismatch'')"
proof -
  have "map (fst \<circ> (\<lambda>i. (word_of_nat i :: u16, 1 :: u64))) [0..<65536]
      = map (word_of_nat :: nat \<Rightarrow> u16) [0..<65536]" by (rule map_cong) auto
  then have i: "vv_inv \<lparr>vv_entries = map (\<lambda>i. (word_of_nat i, 1)) [0..<65536]\<rparr>"
    using sorted_wrt_word_upt[of 65536]
    by (simp only: vv_inv_def version_vector.simps map_map) auto
  have l: "length (vv_entries \<lparr>vv_entries = map (\<lambda>i. (word_of_nat i, 1)) [0..<65536]\<rparr>) = 65536"
    by (simp only: version_vector.simps length_map length_upt)
  show ?thesis by (rule vv_full_vector_not_decodable[OF i l])
qed

text \<open>In a registry built from loaded entries, the next free alias is the smallest alias that no
  entry holds, retired entries included; the computation overflows only when all 65536 aliases
  are taken.\<close>

theorem next_free_alias_smallest:
  "(case pr_next_free_alias (pr_from_entries l es) of
      Inr a \<Rightarrow> a \<notin> pe_alias ` set es \<and> (\<forall>b < a. b \<in> pe_alias ` set es)
    | Inl _ \<Rightarrow> \<forall>b. b \<in> pe_alias ` set es)"
proof (cases "pr_next_free_alias (pr_from_entries l es)")
  case (Inl e)
  then show ?thesis
    using next_free_loop_full[of 0 "pr_entries (pr_from_entries l es)" e]
    by (simp add: pr_next_free_alias_def set_from_entries)
next
  case (Inr a)
  then show ?thesis
    using next_free_loop_ok[OF sorted_from_entries, of 0 l es a]
    by (simp add: pr_next_free_alias_def set_from_entries)
qed

theorem next_free_alias_smallest_witness:
  "pr_next_free_alias (pr_from_entries 0
      [\<lparr>pe_alias = 1, pe_pubkey = [], pe_retired = True\<rparr>, \<lparr>pe_alias = 0, pe_pubkey = [], pe_retired = False\<rparr>])
   = Inr 2
   \<and> 2 \<notin> pe_alias ` set [\<lparr>pe_alias = 1, pe_pubkey = [], pe_retired = True\<rparr>,
        \<lparr>pe_alias = 0, pe_pubkey = [], pe_retired = False\<rparr>]"
proof -
  let ?es = "[\<lparr>pe_alias = 1, pe_pubkey = [], pe_retired = True\<rparr>,
        \<lparr>pe_alias = 0, pe_pubkey = [], pe_retired = False\<rparr>]"
  have "pr_next_free_alias (pr_from_entries 0 ?es) = Inr 2"
    by (simp add: pr_next_free_alias_def pr_from_entries_def)
  then show ?thesis using next_free_alias_smallest[where l = 0 and es = ?es] by simp
qed

end
