(* ===== verification/Fragments.thy ===== *)
theory Fragments
  imports Version_Vector
begin

unbundle bit_operations_syntax

text \<open>
  The fixed-size block layer, \<^verbatim>\<open>sfs-core/src/block.rs\<close>: causal dots packed into 64 bits, the test
  whether a version vector has seen a dot, the fragment-size schedule, and the split of a unit
  into fragments. Sizes, offsets and exponents are natural numbers; the narrowing casts of the
  source (\<^verbatim>\<open>as u32\<close>) are written out. The \<^verbatim>\<open>debug_assert\<close>s of the source are not part of a release
  build; where a property needs them they are its hypotheses.
\<close>

section \<open>Causal dots\<close>

type_synonym block_version = u64

definition pack_dot :: "u16 \<Rightarrow> u64 \<Rightarrow> block_version" where
  "pack_dot host sync_id = push_bit 16 sync_id OR ucast host"

definition dot_host :: "block_version \<Rightarrow> u16" where
  "dot_host v = ucast (v AND 0xFFFF)"

definition dot_sync_id :: "block_version \<Rightarrow> u64" where
  "dot_sync_id v = drop_bit 16 v"

definition has_seen_dot :: "version_vector \<Rightarrow> block_version \<Rightarrow> bool" where
  "has_seen_dot vv d =
     (let sid = dot_sync_id d
      in if sid = 0 then True else sid \<le> vv_get vv (dot_host d))"

section \<open>Fragment sizes\<close>

definition FRAGSIZE_FLOOR_EXP :: nat where
  "FRAGSIZE_FLOOR_EXP = 12"

text \<open>The loop of \<^verbatim>\<open>derive_fragsize_exp\<close>; it runs at most five times, since \<open>2 ^ k\<close> reaches 52 at \<open>k = 6\<close>.\<close>

function derive_loop :: "nat \<Rightarrow> nat \<Rightarrow> nat \<Rightarrow> nat \<Rightarrow> nat" where
  "derive_loop unit_size max_exp k e =
     (if 52 \<le> (2::nat) ^ k then e
      else let step_exp = 10 + 2 ^ k
           in if 1 \<le> unit_size div 2 ^ step_exp then
                (if max_exp \<le> step_exp then min step_exp max_exp
                 else derive_loop unit_size max_exp (Suc k) (min step_exp max_exp))
              else e)"
  by pat_completeness auto
termination
proof (relation "measure (\<lambda>(u, m, k, e). 6 - k)", goal_cases)
  case 1
  then show ?case by simp
next
  case (2 u m k e x)
  have "k < 6"
  proof (rule ccontr)
    assume "\<not> k < 6"
    then have "(2::nat) ^ 6 \<le> 2 ^ k" by (intro power_increasing) auto
    with 2 show False by simp
  qed
  then show ?case by simp
qed

declare derive_loop.simps [simp del]

text \<open>\<^verbatim>\<open>clamp\<close> panics when its bounds are in the wrong order.\<close>

definition derive_fragsize_exp :: "nat \<Rightarrow> nat \<Rightarrow> nat \<Rightarrow> nat result" where
  "derive_fragsize_exp unit_size floor_exp max_exp =
     (if unit_size = 0 then Inr floor_exp
      else let e = derive_loop unit_size max_exp 1 floor_exp
           in if max_exp < floor_exp then Inl (Panic ''assertion failed: min <= max'')
              else Inr (if e < floor_exp then floor_exp else if max_exp < e then max_exp else e))"

definition frag_index :: "nat \<Rightarrow> nat \<Rightarrow> u32" where
  "frag_index offset exp = word_of_nat (offset div 2 ^ exp)"

definition last_frag_length :: "nat \<Rightarrow> nat \<Rightarrow> u32" where
  "last_frag_length unit_size exp =
     (if unit_size = 0 then 0
      else let fragsize = 2 ^ exp; remainder = unit_size mod fragsize
           in if remainder = 0 then word_of_nat fragsize else word_of_nat remainder)"

text \<open>\<^verbatim>\<open>slice::chunks\<close> (which panics for a chunk size of 0, excluded here by \<open>2 ^ exp\<close>).\<close>

function chunks :: "nat \<Rightarrow> 'a list \<Rightarrow> 'a list list" where
  "chunks n xs = (if n = 0 \<or> xs = [] then [] else take n xs # chunks n (drop n xs))"
  by pat_completeness auto
termination
  by (relation "measure (\<lambda>(n, xs). length xs)") auto

declare chunks.simps [simp del]

definition split_fixed :: "bytes \<Rightarrow> nat \<Rightarrow> (u32 \<times> bytes) list" where
  "split_fixed data exp =
     map (\<lambda>p. (word_of_nat (fst p), snd p)) (List.enumerate 0 (chunks (2 ^ exp) data))"

section \<open>Dots: lemmas\<close>

lemma bit_pack_dot:
  "bit (pack_dot h s) n \<longleftrightarrow> n < 64 \<and> (if n < 16 then bit h n else bit s (n - 16))"
  using bit_imp_le_length[of h n]
  by (auto simp: pack_dot_def bit_or_iff bit_push_bit_iff bit_ucast_iff)

lemma dot_host_pack [simp]: "dot_host (pack_dot h s) = h"
proof (rule bit_word_eqI)
  fix n assume "n < LENGTH(16)"
  moreover have "bit (0xFFFF :: u64) n \<longleftrightarrow> n < 16" for n
    using bit_mask_iff[of 16 n, where ?'a = u64] by (auto simp: mask_eq_exp_minus_1)
  ultimately show "bit (dot_host (pack_dot h s)) n = bit h n"
    by (auto simp: dot_host_def bit_ucast_iff bit_and_iff bit_pack_dot)
qed

lemma dot_sync_id_pack:
  assumes "s < 2 ^ 48"
  shows "dot_sync_id (pack_dot h s) = s"
proof (rule bit_word_eqI)
  fix n assume n: "n < LENGTH(64)"
  have "unat s < 2 ^ 48" using assms by (simp add: word_less_nat_alt)
  then have "unat (take_bit 48 s) = unat s"
    by (simp add: unsigned_take_bit_eq take_bit_nat_eq_self_iff)
  then have "take_bit 48 s = s" by (rule word_unat_eq_iff[THEN iffD2])
  then have "bit s n \<Longrightarrow> n < 48" by (metis bit_take_bit_iff)
  then show "bit (dot_sync_id (pack_dot h s)) n = bit s n"
    using n by (auto simp: dot_sync_id_def bit_drop_bit_eq bit_pack_dot)
qed

lemma has_seen_dot_iff: "has_seen_dot v d \<longleftrightarrow> dot_sync_id d \<le> vv_get v (dot_host d)"
  by (simp add: has_seen_dot_def Let_def)

section \<open>The fragment-size schedule: lemmas\<close>

lemma le_div_power_iff: "Suc 0 \<le> u div 2 ^ n \<longleftrightarrow> (2::nat) ^ n \<le> u"
  by (simp add: less_eq_div_iff_mult_less_eq)

lemma derive_loop_table:
  "derive_loop u m 1 e =
     (if u < 2 ^ 12 then e else if m \<le> 12 then m
      else if u < 2 ^ 14 then 12 else if m \<le> 14 then m
      else if u < 2 ^ 18 then 14 else if m \<le> 18 then m
      else if u < 2 ^ 26 then 18 else if m \<le> 26 then m
      else if u < 2 ^ 42 then 26 else min 42 m)"
proof -
  have s6: "derive_loop u m 6 e = e" for e
    by (subst derive_loop.simps) simp
  have s5: "derive_loop u m 5 e = (if u < 2 ^ 42 then e else min 42 m)" for e
    by (subst derive_loop.simps) (simp add: le_div_power_iff Let_def s6)
  have s4: "derive_loop u m 4 e = (if u < 2 ^ 26 then e else if m \<le> 26 then m else derive_loop u m 5 26)" for e
    by (subst derive_loop.simps) (simp add: le_div_power_iff Let_def)
  have s3: "derive_loop u m 3 e = (if u < 2 ^ 18 then e else if m \<le> 18 then m else derive_loop u m 4 18)" for e
    by (subst derive_loop.simps) (simp add: le_div_power_iff Let_def)
  have s2: "derive_loop u m 2 e = (if u < 2 ^ 14 then e else if m \<le> 14 then m else derive_loop u m 3 14)" for e
    by (subst derive_loop.simps) (simp add: le_div_power_iff Let_def)
  have "derive_loop u m 1 e = (if u < 2 ^ 12 then e else if m \<le> 12 then m else derive_loop u m 2 12)"
    by (subst derive_loop.simps) (simp add: le_div_power_iff Let_def flip: numeral_2_eq_2)
  then show ?thesis by (simp add: s2 s3 s4 s5)
qed

lemmas derive_loop_table_0 = derive_loop_table[unfolded One_nat_def]

lemma derive_fragsize_exp_value:
  "f \<le> m \<Longrightarrow> derive_fragsize_exp u f m = Inr (max f (min m (derive_loop u m 1 f)))"
  by (auto simp: derive_fragsize_exp_def Let_def derive_loop_table_0)

lemma derive_loop_mono:
  "f \<le> m \<Longrightarrow> u \<le> u' \<Longrightarrow>
   max f (min m (derive_loop u m 1 f)) \<le> max f (min m (derive_loop u' m 1 f))"
  unfolding derive_loop_table by auto

section \<open>Splitting: lemmas\<close>

lemma chunks_Nil [simp]: "chunks n [] = []"
  by (subst chunks.simps) simp

lemma chunks_step: "0 < n \<Longrightarrow> xs \<noteq> [] \<Longrightarrow> chunks n xs = take n xs # chunks n (drop n xs)"
  by (subst chunks.simps) simp

lemma concat_chunks: "0 < n \<Longrightarrow> concat (chunks n xs) = xs"
proof (induction n xs rule: chunks.induct)
  case (1 n xs)
  then show ?case by (cases "xs = []") (simp_all add: chunks_step)
qed

lemma length_chunks: "0 < n \<Longrightarrow> length (chunks n xs) = (length xs + n - 1) div n"
proof (induction n xs rule: chunks.induct)
  case (1 n xs)
  show ?case
  proof (cases "xs = []")
    case True
    with 1 show ?thesis by simp
  next
    case False
    with 1 have IH: "length (chunks n xs) = Suc ((length xs - n + n - 1) div n)"
      by (simp add: chunks_step)
    show ?thesis
    proof (cases "n \<le> length xs")
      case True
      then have "(length xs + n - 1) div n = Suc ((length xs - 1) div n)"
        using 1(2) by (metis Nat.add_diff_assoc2 add.commute div_add_self2 le_add2 le_trans
            less_numeral_extra(3) plus_1_eq_Suc Suc_leI)
      with IH True show ?thesis by simp
    next
      case lt: False
      with 1(2) False have "(length xs + n - 1) div n = 1"
        by (intro div_nat_eqI) (cases xs; simp)+
      moreover have "(length xs - n + n - 1) div n = 0" using lt 1(2) by simp
      ultimately show ?thesis using IH by simp
    qed
  qed
qed

lemma nth_chunks:
  "0 < n \<Longrightarrow> n * i < length xs \<Longrightarrow> i < length (chunks n xs) \<and> chunks n xs ! i = slice (n * i) n xs"
proof (induction i arbitrary: xs)
  case 0
  then show ?case by (auto simp: chunks_step slice_def)
next
  case (Suc i)
  then have "xs \<noteq> []" and "n * i < length (drop n xs)" by auto
  with Suc.prems Suc.IH[of "drop n xs"] show ?case
    by (simp add: chunks_step[of n xs] slice_def add.commute)
qed

lemma split_fixed_length [simp]: "length (split_fixed data exp) = length (chunks (2 ^ exp) data)"
  by (simp add: split_fixed_def)

lemma split_fixed_nth:
  "2 ^ exp * i < length data \<Longrightarrow>
   i < length (split_fixed data exp) \<and> split_fixed data exp ! i = (word_of_nat i, slice (2 ^ exp * i) (2 ^ exp) data)"
  using nth_chunks[of "2 ^ exp" i data]
  by (simp add: split_fixed_def nth_enumerate_eq)

lemma map_snd_split_fixed: "map snd (split_fixed data exp) = chunks (2 ^ exp) data"
proof -
  have "map snd (split_fixed data exp) = map snd (List.enumerate 0 (chunks (2 ^ exp) data))"
    by (simp add: split_fixed_def comp_def)
  then show ?thesis by simp
qed

lemma last_piece:
  fixes u n :: nat
  assumes "0 < n" "0 < u"
  shows "(u + n - 1) div n = Suc ((u - 1) div n)"
    and "n * ((u - 1) div n) + (if u mod n = 0 then n else u mod n) = u"
proof -
  have e: "u + n - 1 = (u - 1) + n" using assms by simp
  show "(u + n - 1) div n = Suc ((u - 1) div n)"
    using div_add_self2[of n "u - 1"] assms by (simp only: e Suc_eq_plus1 neq0_conv)
  show "n * ((u - 1) div n) + (if u mod n = 0 then n else u mod n) = u"
  proof (cases "u mod n = 0")
    case True
    then obtain q where q: "u = n * q" by (auto elim: dvdE simp: mod_eq_0_iff_dvd)
    with assms obtain q' where "q = Suc q'" by (cases q) auto
    with q assms have "u - 1 = n * q' + (n - 1)" by (simp add: algebra_simps)
    moreover have "(n * q' + (n - 1)) div n = q'"
      using assms(1) div_mult_self2[of n "n - 1" q'] by (simp only: add.commute) simp
    ultimately have "(u - 1) div n = q'" by simp
    with q \<open>q = Suc q'\<close> True show ?thesis by simp
  next
    case False
    then have "(u - 1) div n = u div n"
      using assms by (metis Suc_pred' div_Suc gr0_conv_Suc)
    with False show ?thesis by simp
  qed
qed

lemma ceil_div_le: "0 < n \<Longrightarrow> u \<le> k * n \<Longrightarrow> (u + n - 1) div n \<le> (k::nat)"
  using last_piece(1)[of n u] by (cases u) (auto simp: Suc_le_eq div_less_iff_less_mult)

lemma split_fixed_lengths:
  fixes data :: bytes and exp :: nat
  assumes "data \<noteq> []"
  defines "q \<equiv> (length data - 1) div 2 ^ exp"
  shows "length (split_fixed data exp) = Suc q"
    and "i < q \<Longrightarrow> length (snd (split_fixed data exp ! i)) = 2 ^ exp"
    and "length (snd (split_fixed data exp ! q)) = (if length data mod 2 ^ exp = 0 then 2 ^ exp else length data mod 2 ^ exp)"
proof -
  let ?n = "2 ^ exp :: nat" and ?u = "length data"
  have u: "0 < ?u" using assms(1) by simp
  have n: "0 < ?n" by simp
  show "length (split_fixed data exp) = Suc q"
    using last_piece(1)[OF n u] by (simp add: length_chunks q_def)
  have nq: "?n * q \<le> ?u - 1" by (simp add: q_def)
  { assume "i < q"
    then have "?n * Suc i \<le> ?n * q" by (intro mult_le_mono2) simp
    then have "?n + ?n * i \<le> ?n * q" by simp
    with nq u n have i: "?n * i < ?u" and "?n \<le> ?u - ?n * i" by linarith+
    with split_fixed_nth[OF i] show "length (snd (split_fixed data exp ! i)) = ?n" by simp }
  have q: "?n * q < ?u" using nq u by linarith
  define r where "r = (if ?u mod ?n = 0 then ?n else ?u mod ?n)"
  have "?n * q + r = ?u" using last_piece(2)[OF n u] by (simp only: q_def r_def)
  moreover have "r \<le> ?n" using mod_less_divisor[OF n, of ?u] by (simp add: r_def less_imp_le)
  ultimately have "min ?n (?u - ?n * q) = r" by linarith
  with split_fixed_nth[OF q]
  show "length (snd (split_fixed data exp ! q)) = (if ?u mod ?n = 0 then ?n else ?u mod ?n)"
    unfolding r_def[symmetric] by simp
qed

section \<open>Properties\<close>

text \<open>The dot of a fresh write, packed from the alias and the counter that \<open>bump\<close> returned, unpacks to
  that alias and counter, is seen by the bumped vector and by every vector that dominates it,
  and was not seen by the vector before the write; the counter must be below the 48-bit ceiling.\<close>

theorem fresh_dot_seen:
  assumes "vv_inv v" and "vv_bump v h = Inr (v', c)" and "c < 2 ^ 48"
  shows "dot_host (pack_dot h c) = h \<and> dot_sync_id (pack_dot h c) = c
    \<and> \<not> has_seen_dot v (pack_dot h c)
    \<and> (\<forall>u. vv_inv u \<longrightarrow> vv_dominates u v' \<longrightarrow> has_seen_dot u (pack_dot h c))"
proof -
  note g = vv_bump_get[OF assms(1,2)] and i = vv_bump_inv[OF assms(1,2)]
  have "vv_get v h \<noteq> - 1"
    using assms(2) by (auto simp: vv_bump_def vv_get_def Let_def split: sum.splits if_splits)
  then have "vv_get v h < c"
    using g(1) inc_less_eq_self_iff_eq[of "vv_get v h"] by (simp add: not_le)
  moreover have "c \<le> vv_get u h" if "vv_inv u" "vv_dominates u v'" for u
    using that i vv_dominates_iff[of u v'] g(2)[of h] by metis
  ultimately show ?thesis
    using assms(3) by (simp add: has_seen_dot_iff dot_sync_id_pack)
qed

theorem fresh_dot_seen_witness:
  "vv_bump \<lparr>vv_entries = [(5, 6)]\<rparr> 5 = Inr (\<lparr>vv_entries = [(5, 7)]\<rparr>, 7)
   \<and> \<not> has_seen_dot \<lparr>vv_entries = [(5, 6)]\<rparr> (pack_dot 5 7) \<and> dot_sync_id (pack_dot 5 7) = 7"
proof -
  have b: "vv_bump \<lparr>vv_entries = [(5, 6)]\<rparr> 5 = Inr (\<lparr>vv_entries = [(5, 7)]\<rparr>, 7)"
    by (simp add: vv_bump_def)
  have i: "vv_inv \<lparr>vv_entries = [(5, 6)]\<rparr>" by (simp add: vv_inv_def)
  show ?thesis using b fresh_dot_seen[OF i b] by simp
qed

text \<open>Merging adds up what the two sides have seen and nothing else: the joined vector has seen a
  dot exactly if one of the two vectors has.\<close>

theorem has_seen_dot_join:
  assumes "vv_inv v" and "vv_inv w"
  shows "has_seen_dot (vv_join v w) d \<longleftrightarrow> has_seen_dot v d \<or> has_seen_dot w d"
  using assms by (auto simp: has_seen_dot_iff vv_join_get le_max_iff_disj)

theorem has_seen_dot_join_witness:
  "has_seen_dot (vv_join \<lparr>vv_entries = [(1, 4)]\<rparr> \<lparr>vv_entries = [(2, 9)]\<rparr>) (pack_dot 2 8)
   \<longleftrightarrow> has_seen_dot \<lparr>vv_entries = [(1, 4)]\<rparr> (pack_dot 2 8) \<or> has_seen_dot \<lparr>vv_entries = [(2, 9)]\<rparr> (pack_dot 2 8)"
  by (rule has_seen_dot_join) (simp_all add: vv_inv_def)

text \<open>The fragment-size exponent lies between the floor and the maximum, and never shrinks when the
  unit grows. With the production bounds 12 and 22 it is 12 below 16 KiB, 14 below 256 KiB, 18
  below 64 MiB and 22 from there on, so that a unit below 64 MiB has at most 256 fragments.\<close>

theorem fragsize_schedule:
  assumes "f \<le> m"
  shows "(\<exists>e. derive_fragsize_exp u f m = Inr e \<and> f \<le> e \<and> e \<le> m
        \<and> (\<forall>u' \<ge> u. \<exists>e'. derive_fragsize_exp u' f m = Inr e' \<and> e \<le> e'))
    \<and> derive_fragsize_exp u 12 22 =
        Inr (if u < 2 ^ 14 then 12 else if u < 2 ^ 18 then 14 else if u < 2 ^ 26 then 18 else 22)
    \<and> (u < 2 ^ 26 \<longrightarrow> (\<exists>e. derive_fragsize_exp u 12 22 = Inr e \<and> (u + 2 ^ e - 1) div 2 ^ e \<le> 256))"
proof -
  have t: "derive_fragsize_exp u 12 22 =
        Inr (if u < 2 ^ 14 then 12 else if u < 2 ^ 18 then 14 else if u < 2 ^ 26 then 18 else 22)"
    by (simp add: derive_fragsize_exp_value derive_loop_table_0)
  have "\<exists>e. derive_fragsize_exp u 12 22 = Inr e \<and> (u + 2 ^ e - 1) div 2 ^ e \<le> 256" if "u < 2 ^ 26"
  proof -
    have "u < 2 ^ 14 \<Longrightarrow> (u + 2 ^ 12 - 1) div 2 ^ 12 \<le> 256"
      and "u < 2 ^ 18 \<Longrightarrow> (u + 2 ^ 14 - 1) div 2 ^ 14 \<le> 256"
      and "(u + 2 ^ 18 - 1) div 2 ^ 18 \<le> 256"
      using that by (intro ceil_div_le; simp)+
    with that show ?thesis by (simp add: t)
  qed
  with t show ?thesis
    using derive_loop_mono[OF assms] assms by (simp add: derive_fragsize_exp_value)
qed

theorem fragsize_schedule_witness:
  "(12::nat) \<le> 22 \<and> derive_fragsize_exp (5 * 2 ^ 20) 12 22 = Inr 18
   \<and> (\<exists>e. derive_fragsize_exp (5 * 2 ^ 20) 12 22 = Inr e \<and> (5 * 2 ^ 20 + 2 ^ e - 1) div 2 ^ e \<le> (256::nat))"
  using fragsize_schedule[of 12 22 "5 * 2 ^ 20"] by simp

text \<open>Splitting loses nothing and addresses every byte: the fragments concatenate to the data, there
  are as many as the size needs, byte \<open>k\<close> of the data is byte \<open>k mod 2 ^ exp\<close> of the fragment that
  \<open>frag_index\<close> names, and all fragments but the last are full while the last has the length that
  \<open>last_frag_length\<close> computes.\<close>

theorem split_fixed_correct:
  assumes "exp < 32"
  shows "concat (map snd (split_fixed data exp)) = data
    \<and> length (split_fixed data exp) = (length data + 2 ^ exp - 1) div 2 ^ exp
    \<and> (\<forall>k < length data. k div 2 ^ exp < length (split_fixed data exp)
         \<and> fst (split_fixed data exp ! (k div 2 ^ exp)) = frag_index k exp
         \<and> snd (split_fixed data exp ! (k div 2 ^ exp)) ! (k mod 2 ^ exp) = data ! k)
    \<and> (\<forall>i. Suc i < length (split_fixed data exp) \<longrightarrow> length (snd (split_fixed data exp ! i)) = 2 ^ exp)
    \<and> (data \<noteq> [] \<longrightarrow> length (snd (last (split_fixed data exp))) = unat (last_frag_length (length data) exp))"
proof (intro conjI allI impI)
  let ?n = "2 ^ exp :: nat" and ?s = "split_fixed data exp"
  show "concat (map snd ?s) = data"
    by (simp add: map_snd_split_fixed concat_chunks)
  show len: "length ?s = (length data + ?n - 1) div ?n"
    by (simp add: length_chunks)
  { fix k assume k: "k < length data"
    have "?n * (k div ?n) \<le> k" by simp
    with k have kd: "?n * (k div ?n) < length data" by (rule le_less_trans[rotated])
    note sn = split_fixed_nth[OF kd]
    show "k div ?n < length ?s" and "fst (?s ! (k div ?n)) = frag_index k exp"
      using sn by (auto simp: frag_index_def)
    have "slice (?n * (k div ?n)) ?n data ! (k mod ?n) = data ! (?n * (k div ?n) + k mod ?n)"
      using kd by (simp add: slice_def)
    then show "snd (?s ! (k div ?n)) ! (k mod ?n) = data ! k"
      using sn by simp }
  { fix i assume i: "Suc i < length ?s"
    then have "data \<noteq> []" by auto
    with i split_fixed_lengths(1)[of data exp] split_fixed_lengths(2)[of data i exp] show "length (snd (?s ! i)) = ?n" by simp }
  assume ne: "data \<noteq> []"
  let ?q = "(length data - 1) div ?n" and ?r = "if length data mod ?n = 0 then ?n else length data mod ?n"
  note l = split_fixed_lengths[OF ne, of exp]
  have n32: "?n < 2 ^ 32" using assms(1) by (intro power_strict_increasing) auto
  moreover have "?r \<le> ?n" using mod_less_divisor[of ?n "length data"] by (simp add: less_imp_le)
  ultimately have "?r < 2 ^ 32" by (rule le_less_trans[rotated])
  then have "unat (word_of_nat ?r :: u32) = ?r"
    by (intro unat_of_nat_less) simp
  moreover have "last_frag_length (length data) exp = word_of_nat ?r"
    using ne by (simp add: last_frag_length_def Let_def)
  ultimately have "unat (last_frag_length (length data) exp) = ?r" by simp
  moreover have "last ?s = ?s ! ?q"
    using l(1) by (simp only: last_conv_nth[of ?s] length_0_conv[symmetric] diff_Suc_1)
  ultimately show "length (snd (last ?s)) = unat (last_frag_length (length data) exp)"
    using l(3) by simp
qed

theorem split_fixed_correct_witness:
  "concat (map snd (split_fixed [1, 2, 3, 4, 5] 1)) = [1, 2, 3, 4, 5]
   \<and> split_fixed [1, 2, 3, 4, 5] 1 = [(0, [1, 2]), (1, [3, 4]), (2, [5])]"
  using split_fixed_correct[of 1 "[1, 2, 3, 4, 5]"]
  by (simp add: split_fixed_def chunks_step)

end
