(* ===== verification/Backend.thy ===== *)
theory Backend
  imports Sfs_Prelude
begin

text \<open>
  The positioned-IO backend, \<^verbatim>\<open>sfs-core/src/container/backend.rs\<close>: a container is a byte array of a
  known length, held in a file or device or in memory, with bounds-checked reads and writes at an
  offset. Failures of the operating system and the read counters are not modelled; the outcome of
  the advisory lock and what the path names (a regular file, or a device with its contents) are
  arguments of \<open>bk_create\<close> and \<open>bk_open\<close>. Offsets and lengths are natural numbers, and the
  overflow of a 64-bit sum, which the source checks, is written out.
\<close>

section \<open>State and operations\<close>

definition BASE_BLOCK :: nat where
  "BASE_BLOCK = 4096"

definition is_aligned :: "nat \<Rightarrow> bool" where
  "is_aligned off = (off mod BASE_BLOCK = 0)"

datatype store = FileStore bytes | MemStore bytes

record backend =
  bk_store :: store
  bk_len :: nat
  bk_no_grow :: bool

fun store_bytes :: "store \<Rightarrow> bytes" where
  "store_bytes (FileStore bs) = bs"
| "store_bytes (MemStore bs) = bs"

fun store_update :: "(bytes \<Rightarrow> bytes) \<Rightarrow> store \<Rightarrow> store" where
  "store_update f (FileStore bs) = FileStore (f bs)"
| "store_update f (MemStore bs) = MemStore (f bs)"

text \<open>\<^verbatim>\<open>File::set_len\<close> and \<^verbatim>\<open>Vec::resize\<close>/\<^verbatim>\<open>truncate\<close>: cut, or extend with zero bytes.\<close>

definition resize :: "nat \<Rightarrow> bytes \<Rightarrow> bytes" where
  "resize n bs = take n bs @ replicate (n - length bs) 0"

definition lock_exclusive :: "bool \<Rightarrow> unit result" where
  "lock_exclusive locked =
     (if locked then Inl (Integrity ''container is locked by another process'') else Inr ())"

definition bk_create :: "bool \<Rightarrow> bytes option \<Rightarrow> nat \<Rightarrow> backend result" where
  "bk_create locked device len =
     bind_r (lock_exclusive locked) (\<lambda>_.
       case device of
         Some dev \<Rightarrow>
           (if length dev < len then Inl (Io InvalidInput ''device too small'')
            else Inr \<lparr>bk_store = FileStore dev, bk_len = length dev, bk_no_grow = True\<rparr>)
       | None \<Rightarrow>
           Inr \<lparr>bk_store = FileStore (resize len (resize 0 [])), bk_len = len, bk_no_grow = False\<rparr>)"

definition bk_create_in_memory :: "nat \<Rightarrow> backend result" where
  "bk_create_in_memory len =
     (if 2 ^ 64 \<le> len then Inl (Io InvalidInput ''length exceeds addressable memory'')
      else Inr \<lparr>bk_store = MemStore (replicate len 0), bk_len = len, bk_no_grow = False\<rparr>)"

definition bk_create_in_memory_fixed :: "nat \<Rightarrow> backend result" where
  "bk_create_in_memory_fixed len =
     (if 2 ^ 64 \<le> len then Inl (Io InvalidInput ''length exceeds addressable memory'')
      else Inr \<lparr>bk_store = MemStore (replicate len 0), bk_len = len, bk_no_grow = True\<rparr>)"

definition bk_open_in_memory :: "bytes \<Rightarrow> backend result" where
  "bk_open_in_memory bs = Inr \<lparr>bk_store = MemStore bs, bk_len = length bs, bk_no_grow = False\<rparr>"

definition bk_open :: "bool \<Rightarrow> bytes \<Rightarrow> bool \<Rightarrow> backend result" where
  "bk_open locked content is_device =
     bind_r (lock_exclusive locked) (\<lambda>_.
       Inr \<lparr>bk_store = FileStore content, bk_len = length content, bk_no_grow = is_device\<rparr>)"

definition bk_read_at :: "backend \<Rightarrow> nat \<Rightarrow> nat \<Rightarrow> bytes result" where
  "bk_read_at b off n =
     (if 2 ^ 64 \<le> off + n then Inl (Io InvalidInput ''read offset overflow'')
      else if bk_len b < off + n then Inl (Io InvalidInput ''read past end of container'')
      else Inr (slice off n (store_bytes (bk_store b))))"

definition bk_snapshot :: "backend \<Rightarrow> bytes result" where
  "bk_snapshot b =
     (case bk_store b of
        MemStore bs \<Rightarrow> Inr bs
      | FileStore _ \<Rightarrow> (if 0 < bk_len b then bk_read_at b 0 (bk_len b) else Inr []))"

definition bk_write_at :: "backend \<Rightarrow> nat \<Rightarrow> bytes \<Rightarrow> backend result" where
  "bk_write_at b off buf =
     (if 2 ^ 64 \<le> off + length buf then Inl (Io InvalidInput ''write offset overflow'')
      else if bk_len b < off + length buf then Inl (Io InvalidInput ''write past end of container'')
      else Inr (b\<lparr>bk_store := store_update (splice off buf) (bk_store b)\<rparr>))"

text \<open>\<^verbatim>\<open>flush\<close> changes no byte; what it orders is the subject of the crash model of the header.\<close>

definition bk_flush :: "backend \<Rightarrow> unit result" where
  "bk_flush b = Inr ()"

definition bk_grow :: "backend \<Rightarrow> nat \<Rightarrow> backend result" where
  "bk_grow b new_len =
     (if new_len \<le> bk_len b then Inl (Io InvalidInput ''grow: new_len must be greater than current len'')
      else if bk_no_grow b then Inl (Io StorageFull ''container is on a fixed device and cannot grow'')
      else Inr (b\<lparr>bk_store := store_update (resize new_len) (bk_store b), bk_len := new_len\<rparr>))"

definition bk_shrink :: "backend \<Rightarrow> nat \<Rightarrow> backend result" where
  "bk_shrink b new_len =
     (if bk_len b \<le> new_len then Inl (Io InvalidInput ''shrink: new_len must be less than current len'')
      else if bk_no_grow b then Inl (Io InvalidInput ''container is on a fixed device and cannot be shrunk'')
      else Inr (b\<lparr>bk_store := store_update (resize new_len) (bk_store b), bk_len := new_len\<rparr>))"

definition bk_is_empty :: "backend \<Rightarrow> bool" where
  "bk_is_empty b = (bk_len b = 0)"

section \<open>The invariant\<close>

abbreviation bk_bytes :: "backend \<Rightarrow> bytes" where
  "bk_bytes b \<equiv> store_bytes (bk_store b)"

text \<open>The recorded length is the length of the stored bytes, and it fits 64 bits.\<close>

definition bk_ok :: "backend \<Rightarrow> bool" where
  "bk_ok b \<longleftrightarrow> length (bk_bytes b) = bk_len b \<and> bk_len b < 2 ^ 64"

lemma store_bytes_update [simp]: "store_bytes (store_update f s) = f (store_bytes s)"
  by (cases s) simp_all

lemma length_resize [simp]: "length (resize n bs) = n"
  by (simp add: resize_def)

lemma slice_resize: "off + n \<le> length bs \<Longrightarrow> off + n \<le> m \<Longrightarrow> slice off n (resize m bs) = slice off n bs"
  by (simp add: resize_def slice_append_left slice_take)

lemma bk_read_at_ok: "bk_ok b \<Longrightarrow> off + n \<le> bk_len b \<Longrightarrow> bk_read_at b off n = Inr (slice off n (bk_bytes b))"
  by (simp add: bk_read_at_def bk_ok_def)

lemma bk_read_at_InrD:
  "bk_read_at b off n = Inr bs \<Longrightarrow> off + n \<le> bk_len b \<and> bs = slice off n (bk_bytes b)"
  by (auto simp: bk_read_at_def split: if_splits)

lemma bk_write_at_ok:
  "bk_ok b \<Longrightarrow> off + length buf \<le> bk_len b \<Longrightarrow>
   bk_write_at b off buf = Inr (b\<lparr>bk_store := store_update (splice off buf) (bk_store b)\<rparr>)"
  by (simp add: bk_write_at_def bk_ok_def)

lemma bk_write_at_InrD:
  assumes "bk_write_at b off buf = Inr b'"
  shows "off + length buf \<le> bk_len b" "bk_len b' = bk_len b" "bk_no_grow b' = bk_no_grow b"
    "bk_bytes b' = splice off buf (bk_bytes b)"
  using assms by (auto simp: bk_write_at_def split: if_splits)

lemma bk_write_at_pres: "bk_ok b \<Longrightarrow> bk_write_at b off buf = Inr b' \<Longrightarrow> bk_ok b'"
  using bk_write_at_InrD[of b off buf b'] by (simp add: bk_ok_def)

lemma bk_grow_InrD:
  assumes "bk_grow b n = Inr b'"
  shows "bk_len b < n" "bk_len b' = n" "bk_no_grow b' = bk_no_grow b" "\<not> bk_no_grow b"
    "bk_bytes b' = resize n (bk_bytes b)"
  using assms by (auto simp: bk_grow_def split: if_splits)

lemma bk_grow_pres: "bk_ok b \<Longrightarrow> n < 2 ^ 64 \<Longrightarrow> bk_grow b n = Inr b' \<Longrightarrow> bk_ok b'"
  using bk_grow_InrD[of b n b'] by (simp add: bk_ok_def)

lemma bk_shrink_pres: "bk_ok b \<Longrightarrow> bk_shrink b n = Inr b' \<Longrightarrow> bk_ok b'"
  by (auto simp: bk_ok_def bk_shrink_def split: if_splits)

lemma bk_constructors_ok:
  "bk_create l d n = Inr b \<Longrightarrow> n < 2 ^ 64 \<Longrightarrow> (\<forall>c. d = Some c \<longrightarrow> length c < 2 ^ 64) \<Longrightarrow> bk_ok b"
  "bk_create_in_memory n = Inr b \<Longrightarrow> bk_ok b"
  "bk_create_in_memory_fixed n = Inr b \<Longrightarrow> bk_ok b"
  "bk_open_in_memory c = Inr b \<Longrightarrow> length c < 2 ^ 64 \<Longrightarrow> bk_ok b"
  "bk_open l c dev = Inr b \<Longrightarrow> length c < 2 ^ 64 \<Longrightarrow> bk_ok b"
  by (auto simp: bk_ok_def bk_create_def bk_create_in_memory_def bk_create_in_memory_fixed_def
      bk_open_in_memory_def bk_open_def split: option.splits if_splits)

section \<open>The contract of a byte store\<close>

text \<open>
  What the layers above rely on. A read or a write succeeds exactly within the length, a write
  leaves the length alone and changes exactly the bytes it names. The clients (header slots,
  write-ahead log, trie nodes) use the three derived facts: a write is read back, a disjoint
  range is not disturbed, and writes to disjoint ranges commute.
\<close>

locale byte_store =
  fixes ok :: "'b \<Rightarrow> bool"
    and len :: "'b \<Rightarrow> nat"
    and rd :: "'b \<Rightarrow> nat \<Rightarrow> nat \<Rightarrow> bytes result"
    and wr :: "'b \<Rightarrow> nat \<Rightarrow> bytes \<Rightarrow> 'b result"
    and img :: "'b \<Rightarrow> bytes"
  assumes rd_ok: "ok b \<Longrightarrow> off + n \<le> len b \<Longrightarrow> rd b off n = Inr (slice off n (img b))"
    and rd_fail: "ok b \<Longrightarrow> len b < off + n \<Longrightarrow> \<not> is_ok (rd b off n)"
    and wr_ok: "ok b \<Longrightarrow> off + length d \<le> len b \<Longrightarrow> is_ok (wr b off d)"
    and wr_img: "ok b \<Longrightarrow> wr b off d = Inr b' \<Longrightarrow>
      off + length d \<le> len b \<and> ok b' \<and> len b' = len b \<and> img b' = splice off d (img b)"
    and len_img: "ok b \<Longrightarrow> length (img b) = len b"
begin

lemma rd_own_write: "ok b \<Longrightarrow> wr b off d = Inr b' \<Longrightarrow> rd b' off (length d) = Inr d"
  using wr_img[of b off d b'] rd_ok[of b' off "length d"] len_img[of b]
  by (simp add: slice_splice_same)

lemma rd_disjoint:
  assumes "ok b" and "wr b off d = Inr b'" and "o' + n \<le> off \<or> off + length d \<le> o'"
  shows "rd b' o' n = rd b o' n \<or> \<not> is_ok (rd b' o' n) \<and> \<not> is_ok (rd b o' n)"
proof (cases "o' + n \<le> len b")
  case True
  have w: "off + length d \<le> len b" "ok b'" "len b' = len b" "img b' = splice off d (img b)"
    using wr_img[OF assms(1,2)] by auto
  have "slice o' n (splice off d (img b)) = slice o' n (img b)"
    using assms(3) w(1) len_img[OF assms(1)]
    by (elim disjE) (simp_all add: slice_splice_below slice_splice_above)
  with w True assms(1) show ?thesis by (simp add: rd_ok)
next
  case False
  then show ?thesis using wr_img[OF assms(1,2)] assms(1) rd_fail by (simp add: not_le)
qed

end

interpretation bk: byte_store bk_ok bk_len bk_read_at bk_write_at bk_bytes
proof (unfold_locales, goal_cases)
  case (1 b off n)
  then show ?case by (rule bk_read_at_ok)
next
  case (2 b off n)
  then show ?case by (simp add: bk_read_at_def)
next
  case (3 b off d)
  then show ?case by (simp add: bk_write_at_ok)
next
  case (4 b off d b')
  then show ?case using bk_write_at_InrD[of b off d b'] bk_write_at_pres[of b off d b'] by simp
next
  case (5 b)
  then show ?case by (simp add: bk_ok_def)
qed

section \<open>Properties\<close>

text \<open>Reads and writes are exact: a write succeeds exactly if its range lies within the container,
  it keeps the length, the written bytes are read back, and every byte outside the range is as
  before; a failed write leaves nothing behind since no new state is returned.\<close>

theorem write_read_exact:
  assumes "bk_ok b"
  shows "(is_ok (bk_write_at b off d) \<longleftrightarrow> off + length d \<le> bk_len b)
    \<and> (\<forall>b'. bk_write_at b off d = Inr b' \<longrightarrow>
      bk_ok b' \<and> bk_len b' = bk_len b \<and> bk_read_at b' off (length d) = Inr d
      \<and> (\<forall>i < bk_len b. i < off \<or> off + length d \<le> i \<longrightarrow> bk_bytes b' ! i = bk_bytes b ! i))"
proof (intro conjI allI impI)
  show "is_ok (bk_write_at b off d) \<longleftrightarrow> off + length d \<le> bk_len b"
    using assms bk.wr_ok[of b off d] bk_write_at_InrD(1)[of b off d] by (auto simp: is_ok_iff)
next
  fix b' assume w: "bk_write_at b off d = Inr b'"
  note W = bk_write_at_InrD[OF w]
  show "bk_ok b'" "bk_len b' = bk_len b" "bk_read_at b' off (length d) = Inr d"
    using W bk_write_at_pres[OF assms w] bk.rd_own_write[OF assms w] by simp_all
  fix i assume "i < bk_len b" "i < off \<or> off + length d \<le> i"
  then show "bk_bytes b' ! i = bk_bytes b ! i"
    using assms W by (auto simp: nth_splice bk_ok_def)
qed

theorem write_read_exact_witness:
  "bk_write_at \<lparr>bk_store = MemStore [1, 2, 3], bk_len = 3, bk_no_grow = True\<rparr> 1 [9]
     = Inr \<lparr>bk_store = MemStore [1, 9, 3], bk_len = 3, bk_no_grow = True\<rparr>
   \<and> bk_read_at \<lparr>bk_store = MemStore [1, 9, 3], bk_len = 3, bk_no_grow = True\<rparr> 1 1 = Inr [9]
   \<and> \<not> is_ok (bk_write_at \<lparr>bk_store = MemStore [1, 2, 3], bk_len = 3, bk_no_grow = True\<rparr> 3 [9])"
proof -
  let ?b = "\<lparr>bk_store = MemStore [1, 2, 3], bk_len = 3, bk_no_grow = True\<rparr>"
  have ok: "bk_ok ?b" by (simp add: bk_ok_def)
  have w: "bk_write_at ?b 1 [9] = Inr \<lparr>bk_store = MemStore [1, 9, 3], bk_len = 3, bk_no_grow = True\<rparr>"
    by (simp add: bk_write_at_def splice_def)
  show ?thesis
    using w write_read_exact[OF ok, of 1 "[9]"] write_read_exact[OF ok, of 3 "[9]"] by simp
qed

text \<open>A snapshot re-opens to the same container: the bytes returned by \<open>snapshot\<close> are exactly the
  stored image, for a file-backed and for an in-memory backend.\<close>

theorem snapshot_reopen:
  assumes "bk_ok b"
  shows "\<exists>bs b'. bk_snapshot b = Inr bs \<and> bk_open_in_memory bs = Inr b'
    \<and> bk_ok b' \<and> bk_bytes b' = bk_bytes b \<and> bk_len b' = bk_len b"
proof -
  have "bk_snapshot b = Inr (bk_bytes b)"
  proof (cases "bk_store b")
    case (FileStore bs)
    with assms show ?thesis
      by (auto simp: bk_snapshot_def bk_read_at_def bk_ok_def slice_def)
  next
    case (MemStore bs)
    then show ?thesis by (simp add: bk_snapshot_def)
  qed
  with assms show ?thesis by (simp add: bk_open_in_memory_def bk_ok_def)
qed

theorem snapshot_reopen_witness:
  "\<exists>bs b'. bk_snapshot \<lparr>bk_store = FileStore [1, 2, 3], bk_len = 3, bk_no_grow = True\<rparr> = Inr bs
    \<and> bk_open_in_memory bs = Inr b' \<and> bk_ok b' \<and> bk_bytes b' = [1, 2, 3] \<and> bk_len b' = 3"
  using snapshot_reopen[of "\<lparr>bk_store = FileStore [1, 2, 3], bk_len = 3, bk_no_grow = True\<rparr>"]
  by (simp add: bk_ok_def)

end
