(* ===== verification/Freelist.thy ===== *)
theory Freelist
  imports Backend
begin

text \<open>
  The free-extent list of the allocator, \<^verbatim>\<open>Freelist\<close> and \<^verbatim>\<open>round_up_to_block\<close> of
  \<^verbatim>\<open>sfs-core/src/container/alloc.rs\<close>: an ordered map from start address to length. \<open>fl_set\<close> is the
  set of free bytes it stands for. Inserting an extent adds exactly its bytes and coalesces,
  removing a range takes exactly its bytes, and the extents stay separated by used bytes.
\<close>

section \<open>Operations\<close>

definition round_up_to_block :: "nat \<Rightarrow> nat" where
  "round_up_to_block n =
     (if n = 0 then 0 else (n + BASE_BLOCK - 1) div BASE_BLOCK * BASE_BLOCK)"

type_synonym freelist = "(nat \<times> nat) list"

text \<open>The loop over the successors: take the larger end and remove the extent.\<close>

fun absorb :: "(nat \<times> nat) list \<Rightarrow> nat \<Rightarrow> freelist \<Rightarrow> nat \<times> freelist" where
  "absorb [] e m = (e, m)"
| "absorb (x # xs) e m = absorb xs (max e (fst x + snd x)) (bt_remove (fst x) m)"

definition fl_insert :: "freelist \<Rightarrow> nat \<Rightarrow> nat \<Rightarrow> freelist" where
  "fl_insert m addr len =
     (let (start, e, m1) =
        (case bt_last_le addr m of
           Some p \<Rightarrow>
             (if addr \<le> fst p + snd p
              then (fst p, max (addr + len) (fst p + snd p), bt_remove (fst p) m)
              else (addr, addr + len, m))
         | None \<Rightarrow> (addr, addr + len, m));
        (e', m2) = absorb (bt_range start e m1) e m1
      in bt_insert start (e' - start) m2)"

definition fl_first_fit :: "freelist \<Rightarrow> nat \<Rightarrow> nat option" where
  "fl_first_fit m needed = map_option fst (List.find (\<lambda>e. needed \<le> snd e) m)"

definition fl_remove_range :: "freelist \<Rightarrow> nat \<Rightarrow> nat \<Rightarrow> freelist result" where
  "fl_remove_range m addr sz =
     (case bt_last_le addr m of
        None \<Rightarrow> Inl (Panic ''remove_range: addr not in any free extent'')
      | Some x \<Rightarrow>
          (let m1 = bt_remove (fst x) m;
               m2 = (if fst x < addr then bt_insert (fst x) (addr - fst x) m1 else m1);
               taken_end = addr + sz;
               ext_end = fst x + snd x
           in Inr (if taken_end < ext_end then bt_insert taken_end (ext_end - taken_end) m2 else m2)))"

section \<open>Invariant and meaning\<close>

text \<open>Extents are non-empty and separated: an extent ends before the next one starts.\<close>

abbreviation before :: "nat \<times> nat \<Rightarrow> nat \<times> nat \<Rightarrow> bool" where
  "before e f \<equiv> fst e + snd e < fst f"

definition fl_ok :: "freelist \<Rightarrow> bool" where
  "fl_ok m \<longleftrightarrow> sorted_wrt before m \<and> (\<forall>e \<in> set m. 0 < snd e)"

definition ext_set :: "nat \<times> nat \<Rightarrow> nat set" where
  "ext_set e = {fst e ..< fst e + snd e}"

definition fl_set :: "freelist \<Rightarrow> nat set" where
  "fl_set m = (\<Union>e \<in> set m. ext_set e)"

lemma fl_ok_Nil [simp]: "fl_ok []"
  by (simp add: fl_ok_def)

lemma fl_set_Nil [simp]: "fl_set [] = {}"
  by (simp add: fl_set_def)

lemma fl_ok_sorted: "fl_ok m \<Longrightarrow> bt_sorted m"
  unfolding fl_ok_def bt_sorted_def sorted_wrt_map
  by (auto elim!: sorted_wrt_mono_rel[rotated])

lemma fl_ok_before:
  "fl_ok m \<Longrightarrow> e \<in> set m \<Longrightarrow> f \<in> set m \<Longrightarrow> fst e < fst f \<Longrightarrow> before e f"
proof (induction m)
  case Nil
  then show ?case by simp
next
  case (Cons x m)
  then show ?case by (fastforce simp: fl_ok_def)
qed

lemma fl_ok_inj: "fl_ok m \<Longrightarrow> e \<in> set m \<Longrightarrow> f \<in> set m \<Longrightarrow> fst e = fst f \<Longrightarrow> e = f"
  by (metis bt_sorted_distinct eq_key_imp_eq_value fl_ok_sorted prod.collapse)

lemma fl_ok_filter: "fl_ok m \<Longrightarrow> fl_ok (filter P m)"
  by (simp add: fl_ok_def sorted_wrt_filter)

lemma fl_ok_remove: "fl_ok m \<Longrightarrow> fl_ok (bt_remove k m)"
  unfolding bt_remove_def by (rule fl_ok_filter)

lemma fl_ok_bt_insert:
  assumes "fl_ok m" and "0 < n" and "\<forall>e \<in> set m. before e (k, n) \<or> before (k, n) e"
  shows "fl_ok (bt_insert k n m)" and "set (bt_insert k n m) = insert (k, n) (set m)"
proof -
  have "k \<notin> fst ` set m" using assms(3) by fastforce
  then show s: "set (bt_insert k n m) = insert (k, n) (set m)" by (rule set_bt_insert_new)
  have "sorted_wrt before (bt_insert k n m)"
    using assms(1,3) unfolding fl_ok_def
  proof (induction m)
    case Nil
    then show ?case by simp
  next
    case (Cons e m)
    have IH: "sorted_wrt before (bt_insert k n m)" using Cons by auto
    show ?case
    proof (cases "k < fst e")
      case True
      with Cons.prems have "before (k, n) e" by auto
      with True Cons.prems show ?thesis by (auto dest: less_trans)
    next
      case False
      with Cons.prems have "before e (k, n)" by fastforce
      with False IH Cons.prems set_bt_insert[of k n m] show ?thesis by auto
    qed
  qed
  with s assms(1,2) show "fl_ok (bt_insert k n m)" by (auto simp: fl_ok_def)
qed

lemma fl_set_bt_insert:
  "fl_ok m \<Longrightarrow> 0 < n \<Longrightarrow> \<forall>e \<in> set m. before e (k, n) \<or> before (k, n) e \<Longrightarrow>
   fl_set (bt_insert k n m) = fl_set m \<union> {k ..< k + n}"
  using fl_ok_bt_insert(2)[of m n k] unfolding fl_set_def by (simp add: ext_set_def Un_commute)

section \<open>Inserting an extent\<close>

lemma absorb_filter:
  "snd (absorb xs e m) = filter (\<lambda>x. fst x \<notin> fst ` set xs) m"
  by (induction xs arbitrary: e m) (auto simp: bt_remove_def intro: filter_cong)

lemma absorb_end:
  "e \<le> fst (absorb xs e m) \<and>
   (fst (absorb xs e m) = e \<or> (\<exists>x \<in> set xs. fst (absorb xs e m) = fst x + snd x))"
proof (induction xs arbitrary: e m)
  case Nil
  then show ?case by simp
next
  case (Cons x xs)
  show ?case
    using Cons[of "max e (fst x + snd x)" "bt_remove (fst x) m"] by (auto simp: max_def split: if_splits)
qed

lemma absorb_set:
  assumes "s \<le> e" and "\<forall>x \<in> set xs. s \<le> fst x \<and> fst x \<le> e"
  shows "{s ..< fst (absorb xs e m)} = {s ..< e} \<union> (\<Union>x \<in> set xs. ext_set x)"
  using assms
proof (induction xs arbitrary: e m)
  case Nil
  then show ?case by simp
next
  case (Cons x xs)
  have "{s ..< max e (fst x + snd x)} = {s ..< e} \<union> ext_set x"
    using Cons.prems by (auto simp: ext_set_def max_def)
  moreover have "s \<le> max e (fst x + snd x)"
    and "\<forall>y \<in> set xs. s \<le> fst y \<and> fst y \<le> max e (fst x + snd x)"
    using Cons.prems by (auto simp: max_def)
  ultimately show ?case
    using Cons.IH[of "max e (fst x + snd x)" "bt_remove (fst x) m"] by (simp add: Un_assoc)
qed

text \<open>What the first half of \<open>fl_insert\<close> has established when the successors are absorbed.\<close>

lemma fl_insert_merge:
  assumes ok: "fl_ok m" and len: "0 < len"
    and m1: "m1 = filter P m" and start: "start \<le> addr" "addr + len \<le> e"
    and gone: "\<And>x. x \<in> set m \<Longrightarrow> \<not> P x \<Longrightarrow> start \<le> fst x \<and> fst x + snd x \<le> e"
    and cover: "{start ..< e} = {addr ..< addr + len} \<union> (\<Union>x \<in> {x \<in> set m. \<not> P x}. ext_set x)"
    and left: "\<And>x. x \<in> set m1 \<Longrightarrow> fst x < start \<Longrightarrow> fst x + snd x < start"
  shows "case absorb (bt_range start e m1) e m1 of (e', m2) \<Rightarrow>
      fl_ok (bt_insert start (e' - start) m2)
      \<and> fl_set (bt_insert start (e' - start) m2) = fl_set m \<union> {addr ..< addr + len}"
proof -
  obtain e' m2 where a: "absorb (bt_range start e m1) e m1 = (e', m2)" by fastforce
  have ok1: "fl_ok m1" using ok m1 by (simp add: fl_ok_filter)
  have m2: "m2 = filter (\<lambda>x. fst x \<notin> fst ` set (bt_range start e m1)) m1"
    using absorb_filter[of "bt_range start e m1" e m1] a by simp
  have m2_set: "set m2 = {x \<in> set m1. fst x < start \<or> e < fst x}"
    unfolding m2 using fl_ok_inj[OF ok1] by (auto simp: image_iff not_le)
  have e': "e \<le> e'" "e' = e \<or> (\<exists>x \<in> set (bt_range start e m1). e' = fst x + snd x)"
    using absorb_end[of e "bt_range start e m1" m1] a by auto
  have cov: "{start ..< e'} = {start ..< e} \<union> (\<Union>x \<in> set (bt_range start e m1). ext_set x)"
    using absorb_set[of start e "bt_range start e m1" m1] a start len by simp
  have pos: "0 < e' - start" using e'(1) start len by linarith
  have sep: "\<forall>x \<in> set m2. before x (start, e' - start) \<or> before (start, e' - start) x"
  proof
    fix x assume x: "x \<in> set m2"
    then have x1: "x \<in> set m1" and d: "fst x < start \<or> e < fst x" by (auto simp: m2_set)
    show "before x (start, e' - start) \<or> before (start, e' - start) x"
    proof (cases "fst x < start")
      case True
      with left[OF x1] show ?thesis by simp
    next
      case False
      with d have ex: "e < fst x" by simp
      have "e' < fst x"
        using e'(2) ex fl_ok_before[OF ok1 _ x1] by auto
      with pos show ?thesis by simp
    qed
  qed
  have ok2: "fl_ok m2" unfolding m2 by (rule fl_ok_filter[OF ok1])
  have "fl_set (bt_insert start (e' - start) m2) = fl_set m2 \<union> {start ..< e'}"
    using fl_set_bt_insert[OF ok2 pos sep] pos by simp
  also have "\<dots> = fl_set m2 \<union> (\<Union>x \<in> set (bt_range start e m1). ext_set x) \<union> {start ..< e}"
    by (simp add: cov Un_ac)
  also have "fl_set m2 \<union> (\<Union>x \<in> set (bt_range start e m1). ext_set x) = fl_set m1"
  proof -
    have "set m2 \<union> set (bt_range start e m1) = set m1" by (auto simp: m2_set not_less not_le)
    then show ?thesis unfolding fl_set_def by (metis UN_Un)
  qed
  also have "fl_set m1 \<union> {start ..< e} = fl_set m \<union> {addr ..< addr + len}"
    unfolding cover by (auto simp: fl_set_def m1)
  finally show ?thesis
    using a fl_ok_bt_insert(1)[OF ok2 pos sep] by simp
qed

lemma fl_insert_apart:
  assumes ok: "fl_ok m" and len: "0 < len"
    and left: "\<And>x. x \<in> set m \<Longrightarrow> fst x < addr \<Longrightarrow> fst x + snd x < addr"
  shows "case absorb (bt_range addr (addr + len) m) (addr + len) m of (e', m2) \<Rightarrow>
      fl_ok (bt_insert addr (e' - addr) m2)
      \<and> fl_set (bt_insert addr (e' - addr) m2) = fl_set m \<union> {addr ..< addr + len}"
proof (rule fl_insert_merge[OF ok len])
  show "m = filter (\<lambda>_. True) m" by simp
qed (use left in simp_all)

lemma fl_insert_correct:
  assumes ok: "fl_ok m" and len: "0 < len"
  shows "fl_ok (fl_insert m addr len) \<and> fl_set (fl_insert m addr len) = fl_set m \<union> {addr ..< addr + len}"
proof (cases "bt_last_le addr m")
  case None
  then have gt: "\<forall>e \<in> set m. addr < fst e" by (simp add: bt_last_le_None)
  have "fst x + snd x < addr" if "x \<in> set m" "fst x < addr" for x
    using gt that by (auto dest: less_trans)
  from fl_insert_apart[OF ok len this] None show ?thesis
    by (simp add: fl_insert_def Let_def split: prod.splits)
next
  case (Some p)
  from bt_last_le_Some[OF fl_ok_sorted[OF ok] Some]
  have p: "p \<in> set m" "fst p \<le> addr" "\<forall>e \<in> set m. fst e \<le> addr \<longrightarrow> fst e \<le> fst p" by auto
  show ?thesis
  proof (cases "addr \<le> fst p + snd p")
    case True
    have rm: "bt_remove (fst p) m = filter (\<lambda>x. fst x \<noteq> fst p) m" by (simp add: bt_remove_def)
    have only: "{x \<in> set m. fst x = fst p} = {p}" using p(1) fl_ok_inj[OF ok] by blast
    have cov: "{fst p ..< max (addr + len) (fst p + snd p)} = {addr ..< addr + len} \<union> ext_set p"
      using True p(2) by (auto simp: ext_set_def)
    have "case absorb (bt_range (fst p) (max (addr + len) (fst p + snd p)) (bt_remove (fst p) m))
            (max (addr + len) (fst p + snd p)) (bt_remove (fst p) m) of (e', m2) \<Rightarrow>
        fl_ok (bt_insert (fst p) (e' - fst p) m2)
        \<and> fl_set (bt_insert (fst p) (e' - fst p) m2) = fl_set m \<union> {addr ..< addr + len}"
    proof (rule fl_insert_merge[OF ok len rm p(2)])
      show "\<And>x. x \<in> set m \<Longrightarrow> \<not> fst x \<noteq> fst p \<Longrightarrow>
          fst p \<le> fst x \<and> fst x + snd x \<le> max (addr + len) (fst p + snd p)"
        using fl_ok_inj[OF ok _ p(1)] by (metis order_refl max.cobounded2)
      show "\<And>x. x \<in> set (bt_remove (fst p) m) \<Longrightarrow> fst x < fst p \<Longrightarrow> fst x + snd x < fst p"
        using fl_ok_before[OF ok _ p(1)] by simp
    qed (simp_all add: only cov)
    with Some True show ?thesis
      by (simp add: fl_insert_def Let_def split: prod.splits)
  next
    case False
    have left: "fst x + snd x < addr" if "x \<in> set m" "fst x < addr" for x
    proof (cases "x = p")
      case True
      with False show ?thesis by simp
    next
      case ne: False
      have "fst x \<le> fst p" using p(3) that by simp
      moreover have "fst x \<noteq> fst p" using fl_ok_inj[OF ok that(1) p(1)] ne by blast
      ultimately have "before x p" using fl_ok_before[OF ok that(1) p(1)] by simp
      with p(2) show ?thesis by simp
    qed
    from fl_insert_apart[OF ok len left] Some False show ?thesis
      by (simp add: fl_insert_def Let_def split: prod.splits)
  qed
qed

section \<open>Taking a range\<close>

lemma fl_first_fit_Some:
  assumes "fl_first_fit m needed = Some a"
  obtains l where "(a, l) \<in> set m" and "needed \<le> l"
proof -
  from assms obtain e where "List.find (\<lambda>e. needed \<le> snd e) m = Some e" and "fst e = a"
    by (auto simp: fl_first_fit_def)
  then have "e \<in> set m" and "needed \<le> snd e" and "e = (a, snd e)"
    by (auto simp: find_Some_iff)
  with that show thesis by metis
qed

lemma fl_remove_range_correct:
  assumes ok: "fl_ok m" and x: "(a, l) \<in> set m" and sz: "0 < sz" "sz \<le> l"
  obtains m' where "fl_remove_range m a sz = Inr m'" and "fl_ok m'"
    and "fl_set m' = fl_set m - {a ..< a + sz}" and "{a ..< a + sz} \<subseteq> fl_set m"
proof -
  have last: "bt_last_le a m = Some (a, l)"
  proof (cases "bt_last_le a m")
    case None
    with x show ?thesis by (auto simp: bt_last_le_None)
  next
    case (Some p)
    from bt_last_le_Some[OF fl_ok_sorted[OF ok] Some] x have p: "p \<in> set m" "fst p = a" by force+
    with fl_ok_inj[OF ok x p(1)] Some show ?thesis by simp
  qed
  define m1 where "m1 = bt_remove a m"
  have ok1: "fl_ok m1" unfolding m1_def by (rule fl_ok_remove[OF ok])
  have "ext_set (a, l) \<inter> fl_set m1 = {}"
  proof -
    have "ext_set (a, l) \<inter> ext_set e = {}" if "e \<in> set m" "fst e \<noteq> a" for e
      using fl_ok_before[OF ok x that(1)] fl_ok_before[OF ok that(1) x] that(2)
      by (auto simp: ext_set_def neq_iff)
    then show ?thesis by (auto simp: fl_set_def m1_def)
  qed
  moreover have "fl_set m = fl_set m1 \<union> ext_set (a, l)"
  proof -
    have "e = (a, l)" if "e \<in> set m" "fst e = a" for e
      using fl_ok_inj[OF ok that(1) x] that(2) by simp
    then have "set m = insert (a, l) (set m1)" using x unfolding m1_def set_bt_remove by blast
    then show ?thesis unfolding fl_set_def by (simp add: Un_commute)
  qed
  moreover have "ext_set (a, l) = {a ..< a + sz} \<union> {a + sz ..< a + l}"
    and "{a ..< a + sz} \<inter> {a + sz ..< a + l} = {}"
    using sz by (auto simp: ext_set_def)
  ultimately have cut: "fl_set m - {a ..< a + sz} = fl_set m1 \<union> {a + sz ..< a + l}"
    and sub: "{a ..< a + sz} \<subseteq> fl_set m"
    by blast+
  show thesis
  proof (cases "a + sz < a + l")
    case True
    have sep: "\<forall>e \<in> set m1. before e (a + sz, l - sz) \<or> before (a + sz, l - sz) e"
    proof
      fix e assume e: "e \<in> set m1"
      then have "e \<in> set m" "fst e \<noteq> a" by (simp_all add: m1_def)
      then show "before e (a + sz, l - sz) \<or> before (a + sz, l - sz) e"
        using fl_ok_before[OF ok x, of e] fl_ok_before[OF ok _ x, of e] sz by (auto simp: neq_iff)
    qed
    have pos: "0 < l - sz" using True by simp
    have "fl_remove_range m a sz = Inr (bt_insert (a + sz) (l - sz) m1)"
      using True by (simp add: fl_remove_range_def last m1_def)
    then show thesis
      using fl_set_bt_insert[OF ok1 pos sep] fl_ok_bt_insert(1)[OF ok1 pos sep] cut sub sz(2)
      by (intro that) simp_all
  next
    case False
    then have "fl_remove_range m a sz = Inr m1"
      by (simp add: fl_remove_range_def last m1_def)
    with False ok1 cut sub show thesis by (intro that) simp_all
  qed
qed

lemma fl_ok_subset: "(a, l) \<in> set m \<Longrightarrow> {a ..< a + l} \<subseteq> fl_set m"
  unfolding fl_set_def using UN_upper[of "(a, l)" "set m" ext_set] by (simp add: ext_set_def)

section \<open>Block rounding\<close>

lemma round_up_ge: "n \<le> round_up_to_block n"
  and round_up_less: "round_up_to_block n < n + BASE_BLOCK"
proof -
  have "(4095 + n) div 4096 * 4096 + (4095 + n) mod 4096 = 4095 + n" by (rule div_mult_mod_eq)
  moreover have "(4095 + n) mod 4096 < 4096" by simp
  ultimately have "n \<le> (4095 + n) div 4096 * 4096" and "(4095 + n) div 4096 * 4096 < n + 4096"
    by linarith+
  then show "n \<le> round_up_to_block n" and "round_up_to_block n < n + BASE_BLOCK"
    by (simp_all add: round_up_to_block_def BASE_BLOCK_def)
qed

lemma round_up_dvd: "BASE_BLOCK dvd round_up_to_block n"
  by (simp add: round_up_to_block_def)

lemma round_up_aligned: "BASE_BLOCK dvd n \<Longrightarrow> round_up_to_block n = n"
proof -
  assume "BASE_BLOCK dvd n"
  then obtain k where n: "n = BASE_BLOCK * k" ..
  have "(BASE_BLOCK * k + 4095) div BASE_BLOCK = k" by (simp add: BASE_BLOCK_def)
  with n show ?thesis by (simp add: round_up_to_block_def BASE_BLOCK_def)
qed

section \<open>Properties\<close>

text \<open>The free list is exact and coalesced: inserting an extent adds precisely its bytes, whatever it
  touches or overlaps, and leaves the extents ordered, non-empty and separated. If a first fit is
  found, removing the requested range succeeds, its bytes were free, and exactly those bytes go.\<close>

theorem freelist_exact:
  assumes "fl_ok m" and "0 < len"
  shows "fl_ok (fl_insert m addr len) \<and> fl_set (fl_insert m addr len) = fl_set m \<union> {addr ..< addr + len}
    \<and> (\<forall>a. fl_first_fit m len = Some a \<longrightarrow> {a ..< a + len} \<subseteq> fl_set m
         \<and> (\<exists>m'. fl_remove_range m a len = Inr m' \<and> fl_ok m' \<and> fl_set m' = fl_set m - {a ..< a + len}))
    \<and> (fl_first_fit m len = None \<longrightarrow> (\<forall>e \<in> set m. snd e < len))"
proof (intro conjI allI impI)
  show "fl_ok (fl_insert m addr len)" "fl_set (fl_insert m addr len) = fl_set m \<union> {addr ..< addr + len}"
    using fl_insert_correct[OF assms] by auto
next
  fix a assume "fl_first_fit m len = Some a"
  then obtain l where l: "(a, l) \<in> set m" "len \<le> l" by (rule fl_first_fit_Some)
  obtain m' where "fl_remove_range m a len = Inr m'" "fl_ok m'" "fl_set m' = fl_set m - {a ..< a + len}"
      "{a ..< a + len} \<subseteq> fl_set m"
    by (rule fl_remove_range_correct[OF assms(1) l(1) assms(2) l(2)])
  then show "{a ..< a + len} \<subseteq> fl_set m"
    "\<exists>m'. fl_remove_range m a len = Inr m' \<and> fl_ok m' \<and> fl_set m' = fl_set m - {a ..< a + len}" by auto
next
  assume "fl_first_fit m len = None"
  then show "\<forall>e \<in> set m. snd e < len" by (simp add: fl_first_fit_def find_None_iff not_le Ball_def)
qed

theorem freelist_exact_witness:
  "fl_insert [(0, 10), (30, 5)] 10 20 = [(0, 35)] \<and> fl_ok (fl_insert [(0, 10), (30, 5)] 10 20)
   \<and> fl_set (fl_insert [(0, 10), (30, 5)] 10 20) = fl_set [(0, 10), (30, 5)] \<union> {10 ..< 10 + 20}"
  using freelist_exact[of "[(0, 10), (30, 5)]" 20 10]
  by (simp add: fl_ok_def fl_insert_def bt_last_le_def bt_remove_def bt_range_def)

end
