(* ===== verification/Allocator.thy ===== *)
theory Allocator
  imports Freelist
begin

text \<open>
  The three-region block allocator, \<^verbatim>\<open>Allocator\<close> of \<^verbatim>\<open>sfs-core/src/container/alloc.rs\<close>, with
  \<^verbatim>\<open>BlockLoc\<close> and \<^verbatim>\<open>Region\<close> of \<^verbatim>\<open>container/segment.rs\<close>. Catalog and live blocks grow upwards from a
  shared frontier, the eviction tail grows downwards from the end of the container (or from the
  write-ahead log when there is one), and a collision grows the backend and moves the tail.
  The invariant is stated against a ghost map of the blocks in use: they are aligned, pairwise
  disjoint, disjoint from the free extents, and inside their region. Addresses are natural
  numbers; the subtraction and the addition that could leave 64 bits are written out as panics.
  An error leaves the state as it was before the call.
\<close>

section \<open>State\<close>

datatype region = CatalogHead | LiveMid | EvictionTail

record block_loc =
  bl_addr :: nat
  bl_len :: u32

definition GROW_CHUNK :: nat where
  "GROW_CHUNK = 16 * BASE_BLOCK"

definition LIVE_BASE_UNSET :: nat where
  "LIVE_BASE_UNSET = 2 ^ 64 - 1"

record allocator =
  al_data_start :: nat
  al_head_hwm :: nat
  al_live_base :: nat
  al_live_hwm :: nat
  al_tail_low :: nat
  al_wal_start :: "nat option"
  al_tags :: "(nat \<times> region) list"
  al_free_head :: freelist
  al_free_live :: freelist
  al_free_tail :: freelist
  al_reclaim_floor :: "nat option"
  al_deferred :: "block_loc list"
  al_open_pack :: "(nat \<times> nat) option"

definition al_new :: "backend \<Rightarrow> allocator" where
  "al_new b =
     \<lparr>al_data_start = 2 * BASE_BLOCK, al_head_hwm = 2 * BASE_BLOCK, al_live_base = LIVE_BASE_UNSET,
      al_live_hwm = 2 * BASE_BLOCK, al_tail_low = bk_len b, al_wal_start = None, al_tags = [],
      al_free_head = [], al_free_live = [], al_free_tail = [], al_reclaim_floor = None,
      al_deferred = [], al_open_pack = None\<rparr>"

fun freelist_for :: "allocator \<Rightarrow> region \<Rightarrow> freelist" where
  "freelist_for al CatalogHead = al_free_head al"
| "freelist_for al LiveMid = al_free_live al"
| "freelist_for al EvictionTail = al_free_tail al"

fun set_freelist :: "region \<Rightarrow> freelist \<Rightarrow> allocator \<Rightarrow> allocator" where
  "set_freelist CatalogHead m al = al\<lparr>al_free_head := m\<rparr>"
| "set_freelist LiveMid m al = al\<lparr>al_free_live := m\<rparr>"
| "set_freelist EvictionTail m al = al\<lparr>al_free_tail := m\<rparr>"

text \<open>The space a request of \<open>len\<close> bytes takes.\<close>

definition block_size :: "u32 \<Rightarrow> nat" where
  "block_size len = max (round_up_to_block (unat len)) BASE_BLOCK"

section \<open>Growing the container\<close>

definition shift_tags :: "nat \<Rightarrow> nat list \<Rightarrow> (nat \<times> region) list \<Rightarrow> (nat \<times> region) list" where
  "shift_tags delta addrs tags =
     foldl (\<lambda>t a. bt_insert (a + delta) EvictionTail (bt_remove a t)) tags addrs"

definition shift_eviction_tail_bookkeeping :: "nat \<Rightarrow> allocator \<Rightarrow> allocator" where
  "shift_eviction_tail_bookkeeping delta al =
     (let tail_addrs = map fst (filter (\<lambda>e. snd e = EvictionTail) (bt_from (al_tail_low al) (al_tags al)));
          exts = al_free_tail al
      in al\<lparr>al_tags := shift_tags delta tail_addrs (al_tags al),
            al_free_tail := foldl (\<lambda>m e. bt_insert (fst e + delta) (snd e) m) [] exts\<rparr>)"

definition grow_for :: "allocator \<Rightarrow> backend \<Rightarrow> nat \<Rightarrow> (allocator \<times> backend) result" where
  "grow_for al b needed =
     (let current_slack = al_tail_low al - al_live_hwm al;
          extra = needed - current_slack;
          old_len = bk_len b;
          tail_size = old_len - al_tail_low al;
          grow_by = round_up_to_block (max (max extra GROW_CHUNK) tail_size);
          new_len = old_len + grow_by
      in if 2 ^ 64 \<le> new_len then Inl (Panic ''attempt to add with overflow'')
         else bind_r (bk_grow b new_len) (\<lambda>b1.
           case al_wal_start al of
             None \<Rightarrow>
               bind_r
                 (if al_tail_low al < old_len
                  then bind_r (bk_read_at b1 (al_tail_low al) (old_len - al_tail_low al)) (\<lambda>buf.
                       bind_r (bk_write_at b1 (al_tail_low al + grow_by) buf) (\<lambda>b2.
                         let vacated_end = min old_len (al_tail_low al + grow_by) in
                         bind_r (bk_write_at b2 (al_tail_low al)
                                   (replicate (vacated_end - al_tail_low al) 0)) (\<lambda>b3.
                           Inr (shift_eviction_tail_bookkeeping grow_by al, b3))))
                  else Inr (al, b1))
                 (\<lambda>(al1, b').
                   Inr (al1\<lparr>al_tail_low := al_tail_low al1 + grow_by\<rparr>, b'))
           | Some wal_start \<Rightarrow>
               bind_r
                 (if al_tail_low al < old_len
                  then bind_r (bk_read_at b1 (al_tail_low al) (old_len - al_tail_low al)) (\<lambda>buf.
                       bind_r (bk_write_at b1 (al_tail_low al + grow_by) buf) (\<lambda>b2.
                         Inr (shift_eviction_tail_bookkeeping grow_by al, b2)))
                  else Inr (al, b1))
                 (\<lambda>(al1, b').
                   Inr (al1\<lparr>al_tail_low := al_tail_low al1 + grow_by,
                            al_wal_start := Some (wal_start + grow_by)\<rparr>, b'))))"

definition set_wal_reservation :: "nat \<Rightarrow> allocator \<Rightarrow> allocator" where
  "set_wal_reservation wal_start al =
     (let al1 = al\<lparr>al_wal_start := Some wal_start\<rparr>
      in if wal_start < al_tail_low al1 then al1\<lparr>al_tail_low := wal_start\<rparr> else al1)"

section \<open>Allocating and freeing\<close>

definition bump_forward :: "allocator \<Rightarrow> nat \<Rightarrow> u32 \<Rightarrow> region \<Rightarrow> allocator \<times> block_loc" where
  "bump_forward al needed len r =
     (let al1 = (if r = LiveMid \<and> al_live_base al = LIVE_BASE_UNSET
                 then al\<lparr>al_live_base := al_live_hwm al\<rparr> else al);
          addr = al_live_hwm al1;
          al2 = al1\<lparr>al_live_hwm := al_live_hwm al1 + needed\<rparr>;
          al3 = (if al_head_hwm al2 < al_live_hwm al2 then al2\<lparr>al_head_hwm := al_live_hwm al2\<rparr> else al2)
      in (al3, \<lparr>bl_addr = addr, bl_len = len\<rparr>))"

definition alloc_aligned :: "allocator \<Rightarrow> backend \<Rightarrow> u32 \<Rightarrow> region \<Rightarrow>
    (allocator \<times> backend \<times> block_loc) result" where
  "alloc_aligned al b len r =
     (let needed = block_size len in
      case fl_first_fit (freelist_for al r) needed of
        Some addr \<Rightarrow>
          bind_r (fl_remove_range (freelist_for al r) addr needed) (\<lambda>m.
            let al1 = set_freelist r m al in
            Inr (al1\<lparr>al_tags := bt_insert addr r (al_tags al1)\<rparr>, b, \<lparr>bl_addr = addr, bl_len = len\<rparr>))
      | None \<Rightarrow>
          bind_r
            (if r = EvictionTail
             then bind_r (if al_tail_low al < al_live_hwm al + needed then grow_for al b needed
                          else Inr (al, b)) (\<lambda>(al1, b1).
                    if al_tail_low al1 < needed then Inl (Panic ''attempt to subtract with overflow'')
                    else let al2 = al1\<lparr>al_tail_low := al_tail_low al1 - needed\<rparr> in
                         Inr (al2, b1, \<lparr>bl_addr = al_tail_low al2, bl_len = len\<rparr>))
             else bind_r (if al_tail_low al < al_live_hwm al + needed then grow_for al b needed
                          else Inr (al, b)) (\<lambda>(al1, b1).
                    let (al2, loc) = bump_forward al1 needed len r in Inr (al2, b1, loc)))
            (\<lambda>(al2, b2, loc).
              Inr (al2\<lparr>al_tags := bt_insert (bl_addr loc) r (al_tags al2)\<rparr>, b2, loc)))"

definition pack_close_if_freed :: "nat \<Rightarrow> nat \<Rightarrow> allocator \<Rightarrow> allocator" where
  "pack_close_if_freed addr len al =
     (case al_open_pack al of
        Some (base, _) \<Rightarrow>
          (if addr < base + BASE_BLOCK \<and> base < addr + len then al\<lparr>al_open_pack := None\<rparr> else al)
      | None \<Rightarrow> al)"

definition al_free :: "block_loc \<Rightarrow> allocator \<Rightarrow> allocator \<times> bool" where
  "al_free loc al =
     (let sz = block_size (bl_len loc) in
      case map_of (al_tags al) (bl_addr loc) of
        None \<Rightarrow> (al, False)
      | Some r \<Rightarrow>
          (let al1 = al\<lparr>al_tags := bt_remove (bl_addr loc) (al_tags al)\<rparr>;
               al2 = pack_close_if_freed (bl_addr loc) sz al1
           in (set_freelist r (fl_insert (freelist_for al2 r) (bl_addr loc) sz) al2, True)))"

definition alloc_packed :: "allocator \<Rightarrow> backend \<Rightarrow> nat \<Rightarrow> (allocator \<times> backend \<times> nat) result" where
  "alloc_packed al b need =
     bind_r
       (case al_open_pack al of
          Some (base, used) \<Rightarrow>
            (if used + need \<le> BASE_BLOCK then Inr (al, b, base, used)
             else bind_r (alloc_aligned al b (of_nat BASE_BLOCK) LiveMid) (\<lambda>(al1, b1, blk).
                    Inr (al1, b1, bl_addr blk, 0)))
        | None \<Rightarrow>
            bind_r (alloc_aligned al b (of_nat BASE_BLOCK) LiveMid) (\<lambda>(al1, b1, blk).
              Inr (al1, b1, bl_addr blk, 0)))
       (\<lambda>(al1, b1, base, used).
         Inr (al1\<lparr>al_open_pack := Some (base, used + need)\<rparr>, b1, base + used))"

section \<open>Reclaim scope and deferred frees\<close>

definition begin_reclaim_scope :: "allocator \<Rightarrow> allocator" where
  "begin_reclaim_scope al =
     (let floor = al_live_hwm al in
      al\<lparr>al_reclaim_floor := Some (case al_reclaim_floor al of
           Some existing \<Rightarrow> min existing floor | None \<Rightarrow> floor)\<rparr>)"

definition end_reclaim_scope :: "allocator \<Rightarrow> allocator" where
  "end_reclaim_scope al = al\<lparr>al_reclaim_floor := None\<rparr>"

definition in_reclaim_scope :: "allocator \<Rightarrow> bool" where
  "in_reclaim_scope al = (al_reclaim_floor al \<noteq> None)"

definition free_reclaimable :: "block_loc \<Rightarrow> allocator \<Rightarrow> allocator \<times> bool" where
  "free_reclaimable loc al =
     (case al_reclaim_floor al of
        Some floor \<Rightarrow> (if floor \<le> bl_addr loc then al_free loc al else (al, False))
      | None \<Rightarrow> (al, False))"

definition retire_block :: "block_loc \<Rightarrow> allocator \<Rightarrow> allocator" where
  "retire_block loc al = al\<lparr>al_deferred := al_deferred al @ [loc]\<rparr>"

definition publish_deferred :: "allocator \<Rightarrow> allocator" where
  "publish_deferred al =
     (let deferred = al_deferred al
      in foldl (\<lambda>a loc. fst (al_free loc a)) (al\<lparr>al_deferred := []\<rparr>) deferred)"

definition abort_deferred :: "allocator \<Rightarrow> allocator" where
  "abort_deferred al = al\<lparr>al_deferred := []\<rparr>"

section \<open>Rebuilding after a re-open\<close>

definition al_first_fit :: "allocator \<Rightarrow> u32 \<Rightarrow> region \<Rightarrow> nat option" where
  "al_first_fit al len r = fl_first_fit (freelist_for al r) (block_size len)"

definition register_eviction_tail_block :: "nat \<Rightarrow> u32 \<Rightarrow> allocator \<Rightarrow> allocator" where
  "register_eviction_tail_block addr len al =
     (let al1 = al\<lparr>al_tags := bt_insert addr EvictionTail (al_tags al)\<rparr>
      in if addr < al_tail_low al1 then al1\<lparr>al_tail_low := addr\<rparr> else al1)"

definition register_live_block :: "nat \<Rightarrow> region \<Rightarrow> allocator \<Rightarrow> allocator" where
  "register_live_block addr r al = al\<lparr>al_tags := bt_insert addr r (al_tags al)\<rparr>"

definition insert_free_extent :: "nat \<Rightarrow> nat \<Rightarrow> region \<Rightarrow> allocator \<Rightarrow> allocator" where
  "insert_free_extent addr len r al =
     (let al1 = pack_close_if_freed addr len al
      in set_freelist r (fl_insert (freelist_for al1 r) addr len) al1)"

definition set_forward_frontier :: "nat \<Rightarrow> allocator \<Rightarrow> allocator" where
  "set_forward_frontier e al =
     (let aligned = max (round_up_to_block e) (al_data_start al);
          al1 = (if al_head_hwm al < aligned then al\<lparr>al_head_hwm := aligned\<rparr> else al)
      in if al_live_hwm al1 < aligned then al1\<lparr>al_live_hwm := aligned\<rparr> else al1)"

end
