(* ===== verification/Allocator_Inv.thy ===== *)
theory Allocator_Inv
  imports Allocator
begin

text \<open>
  The invariant of the allocator and that every operation keeps it. The ghost map \<open>L\<close> gives the
  blocks in use (address to size). A block handed out is disjoint from every block in use and
  from the free space; growing the container moves the tail without losing a byte; a block is
  recycled only by \<open>al_free\<close>.
\<close>

section \<open>Invariant\<close>

type_synonym live = "nat \<rightharpoonup> nat"

text \<open>The end of the space the allocator may use: the write-ahead log, if there is one, lies above.\<close>

definition limit :: "nat \<Rightarrow> allocator \<Rightarrow> nat" where
  "limit len al = (case al_wal_start al of None \<Rightarrow> len | Some w \<Rightarrow> w)"

definition frontier_ok :: "nat \<Rightarrow> allocator \<Rightarrow> bool" where
  "frontier_ok len al \<longleftrightarrow>
     al_data_start al = 2 * BASE_BLOCK \<and> al_data_start al \<le> al_live_hwm al
     \<and> al_head_hwm al = al_live_hwm al \<and> al_live_hwm al \<le> al_tail_low al
     \<and> al_tail_low al \<le> limit len al \<and> limit len al \<le> len
     \<and> BASE_BLOCK dvd al_live_hwm al \<and> BASE_BLOCK dvd al_tail_low al"

definition fl_aligned :: "freelist \<Rightarrow> bool" where
  "fl_aligned m \<longleftrightarrow> (\<forall>e \<in> set m. BASE_BLOCK dvd fst e \<and> BASE_BLOCK dvd snd e)"

definition region_space :: "nat \<Rightarrow> allocator \<Rightarrow> region \<Rightarrow> nat set" where
  "region_space len al r =
     (if r = EvictionTail then {al_tail_low al ..< limit len al}
      else {al_data_start al ..< al_live_hwm al})"

definition all_free :: "allocator \<Rightarrow> nat set" where
  "all_free al = (\<Union>r. fl_set (freelist_for al r))"

definition free_ok :: "nat \<Rightarrow> allocator \<Rightarrow> bool" where
  "free_ok len al \<longleftrightarrow>
     (\<forall>r. fl_ok (freelist_for al r) \<and> fl_aligned (freelist_for al r)
        \<and> fl_set (freelist_for al r) \<subseteq> region_space len al r)
     \<and> (\<forall>r r'. r \<noteq> r' \<longrightarrow> fl_set (freelist_for al r) \<inter> fl_set (freelist_for al r') = {})"

definition block_in :: "nat \<Rightarrow> allocator \<Rightarrow> nat \<Rightarrow> nat \<Rightarrow> bool" where
  "block_in len al a s \<longleftrightarrow>
     0 < s \<and> BASE_BLOCK dvd a \<and> BASE_BLOCK dvd s
     \<and> (al_data_start al \<le> a \<and> a + s \<le> al_live_hwm al
        \<or> al_tail_low al \<le> a \<and> a + s \<le> limit len al)"

definition disjoint_blocks :: "live \<Rightarrow> bool" where
  "disjoint_blocks L \<longleftrightarrow>
     (\<forall>a s a' s'. L a = Some s \<longrightarrow> L a' = Some s' \<longrightarrow> a \<noteq> a' \<longrightarrow> a + s \<le> a' \<or> a' + s' \<le> a)"

definition blocks_ok :: "live \<Rightarrow> nat \<Rightarrow> allocator \<Rightarrow> bool" where
  "blocks_ok L len al \<longleftrightarrow>
     disjoint_blocks L
     \<and> (\<forall>a s. L a = Some s \<longrightarrow> block_in len al a s \<and> {a ..< a + s} \<inter> all_free al = {})"

definition tags_ok :: "live \<Rightarrow> allocator \<Rightarrow> bool" where
  "tags_ok L al \<longleftrightarrow>
     bt_sorted (al_tags al)
     \<and> (\<forall>a r. map_of (al_tags al) a = Some r \<longrightarrow>
          L a \<noteq> None \<and> (r = EvictionTail \<longleftrightarrow> al_tail_low al \<le> a))"

text \<open>The open pack block and the blocks awaiting release are forward blocks in use.\<close>

definition pending_ok :: "live \<Rightarrow> allocator \<Rightarrow> bool" where
  "pending_ok L al \<longleftrightarrow>
     (\<forall>base used. al_open_pack al = Some (base, used) \<longrightarrow>
        L base = Some BASE_BLOCK \<and> base < al_live_hwm al \<and> used \<le> BASE_BLOCK)
     \<and> distinct (map bl_addr (al_deferred al))
     \<and> (\<forall>loc \<in> set (al_deferred al).
          L (bl_addr loc) = Some (block_size (bl_len loc)) \<and> bl_addr loc < al_live_hwm al)"

definition al_ok :: "live \<Rightarrow> nat \<Rightarrow> allocator \<Rightarrow> bool" where
  "al_ok L len al \<longleftrightarrow>
     frontier_ok len al \<and> free_ok len al \<and> blocks_ok L len al \<and> tags_ok L al \<and> pending_ok L al"

lemmas al_ok_defs = al_ok_def frontier_ok_def free_ok_def blocks_ok_def tags_ok_def pending_ok_def

lemma BASE_BLOCK_pos [simp]: "0 < BASE_BLOCK"
  by (simp add: BASE_BLOCK_def)

lemma block_size_pos [simp]: "0 < block_size len"
  by (simp add: block_size_def less_max_iff_disj)

lemma block_size_dvd [simp]: "BASE_BLOCK dvd block_size len"
  by (simp add: block_size_def max_def round_up_dvd)

lemma block_size_ge: "unat len \<le> block_size len"
  using round_up_ge[of "unat len"] by (simp add: block_size_def)

lemma freelist_for_set [simp]:
  "freelist_for (set_freelist r m al) r' = (if r' = r then m else freelist_for al r')"
  by (cases r; cases r') simp_all

lemma set_freelist_sel [simp]:
  "al_data_start (set_freelist r m al) = al_data_start al"
  "al_head_hwm (set_freelist r m al) = al_head_hwm al"
  "al_live_base (set_freelist r m al) = al_live_base al"
  "al_live_hwm (set_freelist r m al) = al_live_hwm al"
  "al_tail_low (set_freelist r m al) = al_tail_low al"
  "al_wal_start (set_freelist r m al) = al_wal_start al"
  "al_tags (set_freelist r m al) = al_tags al"
  "al_reclaim_floor (set_freelist r m al) = al_reclaim_floor al"
  "al_deferred (set_freelist r m al) = al_deferred al"
  "al_open_pack (set_freelist r m al) = al_open_pack al"
  by (cases r; simp)+

lemma freelist_for_upd [simp]:
  "freelist_for (al\<lparr>al_tags := t\<rparr>) r = freelist_for al r"
  "freelist_for (al\<lparr>al_live_hwm := n\<rparr>) r = freelist_for al r"
  "freelist_for (al\<lparr>al_head_hwm := n\<rparr>) r = freelist_for al r"
  "freelist_for (al\<lparr>al_live_base := n\<rparr>) r = freelist_for al r"
  "freelist_for (al\<lparr>al_tail_low := n\<rparr>) r = freelist_for al r"
  "freelist_for (al\<lparr>al_wal_start := w\<rparr>) r = freelist_for al r"
  "freelist_for (al\<lparr>al_open_pack := p\<rparr>) r = freelist_for al r"
  "freelist_for (al\<lparr>al_deferred := d\<rparr>) r = freelist_for al r"
  "freelist_for (al\<lparr>al_reclaim_floor := f\<rparr>) r = freelist_for al r"
  by (cases r; simp)+

lemma fl_aligned_insert:
  assumes "fl_aligned m" and "BASE_BLOCK dvd addr" and "BASE_BLOCK dvd len"
  shows "fl_aligned (fl_insert m addr len)"
proof -
  have ab: "BASE_BLOCK dvd fst (absorb xs e m')"
    if "BASE_BLOCK dvd e" "fl_aligned xs" for xs e m'
    using that by (induction xs arbitrary: e m') (auto simp: fl_aligned_def max_def)
  have rng: "fl_aligned (bt_range s e m')" and rem: "fl_aligned (bt_remove s m')"
    and abm: "fl_aligned (snd (absorb xs e m'))" if "fl_aligned m'" for s e m' xs
    using that by (auto simp: fl_aligned_def absorb_filter)
  have ins: "fl_aligned (bt_insert k n m')"
    if "fl_aligned m'" "BASE_BLOCK dvd k" "BASE_BLOCK dvd n" for k n m'
    using that set_bt_insert[of k n m'] by (auto simp: fl_aligned_def)
  have fin: "fl_aligned (case absorb (bt_range s e m') e m' of (e', m2) \<Rightarrow> bt_insert s (e' - s) m2)"
    if "fl_aligned m'" "BASE_BLOCK dvd s" "BASE_BLOCK dvd e" for s e m'
    using ab[OF that(3) rng[OF that(1)], of s e m'] abm[OF that(1), of "bt_range s e m'" e] that(2)
    by (auto intro!: ins dvd_diff_nat split: prod.splits)
  show ?thesis
  proof (cases "bt_last_le addr m")
    case None
    with fin[of m addr "addr + len"] assms show ?thesis by (simp add: fl_insert_def)
  next
    case (Some p)
    have "p \<in> set m" using Some
      by (auto simp: bt_last_le_def Let_def split: if_splits dest!: last_in_set)
    with assms have p: "BASE_BLOCK dvd fst p" "BASE_BLOCK dvd snd p" by (auto simp: fl_aligned_def)
    then have "BASE_BLOCK dvd max (addr + len) (fst p + snd p)" using assms by (simp add: max_def)
    with fin[of m addr "addr + len"] fin[OF rem[OF assms(1), of "fst p"] p(1)] assms Some show ?thesis
      by (simp add: fl_insert_def)
  qed
qed

lemma fl_aligned_remove_range:
  assumes "fl_aligned m" and "fl_remove_range m a sz = Inr m'" and "BASE_BLOCK dvd a" and "BASE_BLOCK dvd sz"
  shows "fl_aligned m'"
proof -
  from assms(2) obtain x where x: "bt_last_le a m = Some x"
    by (auto simp: fl_remove_range_def split: option.splits)
  then have "x \<in> set m"
    by (auto simp: bt_last_le_def Let_def split: if_splits dest!: last_in_set)
  with assms(1) have xd: "BASE_BLOCK dvd fst x" "BASE_BLOCK dvd snd x" by (auto simp: fl_aligned_def)
  have ins: "fl_aligned (bt_insert k n m1)"
    if "fl_aligned m1" "BASE_BLOCK dvd k" "BASE_BLOCK dvd n" for k n m1
    using that set_bt_insert[of k n m1] by (auto simp: fl_aligned_def)
  have rem: "fl_aligned (bt_remove k m)" for k using assms(1) by (auto simp: fl_aligned_def)
  from assms(2) x xd assms(3,4) show ?thesis
    by (auto simp: fl_remove_range_def Let_def intro!: ins rem dvd_diff_nat)
qed

section \<open>Handing out a block\<close>

lemma interval_disjoint:
  "0 < s \<Longrightarrow> 0 < t \<Longrightarrow> {a ..< a + s} \<inter> {b ..< b + t} = {} \<longleftrightarrow> a + s \<le> b \<or> b + t \<le> (a::nat)"
  by (simp; linarith?)

lemma blocks_ok_add:
  assumes "disjoint_blocks L" and "\<And>b s. L b = Some s \<Longrightarrow> a + n \<le> b \<or> b + s \<le> a"
  shows "disjoint_blocks (L(a \<mapsto> n))"
  using assms unfolding disjoint_blocks_def by (metis (no_types, lifting) fun_upd_apply option.inject)

lemma tags_ok_add:
  assumes "tags_ok L al" and "r = EvictionTail \<longleftrightarrow> al_tail_low al' \<le> a"
    and "al_tags al' = bt_insert a r (al_tags al)"
    and "\<And>b r. map_of (al_tags al) b = Some r \<Longrightarrow> al_tail_low al' \<le> b \<longleftrightarrow> al_tail_low al \<le> b"
  shows "tags_ok (L(a \<mapsto> n)) al'"
  using assms by (auto simp: tags_ok_def bt_sorted_insert map_of_bt_insert)

lemma pending_ok_add:
  assumes "pending_ok L al" and "L a = None" and "al_open_pack al' = al_open_pack al"
    and "al_deferred al' = al_deferred al" and "al_live_hwm al \<le> al_live_hwm al'"
  shows "pending_ok (L(a \<mapsto> n)) al'"
  using assms unfolding pending_ok_def by (auto intro: less_le_trans)

lemma region_forward: "frontier_ok len al \<Longrightarrow> x \<in> region_space len al r \<Longrightarrow>
    r = EvictionTail \<longleftrightarrow> al_tail_low al \<le> x"
  by (cases "r = EvictionTail") (auto simp: frontier_ok_def region_space_def)

lemma block_in_space:
  assumes "{a ..< a + n} \<subseteq> region_space len al r" and "0 < n" and "BASE_BLOCK dvd a" and "BASE_BLOCK dvd n"
  shows "block_in len al a n"
proof -
  have "a \<in> {a ..< a + n}" and "a + n - 1 \<in> {a ..< a + n}" using assms(2) by auto
  then have "a \<in> region_space len al r" and "a + n - 1 \<in> region_space len al r" using assms(1) by blast+
  with assms(2-) show ?thesis by (auto simp: block_in_def region_space_def split: if_splits)
qed

lemma free_okD:
  assumes "free_ok len al"
  shows "fl_ok (freelist_for al r)" "fl_aligned (freelist_for al r)"
    "fl_set (freelist_for al r) \<subseteq> region_space len al r"
    "r \<noteq> r' \<Longrightarrow> fl_set (freelist_for al r) \<inter> fl_set (freelist_for al r') = {}"
  using assms unfolding free_ok_def by blast+

lemma blocks_okD:
  assumes "blocks_ok L len al" and "L a = Some s"
  shows "block_in len al a s" "{a ..< a + s} \<inter> all_free al = {}" "0 < s"
  using assms unfolding blocks_ok_def block_in_def by blast+

lemma blocks_ok_extend:
  assumes "blocks_ok L len al" and "\<And>b s. L b = Some s \<Longrightarrow> a + n \<le> b \<or> b + s \<le> a"
    and "block_in len al' a n" and "{a ..< a + n} \<inter> all_free al' = {}" and "all_free al' \<subseteq> all_free al"
    and "\<And>b s. block_in len al b s \<Longrightarrow> block_in len al' b s"
  shows "blocks_ok (L(a \<mapsto> n)) len al'"
  unfolding blocks_ok_def
proof (intro conjI allI impI)
  show "disjoint_blocks (L(a \<mapsto> n))"
    using assms(1) by (intro blocks_ok_add assms(2)) (simp_all add: blocks_ok_def)
next
  fix b s assume b: "(L(a \<mapsto> n)) b = Some s"
  show "block_in len al' b s"
    using b assms(3,6) blocks_okD(1)[OF assms(1), of b s] by (auto split: if_splits)
  show "{b ..< b + s} \<inter> all_free al' = {}"
  proof (cases "b = a")
    case True
    with b assms(4) show ?thesis by simp
  next
    case False
    with b blocks_okD(2)[OF assms(1), of b s] assms(5) show ?thesis by simp blast
  qed
qed

lemma take_free_ok:
  assumes ok: "al_ok L len al" and fit: "fl_first_fit (freelist_for al r) n = Some a"
    and n: "0 < n" "BASE_BLOCK dvd n"
  obtains m where "fl_remove_range (freelist_for al r) a n = Inr m"
    and "al_ok (L(a \<mapsto> n)) len ((set_freelist r m al)\<lparr>al_tags := bt_insert a r (al_tags al)\<rparr>)"
    and "\<And>b s. L b = Some s \<Longrightarrow> a + n \<le> b \<or> b + s \<le> a" and "L a = None"
    and "{a ..< a + n} \<subseteq> region_space len al r"
proof -
  from ok have fr: "frontier_ok len al" and fo: "free_ok len al" and bo: "blocks_ok L len al"
    and tg: "tags_ok L al" and pd: "pending_ok L al" by (simp_all add: al_ok_def)
  obtain l where l: "(a, l) \<in> set (freelist_for al r)" "n \<le> l" by (rule fl_first_fit_Some[OF fit])
  obtain m where m: "fl_remove_range (freelist_for al r) a n = Inr m" "fl_ok m"
      "fl_set m = fl_set (freelist_for al r) - {a ..< a + n}" "{a ..< a + n} \<subseteq> fl_set (freelist_for al r)"
    using fl_remove_range_correct[OF _ l(1) n(1) l(2)] fo by (auto simp: free_ok_def)
  have ad: "BASE_BLOCK dvd a" using fo l(1) by (fastforce simp: free_ok_def fl_aligned_def)
  have sp: "{a ..< a + n} \<subseteq> region_space len al r" using m(4) fo by (auto simp: free_ok_def)
  have sub: "{a ..< a + n} \<subseteq> all_free al" using m(4) by (auto simp: all_free_def)
  have apart: "a + n \<le> b \<or> b + s \<le> a" if "L b = Some s" for b s
  proof -
    from bo that have "0 < s" and "{b ..< b + s} \<inter> all_free al = {}"
      by (auto simp: blocks_ok_def block_in_def)
    with sub have "{a ..< a + n} \<inter> {b ..< b + s} = {}" by blast
    with \<open>0 < s\<close> n(1) show ?thesis by (simp only: interval_disjoint)
  qed
  have fresh: "L a = None"
    using apart[of a] n(1) bo by (cases "L a") (fastforce simp: blocks_ok_def block_in_def)+
  define al' where "al' = (set_freelist r m al)\<lparr>al_tags := bt_insert a r (al_tags al)\<rparr>"
  have lim: "limit len al' = limit len al" and spc: "region_space len al' = region_space len al"
    and bin: "block_in len al' = block_in len al"
    by (simp_all add: al'_def limit_def region_space_def block_in_def fun_eq_iff)
  have fls: "freelist_for al' r' = (if r' = r then m else freelist_for al r')" for r'
    by (simp add: al'_def)
  have free': "all_free al' \<subseteq> all_free al - {a ..< a + n}"
  proof
    fix x assume "x \<in> all_free al'"
    then obtain r' where x: "x \<in> fl_set (if r' = r then m else freelist_for al r')"
      unfolding all_free_def fls by blast
    have "x \<in> fl_set (freelist_for al r') - {a ..< a + n}"
      using x m(3,4) free_okD(4)[OF fo, of r' r] by (cases "r' = r") auto
    then show "x \<in> all_free al - {a ..< a + n}" unfolding all_free_def by blast
  qed
  have "frontier_ok len al'" using fr lim by (simp add: frontier_ok_def al'_def)
  moreover have "free_ok len al'"
    unfolding free_ok_def fls spc
  proof (intro conjI allI impI)
    fix r' r'' :: region
    show "fl_ok (if r' = r then m else freelist_for al r')"
      "fl_aligned (if r' = r then m else freelist_for al r')"
      "fl_set (if r' = r then m else freelist_for al r') \<subseteq> region_space len al r'"
      using m(2,3) free_okD(1-3)[OF fo] fl_aligned_remove_range[OF _ m(1) ad n(2)] by (auto simp: subset_iff)
    assume "r' \<noteq> r''"
    then show "fl_set (if r' = r then m else freelist_for al r')
      \<inter> fl_set (if r'' = r then m else freelist_for al r'') = {}"
      using m(3) free_okD(4)[OF fo, of r' r''] by (auto split: if_splits)
  qed
  moreover have "blocks_ok (L(a \<mapsto> n)) len al'"
    using free' by (intro blocks_ok_extend[OF bo apart]) (auto simp: bin block_in_space[OF sp n(1) ad n(2)])
  moreover have "tags_ok (L(a \<mapsto> n)) al'"
  proof (rule tags_ok_add[OF tg])
    have "a \<in> region_space len al r" using sp n(1) by auto
    then show "r = EvictionTail \<longleftrightarrow> al_tail_low al' \<le> a"
      using region_forward[OF fr] by (simp add: al'_def)
  qed (simp_all add: al'_def)
  moreover have "pending_ok (L(a \<mapsto> n)) al'"
    by (rule pending_ok_add[OF pd fresh]) (simp_all add: al'_def)
  ultimately have "al_ok (L(a \<mapsto> n)) len al'" by (simp add: al_ok_def)
  with m(1) apart fresh sp show thesis by (intro that) (simp_all add: al'_def)
qed

lemma space_le:
  assumes "frontier_ok len al" and "blocks_ok L len al" and "L b = Some s"
  shows "b + s \<le> al_live_hwm al \<or> al_tail_low al \<le> b"
  using blocks_okD(1)[OF assms(2,3)] by (auto simp: block_in_def)

lemma free_space:
  assumes "frontier_ok len al" and "free_ok len al"
  shows "all_free al \<inter> {al_live_hwm al ..< al_tail_low al} = {}"
proof -
  have "region_space len al r \<inter> {al_live_hwm al ..< al_tail_low al} = {}" for r
    by (auto simp: region_space_def)
  then show ?thesis unfolding all_free_def using free_okD(3)[OF assms(2)] by blast
qed

lemma bump_ok:
  assumes ok: "al_ok L len al" and n: "0 < n" "BASE_BLOCK dvd n" "BASE_BLOCK dvd a"
    and mid: "al_live_hwm al \<le> a" "a + n \<le> al_tail_low al"
    and al': "al_data_start al' = al_data_start al" "al_wal_start al' = al_wal_start al"
      "\<And>r. freelist_for al' r = freelist_for al r" "al_tags al' = bt_insert a r (al_tags al)"
      "al_open_pack al' = al_open_pack al" "al_deferred al' = al_deferred al"
      "al_head_hwm al' = al_live_hwm al'"
    and dir: "r \<noteq> EvictionTail \<and> a = al_live_hwm al \<and> al_live_hwm al' = a + n \<and> al_tail_low al' = al_tail_low al
      \<or> r = EvictionTail \<and> al_live_hwm al' = al_live_hwm al \<and> a + n = al_tail_low al \<and> al_tail_low al' = a"
  shows "al_ok (L(a \<mapsto> n)) len al' \<and> (\<forall>b s. L b = Some s \<longrightarrow> a + n \<le> b \<or> b + s \<le> a) \<and> L a = None"
proof -
  from ok have fr: "frontier_ok len al" and fo: "free_ok len al" and bo: "blocks_ok L len al"
    and tg: "tags_ok L al" and pd: "pending_ok L al" by (simp_all add: al_ok_def)
  have apart: "\<And>b s. L b = Some s \<Longrightarrow> a + n \<le> b \<or> b + s \<le> a"
    using space_le[OF fr bo] mid by (meson le_trans)
  have fresh: "L a = None"
    using apart[of a] n(1) blocks_okD(3)[OF bo, of a] by (cases "L a") fastforce+
  have lim: "limit len al' = limit len al" using al' by (simp add: limit_def)
  have fl: "all_free al' = all_free al" using al' by (simp add: all_free_def)
  have grow: "al_live_hwm al \<le> al_live_hwm al'" "al_tail_low al' \<le> al_tail_low al"
    "al_live_hwm al' \<le> al_tail_low al'" using dir mid by auto
  have sp: "region_space len al r' \<subseteq> region_space len al' r'" for r'
    using grow al' lim by (auto simp: region_space_def)
  have "frontier_ok len al'" using fr dir lim al' mid n by (auto simp: frontier_ok_def)
  moreover have "free_ok len al'"
    using free_okD[OF fo] sp unfolding free_ok_def al'(3) by blast
  moreover have "blocks_ok (L(a \<mapsto> n)) len al'"
  proof (rule blocks_ok_extend[OF bo apart])
    show "block_in len al' a n"
      using dir al' n fr mid lim by (auto simp: block_in_def frontier_ok_def)
    show "{a ..< a + n} \<inter> all_free al' = {}"
      using free_space[OF fr fo] mid unfolding fl by fastforce
    show "block_in len al' b s" if "block_in len al b s" for b s
      using that grow al'(1) lim by (auto simp: block_in_def)
  qed (simp_all add: fl)
  moreover have "tags_ok (L(a \<mapsto> n)) al'"
  proof (rule tags_ok_add[OF tg _ al'(4)])
    show "r = EvictionTail \<longleftrightarrow> al_tail_low al' \<le> a" using dir mid n by auto
    fix b r' assume "map_of (al_tags al) b = Some r'"
    then obtain s where "L b = Some s" using tg by (auto simp: tags_ok_def)
    from space_le[OF fr bo this] blocks_okD(3)[OF bo this]
    show "al_tail_low al' \<le> b \<longleftrightarrow> al_tail_low al \<le> b" using dir mid by auto
  qed
  moreover have "pending_ok (L(a \<mapsto> n)) al'"
    using al' grow by (intro pending_ok_add[OF pd fresh]) simp_all
  ultimately show ?thesis using apart fresh by (simp add: al_ok_def)
qed

section \<open>Growing moves the tail\<close>

text \<open>The blocks in use after every block at or above \<open>t\<close> has moved up by \<open>d\<close>.\<close>

definition shift_live :: "nat \<Rightarrow> nat \<Rightarrow> live \<Rightarrow> live" where
  "shift_live t d L = (\<lambda>a. if a < t then L a else if a < t + d then None else L (a - d))"

lemma shift_live_0 [simp]: "shift_live t 0 L = L"
  by (simp add: shift_live_def fun_eq_iff)

lemma shift_live_Some:
  "shift_live t d L a = Some s \<longleftrightarrow> a < t \<and> L a = Some s \<or> (\<exists>a0 \<ge> t. a = a0 + d \<and> L a0 = Some s)"
  by (auto simp: shift_live_def intro!: exI[of _ "a - d"] split: if_splits)

lemma map_of_shift_tags:
  assumes "\<forall>a \<in> set as. \<forall>b \<in> set as. a + d \<noteq> b"
  shows "map_of (shift_tags d as ts) x =
    (if x \<in> (\<lambda>a. a + d) ` set as then Some EvictionTail else if x \<in> set as then None else map_of ts x)"
  using assms
proof (induction as arbitrary: ts)
  case Nil
  then show ?case by (simp add: shift_tags_def)
next
  case (Cons a as)
  have "shift_tags d (a # as) ts = shift_tags d as (bt_insert (a + d) EvictionTail (bt_remove a ts))"
    by (simp add: shift_tags_def)
  with Cons show ?case by (auto simp: map_of_bt_insert map_of_bt_remove)
qed

lemma bt_sorted_shift_tags: "bt_sorted ts \<Longrightarrow> bt_sorted (shift_tags d as ts)"
  unfolding shift_tags_def by (induction as arbitrary: ts) (simp_all add: bt_sorted_insert bt_sorted_remove)

lemma bt_insert_last: "\<forall>e \<in> set m. fst e < k \<Longrightarrow> bt_insert k v m = m @ [(k, v)]"
  by (induction m) auto

lemma foldl_shift:
  fixes d :: nat
  assumes "bt_sorted exts" and "\<forall>e \<in> set acc. \<forall>f \<in> set exts. fst e < fst f + d"
  shows "foldl (\<lambda>m e. bt_insert (fst e + d) (snd e) m) acc exts = acc @ map (\<lambda>e. (fst e + d, snd e)) exts"
  using assms
proof (induction exts arbitrary: acc)
  case Nil
  then show ?case by simp
next
  case (Cons f exts)
  have "bt_insert (fst f + d) (snd f) acc = acc @ [(fst f + d, snd f)]"
    using Cons.prems by (intro bt_insert_last) simp
  moreover have "\<forall>e \<in> set (acc @ [(fst f + d, snd f)]). \<forall>g \<in> set exts. fst e < fst g + d"
    using Cons.prems by (auto simp: bt_sorted_Cons)
  ultimately show ?case using Cons.IH[of "acc @ [(fst f + d, snd f)]"] Cons.prems
    by (simp add: bt_sorted_Cons)
qed

abbreviation shift_fl :: "nat \<Rightarrow> freelist \<Rightarrow> freelist" where
  "shift_fl d m \<equiv> map (\<lambda>e. (fst e + d, snd e)) m"

lemma shift_fl_ok: "fl_ok m \<Longrightarrow> fl_ok (shift_fl d m)"
  by (auto simp: fl_ok_def sorted_wrt_map elim!: sorted_wrt_mono_rel[rotated])

lemma shift_fl_aligned: "fl_aligned m \<Longrightarrow> BASE_BLOCK dvd d \<Longrightarrow> fl_aligned (shift_fl d m)"
  by (auto simp: fl_aligned_def)

lemma shift_fl_set: "x \<in> fl_set (shift_fl d m) \<longleftrightarrow> d \<le> x \<and> x - d \<in> fl_set m"
proof -
  have "x \<in> ext_set (fst e + d, snd e) \<longleftrightarrow> d \<le> x \<and> x - d \<in> ext_set e" for e
    by (auto simp: ext_set_def)
  then show ?thesis by (auto simp: fl_set_def)
qed

lemma grow_for_InrD:
  assumes b: "bk_ok b" and t: "al_tail_low al \<le> bk_len b" and g: "grow_for al b needed = Inr (al', b')"
  obtains d where "0 < d" "BASE_BLOCK dvd d" "needed - (al_tail_low al - al_live_hwm al) \<le> d"
    "bk_len b - al_tail_low al \<le> d" "bk_ok b'" "bk_len b' = bk_len b + d" "bk_no_grow b' = bk_no_grow b"
    "al' = (let al1 = (if al_tail_low al < bk_len b then shift_eviction_tail_bookkeeping d al else al)
            in case al_wal_start al of
                 None \<Rightarrow> al1\<lparr>al_tail_low := al_tail_low al1 + d\<rparr>
               | Some w \<Rightarrow> al1\<lparr>al_tail_low := al_tail_low al1 + d, al_wal_start := Some (w + d)\<rparr>)"
    "\<And>i. i < al_tail_low al \<Longrightarrow> bk_bytes b' ! i = bk_bytes b ! i"
    "\<And>i. al_tail_low al \<le> i \<Longrightarrow> i < bk_len b \<Longrightarrow> bk_bytes b' ! (i + d) = bk_bytes b ! i"
proof -
  let ?t = "al_tail_low al" and ?n = "bk_len b"
  define d where "d = round_up_to_block (max (max (needed - (?t - al_live_hwm al)) GROW_CHUNK) (?n - ?t))"
  have d: "max (max (needed - (?t - al_live_hwm al)) GROW_CHUNK) (?n - ?t) \<le> d"
    unfolding d_def by (rule round_up_ge)
  then have d1: "0 < d" "needed - (?t - al_live_hwm al) \<le> d" "?n - ?t \<le> d"
    by (auto simp: GROW_CHUNK_def BASE_BLOCK_def)
  have dd: "BASE_BLOCK dvd d" unfolding d_def by (rule round_up_dvd)
  note g' = g[unfolded grow_for_def Let_def, folded d_def]
  have ov: "?n + d < 2 ^ 64" using g' by (simp split: if_splits)
  from g' ov obtain b1 where g1: "bk_grow b (?n + d) = Inr b1" by auto
  note G = bk_grow_InrD[OF g1]
  have b1: "bk_ok b1" by (rule bk_grow_pres[OF b ov g1])
  have len1: "length (bk_bytes b1) = ?n + d" using b1 G by (simp add: bk_ok_def)
  have nth1: "bk_bytes b1 ! i = bk_bytes b ! i" if "i < ?n" for i
    using that b G(5) by (simp add: resize_def bk_ok_def nth_append)
  show thesis
  proof (cases "?t < ?n")
    case False
    with t have tn: "?t = ?n" by simp
    have "b' = b1"
      using g' g1 ov False by (simp split: option.splits)
    moreover have "al' = (case al_wal_start al of None \<Rightarrow> al\<lparr>al_tail_low := ?t + d\<rparr>
        | Some w \<Rightarrow> al\<lparr>al_tail_low := ?t + d, al_wal_start := Some (w + d)\<rparr>)"
      using g' g1 ov False by (simp split: option.splits)
    ultimately show thesis
      using d1 dd b1 G nth1 tn False by (intro that[of d]) (simp_all add: Let_def)
  next
    case True
    define buf where "buf = slice ?t (?n - ?t) (bk_bytes b1)"
    have rd: "bk_read_at b1 ?t (?n - ?t) = Inr buf"
      unfolding buf_def using b1 G True by (intro bk_read_at_ok) simp_all
    have bl: "length buf = ?n - ?t" using len1 True by (simp add: buf_def slice_def)
    obtain b2 where w2: "bk_write_at b1 (?t + d) buf = Inr b2"
      using b1 G True bl by (auto simp: bk_write_at_ok)
    note W2 = bk_write_at_InrD[OF w2]
    have b2: "bk_ok b2" by (rule bk_write_at_pres[OF b1 w2])
    have z: "min ?n (?t + d) - ?t = ?n - ?t" using d1(3) True by simp
    obtain b3 where w3: "bk_write_at b2 ?t (replicate (?n - ?t) 0) = Inr b3"
      using b2 W2 G True by (auto simp: bk_write_at_ok)
    note W3 = bk_write_at_InrD[OF w3]
    have b3: "bk_ok b3" by (rule bk_write_at_pres[OF b2 w3])
    have "b' = (case al_wal_start al of None \<Rightarrow> b3 | Some _ \<Rightarrow> b2)"
      using g' g1 ov True rd w2 w3 z by (simp add: Let_def split: option.splits)
    moreover have "al' = (let al1 = shift_eviction_tail_bookkeeping d al in
        case al_wal_start al of None \<Rightarrow> al1\<lparr>al_tail_low := al_tail_low al1 + d\<rparr>
        | Some w \<Rightarrow> al1\<lparr>al_tail_low := al_tail_low al1 + d, al_wal_start := Some (w + d)\<rparr>)"
      using g' g1 ov True rd w2 w3 z by (simp add: Let_def split: option.splits)
    moreover have "bk_bytes b2 ! i = bk_bytes b ! i" "bk_bytes b3 ! i = bk_bytes b ! i" if "i < ?t" for i
      using that W2 W3 bl len1 G True nth1[of i] by (simp_all add: nth_splice)
    moreover have above: "\<not> i + d < ?n" if "?t \<le> i" for i using that d1(3) by linarith
    moreover have "bk_bytes b2 ! (i + d) = bk_bytes b ! i" "bk_bytes b3 ! (i + d) = bk_bytes b ! i"
      if "?t \<le> i" "i < ?n" for i
      using that W2 W3 bl len1 G True nth1[of i] above[of i] by (simp_all add: nth_splice buf_def nth_slice)
    ultimately show thesis
      using d1 dd b2 b3 W2 W3 G True by (intro that[of d]) (simp_all add: Let_def split: option.splits)
  qed
qed

lemma shift_bookkeeping_sel [simp]:
  "al_data_start (shift_eviction_tail_bookkeeping d al) = al_data_start al"
  "al_head_hwm (shift_eviction_tail_bookkeeping d al) = al_head_hwm al"
  "al_live_base (shift_eviction_tail_bookkeeping d al) = al_live_base al"
  "al_live_hwm (shift_eviction_tail_bookkeeping d al) = al_live_hwm al"
  "al_tail_low (shift_eviction_tail_bookkeeping d al) = al_tail_low al"
  "al_wal_start (shift_eviction_tail_bookkeeping d al) = al_wal_start al"
  "al_free_head (shift_eviction_tail_bookkeeping d al) = al_free_head al"
  "al_free_live (shift_eviction_tail_bookkeeping d al) = al_free_live al"
  "al_reclaim_floor (shift_eviction_tail_bookkeeping d al) = al_reclaim_floor al"
  "al_deferred (shift_eviction_tail_bookkeeping d al) = al_deferred al"
  "al_open_pack (shift_eviction_tail_bookkeeping d al) = al_open_pack al"
  by (simp_all add: shift_eviction_tail_bookkeeping_def Let_def)

text \<open>What a moved allocator looks like; with an empty tail there is nothing to move.\<close>

lemma tail_tag_addrs:
  assumes "tags_ok L al"
  shows "set (map fst (filter (\<lambda>e. snd e = EvictionTail) (bt_from (al_tail_low al) (al_tags al))))
    = {a. map_of (al_tags al) a = Some EvictionTail}"
  using assms bt_sorted_map_of[of "al_tags al"] by (force simp: tags_ok_def bt_from_def image_iff)

lemma shifted_ok:
  assumes ok: "al_ok L len al" and d: "BASE_BLOCK dvd d" "len - al_tail_low al \<le> d" "0 < d"
    and al': "al_data_start al' = al_data_start al" "al_head_hwm al' = al_head_hwm al"
      "al_live_hwm al' = al_live_hwm al" "al_tail_low al' = al_tail_low al + d"
      "al_wal_start al' = map_option (\<lambda>w. w + d) (al_wal_start al)"
      "al_free_head al' = al_free_head al" "al_free_live al' = al_free_live al"
      "al_deferred al' = al_deferred al" "al_open_pack al' = al_open_pack al"
    and ft: "al_free_tail al' = shift_fl d (al_free_tail al)"
    and tg': "bt_sorted (al_tags al')"
      "\<And>x. map_of (al_tags al') x =
         (if x < al_tail_low al then map_of (al_tags al) x
          else if x < al_tail_low al + d then None else map_of (al_tags al) (x - d))"
  shows "al_ok (shift_live (al_tail_low al) d L) (len + d) al'"
proof -
  from ok have fr: "frontier_ok len al" and fo: "free_ok len al" and bo: "blocks_ok L len al"
    and tg: "tags_ok L al" and pd: "pending_ok L al" by (simp_all add: al_ok_def)
  let ?t = "al_tail_low al" and ?L = "shift_live (al_tail_low al) d L"
  have lim: "limit (len + d) al' = limit len al + d"
    using al'(5) by (auto simp: limit_def split: option.splits)
  have fls: "freelist_for al' r = (if r = EvictionTail then shift_fl d (al_free_tail al) else freelist_for al r)" for r
    using al'(6,7) ft by (cases r) simp_all
  have sp: "region_space (len + d) al' r = (if r = EvictionTail then {?t + d ..< limit len al + d}
      else region_space len al r)" for r
    using al' lim by (simp add: region_space_def)
  have mem: "x \<in> fl_set (freelist_for al' r) \<longleftrightarrow>
      (if r = EvictionTail then d \<le> x \<and> x - d \<in> fl_set (freelist_for al r) else x \<in> fl_set (freelist_for al r))" for x r
    by (simp add: fls shift_fl_set)
  have "frontier_ok (len + d) al'" using fr al' lim d by (auto simp: frontier_ok_def)
  moreover have sub: "fl_set (freelist_for al' r) \<subseteq> region_space (len + d) al' r" for r
  proof
    fix x assume "x \<in> fl_set (freelist_for al' r)"
    then show "x \<in> region_space (len + d) al' r"
      using free_okD(3)[OF fo, of r] unfolding mem sp subset_iff
      by (cases "r = EvictionTail") (auto simp: region_space_def dest!: spec[of _ "x - d"])
  qed
  have "free_ok (len + d) al'"
    unfolding free_ok_def
  proof (intro conjI allI impI)
    fix r r' :: region
    show "fl_ok (freelist_for al' r)" "fl_aligned (freelist_for al' r)"
      using free_okD(1,2)[OF fo, of r] d(1) unfolding fls by (auto simp: shift_fl_ok shift_fl_aligned)
    show "fl_set (freelist_for al' r) \<subseteq> region_space (len + d) al' r" by (rule sub)
    assume ne: "r \<noteq> r'"
    have "region_space (len + d) al' r \<inter> region_space (len + d) al' r' = {}"
      if "r = EvictionTail \<or> r' = EvictionTail"
      using that ne fr al'(1,3,4) by (auto simp: region_space_def frontier_ok_def)
    then show "fl_set (freelist_for al' r) \<inter> fl_set (freelist_for al' r') = {}"
      using sub[of r] sub[of r'] free_okD(4)[OF fo ne] by (cases "r = EvictionTail \<or> r' = EvictionTail") (blast, simp add: fls)
  qed
  moreover have "blocks_ok ?L (len + d) al'"
  proof -
    have "block_in (len + d) al' a s \<and> {a ..< a + s} \<inter> all_free al' = {}" if "?L a = Some s" for a s
    proof (cases "a < ?t")
      case True
      with that have a: "L a = Some s" by (simp add: shift_live_def)
      from blocks_okD(1)[OF bo a] True have hw: "a + s \<le> al_live_hwm al" by (simp add: block_in_def)
      have "x \<notin> all_free al'" if x: "x \<in> {a ..< a + s}" for x
      proof -
        have "x \<notin> all_free al" using x blocks_okD(2)[OF bo a] by blast
        moreover have "x < ?t" using x hw fr by (auto simp: frontier_ok_def)
        then have "x \<notin> fl_set (freelist_for al' EvictionTail)" using sub[of EvictionTail] by (auto simp: sp)
        ultimately show ?thesis unfolding all_free_def UN_iff mem by auto
      qed
      with blocks_okD(1)[OF bo a] True hw al' show ?thesis by (auto simp: block_in_def)
    next
      case False
      with that obtain a0 where a0: "?t \<le> a0" "a = a0 + d" "L a0 = Some s" by (auto simp: shift_live_Some)
      have low: "x \<notin> fl_set (freelist_for al r)" if "?t \<le> x" "r \<noteq> EvictionTail" for x r
        using that free_okD(3)[OF fo, of r] fr by (auto simp: region_space_def frontier_ok_def)
      have "x \<notin> all_free al'" if x: "x \<in> {a ..< a + s}" for x
      proof -
        have "x - d \<in> {a0 ..< a0 + s}" and "?t \<le> x" using x a0 by auto
        then have "x - d \<notin> all_free al" using blocks_okD(2)[OF bo a0(3)] by blast
        then show ?thesis using low[OF \<open>?t \<le> x\<close>] unfolding all_free_def UN_iff mem by metis
      qed
      with blocks_okD(1)[OF bo a0(3)] a0 fr al' lim d(1) show ?thesis
        by (auto simp: block_in_def frontier_ok_def)
    qed
    moreover have "disjoint_blocks ?L"
      unfolding disjoint_blocks_def
    proof (intro allI impI)
      fix a s a' s' assume "?L a = Some s" "?L a' = Some s'" "a \<noteq> a'"
      moreover from this obtain c c' where c: "L c = Some s" "a = (if c < ?t then c else c + d)"
          "L c' = Some s'" "a' = (if c' < ?t then c' else c' + d)"
        unfolding shift_live_Some by (metis not_le)
      ultimately have "c + s \<le> c' \<or> c' + s' \<le> c"
        using bo by (auto simp: blocks_ok_def disjoint_blocks_def)
      then show "a + s \<le> a' \<or> a' + s' \<le> a"
        using c space_le[OF fr bo c(1)] space_le[OF fr bo c(3)] fr
        by (auto simp: frontier_ok_def split: if_splits)
    qed
    ultimately show ?thesis by (simp add: blocks_ok_def)
  qed
  moreover have "tags_ok ?L al'"
    using tg unfolding tags_ok_def tg'(2) al'(4) by (auto simp: tg'(1) shift_live_def split: if_splits)
  moreover have "pending_ok ?L al'"
    using pd fr unfolding pending_ok_def al' frontier_ok_def by (auto simp: shift_live_def)
  ultimately show ?thesis by (simp add: al_ok_def)
qed

lemma grow_for_ok:
  assumes ok: "al_ok L (bk_len b) al" and b: "bk_ok b" and g: "grow_for al b needed = Inr (al', b')"
  obtains d where "BASE_BLOCK dvd d" "bk_ok b'" "bk_len b' = bk_len b + d"
    "al_ok (shift_live (al_tail_low al) d L) (bk_len b') al'"
    "al_live_hwm al' = al_live_hwm al" "al_live_hwm al' + needed \<le> al_tail_low al'"
    "al_tail_low al' = al_tail_low al + d" "al_deferred al' = al_deferred al"
    "al_reclaim_floor al' = al_reclaim_floor al"
    "\<And>i. i < al_tail_low al \<Longrightarrow> bk_bytes b' ! i = bk_bytes b ! i"
    "\<And>i. al_tail_low al \<le> i \<Longrightarrow> i < bk_len b \<Longrightarrow> bk_bytes b' ! (i + d) = bk_bytes b ! i"
proof -
  from ok have fr: "frontier_ok (bk_len b) al" and fo: "free_ok (bk_len b) al"
    and bo: "blocks_ok L (bk_len b) al" and tg: "tags_ok L al" by (simp_all add: al_ok_def)
  let ?t = "al_tail_low al"
  have t: "?t \<le> bk_len b" "al_live_hwm al \<le> ?t" using fr by (auto simp: frontier_ok_def)
  obtain d where d: "0 < d" "BASE_BLOCK dvd d" "needed - (?t - al_live_hwm al) \<le> d" "bk_len b - ?t \<le> d"
    and b': "bk_ok b'" "bk_len b' = bk_len b + d"
    and al': "al' = (let al1 = (if ?t < bk_len b then shift_eviction_tail_bookkeeping d al else al)
            in case al_wal_start al of
                 None \<Rightarrow> al1\<lparr>al_tail_low := al_tail_low al1 + d\<rparr>
               | Some w \<Rightarrow> al1\<lparr>al_tail_low := al_tail_low al1 + d, al_wal_start := Some (w + d)\<rparr>)"
    and bytes: "\<And>i. i < ?t \<Longrightarrow> bk_bytes b' ! i = bk_bytes b ! i"
      "\<And>i. ?t \<le> i \<Longrightarrow> i < bk_len b \<Longrightarrow> bk_bytes b' ! (i + d) = bk_bytes b ! i"
    by (rule grow_for_InrD[OF b t(1) g], rule that, assumption+)
  define as where "as = map fst (filter (\<lambda>e. snd e = EvictionTail) (bt_from ?t (al_tags al)))"
  have as: "set as = {a. map_of (al_tags al) a = Some EvictionTail}"
    unfolding as_def by (rule tail_tag_addrs[OF tg])
  have tag_low: "?t \<le> a \<and> a < bk_len b" if "a \<in> set as" for a
  proof -
    from that as tg obtain s where s: "L a = Some s" "?t \<le> a" by (fastforce simp: tags_ok_def)
    with blocks_okD(1)[OF bo s(1)] fr show ?thesis by (auto simp: block_in_def frontier_ok_def)
  qed
  have tag_high: "map_of (al_tags al) x = None \<or> x \<in> set as" if "?t \<le> x" for x
    using that tg as by (cases "map_of (al_tags al) x") (auto simp: tags_ok_def)
  have tail_free: "al_free_tail al = []" if "\<not> ?t < bk_len b"
  proof -
    have "fl_set (al_free_tail al) = {}"
      using free_okD(3)[OF fo, of EvictionTail] that fr by (auto simp: region_space_def frontier_ok_def)
    moreover have "fl_ok (al_free_tail al)" using free_okD(1)[OF fo, of EvictionTail] by simp
    ultimately show ?thesis by (cases "al_free_tail al") (auto simp: fl_ok_def fl_set_def ext_set_def)
  qed
  have ft: "al_free_tail al' = shift_fl d (al_free_tail al)"
    using al' tail_free foldl_shift[of "al_free_tail al" "[]" d] fl_ok_sorted[OF free_okD(1)[OF fo, of EvictionTail]]
    by (auto simp: Let_def shift_eviction_tail_bookkeeping_def split: option.splits)
  have tags': "al_tags al' = (if ?t < bk_len b then shift_tags d as (al_tags al) else al_tags al)"
    using al' by (auto simp: Let_def shift_eviction_tail_bookkeeping_def as_def split: option.splits)
  have nocoll: "\<forall>a \<in> set as. \<forall>a' \<in> set as. a + d \<noteq> a'"
  proof (intro ballI)
    fix a a' assume "a \<in> set as" "a' \<in> set as"
    then show "a + d \<noteq> a'" using tag_low[of a] tag_low[of a'] d(4) by linarith
  qed
  have low: "map_of (al_tags al) x = None" if "?t \<le> x" "x \<notin> set as" for x using tag_high that by blast
  have mo: "map_of (al_tags al') x = (if x < ?t then map_of (al_tags al) x
      else if x < ?t + d then None else map_of (al_tags al) (x - d))" for x
  proof (cases "?t < bk_len b")
    case True
    have m: "map_of (al_tags al') x = (if x \<in> (\<lambda>a. a + d) ` set as then Some EvictionTail
        else if x \<in> set as then None else map_of (al_tags al) x)"
      using True tags' map_of_shift_tags[OF nocoll] by simp
    consider "x < ?t" | "?t \<le> x" "x < ?t + d" | "?t + d \<le> x" by linarith
    then show ?thesis
    proof cases
      case 1
      then have "x \<notin> set as" "x \<notin> (\<lambda>a. a + d) ` set as" using tag_low by fastforce+
      with m 1 show ?thesis by simp
    next
      case 2
      then have "x \<notin> (\<lambda>a. a + d) ` set as" using tag_low by fastforce
      with m 2 low show ?thesis by auto
    next
      case 3
      then have x: "x \<notin> set as" using tag_low[of x] d(4) by linarith
      have im: "x \<in> (\<lambda>a. a + d) ` set as \<longleftrightarrow> x - d \<in> set as" using 3 by (force simp: image_iff)
      have "?t \<le> x - d" "?t \<le> x" using 3 by linarith+
      then have "map_of (al_tags al) (x - d) = (if x - d \<in> set as then Some EvictionTail else None)"
        and "map_of (al_tags al) x = None"
        using low[of "x - d"] low[of x] x as by simp_all
      with 3 x show ?thesis unfolding m im by simp
    qed
  next
    case False
    then have "as = []" using tag_low by (cases as) fastforce+
    with False show ?thesis unfolding tags' using low by auto
  qed
  have st: "bt_sorted (al_tags al')" using tg tags' by (simp add: bt_sorted_shift_tags tags_ok_def)
  have "al_ok (shift_live ?t d L) (bk_len b + d) al'"
    by (rule shifted_ok[OF ok d(2,4,1) _ _ _ _ _ _ _ _ _ ft st mo])
      (auto simp: al' Let_def split: option.splits)
  moreover have "al_live_hwm al' = al_live_hwm al" "al_tail_low al' = ?t + d" "al_deferred al' = al_deferred al"
    "al_reclaim_floor al' = al_reclaim_floor al"
    by (auto simp: al' Let_def split: option.splits)
  ultimately show thesis using d b' bytes t by (intro that[of d]) auto
qed

lemma grow_for_InlD:
  assumes b: "bk_ok b" and t: "al_tail_low al \<le> bk_len b" and g: "grow_for al b needed = Inl e"
  shows "bk_no_grow b \<and> e = Io StorageFull ''container is on a fixed device and cannot grow''
    \<or> e = Panic ''attempt to add with overflow'' \<and>
      2 ^ 64 \<le> bk_len b + round_up_to_block
        (max (max (needed - (al_tail_low al - al_live_hwm al)) GROW_CHUNK) (bk_len b - al_tail_low al))"
proof -
  let ?t = "al_tail_low al" and ?n = "bk_len b"
  define d where "d = round_up_to_block (max (max (needed - (?t - al_live_hwm al)) GROW_CHUNK) (?n - ?t))"
  have "max (max (needed - (?t - al_live_hwm al)) GROW_CHUNK) (?n - ?t) \<le> d"
    unfolding d_def by (rule round_up_ge)
  then have d: "0 < d" "?n - ?t \<le> d" by (auto simp: GROW_CHUNK_def BASE_BLOCK_def)
  note g' = g[unfolded grow_for_def Let_def, folded d_def]
  show ?thesis
  proof (cases "2 ^ 64 \<le> ?n + d \<or> bk_no_grow b")
    case True
    then show ?thesis using g' d(1) unfolding d_def[symmetric] by (auto simp: bk_grow_def split: if_splits)
  next
    case False
    then obtain b1 where g1: "bk_grow b (?n + d) = Inr b1" using d(1) by (simp add: bk_grow_def)
    have b1: "bk_ok b1" "bk_len b1 = ?n + d"
      using bk_grow_pres[OF b _ g1] bk_grow_InrD(2)[OF g1] False by simp_all
    then have l1: "length (bk_bytes b1) = ?n + d" by (simp add: bk_ok_def)
    have "is_ok (bk_write_at b1 (?t + d) (slice ?t (?n - ?t) (bk_bytes b1)))"
      using t b1 l1 by (intro bk.wr_ok) (simp_all add: slice_def)
    then obtain b2 where w: "bk_write_at b1 (?t + d) (slice ?t (?n - ?t) (bk_bytes b1)) = Inr b2"
      by (auto simp: is_ok_iff)
    have "is_ok (bk_write_at b2 ?t (replicate (min ?n (?t + d) - ?t) 0))"
      using t bk_write_at_InrD(2)[OF w] bk_write_at_pres[OF b1(1) w] b1
      by (intro bk.wr_ok) simp_all
    then obtain b3 where w2: "bk_write_at b2 ?t (replicate (min ?n (?t + d) - ?t) 0) = Inr b3"
      by (auto simp: is_ok_iff)
    have rd: "bk_read_at b1 ?t (?n - ?t) = Inr (slice ?t (?n - ?t) (bk_bytes b1))"
      using b1 t by (intro bk_read_at_ok) simp_all
    from g' False g1 rd w w2 show ?thesis by (simp split: option.splits if_splits)
  qed
qed

section \<open>The allocation contract\<close>

text \<open>
  \<open>moved al b b' i\<close> is where byte \<open>i\<close> of the container \<open>b\<close> is found in \<open>b'\<close>: a growth moved everything
  from the tail upwards by the amount grown.
\<close>

definition moved :: "allocator \<Rightarrow> backend \<Rightarrow> backend \<Rightarrow> nat \<Rightarrow> nat" where
  "moved al b b' i = (if i < al_tail_low al then i else i + (bk_len b' - bk_len b))"

definition moved_live :: "allocator \<Rightarrow> backend \<Rightarrow> backend \<Rightarrow> live \<Rightarrow> live" where
  "moved_live al b b' L = shift_live (al_tail_low al) (bk_len b' - bk_len b) L"

definition kept_bytes :: "allocator \<Rightarrow> backend \<Rightarrow> backend \<Rightarrow> bool" where
  "kept_bytes al b b' \<longleftrightarrow> (\<forall>i < bk_len b. bk_bytes b' ! moved al b b' i = bk_bytes b ! i)"

lemma room_ok:
  assumes ok: "al_ok L (bk_len b) al" and b: "bk_ok b"
    and g: "(if al_tail_low al < al_live_hwm al + n then grow_for al b n else Inr (al, b)) = Inr (al1, b1)"
  shows "bk_ok b1" "bk_len b \<le> bk_len b1" "al_ok (moved_live al b b1 L) (bk_len b1) al1"
    "al_live_hwm al1 + n \<le> al_tail_low al1" "kept_bytes al b b1" "al_live_hwm al1 = al_live_hwm al"
    "al_deferred al1 = al_deferred al" "al_reclaim_floor al1 = al_reclaim_floor al"
proof -
  have "bk_ok b1 \<and> bk_len b \<le> bk_len b1 \<and> al_ok (moved_live al b b1 L) (bk_len b1) al1
    \<and> al_live_hwm al1 + n \<le> al_tail_low al1 \<and> kept_bytes al b b1 \<and> al_live_hwm al1 = al_live_hwm al
    \<and> al_deferred al1 = al_deferred al \<and> al_reclaim_floor al1 = al_reclaim_floor al"
  proof (cases "al_tail_low al < al_live_hwm al + n")
    case True
    with g have g': "grow_for al b n = Inr (al1, b1)" by simp
    obtain d where "bk_ok b1" "bk_len b1 = bk_len b + d"
      "al_ok (shift_live (al_tail_low al) d L) (bk_len b1) al1" "al_live_hwm al1 + n \<le> al_tail_low al1"
      "al_live_hwm al1 = al_live_hwm al" "al_deferred al1 = al_deferred al"
      "al_reclaim_floor al1 = al_reclaim_floor al"
      "\<And>i. i < al_tail_low al \<Longrightarrow> bk_bytes b1 ! i = bk_bytes b ! i"
      "\<And>i. al_tail_low al \<le> i \<Longrightarrow> i < bk_len b \<Longrightarrow> bk_bytes b1 ! (i + d) = bk_bytes b ! i"
      by (rule grow_for_ok[OF ok b g'], rule that, assumption+)
    then show ?thesis by (simp add: moved_live_def kept_bytes_def moved_def)
  next
    case False
    with g ok b show ?thesis by (auto simp: moved_live_def kept_bytes_def moved_def)
  qed
  then show "bk_ok b1" "bk_len b \<le> bk_len b1" "al_ok (moved_live al b b1 L) (bk_len b1) al1"
    "al_live_hwm al1 + n \<le> al_tail_low al1" "kept_bytes al b b1" "al_live_hwm al1 = al_live_hwm al"
    "al_deferred al1 = al_deferred al" "al_reclaim_floor al1 = al_reclaim_floor al" by simp_all
qed

lemma bump_forward_sel:
  assumes "bump_forward al n len r = (al', loc)" and "al_head_hwm al = al_live_hwm al"
  shows "loc = \<lparr>bl_addr = al_live_hwm al, bl_len = len\<rparr>" "al_data_start al' = al_data_start al"
    "al_wal_start al' = al_wal_start al" "freelist_for al' r' = freelist_for al r'" "al_tags al' = al_tags al"
    "al_open_pack al' = al_open_pack al" "al_deferred al' = al_deferred al"
    "al_live_hwm al' = al_live_hwm al + n" "al_head_hwm al' = al_live_hwm al'" "al_tail_low al' = al_tail_low al"
    "al_reclaim_floor al' = al_reclaim_floor al"
  using assms by (auto simp: bump_forward_def Let_def split: if_splits)

lemma alloc_aligned_ok:
  assumes ok: "al_ok L (bk_len b) al" and b: "bk_ok b" and a: "alloc_aligned al b len r = Inr (al', b', loc)"
  shows "bk_ok b' \<and> bk_len b \<le> bk_len b' \<and> kept_bytes al b b' \<and> bl_len loc = len
    \<and> al_ok ((moved_live al b b' L)(bl_addr loc \<mapsto> block_size len)) (bk_len b') al'
    \<and> (\<forall>c s. moved_live al b b' L c = Some s \<longrightarrow>
         bl_addr loc + block_size len \<le> c \<or> c + s \<le> bl_addr loc)
    \<and> moved_live al b b' L (bl_addr loc) = None
    \<and> map_of (al_tags al') (bl_addr loc) = Some r \<and> al_live_hwm al \<le> al_live_hwm al'
    \<and> al_deferred al' = al_deferred al \<and> al_reclaim_floor al' = al_reclaim_floor al"
proof (cases "fl_first_fit (freelist_for al r) (block_size len)")
  case (Some addr)
  obtain m where m: "fl_remove_range (freelist_for al r) addr (block_size len) = Inr m"
    "al_ok (L(addr \<mapsto> block_size len)) (bk_len b) ((set_freelist r m al)\<lparr>al_tags := bt_insert addr r (al_tags al)\<rparr>)"
    "\<And>c s. L c = Some s \<Longrightarrow> addr + block_size len \<le> c \<or> c + s \<le> addr" "L addr = None"
    by (rule take_free_ok[OF ok Some block_size_pos block_size_dvd], rule that, assumption+)
  from a Some m(1) have "b' = b" "loc = \<lparr>bl_addr = addr, bl_len = len\<rparr>"
    "al' = (set_freelist r m al)\<lparr>al_tags := bt_insert addr r (al_tags al)\<rparr>"
    by (simp_all add: alloc_aligned_def Let_def)
  with m b show ?thesis by (simp add: moved_live_def kept_bytes_def moved_def map_of_bt_insert)
next
  case None
  let ?n = "block_size len"
  from a None obtain al1 b1 where
    g: "(if al_tail_low al < al_live_hwm al + ?n then grow_for al b ?n else Inr (al, b)) = Inr (al1, b1)"
    by (auto simp: alloc_aligned_def Let_def split: if_splits prod.splits)
  note R = room_ok[OF ok b g]
  have fr: "frontier_ok (bk_len b1) al1" using R(3) by (simp add: al_ok_def)
  show ?thesis
  proof (cases "r = EvictionTail")
    case True
    define al2 where "al2 = al1\<lparr>al_tail_low := al_tail_low al1 - ?n\<rparr>"
    from a None g True have e: "b' = b1" "loc = \<lparr>bl_addr = al_tail_low al1 - ?n, bl_len = len\<rparr>"
        "al' = al2\<lparr>al_tags := bt_insert (al_tail_low al1 - ?n) r (al_tags al2)\<rparr>"
      by (auto simp: alloc_aligned_def Let_def al2_def split: if_splits)
    have "al_ok ((moved_live al b b1 L)(bl_addr loc \<mapsto> ?n)) (bk_len b1) al'
      \<and> (\<forall>c s. moved_live al b b1 L c = Some s \<longrightarrow> bl_addr loc + ?n \<le> c \<or> c + s \<le> bl_addr loc)
      \<and> moved_live al b b1 L (bl_addr loc) = None"
      using R(4) fr True
      by (intro bump_ok[OF R(3), where r = r and al' = al'])
        (simp_all add: e al2_def frontier_ok_def dvd_diff_nat)
    with R e show ?thesis by (simp add: map_of_bt_insert al2_def)
  next
    case False
    obtain al2 l2 where bf: "bump_forward al1 ?n len r = (al2, l2)" by fastforce
    note S = bump_forward_sel[OF bf]
    have hd: "al_head_hwm al1 = al_live_hwm al1" using fr by (simp add: frontier_ok_def)
    from a None g False bf have e: "b' = b1" "loc = l2" "al' = al2\<lparr>al_tags := bt_insert (bl_addr l2) r (al_tags al2)\<rparr>"
      by (auto simp: alloc_aligned_def Let_def)
    have "al_ok ((moved_live al b b1 L)(bl_addr loc \<mapsto> ?n)) (bk_len b1) al'
      \<and> (\<forall>c s. moved_live al b b1 L c = Some s \<longrightarrow> bl_addr loc + ?n \<le> c \<or> c + s \<le> bl_addr loc)
      \<and> moved_live al b b1 L (bl_addr loc) = None"
      using R(4) fr False
      by (intro bump_ok[OF R(3), where r = r and al' = al']) (simp_all add: e S[OF hd] frontier_ok_def)
    with R e S(1,7,8,11)[OF hd] show ?thesis by (simp add: map_of_bt_insert)
  qed
qed

end
