(* ===== verification/Allocator_Steps.thy ===== *)
theory Allocator_Steps
  imports Allocator_Inv
begin

text \<open>
  Freeing, packing, reclaim scopes, deferred frees and the rebuild operations keep the invariant;
  the allocator as a state machine whose every reachable state satisfies it; and the properties.
\<close>

section \<open>Giving space back\<close>

lemma give_back_ok:
  assumes ok: "al_ok L len al" and n: "0 < n" "BASE_BLOCK dvd a" "BASE_BLOCK dvd n"
    and sp: "{a ..< a + n} \<subseteq> region_space len al r" and fr: "{a ..< a + n} \<inter> all_free al = {}"
    and apart: "\<And>b s. L b = Some s \<Longrightarrow> a + n \<le> b \<or> b + s \<le> a"
  shows "al_ok L len (set_freelist r (fl_insert (freelist_for al r) a n) al)"
proof -
  from ok have fo: "free_ok len al" and bo: "blocks_ok L len al" by (simp_all add: al_ok_def)
  define al' where "al' = set_freelist r (fl_insert (freelist_for al r) a n) al"
  have lim: "limit len al' = limit len al" and spc: "region_space len al' = region_space len al"
    and bin: "block_in len al' = block_in len al"
    by (simp_all add: al'_def limit_def region_space_def block_in_def fun_eq_iff)
  note ins = fl_insert_correct[OF free_okD(1)[OF fo, of r] n(1), of a]
  have fls: "fl_set (freelist_for al' r') = (if r' = r then fl_set (freelist_for al r) \<union> {a ..< a + n}
      else fl_set (freelist_for al r'))" for r'
    using ins by (simp add: al'_def)
  have disj: "fl_set (freelist_for al r') \<inter> {a ..< a + n} = {}" for r'
    using fr unfolding all_free_def by blast
  have all: "all_free al' = all_free al \<union> {a ..< a + n}"
    unfolding all_free_def fls by (auto split: if_splits)
  have "free_ok len al'"
    unfolding free_ok_def
  proof (intro conjI allI impI)
    fix r' r'' :: region
    show "fl_ok (freelist_for al' r')" "fl_aligned (freelist_for al' r')"
      using ins free_okD(1,2)[OF fo] fl_aligned_insert[OF free_okD(2)[OF fo] n(2,3)] by (auto simp: al'_def)
    show "fl_set (freelist_for al' r') \<subseteq> region_space len al' r'"
      using free_okD(3)[OF fo, of r'] sp unfolding fls spc by auto
    assume "r' \<noteq> r''"
    then show "fl_set (freelist_for al' r') \<inter> fl_set (freelist_for al' r'') = {}"
      using free_okD(4)[OF fo, of r' r''] disj[of r'] disj[of r''] unfolding fls by auto
  qed
  moreover have "blocks_ok L len al'"
    unfolding blocks_ok_def bin all
  proof (intro conjI allI impI)
    show "disjoint_blocks L" using bo by (simp add: blocks_ok_def)
    fix b s assume b: "L b = Some s"
    show "block_in len al b s" by (rule blocks_okD(1)[OF bo b])
    have "{a ..< a + n} \<inter> {b ..< b + s} = {}"
      using interval_disjoint[OF n(1) blocks_okD(3)[OF bo b]] apart[OF b] by simp
    then show "{b ..< b + s} \<inter> (all_free al \<union> {a ..< a + n}) = {}"
      using blocks_okD(2)[OF bo b] by blast
  qed
  ultimately show ?thesis
    using ok lim unfolding al'_def[symmetric]
    by (simp add: al_ok_def frontier_ok_def tags_ok_def pending_ok_def al'_def)
qed

lemma pack_close_sel [simp]:
  "al_data_start (pack_close_if_freed a n al) = al_data_start al"
  "al_head_hwm (pack_close_if_freed a n al) = al_head_hwm al"
  "al_live_hwm (pack_close_if_freed a n al) = al_live_hwm al"
  "al_tail_low (pack_close_if_freed a n al) = al_tail_low al"
  "al_wal_start (pack_close_if_freed a n al) = al_wal_start al"
  "al_tags (pack_close_if_freed a n al) = al_tags al"
  "freelist_for (pack_close_if_freed a n al) r = freelist_for al r"
  "al_deferred (pack_close_if_freed a n al) = al_deferred al"
  "al_reclaim_floor (pack_close_if_freed a n al) = al_reclaim_floor al"
  "limit len (pack_close_if_freed a n al) = limit len al"
  by (auto simp: pack_close_if_freed_def limit_def split: option.splits)

lemma pack_close_derived [simp]:
  "region_space len (pack_close_if_freed a n al) = region_space len al"
  "all_free (pack_close_if_freed a n al) = all_free al"
  "block_in len (pack_close_if_freed a n al) = block_in len al"
  by (simp_all add: region_space_def all_free_def block_in_def fun_eq_iff)

lemma pack_close_cases:
  "al_open_pack (pack_close_if_freed a n al) = None \<or>
   al_open_pack (pack_close_if_freed a n al) = al_open_pack al"
  by (auto simp: pack_close_if_freed_def split: option.splits)

lemma pack_closed:
  "al_open_pack al = Some (a, u) \<Longrightarrow> 0 < n \<Longrightarrow> al_open_pack (pack_close_if_freed a n al) = None"
  by (simp add: pack_close_if_freed_def)

lemma pack_close_ok: "al_ok L len al \<Longrightarrow> al_ok L len (pack_close_if_freed a n al)"
  using pack_close_cases[of a n al]
  by (auto simp: al_ok_def frontier_ok_def free_ok_def blocks_ok_def tags_ok_def pending_ok_def)

lemma derived_upd [simp]:
  "region_space len (al\<lparr>al_tags := t\<rparr>) = region_space len al"
  "all_free (al\<lparr>al_tags := t\<rparr>) = all_free al"
  "block_in len (al\<lparr>al_tags := t\<rparr>) = block_in len al"
  "limit len (al\<lparr>al_tags := t\<rparr>) = limit len al"
  "region_space len (al\<lparr>al_deferred := d\<rparr>) = region_space len al"
  "all_free (al\<lparr>al_deferred := d\<rparr>) = all_free al"
  "block_in len (al\<lparr>al_deferred := d\<rparr>) = block_in len al"
  "limit len (al\<lparr>al_deferred := d\<rparr>) = limit len al"
  "region_space len (al\<lparr>al_open_pack := q\<rparr>) = region_space len al"
  "all_free (al\<lparr>al_open_pack := q\<rparr>) = all_free al"
  "block_in len (al\<lparr>al_open_pack := q\<rparr>) = block_in len al"
  "limit len (al\<lparr>al_open_pack := q\<rparr>) = limit len al"
  "region_space len (al\<lparr>al_reclaim_floor := f\<rparr>) = region_space len al"
  "all_free (al\<lparr>al_reclaim_floor := f\<rparr>) = all_free al"
  "block_in len (al\<lparr>al_reclaim_floor := f\<rparr>) = block_in len al"
  "limit len (al\<lparr>al_reclaim_floor := f\<rparr>) = limit len al"
  by (simp_all add: region_space_def all_free_def block_in_def limit_def fun_eq_iff)

lemma drop_block_ok:
  assumes ok: "al_ok L len al" and a: "L a = Some n" and nd: "a \<notin> bl_addr ` set (al_deferred al)"
  shows "al_ok (L(a := None)) len (pack_close_if_freed a n (al\<lparr>al_tags := bt_remove a (al_tags al)\<rparr>))"
proof -
  let ?al = "pack_close_if_freed a n (al\<lparr>al_tags := bt_remove a (al_tags al)\<rparr>)"
  from ok have fr: "frontier_ok len al" and fo: "free_ok len al" and bo: "blocks_ok L len al"
    and tg: "tags_ok L al" and pd: "pending_ok L al" by (simp_all add: al_ok_def)
  have "frontier_ok len ?al" "free_ok len ?al"
    using fr fo by (simp_all add: frontier_ok_def free_ok_def)
  moreover have "blocks_ok (L(a := None)) len ?al"
    using bo by (simp add: blocks_ok_def disjoint_blocks_def)
  moreover have "tags_ok (L(a := None)) ?al"
    using tg by (simp add: tags_ok_def bt_sorted_remove map_of_bt_remove)
  moreover have "pending_ok (L(a := None)) ?al"
  proof -
    have "al_open_pack ?al = Some (base, u) \<Longrightarrow> base \<noteq> a \<and> al_open_pack al = Some (base, u)" for base u
      using pack_close_cases[of a n "al\<lparr>al_tags := bt_remove a (al_tags al)\<rparr>"]
        pack_closed[of "al\<lparr>al_tags := bt_remove a (al_tags al)\<rparr>" a u n] blocks_okD(3)[OF bo a] by auto
    with pd nd show ?thesis by (auto simp: pending_ok_def)
  qed
  ultimately show ?thesis by (simp add: al_ok_def)
qed

lemma live_region:
  assumes ok: "al_ok L len al" and a: "L a = Some n" and r: "map_of (al_tags al) a = Some r"
  shows "{a ..< a + n} \<subseteq> region_space len al r"
proof -
  from ok a have "block_in len al a n" and "frontier_ok len al" and "0 < n" "r = EvictionTail \<longleftrightarrow> al_tail_low al \<le> a"
    using r by (auto simp: al_ok_def tags_ok_def dest: blocks_okD)
  then show ?thesis by (auto simp: block_in_def region_space_def frontier_ok_def)
qed

lemma al_free_ok:
  assumes ok: "al_ok L len al" and a: "L (bl_addr loc) = Some (block_size (bl_len loc))"
    and r: "map_of (al_tags al) (bl_addr loc) = Some r" and nd: "bl_addr loc \<notin> bl_addr ` set (al_deferred al)"
  shows "al_ok (L(bl_addr loc := None)) len (fst (al_free loc al))"
    and "all_free (fst (al_free loc al)) = all_free al \<union> {bl_addr loc ..< bl_addr loc + block_size (bl_len loc)}"
    and "{bl_addr loc ..< bl_addr loc + block_size (bl_len loc)} \<subseteq> fl_set (freelist_for (fst (al_free loc al)) r)"
proof -
  let ?a = "bl_addr loc" and ?n = "block_size (bl_len loc)"
  define al1 where "al1 = pack_close_if_freed ?a ?n (al\<lparr>al_tags := bt_remove ?a (al_tags al)\<rparr>)"
  have fe: "fst (al_free loc al) = set_freelist r (fl_insert (freelist_for al1 r) ?a ?n) al1"
    using r by (simp add: al_free_def Let_def al1_def)
  have ok1: "al_ok (L(?a := None)) len al1"
    unfolding al1_def by (rule drop_block_ok[OF ok a nd])
  have bo: "blocks_ok L len al" using ok by (simp add: al_ok_def)
  have fl1: "fl_ok (freelist_for al1 r)" using ok1 free_okD(1)[of len al1 r] by (simp add: al_ok_def)
  note ins = fl_insert_correct[OF fl1 block_size_pos, of ?a "bl_len loc"]
  have free1: "all_free al1 = all_free al" by (simp add: al1_def)
  show "al_ok (L(?a := None)) len (fst (al_free loc al))"
    unfolding fe
  proof (rule give_back_ok[OF ok1])
    show "BASE_BLOCK dvd ?a" using blocks_okD(1)[OF bo a] by (simp add: block_in_def)
    show "{?a ..< ?a + ?n} \<subseteq> region_space len al1 r"
      using live_region[OF ok a r] by (simp add: al1_def)
    show "{?a ..< ?a + ?n} \<inter> all_free al1 = {}" unfolding free1 by (rule blocks_okD(2)[OF bo a])
    show "?a + ?n \<le> b \<or> b + s \<le> ?a" if "(L(?a := None)) b = Some s" for b s
      using that bo a by (auto simp: blocks_ok_def disjoint_blocks_def split: if_splits)
  qed simp_all
  show "all_free (fst (al_free loc al)) = all_free al \<union> {?a ..< ?a + ?n}"
  proof -
    have "fl_set (freelist_for (fst (al_free loc al)) r') =
        fl_set (freelist_for al1 r') \<union> (if r' = r then {?a ..< ?a + ?n} else {})" for r'
      unfolding fe using ins by simp
    then have "all_free (fst (al_free loc al)) = all_free al1 \<union> {?a ..< ?a + ?n}"
      unfolding all_free_def by (auto split: if_splits)
    then show ?thesis by (simp only: free1)
  qed
  show "{?a ..< ?a + ?n} \<subseteq> fl_set (freelist_for (fst (al_free loc al)) r)"
    unfolding fe using ins by auto
qed

lemma al_free_untracked: "map_of (al_tags al) (bl_addr loc) = None \<Longrightarrow> al_free loc al = (al, False)"
  by (simp add: al_free_def Let_def)

lemma al_free_tracked: "map_of (al_tags al) (bl_addr loc) = Some r \<Longrightarrow> snd (al_free loc al)"
  by (simp add: al_free_def Let_def)

lemma al_free_tags: "map_of (al_tags (fst (al_free loc al))) = (map_of (al_tags al))(bl_addr loc := None)"
  by (cases "map_of (al_tags al) (bl_addr loc)") (auto simp: al_free_def Let_def map_of_bt_remove fun_eq_iff)

lemma al_free_sel [simp]:
  "al_deferred (fst (al_free loc al)) = al_deferred al"
  "al_live_hwm (fst (al_free loc al)) = al_live_hwm al"
  "al_tail_low (fst (al_free loc al)) = al_tail_low al"
  "al_reclaim_floor (fst (al_free loc al)) = al_reclaim_floor al"
  by (auto simp: al_free_def Let_def split: option.splits)

section \<open>Deferred frees\<close>

text \<open>The blocks in use once the deferred ones are released; a block without a tag stays.\<close>

definition released :: "allocator \<Rightarrow> block_loc list \<Rightarrow> live \<Rightarrow> live" where
  "released al ds L = (\<lambda>a. if a \<in> bl_addr ` set ds \<and> map_of (al_tags al) a \<noteq> None then None else L a)"

lemma free_all_ok:
  assumes "al_ok L len al" and "al_deferred al = []" and "distinct (map bl_addr ds)"
    and "\<forall>loc \<in> set ds. L (bl_addr loc) = Some (block_size (bl_len loc))"
  shows "al_ok (released al ds L) len (foldl (\<lambda>a loc. fst (al_free loc a)) al ds)"
  using assms
proof (induction ds arbitrary: L al)
  case Nil
  then show ?case by (simp add: released_def)
next
  case (Cons d ds)
  let ?al = "fst (al_free d al)" and ?L = "released al [d] L"
  have L1: "?L = (if map_of (al_tags al) (bl_addr d) = None then L else L(bl_addr d := None))"
    by (auto simp: released_def fun_eq_iff)
  have ok: "al_ok ?L len ?al"
    using Cons.prems al_free_ok(1)[of L len al d] al_free_untracked[of al d] unfolding L1
    by (cases "map_of (al_tags al) (bl_addr d)") auto
  have eq: "released ?al ds ?L = released al (d # ds) L"
    using Cons.prems(3) by (auto simp: released_def fun_eq_iff al_free_tags)
  have "\<forall>loc \<in> set ds. ?L (bl_addr loc) = Some (block_size (bl_len loc))"
    using Cons.prems(3,4) by (simp add: L1) (metis image_eqI)
  with Cons.IH[OF ok] Cons.prems(2,3) show ?case by (simp add: eq)
qed

lemma publish_ok:
  assumes ok: "al_ok L len al"
  shows "al_ok (released al (al_deferred al) L) len (publish_deferred al)"
proof -
  have "al_ok L len (al\<lparr>al_deferred := []\<rparr>)"
    using ok by (simp add: al_ok_defs)
  moreover have "distinct (map bl_addr (al_deferred al))"
    "\<forall>loc \<in> set (al_deferred al). L (bl_addr loc) = Some (block_size (bl_len loc))"
    using ok by (auto simp: al_ok_def pending_ok_def)
  ultimately show ?thesis
    using free_all_ok[of L len "al\<lparr>al_deferred := []\<rparr>" "al_deferred al"]
    by (simp add: publish_deferred_def Let_def released_def)
qed

lemma retire_ok:
  assumes "al_ok L len al" and "L (bl_addr loc) = Some (block_size (bl_len loc))"
    and "bl_addr loc < al_live_hwm al" and "bl_addr loc \<notin> bl_addr ` set (al_deferred al)"
  shows "al_ok L len (retire_block loc al)"
  using assms unfolding al_ok_defs retire_block_def by simp

lemma abort_ok: "al_ok L len al \<Longrightarrow> al_ok L len (abort_deferred al)"
  unfolding al_ok_defs abort_deferred_def by simp

lemma floor_ok: "al_ok L len (al\<lparr>al_reclaim_floor := f\<rparr>) = al_ok L len al"
  unfolding al_ok_defs by simp

section \<open>Packing\<close>

lemma forward_block:
  assumes "al_ok L len al" and "L a = Some n" and "map_of (al_tags al) a = Some LiveMid"
  shows "a + n \<le> al_live_hwm al" and "a < al_live_hwm al"
  using assms blocks_okD[of L len al a n] by (auto simp: al_ok_def tags_ok_def block_in_def)

lemma block_size_base: "block_size (of_nat BASE_BLOCK) = BASE_BLOCK"
  by (simp add: block_size_def BASE_BLOCK_def round_up_to_block_def)

lemma alloc_packed_cases:
  assumes "alloc_packed al b need = Inr (al', b', addr)"
  obtains (reuse) base used where "al_open_pack al = Some (base, used)" "used + need \<le> BASE_BLOCK"
      "al' = al\<lparr>al_open_pack := Some (base, used + need)\<rparr>" "b' = b" "addr = base + used"
  | (fresh) al1 loc where "\<And>base used. al_open_pack al = Some (base, used) \<Longrightarrow> \<not> used + need \<le> BASE_BLOCK"
      "alloc_aligned al b (of_nat BASE_BLOCK) LiveMid = Inr (al1, b', loc)"
      "al' = al1\<lparr>al_open_pack := Some (bl_addr loc, need)\<rparr>" "addr = bl_addr loc"
proof (cases "\<exists>base used. al_open_pack al = Some (base, used) \<and> used + need \<le> BASE_BLOCK")
  case True
  then show thesis using assms reuse by (auto simp: alloc_packed_def)
next
  case False
  then have "(case al_open_pack al of
      Some (base, used) \<Rightarrow> (if used + need \<le> BASE_BLOCK then Inr (al, b, base, used)
         else bind_r (alloc_aligned al b (of_nat BASE_BLOCK) LiveMid) (\<lambda>(al1, b1, blk). Inr (al1, b1, bl_addr blk, 0)))
    | None \<Rightarrow> bind_r (alloc_aligned al b (of_nat BASE_BLOCK) LiveMid) (\<lambda>(al1, b1, blk). Inr (al1, b1, bl_addr blk, 0)))
    = bind_r (alloc_aligned al b (of_nat BASE_BLOCK) LiveMid) (\<lambda>(al1, b1, blk). Inr (al1, b1, bl_addr blk, 0))"
    by (auto split: option.splits)
  with assms False show thesis by (auto simp: alloc_packed_def intro: fresh)
qed

text \<open>The blocks in use after a packed allocation.\<close>

definition packed_live :: "allocator \<Rightarrow> backend \<Rightarrow> backend \<Rightarrow> nat \<Rightarrow> nat \<Rightarrow> live \<Rightarrow> live" where
  "packed_live al b b' need addr L =
     (case al_open_pack al of
        Some (base, used) \<Rightarrow>
          (if used + need \<le> BASE_BLOCK then L else (moved_live al b b' L)(addr \<mapsto> BASE_BLOCK))
      | None \<Rightarrow> (moved_live al b b' L)(addr \<mapsto> BASE_BLOCK))"

lemma open_pack_upd_ok:
  assumes "al_ok L len al" and "L base = Some BASE_BLOCK" and "base < al_live_hwm al" and "u \<le> BASE_BLOCK"
  shows "al_ok L len (al\<lparr>al_open_pack := Some (base, u)\<rparr>)"
  using assms unfolding al_ok_defs by simp

lemma alloc_packed_ok:
  assumes ok: "al_ok L (bk_len b) al" and b: "bk_ok b" and need: "need \<le> BASE_BLOCK"
    and p: "alloc_packed al b need = Inr (al', b', addr)"
  shows "al_ok (packed_live al b b' need addr L) (bk_len b') al' \<and> bk_ok b' \<and> kept_bytes al b b'"
  using p
proof (cases rule: alloc_packed_cases)
  case (reuse base used)
  then have "L base = Some BASE_BLOCK" "base < al_live_hwm al"
    using ok by (auto simp: al_ok_def pending_ok_def)
  from open_pack_upd_ok[OF ok this reuse(2)] reuse b show ?thesis
    by (simp add: packed_live_def kept_bytes_def moved_def)
next
  case (fresh al1 loc)
  have L': "packed_live al b b' need addr L = (moved_live al b b' L)(bl_addr loc \<mapsto> BASE_BLOCK)"
    using fresh by (auto simp: packed_live_def split: option.splits)
  note A = alloc_aligned_ok[OF ok b fresh(2), unfolded block_size_base]
  from A have ok1: "al_ok ((moved_live al b b' L)(bl_addr loc \<mapsto> BASE_BLOCK)) (bk_len b') al1" by simp
  have "bl_addr loc < al_live_hwm al1" using forward_block(2)[OF ok1, of "bl_addr loc" BASE_BLOCK] A by simp
  then show ?thesis unfolding L' fresh(3) using A need by (auto intro!: open_pack_upd_ok)
qed

section \<open>Rebuilding\<close>

lemma new_ok:
  "bk_ok b \<Longrightarrow> 2 * BASE_BLOCK \<le> bk_len b \<Longrightarrow> BASE_BLOCK dvd bk_len b \<Longrightarrow> al_ok Map.empty (bk_len b) (al_new b)"
proof -
  assume "bk_ok b" "2 * BASE_BLOCK \<le> bk_len b" "BASE_BLOCK dvd bk_len b"
  moreover have "freelist_for (al_new b) r = []" for r by (cases r) (simp_all add: al_new_def)
  ultimately show ?thesis
    by (simp add: al_ok_defs limit_def disjoint_blocks_def fl_aligned_def) (simp add: al_new_def)
qed

lemma free_ok_same:
  assumes "free_ok len al" and "\<And>r. freelist_for al' r = freelist_for al r"
    and "\<And>r. region_space len al r \<inter> fl_set (freelist_for al r) \<subseteq> region_space len al' r"
  shows "free_ok len al'"
proof -
  have "fl_set (freelist_for al r) \<subseteq> region_space len al' r" for r
    using assms(3)[of r] free_okD(3)[OF assms(1), of r] by blast
  with free_okD[OF assms(1)] show ?thesis by (simp add: free_ok_def assms(2))
qed

lemma set_wal_ok:
  assumes ok: "al_ok L len al" and w: "al_live_hwm al \<le> w" "w \<le> len" "BASE_BLOCK dvd w"
    and fits: "\<And>a s. L a = Some s \<Longrightarrow> a + s \<le> w" "fl_set (al_free_tail al) \<subseteq> {..< w}"
  shows "al_ok L len (set_wal_reservation w al)"
proof -
  from ok have fr: "frontier_ok len al" and fo: "free_ok len al" and bo: "blocks_ok L len al"
    and tg: "tags_ok L al" and pd: "pending_ok L al" by (simp_all add: al_ok_def)
  let ?al = "set_wal_reservation w al"
  have sel: "al_data_start ?al = al_data_start al" "al_head_hwm ?al = al_head_hwm al"
    "al_live_hwm ?al = al_live_hwm al" "al_tail_low ?al = min (al_tail_low al) w" "al_wal_start ?al = Some w"
    "al_tags ?al = al_tags al" "freelist_for ?al r = freelist_for al r" "al_open_pack ?al = al_open_pack al"
    "al_deferred ?al = al_deferred al" "limit len ?al = w" for r
    by (simp_all add: set_wal_reservation_def Let_def limit_def min_def)
  have "frontier_ok len ?al" using fr w by (simp add: frontier_ok_def sel min_def)
  moreover have "free_ok len ?al"
  proof (rule free_ok_same[OF fo])
    fix r show "region_space len al r \<inter> fl_set (freelist_for al r) \<subseteq> region_space len ?al r"
      using fits(2) by (cases r) (auto simp: region_space_def sel)
  qed (simp add: sel)
  moreover have "blocks_ok L len ?al"
    unfolding blocks_ok_def
  proof (intro conjI allI impI)
    show "disjoint_blocks L" using bo by (simp add: blocks_ok_def)
    fix a s assume a: "L a = Some s"
    from blocks_okD(1)[OF bo a] fits(1)[OF a] show "block_in len ?al a s" by (auto simp: block_in_def sel)
    from blocks_okD(2)[OF bo a] show "{a ..< a + s} \<inter> all_free ?al = {}" by (simp add: all_free_def sel)
  qed
  moreover have "tags_ok L ?al"
  proof -
    have "al_tail_low al \<le> a \<longleftrightarrow> min (al_tail_low al) w \<le> a" if "L a = Some s" for a s
      using fits(1)[OF that] blocks_okD(3)[OF bo that] by linarith
    with tg show ?thesis unfolding tags_ok_def sel by blast
  qed
  moreover have "pending_ok L ?al" using pd by (simp add: pending_ok_def sel)
  ultimately show ?thesis by (simp add: al_ok_def)
qed

lemma register_live_ok:
  assumes "al_ok L len al" and "L a = Some s" and "a < al_live_hwm al" and "r \<noteq> EvictionTail"
  shows "al_ok L len (register_live_block a r al)"
proof -
  have "al_live_hwm al \<le> al_tail_low al" using assms(1) by (simp add: al_ok_def frontier_ok_def)
  then have "tags_ok L (register_live_block a r al)"
    using assms by (auto simp: al_ok_def tags_ok_def register_live_block_def bt_sorted_insert map_of_bt_insert)
  with assms(1) show ?thesis
    by (simp add: al_ok_def frontier_ok_def free_ok_def blocks_ok_def pending_ok_def register_live_block_def)
qed

text \<open>A tail block found on disk between the frontier and the tail is adopted.\<close>

lemma register_tail_ok:
  assumes ok: "al_ok L len al" and a: "al_live_hwm al \<le> a" "a + block_size l \<le> al_tail_low al" "BASE_BLOCK dvd a"
  shows "al_ok (L(a \<mapsto> block_size l)) len (register_eviction_tail_block a l al)"
proof -
  from ok have fr: "frontier_ok len al" and fo: "free_ok len al" and bo: "blocks_ok L len al"
    and tg: "tags_ok L al" and pd: "pending_ok L al" by (simp_all add: al_ok_def)
  let ?al = "register_eviction_tail_block a l al" and ?n = "block_size l"
  have lt: "a < al_tail_low al" using a(2) block_size_pos[of l] by linarith
  then have sel: "?al = al\<lparr>al_tags := bt_insert a EvictionTail (al_tags al), al_tail_low := a\<rparr>"
    by (simp add: register_eviction_tail_block_def Let_def)
  have apart: "a + ?n \<le> c \<or> c + s \<le> a" if "L c = Some s" for c s
    using space_le[OF fr bo that] a by (meson le_trans)
  have fresh: "L a = None" using apart[of a] blocks_okD(3)[OF bo, of a] block_size_pos[of l] by (cases "L a") fastforce+
  have lim: "limit len ?al = limit len al" and fl: "all_free ?al = all_free al"
    by (simp_all add: sel limit_def all_free_def)
  have "frontier_ok len ?al" using fr a lt lim by (simp add: frontier_ok_def sel)
  moreover have "free_ok len ?al"
    using lt lim by (intro free_ok_same[OF fo]) (auto simp: sel region_space_def limit_def)
  moreover have "blocks_ok (L(a \<mapsto> ?n)) len ?al"
  proof (rule blocks_ok_extend[OF bo apart])
    show "block_in len ?al a ?n" using a fr lim by (auto simp: block_in_def sel frontier_ok_def)
    show "{a ..< a + ?n} \<inter> all_free ?al = {}" using free_space[OF fr fo] a unfolding fl by fastforce
    show "block_in len ?al c s" if "block_in len al c s" for c s
      using that lt lim by (auto simp: block_in_def sel)
  qed (simp_all add: fl)
  moreover have "tags_ok (L(a \<mapsto> ?n)) ?al"
  proof (rule tags_ok_add[OF tg])
    fix c r' assume "map_of (al_tags al) c = Some r'"
    then obtain s where "L c = Some s" using tg by (auto simp: tags_ok_def)
    from space_le[OF fr bo this] blocks_okD(3)[OF bo this] show "al_tail_low ?al \<le> c \<longleftrightarrow> al_tail_low al \<le> c"
      using a lt by (auto simp: sel)
  qed (simp_all add: sel)
  moreover have "pending_ok (L(a \<mapsto> ?n)) ?al" by (rule pending_ok_add[OF pd fresh]) (simp_all add: sel)
  ultimately show ?thesis by (simp add: al_ok_def)
qed

text \<open>Blocks found between the old and the new frontier are adopted with it.\<close>

lemma set_frontier_ok:
  assumes ok: "al_ok L len al" and e: "round_up_to_block e \<le> al_tail_low al"
    and K: "disjoint_blocks K"
      "\<And>a s. K a = Some s \<Longrightarrow> 0 < s \<and> BASE_BLOCK dvd a \<and> BASE_BLOCK dvd s \<and> al_live_hwm al \<le> a \<and> a + s \<le> round_up_to_block e"
  shows "al_ok (L ++ K) len (set_forward_frontier e al)"
proof -
  from ok have fr: "frontier_ok len al" and fo: "free_ok len al" and bo: "blocks_ok L len al"
    and tg: "tags_ok L al" and pd: "pending_ok L al" by (simp_all add: al_ok_def)
  let ?al = "set_forward_frontier e al" and ?h = "max (round_up_to_block e) (al_live_hwm al)"
  have sel: "al_data_start ?al = al_data_start al" "al_head_hwm ?al = ?h" "al_live_hwm ?al = ?h"
    "al_tail_low ?al = al_tail_low al" "limit len ?al = limit len al" "al_tags ?al = al_tags al"
    "freelist_for ?al r = freelist_for al r" "al_open_pack ?al = al_open_pack al"
    "al_deferred ?al = al_deferred al" "all_free ?al = all_free al" for r
    using fr by (auto simp: set_forward_frontier_def Let_def limit_def frontier_ok_def all_free_def max_def)
  have KL: "K a = None" if "L a = Some s" for a s
  proof (cases "K a")
    case (Some t)
    from K(2)[OF this] e space_le[OF fr bo that] blocks_okD(3)[OF bo that] show ?thesis by linarith
  qed simp
  have both: "(L ++ K) a = Some s \<longleftrightarrow> L a = Some s \<or> K a = Some s" for a s
    using KL by (auto simp: map_add_def split: option.splits)
  have LK: "a + s \<le> c \<or> c + t \<le> a" if "L a = Some s" "K c = Some t" for a s c t
    using K(2)[OF that(2)] e space_le[OF fr bo that(1)] by linarith
  have "frontier_ok len ?al" using fr e round_up_dvd[of e] by (auto simp: frontier_ok_def sel max_def)
  moreover have "free_ok len ?al"
    by (intro free_ok_same[OF fo]) (auto simp: sel region_space_def)
  moreover have "blocks_ok (L ++ K) len ?al"
    unfolding blocks_ok_def
  proof (intro conjI allI impI)
    show "disjoint_blocks (L ++ K)"
      using bo K(1) LK unfolding blocks_ok_def disjoint_blocks_def both by blast
    fix a s assume "(L ++ K) a = Some s"
    then consider "L a = Some s" | "K a = Some s" by (auto simp: both)
    then show "block_in len ?al a s" "{a ..< a + s} \<inter> all_free ?al = {}"
    proof (atomize (full), cases)
      case 1
      from blocks_okD[OF bo 1] show "block_in len ?al a s \<and> {a ..< a + s} \<inter> all_free ?al = {}"
        by (auto simp: block_in_def sel)
    next
      case 2
      have "{a ..< a + s} \<subseteq> {al_live_hwm al ..< al_tail_low al}" using K(2)[OF 2] e by auto
      with free_space[OF fr fo] have "{a ..< a + s} \<inter> all_free al = {}" by blast
      with K(2)[OF 2] fr show "block_in len ?al a s \<and> {a ..< a + s} \<inter> all_free ?al = {}"
        by (auto simp: block_in_def sel frontier_ok_def)
    qed
  qed
  moreover have "tags_ok (L ++ K) ?al" using tg by (auto simp: tags_ok_def sel map_add_def split: option.splits)
  moreover have "pending_ok (L ++ K) ?al"
    using pd unfolding pending_ok_def sel both by (auto simp: less_max_iff_disj)
  ultimately show ?thesis by (simp add: al_ok_def)
qed

section \<open>The allocator as a state machine\<close>

text \<open>
  The state is the ghost map, the allocator and the container. A step is a call of the engine
  under the preconditions the documentation of the operation states; \<open>client_write\<close> is the
  engine writing inside a block it holds.
\<close>

inductive alloc_step :: "live \<times> allocator \<times> backend \<Rightarrow> live \<times> allocator \<times> backend \<Rightarrow> bool" where
  st_alloc: "alloc_aligned al b len r = Inr (al', b', loc) \<Longrightarrow>
    alloc_step (L, al, b) ((moved_live al b b' L)(bl_addr loc \<mapsto> block_size len), al', b')"
| st_pack: "0 < need \<Longrightarrow> need < BASE_BLOCK \<Longrightarrow> alloc_packed al b need = Inr (al', b', addr) \<Longrightarrow>
    alloc_step (L, al, b) (packed_live al b b' need addr L, al', b')"
| st_free: "L (bl_addr loc) = Some (block_size (bl_len loc)) \<Longrightarrow>
    bl_addr loc \<notin> bl_addr ` set (al_deferred al) \<Longrightarrow> al_free loc al = (al', freed) \<Longrightarrow>
    alloc_step (L, al, b) (if freed then L(bl_addr loc := None) else L, al', b)"
| st_reclaim: "L (bl_addr loc) = Some (block_size (bl_len loc)) \<Longrightarrow>
    bl_addr loc \<notin> bl_addr ` set (al_deferred al) \<Longrightarrow> free_reclaimable loc al = (al', freed) \<Longrightarrow>
    alloc_step (L, al, b) (if freed then L(bl_addr loc := None) else L, al', b)"
| st_begin: "alloc_step (L, al, b) (L, begin_reclaim_scope al, b)"
| st_end: "alloc_step (L, al, b) (L, end_reclaim_scope al, b)"
| st_retire: "L (bl_addr loc) = Some (block_size (bl_len loc)) \<Longrightarrow> bl_addr loc < al_live_hwm al \<Longrightarrow>
    bl_addr loc \<notin> bl_addr ` set (al_deferred al) \<Longrightarrow> alloc_step (L, al, b) (L, retire_block loc al, b)"
| st_publish: "alloc_step (L, al, b) (released al (al_deferred al) L, publish_deferred al, b)"
| st_abort: "alloc_step (L, al, b) (L, abort_deferred al, b)"
| st_write: "L a = Some s \<Longrightarrow> a \<le> off \<Longrightarrow> off + length buf \<le> a + s \<Longrightarrow> bk_write_at b off buf = Inr b' \<Longrightarrow>
    alloc_step (L, al, b) (L, al, b')"
| st_header: "off + length buf \<le> 2 * BASE_BLOCK \<Longrightarrow> bk_write_at b off buf = Inr b' \<Longrightarrow> alloc_step (L, al, b) (L, al, b')"
| st_wal: "al_live_hwm al \<le> w \<Longrightarrow> w \<le> bk_len b \<Longrightarrow> BASE_BLOCK dvd w \<Longrightarrow>
    (\<And>a s. L a = Some s \<Longrightarrow> a + s \<le> w) \<Longrightarrow> fl_set (al_free_tail al) \<subseteq> {..< w} \<Longrightarrow>
    alloc_step (L, al, b) (L, set_wal_reservation w al, b)"
| st_register_live: "L a = Some s \<Longrightarrow> a < al_live_hwm al \<Longrightarrow> r \<noteq> EvictionTail \<Longrightarrow>
    alloc_step (L, al, b) (L, register_live_block a r al, b)"
| st_register_tail: "al_live_hwm al \<le> a \<Longrightarrow> a + block_size l \<le> al_tail_low al \<Longrightarrow> BASE_BLOCK dvd a \<Longrightarrow>
    alloc_step (L, al, b) (L(a \<mapsto> block_size l), register_eviction_tail_block a l al, b)"
| st_gap: "0 < n \<Longrightarrow> BASE_BLOCK dvd a \<Longrightarrow> BASE_BLOCK dvd n \<Longrightarrow>
    {a ..< a + n} \<subseteq> region_space (bk_len b) al r \<Longrightarrow> {a ..< a + n} \<inter> all_free al = {} \<Longrightarrow>
    (\<And>c s. L c = Some s \<Longrightarrow> a + n \<le> c \<or> c + s \<le> a) \<Longrightarrow>
    alloc_step (L, al, b) (L, insert_free_extent a n r al, b)"
| st_frontier: "round_up_to_block e \<le> al_tail_low al \<Longrightarrow> disjoint_blocks K \<Longrightarrow>
    (\<And>a s. K a = Some s \<Longrightarrow> 0 < s \<and> BASE_BLOCK dvd a \<and> BASE_BLOCK dvd s
       \<and> al_live_hwm al \<le> a \<and> a + s \<le> round_up_to_block e) \<Longrightarrow>
    alloc_step (L, al, b) (L ++ K, set_forward_frontier e al, b)"

inductive reachable_alloc :: "live \<times> allocator \<times> backend \<Rightarrow> bool" where
  start: "bk_ok b \<Longrightarrow> 2 * BASE_BLOCK \<le> bk_len b \<Longrightarrow> BASE_BLOCK dvd bk_len b \<Longrightarrow>
    reachable_alloc (Map.empty, al_new b, b)"
| step: "reachable_alloc s \<Longrightarrow> alloc_step s s' \<Longrightarrow> reachable_alloc s'"

fun state_ok :: "live \<times> allocator \<times> backend \<Rightarrow> bool" where
  "state_ok (L, al, b) = (al_ok L (bk_len b) al \<and> bk_ok b)"

lemma free_step_ok:
  assumes "al_ok L len al" and "L (bl_addr loc) = Some (block_size (bl_len loc))"
    and "bl_addr loc \<notin> bl_addr ` set (al_deferred al)" and "al_free loc al = (al', freed)"
  shows "al_ok (if freed then L(bl_addr loc := None) else L) len al'"
  using assms al_free_ok(1)[of L len al loc] al_free_untracked[of al loc] al_free_tracked[of al loc]
  by (cases "map_of (al_tags al) (bl_addr loc)") auto

lemma alloc_step_ok: "alloc_step s s' \<Longrightarrow> state_ok s \<Longrightarrow> state_ok s'"
proof (induction rule: alloc_step.induct)
  case (st_alloc al b len r al' b' loc L)
  then show ?case using alloc_aligned_ok[of L b al len r al' b' loc] by simp
next
  case (st_pack need al b al' b' addr L)
  then show ?case using alloc_packed_ok[of L b al need al' b' addr] by simp
next
  case (st_free L loc al al' freed b)
  then show ?case using free_step_ok[of L "bk_len b" al loc al' freed] by simp
next
  case (st_reclaim L loc al al' freed b)
  then show ?case using free_step_ok[of L "bk_len b" al loc al' freed]
    by (auto simp: free_reclaimable_def split: option.splits if_splits)
next
  case (st_wal al w b L)
  then show ?case using set_wal_ok[of L "bk_len b" al w] by simp
next
  case (st_gap n a b al r L)
  then show ?case
    using give_back_ok[OF pack_close_ok, of L "bk_len b" al n a a n r] by (simp add: insert_free_extent_def Let_def)
next
  case (st_frontier e al K L b)
  then show ?case using set_frontier_ok[of L "bk_len b" al e K] by simp
next
  case (st_register_live L a s al r b)
  then show ?case using register_live_ok[of L "bk_len b" al a s r] by simp
next
  case (st_register_tail al a l L b)
  then show ?case using register_tail_ok[of L "bk_len b" al a l] by simp
next
  case (st_write L a s off buf b b' al)
  then show ?case using bk_write_at_InrD(2)[of b off buf b'] bk_write_at_pres[of b off buf b'] by simp
next
  case (st_header off buf b b' L al)
  then show ?case using bk_write_at_InrD(2)[of b off buf b'] bk_write_at_pres[of b off buf b'] by simp
qed (simp_all add: begin_reclaim_scope_def end_reclaim_scope_def Let_def floor_ok retire_ok publish_ok abort_ok)

lemma reachable_ok: "reachable_alloc s \<Longrightarrow> state_ok s"
proof (induction rule: reachable_alloc.induct)
  case (start b)
  then show ?case by (simp add: new_ok)
next
  case (step s s')
  then show ?case using alloc_step_ok by blast
qed

section \<open>Sequences of packed allocations\<close>

fun pack_many :: "allocator \<Rightarrow> backend \<Rightarrow> nat list \<Rightarrow> (allocator \<times> backend \<times> (nat \<times> nat) list) result" where
  "pack_many al b [] = Inr (al, b, [])"
| "pack_many al b (n # ns) =
     bind_r (alloc_packed al b n) (\<lambda>(al1, b1, a).
     bind_r (pack_many al1 b1 ns) (\<lambda>(al2, b2, rs). Inr (al2, b2, (a, n) # rs)))"

text \<open>A range \<open>(x, n)\<close> is held: it lies in a forward block, below the cursor if that block is open.\<close>

definition held :: "live \<Rightarrow> allocator \<Rightarrow> nat \<times> nat \<Rightarrow> bool" where
  "held L al e \<longleftrightarrow>
     (\<exists>c. L c = Some BASE_BLOCK \<and> c < al_live_hwm al \<and> c \<le> fst e \<and> fst e + snd e \<le> c + BASE_BLOCK
        \<and> (\<forall>u. al_open_pack al = Some (c, u) \<longrightarrow> fst e + snd e \<le> c + u))"

lemma moved_live_forward:
  "al_ok L len al \<Longrightarrow> c < al_live_hwm al \<Longrightarrow> moved_live al b b' L c = L c"
  by (auto simp: moved_live_def shift_live_def al_ok_def frontier_ok_def)

lemma pack_step:
  assumes ok: "al_ok L (bk_len b) al" and b: "bk_ok b" and n: "n \<le> BASE_BLOCK"
    and p: "alloc_packed al b n = Inr (al', b', a)"
  defines "L' \<equiv> packed_live al b b' n a L"
  shows "held L' al' (a, n)"
    and "\<And>e. held L al e \<Longrightarrow> held L' al' e \<and> (fst e + snd e \<le> a \<or> a + n \<le> fst e)"
proof -
  have "held L' al' (a, n) \<and> (\<forall>e. held L al e \<longrightarrow> held L' al' e \<and> (fst e + snd e \<le> a \<or> a + n \<le> fst e))"
    using p
  proof (cases rule: alloc_packed_cases)
    case (reuse base used)
    have base: "L base = Some BASE_BLOCK" "base < al_live_hwm al"
      using ok reuse(1) by (auto simp: al_ok_def pending_ok_def)
    have L': "L' = L" using reuse by (simp add: L'_def packed_live_def)
    have "held L al' e \<and> (fst e + snd e \<le> a \<or> a + n \<le> fst e)" if "held L al e" for e
    proof -
      from that obtain c where c: "L c = Some BASE_BLOCK" "c < al_live_hwm al" "c \<le> fst e"
          "fst e + snd e \<le> c + BASE_BLOCK" "\<forall>u. al_open_pack al = Some (c, u) \<longrightarrow> fst e + snd e \<le> c + u"
        unfolding held_def by blast
      have "c = base \<or> c + BASE_BLOCK \<le> base \<or> base + BASE_BLOCK \<le> c"
        using ok c(1) base(1) by (auto simp: al_ok_def blocks_ok_def disjoint_blocks_def)
      then show ?thesis
        using c reuse unfolding held_def by (auto intro!: exI[of _ c])
    qed
    moreover have "held L al' (a, n)"
      using reuse base unfolding held_def by (auto intro!: exI[of _ base])
    ultimately show ?thesis by (simp add: L')
  next
    case (fresh al1 loc)
    note A = alloc_aligned_ok[OF ok b fresh(2), unfolded block_size_base]
    have L': "L' = (moved_live al b b' L)(a \<mapsto> BASE_BLOCK)"
      using fresh by (auto simp: L'_def packed_live_def split: option.splits)
    have ok1: "al_ok L' (bk_len b') al1" using A fresh(4) L' by simp
    have hw: "a < al_live_hwm al1" using forward_block(2)[OF ok1, of a BASE_BLOCK] A fresh(4) by (simp add: L')
    have "held L' al' e \<and> (fst e + snd e \<le> a \<or> a + n \<le> fst e)" if "held L al e" for e
    proof -
      from that obtain c where c: "L c = Some BASE_BLOCK" "c < al_live_hwm al" "c \<le> fst e"
          "fst e + snd e \<le> c + BASE_BLOCK"
        unfolding held_def by blast
      have m: "moved_live al b b' L c = Some BASE_BLOCK" using moved_live_forward[OF ok c(2)] c(1) by simp
      with A fresh(4) have "a + BASE_BLOCK \<le> c \<or> c + BASE_BLOCK \<le> a" and "c \<noteq> a" by auto
      moreover have "c < al_live_hwm al1" using c(2) A by linarith
      ultimately show ?thesis using c m n fresh(3,4) unfolding held_def L' by (auto intro!: exI[of _ c])
    qed
    moreover have "held L' al' (a, n)"
      using fresh hw n unfolding held_def L' by (auto intro!: exI[of _ a])
    ultimately show ?thesis by simp
  qed
  then show "held L' al' (a, n)"
    and "\<And>e. held L al e \<Longrightarrow> held L' al' e \<and> (fst e + snd e \<le> a \<or> a + n \<le> fst e)" by blast+
qed

lemma pack_many_held:
  assumes "al_ok L (bk_len b) al" and "bk_ok b" and "\<forall>n \<in> set ns. n \<le> BASE_BLOCK"
    and "pack_many al b ns = Inr (al', b', rs)"
  shows "sorted_wrt (\<lambda>e f. fst e + snd e \<le> fst f \<or> fst f + snd f \<le> fst e) rs
    \<and> map snd rs = ns \<and> (\<exists>L'. al_ok L' (bk_len b') al' \<and> (\<forall>e \<in> set rs. held L' al' e)
      \<and> (\<forall>e. held L al e \<longrightarrow> held L' al' e \<and> (\<forall>f \<in> set rs. fst e + snd e \<le> fst f \<or> fst f + snd f \<le> fst e)))"
  using assms
proof (induction ns arbitrary: L al b rs)
  case Nil
  then show ?case by auto
next
  case (Cons n ns)
  from Cons.prems(4) obtain al1 b1 a rs1 where
    p: "alloc_packed al b n = Inr (al1, b1, a)" and
    m: "pack_many al1 b1 ns = Inr (al', b', rs1)" and rs: "rs = (a, n) # rs1" by auto
  have n: "n \<le> BASE_BLOCK" using Cons.prems(3) by simp
  let ?L = "packed_live al b b1 n a L"
  have ok1: "al_ok ?L (bk_len b1) al1" "bk_ok b1" using alloc_packed_ok[OF Cons.prems(1,2) n p] by auto
  note S = pack_step[OF Cons.prems(1,2) n p]
  from Cons.IH[OF ok1 _ m] Cons.prems(3) obtain L' where IH:
      "sorted_wrt (\<lambda>e f. fst e + snd e \<le> fst f \<or> fst f + snd f \<le> fst e) rs1" "map snd rs1 = ns"
      "al_ok L' (bk_len b') al'" "\<forall>e \<in> set rs1. held L' al' e"
      "\<forall>e. held ?L al1 e \<longrightarrow> held L' al' e \<and> (\<forall>f \<in> set rs1. fst e + snd e \<le> fst f \<or> fst f + snd f \<le> fst e)"
    by auto
  have "\<forall>e. held L al e \<longrightarrow> held L' al' e
      \<and> (\<forall>f \<in> set rs. fst e + snd e \<le> fst f \<or> fst f + snd f \<le> fst e)"
    using S(2) IH(5) by (auto simp: rs)
  with IH S(1) rs show ?case by auto
qed

section \<open>Reclaim scopes and deferred frees\<close>

lemma free_all_free:
  assumes "al_ok L len al" and "al_deferred al = []" and "distinct (map bl_addr ds)"
    and "\<forall>loc \<in> set ds. L (bl_addr loc) = Some (block_size (bl_len loc))"
  shows "all_free al \<subseteq> all_free (foldl (\<lambda>a loc. fst (al_free loc a)) al ds)
    \<and> (\<forall>loc \<in> set ds. map_of (al_tags al) (bl_addr loc) \<noteq> None \<longrightarrow>
         {bl_addr loc ..< bl_addr loc + block_size (bl_len loc)}
           \<subseteq> all_free (foldl (\<lambda>a loc. fst (al_free loc a)) al ds))"
  using assms
proof (induction ds arbitrary: L al)
  case Nil
  then show ?case by simp
next
  case (Cons d ds)
  let ?al = "fst (al_free d al)" and ?L = "released al [d] L"
  have L1: "?L = (if map_of (al_tags al) (bl_addr d) = None then L else L(bl_addr d := None))"
    by (auto simp: released_def fun_eq_iff)
  have ok: "al_ok ?L len ?al" using free_all_ok[of L len al "[d]"] Cons.prems by simp
  have sub: "all_free al \<subseteq> all_free ?al" "map_of (al_tags al) (bl_addr d) \<noteq> None \<Longrightarrow>
      {bl_addr d ..< bl_addr d + block_size (bl_len d)} \<subseteq> all_free ?al"
    using Cons.prems al_free_ok(2)[of L len al d] al_free_untracked[of al d]
    by (cases "map_of (al_tags al) (bl_addr d)"; auto)+
  have "\<forall>loc \<in> set ds. ?L (bl_addr loc) = Some (block_size (bl_len loc))"
    using Cons.prems(3,4) by (simp add: L1) (metis image_eqI)
  note IH = Cons.IH[OF ok _ _ this]
  have tg: "map_of (al_tags ?al) (bl_addr loc) = map_of (al_tags al) (bl_addr loc)" if "loc \<in> set ds" for loc
    using that Cons.prems(3) by (simp add: al_free_tags) (metis image_eqI)
  from IH Cons.prems(2,3) sub tg show ?case by simp blast
qed

lemma publish_sel: "al_deferred (publish_deferred al) = []"
proof -
  have "al_deferred (foldl (\<lambda>a loc. fst (al_free loc a)) x ds) = al_deferred x" for x ds
    by (induction ds arbitrary: x) simp_all
  then show ?thesis by (simp add: publish_deferred_def Let_def)
qed

lemma free_all_sel:
  "al_live_hwm (foldl (\<lambda>a loc. fst (al_free loc a)) x ds) = al_live_hwm x"
  "al_reclaim_floor (foldl (\<lambda>a loc. fst (al_free loc a)) x ds) = al_reclaim_floor x"
  by (induction ds arbitrary: x) simp_all

lemma alloc_packed_sel:
  assumes ok: "al_ok L (bk_len b) al" and b: "bk_ok b" and p: "alloc_packed al b need = Inr (al', b', addr)"
  shows "al_live_hwm al \<le> al_live_hwm al' \<and> al_reclaim_floor al' = al_reclaim_floor al"
  using p
proof (cases rule: alloc_packed_cases)
  case (fresh al1 loc)
  then show ?thesis using alloc_aligned_ok[OF ok b fresh(2)] by simp
qed simp

lemma alloc_aligned_pack:
  assumes "alloc_aligned al b len r = Inr (al', b', loc)" and "bk_ok b" and "al_tail_low al \<le> bk_len b"
  shows "al_open_pack al' = al_open_pack al"
proof (cases "fl_first_fit (freelist_for al r) (block_size len)")
  case (Some addr)
  with assms(1) show ?thesis by (auto simp: alloc_aligned_def Let_def)
next
  case None
  let ?n = "block_size len"
  from assms(1) None obtain al1 b1 where
    g: "(if al_tail_low al < al_live_hwm al + ?n then grow_for al b ?n else Inr (al, b)) = Inr (al1, b1)"
    and a: "al' = (if r = EvictionTail then al1\<lparr>al_tail_low := al_tail_low al1 - ?n, al_tags := al_tags al'\<rparr>
      else (fst (bump_forward al1 ?n len r))\<lparr>al_tags := al_tags al'\<rparr>)"
    by (auto simp: alloc_aligned_def Let_def case_prod_unfold split: if_splits)
  have "al_open_pack al1 = al_open_pack al"
  proof (cases "al_tail_low al < al_live_hwm al + ?n")
    case True
    then have "grow_for al b ?n = Inr (al1, b1)" using g by simp
    from grow_for_InrD[OF assms(2,3) this] obtain d where
      "al1 = (let al1 = (if al_tail_low al < bk_len b then shift_eviction_tail_bookkeeping d al else al)
         in case al_wal_start al of
              None \<Rightarrow> al1\<lparr>al_tail_low := al_tail_low al1 + d\<rparr>
            | Some w \<Rightarrow> al1\<lparr>al_tail_low := al_tail_low al1 + d, al_wal_start := Some (w + d)\<rparr>)" by metis
    then show ?thesis by (simp add: Let_def split: option.splits)
  qed (use g in simp)
  moreover have "al_open_pack (fst (bump_forward al1 ?n len r)) = al_open_pack al1"
    by (simp add: bump_forward_def Let_def)
  ultimately show ?thesis by (subst a) simp
qed

text \<open>Within a scope the floor stays at the frontier of the moment the scope was opened.\<close>

fun floor_at :: "nat \<Rightarrow> live \<times> allocator \<times> backend \<Rightarrow> bool" where
  "floor_at f (L, al, b) = (al_reclaim_floor al = Some f \<and> f \<le> al_live_hwm al)"

fun scope_open :: "live \<times> allocator \<times> backend \<Rightarrow> bool" where
  "scope_open (L, al, b) = in_reclaim_scope al"

lemma floor_kept:
  "alloc_step s s' \<Longrightarrow> state_ok s \<Longrightarrow> floor_at f s \<Longrightarrow> scope_open s' \<Longrightarrow> floor_at f s'"
proof (induction rule: alloc_step.induct)
  case (st_alloc al b len r al' b' loc L)
  then show ?case using alloc_aligned_ok[of L b al len r al' b' loc] by auto
next
  case (st_pack need al b al' b' addr L)
  then show ?case using alloc_packed_sel[of L b al need al' b' addr] by auto
next
  case (st_free L loc al al' freed b)
  then show ?case using al_free_sel[of loc al] by (simp del: al_free_sel)
next
  case (st_reclaim L loc al al' freed b)
  then show ?case using al_free_sel[of loc al]
    by (auto simp: free_reclaimable_def split: if_splits simp del: al_free_sel)
next
  case st_wal
  then show ?case by (simp add: set_wal_reservation_def Let_def)
next
  case st_register_tail
  then show ?case by (simp add: register_eviction_tail_block_def Let_def)
next
  case (st_gap n a b al r L)
  then show ?case by (simp add: insert_free_extent_def Let_def)
next
  case (st_frontier e al K L b)
  then show ?case by (auto simp: set_forward_frontier_def Let_def)
next
  case st_publish
  then show ?case by (simp add: publish_deferred_def Let_def free_all_sel)
qed (auto simp: begin_reclaim_scope_def end_reclaim_scope_def Let_def in_reclaim_scope_def retire_block_def
    abort_deferred_def register_live_block_def min_def)

abbreviation scope_steps :: "live \<times> allocator \<times> backend \<Rightarrow> live \<times> allocator \<times> backend \<Rightarrow> bool" where
  "scope_steps \<equiv> (\<lambda>s s'. alloc_step s s' \<and> scope_open s')\<^sup>*\<^sup>*"

lemma scope_floor:
  assumes "scope_steps s s'" and "state_ok s" and "floor_at f s"
  shows "state_ok s' \<and> floor_at f s'"
  using assms by (induction rule: rtranclp_induct) (auto dest: alloc_step_ok floor_kept)

section \<open>Properties\<close>

lemma moved_block:
  assumes ok: "al_ok L (bk_len b) al" and b: "bk_ok b" and b': "bk_ok b'" "bk_len b \<le> bk_len b'"
    and k: "kept_bytes al b b'" and a: "L a = Some s"
  shows "moved_live al b b' L (moved al b b' a) = Some s"
    and "slice (moved al b b' a) s (bk_bytes b') = slice a s (bk_bytes b)"
proof -
  from ok have fr: "frontier_ok (bk_len b) al" and bo: "blocks_ok L (bk_len b) al" by (simp_all add: al_ok_def)
  show "moved_live al b b' L (moved al b b' a) = Some s"
    using a by (simp add: moved_live_def moved_def shift_live_def)
  have range: "a + s \<le> bk_len b" and side: "a + s \<le> al_tail_low al \<or> al_tail_low al \<le> a"
    using blocks_okD(1)[OF bo a] fr by (auto simp: block_in_def frontier_ok_def)
  have mv: "moved al b b' (a + i) = moved al b b' a + i" if "i < s" for i
    using side that by (auto simp: moved_def)
  have top: "moved al b b' a + s \<le> bk_len b'"
    using range side b'(2) by (auto simp: moved_def)
  show "slice (moved al b b' a) s (bk_bytes b') = slice a s (bk_bytes b)"
  proof (rule nth_equalityI)
    show "length (slice (moved al b b' a) s (bk_bytes b')) = length (slice a s (bk_bytes b))"
      using top range b b'(1) by (simp add: slice_def bk_ok_def)
    fix i assume "i < length (slice (moved al b b' a) s (bk_bytes b'))"
    then have i: "i < s" by (simp add: slice_def)
    have "bk_bytes b' ! moved al b b' (a + i) = bk_bytes b ! (a + i)"
      using k i range by (simp add: kept_bytes_def)
    then show "slice (moved al b b' a) s (bk_bytes b') ! i = slice a s (bk_bytes b) ! i"
      using i top range b b'(1) by (simp add: nth_slice bk_ok_def mv)
  qed
qed

lemma reachable_al_ok: "reachable_alloc (L, al, b) \<Longrightarrow> al_ok L (bk_len b) al \<and> bk_ok b"
  using reachable_ok[of "(L, al, b)"] by simp

text \<open>A container of sixteen zero blocks, and its allocator after one allocation.\<close>

definition demo_bk :: backend where
  "demo_bk = \<lparr>bk_store = MemStore (replicate 65536 0), bk_len = 65536, bk_no_grow = False\<rparr>"

definition demo_al :: allocator where
  "demo_al =
     \<lparr>al_data_start = 8192, al_head_hwm = 12288, al_live_base = 8192, al_live_hwm = 12288,
      al_tail_low = 65536, al_wal_start = None, al_tags = [(8192, LiveMid)], al_free_head = [],
      al_free_live = [], al_free_tail = [], al_reclaim_floor = None, al_deferred = [],
      al_open_pack = None\<rparr>"

lemma demo_size: "block_size 10 = 4096"
  by (simp add: block_size_def round_up_to_block_def BASE_BLOCK_def)

lemma demo_start: "reachable_alloc (Map.empty, al_new demo_bk, demo_bk)"
  by (rule start) (simp_all add: bk_ok_def BASE_BLOCK_def demo_bk_def)

lemma demo_alloc:
  "alloc_aligned (al_new demo_bk) demo_bk 10 LiveMid = Inr (demo_al, demo_bk, \<lparr>bl_addr = 8192, bl_len = 10\<rparr>)"
  by (simp add: alloc_aligned_def al_new_def fl_first_fit_def demo_size demo_bk_def demo_al_def
      BASE_BLOCK_def bump_forward_def LIVE_BASE_UNSET_def Let_def)

lemma demo_reachable: "reachable_alloc ([8192 \<mapsto> 4096], demo_al, demo_bk)"
  using step[OF demo_start st_alloc[OF demo_alloc]] by (simp add: moved_live_def demo_size)



text \<open>C7. A successful allocation returns an aligned block of at least the requested length inside the
  container that overlaps no block in use. No block in use loses a byte: a block below the tail
  stays where it is, a tail block is found moved up by the amount the container grew.\<close>

theorem alloc_fresh_block:
  assumes "reachable_alloc (L, al, b)" and "alloc_aligned al b len r = Inr (al', b', loc)"
  shows "bl_len loc = len \<and> unat len \<le> block_size len \<and> BASE_BLOCK dvd bl_addr loc
    \<and> 2 * BASE_BLOCK \<le> bl_addr loc \<and> bl_addr loc + block_size len \<le> bk_len b'
    \<and> (\<forall>a s. L a = Some s \<longrightarrow>
         (bl_addr loc + block_size len \<le> moved al b b' a \<or> moved al b b' a + s \<le> bl_addr loc)
         \<and> slice (moved al b b' a) s (bk_bytes b') = slice a s (bk_bytes b))"
proof -
  from reachable_al_ok[OF assms(1)] have ok: "al_ok L (bk_len b) al" and b: "bk_ok b" by simp_all
  note A = alloc_aligned_ok[OF ok b assms(2)]
  let ?L = "(moved_live al b b' L)(bl_addr loc \<mapsto> block_size len)"
  from A have "blocks_ok ?L (bk_len b') al'" and fr: "frontier_ok (bk_len b') al'" by (simp_all add: al_ok_def)
  from blocks_okD(1)[OF this(1), of "bl_addr loc" "block_size len"]
  have "block_in (bk_len b') al' (bl_addr loc) (block_size len)" by simp
  with fr have "BASE_BLOCK dvd bl_addr loc \<and> 2 * BASE_BLOCK \<le> bl_addr loc
      \<and> bl_addr loc + block_size len \<le> bk_len b'"
    by (auto simp: block_in_def frontier_ok_def)
  moreover have "(bl_addr loc + block_size len \<le> moved al b b' a \<or> moved al b b' a + s \<le> bl_addr loc)
      \<and> slice (moved al b b' a) s (bk_bytes b') = slice a s (bk_bytes b)" if "L a = Some s" for a s
    using moved_block[OF ok b _ _ _ that, of b'] A by blast
  ultimately show ?thesis using A block_size_ge by simp
qed

theorem alloc_fresh_block_witness:
  "\<exists>L al b al' b' loc. reachable_alloc (L, al, b) \<and> alloc_aligned al b 10 CatalogHead = Inr (al', b', loc)
    \<and> bk_len b = 8192 \<and> bl_addr loc = 8192 \<and> bl_addr loc + 4096 \<le> bk_len b'"
proof -
  let ?b = "\<lparr>bk_store = MemStore (replicate 8192 0), bk_len = 8192, bk_no_grow = False\<rparr>"
  have r: "reachable_alloc (Map.empty, al_new ?b, ?b)"
    by (rule start) (simp_all add: bk_ok_def BASE_BLOCK_def)
  obtain al' b' loc where a: "alloc_aligned (al_new ?b) ?b 10 CatalogHead = Inr (al', b', loc)"
    and 1: "bl_addr loc = 8192"
    by (simp add: alloc_aligned_def al_new_def fl_first_fit_def block_size_def round_up_to_block_def
        BASE_BLOCK_def bump_forward_def grow_for_def GROW_CHUNK_def bk_grow_def Let_def)
  from alloc_fresh_block[OF r a] r a 1 show ?thesis
    by (intro exI[of _ "Map.empty"] exI[of _ "al_new ?b"] exI[of _ ?b] exI[of _ al'] exI[of _ b'] exI[of _ loc])
      (simp add: block_size_def round_up_to_block_def BASE_BLOCK_def)
qed

text \<open>An allocation fails only when the container cannot grow: on a fixed device with the storage-full
  error, or when the grown length would not fit 64 bits. No internal panic of the allocator is
  reachable.\<close>

theorem alloc_failure:
  assumes "reachable_alloc (L, al, b)" and "alloc_aligned al b len r = Inl e"
  shows "al_tail_low al < al_live_hwm al + block_size len \<and>
    (bk_no_grow b \<and> e = Io StorageFull ''container is on a fixed device and cannot grow''
     \<or> e = Panic ''attempt to add with overflow''
       \<and> 2 ^ 64 \<le> bk_len b + round_up_to_block (max (max (block_size len) GROW_CHUNK) (bk_len b)))"
proof -
  from reachable_al_ok[OF assms(1)] have ok: "al_ok L (bk_len b) al" and b: "bk_ok b" by simp_all
  let ?n = "block_size len"
  have fit: "fl_first_fit (freelist_for al r) ?n = None"
  proof (rule ccontr)
    assume "fl_first_fit (freelist_for al r) ?n \<noteq> None"
    then obtain a where f: "fl_first_fit (freelist_for al r) ?n = Some a" by auto
    obtain m where "fl_remove_range (freelist_for al r) a ?n = Inr m"
      by (rule take_free_ok[OF ok f block_size_pos block_size_dvd])
    with assms(2) f show False by (simp add: alloc_aligned_def Let_def)
  qed
  have room: "al_live_hwm al1 + ?n \<le> al_tail_low al1"
    if "(if al_tail_low al < al_live_hwm al + ?n then grow_for al b ?n else Inr (al, b)) = Inr (al1, b1)" for al1 b1
    using room_ok(4)[OF ok b that] .
  have g: "al_tail_low al < al_live_hwm al + ?n \<and> grow_for al b ?n = Inl e"
  proof (cases "if al_tail_low al < al_live_hwm al + ?n then grow_for al b ?n else Inr (al, b)")
    case (Inl e')
    with assms(2) fit show ?thesis by (auto simp: alloc_aligned_def Let_def split: if_splits)
  next
    case (Inr p)
    obtain al1 b1 where p: "p = (al1, b1)" by fastforce
    with room[of al1 b1] Inr have "\<not> al_tail_low al1 < ?n" by simp
    with assms(2) fit Inr p have False
      by (auto simp: alloc_aligned_def Let_def split: if_splits prod.splits)
    then show ?thesis ..
  qed
  have t: "al_tail_low al \<le> bk_len b" using ok by (auto simp: al_ok_def frontier_ok_def)
  have mono: "round_up_to_block x \<le> round_up_to_block y" if "x \<le> y" for x y
    using that by (auto simp: round_up_to_block_def intro!: mult_le_mono1 div_le_mono)
  have "round_up_to_block (max (max (?n - (al_tail_low al - al_live_hwm al)) GROW_CHUNK) (bk_len b - al_tail_low al))
      \<le> round_up_to_block (max (max ?n GROW_CHUNK) (bk_len b))"
    by (rule mono) (auto simp: max_def)
  with grow_for_InlD[OF b t conjunct2[OF g]] g show ?thesis by auto
qed

theorem alloc_failure_witness:
  "\<exists>L al b. reachable_alloc (L, al, b) \<and> bk_no_grow b
    \<and> alloc_aligned al b 1 EvictionTail = Inl (Io StorageFull ''container is on a fixed device and cannot grow'')
    \<and> al_tail_low al < al_live_hwm al + block_size 1"
proof -
  let ?b = "\<lparr>bk_store = MemStore (replicate 8192 0), bk_len = 8192, bk_no_grow = True\<rparr>"
  have r: "reachable_alloc (Map.empty, al_new ?b, ?b)"
    by (rule start) (simp_all add: bk_ok_def BASE_BLOCK_def)
  have a: "alloc_aligned (al_new ?b) ?b 1 EvictionTail =
      Inl (Io StorageFull ''container is on a fixed device and cannot grow'')"
    by (simp add: alloc_aligned_def al_new_def fl_first_fit_def block_size_def round_up_to_block_def
        BASE_BLOCK_def grow_for_def GROW_CHUNK_def bk_grow_def Let_def)
  from alloc_failure[OF r a] r a show ?thesis
    by (intro exI[of _ "Map.empty"] exI[of _ "al_new ?b"] exI[of _ ?b]) simp
qed

text \<open>Freeing a block in use returns its whole space to the free lists, once: a tracked block is
  recycled and the bytes were in no free list before, an untracked one is left alone and the
  caller is told so, and freeing the same block again changes nothing.\<close>

theorem free_exact:
  assumes "reachable_alloc (L, al, b)" and "L (bl_addr loc) = Some (block_size (bl_len loc))"
    and "bl_addr loc \<notin> bl_addr ` set (al_deferred al)" and "al_free loc al = (al', freed)"
  shows "(freed \<longleftrightarrow> map_of (al_tags al) (bl_addr loc) \<noteq> None)
    \<and> (if freed then all_free al' = all_free al \<union> {bl_addr loc ..< bl_addr loc + block_size (bl_len loc)}
         \<and> {bl_addr loc ..< bl_addr loc + block_size (bl_len loc)} \<inter> all_free al = {}
         \<and> al_free loc al' = (al', False) \<and> reachable_alloc (L(bl_addr loc := None), al', b)
       else al' = al)"
proof -
  from reachable_al_ok[OF assms(1)] have ok: "al_ok L (bk_len b) al" by simp
  have reach: "reachable_alloc (if freed then L(bl_addr loc := None) else L, al', b)"
    by (rule step[OF assms(1) st_free[where L = L and loc = loc, OF assms(2-4)]])
  show ?thesis
  proof (cases "map_of (al_tags al) (bl_addr loc)")
    case None
    with al_free_untracked[OF None] assms(4) show ?thesis by simp
  next
    case (Some r)
    have al': "al' = fst (al_free loc al)" and fr: "freed" using assms(4) al_free_tracked[OF Some] by simp_all
    have "al_free loc al' = (al', False)" unfolding al' by (rule al_free_untracked) (simp add: al_free_tags)
    with al_free_ok(2)[OF ok assms(2) Some assms(3)] al' fr Some reach ok
      blocks_okD(2)[of L "bk_len b" al, OF _ assms(2)]
    show ?thesis by (simp add: al_ok_def)
  qed
qed

theorem free_exact_witness:
  "\<exists>al' freed. al_free \<lparr>bl_addr = 8192, bl_len = 10\<rparr> demo_al = (al', freed) \<and> freed
    \<and> all_free demo_al = {} \<and> all_free al' = {8192 ..< 12288}
    \<and> al_free \<lparr>bl_addr = 8192, bl_len = 10\<rparr> al' = (al', False)"
proof -
  obtain al' freed where f: "al_free \<lparr>bl_addr = 8192, bl_len = 10\<rparr> demo_al = (al', freed)" by fastforce
  have "all_free demo_al = {}"
  proof -
    have "freelist_for demo_al r = []" for r by (cases r) (simp_all add: demo_al_def)
    then show ?thesis by (simp add: all_free_def)
  qed
  moreover have "map_of (al_tags demo_al) 8192 = Some LiveMid" "al_deferred demo_al = []"
    by (simp_all add: demo_al_def)
  ultimately show ?thesis
    using free_exact[OF demo_reachable, of "\<lparr>bl_addr = 8192, bl_len = 10\<rparr>" al' freed] f
    by (auto simp: demo_size split: if_splits)
qed

text \<open>A parked block and an allocation: it stays parked, its bytes stay, and the new block lies elsewhere.\<close>

lemma parked_block:
  assumes "al_ok L len al" and "loc \<in> set (al_deferred al)"
  shows "L (bl_addr loc) = Some (block_size (bl_len loc))" and "bl_addr loc < al_live_hwm al"
  using assms by (auto simp: al_ok_def pending_ok_def)

lemma parked_alloc:
  assumes ok: "al_ok L (bk_len b) al" and b: "bk_ok b" and d: "loc \<in> set (al_deferred al)"
    and a: "alloc_aligned al b len r = Inr (al', b', new)"
  shows "al_deferred al' = al_deferred al"
    and "bl_addr new + block_size len \<le> bl_addr loc \<or> bl_addr loc + block_size (bl_len loc) \<le> bl_addr new"
    and "slice (bl_addr loc) (block_size (bl_len loc)) (bk_bytes b') = slice (bl_addr loc) (block_size (bl_len loc)) (bk_bytes b)"
proof -
  note loc = parked_block[OF ok d]
  have low: "moved al b b' (bl_addr loc) = bl_addr loc" for b'
    using loc(2) ok by (simp add: moved_def al_ok_def frontier_ok_def)
  note A = alloc_aligned_ok[OF ok b a]
  then have m: "moved_live al b b' L (bl_addr loc) = Some (block_size (bl_len loc))"
    "slice (bl_addr loc) (block_size (bl_len loc)) (bk_bytes b')
      = slice (bl_addr loc) (block_size (bl_len loc)) (bk_bytes b)"
    using moved_block[OF ok b _ _ _ loc(1), of b'] by (simp_all add: low)
  with A show "al_deferred al' = al_deferred al" "bl_addr new + block_size len \<le> bl_addr loc
        \<or> bl_addr loc + block_size (bl_len loc) \<le> bl_addr new"
    "slice (bl_addr loc) (block_size (bl_len loc)) (bk_bytes b')
        = slice (bl_addr loc) (block_size (bl_len loc)) (bk_bytes b)" by simp_all
qed

text \<open>Packing lends bytes of a parked block exactly if that block is the open pack block and has room.\<close>

lemma parked_pack:
  assumes ok: "al_ok L (bk_len b) al" and b: "bk_ok b" and d: "loc \<in> set (al_deferred al)"
    and p: "alloc_packed al b need = Inr (al', b', addr)" and need: "need < BASE_BLOCK"
  shows "al_deferred al' = al_deferred al"
    and "slice (bl_addr loc) (block_size (bl_len loc)) (bk_bytes b') = slice (bl_addr loc) (block_size (bl_len loc)) (bk_bytes b)"
    and "if \<exists>used. al_open_pack al = Some (bl_addr loc, used) \<and> used + need \<le> BASE_BLOCK
         then bl_addr loc \<le> addr \<and> addr + need \<le> bl_addr loc + block_size (bl_len loc)
         else addr + need \<le> bl_addr loc \<or> bl_addr loc + block_size (bl_len loc) \<le> addr"
proof -
  have "al_deferred al' = al_deferred al
    \<and> slice (bl_addr loc) (block_size (bl_len loc)) (bk_bytes b') = slice (bl_addr loc) (block_size (bl_len loc)) (bk_bytes b)
    \<and> (if \<exists>used. al_open_pack al = Some (bl_addr loc, used) \<and> used + need \<le> BASE_BLOCK
         then bl_addr loc \<le> addr \<and> addr + need \<le> bl_addr loc + block_size (bl_len loc)
         else addr + need \<le> bl_addr loc \<or> bl_addr loc + block_size (bl_len loc) \<le> addr)"
    using p
  proof (cases rule: alloc_packed_cases)
    case (reuse base used)
    have base: "L base = Some BASE_BLOCK" using ok reuse(1) by (simp add: al_ok_def pending_ok_def)
    have "base + BASE_BLOCK \<le> bl_addr loc \<or> bl_addr loc + block_size (bl_len loc) \<le> base" if "base \<noteq> bl_addr loc"
      using ok base parked_block(1)[OF ok d] that unfolding al_ok_def blocks_ok_def disjoint_blocks_def by blast
    moreover have "block_size (bl_len loc) = BASE_BLOCK" if "base = bl_addr loc" using base parked_block(1)[OF ok d] that by simp
    ultimately show ?thesis using reuse by auto
  next
    case (fresh al1 new)
    note q = parked_alloc[OF ok b d fresh(2), unfolded block_size_base]
    have "\<not> (\<exists>used. al_open_pack al = Some (bl_addr loc, used) \<and> used + need \<le> BASE_BLOCK)" using fresh(1) by blast
    then show ?thesis using q fresh(3,4) need by auto
  qed
  then show "al_deferred al' = al_deferred al"
    "slice (bl_addr loc) (block_size (bl_len loc)) (bk_bytes b') = slice (bl_addr loc) (block_size (bl_len loc)) (bk_bytes b)"
    "if \<exists>used. al_open_pack al = Some (bl_addr loc, used) \<and> used + need \<le> BASE_BLOCK
         then bl_addr loc \<le> addr \<and> addr + need \<le> bl_addr loc + block_size (bl_len loc)
         else addr + need \<le> bl_addr loc \<or> bl_addr loc + block_size (bl_len loc) \<le> addr" by simp_all
qed

text \<open>C17. A retired block until the publish. An aligned allocation avoids it; a packed one does so unless the block is the open pack block
  and has room, and then lends its next bytes: \<^verbatim>\<open>retire_block\<close> does not close the pack, the engine retires whole-block
  slots only. Both keep its bytes and keep it parked. Publishing empties the list and frees every block on it that has a region tag;
  aborting empties the list and frees nothing.\<close>

theorem deferred_free_discipline:
  assumes "reachable_alloc (L, al, b)" and "loc \<in> set (al_deferred al)"
  shows "(\<forall>len r al' b' new. alloc_aligned al b len r = Inr (al', b', new) \<longrightarrow>
       al_deferred al' = al_deferred al
       \<and> (bl_addr new + block_size len \<le> bl_addr loc
          \<or> bl_addr loc + block_size (bl_len loc) \<le> bl_addr new)
       \<and> slice (bl_addr loc) (block_size (bl_len loc)) (bk_bytes b')
          = slice (bl_addr loc) (block_size (bl_len loc)) (bk_bytes b))
    \<and> (\<forall>need al' b' addr. need < BASE_BLOCK \<longrightarrow> alloc_packed al b need = Inr (al', b', addr) \<longrightarrow>
       al_deferred al' = al_deferred al
       \<and> slice (bl_addr loc) (block_size (bl_len loc)) (bk_bytes b')
          = slice (bl_addr loc) (block_size (bl_len loc)) (bk_bytes b)
       \<and> (if \<exists>used. al_open_pack al = Some (bl_addr loc, used) \<and> used + need \<le> BASE_BLOCK
          then bl_addr loc \<le> addr \<and> addr + need \<le> bl_addr loc + block_size (bl_len loc)
          else addr + need \<le> bl_addr loc \<or> bl_addr loc + block_size (bl_len loc) \<le> addr))
    \<and> al_deferred (publish_deferred al) = []
    \<and> (map_of (al_tags al) (bl_addr loc) \<noteq> None \<longrightarrow>
         {bl_addr loc ..< bl_addr loc + block_size (bl_len loc)} \<subseteq> all_free (publish_deferred al))
    \<and> al_deferred (abort_deferred al) = [] \<and> all_free (abort_deferred al) = all_free al"
proof -
  from reachable_al_ok[OF assms(1)] have ok: "al_ok L (bk_len b) al" and b: "bk_ok b" by simp_all
  have pub: "{bl_addr loc ..< bl_addr loc + block_size (bl_len loc)} \<subseteq> all_free (publish_deferred al)"
    if "map_of (al_tags al) (bl_addr loc) \<noteq> None"
    using that free_all_free[OF abort_ok[OF ok], of "al_deferred al"] ok assms(2)
    by (simp add: publish_deferred_def Let_def abort_deferred_def al_ok_def pending_ok_def)
  show ?thesis
    by (intro conjI allI impI publish_sel pub)
      ((rule parked_alloc[OF ok b assms(2)] parked_pack[OF ok b assms(2)], assumption+)+, simp_all add: abort_deferred_def)
qed

theorem deferred_free_discipline_witness:
  "al_deferred (publish_deferred (retire_block \<lparr>bl_addr = 8192, bl_len = 10\<rparr> demo_al)) = []
   \<and> {8192 ..< 12288} \<subseteq> all_free (publish_deferred (retire_block \<lparr>bl_addr = 8192, bl_len = 10\<rparr> demo_al))"
proof -
  let ?loc = "\<lparr>bl_addr = 8192, bl_len = 10\<rparr>"
  have r: "reachable_alloc ([8192 \<mapsto> 4096], retire_block ?loc demo_al, demo_bk)"
    by (rule step[OF demo_reachable st_retire]) (simp_all add: demo_size demo_al_def)
  have "?loc \<in> set (al_deferred (retire_block ?loc demo_al))"
    and "map_of (al_tags (retire_block ?loc demo_al)) 8192 = Some LiveMid"
    by (simp_all add: retire_block_def demo_al_def)
  with deferred_free_discipline[OF r, of ?loc] show ?thesis by (simp add: demo_size)
qed

text \<open>C18. A reclaim scope never recycles a forward block of the committed state: if the scope was opened
  in a state with blocks \<open>L0\<close>, then whatever steps the transaction takes, a block that
  \<open>free_reclaimable\<close> frees overlaps no block of \<open>L0\<close> below the frontier of that state. Without a
  scope it frees nothing.\<close>

theorem reclaim_scope_safe:
  assumes "reachable_alloc (L0, al0, b0)" and "\<not> in_reclaim_scope al0"
    and "scope_steps (L0, begin_reclaim_scope al0, b0) (L, al, b)" and "free_reclaimable loc al = (al', True)"
    and "L0 a = Some s" and "a < al_live_hwm al0"
  shows "a + s \<le> bl_addr loc \<and> free_reclaimable loc al0 = (al0, False)"
proof -
  from reachable_al_ok[OF assms(1)] have ok: "al_ok L0 (bk_len b0) al0" and b: "bk_ok b0" by simp_all
  have none: "al_reclaim_floor al0 = None" using assms(2) by (simp add: in_reclaim_scope_def)
  have "state_ok (L0, begin_reclaim_scope al0, b0)"
    using ok b by (simp add: begin_reclaim_scope_def Let_def floor_ok)
  moreover have "floor_at (al_live_hwm al0) (L0, begin_reclaim_scope al0, b0)"
    by (simp add: begin_reclaim_scope_def none)
  ultimately have "al_reclaim_floor al = Some (al_live_hwm al0)"
    using scope_floor[OF assms(3)] by simp
  then have "al_live_hwm al0 \<le> bl_addr loc"
    using assms(4) by (simp add: free_reclaimable_def split: if_splits)
  moreover have "a + s \<le> al_live_hwm al0"
    using blocks_okD(1)[of L0 "bk_len b0" al0, OF _ assms(5)] ok assms(6)
    by (auto simp: al_ok_def block_in_def frontier_ok_def)
  ultimately show ?thesis by (simp add: free_reclaimable_def none)
qed

theorem reclaim_scope_safe_witness:
  "\<exists>L al b al'. scope_steps ([8192 \<mapsto> 4096], begin_reclaim_scope demo_al, demo_bk) (L, al, b)
    \<and> free_reclaimable \<lparr>bl_addr = 12288, bl_len = 10\<rparr> al = (al', True) \<and> (8192 :: nat) + 4096 \<le> 12288"
proof -
  let ?al = "begin_reclaim_scope demo_al" and ?loc = "\<lparr>bl_addr = 12288, bl_len = 10\<rparr>"
  obtain al where a: "alloc_aligned ?al demo_bk 10 LiveMid = Inr (al, demo_bk, ?loc)"
    and f: "al_reclaim_floor al = Some 12288" and t: "map_of (al_tags al) 12288 = Some LiveMid"
    by (simp add: alloc_aligned_def fl_first_fit_def demo_size demo_bk_def demo_al_def begin_reclaim_scope_def
        BASE_BLOCK_def bump_forward_def LIVE_BASE_UNSET_def Let_def)
  let ?L = "(moved_live ?al demo_bk demo_bk [8192 \<mapsto> 4096])(bl_addr ?loc \<mapsto> block_size 10)"
  have "alloc_step ([8192 \<mapsto> 4096], ?al, demo_bk) (?L, al, demo_bk)" by (rule st_alloc[OF a])
  then have st: "scope_steps ([8192 \<mapsto> 4096], ?al, demo_bk) (?L, al, demo_bk)"
    using f by (intro r_into_rtranclp) (simp add: in_reclaim_scope_def)
  obtain al' where fr: "free_reclaimable ?loc al = (al', True)"
    using f t by (simp add: free_reclaimable_def al_free_def Let_def)
  have "(8192 :: nat) + 4096 \<le> bl_addr ?loc \<and> free_reclaimable ?loc demo_al = (demo_al, False)"
    using reclaim_scope_safe[OF demo_reachable _ st fr, of 8192 4096]
    by (simp add: in_reclaim_scope_def demo_al_def)
  with st fr show ?thesis by auto
qed

text \<open>Sub-block packing never overlaps: however many payloads are packed in a row, opening new blocks
  as needed, their ranges are pairwise disjoint, have the requested lengths, and each lies inside
  one block in use.\<close>

theorem packed_ranges_disjoint:
  assumes "reachable_alloc (L, al, b)" and "\<forall>n \<in> set ns. n \<le> BASE_BLOCK" and "pack_many al b ns = Inr (al', b', rs)"
  shows "map snd rs = ns \<and> sorted_wrt (\<lambda>e f. fst e + snd e \<le> fst f \<or> fst f + snd f \<le> fst e) rs
    \<and> (\<exists>L'. al_ok L' (bk_len b') al' \<and> (\<forall>e \<in> set rs. \<exists>c. L' c = Some BASE_BLOCK \<and> c \<le> fst e
         \<and> fst e + snd e \<le> c + BASE_BLOCK))"
  using pack_many_held[OF conjunct1[OF reachable_al_ok[OF assms(1)]] conjunct2[OF reachable_al_ok[OF assms(1)]] assms(2,3)]
  unfolding held_def by meson

theorem packed_ranges_disjoint_witness:
  "\<exists>al' rs. pack_many (al_new demo_bk) demo_bk [3000, 1000, 200] = Inr (al', demo_bk, rs)
    \<and> rs = [(8192, 3000), (11192, 1000), (12288, 200)] \<and> map snd rs = [3000, 1000, 200]"
proof -
  let ?rs = "[(8192, 3000), (11192, 1000), (12288, 200)] :: (nat \<times> nat) list"
  obtain al' where p: "pack_many (al_new demo_bk) demo_bk [3000, 1000, 200] = Inr (al', demo_bk, ?rs)"
    by (simp add: alloc_packed_def alloc_aligned_def al_new_def fl_first_fit_def demo_bk_def block_size_def
        round_up_to_block_def BASE_BLOCK_def bump_forward_def LIVE_BASE_UNSET_def Let_def)
  have "\<forall>n \<in> set [3000, 1000, 200 :: nat]. n \<le> BASE_BLOCK" by (simp add: BASE_BLOCK_def)
  from packed_ranges_disjoint[OF demo_start this p] have "map snd ?rs = [3000, 1000, 200]" by (rule conjunct1)
  with p show ?thesis by (intro exI[of _ al'] exI[of _ ?rs]) simp
qed

end
