(* ===== verification/Crypto.thy ===== *)
theory Crypto
  imports Sfs_Prelude
begin

text \<open>
  The cryptographic layer of \<^verbatim>\<open>sfs-core/src/crypto/\<close>. The primitives come from other crates (CRC-32,
  HKDF and HMAC with SHA-256, AES-256-GCM): they are a record \<open>prims\<close> of functions, a parameter of
  every definition that uses them, and \<open>prims_ok\<close> states what the code relies on (output lengths,
  and that decryption inverts encryption). What the repository itself contributes is modelled:
  the derived keys, the header MAC, the nonce and context bytes, the cipher suites and the choice
  of a common suite.
\<close>

section \<open>Primitives\<close>

record prims =
  p_crc32 :: "bytes \<Rightarrow> u32"
  p_hkdf :: "bytes \<Rightarrow> bytes \<Rightarrow> bytes \<Rightarrow> nat \<Rightarrow> bytes"  \<comment> \<open>salt, input key, info, length\<close>
  p_hmac :: "bytes \<Rightarrow> bytes \<Rightarrow> bytes"  \<comment> \<open>key, message\<close>
  p_gcm_seal :: "bytes \<Rightarrow> bytes \<Rightarrow> bytes \<Rightarrow> bytes \<Rightarrow> bytes"  \<comment> \<open>key, nonce, associated data, plaintext\<close>
  p_gcm_open :: "bytes \<Rightarrow> bytes \<Rightarrow> bytes \<Rightarrow> bytes \<Rightarrow> bytes option"

definition prims_ok :: "prims \<Rightarrow> bool" where
  "prims_ok P \<longleftrightarrow>
     (\<forall>s k i n. length (p_hkdf P s k i n) = n) \<and> (\<forall>k m. length (p_hmac P k m) = 32)
     \<and> (\<forall>k n a m. p_gcm_open P k n a (p_gcm_seal P k n a m) = Some m)
     \<and> (\<forall>k n a m. length (p_gcm_seal P k n a m) = length m + 16)"

text \<open>The bytes of an ASCII string literal.\<close>

definition ascii :: "string \<Rightarrow> bytes" where
  "ascii s = map of_char s"

lemma length_ascii [simp]: "length (ascii s) = length s"
  by (simp add: ascii_def)

section \<open>Derived keys\<close>

type_synonym cipher_suite_id = u16

definition CIPHER_NONE :: cipher_suite_id where "CIPHER_NONE = 0"
definition CIPHER_AES256_GCM :: cipher_suite_id where "CIPHER_AES256_GCM = 1"
definition CIPHER_XTS_AES256 :: cipher_suite_id where "CIPHER_XTS_AES256 = 2"

definition derive_meta_key :: "prims \<Rightarrow> bytes \<Rightarrow> bytes" where
  "derive_meta_key P container_key =
     p_hkdf P (ascii ''sfs-meta-key-salt-v1'') container_key (ascii ''sfs-meta-key-v1'') 32"

definition derive_header_mac_key :: "prims \<Rightarrow> bytes \<Rightarrow> bytes" where
  "derive_header_mac_key P root_key =
     p_hkdf P (ascii ''sfs-header-mac-salt-v1'') root_key (ascii ''sfs-header-mac-v1'') 32"

definition header_mac :: "prims \<Rightarrow> bytes \<Rightarrow> bytes \<Rightarrow> bytes" where
  "header_mac P root_key header_body = p_hmac P (derive_header_mac_key P root_key) header_body"

lemma header_mac_length: "prims_ok P \<Longrightarrow> length (header_mac P k body) = 32"
  by (simp add: prims_ok_def header_mac_def)

section \<open>Block context and suites\<close>

record block_ctx =
  bc_uuid :: bytes
  bc_frag :: u32
  bc_version :: u64
  bc_key_epoch :: u64

definition block_ctx_bytes :: "block_ctx \<Rightarrow> bytes" where
  "block_ctx_bytes ctx =
     bc_uuid ctx @ u32_to_le (bc_frag ctx) @ u64_to_le (bc_version ctx) @ u64_to_le (bc_key_epoch ctx)"

definition derive_nonce :: "prims \<Rightarrow> bytes \<Rightarrow> block_ctx \<Rightarrow> bytes" where
  "derive_nonce P key ctx =
     p_hkdf P (ascii ''sfs-gcm-nonce-salt-v1'') key (ascii ''sfs-gcm-nonce-v1'' @ block_ctx_bytes ctx) 12"

definition derive_content_key :: "prims \<Rightarrow> bytes \<Rightarrow> bytes" where
  "derive_content_key P root_key =
     p_hkdf P (ascii ''sfs-gcm-content-key-salt-v1'') root_key (ascii ''sfs-gcm-content-key-v1'') 32"

definition seal_with_nonce :: "prims \<Rightarrow> bytes \<Rightarrow> bytes \<Rightarrow> bytes \<Rightarrow> bytes \<Rightarrow> bytes" where
  "seal_with_nonce P key nonce aad plaintext = p_gcm_seal P key nonce aad plaintext"

definition open_with_nonce :: "prims \<Rightarrow> bytes \<Rightarrow> bytes \<Rightarrow> bytes \<Rightarrow> bytes \<Rightarrow> bytes result" where
  "open_with_nonce P key nonce aad ciphertext =
     (case p_gcm_open P key nonce aad ciphertext of
        Some m \<Rightarrow> Inr m
      | None \<Rightarrow> Inl (Integrity ''AES-256-GCM authentication failed''))"

definition gcm_seal :: "prims \<Rightarrow> bytes \<Rightarrow> block_ctx \<Rightarrow> bytes \<Rightarrow> bytes result" where
  "gcm_seal P key ctx plaintext =
     (let content_key = derive_content_key P key;
          nonce = derive_nonce P content_key ctx
      in Inr (p_gcm_seal P content_key nonce [] plaintext))"

definition gcm_open :: "prims \<Rightarrow> bytes \<Rightarrow> block_ctx \<Rightarrow> bytes \<Rightarrow> bytes result" where
  "gcm_open P key ctx ciphertext =
     (let content_key = derive_content_key P key;
          nonce = derive_nonce P content_key ctx
      in case p_gcm_open P content_key nonce [] ciphertext of
           Some m \<Rightarrow> Inr m
         | None \<Rightarrow> Inl (Crypto ''AES-256-GCM authentication tag verification failed''))"

definition none_seal :: "bytes \<Rightarrow> block_ctx \<Rightarrow> bytes \<Rightarrow> bytes result" where
  "none_seal key ctx plaintext = Inr plaintext"

definition none_open :: "bytes \<Rightarrow> block_ctx \<Rightarrow> bytes \<Rightarrow> bytes result" where
  "none_open key ctx ciphertext = Inr ciphertext"

text \<open>The strongest suite every device supports; the list is the order of preference.\<close>

definition common_optimum :: "cipher_suite_id list list \<Rightarrow> cipher_suite_id" where
  "common_optimum caps =
     (if caps = [] then CIPHER_AES256_GCM
      else case List.find (\<lambda>c. \<forall>cs \<in> set caps. c \<in> set cs) [CIPHER_AES256_GCM, CIPHER_XTS_AES256] of
             Some c \<Rightarrow> c
           | None \<Rightarrow> CIPHER_XTS_AES256)"

section \<open>Facts used by the layers above\<close>

lemma gcm_roundtrip: "prims_ok P \<Longrightarrow> bind_r (gcm_seal P key ctx m) (gcm_open P key ctx) = Inr m"
  by (simp add: gcm_seal_def gcm_open_def prims_ok_def Let_def)

lemma block_ctx_bytes_inj:
  assumes "length (bc_uuid c) = 16" and "length (bc_uuid d) = 16" and "block_ctx_bytes c = block_ctx_bytes d"
  shows "c = (d :: block_ctx)"
proof -
  have u: "bc_uuid c = bc_uuid d" "u32_to_le (bc_frag c) = u32_to_le (bc_frag d)"
    "u64_to_le (bc_version c) = u64_to_le (bc_version d)" "u64_to_le (bc_key_epoch c) = u64_to_le (bc_key_epoch d)"
    using assms by (auto simp: block_ctx_bytes_def append_eq_append_conv)
  then show ?thesis
    by (metis block_ctx.equality u32_le_inverse u64_le_inverse unit.exhaust)
qed

text \<open>An instance of the primitives: an additive checksum, constant keys and tags, a cipher that
  appends sixteen zero bytes.\<close>

definition toy_prims :: prims where
  "toy_prims =
     \<lparr>p_crc32 = (\<lambda>bs. word_of_nat (sum_list (map unat bs))),
      p_hkdf = (\<lambda>s k i n. replicate n 7),
      p_hmac = (\<lambda>k m. replicate 32 1),
      p_gcm_seal = (\<lambda>k n a m. m @ replicate 16 0),
      p_gcm_open = (\<lambda>k n a c. if 16 \<le> length c \<and> drop (length c - 16) c = replicate 16 0
                              then Some (take (length c - 16) c) else None)\<rparr>"

lemma toy_prims_ok: "prims_ok toy_prims"
  by (simp add: prims_ok_def toy_prims_def)

end
