(* ===== verification/Header.thy ===== *)
theory Header
  imports Backend Crypto
begin

text \<open>
  The container header, \<^verbatim>\<open>sfs-core/src/container/header.rs\<close>: the 183-byte body, its CRC and MAC, the
  two slots, \<^verbatim>\<open>load\<close> and \<^verbatim>\<open>commit\<close>. The header is the atomic commit point of a container. Shown are
  the round trip of the wire format, that a commit is seen by the next load and touches neither
  the active slot nor the data region, what a crash in the middle of the slot write leaves, and
  that a load never falls back to an older slot when the newest fails authentication.
\<close>

section \<open>Header data\<close>

datatype sign_mode = Unsigned | Signed | WriterSet

definition MAGIC :: bytes where
  "MAGIC = [115, 102, 115, 0, 118, 49, 0, 0]"

definition FORMAT_VERSION :: u16 where
  "FORMAT_VERSION = 12"

record container_params =
  cp_max_fragsize_exp :: u8
  cp_eviction_code :: u8
  cp_base_block :: u32

record catalog_roots =
  cr_key_root :: u64
  cr_id_root :: u64

record container_header =
  h_magic :: bytes
  h_format_version :: u16
  h_cipher :: cipher_suite_id
  h_content_cipher :: cipher_suite_id
  h_params :: container_params
  h_roots :: catalog_roots
  h_writer_set :: "bytes option"
  h_commit_seq :: u64
  h_wal_applied_seq :: u64
  h_wal_region_offset :: u64
  h_sign_mode :: sign_mode
  h_writer_pubkey :: bytes
  h_owner_pubkey :: bytes
  h_writer_set_epoch :: u64
  h_key_epoch :: u64
  h_tail_low :: u64
  h_salt :: bytes
  h_pad_blocks :: bool

definition BODY_SIZE_V1 :: nat where "BODY_SIZE_V1 = 59"
definition BODY_SIZE_V2 :: nat where "BODY_SIZE_V2 = BODY_SIZE_V1 + 8 + 8"
definition BODY_SIZE_V4 :: nat where "BODY_SIZE_V4 = BODY_SIZE_V2 + 1"
definition BODY_SIZE_V5 :: nat where "BODY_SIZE_V5 = BODY_SIZE_V4 + 2"
definition BODY_SIZE_V6 :: nat where "BODY_SIZE_V6 = BODY_SIZE_V5 + 1 + 32"
definition BODY_SIZE_V7 :: nat where "BODY_SIZE_V7 = BODY_SIZE_V6 + 32 + 8"
definition BODY_SIZE_V8 :: nat where "BODY_SIZE_V8 = BODY_SIZE_V7 + 8"
definition BODY_SIZE_V11 :: nat where "BODY_SIZE_V11 = BODY_SIZE_V8 + 8"
definition SALT_LEN :: nat where "SALT_LEN = 16"
definition BODY_SIZE_V12 :: nat where "BODY_SIZE_V12 = BODY_SIZE_V11 + SALT_LEN"
definition HEADER_MAC_SIZE :: nat where "HEADER_MAC_SIZE = 32"
definition WIRE_SIZE_V12 :: nat where "WIRE_SIZE_V12 = BODY_SIZE_V12 + 4 + HEADER_MAC_SIZE"
definition SLOT0_OFFSET :: nat where "SLOT0_OFFSET = 0"
definition SLOT1_OFFSET :: nat where "SLOT1_OFFSET = BASE_BLOCK"

lemmas header_sizes = BODY_SIZE_V1_def BODY_SIZE_V2_def BODY_SIZE_V4_def BODY_SIZE_V5_def BODY_SIZE_V6_def
  BODY_SIZE_V7_def BODY_SIZE_V8_def BODY_SIZE_V11_def SALT_LEN_def BODY_SIZE_V12_def HEADER_MAC_SIZE_def
  WIRE_SIZE_V12_def

section \<open>Wire format\<close>

fun sign_mode_byte :: "sign_mode \<Rightarrow> u8" where
  "sign_mode_byte Unsigned = 0"
| "sign_mode_byte Signed = 1"
| "sign_mode_byte WriterSet = 2"

definition serialize_body :: "container_header \<Rightarrow> bytes" where
  "serialize_body h =
     h_magic h @ u16_to_le (h_format_version h) @ u16_to_le (h_cipher h)
     @ [cp_max_fragsize_exp (h_params h)] @ [cp_eviction_code (h_params h)] @ u32_to_le (cp_base_block (h_params h))
     @ u64_to_le (cr_key_root (h_roots h)) @ u64_to_le (cr_id_root (h_roots h))
     @ (case h_writer_set h of None \<Rightarrow> [0] @ replicate 16 0 | Some ws \<Rightarrow> [1] @ ws)
     @ u64_to_le (h_commit_seq h) @ u64_to_le (h_wal_applied_seq h) @ u64_to_le (h_wal_region_offset h)
     @ [if h_pad_blocks h then 1 else 0] @ u16_to_le (h_content_cipher h)
     @ [sign_mode_byte (h_sign_mode h)] @ h_writer_pubkey h
     @ h_owner_pubkey h @ u64_to_le (h_writer_set_epoch h) @ u64_to_le (h_key_epoch h)
     @ u64_to_le (h_tail_low h) @ h_salt h"

definition to_wire :: "prims \<Rightarrow> container_header \<Rightarrow> bytes option \<Rightarrow> bytes" where
  "to_wire P h mac_key =
     (let body = serialize_body h; crc = p_crc32 P body in
      case (if FORMAT_VERSION \<le> h_format_version h then mac_key else None) of
        Some root_key \<Rightarrow> body @ u32_to_le crc @ header_mac P root_key body
      | None \<Rightarrow> body @ u32_to_le crc)"

definition decode_sign_mode :: "u8 \<Rightarrow> sign_mode result" where
  "decode_sign_mode b =
     (if b = 0 then Inr Unsigned else if b = 1 then Inr Signed else if b = 2 then Inr WriterSet
      else Inl (Integrity ''unknown sign_mode byte in v10 header''))"

definition from_wire :: "prims \<Rightarrow> bytes \<Rightarrow> bytes option \<Rightarrow> container_header result" where
  "from_wire P raw mac_key =
     (if length raw < WIRE_SIZE_V12 then Inl (Integrity ''header buffer too short for v12'')
      else let format_version = u16_from_le (slice 8 2 raw) in
      if format_version \<noteq> FORMAT_VERSION then Inl (UnsupportedVersion (ucast format_version))
      else let stored_crc = u32_from_le (slice BODY_SIZE_V12 4 raw);
               computed_crc = p_crc32 P (take BODY_SIZE_V12 raw) in
      if stored_crc \<noteq> computed_crc then Inl (Integrity ''header CRC mismatch'')
      else if (case mac_key of
                 Some root_key \<Rightarrow>
                   slice (BODY_SIZE_V12 + 4) HEADER_MAC_SIZE raw \<noteq> header_mac P root_key (take BODY_SIZE_V12 raw)
               | None \<Rightarrow> False)
      then Inl (Integrity ''header MAC mismatch'')
      else let magic = slice 0 8 raw in
      if magic \<noteq> MAGIC then Inl (Integrity ''header magic mismatch'')
      else bind_r (decode_sign_mode (raw ! BODY_SIZE_V5)) (\<lambda>sign_mode. Inr
        \<lparr>h_magic = magic,
         h_format_version = format_version,
         h_cipher = u16_from_le (slice 10 2 raw),
         h_content_cipher = u16_from_le (slice BODY_SIZE_V4 2 raw),
         h_params = \<lparr>cp_max_fragsize_exp = raw ! 12, cp_eviction_code = raw ! 13,
                     cp_base_block = u32_from_le (slice 14 4 raw)\<rparr>,
         h_roots = \<lparr>cr_key_root = u64_from_le (slice 18 8 raw), cr_id_root = u64_from_le (slice 26 8 raw)\<rparr>,
         h_writer_set = (if raw ! 34 \<noteq> 0 then Some (slice 35 16 raw) else None),
         h_commit_seq = u64_from_le (slice 51 8 raw),
         h_wal_applied_seq = u64_from_le (slice BODY_SIZE_V1 8 raw),
         h_wal_region_offset = u64_from_le (slice (BODY_SIZE_V1 + 8) 8 raw),
         h_sign_mode = sign_mode,
         h_writer_pubkey = slice (BODY_SIZE_V5 + 1) 32 raw,
         h_owner_pubkey = slice BODY_SIZE_V6 32 raw,
         h_writer_set_epoch = u64_from_le (slice (BODY_SIZE_V6 + 32) 8 raw),
         h_key_epoch = u64_from_le (slice BODY_SIZE_V7 8 raw),
         h_tail_low = u64_from_le (slice BODY_SIZE_V8 8 raw),
         h_salt = slice BODY_SIZE_V11 SALT_LEN raw,
         h_pad_blocks = (raw ! BODY_SIZE_V2 \<noteq> 0)\<rparr>))"

definition peek_salt :: "bytes \<Rightarrow> bytes option" where
  "peek_salt raw =
     (if length raw < BODY_SIZE_V12 then None
      else if u16_from_le (slice 8 2 raw) \<noteq> FORMAT_VERSION then None
      else Some (slice BODY_SIZE_V11 SALT_LEN raw))"

definition peek_decode_slot :: "prims \<Rightarrow> bytes \<Rightarrow> container_header option" where
  "peek_decode_slot P raw = (case from_wire P raw None of Inr h \<Rightarrow> Some h | Inl _ \<Rightarrow> None)"

section \<open>Slots\<close>

definition read_slot :: "prims \<Rightarrow> backend \<Rightarrow> nat \<Rightarrow> bytes option \<Rightarrow> container_header result" where
  "read_slot P b slot_offset mac_key =
     bind_r (bk_read_at b slot_offset WIRE_SIZE_V12) (\<lambda>raw. from_wire P raw mac_key)"

definition write_slot :: "prims \<Rightarrow> container_header \<Rightarrow> backend \<Rightarrow> nat \<Rightarrow> bytes option \<Rightarrow> backend result" where
  "write_slot P h b slot_offset mac_key = bk_write_at b slot_offset (to_wire P h mac_key)"

definition write_slot0 :: "prims \<Rightarrow> container_header \<Rightarrow> backend \<Rightarrow> bytes option \<Rightarrow> backend result" where
  "write_slot0 P h b mac_key = write_slot P h b 0 mac_key"

fun pick_winner :: "container_header result \<times> container_header result \<Rightarrow> nat result" where
  "pick_winner (Inr h0, Inr h1) =
     Inr (if h_commit_seq h0 < h_commit_seq h1 then SLOT1_OFFSET else SLOT0_OFFSET)"
| "pick_winner (Inr _, Inl _) = Inr SLOT0_OFFSET"
| "pick_winner (Inl _, Inr _) = Inr SLOT1_OFFSET"
| "pick_winner (Inl _, Inl _) = Inl (Integrity ''both header slots are invalid'')"

definition load :: "prims \<Rightarrow> backend \<Rightarrow> bytes option \<Rightarrow> container_header result" where
  "load P b mac_key =
     (let s0 = read_slot P b SLOT0_OFFSET None; s1 = read_slot P b SLOT1_OFFSET None in
      bind_r (pick_winner (s0, s1)) (\<lambda>winner_offset. read_slot P b winner_offset mac_key))"

fun pick_inactive :: "container_header result \<times> container_header result \<Rightarrow> (u64 \<times> nat) result" where
  "pick_inactive (Inr h0, Inr h1) =
     Inr (if h_commit_seq h0 < h_commit_seq h1 then (h_commit_seq h1, SLOT0_OFFSET)
          else (h_commit_seq h0, SLOT1_OFFSET))"
| "pick_inactive (Inr h0, Inl _) = Inr (h_commit_seq h0, SLOT1_OFFSET)"
| "pick_inactive (Inl _, Inr h1) = Inr (h_commit_seq h1, SLOT0_OFFSET)"
| "pick_inactive (Inl _, Inl _) = Inl (Integrity ''cannot commit: both header slots are invalid'')"

definition commit :: "prims \<Rightarrow> backend \<Rightarrow> container_header \<Rightarrow> bytes option \<Rightarrow> backend result" where
  "commit P b nxt mac_key =
     (let s0 = read_slot P b SLOT0_OFFSET None; s1 = read_slot P b SLOT1_OFFSET None in
      bind_r (pick_inactive (s0, s1)) (\<lambda>(active_seq, inactive_offset).
        if h_commit_seq nxt \<noteq> active_seq + 1 then Inl (Integrity ''commit_seq must be active_seq+1'')
        else bind_r (write_slot P nxt b inactive_offset mac_key) (\<lambda>b'.
             bind_r (bk_flush b') (\<lambda>_. Inr b'))))"

text \<open>The slot of an in-memory image, padded with zeros past its end.\<close>

definition image_slot :: "bytes \<Rightarrow> nat \<Rightarrow> bytes" where
  "image_slot bs off =
     (let e = min (off + WIRE_SIZE_V12) (length bs) in
      if off < e then splice 0 (slice off (e - off) bs) (replicate WIRE_SIZE_V12 0)
      else replicate WIRE_SIZE_V12 0)"

definition peek_container_salt_bytes :: "prims \<Rightarrow> bytes \<Rightarrow> bytes option result" where
  "peek_container_salt_bytes P bs =
     (let s0 = peek_decode_slot P (image_slot bs SLOT0_OFFSET);
          s1 = peek_decode_slot P (image_slot bs SLOT1_OFFSET) in
      bind_r
        (case (s0, s1) of
           (Some h0, Some h1) \<Rightarrow> Inr (if h_commit_seq h0 < h_commit_seq h1 then h1 else h0)
         | (Some h0, None) \<Rightarrow> Inr h0
         | (None, Some h1) \<Rightarrow> Inr h1
         | (None, None) \<Rightarrow> Inl (Integrity ''no valid header slot''))
        (\<lambda>winner. if h_salt winner = replicate 16 0 then Inr None else Inr (Some (h_salt winner))))"

section \<open>The wire format\<close>

text \<open>A header of the current version: the fixed-size fields have their sizes.\<close>

definition header_ok :: "container_header \<Rightarrow> bool" where
  "header_ok h \<longleftrightarrow>
     h_magic h = MAGIC \<and> h_format_version h = FORMAT_VERSION
     \<and> (\<forall>ws. h_writer_set h = Some ws \<longrightarrow> length ws = 16)
     \<and> length (h_writer_pubkey h) = 32 \<and> length (h_owner_pubkey h) = 32 \<and> length (h_salt h) = 16"

lemma MAGIC_length [simp]: "length MAGIC = 8"
  by (simp add: MAGIC_def)

lemma serialize_body_length: "header_ok h \<Longrightarrow> length (serialize_body h) = BODY_SIZE_V12"
  by (auto simp: serialize_body_def header_ok_def header_sizes split: option.splits)

lemma nth_append_skip: "length xs \<le> i \<Longrightarrow> (xs @ ys) ! i = ys ! (i - length xs)"
  by (simp add: nth_append)

lemma decode_sign_mode_inverse [simp]: "decode_sign_mode (sign_mode_byte m) = Inr m"
  by (cases m) (simp_all add: decode_sign_mode_def)

definition ws_field :: "bytes option \<Rightarrow> bytes" where
  "ws_field w = (case w of None \<Rightarrow> [0] @ replicate 16 0 | Some ws \<Rightarrow> [1] @ ws)"

lemma ws_field_facts:
  assumes "\<forall>ws. w = Some ws \<longrightarrow> length ws = 16"
  shows "length (ws_field w) = 17"
    and "(if ws_field w ! 0 \<noteq> 0 then Some (slice 1 16 (ws_field w)) else None) = w"
  using assms by (auto simp: ws_field_def slice_def split: option.splits)

lemma body_fields:
  assumes h: "header_ok h" and raw_def: "raw = serialize_body h @ rest"
  shows "slice 0 8 raw = h_magic h" "u16_from_le (slice 8 2 raw) = h_format_version h"
    "u16_from_le (slice 10 2 raw) = h_cipher h" "raw ! 12 = cp_max_fragsize_exp (h_params h)"
    "raw ! 13 = cp_eviction_code (h_params h)" "u32_from_le (slice 14 4 raw) = cp_base_block (h_params h)"
    "u64_from_le (slice 18 8 raw) = cr_key_root (h_roots h)" "u64_from_le (slice 26 8 raw) = cr_id_root (h_roots h)"
    "slice 34 17 raw = ws_field (h_writer_set h)"
    "u64_from_le (slice 51 8 raw) = h_commit_seq h" "u64_from_le (slice 59 8 raw) = h_wal_applied_seq h"
    "u64_from_le (slice 67 8 raw) = h_wal_region_offset h" "raw ! 75 = (if h_pad_blocks h then 1 else 0)"
    "u16_from_le (slice 76 2 raw) = h_content_cipher h" "raw ! 78 = sign_mode_byte (h_sign_mode h)"
    "slice 79 32 raw = h_writer_pubkey h" "slice 111 32 raw = h_owner_pubkey h"
    "u64_from_le (slice 143 8 raw) = h_writer_set_epoch h" "u64_from_le (slice 151 8 raw) = h_key_epoch h"
    "u64_from_le (slice 159 8 raw) = h_tail_low h" "slice 167 16 raw = h_salt h"
proof -
  have w: "length (ws_field (h_writer_set h)) = 17" using h ws_field_facts(1) by (simp add: header_ok_def)
  have l: "length (h_magic h) = 8" "length (h_writer_pubkey h) = 32" "length (h_owner_pubkey h) = 32"
    "length (h_salt h) = 16" using h by (simp_all add: header_ok_def)
  note d = raw_def serialize_body_def ws_field_def[symmetric]
  note S = slice_append_skip slice_append_exact slice_Cons_skip nth_append_skip nth_Cons'
  show "slice 0 8 raw = h_magic h" "u16_from_le (slice 8 2 raw) = h_format_version h"
    "u16_from_le (slice 10 2 raw) = h_cipher h" "raw ! 12 = cp_max_fragsize_exp (h_params h)"
    "raw ! 13 = cp_eviction_code (h_params h)" "u32_from_le (slice 14 4 raw) = cp_base_block (h_params h)"
    "u64_from_le (slice 18 8 raw) = cr_key_root (h_roots h)" "u64_from_le (slice 26 8 raw) = cr_id_root (h_roots h)"
    "slice 34 17 raw = ws_field (h_writer_set h)"
    "u64_from_le (slice 51 8 raw) = h_commit_seq h" "u64_from_le (slice 59 8 raw) = h_wal_applied_seq h"
    "u64_from_le (slice 67 8 raw) = h_wal_region_offset h" "raw ! 75 = (if h_pad_blocks h then 1 else 0)"
    "u16_from_le (slice 76 2 raw) = h_content_cipher h" "raw ! 78 = sign_mode_byte (h_sign_mode h)"
    "slice 79 32 raw = h_writer_pubkey h" "slice 111 32 raw = h_owner_pubkey h"
    "u64_from_le (slice 143 8 raw) = h_writer_set_epoch h" "u64_from_le (slice 151 8 raw) = h_key_epoch h"
    "u64_from_le (slice 159 8 raw) = h_tail_low h" "slice 167 16 raw = h_salt h"
    by (simp_all add: d S l w)
qed

lemma from_wire_body:
  assumes h: "header_ok h" and crc: "u32_from_le (slice 183 4 (serialize_body h @ rest)) = p_crc32 P (serialize_body h)"
    and len: "36 \<le> length rest"
    and mac: "\<And>k. mac_key = Some k \<Longrightarrow> slice 187 32 (serialize_body h @ rest) = header_mac P k (serialize_body h)"
  shows "from_wire P (serialize_body h @ rest) mac_key = Inr h"
proof -
  have bl: "length (serialize_body h) = 183" using serialize_body_length[OF h] by (simp add: header_sizes)
  then have tk: "take 183 (serialize_body h @ rest) = serialize_body h" by simp
  have ws: "slice 34 17 (serialize_body h @ rest) = ws_field (h_writer_set h)" by (rule body_fields(9)[OF h refl])
  have e1: "(serialize_body h @ rest) ! 34 = ws_field (h_writer_set h) ! 0"
    using ws[symmetric] bl len by (simp add: nth_slice)
  have e2: "slice 35 16 (serialize_body h @ rest) = slice 1 16 (ws_field (h_writer_set h))"
    unfolding ws[symmetric] by (simp add: slice_slice)
  have w: "(if (serialize_body h @ rest) ! 34 \<noteq> 0
      then Some (slice 35 16 (serialize_body h @ rest)) else None) = h_writer_set h"
    unfolding e1 e2 by (rule ws_field_facts(2)) (use h in \<open>simp add: header_ok_def\<close>)
  have m: "h_magic h = MAGIC" "h_format_version h = FORMAT_VERSION" using h by (simp_all add: header_ok_def)
  show ?thesis
    unfolding from_wire_def Let_def header_sizes
    using bl len crc mac m w
    by (auto simp: tk body_fields[OF h refl] split: option.splits)
qed

lemma to_wire_Some:
  "header_ok h \<Longrightarrow> to_wire P h (Some k) =
     serialize_body h @ u32_to_le (p_crc32 P (serialize_body h)) @ header_mac P k (serialize_body h)"
  by (simp add: to_wire_def Let_def header_ok_def)

lemma to_wire_length: "prims_ok P \<Longrightarrow> header_ok h \<Longrightarrow> length (to_wire P h (Some k)) = WIRE_SIZE_V12"
  by (simp add: to_wire_Some serialize_body_length header_mac_length header_sizes)

lemma wire_roundtrip:
  assumes P: "prims_ok P" and h: "header_ok h"
  shows "from_wire P (to_wire P h (Some k) @ rest) (Some k) = Inr h"
    and "from_wire P (to_wire P h (Some k) @ rest) None = Inr h"
proof -
  have bl: "length (serialize_body h) = 183" using serialize_body_length[OF h] by (simp add: header_sizes)
  have "from_wire P (serialize_body h @ (u32_to_le (p_crc32 P (serialize_body h))
      @ header_mac P k (serialize_body h) @ rest)) m = Inr h" if "m = Some k \<or> m = None" for m
    using that bl header_mac_length[OF P, of k "serialize_body h"]
    by (intro from_wire_body[OF h]) (auto simp: slice_append_skip slice_append_exact)
  then show "from_wire P (to_wire P h (Some k) @ rest) (Some k) = Inr h"
    and "from_wire P (to_wire P h (Some k) @ rest) None = Inr h"
    by (simp_all add: to_wire_Some[OF h])
qed

section \<open>Slots and commits\<close>

lemma from_wire_keyless: "from_wire P raw (Some k) = Inr h \<Longrightarrow> from_wire P raw None = Inr h"
  by (auto simp: from_wire_def Let_def split: if_splits)

lemma from_wire_mac:
  "from_wire P raw (Some k) = Inr h \<Longrightarrow> slice 187 32 raw = header_mac P k (take 183 raw)"
  by (auto simp: from_wire_def Let_def header_sizes split: if_splits)

lemma slot_offsets: "SLOT0_OFFSET = 0" "SLOT1_OFFSET = 4096"
  by (simp_all add: SLOT0_OFFSET_def SLOT1_OFFSET_def BASE_BLOCK_def)

lemma wire_size: "WIRE_SIZE_V12 = 219"
  by (simp add: header_sizes)

lemma read_slot_eq:
  "bk_ok b \<Longrightarrow> off + 219 \<le> bk_len b \<Longrightarrow> read_slot P b off k = from_wire P (slice off 219 (bk_bytes b)) k"
  by (simp add: read_slot_def wire_size bk_read_at_ok)

text \<open>The two slots, and what a write into one of them leaves of the other.\<close>

definition is_slot :: "nat \<Rightarrow> bool" where
  "is_slot off \<longleftrightarrow> off = SLOT0_OFFSET \<or> off = SLOT1_OFFSET"

definition other_slot :: "nat \<Rightarrow> nat" where
  "other_slot off = (if off = SLOT0_OFFSET then SLOT1_OFFSET else SLOT0_OFFSET)"

definition room :: "backend \<Rightarrow> bool" where
  "room b \<longleftrightarrow> bk_ok b \<and> 2 * BASE_BLOCK \<le> bk_len b"

lemma slot_cases: "is_slot off \<Longrightarrow> off = 0 \<and> other_slot off = 4096 \<or> off = 4096 \<and> other_slot off = 0"
  by (auto simp: is_slot_def other_slot_def slot_offsets)

lemma slot_write_ok:
  assumes "room b" and "is_slot off" and "length d \<le> 4096"
  shows "\<exists>b'. bk_write_at b off d = Inr b'"
  using assms slot_cases[OF assms(2)] bk_write_at_ok[of b off d] by (auto simp: room_def BASE_BLOCK_def)

lemma slot_write:
  assumes b: "room b" and off: "is_slot off" and len: "length d \<le> 4096" and w: "bk_write_at b off d = Inr b'"
  shows "room b'" "bk_len b' = bk_len b"
    "read_slot P b' (other_slot off) k = read_slot P b (other_slot off) k"
    "length d = 219 \<Longrightarrow> read_slot P b' off k = from_wire P d k"
    "2 * BASE_BLOCK \<le> i \<Longrightarrow> slice i n (bk_bytes b') = slice i n (bk_bytes b)"
    "m \<le> 4096 \<Longrightarrow> slice (other_slot off) m (bk_bytes b') = slice (other_slot off) m (bk_bytes b)"
proof -
  have bk: "bk_ok b" and bl: "8192 \<le> bk_len b" using b by (simp_all add: room_def BASE_BLOCK_def)
  note off' = slot_cases[OF off]
  note W = bk_write_at_InrD[OF w]
  have b': "bk_ok b'" by (rule bk_write_at_pres[OF bk w])
  then show "room b'" "bk_len b' = bk_len b" using b W by (simp_all add: room_def)
  have dl: "off + length d \<le> length (bk_bytes b)" using W(1) bk by (simp add: bk_ok_def)
  have oth: "slice (other_slot off) n (bk_bytes b') = slice (other_slot off) n (bk_bytes b)" if "n \<le> 4096" for n
    unfolding W(4) using off'
  proof
    assume "off = 0 \<and> other_slot off = 4096"
    then have "other_slot off = 4096" and "off + length d \<le> 4096" using len by auto
    with dl show "slice (other_slot off) n (splice off d (bk_bytes b)) = slice (other_slot off) n (bk_bytes b)"
      by (simp only: slice_splice_above)
  next
    assume "off = 4096 \<and> other_slot off = 0"
    then have "off = 4096" and "other_slot off = 0" by blast+
    with that have "other_slot off + n \<le> off" by linarith
    with dl show "slice (other_slot off) n (splice off d (bk_bytes b)) = slice (other_slot off) n (bk_bytes b)"
      by (simp only: slice_splice_below)
  qed
  then show "m \<le> 4096 \<Longrightarrow> slice (other_slot off) m (bk_bytes b') = slice (other_slot off) m (bk_bytes b)" .
  show "read_slot P b' (other_slot off) k = read_slot P b (other_slot off) k"
    using oth[of 219] bl off' by (auto simp: read_slot_eq b' bk W(2))
  show "read_slot P b' off k = from_wire P d k" if "length d = 219"
    using slice_splice_same[OF dl] W(1) that by (simp add: read_slot_eq b' W(2,4))
  show "slice i n (bk_bytes b') = slice i n (bk_bytes b)" if "2 * BASE_BLOCK \<le> i"
    using that off' len dl unfolding W(4) by (intro slice_splice_above) (auto simp: BASE_BLOCK_def)
qed

text \<open>The committed header \<open>cur\<close> is in slot \<open>a\<close>, authenticated; the other slot is invalid or older.\<close>

definition holds :: "prims \<Rightarrow> bytes \<Rightarrow> backend \<Rightarrow> container_header \<Rightarrow> nat \<Rightarrow> bool" where
  "holds P k b cur a \<longleftrightarrow>
     room b \<and> is_slot a \<and> read_slot P b a (Some k) = Inr cur
     \<and> (\<forall>h. read_slot P b (other_slot a) None = Inr h \<longrightarrow> h_commit_seq h < h_commit_seq cur)"

lemma read_slot_keyless: "read_slot P b off (Some k) = Inr h \<Longrightarrow> read_slot P b off None = Inr h"
  by (auto simp: read_slot_def intro: from_wire_keyless)

lemma holds_pick:
  assumes "holds P k b cur a"
  shows "pick_winner (read_slot P b SLOT0_OFFSET None, read_slot P b SLOT1_OFFSET None) = Inr a"
    and "pick_inactive (read_slot P b SLOT0_OFFSET None, read_slot P b SLOT1_OFFSET None)
      = Inr (h_commit_seq cur, other_slot a)"
proof -
  from assms have a: "is_slot a" and r: "read_slot P b a None = Inr cur"
    and o: "\<And>h. read_slot P b (other_slot a) None = Inr h \<Longrightarrow> h_commit_seq h < h_commit_seq cur"
    by (auto simp: holds_def dest: read_slot_keyless)
  have "pick_winner (read_slot P b SLOT0_OFFSET None, read_slot P b SLOT1_OFFSET None) = Inr a
    \<and> pick_inactive (read_slot P b SLOT0_OFFSET None, read_slot P b SLOT1_OFFSET None)
      = Inr (h_commit_seq cur, other_slot a)"
  proof (cases "a = SLOT0_OFFSET")
    case True
    with r o show ?thesis
      by (cases "read_slot P b SLOT1_OFFSET None") (auto simp: other_slot_def dest: less_asym)
  next
    case False
    with a have "a = SLOT1_OFFSET" by (simp add: is_slot_def)
    with r o False show ?thesis
      by (cases "read_slot P b SLOT0_OFFSET None") (auto simp: other_slot_def)
  qed
  then show "pick_winner (read_slot P b SLOT0_OFFSET None, read_slot P b SLOT1_OFFSET None) = Inr a"
    and "pick_inactive (read_slot P b SLOT0_OFFSET None, read_slot P b SLOT1_OFFSET None)
      = Inr (h_commit_seq cur, other_slot a)" by simp_all
qed

lemma holds_load: "holds P k b cur a \<Longrightarrow> load P b (Some k) = Inr cur \<and> load P b None = Inr cur"
  using read_slot_keyless[of P b a k cur] by (simp add: load_def Let_def holds_pick) (simp add: holds_def)

lemma other_slot_slot: "is_slot a \<Longrightarrow> is_slot (other_slot a) \<and> other_slot (other_slot a) = a"
  by (auto simp: is_slot_def other_slot_def slot_offsets)

lemma holds_commit:
  assumes P: "prims_ok P" and h: "holds P k b cur a" and n: "header_ok nxt"
    and seq: "h_commit_seq nxt = h_commit_seq cur + 1" "h_commit_seq cur \<noteq> - 1"
  obtains b' where "commit P b nxt (Some k) = Inr b'" "holds P k b' nxt (other_slot a)" "bk_len b' = bk_len b"
    "\<And>i m. 2 * BASE_BLOCK \<le> i \<Longrightarrow> slice i m (bk_bytes b') = slice i m (bk_bytes b)"
    "\<And>m. m \<le> 4096 \<Longrightarrow> slice a m (bk_bytes b') = slice a m (bk_bytes b)"
proof -
  from h have b: "room b" and a: "is_slot a" and r: "read_slot P b a (Some k) = Inr cur"
    by (auto simp: holds_def)
  note o = other_slot_slot[OF a]
  have wl: "length (to_wire P nxt (Some k)) = 219" using to_wire_length[OF P n] by (simp add: wire_size)
  then have wl': "length (to_wire P nxt (Some k)) \<le> 4096" by simp
  from slot_write_ok[OF b conjunct1[OF o] wl'] obtain b' where
    w: "bk_write_at b (other_slot a) (to_wire P nxt (Some k)) = Inr b'" ..
  note W = slot_write[OF b conjunct1[OF o] wl' w, unfolded conjunct2[OF o]]
  have "h_commit_seq cur < h_commit_seq nxt"
    using seq inc_less_eq_self_iff_eq[of "h_commit_seq cur"] by (simp add: not_le)
  then have hn: "holds P k b' nxt (other_slot a)"
    using W(1) W(4)[OF wl, of P "Some k"] o wire_roundtrip(1)[OF P n, of k "[]"] read_slot_keyless[OF r]
    by (simp add: holds_def W(3))
  have "commit P b nxt (Some k) = Inr b'"
    using w seq by (simp add: commit_def Let_def holds_pick[OF h] write_slot_def bk_flush_def)
  from that[OF this hn W(2,5,6)] show thesis .
qed

section \<open>Containers under commits and crashes\<close>

text \<open>
  A container with its committed header. It is created by writing slot 0; then the engine commits,
  writes data above the slots, or crashes while writing the inactive slot, which leaves there
  bytes that the CRC rejects.
\<close>

inductive hdr_reach :: "prims \<Rightarrow> bytes \<Rightarrow> backend \<Rightarrow> container_header \<Rightarrow> bool" for P k where
  created: "room b \<Longrightarrow> header_ok h \<Longrightarrow> \<not> is_ok (read_slot P b SLOT1_OFFSET None) \<Longrightarrow>
    write_slot0 P h b (Some k) = Inr b' \<Longrightarrow> hdr_reach P k b' h"
| committed: "hdr_reach P k b cur \<Longrightarrow> header_ok nxt \<Longrightarrow> h_commit_seq cur \<noteq> - 1 \<Longrightarrow>
    commit P b nxt (Some k) = Inr b' \<Longrightarrow> hdr_reach P k b' nxt"
| data_written: "hdr_reach P k b cur \<Longrightarrow> 2 * BASE_BLOCK \<le> off \<Longrightarrow> bk_write_at b off d = Inr b' \<Longrightarrow>
    hdr_reach P k b' cur"
| crashed: "hdr_reach P k b cur \<Longrightarrow> pick_inactive (read_slot P b SLOT0_OFFSET None, read_slot P b SLOT1_OFFSET None) = Inr (q, off) \<Longrightarrow>
    length junk = WIRE_SIZE_V12 \<Longrightarrow> \<not> is_ok (from_wire P junk None) \<Longrightarrow> bk_write_at b off junk = Inr b' \<Longrightarrow>
    hdr_reach P k b' cur"

lemma commit_seq_checked:
  assumes "holds P k b cur a" and "commit P b nxt m = Inr b'"
  shows "h_commit_seq nxt = h_commit_seq cur + 1"
  using assms(2) by (auto simp: commit_def Let_def holds_pick[OF assms(1)] split: if_splits)

lemma hdr_reach_holds:
  assumes P: "prims_ok P"
  shows "hdr_reach P k b cur \<Longrightarrow> \<exists>a. holds P k b cur a"
proof (induction rule: hdr_reach.induct)
  case (created b h b')
  have s0: "is_slot 0" "other_slot 0 = SLOT1_OFFSET" by (simp_all add: is_slot_def other_slot_def slot_offsets)
  have wl: "length (to_wire P h (Some k)) = 219" using to_wire_length[OF P created(2)] by (simp add: wire_size)
  have "bk_write_at b 0 (to_wire P h (Some k)) = Inr b'"
    using created(4) by (simp add: write_slot0_def write_slot_def)
  note W = slot_write[OF created(1) s0(1) _ this, unfolded wl s0(2)]
  have "holds P k b' h 0"
    using W(1) W(3)[of P None] W(4)[of P "Some k"] created(3) s0 wire_roundtrip(1)[OF P created(2), of k "[]"]
    by (auto simp: holds_def is_ok_iff)
  then show ?case ..
next
  case (committed b cur nxt b')
  then obtain a where h: "holds P k b cur a" by blast
  obtain b'' where "commit P b nxt (Some k) = Inr b''" "holds P k b'' nxt (other_slot a)"
    by (rule holds_commit[OF P h committed(2) commit_seq_checked[OF h committed(4)] committed(3)])
  with committed(4) show ?case by auto
next
  case (data_written b cur off d b')
  then obtain a where h: "holds P k b cur a" by blast
  then have b: "room b" and a: "is_slot a" by (auto simp: holds_def)
  note W = bk_write_at_InrD[OF data_written(3)]
  have b': "room b'" using b W(2) bk_write_at_pres[of b off d b'] data_written(3) by (simp add: room_def)
  have "read_slot P b' s m = read_slot P b s m" if "is_slot s" for s m
  proof -
    have "slice s 219 (bk_bytes b') = slice s 219 (bk_bytes b)"
      using slot_cases[OF that] data_written(2) W b unfolding W(4)
      by (intro slice_splice_below) (auto simp: BASE_BLOCK_def room_def bk_ok_def)
    then show ?thesis
      using slot_cases[OF that] b b' W(2) by (auto simp: read_slot_eq room_def BASE_BLOCK_def)
  qed
  with h b' a other_slot_slot[OF a] show ?case by (auto simp: holds_def)
next
  case (crashed b cur q off junk b')
  then obtain a where h: "holds P k b cur a" by blast
  then have b: "room b" and a: "is_slot a" by (auto simp: holds_def)
  have off: "off = other_slot a" using crashed(2) holds_pick(2)[OF h] by simp
  note o = other_slot_slot[OF a]
  have wl: "length junk \<le> 4096" "length junk = 219" using crashed(3) by (simp_all add: wire_size)
  note W = slot_write[OF b conjunct1[OF o] wl(1) crashed(5)[unfolded off], unfolded conjunct2[OF o]]
  have "holds P k b' cur a"
    using h W(1) crashed(4) by (auto simp: holds_def W(3) W(4)[OF wl(2)] is_ok_iff)
  then show ?case ..
qed

section \<open>Properties\<close>

text \<open>A header and a container for the witnesses.\<close>

definition demo_header :: "u64 \<Rightarrow> container_header" where
  "demo_header n =
     \<lparr>h_magic = MAGIC, h_format_version = FORMAT_VERSION, h_cipher = 1, h_content_cipher = 2,
      h_params = \<lparr>cp_max_fragsize_exp = 16, cp_eviction_code = 0, cp_base_block = 4096\<rparr>,
      h_roots = \<lparr>cr_key_root = 8192, cr_id_root = 12288\<rparr>, h_writer_set = Some (replicate 16 5),
      h_commit_seq = n, h_wal_applied_seq = 0, h_wal_region_offset = 0, h_sign_mode = Signed,
      h_writer_pubkey = replicate 32 1, h_owner_pubkey = replicate 32 2, h_writer_set_epoch = 3,
      h_key_epoch = 4, h_tail_low = 65536, h_salt = replicate 16 9, h_pad_blocks = True\<rparr>"

definition demo_container :: backend where
  "demo_container = \<lparr>bk_store = MemStore (replicate 8192 0), bk_len = 8192, bk_no_grow = False\<rparr>"

lemma demo_header_ok: "header_ok (demo_header n)"
  by (simp add: header_ok_def demo_header_def)

lemma demo_room: "room demo_container"
  by (simp add: room_def demo_container_def bk_ok_def BASE_BLOCK_def)

lemma demo_slot1: "\<not> is_ok (read_slot P demo_container SLOT1_OFFSET None)"
proof -
  have "slice 8 2 (slice 4096 219 (replicate 8192 (0 :: u8))) = [0, 0]"
    by (simp add: slice_def numeral_2_eq_2)
  then show ?thesis
    using demo_room by (simp add: read_slot_eq room_def slot_offsets demo_container_def from_wire_def Let_def
        wire_size FORMAT_VERSION_def u16_from_le_def)
qed

lemma demo_created: "\<exists>b. write_slot0 toy_prims (demo_header 0) demo_container (Some k) = Inr b \<and> hdr_reach toy_prims k b (demo_header 0)"
proof -
  have "is_slot 0" by (simp add: is_slot_def slot_offsets)
  moreover have "length (to_wire toy_prims (demo_header 0) (Some k)) \<le> 4096"
    using to_wire_length[OF toy_prims_ok demo_header_ok, of 0 k] by (simp add: wire_size)
  ultimately obtain b where "write_slot0 toy_prims (demo_header 0) demo_container (Some k) = Inr b"
    using slot_write_ok[OF demo_room] by (auto simp: write_slot0_def write_slot_def)
  with created[OF demo_room demo_header_ok demo_slot1 this] show ?thesis by blast
qed

text \<open>The wire format is a round trip: a keyed header encodes to 219 bytes that decode to the same
  header with the key and without it, whatever follows them in the slot, and the salt can be
  read before the key is known.\<close>

theorem header_roundtrip:
  assumes "prims_ok P" and "header_ok h"
  shows "length (to_wire P h (Some k)) = 219
    \<and> from_wire P (to_wire P h (Some k) @ rest) (Some k) = Inr h
    \<and> from_wire P (to_wire P h (Some k) @ rest) None = Inr h
    \<and> peek_salt (to_wire P h (Some k) @ rest) = Some (h_salt h)"
proof -
  have bl: "length (serialize_body h) = 183" using serialize_body_length[OF assms(2)] by (simp add: header_sizes)
  have "peek_salt (to_wire P h (Some k) @ rest) = Some (h_salt h)"
    using body_fields(2,21)[OF assms(2) refl] bl assms(2)
    by (simp add: to_wire_Some peek_salt_def header_sizes header_ok_def)
  with assms wire_roundtrip[OF assms] to_wire_length[OF assms] show ?thesis by (simp add: wire_size)
qed

theorem header_roundtrip_witness:
  "from_wire toy_prims (to_wire toy_prims (demo_header 7) (Some [1])) (Some [1]) = Inr (demo_header 7)"
  using header_roundtrip[OF toy_prims_ok demo_header_ok, of 7 "[1]" "[]"] by simp

text \<open>C2. Crash safety: from its creation, through any sequence of commits, data writes above the slots and crashes during the write
  of the inactive slot, a container loads exactly the last committed header. A crash may leave any bytes in that slot that the decoder
  rejects, such as a write that was cut short; bytes it accepts would be a header of their own.\<close>

theorem load_last_committed:
  assumes "prims_ok P" and "hdr_reach P k b cur"
  shows "load P b (Some k) = Inr cur \<and> load P b None = Inr cur"
  using hdr_reach_holds[OF assms] holds_load by blast

theorem load_last_committed_witness:
  "\<exists>b. write_slot0 toy_prims (demo_header 0) demo_container (Some []) = Inr b
     \<and> load toy_prims b (Some []) = Inr (demo_header 0)"
  using demo_created[of "[]"] load_last_committed[OF toy_prims_ok] by blast

text \<open>C8. A commit of the next sequence number succeeds, is what the following load returns, keeps the
  length and every byte above the slots, and does not touch the slot of the header it replaces;
  any other sequence number is refused.\<close>

theorem commit_publishes:
  assumes "prims_ok P" and "hdr_reach P k b cur" and "header_ok nxt" and "h_commit_seq cur \<noteq> - 1"
  shows "if h_commit_seq nxt = h_commit_seq cur + 1
    then \<exists>b' a. commit P b nxt (Some k) = Inr b' \<and> load P b' (Some k) = Inr nxt \<and> bk_len b' = bk_len b
       \<and> (\<forall>i m. 2 * BASE_BLOCK \<le> i \<longrightarrow> slice i m (bk_bytes b') = slice i m (bk_bytes b))
       \<and> read_slot P b a (Some k) = Inr cur \<and> read_slot P b' a (Some k) = Inr cur
    else commit P b nxt (Some k) = Inl (Integrity ''commit_seq must be active_seq+1'')"
proof -
  obtain a where h: "holds P k b cur a" using hdr_reach_holds[OF assms(1,2)] by blast
  show ?thesis
  proof (cases "h_commit_seq nxt = h_commit_seq cur + 1")
    case True
    obtain b' where b': "commit P b nxt (Some k) = Inr b'" "holds P k b' nxt (other_slot a)" "bk_len b' = bk_len b"
        "\<And>i m. 2 * BASE_BLOCK \<le> i \<Longrightarrow> slice i m (bk_bytes b') = slice i m (bk_bytes b)"
        "\<And>m. m \<le> 4096 \<Longrightarrow> slice a m (bk_bytes b') = slice a m (bk_bytes b)"
      by (rule holds_commit[OF assms(1) h assms(3) True assms(4)], rule that, assumption+)
    have "room b" "room b'" "is_slot a" using h b'(2) by (auto simp: holds_def)
    then have "read_slot P b' a (Some k) = read_slot P b a (Some k)"
      using b'(3) b'(5)[of 219] slot_cases[of a] by (auto simp: read_slot_eq room_def BASE_BLOCK_def)
    with h b' True show ?thesis using holds_load[OF b'(2)] by (auto simp: holds_def)
  next
    case False
    then show ?thesis by (simp add: commit_def Let_def holds_pick[OF h])
  qed
qed

theorem commit_publishes_witness:
  "\<exists>b b'. hdr_reach toy_prims [] b (demo_header 0) \<and> commit toy_prims b (demo_header 1) (Some []) = Inr b'
     \<and> load toy_prims b' (Some []) = Inr (demo_header 1)
     \<and> commit toy_prims b (demo_header 2) (Some []) = Inl (Integrity ''commit_seq must be active_seq+1'')"
proof -
  obtain b where r: "hdr_reach toy_prims [] b (demo_header 0)" using demo_created by blast
  have s: "h_commit_seq (demo_header n) = n" for n by (simp add: demo_header_def)
  have ne: "h_commit_seq (demo_header 0) \<noteq> - 1" by (simp add: s)
  from commit_publishes[OF toy_prims_ok r demo_header_ok ne, of 1]
    commit_publishes[OF toy_prims_ok r demo_header_ok ne, of 2] r
  show ?thesis by (auto simp: s)
qed

text \<open>C9. A load never rolls back: the header it returns with a key is the newest of the slots the CRC
  accepts, and its MAC verifies. If the newest slot fails its MAC the load fails, even when the
  older slot would verify.\<close>

theorem load_newest_authentic:
  assumes "load P b (Some k) = Inr h"
  shows "\<exists>off raw. is_slot off \<and> bk_read_at b off 219 = Inr raw
    \<and> slice 187 32 raw = header_mac P k (take 183 raw) \<and> from_wire P raw None = Inr h
    \<and> (\<forall>off' h'. is_slot off' \<longrightarrow> read_slot P b off' None = Inr h' \<longrightarrow> h_commit_seq h' \<le> h_commit_seq h)"
proof -
  from assms obtain off where p: "pick_winner (read_slot P b SLOT0_OFFSET None, read_slot P b SLOT1_OFFSET None) = Inr off"
    and r: "read_slot P b off (Some k) = Inr h" by (auto simp: load_def Let_def)
  from r obtain raw where raw: "bk_read_at b off 219 = Inr raw" "from_wire P raw (Some k) = Inr h"
    by (auto simp: read_slot_def wire_size)
  note n = read_slot_keyless[OF r]
  have "is_slot off" and "\<forall>off' h'. is_slot off' \<longrightarrow> read_slot P b off' None = Inr h' \<longrightarrow> h_commit_seq h' \<le> h_commit_seq h"
    using p n by (cases "(read_slot P b SLOT0_OFFSET None, read_slot P b SLOT1_OFFSET None)" rule: pick_winner.cases;
        auto simp: is_slot_def split: if_splits)+
  with raw from_wire_keyless[OF raw(2)] from_wire_mac[OF raw(2)] show ?thesis by blast
qed

theorem load_newest_authentic_witness:
  "\<exists>b off raw. load toy_prims b (Some []) = Inr (demo_header 0) \<and> is_slot off \<and> bk_read_at b off 219 = Inr raw
    \<and> slice 187 32 raw = header_mac toy_prims [] (take 183 raw)"
proof -
  obtain b where r: "hdr_reach toy_prims [] b (demo_header 0)" using demo_created by blast
  have l: "load toy_prims b (Some []) = Inr (demo_header 0)"
    using hdr_reach_holds[OF toy_prims_ok r] holds_load by blast
  from load_newest_authentic[OF l] l show ?thesis by blast
qed

text \<open>C19. A slot write torn inside the MAC locks the container: when a crash leaves the body and the CRC of
  the new header on disk but stale bytes in part of its MAC, the CRC accepts the slot, it wins by
  sequence number, its MAC fails, and the keyed load returns an error although the previous
  header is intact in the other slot.\<close>

theorem torn_mac_locks_container:
  assumes P: "prims_ok P" and r: "hdr_reach P k b cur" and n: "header_ok nxt"
    and seq: "h_commit_seq nxt = h_commit_seq cur + 1" "h_commit_seq cur \<noteq> - 1"
    and off: "pick_inactive (read_slot P b SLOT0_OFFSET None, read_slot P b SLOT1_OFFSET None) = Inr (q, off)"
    and cut: "187 \<le> c" "c < 219"
    and w: "bk_write_at b off (take c (to_wire P nxt (Some k))) = Inr b'"
    and stale: "slice (off + c) (219 - c) (bk_bytes b) \<noteq> drop c (to_wire P nxt (Some k))"
  shows "load P b (Some k) = Inr cur \<and> load P b' (Some k) = Inl (Integrity ''header MAC mismatch'')
    \<and> load P b' None = Inr nxt"
proof -
  obtain a where h: "holds P k b cur a" using hdr_reach_holds[OF P r] by blast
  have b: "room b" and a: "is_slot a" and offa: "off = other_slot a"
    using h off holds_pick(2)[OF h] by (auto simp: holds_def)
  note o = other_slot_slot[OF a]
  let ?wire = "to_wire P nxt (Some k)" and ?body = "serialize_body nxt"
  have bl: "length ?body = 183" using serialize_body_length[OF n] by (simp add: header_sizes)
  have wl: "length ?wire = 219" using to_wire_length[OF P n] by (simp add: wire_size)
  then have tl: "length (take c ?wire) = c" "length (take c ?wire) \<le> 4096" using cut by simp_all
  note W = slot_write[OF b conjunct1[OF o] tl(2) w[unfolded offa], unfolded conjunct2[OF o]]
  have b': "bk_ok b" "bk_ok b'" "off + 219 \<le> bk_len b" "bk_len b' = bk_len b"
    using b W(1,2) slot_cases[OF conjunct1[OF o]] offa by (auto simp: room_def BASE_BLOCK_def)
  define raw where "raw = slice off 219 (bk_bytes b')"
  have raw: "raw = take c ?wire @ slice (off + c) (219 - c) (bk_bytes b)"
  proof -
    have "off + length (take c ?wire) \<le> length (bk_bytes b)" using b' tl cut by (simp add: bk_ok_def)
    note S = slice_splice_same[OF this] slice_splice_above[OF order_refl this]
    have "raw = slice off c (bk_bytes b') @ slice (off + c) (219 - c) (bk_bytes b')"
      using slice_join[of off c "bk_bytes b'" "219 - c"] cut by (simp add: raw_def)
    then show ?thesis using S tl(1) by (simp add: bk_write_at_InrD(4)[OF w])
  qed
  obtain rest where rest: "take c ?wire = ?body @ u32_to_le (p_crc32 P ?body) @ rest"
    using cut bl by (simp add: to_wire_Some[OF n])
  have rl: "length raw = 219" using b' by (simp add: raw_def bk_ok_def)
  have none: "from_wire P raw None = Inr nxt"
    using rl bl unfolding raw rest append_assoc
    by (intro from_wire_body[OF n]) (simp_all add: slice_append_skip slice_append_exact)
  have "slice 187 32 raw \<noteq> header_mac P k (take 183 raw)"
  proof
    assume e: "slice 187 32 raw = header_mac P k (take 183 raw)"
    have "take 187 raw = ?body @ u32_to_le (p_crc32 P ?body)" "take 183 raw = ?body"
      unfolding raw rest using bl by simp_all
    moreover have "raw = take 187 raw @ slice 187 32 raw" using rl by (simp add: slice_def)
    ultimately have "raw = ?wire" using e by (simp add: to_wire_Some[OF n])
    then have "drop c raw = drop c ?wire" by simp
    with stale show False unfolding raw using tl(1) by simp
  qed
  with none have some: "from_wire P raw (Some k) = Inl (Integrity ''header MAC mismatch'')"
    by (auto simp: from_wire_def Let_def header_sizes split: if_splits)
  have slots: "read_slot P b' a None = Inr cur" "read_slot P b' (other_slot a) m = from_wire P raw m" for m
    using W(3) read_slot_keyless[of P b a k cur] h b' by (auto simp: holds_def read_slot_eq offa[symmetric] raw_def)
  have "h_commit_seq cur < h_commit_seq nxt"
    using seq inc_less_eq_self_iff_eq[of "h_commit_seq cur"] by (simp add: not_le)
  then have "pick_winner (read_slot P b' SLOT0_OFFSET None, read_slot P b' SLOT1_OFFSET None) = Inr (other_slot a)"
    using slots none a by (auto simp: is_slot_def other_slot_def slot_offsets)
  then show ?thesis
    using holds_load[OF h] by (simp add: load_def Let_def slots none some)
qed

theorem torn_mac_locks_container_witness:
  "\<exists>b b'. hdr_reach toy_prims [] b (demo_header 0)
    \<and> bk_write_at b SLOT1_OFFSET (take 187 (to_wire toy_prims (demo_header 1) (Some []))) = Inr b'
    \<and> load toy_prims b (Some []) = Inr (demo_header 0)
    \<and> load toy_prims b' (Some []) = Inl (Integrity ''header MAC mismatch'')"
proof -
  let ?wire = "to_wire toy_prims (demo_header 1) (Some [])" and ?w0 = "to_wire toy_prims (demo_header 0) (Some [])"
  obtain b where c: "write_slot0 toy_prims (demo_header 0) demo_container (Some []) = Inr b"
    and r: "hdr_reach toy_prims [] b (demo_header 0)" using demo_created by blast
  have w0: "bk_write_at demo_container SLOT0_OFFSET ?w0 = Inr b"
    using c by (simp add: write_slot0_def write_slot_def slot_offsets)
  have wl: "length ?w0 = 219" "length ?wire = 219"
    using to_wire_length[OF toy_prims_ok demo_header_ok] by (simp_all add: wire_size)
  have sl: "is_slot SLOT0_OFFSET" "other_slot SLOT0_OFFSET = SLOT1_OFFSET" "is_slot SLOT1_OFFSET"
    by (simp_all add: is_slot_def other_slot_def)
  note W = slot_write[OF demo_room sl(1) _ w0, unfolded wl sl(2)]
  have b: "room b" using W(1) by simp
  have "read_slot toy_prims b SLOT0_OFFSET None = Inr (demo_header 0)"
    using W(4)[of toy_prims None] wire_roundtrip(2)[OF toy_prims_ok demo_header_ok, of 0 "[]" "[]"] by simp
  moreover have "\<not> is_ok (read_slot toy_prims b SLOT1_OFFSET None)"
    using W(3)[of toy_prims None] demo_slot1[of toy_prims] by simp
  ultimately have pick: "pick_inactive (read_slot toy_prims b SLOT0_OFFSET None, read_slot toy_prims b SLOT1_OFFSET None)
      = Inr (0, SLOT1_OFFSET)"
    by (cases "read_slot toy_prims b SLOT1_OFFSET None") (auto simp: demo_header_def)
  have "length (take 187 ?wire) \<le> 4096" using wl by simp
  from slot_write_ok[OF b sl(3) this] obtain b' where w: "bk_write_at b SLOT1_OFFSET (take 187 ?wire) = Inr b'" ..
  have stale: "slice (SLOT1_OFFSET + 187) (219 - 187) (bk_bytes b) \<noteq> drop 187 ?wire"
  proof
    assume e: "slice (SLOT1_OFFSET + 187) (219 - 187) (bk_bytes b) = drop 187 ?wire"
    have "slice (SLOT1_OFFSET + 187) 32 (bk_bytes b) = slice 187 32 (slice SLOT1_OFFSET 219 (bk_bytes b))"
      by (simp add: slice_slice)
    also have "\<dots> = replicate 32 0"
      using W(6)[of 219] by (simp add: demo_container_def slot_offsets slice_def)
    finally have z: "slice (SLOT1_OFFSET + 187) 32 (bk_bytes b) = replicate 32 0" .
    have bl: "length (serialize_body (demo_header 1)) = 183"
      using serialize_body_length[OF demo_header_ok] by (simp add: header_sizes)
    then have "drop 187 ?wire = replicate 32 1"
      by (simp add: to_wire_Some[OF demo_header_ok] header_mac_def toy_prims_def)
    with e z have "replicate 32 (0 :: u8) = replicate 32 1" by simp
    then show False by (simp add: replicate_eq_replicate)
  qed
  have "h_commit_seq (demo_header 1) = h_commit_seq (demo_header 0) + 1" "h_commit_seq (demo_header 0) \<noteq> - 1"
    by (simp_all add: demo_header_def)
  from torn_mac_locks_container[OF toy_prims_ok r demo_header_ok this pick _ _ w stale] r w show ?thesis by auto
qed

text \<open>The salt an opener reads before it has a key is the salt of the committed header: none if that
  field is all zero.\<close>

theorem peeked_salt_committed:
  assumes "prims_ok P" and "hdr_reach P k b cur"
  shows "peek_container_salt_bytes P (bk_bytes b)
    = Inr (if h_salt cur = replicate 16 0 then None else Some (h_salt cur))"
proof -
  obtain a where h: "holds P k b cur a" using hdr_reach_holds[OF assms] by blast
  then have b: "bk_ok b" "8192 \<le> bk_len b" and a: "is_slot a" and r: "read_slot P b a None = Inr cur"
    and o: "\<And>x. read_slot P b (other_slot a) None = Inr x \<Longrightarrow> h_commit_seq x < h_commit_seq cur"
    by (auto simp: holds_def room_def BASE_BLOCK_def dest: read_slot_keyless)
  have img: "peek_decode_slot P (image_slot (bk_bytes b) s) =
      (case read_slot P b s None of Inr x \<Rightarrow> Some x | Inl _ \<Rightarrow> None)" if "is_slot s" for s
  proof -
    have s: "s + 219 \<le> length (bk_bytes b)" using slot_cases[OF that] b by (auto simp: bk_ok_def)
    then have "image_slot (bk_bytes b) s = slice s 219 (bk_bytes b)"
      by (simp add: image_slot_def wire_size Let_def min_def splice_def)
    with s b show ?thesis by (simp add: peek_decode_slot_def read_slot_eq bk_ok_def)
  qed
  have "(case (peek_decode_slot P (image_slot (bk_bytes b) SLOT0_OFFSET), peek_decode_slot P (image_slot (bk_bytes b) SLOT1_OFFSET)) of
           (Some h0, Some h1) \<Rightarrow> Inr (if h_commit_seq h0 < h_commit_seq h1 then h1 else h0)
         | (Some h0, None) \<Rightarrow> Inr h0 | (None, Some h1) \<Rightarrow> Inr h1
         | (None, None) \<Rightarrow> Inl (Integrity ''no valid header slot'')) = Inr cur"
  proof (cases "a = SLOT0_OFFSET")
    case True
    with r o show ?thesis
      by (cases "read_slot P b SLOT1_OFFSET None") (auto simp: img is_slot_def other_slot_def dest: less_asym)
  next
    case False
    with a have "a = SLOT1_OFFSET" by (simp add: is_slot_def)
    with False r o show ?thesis
      by (cases "read_slot P b SLOT0_OFFSET None") (auto simp: img is_slot_def other_slot_def)
  qed
  then show ?thesis by (simp add: peek_container_salt_bytes_def Let_def)
qed

theorem peeked_salt_committed_witness:
  "\<exists>b. hdr_reach toy_prims [] b (demo_header 0)
     \<and> peek_container_salt_bytes toy_prims (bk_bytes b) = Inr (Some (replicate 16 9))"
proof -
  obtain b where r: "hdr_reach toy_prims [] b (demo_header 0)" using demo_created by blast
  have "h_salt (demo_header 0) = replicate 16 9" "replicate 16 (9 :: u8) \<noteq> replicate 16 0"
    by (simp_all add: demo_header_def replicate_eq_replicate)
  with peeked_salt_committed[OF toy_prims_ok r] r show ?thesis by (simp only: if_False) blast
qed

end
