(* ===== verification/Wal.thy ===== *)
theory Wal
  imports Backend Crypto
begin

text \<open>
  The write-ahead log, \<^verbatim>\<open>sfs-core/src/wal.rs\<close>: the record format and the scan of the log region on
  re-open. Decoding inverts encoding at any position of the region, and the scan returns exactly
  the records above the applied sequence number, in order, stopping at the first position that
  holds no complete record.
\<close>

section \<open>Records\<close>

definition WAL_MAGIC :: bytes where
  "WAL_MAGIC = [115, 102, 115, 119, 0, 114, 49, 0]"

definition WAL_RECORD_HEADER_SIZE :: nat where
  "WAL_RECORD_HEADER_SIZE = 8 + 8 + 16 + 8 + 4 + 4"

definition WAL_CRC_SIZE :: nat where
  "WAL_CRC_SIZE = 4"

definition WAL_RECORD_PREFIX_SIZE :: nat where
  "WAL_RECORD_PREFIX_SIZE = WAL_RECORD_HEADER_SIZE + WAL_CRC_SIZE"

record wal_record =
  wr_seq :: u64
  wr_uuid :: bytes
  wr_logical_offset :: u64
  wr_plaintext_len :: u32
  wr_ciphertext :: bytes

text \<open>The fixed header, the first 48 bytes.\<close>

definition wal_header :: "wal_record \<Rightarrow> bytes" where
  "wal_header r =
     WAL_MAGIC @ u64_to_le (wr_seq r) @ wr_uuid r @ u64_to_le (wr_logical_offset r)
     @ u32_to_le (wr_plaintext_len r) @ u32_to_le (word_of_nat (length (wr_ciphertext r)))"

definition encode_wal_record :: "prims \<Rightarrow> wal_record \<Rightarrow> bytes" where
  "encode_wal_record P r =
     (let out = wal_header r;
          crc = p_crc32 P (out @ wr_ciphertext r)
      in out @ u32_to_le crc @ wr_ciphertext r)"

definition decode_wal_record :: "prims \<Rightarrow> bytes \<Rightarrow> nat \<Rightarrow> (wal_record \<times> nat) option result" where
  "decode_wal_record P buf offset =
     (if length buf < offset + WAL_RECORD_HEADER_SIZE then Inr None
      else let h = slice offset WAL_RECORD_HEADER_SIZE buf in
      if take 8 h \<noteq> WAL_MAGIC then Inr None
      else let ciphertext_len = unat (u32_from_le (slice 44 4 h));
               crc_start = offset + WAL_RECORD_HEADER_SIZE;
               cipher_start = crc_start + WAL_CRC_SIZE;
               cipher_end = cipher_start + ciphertext_len in
      if 2 ^ 64 \<le> cipher_end then Inl (Integrity ''WAL record: length overflow'')
      else if length buf < cipher_end then Inl (Integrity ''WAL record: truncated (torn write at tail)'')
      else let stored_crc = u32_from_le (slice crc_start 4 buf);
               ciphertext = slice cipher_start ciphertext_len buf in
      if stored_crc \<noteq> p_crc32 P (slice offset WAL_RECORD_HEADER_SIZE buf @ ciphertext)
      then Inl (Integrity ''WAL record: CRC mismatch (torn or corrupt record)'')
      else Inr (Some (\<lparr>wr_seq = u64_from_le (slice 8 8 h), wr_uuid = slice 16 16 h,
                       wr_logical_offset = u64_from_le (slice 32 8 h),
                       wr_plaintext_len = u32_from_le (slice 40 4 h), wr_ciphertext = ciphertext\<rparr>,
                      cipher_end - offset)))"

section \<open>The scan\<close>

lemma decode_progress:
  "decode_wal_record P buf off = Inr (Some (r, n)) \<Longrightarrow> 52 \<le> n \<and> off + n \<le> length buf"
  by (auto simp: decode_wal_record_def Let_def WAL_RECORD_HEADER_SIZE_def WAL_CRC_SIZE_def split: if_splits)

function scan_loop :: "prims \<Rightarrow> bytes \<Rightarrow> u64 \<Rightarrow> nat \<Rightarrow> wal_record list" where
  "scan_loop P buf min_seq off =
     (case decode_wal_record P buf off of
        Inr (Some (rec, consumed)) \<Rightarrow>
          (if min_seq < wr_seq rec then [rec] else [])
          @ (if length buf \<le> off + consumed then [] else scan_loop P buf min_seq (off + consumed))
      | Inr None \<Rightarrow> []
      | Inl _ \<Rightarrow> [])"
  by pat_completeness auto
termination
  by (relation "measure (\<lambda>(P, buf, min_seq, off). length buf - off)") (auto dest!: decode_progress)

declare scan_loop.simps [simp del]

definition scan_wal_region :: "prims \<Rightarrow> backend \<Rightarrow> nat \<Rightarrow> nat \<Rightarrow> u64 \<Rightarrow> wal_record list result" where
  "scan_wal_region P b region_start region_size min_seq =
     (let available = bk_len b - region_start;
          to_read = min available region_size
      in if to_read = 0 then Inr []
         else bind_r (bk_read_at b region_start to_read) (\<lambda>buf. Inr (scan_loop P buf min_seq 0)))"

section \<open>Decoding inverts encoding\<close>

definition wal_ok :: "wal_record \<Rightarrow> bool" where
  "wal_ok r \<longleftrightarrow> length (wr_uuid r) = 16 \<and> length (wr_ciphertext r) < 2 ^ 32"

lemma WAL_MAGIC_length [simp]: "length WAL_MAGIC = 8"
  by (simp add: WAL_MAGIC_def)

lemma wal_header_length: "wal_ok r \<Longrightarrow> length (wal_header r) = 48"
  by (simp add: wal_header_def wal_ok_def)

lemma encode_length: "wal_ok r \<Longrightarrow> length (encode_wal_record P r) = 52 + length (wr_ciphertext r)"
  by (simp add: encode_wal_record_def Let_def wal_header_length)

lemma wal_header_fields:
  assumes "wal_ok r"
  shows "take 8 (wal_header r) = WAL_MAGIC" "u64_from_le (slice 8 8 (wal_header r)) = wr_seq r"
    "slice 16 16 (wal_header r) = wr_uuid r" "u64_from_le (slice 32 8 (wal_header r)) = wr_logical_offset r"
    "u32_from_le (slice 40 4 (wal_header r)) = wr_plaintext_len r"
    "unat (u32_from_le (slice 44 4 (wal_header r))) = length (wr_ciphertext r)"
  using assms
  by (simp_all add: wal_header_def wal_ok_def slice_append_skip slice_append_exact slice_all unat_of_nat)

lemma decode_encode:
  assumes r: "wal_ok r" and fit: "length pre + length (encode_wal_record P r) < 2 ^ 64"
  shows "decode_wal_record P (pre @ encode_wal_record P r @ rest) (length pre)
    = Inr (Some (r, length (encode_wal_record P r)))"
proof -
  let ?h = "wal_header r" and ?c = "wr_ciphertext r"
  let ?crc = "p_crc32 P (?h @ ?c)"
  let ?buf = "pre @ ?h @ u32_to_le ?crc @ ?c @ rest"
  have hl: "length ?h = 48" by (rule wal_header_length[OF r])
  have b: "pre @ encode_wal_record P r @ rest = ?buf" by (simp add: encode_wal_record_def Let_def)
  have s1: "slice (length pre) 48 ?buf = ?h" by (simp add: slice_append_skip slice_append_exact hl)
  have s2: "slice (length pre + 48) 4 ?buf = u32_to_le ?crc"
    by (simp add: slice_append_skip slice_append_exact hl)
  have s3: "slice (length pre + 52) (length ?c) ?buf = ?c"
    by (simp add: slice_append_skip slice_append_exact hl)
  have n: "length (encode_wal_record P r) = 52 + length ?c" by (rule encode_length[OF r])
  show ?thesis
    unfolding b decode_wal_record_def Let_def WAL_RECORD_HEADER_SIZE_def WAL_CRC_SIZE_def
    using s1 s2 s3 s3[unfolded add.commute[of _ 52]] hl fit n wal_header_fields[OF r] by simp
qed

lemma scan_loop_records:
  assumes "\<forall>r \<in> set rs. wal_ok r" and "length (pre @ concat (map (encode_wal_record P) rs) @ tail) < 2 ^ 64"
    and stop: "\<nexists>x. decode_wal_record P (pre @ concat (map (encode_wal_record P) rs) @ tail)
                   (length pre + length (concat (map (encode_wal_record P) rs))) = Inr (Some x)"
  shows "scan_loop P (pre @ concat (map (encode_wal_record P) rs) @ tail) m (length pre)
    = filter (\<lambda>r. m < wr_seq r) rs"
  using assms
proof (induction rs arbitrary: pre)
  case Nil
  then show ?case by (subst scan_loop.simps) (auto split: sum.splits option.splits)
next
  case (Cons r rs)
  let ?e = "encode_wal_record P r" and ?more = "concat (map (encode_wal_record P) rs)"
  have buf: "pre @ concat (map (encode_wal_record P) (r # rs)) @ tail = pre @ ?e @ ?more @ tail" by simp
  have r: "wal_ok r" using Cons.prems by simp
  have d: "decode_wal_record P (pre @ ?e @ ?more @ tail) (length pre) = Inr (Some (r, length ?e))"
    using decode_encode[OF r, of pre P "?more @ tail"] Cons.prems by simp
  have IH: "scan_loop P (pre @ ?e @ ?more @ tail) m (length pre + length ?e) = filter (\<lambda>r. m < wr_seq r) rs"
    using Cons.IH[of "pre @ ?e"] Cons.prems by (simp add: add.assoc)
  have "rs = [] \<or> length (pre @ ?e) < length (pre @ ?e @ ?more @ tail)"
    using Cons.prems(1) encode_length[of "hd rs" P] by (cases rs) auto
  then show ?case
    unfolding buf by (subst scan_loop.simps) (auto simp: d IH)
qed

section \<open>Where a log ends\<close>

text \<open>A position that does not start with the magic, or a record cut off by the end of the region,
  ends the scan.\<close>

lemma no_magic_stops:
  "slice off 8 buf \<noteq> WAL_MAGIC \<Longrightarrow> \<nexists>x. decode_wal_record P buf off = Inr (Some x)"
  by (auto simp: decode_wal_record_def Let_def slice_def WAL_RECORD_HEADER_SIZE_def min_def split: if_splits)

lemma cut_record_stops:
  assumes r: "wal_ok r" and n: "n < length (encode_wal_record P r)"
  shows "\<nexists>x. decode_wal_record P (pre @ take n (encode_wal_record P r)) (length pre) = Inr (Some x)"
proof (cases "n < 48")
  case True
  then have "length (pre @ take n (encode_wal_record P r)) < length pre + 48" by simp
  then show ?thesis by (simp add: decode_wal_record_def WAL_RECORD_HEADER_SIZE_def)
next
  case False
  let ?buf = "pre @ take n (encode_wal_record P r)"
  have hl: "length (wal_header r) = 48" by (rule wal_header_length[OF r])
  have h: "slice (length pre) 48 ?buf = wal_header r"
    using False hl by (simp add: slice_append_skip slice_def encode_wal_record_def Let_def)
  have bl: "length ?buf < length pre + 52 + length (wr_ciphertext r)"
    using n by (simp add: encode_length[OF r])
  show ?thesis
    unfolding decode_wal_record_def Let_def WAL_RECORD_HEADER_SIZE_def WAL_CRC_SIZE_def
    using h bl wal_header_fields(6)[OF r] by simp
qed

section \<open>Properties\<close>

definition demo_wal :: "u64 \<Rightarrow> wal_record" where
  "demo_wal n =
     \<lparr>wr_seq = n, wr_uuid = replicate 16 3, wr_logical_offset = 4096, wr_plaintext_len = 2,
      wr_ciphertext = [1, 2, 3]\<rparr>"

lemma demo_wal_ok: "wal_ok (demo_wal n)"
  by (simp add: wal_ok_def demo_wal_def)

text \<open>A record survives the log byte for byte: it decodes at whatever position it was written, with
  anything before and after it, and the decoder reports exactly its length.\<close>

theorem wal_record_roundtrip:
  assumes "wal_ok r" and "length pre + length (encode_wal_record P r) < 2 ^ 64"
  shows "decode_wal_record P (pre @ encode_wal_record P r @ rest) (length pre)
    = Inr (Some (r, length (encode_wal_record P r)))
    \<and> length (encode_wal_record P r) = WAL_RECORD_PREFIX_SIZE + length (wr_ciphertext r)"
  using decode_encode[OF assms] encode_length[OF assms(1)]
  by (simp add: WAL_RECORD_PREFIX_SIZE_def WAL_RECORD_HEADER_SIZE_def WAL_CRC_SIZE_def)

theorem wal_record_roundtrip_witness:
  "decode_wal_record toy_prims ([7, 7] @ encode_wal_record toy_prims (demo_wal 9) @ [0]) 2 = Inr (Some (demo_wal 9, 55))"
proof -
  have l: "length (encode_wal_record toy_prims (demo_wal 9)) = 55"
    using encode_length[OF demo_wal_ok, of toy_prims 9] by (simp add: demo_wal_def)
  have p: "length [7, 7 :: u8] = 2" by simp
  from l show ?thesis
    using wal_record_roundtrip[OF demo_wal_ok, of "[7, 7]" toy_prims 9 "[0]", unfolded p] by simp
qed

text \<open>C11. Recovery replays exactly what was logged: if the log region holds the encodings of \<open>rs\<close> followed
  by bytes that hold no complete record (zeros, a record cut off by the end of the region, or
  one the CRC rejects), the scan returns the records of \<open>rs\<close> above the applied sequence number,
  in order, and nothing else.\<close>

theorem wal_scan_exact:
  assumes "bk_ok b" and "\<forall>r \<in> set rs. wal_ok r" and "start \<le> bk_len b"
    and region: "slice start (min (bk_len b - start) size') (bk_bytes b) = concat (map (encode_wal_record P) rs) @ tail"
    and stop: "\<nexists>x. decode_wal_record P (concat (map (encode_wal_record P) rs) @ tail)
                   (length (concat (map (encode_wal_record P) rs))) = Inr (Some x)"
  shows "scan_wal_region P b start size' min_seq = Inr (filter (\<lambda>r. min_seq < wr_seq r) rs)"
proof -
  let ?n = "min (bk_len b - start) size'" and ?log = "concat (map (encode_wal_record P) rs)"
  have len: "length (?log @ tail) = ?n" using region[symmetric] assms(1,3) by (simp add: bk_ok_def)
  show ?thesis
  proof (cases "?n = 0")
    case True
    with len have "?log = []" by simp
    then have "rs = []" using assms(2) encode_length[of "hd rs" P] by (cases rs) auto
    with True show ?thesis by (simp add: scan_wal_region_def Let_def)
  next
    case False
    have "bk_read_at b start ?n = Inr (?log @ tail)"
      using bk_read_at_ok[OF assms(1), of start ?n] assms(3) region by simp
    moreover have "length ([] @ ?log @ tail) < 2 ^ 64" using len assms(1) unfolding bk_ok_def append_Nil by linarith
    then have "scan_loop P (?log @ tail) min_seq 0 = filter (\<lambda>r. min_seq < wr_seq r) rs"
      using scan_loop_records[OF assms(2), of "[]" P tail min_seq] stop by simp
    ultimately show ?thesis unfolding scan_wal_region_def Let_def if_not_P[OF False] by simp
  qed
qed

theorem wal_scan_exact_witness:
  "\<exists>b. bk_ok b \<and> scan_wal_region toy_prims b 0 8192 4 = Inr [demo_wal 5]"
proof -
  let ?log = "concat (map (encode_wal_record toy_prims) [demo_wal 4, demo_wal 5])"
  let ?b = "\<lparr>bk_store = MemStore (?log @ replicate 50 0), bk_len = 160, bk_no_grow = True\<rparr>"
  have l: "length (encode_wal_record toy_prims (demo_wal n)) = 55" for n
    using encode_length[OF demo_wal_ok, of toy_prims n] by (simp add: demo_wal_def)
  then have ll: "length ?log = 110" by simp
  have ok: "bk_ok ?b" using ll by (simp add: bk_ok_def l)
  have "slice 110 8 (?log @ replicate 50 0) = slice 0 8 (replicate 50 0)"
    using slice_append_skip[of ?log 110 8 "replicate 50 0"] ll by simp
  also have "\<dots> = replicate 8 0" by (simp add: slice_def)
  also have "\<dots> \<noteq> WAL_MAGIC"
  proof
    assume "replicate 8 0 = WAL_MAGIC"
    then have "hd (replicate 8 0) = hd WAL_MAGIC" by (rule arg_cong)
    then show False by (simp add: WAL_MAGIC_def)
  qed
  finally have "slice 110 8 (?log @ replicate 50 0) \<noteq> WAL_MAGIC" .
  then have stop: "\<nexists>x. decode_wal_record toy_prims (?log @ replicate 50 0) (length ?log) = Inr (Some x)"
    using no_magic_stops[of 110] ll by simp
  have reg: "slice 0 (min (bk_len ?b - 0) 8192) (bk_bytes ?b) = ?log @ replicate 50 0"
    using l by (simp add: slice_def)
  from wal_scan_exact[OF ok _ _ reg stop, of 4] ok show ?thesis
    by (intro exI[of _ ?b]) (simp add: demo_wal_ok, simp add: demo_wal_def)
qed

end
