(* ===== verification/Commit_Record.thy ===== *)
theory Commit_Record
  imports Crypto
begin

text \<open>
  Commit records, \<^verbatim>\<open>sfs-core/src/commit.rs\<close>: a named snapshot of a set of units with its encoding. A
  string is its UTF-8 bytes, and \<open>utf8_valid\<close> is the check of \<^verbatim>\<open>String::from_utf8\<close>. Decoding inverts
  encoding, and a decoded record is always well formed.
\<close>

section \<open>UTF-8\<close>

definition in_rng :: "u8 \<Rightarrow> u8 \<Rightarrow> u8 \<Rightarrow> bool" where
  "in_rng lo hi b = (lo \<le> b \<and> b \<le> hi)"

abbreviation cont :: "u8 \<Rightarrow> bool" where
  "cont b \<equiv> in_rng 0x80 0xBF b"

text \<open>Well-formed UTF-8: no overlong forms, no surrogates, nothing above U+10FFFF.\<close>

fun utf8_valid :: "bytes \<Rightarrow> bool" where
  "utf8_valid [] = True"
| "utf8_valid (a # r) =
     (if a < 0x80 then utf8_valid r
      else if in_rng 0xC2 0xDF a then (case r of b # r1 \<Rightarrow> cont b \<and> utf8_valid r1 | _ \<Rightarrow> False)
      else if in_rng 0xE0 0xEF a then
        (case r of b # c # r1 \<Rightarrow>
           (if a = 0xE0 then in_rng 0xA0 0xBF b else if a = 0xED then in_rng 0x80 0x9F b else cont b)
           \<and> cont c \<and> utf8_valid r1 | _ \<Rightarrow> False)
      else if in_rng 0xF0 0xF4 a then
        (case r of b # c # d # r1 \<Rightarrow>
           (if a = 0xF0 then in_rng 0x90 0xBF b else if a = 0xF4 then in_rng 0x80 0x8F b else cont b)
           \<and> cont c \<and> cont d \<and> utf8_valid r1 | _ \<Rightarrow> False)
      else False)"

section \<open>Records\<close>

definition COMMIT_MAGIC :: bytes where
  "COMMIT_MAGIC = [115, 102, 115, 99, 0, 99, 49, 0]"

record commit_rec =
  cm_title :: bytes
  cm_message :: bytes
  cm_commitish :: bytes
  cm_parents :: "bytes list"
  cm_entries :: "(bytes \<times> u64 \<times> u64) list"

definition cm_read_u32_le :: "bytes \<Rightarrow> nat \<Rightarrow> u32 result" where
  "cm_read_u32_le buf off =
     (case get_range buf off 4 of
        Some bs \<Rightarrow> Inr (u32_from_le bs)
      | None \<Rightarrow> Inl (Integrity ''Commit decode: buffer too short (need u32)''))"

definition cm_read_u64_le :: "bytes \<Rightarrow> nat \<Rightarrow> u64 result" where
  "cm_read_u64_le buf off =
     (case get_range buf off 8 of
        Some bs \<Rightarrow> Inr (u64_from_le bs)
      | None \<Rightarrow> Inl (Integrity ''Commit decode: buffer too short (need u64)''))"

definition cm_read_uuid :: "bytes \<Rightarrow> nat \<Rightarrow> bytes result" where
  "cm_read_uuid buf off =
     (case get_range buf off 16 of
        Some bs \<Rightarrow> Inr bs
      | None \<Rightarrow> Inl (Integrity ''Commit decode: buffer too short (need 16 bytes for UUID)''))"

definition entry_bytes :: "bytes \<times> u64 \<times> u64 \<Rightarrow> bytes" where
  "entry_bytes e = (case e of (uuid, content_ver, meta_ver) \<Rightarrow> uuid @ u64_to_le content_ver @ u64_to_le meta_ver)"

definition cm_encode :: "prims \<Rightarrow> commit_rec \<Rightarrow> bytes" where
  "cm_encode P c =
     (let buf =
        COMMIT_MAGIC @ cm_commitish c
        @ u32_to_le (word_of_nat (length (cm_title c))) @ cm_title c
        @ u32_to_le (word_of_nat (length (cm_message c))) @ cm_message c
        @ u32_to_le (word_of_nat (length (cm_parents c))) @ concat (cm_parents c)
        @ u32_to_le (word_of_nat (length (cm_entries c))) @ concat (map entry_bytes (cm_entries c))
      in buf @ u32_to_le (p_crc32 P buf))"

text \<open>A length-prefixed string: the bytes and the offset behind them.\<close>

definition cm_read_string :: "bytes \<Rightarrow> nat \<Rightarrow> (bytes \<times> nat) result" where
  "cm_read_string buf off =
     bind_r (cm_read_u32_le buf off) (\<lambda>n.
       case get_range buf (off + 4) (unat n) of
         None \<Rightarrow> Inl (Integrity ''Commit decode: buffer too short for string'')
       | Some bs \<Rightarrow>
           if utf8_valid bs then Inr (bs, off + 4 + unat n)
           else Inl (Integrity ''Commit decode: not valid UTF-8''))"

fun cm_read_parents :: "bytes \<Rightarrow> nat \<Rightarrow> nat \<Rightarrow> (bytes list \<times> nat) result" where
  "cm_read_parents buf off 0 = Inr ([], off)"
| "cm_read_parents buf off (Suc n) =
     bind_r (cm_read_uuid buf off) (\<lambda>u.
     bind_r (cm_read_parents buf (off + 16) n) (\<lambda>(us, off'). Inr (u # us, off')))"

fun cm_read_entries :: "bytes \<Rightarrow> nat \<Rightarrow> nat \<Rightarrow> (bytes \<times> u64 \<times> u64) list result" where
  "cm_read_entries buf off 0 = Inr []"
| "cm_read_entries buf off (Suc n) =
     bind_r (cm_read_uuid buf off) (\<lambda>u.
     bind_r (cm_read_u64_le buf (off + 16)) (\<lambda>cv.
     bind_r (cm_read_u64_le buf (off + 24)) (\<lambda>mv.
     bind_r (cm_read_entries buf (off + 32) n) (\<lambda>es. Inr ((u, cv, mv) # es)))))"

definition cm_decode :: "prims \<Rightarrow> bytes \<Rightarrow> commit_rec result" where
  "cm_decode P buf =
     (if length buf < 44 then Inl (Integrity ''Commit decode: buffer too short'')
      else if take 8 buf \<noteq> COMMIT_MAGIC then Inl (Integrity ''Commit decode: bad magic'')
      else let body_end = length buf - 4 in
      bind_r (cm_read_u32_le buf body_end) (\<lambda>stored_crc.
      if stored_crc \<noteq> p_crc32 P (take body_end buf) then Inl (Integrity ''Commit decode: CRC mismatch'')
      else
      bind_r (cm_read_uuid buf 8) (\<lambda>commitish.
      bind_r (cm_read_string buf 24) (\<lambda>(title, off1).
      bind_r (cm_read_string buf off1) (\<lambda>(message, off2).
      bind_r (cm_read_u32_le buf off2) (\<lambda>parents_len.
      if (length buf - (off2 + 4)) div 16 < unat parents_len
      then Inl (Integrity ''Commit decode: parents_len exceeds buffer'')
      else
      bind_r (cm_read_parents buf (off2 + 4) (unat parents_len)) (\<lambda>(parents, off3).
      bind_r (cm_read_u32_le buf off3) (\<lambda>entries_len.
      if (length buf - (off3 + 4)) div 32 < unat entries_len
      then Inl (Integrity ''Commit decode: entries_len exceeds buffer'')
      else
      bind_r (cm_read_entries buf (off3 + 4) (unat entries_len)) (\<lambda>entries.
      Inr \<lparr>cm_title = title, cm_message = message, cm_commitish = commitish, cm_parents = parents,
           cm_entries = entries\<rparr>)))))))))"

section \<open>Reading back what was written\<close>

definition commit_ok :: "commit_rec \<Rightarrow> bool" where
  "commit_ok c \<longleftrightarrow>
     utf8_valid (cm_title c) \<and> utf8_valid (cm_message c) \<and> length (cm_commitish c) = 16
     \<and> length (cm_title c) < 2 ^ 32 \<and> length (cm_message c) < 2 ^ 32
     \<and> length (cm_parents c) < 2 ^ 32 \<and> (\<forall>p \<in> set (cm_parents c). length p = 16)
     \<and> length (cm_entries c) < 2 ^ 32 \<and> (\<forall>e \<in> set (cm_entries c). length (fst e) = 16)"

lemma get_range_mid: "n = length xs \<Longrightarrow> get_range (pre @ xs @ rest) (length pre) n = Some xs"
  by (simp add: get_range_def slice_append_skip slice_append_exact)

lemma read_u32_mid: "cm_read_u32_le (pre @ u32_to_le w @ rest) (length pre) = Inr w"
  by (simp add: cm_read_u32_le_def get_range_mid)

lemma read_u64_mid: "cm_read_u64_le (pre @ u64_to_le w @ rest) (length pre) = Inr w"
  by (simp add: cm_read_u64_le_def get_range_mid)

lemma read_uuid_mid: "length u = 16 \<Longrightarrow> cm_read_uuid (pre @ u @ rest) (length pre) = Inr u"
  by (simp add: cm_read_uuid_def get_range_mid)

lemma read_string_mid:
  assumes "length s < 2 ^ 32" and "utf8_valid s"
  shows "cm_read_string (pre @ u32_to_le (word_of_nat (length s)) @ s @ rest) (length pre)
    = Inr (s, length pre + 4 + length s)"
proof -
  have n: "unat (word_of_nat (length s) :: u32) = length s" using assms(1) by (simp add: unat_of_nat)
  have "get_range ((pre @ u32_to_le (word_of_nat (length s))) @ s @ rest)
      (length (pre @ u32_to_le (word_of_nat (length s)))) (length s) = Some s"
    by (rule get_range_mid) simp
  then show ?thesis
    using read_u32_mid[of pre "word_of_nat (length s)" "s @ rest"] assms(2) n by (simp add: cm_read_string_def)
qed

lemma read_parents_mid:
  "\<forall>p \<in> set ps. length p = 16 \<Longrightarrow>
   cm_read_parents (pre @ concat ps @ rest) (length pre) (length ps) = Inr (ps, length pre + 16 * length ps)"
proof (induction ps arbitrary: pre)
  case Nil
  then show ?case by simp
next
  case (Cons p ps)
  then have p: "length p = 16" by simp
  have "cm_read_parents ((pre @ p) @ concat ps @ rest) (length (pre @ p)) (length ps)
      = Inr (ps, length (pre @ p) + 16 * length ps)" using Cons.prems by (intro Cons.IH) simp
  with read_uuid_mid[OF p, of pre "concat ps @ rest"] p show ?case by (simp add: add.assoc)
qed

lemma read_entries_mid:
  "\<forall>e \<in> set es. length (fst e) = 16 \<Longrightarrow>
   cm_read_entries (pre @ concat (map entry_bytes es) @ rest) (length pre) (length es) = Inr es"
proof (induction es arbitrary: pre)
  case Nil
  then show ?case by simp
next
  case (Cons e es)
  obtain u cv mv where e: "e = (u, cv, mv)" by (cases e)
  then have u: "length u = 16" using Cons.prems by simp
  let ?rest = "concat (map entry_bytes es) @ rest"
  have r1: "cm_read_uuid (pre @ u @ u64_to_le cv @ u64_to_le mv @ ?rest) (length pre) = Inr u"
    by (rule read_uuid_mid[OF u])
  have r2: "cm_read_u64_le (pre @ u @ u64_to_le cv @ u64_to_le mv @ ?rest) (length pre + 16) = Inr cv"
    using read_u64_mid[of "pre @ u" cv "u64_to_le mv @ ?rest"] u by simp
  have r3: "cm_read_u64_le (pre @ u @ u64_to_le cv @ u64_to_le mv @ ?rest) (length pre + 24) = Inr mv"
    using read_u64_mid[of "pre @ u @ u64_to_le cv" mv ?rest] u by simp
  have r4: "cm_read_entries (pre @ u @ u64_to_le cv @ u64_to_le mv @ ?rest) (length pre + 32) (length es) = Inr es"
    using Cons.IH[of "pre @ u @ u64_to_le cv @ u64_to_le mv"] Cons.prems u by simp
  have "entry_bytes e = u @ u64_to_le cv @ u64_to_le mv" by (simp add: e entry_bytes_def)
  then show ?case using r1 r2 r3 r4 by (simp add: e)
qed

lemma length_concat_entries: "\<forall>e \<in> set es. length (fst e) = 16 \<Longrightarrow> length (concat (map entry_bytes es)) = 32 * length es"
  by (rule length_concat_fixed) (auto simp: entry_bytes_def)

lemma length_concat_parents: "\<forall>p \<in> set ps. length p = 16 \<Longrightarrow> length (concat ps) = 16 * length ps"
  using length_concat_fixed[of ps "\<lambda>p. p" 16] by simp

lemma decode_encoded:
  assumes c: "commit_ok c"
  shows "cm_decode P (cm_encode P c) = Inr c"
proof -
  let ?n = "\<lambda>xs. u32_to_le (word_of_nat (length xs))"
  define s1 where "s1 = COMMIT_MAGIC @ cm_commitish c"
  define s2 where "s2 = s1 @ ?n (cm_title c) @ cm_title c"
  define s3 where "s3 = s2 @ ?n (cm_message c) @ cm_message c"
  define s4 where "s4 = s3 @ ?n (cm_parents c)"
  define s5 where "s5 = s4 @ concat (cm_parents c)"
  define s6 where "s6 = s5 @ ?n (cm_entries c)"
  define body where "body = s6 @ concat (map entry_bytes (cm_entries c))"
  let ?crc = "u32_to_le (p_crc32 P body)"
  have enc: "cm_encode P c = body @ ?crc"
    by (simp add: cm_encode_def Let_def body_def s1_def s2_def s3_def s4_def s5_def s6_def)
  have ok: "length (cm_commitish c) = 16" "\<forall>p \<in> set (cm_parents c). length p = 16"
    "\<forall>e \<in> set (cm_entries c). length (fst e) = 16" using c by (auto simp: commit_ok_def)
  have n: "unat (word_of_nat (length (cm_parents c)) :: u32) = length (cm_parents c)"
    "unat (word_of_nat (length (cm_entries c)) :: u32) = length (cm_entries c)"
    using c by (simp_all add: commit_ok_def unat_of_nat)
  have m: "length COMMIT_MAGIC = 8" by (simp add: COMMIT_MAGIC_def)
  have l: "length s1 = 24" "length s4 = length s3 + 4" "length s5 = length s4 + 16 * length (cm_parents c)"
    "length s6 = length s5 + 4" "length s2 = 28 + length (cm_title c)"
    "length s3 = length s2 + 4 + length (cm_message c)" "length body = length s6 + 32 * length (cm_entries c)"
    using ok m by (simp_all add: s1_def s2_def s3_def s4_def s5_def s6_def body_def length_concat_parents length_concat_entries)
  have r0: "cm_read_u32_le (body @ ?crc) (length (body @ ?crc) - 4) = Inr (p_crc32 P body)"
    using read_u32_mid[of body _ "[]"] by simp
  have r1: "cm_read_uuid (body @ ?crc) 8 = Inr (cm_commitish c)"
    using read_uuid_mid[OF ok(1), of COMMIT_MAGIC] m by (simp add: body_def s1_def s2_def s3_def s4_def s5_def s6_def)
  have r2: "cm_read_string (body @ ?crc) 24 = Inr (cm_title c, length s2)"
    using read_string_mid[of "cm_title c" s1] c l by (simp add: commit_ok_def body_def s2_def s3_def s4_def s5_def s6_def)
  have r3: "cm_read_string (body @ ?crc) (length s2) = Inr (cm_message c, length s3)"
    using read_string_mid[of "cm_message c" s2] c l by (simp add: commit_ok_def body_def s3_def s4_def s5_def s6_def)
  have r4: "cm_read_u32_le (body @ ?crc) (length s3) = Inr (word_of_nat (length (cm_parents c)))"
    using read_u32_mid[of s3] by (simp add: body_def s4_def s5_def s6_def)
  have r5: "cm_read_parents (body @ ?crc) (length s3 + 4) (length (cm_parents c)) = Inr (cm_parents c, length s5)"
    using read_parents_mid[OF ok(2), of s4] l by (simp add: body_def s5_def s6_def)
  have r6: "cm_read_u32_le (body @ ?crc) (length s5) = Inr (word_of_nat (length (cm_entries c)))"
    using read_u32_mid[of s5] by (simp add: body_def s6_def)
  have r7: "cm_read_entries (body @ ?crc) (length s5 + 4) (length (cm_entries c)) = Inr (cm_entries c)"
    using read_entries_mid[OF ok(3), of s6 ?crc] l by (simp add: body_def)
  have t: "take 8 (body @ ?crc) = COMMIT_MAGIC" "44 \<le> length (body @ ?crc)"
    using m l by (simp_all add: body_def s1_def s2_def s3_def s4_def s5_def s6_def)
  have b1: "\<not> (length (body @ ?crc) - (length s3 + 4)) div 16 < length (cm_parents c)"
    and b2: "\<not> (length (body @ ?crc) - (length s5 + 4)) div 32 < length (cm_entries c)"
    using l by (simp_all add: not_less less_eq_div_iff_mult_less_eq)
  show ?thesis
    unfolding enc cm_decode_def Let_def
    using t r0 r1 r2 r3 r4 r5 r6 r7 n b1 b2 by simp
qed

lemma unat_u32_less: "unat (w :: u32) < 2 ^ 32"
  using unat_lt2p[of w] by simp

lemma get_range_length: "get_range buf off n = Some bs \<Longrightarrow> length bs = n"
  by (auto simp: get_range_def split: if_splits)

lemma read_string_ok: "cm_read_string buf off = Inr (s, off') \<Longrightarrow> utf8_valid s \<and> length s < 2 ^ 32"
  using unat_u32_less by (auto simp: cm_read_string_def dest!: get_range_length split: option.splits if_splits)

lemma read_uuid_ok: "cm_read_uuid buf off = Inr u \<Longrightarrow> length u = 16"
  by (auto simp: cm_read_uuid_def dest: get_range_length split: option.splits)

lemma read_parents_ok: "cm_read_parents buf off n = Inr (ps, off') \<Longrightarrow> length ps = n \<and> (\<forall>p \<in> set ps. length p = 16)"
  by (induction n arbitrary: off ps) (auto dest!: read_uuid_ok)

lemma read_entries_ok: "cm_read_entries buf off n = Inr es \<Longrightarrow> length es = n \<and> list_all (\<lambda>e. length (fst e) = 16) es"
  by (induction n arbitrary: off es) (auto dest!: read_uuid_ok)

lemma decoded_ok: "cm_decode P buf = Inr c \<Longrightarrow> commit_ok c"
  using unat_u32_less
  by (auto simp: cm_decode_def Let_def commit_ok_def list_all_iff[symmetric] split: if_splits
      dest!: read_string_ok read_uuid_ok read_parents_ok read_entries_ok)

section \<open>Properties\<close>

text \<open>A commit record is read back as it was written, for every title and message, any number of
  parents and any number of entries that fit the 32-bit counts. Whatever the decoder accepts is a
  well-formed record: valid strings, sixteen-byte identifiers.\<close>

theorem commit_record_roundtrip:
  "(commit_ok c \<longrightarrow> cm_decode P (cm_encode P c) = Inr c) \<and> (cm_decode P buf = Inr c' \<longrightarrow> commit_ok c')"
  using decode_encoded decoded_ok by blast

theorem commit_record_roundtrip_witness:
  "cm_decode toy_prims (cm_encode toy_prims
     \<lparr>cm_title = [72, 105], cm_message = [0xC3, 0xA9], cm_commitish = replicate 16 1,
      cm_parents = [replicate 16 2], cm_entries = [(replicate 16 3, 4, 5)]\<rparr>)
   = Inr \<lparr>cm_title = [72, 105], cm_message = [0xC3, 0xA9], cm_commitish = replicate 16 1,
      cm_parents = [replicate 16 2], cm_entries = [(replicate 16 3, 4, 5)]\<rparr>"
  using commit_record_roundtrip[of "\<lparr>cm_title = [72, 105], cm_message = [0xC3, 0xA9], cm_commitish = replicate 16 1,
      cm_parents = [replicate 16 2], cm_entries = [(replicate 16 3, 4, 5)]\<rparr>" toy_prims]
  by (simp add: commit_ok_def in_rng_def)

end
