(* ===== verification/Trie_Node.thy ===== *)
theory Trie_Node
  imports Allocator Crypto
begin

text \<open>
  The node blocks of the catalog trie, the lower half of \<^verbatim>\<open>sfs-core/src/catalog/trie.rs\<close>. A node is stored
  twice, in a primary block and in a backup block right behind it. Without encryption a block carries
  a CRC; with AES-256-GCM its payload is sealed under the metadata key with a fresh nonce and bound to
  its address and kind. A reader falls back to the backup when the primary does not validate.
  Operations that write pass the state \<open>tstate\<close> along: the backend, the allocator, and the bytes the
  operating system's random source will return (\<^verbatim>\<open>getrandom::fill\<close> panics when it has none).
  Assertions of the source, \<^verbatim>\<open>debug_assert!\<close> included, are panics of the model.
\<close>

section \<open>Layout\<close>

definition NODE_MAGIC :: bytes where "NODE_MAGIC = ascii ''SFTr''"
definition OFF_KIND :: nat where "OFF_KIND = 4"
definition OFF_CRC :: nat where "OFF_CRC = 8"
definition OFF_PAYLOAD :: nat where "OFF_PAYLOAD = 12"
definition OFF_CT_LEN_GCM :: nat where "OFF_CT_LEN_GCM = 5"
definition OFF_NONCE_GCM :: nat where "OFF_NONCE_GCM = 8"
definition NONCE_SIZE :: nat where "NONCE_SIZE = 12"
definition OFF_PAYLOAD_GCM :: nat where "OFF_PAYLOAD_GCM = 20"
definition GCM_OVERHEAD :: nat where "GCM_OVERHEAD = 28"
definition KIND_INTERNAL :: u8 where "KIND_INTERNAL = 0"
definition KIND_LEAF :: u8 where "KIND_LEAF = 1"
definition N_SLOTS :: nat where "N_SLOTS = 256"
definition SLOTS_SIZE :: nat where "SLOTS_SIZE = N_SLOTS * 8"
definition MAX_VAL_LEN :: nat where "MAX_VAL_LEN = 16"
definition INTERNAL_TERM_SIZE :: nat where "INTERNAL_TERM_SIZE = 2 + MAX_VAL_LEN"
definition INTERNAL_PAYLOAD_SIZE :: nat where "INTERNAL_PAYLOAD_SIZE = INTERNAL_TERM_SIZE + SLOTS_SIZE"
definition LEAF_HEADER_SIZE :: nat where "LEAF_HEADER_SIZE = 3"
definition NODE_BLOCK_SIZE :: nat where "NODE_BLOCK_SIZE = BASE_BLOCK"
definition PAYLOAD_CAP :: nat where "PAYLOAD_CAP = NODE_BLOCK_SIZE - OFF_PAYLOAD"
definition PAYLOAD_CAP_GCM :: nat where "PAYLOAD_CAP_GCM = PAYLOAD_CAP - GCM_OVERHEAD"
definition MAX_KEY_LEN :: nat where "MAX_KEY_LEN = PAYLOAD_CAP_GCM - LEAF_HEADER_SIZE - MAX_VAL_LEN"
definition TRIE_MAX_DEPTH :: nat where "TRIE_MAX_DEPTH = MAX_KEY_LEN + 64"
definition TRIE_NODE_BUDGET :: nat where "TRIE_NODE_BUDGET = 2 ^ 20"
definition NODE_ALLOC_SIZE :: u32 where "NODE_ALLOC_SIZE = 2 * of_nat BASE_BLOCK"

lemmas node_layout = OFF_KIND_def OFF_CRC_def OFF_PAYLOAD_def OFF_CT_LEN_GCM_def OFF_NONCE_GCM_def
  NONCE_SIZE_def OFF_PAYLOAD_GCM_def GCM_OVERHEAD_def N_SLOTS_def SLOTS_SIZE_def MAX_VAL_LEN_def
  INTERNAL_TERM_SIZE_def INTERNAL_PAYLOAD_SIZE_def LEAF_HEADER_SIZE_def NODE_BLOCK_SIZE_def
  PAYLOAD_CAP_def PAYLOAD_CAP_GCM_def MAX_KEY_LEN_def BASE_BLOCK_def

record node_crypto =
  nc_meta_key :: bytes
  nc_cipher :: cipher_suite_id

definition node_crypto_new :: "prims \<Rightarrow> cipher_suite_id \<Rightarrow> bytes \<Rightarrow> node_crypto" where
  "node_crypto_new P cipher container_key =
     \<lparr>nc_meta_key = derive_meta_key P container_key, nc_cipher = cipher\<rparr>"

record tstate =
  ts_b :: backend
  ts_a :: allocator
  ts_ent :: bytes

definition fill_random :: "nat \<Rightarrow> tstate \<Rightarrow> bytes result \<times> tstate" where
  "fill_random n s =
     (if length (ts_ent s) < n then (Inl (Panic ''OS entropy unavailable''), s)
      else (Inr (take n (ts_ent s)), s\<lparr>ts_ent := drop n (ts_ent s)\<rparr>))"

definition ts_write_at :: "nat \<Rightarrow> bytes \<Rightarrow> tstate \<Rightarrow> unit result \<times> tstate" where
  "ts_write_at addr block s =
     (case bk_write_at (ts_b s) addr block of
        Inl e \<Rightarrow> (Inl e, s)
      | Inr b \<Rightarrow> (Inr (), s\<lparr>ts_b := b\<rparr>))"

definition ts_flush :: "tstate \<Rightarrow> unit result \<times> tstate" where
  "ts_flush s = (bk_flush (ts_b s), s)"

section \<open>Writing a node\<close>

definition node_aad :: "nat \<Rightarrow> u8 \<Rightarrow> bytes" where
  "node_aad addr kind = u64_to_le (of_nat addr) @ [kind]"

definition node_crc :: "prims \<Rightarrow> bytes \<Rightarrow> u32" where
  "node_crc P block = p_crc32 P (take OFF_CRC block @ drop (OFF_CRC + 4) block)"

definition gcm_block :: "u8 \<Rightarrow> bytes \<Rightarrow> bytes \<Rightarrow> bytes" where
  "gcm_block kind nonce ct =
     NODE_MAGIC @ [kind] @ u16_to_le (of_nat (length ct)) @ [0] @ nonce @ ct
       @ replicate (NODE_BLOCK_SIZE - (OFF_PAYLOAD_GCM + length ct)) 0"

definition crc_block :: "prims \<Rightarrow> u8 \<Rightarrow> bytes \<Rightarrow> bytes" where
  "crc_block P kind payload =
     (let block = NODE_MAGIC @ [kind] @ replicate (OFF_PAYLOAD - 5) 0 @ payload
                    @ replicate (NODE_BLOCK_SIZE - (OFF_PAYLOAD + length payload)) 0
      in splice OFF_CRC (u32_to_le (node_crc P block)) block)"

definition write_node_block :: "prims \<Rightarrow> node_crypto \<Rightarrow> nat \<Rightarrow> u8 \<Rightarrow> bytes \<Rightarrow> tstate \<Rightarrow>
    unit result \<times> tstate" where
  "write_node_block P c addr kind payload s =
     (if nc_cipher c = CIPHER_AES256_GCM
      then if PAYLOAD_CAP_GCM < length payload
           then (Inl (Panic ''node payload too large for GCM layout''), s)
           else bind_s (fill_random NONCE_SIZE s) (\<lambda>nonce s.
                  let ct = seal_with_nonce P (nc_meta_key c) nonce (node_aad addr kind) payload
                  in if length ct \<noteq> length payload + 16 then (Inl (Panic ''assertion failed''), s)
                     else ts_write_at addr (gcm_block kind nonce ct) s)
      else if NODE_BLOCK_SIZE < OFF_PAYLOAD + length payload then (Inl (Panic ''node payload too large''), s)
      else ts_write_at addr (crc_block P kind payload) s)"

definition backup_addr :: "nat \<Rightarrow> nat result" where
  "backup_addr primary =
     (if 2 ^ 64 \<le> primary + BASE_BLOCK then Inl (Panic ''attempt to add with overflow'')
      else Inr (primary + BASE_BLOCK))"

definition write_node_pair_no_flush :: "prims \<Rightarrow> node_crypto \<Rightarrow> nat \<Rightarrow> u8 \<Rightarrow> bytes \<Rightarrow> tstate \<Rightarrow>
    unit result \<times> tstate" where
  "write_node_pair_no_flush P c primary kind payload s =
     bind_s (backup_addr primary, s) (\<lambda>backup s.
       bind_s (write_node_block P c backup kind payload s) (\<lambda>_ s.
         write_node_block P c primary kind payload s))"

definition write_node_with_backup :: "prims \<Rightarrow> node_crypto \<Rightarrow> nat \<Rightarrow> u8 \<Rightarrow> bytes \<Rightarrow> tstate \<Rightarrow>
    unit result \<times> tstate" where
  "write_node_with_backup P c primary kind payload s =
     bind_s (backup_addr primary, s) (\<lambda>backup s.
       bind_s (write_node_block P c backup kind payload s) (\<lambda>_ s.
         bind_s (ts_flush s) (\<lambda>_ s.
           bind_s (write_node_block P c primary kind payload s) (\<lambda>_ s. ts_flush s))))"

section \<open>Reading a node\<close>

definition validate_node_block :: "prims \<Rightarrow> bytes \<Rightarrow> string + unit" where
  "validate_node_block P block =
     (if take 4 block \<noteq> NODE_MAGIC then Inl ''bad magic''
      else if u32_from_le (slice OFF_CRC 4 block) \<noteq> node_crc P block then Inl ''CRC mismatch''
      else Inr ())"

definition open_gcm_block :: "prims \<Rightarrow> node_crypto \<Rightarrow> nat \<Rightarrow> bytes \<Rightarrow> bytes result" where
  "open_gcm_block P c addr raw =
     (if take 4 raw \<noteq> NODE_MAGIC then Inl (Integrity ''bad magic'')
      else let kind = raw ! OFF_KIND;
               ct_len = unat (u16_from_le (slice OFF_CT_LEN_GCM 2 raw))
           in if ct_len < 16 \<or> NODE_BLOCK_SIZE < OFF_PAYLOAD_GCM + ct_len
              then Inl (Integrity ''GCM node: ct_len out of range'')
              else let nonce = slice OFF_NONCE_GCM NONCE_SIZE raw;
                       ct = slice OFF_PAYLOAD_GCM ct_len raw
                   in bind_r (open_with_nonce P (nc_meta_key c) nonce (node_aad addr kind) ct) (\<lambda>plaintext.
                        let copy_len = min (length plaintext) PAYLOAD_CAP
                        in Inr (NODE_MAGIC @ [kind] @ replicate (OFF_PAYLOAD - 5) 0 @ take copy_len plaintext
                                  @ replicate (PAYLOAD_CAP - copy_len) 0)))"

definition try_read_gcm_block :: "prims \<Rightarrow> backend \<Rightarrow> nat \<Rightarrow> node_crypto \<Rightarrow> bytes result" where
  "try_read_gcm_block P b addr c =
     bind_r (bk_read_at b addr NODE_BLOCK_SIZE) (\<lambda>raw. open_gcm_block P c addr raw)"

definition read_node_with_backup :: "prims \<Rightarrow> backend \<Rightarrow> nat \<Rightarrow> node_crypto \<Rightarrow> bytes result" where
  "read_node_with_backup P b primary c =
     bind_r (backup_addr primary) (\<lambda>backup.
       if nc_cipher c = CIPHER_AES256_GCM
       then (case try_read_gcm_block P b primary c of
               Inr block \<Rightarrow> Inr block
             | Inl _ \<Rightarrow>
                 (case try_read_gcm_block P b backup c of
                    Inr block \<Rightarrow> Inr block
                  | Inl _ \<Rightarrow> Inl (Integrity ''both primary and backup GCM authentication failed'')))
       else let fallback =
                  bind_r (bk_read_at b backup NODE_BLOCK_SIZE) (\<lambda>block.
                    case validate_node_block P block of
                      Inr _ \<Rightarrow> Inr block
                    | Inl _ \<Rightarrow> Inl (Integrity ''both primary and backup corrupt''))
            in case bk_read_at b primary NODE_BLOCK_SIZE of
                 Inr block \<Rightarrow>
                   (case validate_node_block P block of Inr _ \<Rightarrow> Inr block | Inl _ \<Rightarrow> fallback)
               | Inl _ \<Rightarrow> fallback)"

section \<open>Node payloads\<close>

record internal =
  in_term :: "bytes option"
  in_slots :: "u64 list"

definition in_empty :: internal where
  "in_empty = \<lparr>in_term = None, in_slots = replicate N_SLOTS 0\<rparr>"

definition in_decode :: "bytes \<Rightarrow> internal" where
  "in_decode block =
     (let p = slice OFF_PAYLOAD INTERNAL_PAYLOAD_SIZE block;
          term = (if p ! 0 \<noteq> 0 then Some (slice 2 (unat (p ! 1)) p) else None);
          slot_bytes = slice INTERNAL_TERM_SIZE SLOTS_SIZE p
      in \<lparr>in_term = term, in_slots = map (\<lambda>i. u64_from_le (slice (8 * i) 8 slot_bytes)) [0..<N_SLOTS]\<rparr>)"

definition in_encode :: "internal \<Rightarrow> bytes result" where
  "in_encode node =
     (case in_term node of
        None \<Rightarrow> Inr (splice INTERNAL_TERM_SIZE (concat (map u64_to_le (in_slots node))) (replicate INTERNAL_PAYLOAD_SIZE 0))
      | Some v \<Rightarrow>
          (if MAX_VAL_LEN < length v then Inl (Panic ''assertion failed'')
           else Inr (splice INTERNAL_TERM_SIZE (concat (map u64_to_le (in_slots node)))
                      (splice 2 v ((replicate INTERNAL_PAYLOAD_SIZE 0)[0 := 1, 1 := of_nat (length v)])))))"

definition in_is_empty :: "internal \<Rightarrow> bool" where
  "in_is_empty node = (in_term node = None \<and> list_all (\<lambda>s. s = 0) (in_slots node))"

fun lone_loop :: "nat \<Rightarrow> u64 list \<Rightarrow> nat option \<Rightarrow> nat option" where
  "lone_loop i [] idx = idx"
| "lone_loop i (s # ss) idx =
     (if s \<noteq> 0 then (if idx \<noteq> None then None else lone_loop (i + 1) ss (Some i))
      else lone_loop (i + 1) ss idx)"

definition lone_child :: "internal \<Rightarrow> nat option" where
  "lone_child node = (if in_term node \<noteq> None then None else lone_loop 0 (in_slots node) None)"

definition decode_leaf :: "bytes \<Rightarrow> (bytes \<times> bytes) result" where
  "decode_leaf block =
     (let p = drop OFF_PAYLOAD block;
          klen = unat (u16_from_le (slice 0 2 p));
          vlen = unat (p ! 2)
      in if MAX_KEY_LEN < klen then Inl (Integrity ''leaf node klen exceeds MAX_KEY_LEN'')
         else if MAX_VAL_LEN < vlen then Inl (Integrity ''leaf node vlen exceeds MAX_VAL_LEN'')
         else if length p < LEAF_HEADER_SIZE + klen + vlen then Inl (Integrity ''leaf node exceeds payload'')
         else Inr (slice LEAF_HEADER_SIZE klen p, slice (LEAF_HEADER_SIZE + klen) vlen p))"

definition encode_leaf :: "bytes \<Rightarrow> bytes \<Rightarrow> bytes result" where
  "encode_leaf key val =
     (if MAX_KEY_LEN < length key \<or> MAX_VAL_LEN < length val then Inl (Panic ''assertion failed'')
      else Inr (u16_to_le (of_nat (length key)) @ [of_nat (length val)] @ key @ val))"

section \<open>Payloads survive encoding\<close>

lemma node_consts:
  "OFF_KIND = 4" "OFF_CRC = 8" "OFF_PAYLOAD = 12" "OFF_CT_LEN_GCM = 5" "OFF_NONCE_GCM = 8" "NONCE_SIZE = 12"
  "OFF_PAYLOAD_GCM = 20" "N_SLOTS = 256" "SLOTS_SIZE = 2048" "MAX_VAL_LEN = 16" "INTERNAL_TERM_SIZE = 18"
  "INTERNAL_PAYLOAD_SIZE = 2066" "LEAF_HEADER_SIZE = 3" "NODE_BLOCK_SIZE = 4096" "PAYLOAD_CAP = 4084"
  "PAYLOAD_CAP_GCM = 4056" "MAX_KEY_LEN = 4037" "BASE_BLOCK = 4096" "TRIE_MAX_DEPTH = 4101"
  by (simp_all add: node_layout TRIE_MAX_DEPTH_def)

text \<open>A block shows a kind and a payload: what the two layouts have in common once a reader is done.\<close>

definition carries :: "bytes \<Rightarrow> u8 \<Rightarrow> bytes \<Rightarrow> bool" where
  "carries block kind payload \<longleftrightarrow>
     length block = NODE_BLOCK_SIZE \<and> block ! OFF_KIND = kind \<and> length payload \<le> PAYLOAD_CAP
     \<and> drop OFF_PAYLOAD block = payload @ replicate (PAYLOAD_CAP - length payload) 0"

lemma decode_encode_leaf:
  assumes "carries block kind payload" and "encode_leaf key val = Inr payload"
  shows "decode_leaf block = Inr (key, val)"
proof -
  let ?z = "replicate (PAYLOAD_CAP - length payload) 0"
  from assms(2) have b: "length key \<le> 4037" "length val \<le> 16"
    and p: "payload = u16_to_le (of_nat (length key)) @ [of_nat (length val)] @ key @ val"
    by (auto simp: encode_leaf_def node_consts split: if_splits)
  have d: "drop OFF_PAYLOAD block = u16_to_le (of_nat (length key)) @ [of_nat (length val)] @ key @ val @ ?z"
    using assms(1) p by (simp add: carries_def)
  have k: "unat (of_nat (length key) :: u16) = length key" and v: "unat (of_nat (length val) :: u8) = length val"
    using b by (simp_all add: unat_of_nat_less)
  have third: "(u16_to_le w @ x # ys) ! 2 = x" for w :: u16 and x :: u8 and ys
    by (simp add: nth_append)
  have s: "slice 0 2 (drop OFF_PAYLOAD block) = u16_to_le (of_nat (length key))"
    "drop OFF_PAYLOAD block ! 2 = of_nat (length val)"
    "slice 3 (length key) (drop OFF_PAYLOAD block) = key"
    "slice (3 + length key) (length val) (drop OFF_PAYLOAD block) = val"
    unfolding d by (simp_all add: third codec_simps)
  have "length (drop OFF_PAYLOAD block) = 4084" using assms(1) by (simp add: carries_def node_consts)
  with s b k v show ?thesis
    by (simp add: decode_leaf_def Let_def node_consts)
qed

definition in_ok :: "internal \<Rightarrow> bool" where
  "in_ok node \<longleftrightarrow> length (in_slots node) = N_SLOTS \<and> (\<forall>v. in_term node = Some v \<longrightarrow> length v \<le> MAX_VAL_LEN)"

lemma slot_table_length: "length (concat (map u64_to_le ss)) = 8 * length ss"
  by (simp add: length_concat_fixed)

lemma encoded_internal:
  assumes "in_ok node"
  shows "\<exists>h. length h = 18 \<and> in_encode node = Inr (h @ concat (map u64_to_le (in_slots node)))
    \<and> (in_term node = None \<longrightarrow> h ! 0 = 0)
    \<and> (\<forall>v. in_term node = Some v \<longrightarrow> h ! 0 = 1 \<and> unat (h ! 1) = length v \<and> slice 2 (length v) h = v)"
proof -
  let ?t = "concat (map u64_to_le (in_slots node))"
  have tl: "length ?t = 2048" using assms by (simp add: in_ok_def node_consts slot_table_length)
  have put: "splice 18 ?t x = take 18 x @ ?t" if "length x = 2066" for x
    using that tl by (simp add: splice_def)
  show ?thesis
  proof (cases "in_term node")
    case None
    then have "in_encode node = Inr (replicate 18 0 @ ?t)"
      by (simp add: in_encode_def node_consts put)
    with None show ?thesis by (intro exI[of _ "replicate 18 0"]) simp
  next
    case (Some v)
    with assms have v: "length v \<le> 16" by (simp add: in_ok_def node_consts)
    define h where "h = [1, of_nat (length v)] @ v @ replicate (16 - length v) (0 :: u8)"
    have u: "(replicate 2066 0)[0 := 1, 1 := of_nat (length v)] = [1, of_nat (length v)] @ replicate 2064 (0 :: u8)"
    proof -
      have "replicate 2066 (0 :: u8) = 0 # 0 # replicate 2064 0"
        by (metis Suc_numeral replicate_Suc semiring_norm(2,5,8) add_2_eq_Suc' numeral_plus_numeral semiring_norm(4))
      then show ?thesis by simp
    qed
    have "take 18 (splice 2 v ([1, of_nat (length v)] @ replicate 2064 (0 :: u8))) = h"
      using v by (simp add: splice_def h_def min_def)
    moreover have "length (splice 2 v ([1, of_nat (length v)] @ replicate 2064 (0 :: u8))) = 2066"
      using v by simp
    ultimately have "in_encode node = Inr (h @ ?t)"
      using Some v u by (simp add: in_encode_def node_consts put)
    moreover have "unat (of_nat (length v) :: u8) = length v" using v by (simp add: unat_of_nat_less)
    ultimately show ?thesis using Some v
      by (intro exI[of _ h]) (simp add: h_def slice_def)
  qed
qed

lemma decode_encode_internal:
  assumes "carries block kind payload" and "in_ok node" and "in_encode node = Inr payload"
  shows "in_decode block = node"
proof -
  let ?t = "concat (map u64_to_le (in_slots node))"
  obtain h where h: "length h = 18" "payload = h @ ?t" "in_term node = None \<longrightarrow> h ! 0 = 0"
    "\<forall>v. in_term node = Some v \<longrightarrow> h ! 0 = 1 \<and> unat (h ! 1) = length v \<and> slice 2 (length v) h = v"
    using encoded_internal[OF assms(2)] assms(3) by auto
  have n: "length (in_slots node) = 256" using assms(2) by (simp add: in_ok_def node_consts)
  have tl: "length ?t = 2048" by (simp add: slot_table_length n)
  have p: "slice 12 2066 block = h @ ?t"
    using assms(1) h(1,2) tl by (simp add: carries_def node_consts slice_def)
  have slots: "map (\<lambda>i. u64_from_le (slice (8 * i) 8 (slice 18 2048 (h @ ?t)))) [0..<256] = in_slots node"
  proof (rule nth_equalityI)
    fix i assume "i < length (map (\<lambda>i. u64_from_le (slice (8 * i) 8 (slice 18 2048 (h @ ?t)))) [0..<256])"
    then have i: "i < 256" by simp
    have "slice 18 2048 (h @ ?t) = ?t" using h(1) tl by (simp add: codec_simps)
    moreover have "slice (8 * i) 8 ?t = u64_to_le (in_slots node ! i)"
      using slice_concat_fixed[of "in_slots node" u64_to_le 8 i] i n by simp
    ultimately show "map (\<lambda>i. u64_from_le (slice (8 * i) 8 (slice 18 2048 (h @ ?t)))) [0..<256] ! i = in_slots node ! i"
      using i by simp
  qed (simp add: n)
  have hd: "(h @ ?t) ! 0 = h ! 0" "(h @ ?t) ! 1 = h ! 1" using h(1) by (simp_all add: nth_append)
  have "(if h ! 0 \<noteq> 0 then Some (slice 2 (unat (h ! 1)) (h @ ?t)) else None) = in_term node"
  proof (cases "in_term node")
    case None
    with h(3) show ?thesis by simp
  next
    case (Some v)
    with assms(2) have "length v \<le> 16" by (simp add: in_ok_def node_consts)
    with Some h(1,4) show ?thesis by (simp add: slice_append_left)
  qed
  then show ?thesis
    unfolding in_decode_def Let_def node_consts p slots hd by simp
qed

section \<open>Blocks survive the container\<close>

text \<open>What a reader makes of the raw block at an address, in either layout.\<close>

definition block_view :: "prims \<Rightarrow> node_crypto \<Rightarrow> nat \<Rightarrow> bytes \<Rightarrow> bytes option" where
  "block_view P c addr raw =
     (if nc_cipher c = CIPHER_AES256_GCM
      then (case open_gcm_block P c addr raw of Inr v \<Rightarrow> Some v | Inl _ \<Rightarrow> None)
      else if validate_node_block P raw = Inr () then Some raw else None)"

lemma NODE_MAGIC_length [simp]: "length NODE_MAGIC = 4"
  by (simp add: NODE_MAGIC_def)

lemma nth_after_magic: "(NODE_MAGIC @ k # ys) ! 4 = k"
  by (simp add: nth_append)

lemma gcm_block_length: "length nonce = 12 \<Longrightarrow> length ct \<le> 4076 \<Longrightarrow> length (gcm_block kind nonce ct) = 4096"
  by (simp add: gcm_block_def node_consts)

lemma gcm_block_opens:
  assumes "prims_ok P" and "length payload \<le> 4056" and "length nonce = 12"
    and ct: "ct = seal_with_nonce P (nc_meta_key c) nonce (node_aad addr kind) payload"
  shows "\<exists>v. open_gcm_block P c addr (gcm_block kind nonce ct) = Inr v \<and> carries v kind payload"
proof -
  let ?z = "replicate (4096 - (20 + length ct)) (0 :: u8)"
  have l: "length ct = length payload + 16" and o: "open_with_nonce P (nc_meta_key c) nonce (node_aad addr kind) ct = Inr payload"
    using assms(1) ct by (simp_all add: prims_ok_def seal_with_nonce_def open_with_nonce_def)
  have u: "unat (of_nat (length ct) :: u16) = length payload + 16"
    unfolding l by (rule unat_of_nat_less) (use assms(2) in simp)
  have g: "gcm_block kind nonce ct = NODE_MAGIC @ kind # u16_to_le (of_nat (length ct)) @ 0 # nonce @ ct @ ?z"
    by (simp add: gcm_block_def node_consts)
  have f: "take 4 (gcm_block kind nonce ct) = NODE_MAGIC" "gcm_block kind nonce ct ! 4 = kind"
    "slice 5 2 (gcm_block kind nonce ct) = u16_to_le (of_nat (length ct))"
    "slice 8 12 (gcm_block kind nonce ct) = nonce" "slice 20 (length payload + 16) (gcm_block kind nonce ct) = ct"
    unfolding g using assms(3) l by (simp_all add: nth_after_magic codec_simps)
  have "open_gcm_block P c addr (gcm_block kind nonce ct)
      = Inr (NODE_MAGIC @ [kind] @ replicate 7 0 @ payload @ replicate (4084 - length payload) 0)"
    using assms(2) by (simp add: open_gcm_block_def Let_def node_consts f u o)
  then show ?thesis
    using assms(2) by (simp add: carries_def node_consts nth_after_magic)
qed

lemma crc_block_valid:
  assumes "length payload \<le> 4084"
  shows "validate_node_block P (crc_block P kind payload) = Inr ()" and "carries (crc_block P kind payload) kind payload"
proof -
  define block where "block = NODE_MAGIC @ kind # replicate 7 0 @ payload @ replicate (4084 - length payload) (0 :: u8)"
  have l: "length block = 4096" using assms by (simp add: block_def)
  have m: "take 4 block = NODE_MAGIC" "block ! 4 = kind"
    "drop 12 block = payload @ replicate (4084 - length payload) 0"
    by (simp_all add: block_def nth_after_magic)
  define w where "w = u32_to_le (node_crc P block)"
  have c: "crc_block P kind payload = take 8 block @ w @ drop 12 block"
    by (simp add: crc_block_def Let_def node_consts splice_def block_def w_def)
  have wl: "length w = 4" by (simp add: w_def)
  have f: "take 4 (crc_block P kind payload) = NODE_MAGIC" "crc_block P kind payload ! 4 = kind"
    "slice 8 4 (crc_block P kind payload) = w" "length (crc_block P kind payload) = 4096"
    "take 8 (crc_block P kind payload) = take 8 block" "drop 12 (crc_block P kind payload) = drop 12 block"
    unfolding c using l wl m assms by (simp_all add: nth_append codec_simps min_def)
  have "node_crc P (crc_block P kind payload) = node_crc P block"
    using f(5,6) by (simp add: node_crc_def node_consts)
  then show "validate_node_block P (crc_block P kind payload) = Inr ()"
    using f by (simp add: validate_node_block_def node_consts w_def)
  show "carries (crc_block P kind payload) kind payload"
    using f m assms by (simp add: carries_def node_consts)
qed

lemma open_gcm_length: "open_gcm_block P c addr raw = Inr v \<Longrightarrow> length v = 4096"
  by (auto simp: open_gcm_block_def Let_def node_consts split: if_splits)

lemma write_node_blockD:
  assumes "prims_ok P" and "write_node_block P c addr kind payload s = (Inr (), s')"
  obtains raw v b' ent' where "bk_write_at (ts_b s) addr raw = Inr b'" "s' = s\<lparr>ts_b := b', ts_ent := ent'\<rparr>"
    "length raw = 4096" "block_view P c addr raw = Some v" "carries v kind payload"
proof (cases "nc_cipher c = CIPHER_AES256_GCM")
  case True
  with assms(2) have pl: "length payload \<le> 4056" and e: "12 \<le> length (ts_ent s)"
    by (auto simp: write_node_block_def node_consts fill_random_def split: if_splits)
  define nonce where "nonce = take 12 (ts_ent s)"
  define ct where "ct = seal_with_nonce P (nc_meta_key c) nonce (node_aad addr kind) payload"
  have nl: "length nonce = 12" using e by (simp add: nonce_def)
  have ctl: "length ct = length payload + 16" using assms(1) by (simp add: ct_def seal_with_nonce_def prims_ok_def)
  have w: "ts_write_at addr (gcm_block kind nonce ct) (s\<lparr>ts_ent := drop 12 (ts_ent s)\<rparr>) = (Inr (), s')"
    using assms(2) True pl e ctl
    by (simp add: write_node_block_def node_consts fill_random_def Let_def nonce_def[symmetric] ct_def[symmetric])
  then obtain b' where b: "bk_write_at (ts_b s) addr (gcm_block kind nonce ct) = Inr b'"
    "s' = s\<lparr>ts_ent := drop 12 (ts_ent s), ts_b := b'\<rparr>"
    by (auto simp: ts_write_at_def split: sum.splits)
  obtain v where v: "open_gcm_block P c addr (gcm_block kind nonce ct) = Inr v" "carries v kind payload"
    using gcm_block_opens[OF assms(1) pl nl ct_def] by auto
  show ?thesis
    by (rule that[of "gcm_block kind nonce ct" b' "drop 12 (ts_ent s)" v])
      (use b v True pl nl ctl in \<open>simp_all add: gcm_block_length block_view_def\<close>)
next
  case False
  with assms(2) have pl: "length payload \<le> 4084" and w: "ts_write_at addr (crc_block P kind payload) s = (Inr (), s')"
    by (auto simp: write_node_block_def node_consts split: if_splits)
  from w obtain b' where b: "bk_write_at (ts_b s) addr (crc_block P kind payload) = Inr b'" "s' = s\<lparr>ts_b := b'\<rparr>"
    by (auto simp: ts_write_at_def split: sum.splits)
  note v = crc_block_valid[OF pl, of P kind]
  show ?thesis
    by (rule that[of "crc_block P kind payload" b' "ts_ent s" "crc_block P kind payload"])
      (use b v False in \<open>simp_all add: block_view_def carries_def node_consts\<close>)
qed

lemma read_node_eq:
  assumes "bk_ok b" and "a + 8192 \<le> bk_len b"
  shows "read_node_with_backup P b a c =
    (case block_view P c a (slice a 4096 (bk_bytes b)) of
       Some v \<Rightarrow> Inr v
     | None \<Rightarrow>
         (case block_view P c (a + 4096) (slice (a + 4096) 4096 (bk_bytes b)) of
            Some v \<Rightarrow> Inr v
          | None \<Rightarrow> Inl (Integrity (if nc_cipher c = CIPHER_AES256_GCM
              then ''both primary and backup GCM authentication failed''
              else ''both primary and backup corrupt''))))"
proof -
  have ba: "backup_addr a = Inr (a + 4096)" using assms by (simp add: backup_addr_def node_consts bk_ok_def)
  have r: "bk_read_at b a 4096 = Inr (slice a 4096 (bk_bytes b))"
    "bk_read_at b (a + 4096) 4096 = Inr (slice (a + 4096) 4096 (bk_bytes b))"
    using assms by (auto intro!: bk_read_at_ok)
  show ?thesis
    by (auto simp: read_node_with_backup_def ba try_read_gcm_block_def node_consts r block_view_def Let_def
        split: sum.splits option.splits)
qed

section \<open>Nodes in a container\<close>

datatype node = LeafNode bytes bytes | InnerNode internal

fun node_ok :: "node \<Rightarrow> bool" where
  "node_ok (LeafNode k v) \<longleftrightarrow> length k \<le> MAX_KEY_LEN \<and> length v \<le> MAX_VAL_LEN"
| "node_ok (InnerNode i) \<longleftrightarrow> in_ok i"

fun node_kind :: "node \<Rightarrow> u8" where
  "node_kind (LeafNode k v) = KIND_LEAF"
| "node_kind (InnerNode i) = KIND_INTERNAL"

fun node_payload :: "node \<Rightarrow> bytes result" where
  "node_payload (LeafNode k v) = encode_leaf k v"
| "node_payload (InnerNode i) = in_encode i"

fun block_node :: "bytes \<Rightarrow> node \<Rightarrow> bool" where
  "block_node v (LeafNode k w) \<longleftrightarrow> v ! OFF_KIND = KIND_LEAF \<and> decode_leaf v = Inr (k, w)"
| "block_node v (InnerNode i) \<longleftrightarrow> v ! OFF_KIND = KIND_INTERNAL \<and> in_decode v = i"

definition node_at :: "prims \<Rightarrow> node_crypto \<Rightarrow> backend \<Rightarrow> nat \<Rightarrow> node \<Rightarrow> bool" where
  "node_at P c b a n \<longleftrightarrow>
     a + 8192 \<le> bk_len b \<and> (\<exists>v. read_node_with_backup P b a c = Inr v \<and> block_node v n)"

lemma carried_node: "carries v (node_kind n) p \<Longrightarrow> node_ok n \<Longrightarrow> node_payload n = Inr p \<Longrightarrow> block_node v n"
  by (cases n) (auto simp: decode_encode_leaf decode_encode_internal carries_def)

lemma node_payload_ok: "node_ok n \<Longrightarrow> \<exists>p. node_payload n = Inr p \<and> length p \<le> 4056"
proof (cases n)
  case (InnerNode i)
  assume "node_ok n"
  with InnerNode have i: "in_ok i" by simp
  then have "length (concat (map u64_to_le (in_slots i))) = 2048"
    by (simp add: in_ok_def node_consts slot_table_length)
  with InnerNode encoded_internal[OF i] show ?thesis by auto
qed (auto simp: encode_leaf_def node_consts)

lemma node_at_cong:
  assumes "bk_ok b" "bk_ok b'" "a + 8192 \<le> bk_len b'" "slice a 8192 (bk_bytes b') = slice a 8192 (bk_bytes b)"
    and "node_at P c b a n"
  shows "node_at P c b' a n"
proof -
  have l: "a + 8192 \<le> bk_len b" using assms(5) by (simp add: node_at_def)
  have p: "slice a 4096 (bk_bytes b') = slice a 4096 (bk_bytes b)"
    using arg_cong[OF assms(4), of "slice 0 4096"] by (simp add: slice_slice)
  have q: "slice (a + 4096) 4096 (bk_bytes b') = slice (a + 4096) 4096 (bk_bytes b)"
    using arg_cong[OF assms(4), of "slice 4096 4096"] by (simp add: slice_slice)
  have "read_node_with_backup P b' a c = read_node_with_backup P b a c"
    unfolding read_node_eq[OF assms(1) l] read_node_eq[OF assms(2,3)] p q ..
  with assms(3,5) show ?thesis by (simp add: node_at_def)
qed

lemma write_with_backup_eq: "write_node_with_backup P c a kind p s = write_node_pair_no_flush P c a kind p s"
proof -
  have r: "bind_s m (\<lambda>_. Pair (Inr ())) = m" for m :: "unit result \<times> tstate"
    by (cases m; cases "fst m") (auto simp: bind_s_def)
  show ?thesis by (simp add: write_node_with_backup_def write_node_pair_no_flush_def r ts_flush_def bk_flush_def)
qed

text \<open>A successful write leaves two good copies and changes nothing outside the two blocks.\<close>

definition two_copies :: "prims \<Rightarrow> node_crypto \<Rightarrow> backend \<Rightarrow> nat \<Rightarrow> u8 \<Rightarrow> bytes \<Rightarrow> bool" where
  "two_copies P c b a kind p \<longleftrightarrow>
     (\<exists>v w. block_view P c a (slice a 4096 (bk_bytes b)) = Some v \<and> carries v kind p
        \<and> block_view P c (a + 4096) (slice (a + 4096) 4096 (bk_bytes b)) = Some w \<and> carries w kind p)"

lemma write_pair_writes:
  assumes "prims_ok P" and "write_node_pair_no_flush P c a kind p s = (Inr (), s')"
  obtains raw v b1 raw' v' b2 e where
    "bk_write_at (ts_b s) (a + 4096) raw = Inr b1" "length raw = 4096" "block_view P c (a + 4096) raw = Some v" "carries v kind p"
    "bk_write_at b1 a raw' = Inr b2" "length raw' = 4096" "block_view P c a raw' = Some v'" "carries v' kind p"
    "s' = s\<lparr>ts_b := b2, ts_ent := e\<rparr>"
proof -
  from assms(2) obtain s1 where w: "write_node_block P c (a + 4096) kind p s = (Inr (), s1)"
      "write_node_block P c a kind p s1 = (Inr (), s')"
    by (auto simp: write_node_pair_no_flush_def backup_addr_def node_consts elim!: bind_s_InrE split: if_splits)
  obtain raw v b1 e1 where 1: "bk_write_at (ts_b s) (a + 4096) raw = Inr b1" "s1 = s\<lparr>ts_b := b1, ts_ent := e1\<rparr>"
    "length raw = 4096" "block_view P c (a + 4096) raw = Some v" "carries v kind p"
    by (rule write_node_blockD[OF assms(1) w(1)])
  obtain raw' v' b2 e2 where 2: "bk_write_at (ts_b s1) a raw' = Inr b2" "s' = s1\<lparr>ts_b := b2, ts_ent := e2\<rparr>"
    "length raw' = 4096" "block_view P c a raw' = Some v'" "carries v' kind p"
    by (rule write_node_blockD[OF assms(1) w(2)])
  show ?thesis by (rule that[of raw b1 v raw' b2 v' e2]) (use 1 2 in simp_all)
qed

lemma write_pairD:
  assumes "prims_ok P" and "bk_ok (ts_b s)" and "write_node_pair_no_flush P c a kind p s = (Inr (), s')"
  shows "bk_ok (ts_b s') \<and> bk_len (ts_b s') = bk_len (ts_b s) \<and> ts_a s' = ts_a s \<and> a + 8192 \<le> bk_len (ts_b s)
    \<and> two_copies P c (ts_b s') a kind p \<and> bk_no_grow (ts_b s') = bk_no_grow (ts_b s)
    \<and> (\<forall>i m. i + m \<le> a \<or> a + 8192 \<le> i \<longrightarrow> slice i m (bk_bytes (ts_b s')) = slice i m (bk_bytes (ts_b s)))"
proof -
  obtain raw v b1 raw' v' b2 e where
    1: "bk_write_at (ts_b s) (a + 4096) raw = Inr b1" "s' = s\<lparr>ts_b := b2, ts_ent := e\<rparr>"
      "length raw = 4096" "block_view P c (a + 4096) raw = Some v" "carries v kind p"
    and 2: "bk_write_at b1 a raw' = Inr b2" "s' = s\<lparr>ts_b := b2, ts_ent := e\<rparr>"
      "length raw' = 4096" "block_view P c a raw' = Some v'" "carries v' kind p"
    by (rule write_pair_writes[OF assms(1,3)], rule that, assumption+)
  note d1 = bk_write_at_InrD[OF 1(1)] and d2 = bk_write_at_InrD[OF 2(1)]
  have ok1: "bk_ok b1" by (rule bk_write_at_pres[OF assms(2) 1(1)])
  then have ok2: "bk_ok b2" using bk_write_at_pres[OF _ 2(1)] by simp
  have len: "length (bk_bytes (ts_b s)) = bk_len (ts_b s)" "length (bk_bytes b1) = bk_len (ts_b s)"
    using assms(2) ok1 d1(2) by (simp_all add: bk_ok_def)
  have fits: "a + 8192 \<le> bk_len (ts_b s)" using d1(1) 1(3) by simp
  have img: "bk_bytes b2 = splice a raw' (splice (a + 4096) raw (bk_bytes (ts_b s)))"
    using d1(4) d2(4) by simp
  have "slice a 4096 (bk_bytes b2) = raw'"
    unfolding img using slice_splice_same[of a raw'] 2(3) 1(3) len(1) fits by simp
  moreover have "slice (a + 4096) 4096 (bk_bytes b2) = raw"
    unfolding img using slice_splice_above[of a raw' "a + 4096"] slice_splice_same[of "a + 4096" raw] 2(3) 1(3) len(1) fits
    by simp
  moreover have "slice i m (bk_bytes b2) = slice i m (bk_bytes (ts_b s))" if "i + m \<le> a \<or> a + 8192 \<le> i" for i m
    unfolding img using that 2(3) 1(3) len(1) fits
    by (elim disjE) (simp_all add: slice_splice_below slice_splice_above)
  ultimately show ?thesis
    using ok2 d1 d2 1 2 fits by (simp add: two_copies_def)
qed

lemma two_copies_node:
  assumes "bk_ok b" and "a + 8192 \<le> bk_len b" and "two_copies P c b a (node_kind n) p" and "node_ok n"
    and "node_payload n = Inr p"
  shows "node_at P c b a n"
  using assms carried_node[OF _ assms(4,5)] by (auto simp: node_at_def read_node_eq two_copies_def)

definition ent_need :: "node_crypto \<Rightarrow> nat" where
  "ent_need c = (if nc_cipher c = CIPHER_AES256_GCM then 12 else 0)"

lemma write_node_block_ok:
  assumes "prims_ok P" and "bk_ok (ts_b s)" and "a + 4096 \<le> bk_len (ts_b s)" and "length p \<le> 4056"
    and "ent_need c \<le> length (ts_ent s)"
  shows "\<exists>b'. write_node_block P c a kind p s = (Inr (), s\<lparr>ts_b := b', ts_ent := drop (ent_need c) (ts_ent s)\<rparr>)
    \<and> bk_ok b' \<and> bk_len b' = bk_len (ts_b s)"
proof -
  define raw where "raw = (if nc_cipher c = CIPHER_AES256_GCM
    then gcm_block kind (take 12 (ts_ent s)) (seal_with_nonce P (nc_meta_key c) (take 12 (ts_ent s)) (node_aad a kind) p)
    else crc_block P kind p)"
  have sl: "length (seal_with_nonce P k n x p) = length p + 16" for k n x
    using assms(1) by (simp add: seal_with_nonce_def prims_ok_def)
  have "length raw = 4096"
    using assms(4,5) crc_block_valid(2)[of p P kind]
    by (auto simp: raw_def gcm_block_length sl ent_need_def carries_def node_consts)
  then have w: "bk_write_at (ts_b s) a raw = Inr (ts_b s\<lparr>bk_store := store_update (splice a raw) (bk_store (ts_b s))\<rparr>)"
    using assms(2,3) by (simp add: bk_write_at_ok)
  have "write_node_block P c a kind p s = (Inr (), s\<lparr>ts_b := ts_b s\<lparr>bk_store := store_update (splice a raw) (bk_store (ts_b s))\<rparr>,
      ts_ent := drop (ent_need c) (ts_ent s)\<rparr>)"
  proof (cases "nc_cipher c = CIPHER_AES256_GCM")
    case True
    with w assms(4,5) show ?thesis
      by (simp add: write_node_block_def raw_def node_consts fill_random_def ent_need_def Let_def sl ts_write_at_def)
  next
    case False
    with w assms(4) show ?thesis by (simp add: write_node_block_def raw_def node_consts ent_need_def ts_write_at_def)
  qed
  then show ?thesis using bk_write_at_pres[OF assms(2) w] by auto
qed

lemma write_pair_ok:
  assumes "prims_ok P" and "bk_ok (ts_b s)" and "a + 8192 \<le> bk_len (ts_b s)" and "length p \<le> 4056"
    and "2 * ent_need c \<le> length (ts_ent s)"
  shows "\<exists>s'. write_node_pair_no_flush P c a kind p s = (Inr (), s') \<and> length (ts_ent s') = length (ts_ent s) - 2 * ent_need c"
proof -
  obtain b1 where 1: "write_node_block P c (a + 4096) kind p s = (Inr (), s\<lparr>ts_b := b1, ts_ent := drop (ent_need c) (ts_ent s)\<rparr>)"
    "bk_ok b1" "bk_len b1 = bk_len (ts_b s)"
    using write_node_block_ok[of P s "a + 4096" p c kind] assms by auto
  obtain b2 where 2: "write_node_block P c a kind p (s\<lparr>ts_b := b1, ts_ent := drop (ent_need c) (ts_ent s)\<rparr>)
      = (Inr (), s\<lparr>ts_b := b2, ts_ent := drop (ent_need c) (drop (ent_need c) (ts_ent s))\<rparr>)"
    using write_node_block_ok[of P "s\<lparr>ts_b := b1, ts_ent := drop (ent_need c) (ts_ent s)\<rparr>" a p c kind] assms 1(2,3)
    by fastforce
  have "backup_addr a = Inr (a + 4096)" using assms(2,3) by (simp add: backup_addr_def node_consts bk_ok_def)
  with 1 2 show ?thesis by (simp add: write_node_pair_no_flush_def)
qed

section \<open>Properties\<close>

text \<open>C14. A written node survives the loss of one copy: as long as the primary block is intact, or its
  check rejects it and the backup block is intact, reading the node gives what was written, under
  either layout. When both checks fail the reader reports an integrity error; it never makes up a node.\<close>

theorem node_survives_bad_copy:
  assumes "prims_ok P" and "bk_ok (ts_b s)" and "node_ok n" and "node_payload n = Inr p"
    and "write_node_pair_no_flush P c a (node_kind n) p s = (Inr (), s')"
    and "bk_ok b" and "bk_len b = bk_len (ts_b s')"
  shows "(slice a 4096 (bk_bytes b) = slice a 4096 (bk_bytes (ts_b s'))
      \<or> block_view P c a (slice a 4096 (bk_bytes b)) = None
        \<and> slice (a + 4096) 4096 (bk_bytes b) = slice (a + 4096) 4096 (bk_bytes (ts_b s'))
      \<longrightarrow> (\<exists>v. read_node_with_backup P b a c = Inr v \<and> block_node v n))
    \<and> (block_view P c a (slice a 4096 (bk_bytes b)) = None
        \<and> block_view P c (a + 4096) (slice (a + 4096) 4096 (bk_bytes b)) = None
      \<longrightarrow> (\<exists>m. read_node_with_backup P b a c = Inl (Integrity m)))"
proof -
  from write_pairD[OF assms(1,2,5)] assms(7)
  have l: "a + 8192 \<le> bk_len b" and t: "two_copies P c (ts_b s') a (node_kind n) p" by simp_all
  obtain v w where "block_view P c a (slice a 4096 (bk_bytes (ts_b s'))) = Some v" "block_node v n"
      "block_view P c (a + 4096) (slice (a + 4096) 4096 (bk_bytes (ts_b s'))) = Some w" "block_node w n"
    using t carried_node[OF _ assms(3,4)] unfolding two_copies_def by blast
  then show ?thesis unfolding read_node_eq[OF assms(6) l] by auto
qed

theorem node_survives_bad_copy_witness:
  "\<exists>s' b v. write_node_pair_no_flush toy_prims \<lparr>nc_meta_key = [], nc_cipher = CIPHER_NONE\<rparr> 0 KIND_LEAF [1, 0, 1, 65, 66]
      \<lparr>ts_b = \<lparr>bk_store = MemStore (replicate 8192 0), bk_len = 8192, bk_no_grow = False\<rparr>, ts_a = undefined, ts_ent = []\<rparr>
      = (Inr (), s')
    \<and> bk_write_at (ts_b s') 0 (replicate 4096 0) = Inr b
    \<and> read_node_with_backup toy_prims b 0 \<lparr>nc_meta_key = [], nc_cipher = CIPHER_NONE\<rparr> = Inr v
    \<and> block_node v (LeafNode [65] [66])"
proof -
  define c :: node_crypto where "c = \<lparr>nc_meta_key = [], nc_cipher = CIPHER_NONE\<rparr>"
  define s where "s = \<lparr>ts_b = \<lparr>bk_store = MemStore (replicate 8192 0), bk_len = 8192, bk_no_grow = False\<rparr>,
    ts_a = undefined, ts_ent = []\<rparr>"
  have ok: "bk_ok (ts_b s)" "bk_len (ts_b s) = 8192" by (simp_all add: s_def bk_ok_def)
  have n: "node_ok (LeafNode [65] [66])" "node_payload (LeafNode [65] [66]) = Inr [1, 0, 1, 65, 66]"
    by (simp_all add: node_consts encode_leaf_def u16_to_le_def numeral_2_eq_2)
  obtain s' where s': "write_node_pair_no_flush toy_prims c 0 KIND_LEAF [1, 0, 1, 65, 66] s = (Inr (), s')"
    using write_pair_ok[OF toy_prims_ok, of s 0 "[1, 0, 1, 65, 66]" c KIND_LEAF] ok
    by (auto simp: ent_need_def c_def CIPHER_NONE_def CIPHER_AES256_GCM_def)
  note d = write_pairD[OF toy_prims_ok ok(1) s']
  have len: "length (bk_bytes (ts_b s')) = 8192" using d ok by (simp add: bk_ok_def)
  obtain b where b: "bk_write_at (ts_b s') 0 (replicate 4096 0) = Inr b"
    using bk_write_at_ok[of "ts_b s'" 0 "replicate 4096 0"] d ok by auto
  note bd = bk_write_at_InrD[OF b]
  have img: "bk_bytes b = splice 0 (replicate 4096 0) (bk_bytes (ts_b s'))" using bd by simp
  have z: "slice 0 4096 (bk_bytes b) = replicate 4096 0"
    unfolding img using slice_splice_same[of 0 "replicate 4096 0" "bk_bytes (ts_b s')"] len by simp
  have r: "slice 4096 4096 (bk_bytes b) = slice 4096 4096 (bk_bytes (ts_b s'))"
    unfolding img by (rule slice_splice_above) (use len in simp_all)
  have "take 4 (replicate 4096 (0 :: u8)) ! 0 \<noteq> NODE_MAGIC ! 0" by (simp add: NODE_MAGIC_def ascii_def)
  then have "take 4 (replicate 4096 (0 :: u8)) \<noteq> NODE_MAGIC" by metis
  then have v: "block_view toy_prims c 0 (replicate 4096 0) = None"
    by (simp add: block_view_def c_def CIPHER_NONE_def CIPHER_AES256_GCM_def validate_node_block_def)
  have "bk_ok b" "bk_len b = bk_len (ts_b s')" using bk_write_at_pres[OF _ b] d bd by auto
  with node_survives_bad_copy[OF toy_prims_ok ok(1) n, of c 0 s' b] s' v z r b show ?thesis
    unfolding c_def[symmetric] s_def[symmetric] by auto
qed

end
