(* ===== verification/Trie.thy ===== *)
theory Trie
  imports Trie_Node
begin

text \<open>
  The operations of the catalog trie, \<^verbatim>\<open>Trie\<close> of \<^verbatim>\<open>sfs-core/src/catalog/trie.rs\<close>: lookup, copy-on-write
  insertion and removal, ordered prefix scan and the walk over all node blocks. The two walks run on
  an explicit work stack and are bounded by a node budget and a depth limit, which is also why the
  model's loops end on every container, well formed or not.
\<close>

section \<open>Allocating nodes\<close>

definition ts_alloc :: "u32 \<Rightarrow> region \<Rightarrow> tstate \<Rightarrow> block_loc result \<times> tstate" where
  "ts_alloc len r s =
     (case alloc_aligned (ts_a s) (ts_b s) len r of
        Inl e \<Rightarrow> (Inl e, s)
      | Inr (al, b, loc) \<Rightarrow> (Inr loc, s\<lparr>ts_a := al, ts_b := b\<rparr>))"

definition alloc_and_write_node :: "prims \<Rightarrow> node_crypto \<Rightarrow> u8 \<Rightarrow> bytes \<Rightarrow> tstate \<Rightarrow> nat result \<times> tstate" where
  "alloc_and_write_node P c kind payload s =
     bind_s (ts_alloc NODE_ALLOC_SIZE CatalogHead s) (\<lambda>loc s.
       bind_s (write_node_with_backup P c (bl_addr loc) kind payload s) (\<lambda>_ s. (Inr (bl_addr loc), s)))"

definition alloc_and_write_node_cow :: "prims \<Rightarrow> node_crypto \<Rightarrow> u8 \<Rightarrow> bytes \<Rightarrow> tstate \<Rightarrow> nat result \<times> tstate" where
  "alloc_and_write_node_cow P c kind payload s =
     bind_s (ts_alloc NODE_ALLOC_SIZE CatalogHead s) (\<lambda>loc s.
       bind_s (write_node_pair_no_flush P c (bl_addr loc) kind payload s) (\<lambda>_ s. (Inr (bl_addr loc), s)))"

definition alloc_internal_cow :: "prims \<Rightarrow> node_crypto \<Rightarrow> internal \<Rightarrow> tstate \<Rightarrow> nat result \<times> tstate" where
  "alloc_internal_cow P c node s =
     bind_s (in_encode node, s) (\<lambda>payload s. alloc_and_write_node_cow P c KIND_INTERNAL payload s)"

definition alloc_leaf_cow :: "prims \<Rightarrow> node_crypto \<Rightarrow> bytes \<Rightarrow> bytes \<Rightarrow> tstate \<Rightarrow> nat result \<times> tstate" where
  "alloc_leaf_cow P c key val s =
     bind_s (encode_leaf key val, s) (\<lambda>payload s. alloc_and_write_node_cow P c KIND_LEAF payload s)"

definition free_node_cow :: "nat \<Rightarrow> tstate \<Rightarrow> tstate" where
  "free_node_cow node_addr s =
     s\<lparr>ts_a := fst (free_reclaimable \<lparr>bl_addr = node_addr, bl_len = NODE_ALLOC_SIZE\<rparr> (ts_a s))\<rparr>"

definition check_bounds :: "bytes \<Rightarrow> bytes \<Rightarrow> unit result" where
  "check_bounds key val =
     (if MAX_KEY_LEN < length key then Inl (Integrity ''trie key too long'')
      else if MAX_VAL_LEN < length val then Inl (Integrity ''trie value too long'')
      else Inr ())"

section \<open>Creation and lookup\<close>

record trie =
  tr_root :: nat
  tr_crypto :: node_crypto

definition trie_create :: "prims \<Rightarrow> cipher_suite_id \<Rightarrow> bytes \<Rightarrow> tstate \<Rightarrow> trie result \<times> tstate" where
  "trie_create P cipher container_key s =
     (let c = node_crypto_new P cipher container_key in
      bind_s (in_encode in_empty, s) (\<lambda>payload s.
        bind_s (alloc_and_write_node P c KIND_INTERNAL payload s) (\<lambda>root s.
          (Inr \<lparr>tr_root = root, tr_crypto = c\<rparr>, s))))"

definition trie_open :: "prims \<Rightarrow> nat \<Rightarrow> cipher_suite_id \<Rightarrow> bytes \<Rightarrow> trie" where
  "trie_open P root cipher container_key =
     \<lparr>tr_root = root, tr_crypto = node_crypto_new P cipher container_key\<rparr>"

function get_at :: "prims \<Rightarrow> node_crypto \<Rightarrow> backend \<Rightarrow> nat \<Rightarrow> bytes \<Rightarrow> nat \<Rightarrow> bytes option result" where
  "get_at P c b node_addr key depth =
     bind_r (read_node_with_backup P b node_addr c) (\<lambda>block.
       if block ! OFF_KIND = KIND_LEAF
       then bind_r (decode_leaf block) (\<lambda>(stored_key, val). Inr (if stored_key = key then Some val else None))
       else let node = in_decode block in
            if depth = length key then Inr (in_term node)
            else if length key < depth then Inl (Panic ''index out of bounds'')
            else let child = in_slots node ! unat (key ! depth) in
                 if child = 0 then Inr None
                 else get_at P c b (unat child) key (depth + 1))"
  by pat_completeness auto

termination get_at
  by (relation "measure (\<lambda>(P, c, b, a, key, depth). length key - depth)") auto

definition trie_get :: "prims \<Rightarrow> trie \<Rightarrow> backend \<Rightarrow> bytes \<Rightarrow> bytes option result" where
  "trie_get P t b key = get_at P (tr_crypto t) b (tr_root t) key 0"

section \<open>Insertion\<close>

function first_diff :: "bytes \<Rightarrow> bytes \<Rightarrow> nat \<Rightarrow> nat \<Rightarrow> nat" where
  "first_diff old_key new_key min_len d =
     (if d < min_len \<and> old_key ! d = new_key ! d then first_diff old_key new_key min_len (d + 1) else d)"
  by pat_completeness auto

termination first_diff
  by (relation "measure (\<lambda>(old_key, new_key, m, d). m - d)") auto

text \<open>The loop that wraps a subtree in plain nodes for the shared bytes, deepest first.\<close>

fun wrap_chain :: "prims \<Rightarrow> node_crypto \<Rightarrow> bytes \<Rightarrow> nat list \<Rightarrow> nat \<Rightarrow> tstate \<Rightarrow> nat result \<times> tstate" where
  "wrap_chain P c key [] addr s = (Inr addr, s)"
| "wrap_chain P c key (di # ds) addr s =
     bind_s (alloc_internal_cow P c (in_empty\<lparr>in_slots := (in_slots in_empty)[unat (key ! di) := of_nat addr]\<rparr>) s)
       (\<lambda>addr s. wrap_chain P c key ds addr s)"

definition branch_leaf :: "prims \<Rightarrow> node_crypto \<Rightarrow> bytes \<Rightarrow> bytes \<Rightarrow> bytes \<Rightarrow> bytes \<Rightarrow> nat \<Rightarrow> tstate \<Rightarrow>
    nat result \<times> tstate" where
  "branch_leaf P c old_key old_val new_key new_val depth s =
     (let min_len = min (length old_key) (length new_key);
          d = first_diff old_key new_key min_len depth
      in if d = min_len
         then let (short_key, short_val, long_key, long_val) =
                    (if length old_key < length new_key then (old_key, old_val, new_key, new_val)
                     else (new_key, new_val, old_key, old_val))
              in bind_s (alloc_leaf_cow P c long_key long_val s) (\<lambda>long_leaf s.
                   if length long_key \<le> d then (Inl (Panic ''index out of bounds''), s)
                   else bind_s (alloc_internal_cow P c
                                 \<lparr>in_term = Some short_val,
                                  in_slots = (in_slots in_empty)[unat (long_key ! d) := of_nat long_leaf]\<rparr> s)
                          (\<lambda>addr s. wrap_chain P c short_key (rev [depth..<d]) addr s))
         else bind_s (alloc_leaf_cow P c old_key old_val s) (\<lambda>old_leaf s.
                bind_s (alloc_leaf_cow P c new_key new_val s) (\<lambda>new_leaf s.
                  if length old_key \<le> d \<or> length new_key \<le> d then (Inl (Panic ''index out of bounds''), s)
                  else bind_s (alloc_internal_cow P c
                                (in_empty\<lparr>in_slots := (in_slots in_empty)
                                   [unat (old_key ! d) := of_nat old_leaf, unat (new_key ! d) := of_nat new_leaf]\<rparr>) s)
                         (\<lambda>addr s. wrap_chain P c old_key (rev [depth..<d]) addr s))))"

function put_at :: "prims \<Rightarrow> node_crypto \<Rightarrow> nat \<Rightarrow> bytes \<Rightarrow> bytes \<Rightarrow> nat \<Rightarrow> tstate \<Rightarrow> nat result \<times> tstate" where
  "put_at P c node_addr key val depth s =
     bind_s (read_node_with_backup P (ts_b s) node_addr c, s) (\<lambda>block s.
       bind_s
         (if block ! OFF_KIND = KIND_LEAF
          then bind_s (decode_leaf block, s) (\<lambda>(existing_key, existing_val) s.
                 if existing_key = key then alloc_leaf_cow P c key val s
                 else branch_leaf P c existing_key existing_val key val depth s)
          else let node = in_decode block in
               if depth = length key then alloc_internal_cow P c (node\<lparr>in_term := Some val\<rparr>) s
               else if length key < depth then (Inl (Panic ''index out of bounds''), s)
               else let byte = unat (key ! depth); child = in_slots node ! byte in
                    bind_s (if child = 0 then alloc_leaf_cow P c key val s
                            else put_at P c (unat child) key val (depth + 1) s)
                      (\<lambda>new_child s.
                        alloc_internal_cow P c (node\<lparr>in_slots := (in_slots node)[byte := of_nat new_child]\<rparr>) s))
         (\<lambda>new_addr s. (Inr new_addr, free_node_cow node_addr s)))"
  by pat_completeness auto

termination put_at
  by (relation "measure (\<lambda>(P, c, a, key, val, depth, s). length key - depth)") auto

definition trie_put :: "prims \<Rightarrow> trie \<Rightarrow> bytes \<Rightarrow> bytes \<Rightarrow> tstate \<Rightarrow> trie result \<times> tstate" where
  "trie_put P t key val s =
     bind_s (check_bounds key val, s) (\<lambda>_ s.
       bind_s (put_at P (tr_crypto t) (tr_root t) key val 0 s) (\<lambda>new_root s.
         (Inr (t\<lparr>tr_root := new_root\<rparr>), s)))"

section \<open>Removal\<close>

datatype remove_result = Absent | Replaced nat | Pruned

definition rebuild_after_remove :: "prims \<Rightarrow> node_crypto \<Rightarrow> internal \<Rightarrow> tstate \<Rightarrow> remove_result result \<times> tstate" where
  "rebuild_after_remove P c node s =
     (if in_is_empty node then (Inr Pruned, s)
      else let rewrite = (\<lambda>s. bind_s (alloc_internal_cow P c node s) (\<lambda>a s. (Inr (Replaced a), s))) in
           case lone_child node of
             Some idx \<Rightarrow>
               bind_s (read_node_with_backup P (ts_b s) (unat (in_slots node ! idx)) c, s) (\<lambda>child_block s.
                 if child_block ! OFF_KIND = KIND_LEAF
                 then bind_s (decode_leaf child_block, s) (\<lambda>(k, v) s.
                        bind_s (alloc_leaf_cow P c k v s) (\<lambda>a s. (Inr (Replaced a), s)))
                 else rewrite s)
           | None \<Rightarrow> rewrite s)"

function remove_at :: "prims \<Rightarrow> node_crypto \<Rightarrow> nat \<Rightarrow> bytes \<Rightarrow> nat \<Rightarrow> tstate \<Rightarrow> remove_result result \<times> tstate" where
  "remove_at P c node_addr key depth s =
     bind_s (read_node_with_backup P (ts_b s) node_addr c, s) (\<lambda>block s.
       if block ! OFF_KIND = KIND_LEAF
       then bind_s (decode_leaf block, s) (\<lambda>(stored_key, _) s.
              if stored_key = key then (Inr Pruned, free_node_cow node_addr s) else (Inr Absent, s))
       else let node = in_decode block in
            if depth = length key
            then if in_term node = None then (Inr Absent, s)
                 else bind_s (rebuild_after_remove P c (node\<lparr>in_term := None\<rparr>) s) (\<lambda>r s.
                        (Inr r, free_node_cow node_addr s))
            else if length key < depth then (Inl (Panic ''index out of bounds''), s)
            else let byte = unat (key ! depth); child = in_slots node ! byte in
                 if child = 0 then (Inr Absent, s)
                 else bind_s (remove_at P c (unat child) key (depth + 1) s) (\<lambda>res s.
                        case res of
                          Absent \<Rightarrow> (Inr Absent, s)
                        | Replaced new_child \<Rightarrow>
                            bind_s (alloc_internal_cow P c (node\<lparr>in_slots := (in_slots node)[byte := of_nat new_child]\<rparr>) s)
                              (\<lambda>new s. (Inr (Replaced new), free_node_cow node_addr s))
                        | Pruned \<Rightarrow>
                            bind_s (rebuild_after_remove P c (node\<lparr>in_slots := (in_slots node)[byte := 0]\<rparr>) s) (\<lambda>r s.
                              (Inr r, free_node_cow node_addr s))))"
  by pat_completeness auto

termination remove_at
  by (relation "measure (\<lambda>(P, c, a, key, depth, s). length key - depth)") auto

definition trie_remove :: "prims \<Rightarrow> trie \<Rightarrow> bytes \<Rightarrow> tstate \<Rightarrow> (trie \<times> bool) result \<times> tstate" where
  "trie_remove P t key s =
     bind_s (remove_at P (tr_crypto t) (tr_root t) key 0 s) (\<lambda>res s.
       case res of
         Absent \<Rightarrow> (Inr (t, False), s)
       | Replaced new_addr \<Rightarrow> (Inr (t\<lparr>tr_root := new_addr\<rparr>, True), s)
       | Pruned \<Rightarrow>
           bind_s (in_encode in_empty, s) (\<lambda>payload s.
             bind_s (alloc_and_write_node_cow P (tr_crypto t) KIND_INTERNAL payload s) (\<lambda>root s.
               (Inr (t\<lparr>tr_root := root\<rparr>, True), s))))"

section \<open>Walking all nodes\<close>

text \<open>
  \<open>visit_loop\<close> is the loop of \<^verbatim>\<open>visit_nodes\<close>: the stack holds, per level, the children still to visit. The
  result is the list of addresses handed to the callback, with the outcome.
\<close>

definition visit_enter :: "prims \<Rightarrow> node_crypto \<Rightarrow> backend \<Rightarrow> nat \<Rightarrow> nat \<Rightarrow> nat list list \<Rightarrow> nat list \<Rightarrow>
    (nat \<times> nat list list) result \<times> nat list" where
  "visit_enter P c b addr visited stack out =
     (let visited = visited + 1 in
      if TRIE_NODE_BUDGET < visited then (Inl (Integrity ''trie visit budget exceeded''), out)
      else if TRIE_MAX_DEPTH \<le> length stack then (Inl (Integrity ''trie depth exceeded''), out)
      else bind_s (read_node_with_backup P b addr c, out @ [addr]) (\<lambda>block out.
             let kids = (if block ! OFF_KIND = KIND_INTERNAL
                         then map unat (filter (\<lambda>s. s \<noteq> 0) (in_slots (in_decode block))) else [])
             in (Inr (visited, kids # stack), out)))"

lemma visit_enter_visited:
  "visit_enter P c b addr visited stack out = (Inr (v, st), out') \<Longrightarrow> v = visited + 1 \<and> visited < TRIE_NODE_BUDGET"
  by (auto simp: visit_enter_def Let_def split: if_splits elim!: bind_s_InrE)

function visit_loop :: "prims \<Rightarrow> node_crypto \<Rightarrow> backend \<Rightarrow> nat \<Rightarrow> nat list list \<Rightarrow> nat list \<Rightarrow> unit result \<times> nat list" where
  "visit_loop P c b visited [] out = (Inr (), out)"
| "visit_loop P c b visited ([] # stack) out = visit_loop P c b visited stack out"
| "visit_loop P c b visited ((child # kids) # stack) out =
     bind_s (visit_enter P c b child visited (kids # stack) out) (\<lambda>(visited, stack) out.
       visit_loop P c b visited stack out)"
  by pat_completeness auto

termination visit_loop
  by (relation "(\<lambda>(P, c, b, visited, stack, out). TRIE_NODE_BUDGET - visited) <*mlex*>
      measure (\<lambda>(P, c, b, visited, stack, out). length stack)")
    (auto simp: wf_mlex mlex_less mlex_leq dest!: visit_enter_visited intro!: mlex_less)

definition visit_nodes :: "prims \<Rightarrow> node_crypto \<Rightarrow> backend \<Rightarrow> nat \<Rightarrow> unit result \<times> nat list" where
  "visit_nodes P c b root_addr =
     (if root_addr = 0 then (Inr (), [])
      else bind_s (visit_enter P c b root_addr 0 [] []) (\<lambda>(visited, stack) out. visit_loop P c b visited stack out))"

section \<open>Prefix scan\<close>

datatype work = Enter nat nat "u8 option" | Pop

text \<open>What a visited node contributes: the entries it emits at once and the children to enter.\<close>

definition scan_node :: "bytes \<Rightarrow> nat \<Rightarrow> bytes \<Rightarrow> bytes \<Rightarrow> ((bytes \<times> bytes) list \<times> (u8 \<times> nat) list) result" where
  "scan_node prefix depth key_so_far block =
     (if block ! OFF_KIND = KIND_LEAF
      then bind_r (decode_leaf block) (\<lambda>(key, val).
             Inr (if length prefix \<le> length key \<and> take (length prefix) key = prefix then [(key, val)] else [], []))
      else let node = in_decode block in
           if depth < length prefix
           then let child = in_slots node ! unat (prefix ! depth) in
                Inr ([], if child \<noteq> 0 then [(prefix ! depth, unat child)] else [])
           else let kids = map (\<lambda>(i, s). (of_nat i, unat s)) (filter (\<lambda>(i, s). s \<noteq> 0) (enumerate 0 (in_slots node)))
                in Inr (case in_term node of Some v \<Rightarrow> [(key_so_far, v)] | None \<Rightarrow> [], kids))"

function scan_loop_at :: "prims \<Rightarrow> node_crypto \<Rightarrow> backend \<Rightarrow> bytes \<Rightarrow> nat \<Rightarrow> work list \<Rightarrow> bytes \<Rightarrow>
    (bytes \<times> bytes) list \<Rightarrow> (bytes \<times> bytes) list result" where
  "scan_loop_at P c b prefix visited [] key_so_far out = Inr out"
| "scan_loop_at P c b prefix visited (Pop # stack) key_so_far out =
     scan_loop_at P c b prefix visited stack (butlast key_so_far) out"
| "scan_loop_at P c b prefix visited (Enter addr depth byte # stack) key_so_far out =
     (if TRIE_NODE_BUDGET < visited + 1 then Inl (Integrity ''trie visit budget exceeded'')
      else if TRIE_MAX_DEPTH < depth then Inl (Integrity ''trie depth exceeded'')
      else let (key_so_far, stack) =
                 (case byte of Some bb \<Rightarrow> (key_so_far @ [bb], Pop # stack) | None \<Rightarrow> (key_so_far, stack))
           in bind_r (read_node_with_backup P b addr c) (\<lambda>block.
                bind_r (scan_node prefix depth key_so_far block) (\<lambda>(found, kids).
                  scan_loop_at P c b prefix (visited + 1)
                    (map (\<lambda>(bb, child). Enter child (depth + 1) (Some bb)) kids @ stack) key_so_far (out @ found))))"
  by pat_completeness auto

termination scan_loop_at
  by (relation "(\<lambda>(P, c, b, prefix, visited, stack, k, out). TRIE_NODE_BUDGET - visited) <*mlex*>
      measure (\<lambda>(P, c, b, prefix, visited, stack, k, out). length stack)")
    (auto simp: wf_mlex mlex_leq intro!: mlex_less)

definition scan_prefix :: "prims \<Rightarrow> trie \<Rightarrow> backend \<Rightarrow> bytes \<Rightarrow> (bytes \<times> bytes) list result" where
  "scan_prefix P t b prefix = scan_loop_at P (tr_crypto t) b prefix 0 [Enter (tr_root t) 0 None] [] []"

declare get_at.simps [simp del] put_at.simps [simp del] remove_at.simps [simp del] first_diff.simps [simp del]

end
