(* ===== verification/Trie_Rep.thy ===== *)
theory Trie_Rep
  imports Trie Allocator_Steps
begin

text \<open>
  What a trie in a container means. A \<open>tree\<close> is the pointer structure without the bytes: every node with
  its address. \<open>rep\<close> says that the blocks of a container hold a tree, \<open>look\<close> what a key is mapped to,
  \<open>tree_ok\<close> that keys lie under their path, sizes fit a block, and no block is used twice. The
  blocks of a tree are blocks in use of the allocator (\<open>owned\<close>), and \<open>keeps\<close> is what each operation
  leaves alone: every forward block in use outside a set \<open>F\<close> of released blocks.
\<close>

section \<open>Trees\<close>

datatype tree = Lf nat bytes bytes | Nd nat "bytes option" "u8 \<Rightarrow> tree option"

primrec addr_of :: "tree \<Rightarrow> nat" where
  "addr_of (Lf a k v) = a"
| "addr_of (Nd a tm f) = a"

definition slots_of :: "(u8 \<Rightarrow> tree option) \<Rightarrow> u64 list" where
  "slots_of f = map (\<lambda>i. case f (of_nat i) of None \<Rightarrow> 0 | Some t \<Rightarrow> of_nat (addr_of t)) [0..<256]"

primrec node_of :: "tree \<Rightarrow> node" where
  "node_of (Lf a k v) = LeafNode k v"
| "node_of (Nd a tm f) = InnerNode \<lparr>in_term = tm, in_slots = slots_of f\<rparr>"

inductive rep :: "(nat \<Rightarrow> node \<Rightarrow> bool) \<Rightarrow> tree \<Rightarrow> bool" for N where
  rep_lf: "N a (node_of (Lf a k v)) \<Longrightarrow> rep N (Lf a k v)"
| rep_nd: "N a (node_of (Nd a tm f)) \<Longrightarrow> (\<And>c t. f c = Some t \<Longrightarrow> rep N t) \<Longrightarrow> rep N (Nd a tm f)"

inductive_simps rep_simps [simp]: "rep N (Lf a k v)" "rep N (Nd a tm f)"

primrec addrs :: "tree \<Rightarrow> nat set" where
  "addrs (Lf a k v) = {a}"
| "addrs (Nd a tm f) = insert a (\<Union>c. \<Union> (set_option (map_option addrs (f c))))"

primrec look :: "tree \<Rightarrow> bytes \<Rightarrow> nat \<Rightarrow> bytes option" where
  "look (Lf a k v) = (\<lambda>key d. if k = key then Some v else None)"
| "look (Nd a tm f) = (\<lambda>key d. if d = length key then tm
     else case map_option look (f (key ! d)) of None \<Rightarrow> None | Some g \<Rightarrow> g key (d + 1))"

definition contents :: "tree \<Rightarrow> bytes \<rightharpoonup> bytes" where
  "contents t key = look t key 0"

inductive tree_ok :: "bytes \<Rightarrow> tree \<Rightarrow> bool" where
  ok_lf: "take (length p) k = p \<Longrightarrow> length k \<le> MAX_KEY_LEN \<Longrightarrow> length v \<le> MAX_VAL_LEN \<Longrightarrow> tree_ok p (Lf a k v)"
| ok_nd: "length p \<le> MAX_KEY_LEN \<Longrightarrow> (\<And>v. tm = Some v \<Longrightarrow> length v \<le> MAX_VAL_LEN) \<Longrightarrow>
    (\<And>c t. f c = Some t \<Longrightarrow> tree_ok (p @ [c]) t \<and> a \<notin> addrs t) \<Longrightarrow>
    (\<And>c t c' t'. f c = Some t \<Longrightarrow> f c' = Some t' \<Longrightarrow> c \<noteq> c' \<Longrightarrow> addrs t \<inter> addrs t' = {}) \<Longrightarrow>
    tree_ok p (Nd a tm f)"

inductive_simps tree_ok_simps: "tree_ok p (Lf a k v)" "tree_ok p (Nd a tm f)"

lemma addrs_Nd [simp]: "x \<in> addrs (Nd a tm f) \<longleftrightarrow> x = a \<or> (\<exists>c t. f c = Some t \<and> x \<in> addrs t)"
  by (auto simp: elem_set option.set_map)

declare addrs.simps(2) [simp del]

lemma addrs_child: "f c = Some t \<Longrightarrow> addrs t \<subseteq> addrs (Nd a tm f)"
  by auto

lemma addr_of_addrs [simp]: "addr_of t \<in> addrs t"
  by (cases t) simp_all

lemma look_Nd [simp]:
  "look (Nd a tm f) key d = (if d = length key then tm
     else case f (key ! d) of None \<Rightarrow> None | Some t \<Rightarrow> look t key (d + 1))"
  by (simp split: option.splits)

declare look.simps(2) [simp del]

lemma rep_node: "rep N t \<Longrightarrow> N (addr_of t) (node_of t)"
  by (cases t) auto

lemma length_slots_of [simp]: "length (slots_of f) = 256"
  by (simp add: slots_of_def)

lemma unat_u8_less: "unat (c :: u8) < 256"
  using unat_lt2p[of c] by simp

lemma slots_of_nth: "slots_of f ! unat c = (case f c of None \<Rightarrow> 0 | Some t \<Rightarrow> of_nat (addr_of t))"
  using unat_u8_less[of c] by (simp add: slots_of_def)

lemma slots_of_upd: "(slots_of f)[unat c := of_nat (addr_of t)] = slots_of (f(c := Some t))"
proof (rule nth_equalityI)
  fix i assume "i < length ((slots_of f)[unat c := of_nat (addr_of t)])"
  then have i: "i < 256" by simp
  then have "unat (of_nat i :: u8) = i" by (simp add: unat_of_nat_less)
  then have "of_nat i = c \<longleftrightarrow> i = unat c" by auto
  with i show "(slots_of f)[unat c := of_nat (addr_of t)] ! i = slots_of (f(c := Some t)) ! i"
    by (auto simp: slots_of_def nth_list_update)
qed simp

lemma slots_of_clear: "(slots_of f)[unat c := 0] = slots_of (f(c := None))"
proof (rule nth_equalityI)
  fix i assume "i < length ((slots_of f)[unat c := 0])"
  then have i: "i < 256" by simp
  then have "unat (of_nat i :: u8) = i" by (simp add: unat_of_nat_less)
  then have "of_nat i = c \<longleftrightarrow> i = unat c" by auto
  with i show "(slots_of f)[unat c := 0] ! i = slots_of (f(c := None)) ! i"
    by (auto simp: slots_of_def nth_list_update)
qed simp

lemma slots_of_empty: "in_slots in_empty = slots_of (\<lambda>_. None)"
  by (simp add: in_empty_def slots_of_def node_consts map_replicate_const)

lemma node_of_ok: "tree_ok p t \<Longrightarrow> node_ok (node_of t)"
  by (cases t) (auto simp: tree_ok_simps in_ok_def node_consts)

section \<open>Blocks of a tree\<close>

abbreviation reach :: "live \<Rightarrow> tstate \<Rightarrow> bool" where
  "reach L s \<equiv> reachable_alloc (L, ts_a s, ts_b s)"

definition used :: "live \<Rightarrow> tstate \<Rightarrow> nat set" where
  "used L s = {a. L a \<noteq> None \<and> a < al_live_hwm (ts_a s)}"

definition owned :: "live \<Rightarrow> tstate \<Rightarrow> nat set \<Rightarrow> bool" where
  "owned L s A \<longleftrightarrow>
     (\<forall>a \<in> A. L a = Some 8192 \<and> a < al_live_hwm (ts_a s) \<and> a \<notin> bl_addr ` set (al_deferred (ts_a s)))"

definition keeps :: "nat set \<Rightarrow> live \<Rightarrow> tstate \<Rightarrow> live \<Rightarrow> tstate \<Rightarrow> bool" where
  "keeps F L s L' s' \<longleftrightarrow>
     al_live_hwm (ts_a s) \<le> al_live_hwm (ts_a s')
     \<and> al_deferred (ts_a s') = al_deferred (ts_a s) \<and> al_reclaim_floor (ts_a s') = al_reclaim_floor (ts_a s)
     \<and> (al_open_pack (ts_a s') = al_open_pack (ts_a s) \<or> al_open_pack (ts_a s') = None)
     \<and> (\<forall>a n. L a = Some n \<longrightarrow> a < al_live_hwm (ts_a s) \<longrightarrow> a \<notin> F \<longrightarrow>
          L' a = Some n \<and> slice a n (bk_bytes (ts_b s')) = slice a n (bk_bytes (ts_b s)))"

text \<open>The blocks an open reclaim scope may release.\<close>

definition reclaimable :: "tstate \<Rightarrow> nat set" where
  "reclaimable s = {a. \<exists>fl. al_reclaim_floor (ts_a s) = Some fl \<and> fl \<le> a}"

lemma keeps_refl [simp]: "keeps F L s L s"
  by (simp add: keeps_def)

lemma keeps_trans: "keeps F L s L1 s1 \<Longrightarrow> keeps G L1 s1 L2 s2 \<Longrightarrow> keeps (F \<union> G) L s L2 s2"
  unfolding keeps_def by (auto dest!: spec)

lemma keeps_mono: "keeps F L s L' s' \<Longrightarrow> F \<subseteq> G \<Longrightarrow> keeps G L s L' s'"
  unfolding keeps_def by (elim conjE, intro conjI) (assumption | blast)+

lemma keeps_reclaimable: "keeps F L s L' s' \<Longrightarrow> reclaimable s' = reclaimable s"
  by (simp add: keeps_def reclaimable_def)

lemma keeps_used: "keeps F L s L' s' \<Longrightarrow> used L s - F \<subseteq> used L' s'"
  by (fastforce simp: keeps_def used_def)

lemma owned_used: "owned L s A \<Longrightarrow> A \<subseteq> used L s"
  by (auto simp: owned_def used_def)

lemma owned_mono: "owned L s A \<Longrightarrow> B \<subseteq> A \<Longrightarrow> owned L s B"
  by (auto simp: owned_def)

lemma owned_Un [simp]: "owned L s (A \<union> B) \<longleftrightarrow> owned L s A \<and> owned L s B"
  by (auto simp: owned_def)

lemma owned_keeps: "owned L s A \<Longrightarrow> keeps F L s L' s' \<Longrightarrow> A \<inter> F = {} \<Longrightarrow> owned L' s' A"
  by (fastforce simp: owned_def keeps_def)

lemma reach_block:
  assumes "reach L s" and "L a = Some n"
  shows "a + n \<le> bk_len (ts_b s)" and "8192 \<le> a" and "bk_ok (ts_b s)"
proof -
  from reachable_al_ok[OF assms(1)] have fr: "frontier_ok (bk_len (ts_b s)) (ts_a s)"
    and bo: "blocks_ok L (bk_len (ts_b s)) (ts_a s)" and b: "bk_ok (ts_b s)" by (simp_all add: al_ok_def)
  from blocks_okD(1)[OF bo assms(2)] fr show "a + n \<le> bk_len (ts_b s)" "8192 \<le> a"
    by (auto simp: block_in_def frontier_ok_def BASE_BLOCK_def)
  show "bk_ok (ts_b s)" by (rule b)
qed

lemma node_size: "block_size NODE_ALLOC_SIZE = 8192"
  by (simp add: block_size_def round_up_to_block_def NODE_ALLOC_SIZE_def BASE_BLOCK_def)

lemma rep_keeps:
  assumes "rep (node_at P c (ts_b s)) t" and "owned L s (addrs t)" and "keeps F L s L' s'" and "addrs t \<inter> F = {}"
    and "reach L s" and "reach L' s'"
  shows "rep (node_at P c (ts_b s')) t"
proof -
  have n: "node_at P c (ts_b s') a n" if "node_at P c (ts_b s) a n" "a \<in> addrs t" for a n
  proof -
    have o: "L a = Some 8192" "a < al_live_hwm (ts_a s)" "a \<notin> F"
      using assms(2,4) that(2) by (auto simp: owned_def)
    have "L' a = Some 8192" "slice a 8192 (bk_bytes (ts_b s')) = slice a 8192 (bk_bytes (ts_b s))"
      using assms(3) o unfolding keeps_def by blast+
    with reach_block[OF assms(6), of a] that(1) reachable_al_ok[OF assms(5)] show ?thesis
      by (intro node_at_cong[of "ts_b s" "ts_b s'"]) auto
  qed
  from assms(1) show ?thesis
    using n
  proof (induction t)
    case (rep_lf a k v)
    then show ?case by simp
  next
    case (rep_nd a tm f)
    then show ?case by fastforce
  qed
qed

lemma alloc_any:
  assumes "reach L s" and "ts_alloc len r s = (Inr loc, s1)"
  defines "L1 \<equiv> (moved_live (ts_a s) (ts_b s) (ts_b s1) L)(bl_addr loc \<mapsto> block_size len)"
  shows "reach L1 s1 \<and> keeps {} L s L1 s1 \<and> bl_addr loc \<notin> used L s
    \<and> bl_addr loc \<notin> bl_addr ` set (al_deferred (ts_a s)) \<and> ts_ent s1 = ts_ent s \<and> bl_len loc = len
    \<and> (bl_addr loc < al_live_hwm (ts_a s1) \<longleftrightarrow> r \<noteq> EvictionTail)"
proof -
  from assms(2) obtain al b where a: "alloc_aligned (ts_a s) (ts_b s) len r = Inr (al, b, loc)"
    and s1: "s1 = s\<lparr>ts_a := al, ts_b := b\<rparr>" by (auto simp: ts_alloc_def split: sum.splits)
  from reachable_al_ok[OF assms(1)] have ok: "al_ok L (bk_len (ts_b s)) (ts_a s)" and b0: "bk_ok (ts_b s)" by simp_all
  note g = alloc_aligned_ok[OF ok b0 a]
  let ?M = "moved_live (ts_a s) (ts_b s) b L"
  have L1: "L1 = ?M(bl_addr loc \<mapsto> block_size len)" by (simp add: L1_def s1)
  have r1: "reach L1 s1" using step[OF assms(1) st_alloc[OF a]] by (simp add: L1 s1)
  have fwd: "?M c = L c" if "c < al_live_hwm (ts_a s)" for c
    by (rule moved_live_forward[OF ok that])
  have ok1: "al_ok L1 (bk_len b) al" using g by (simp add: L1)
  have "al_live_hwm al \<le> al_tail_low al" "tags_ok L1 al" "blocks_ok L1 (bk_len b) al"
    using ok1 by (simp_all add: al_ok_def frontier_ok_def)
  moreover from this(2) have "r = EvictionTail \<longleftrightarrow> al_tail_low al \<le> bl_addr loc"
    using g unfolding tags_ok_def by blast
  moreover have "L1 (bl_addr loc) = Some (block_size len)" by (simp add: L1)
  ultimately have reg: "bl_addr loc < al_live_hwm al \<longleftrightarrow> r \<noteq> EvictionTail"
    using blocks_okD(1)[of L1 "bk_len b" al "bl_addr loc" "block_size len"] block_size_pos[of len]
    by (auto simp: block_in_def simp del: block_size_pos)
  have nu: "bl_addr loc \<notin> used L s" using g fwd by (auto simp: used_def)
  have nd: "bl_addr loc \<notin> bl_addr ` set (al_deferred (ts_a s))"
    using nu ok by (auto simp: used_def al_ok_def pending_ok_def)
  have kept: "L1 x = Some n \<and> slice x n (bk_bytes b) = slice x n (bk_bytes (ts_b s))"
    if "L x = Some n" "x < al_live_hwm (ts_a s)" for x n
  proof -
    have "moved (ts_a s) (ts_b s) b x = x"
      using that(2) ok by (auto simp: moved_def al_ok_def frontier_ok_def)
    moreover have "x \<noteq> bl_addr loc" using nu that by (auto simp: used_def)
    ultimately show ?thesis
      using moved_block(2)[OF ok b0 _ _ _ that(1), of b] g fwd[OF that(2)] that(1) by (auto simp: L1)
  qed
  have "al_tail_low (ts_a s) \<le> bk_len (ts_b s)" using ok by (auto simp: al_ok_def frontier_ok_def)
  from alloc_aligned_pack[OF a b0 this] have "keeps {} L s L1 s1" using kept g by (simp add: keeps_def s1)
  with r1 nu nd reg g show ?thesis by (simp add: s1)
qed

lemma alloc_forward:
  assumes "reach L s" and "ts_alloc NODE_ALLOC_SIZE CatalogHead s = (Inr loc, s1)"
  defines "L1 \<equiv> (moved_live (ts_a s) (ts_b s) (ts_b s1) L)(bl_addr loc \<mapsto> 8192)"
  shows "reach L1 s1 \<and> keeps {} L s L1 s1 \<and> owned L1 s1 {bl_addr loc} \<and> bl_addr loc \<notin> used L s
    \<and> ts_ent s1 = ts_ent s"
proof -
  have a: "reach L1 s1" "keeps {} L s L1 s1" "bl_addr loc \<notin> used L s" "ts_ent s1 = ts_ent s"
      "bl_addr loc \<notin> bl_addr ` set (al_deferred (ts_a s))" "bl_addr loc < al_live_hwm (ts_a s1)"
    using alloc_any[OF assms(1,2)] by (simp_all add: node_size L1_def)
  from a(2,5,6) have "owned L1 s1 {bl_addr loc}" by (simp add: owned_def keeps_def L1_def)
  with a show ?thesis by simp
qed

lemma keeps_unused: "keeps F L s L' s' \<Longrightarrow> F \<inter> used L s \<subseteq> G \<Longrightarrow> keeps G L s L' s'"
  unfolding keeps_def used_def by (elim conjE, intro conjI) (assumption | blast)+

lemma write_node_pair_keeps:
  assumes "prims_ok P" and "reach L s" and "L a = Some 8192" and "write_node_pair_no_flush P c a kind p s = (Inr (), s')"
  shows "reach L s' \<and> keeps {a} L s L s' \<and> two_copies P c (ts_b s') a kind p"
proof -
  note b0 = reach_block(3)[OF assms(2,3)]
  obtain raw v b1 raw' v' b2 e where w: "bk_write_at (ts_b s) (a + 4096) raw = Inr b1" "length raw = 4096"
      "bk_write_at b1 a raw' = Inr b2" "length raw' = 4096" "s' = s\<lparr>ts_b := b2, ts_ent := e\<rparr>"
    by (rule write_pair_writes[OF assms(1,4)], rule that, assumption+)
  have "alloc_step (L, ts_a s, ts_b s) (L, ts_a s, b1)"
    by (rule st_write[where L = L and a = a, OF assms(3) _ _ w(1)]) (simp_all add: w(2))
  moreover have "alloc_step (L, ts_a s, b1) (L, ts_a s, b2)"
    by (rule st_write[where L = L and a = a, OF assms(3) _ _ w(3)]) (simp_all add: w(4))
  ultimately have r: "reach L s'"
    using step[OF step[OF assms(2)]] w(5) by simp
  note d = write_pairD[OF assms(1) b0 assms(4)]
  have dj: "disjoint_blocks L" using reachable_al_ok[OF assms(2)] by (simp add: al_ok_def blocks_ok_def)
  have "slice x n (bk_bytes (ts_b s')) = slice x n (bk_bytes (ts_b s))" if "L x = Some n" "x \<noteq> a" for x n
    using d dj that assms(3) unfolding disjoint_blocks_def by blast
  with r d show ?thesis by (simp add: keeps_def)
qed

lemma alloc_node:
  assumes "prims_ok P" and "reach L s" and "node_ok n" and "node_payload n = Inr p"
    and "alloc_and_write_node_cow P c (node_kind n) p s = (Inr a, s')"
  shows "\<exists>L'. reach L' s' \<and> keeps {} L s L' s' \<and> owned L' s' {a} \<and> node_at P c (ts_b s') a n \<and> a \<notin> used L s"
proof -
  from assms(5) obtain loc s1 where al: "ts_alloc NODE_ALLOC_SIZE CatalogHead s = (Inr loc, s1)"
    and a: "a = bl_addr loc" and w: "write_node_pair_no_flush P c a (node_kind n) p s1 = (Inr (), s')"
    by (auto simp: alloc_and_write_node_cow_def elim!: bind_s_InrE)
  define L1 where "L1 = (moved_live (ts_a s) (ts_b s) (ts_b s1) L)(bl_addr loc \<mapsto> 8192)"
  have f: "reach L1 s1" "keeps {} L s L1 s1" "owned L1 s1 {a}" "a \<notin> used L s"
    using alloc_forward[OF assms(2) al] by (simp_all add: L1_def a)
  have la: "L1 a = Some 8192" by (simp add: L1_def a)
  have g: "reach L1 s'" "keeps {a} L1 s1 L1 s'" "two_copies P c (ts_b s') a (node_kind n) p"
    using write_node_pair_keeps[OF assms(1) f(1) la w] by simp_all
  have "keeps {} L s L1 s'"
    by (rule keeps_unused[OF keeps_trans[OF f(2) g(2)]]) (use f(4) in auto)
  moreover have "owned L1 s' {a}" using f(3) g(2) by (auto simp: owned_def keeps_def)
  moreover have "node_at P c (ts_b s') a n"
    using two_copies_node[OF _ _ g(3) assms(3,4)] reach_block[OF g(1) la] by simp
  ultimately show ?thesis using g(1) f(4) by blast
qed

lemma alloc_leaf:
  assumes "prims_ok P" and "reach L s" and "alloc_leaf_cow P c k v s = (Inr a, s')"
  shows "\<exists>L'. reach L' s' \<and> keeps {} L s L' s' \<and> owned L' s' {a} \<and> node_at P c (ts_b s') a (LeafNode k v) \<and> a \<notin> used L s"
proof -
  from assms(3) obtain p where p: "encode_leaf k v = Inr p" "alloc_and_write_node_cow P c KIND_LEAF p s = (Inr a, s')"
    by (auto simp: alloc_leaf_cow_def elim!: bind_s_InrE)
  then have "node_ok (LeafNode k v)" by (auto simp: encode_leaf_def split: if_splits)
  from alloc_node[OF assms(1,2) this] p show ?thesis by simp
qed

lemma alloc_internal:
  assumes "prims_ok P" and "reach L s" and "in_ok i" and "alloc_internal_cow P c i s = (Inr a, s')"
  shows "\<exists>L'. reach L' s' \<and> keeps {} L s L' s' \<and> owned L' s' {a} \<and> node_at P c (ts_b s') a (InnerNode i) \<and> a \<notin> used L s"
proof -
  from assms(4) obtain p where p: "in_encode i = Inr p" "alloc_and_write_node_cow P c KIND_INTERNAL p s = (Inr a, s')"
    by (auto simp: alloc_internal_cow_def elim!: bind_s_InrE)
  from alloc_node[OF assms(1,2), of "InnerNode i"] p assms(3) show ?thesis by simp
qed

lemma al_free_pack: "al_open_pack (fst (al_free loc al)) = al_open_pack al \<or> al_open_pack (fst (al_free loc al)) = None"
  using pack_close_cases[of "bl_addr loc" "block_size (bl_len loc)" "al\<lparr>al_tags := bt_remove (bl_addr loc) (al_tags al)\<rparr>"]
  by (auto simp: al_free_def Let_def split: option.splits)

lemma free_node:
  assumes "reach L s" and "owned L s {a}"
  shows "\<exists>L'. reach L' (free_node_cow a s) \<and> keeps (reclaimable s \<inter> {a}) L s L' (free_node_cow a s)"
proof -
  let ?loc = "\<lparr>bl_addr = a, bl_len = NODE_ALLOC_SIZE\<rparr>"
  obtain al freed where f: "free_reclaimable ?loc (ts_a s) = (al, freed)" by fastforce
  let ?L = "if freed then L(a := None) else L"
  have "alloc_step (L, ts_a s, ts_b s) (if freed then L(bl_addr ?loc := None) else L, al, ts_b s)"
    by (rule st_reclaim[OF _ _ f]) (use assms(2) in \<open>simp_all add: owned_def node_size\<close>)
  from step[OF assms(1) this] have "reachable_alloc (?L, al, ts_b s)" by (cases freed) simp_all
  moreover have "al_live_hwm al = al_live_hwm (ts_a s) \<and> al_deferred al = al_deferred (ts_a s)
      \<and> al_reclaim_floor al = al_reclaim_floor (ts_a s) \<and> (freed \<longrightarrow> a \<in> reclaimable s)"
    using f by (auto simp: free_reclaimable_def reclaimable_def split: option.splits if_splits)
      (metis al_free_sel fst_conv)+
  moreover have "al_open_pack al = al_open_pack (ts_a s) \<or> al_open_pack al = None"
    using f al_free_pack[of ?loc "ts_a s"] by (auto simp: free_reclaimable_def split: option.splits if_splits)
  ultimately show ?thesis
    by (intro exI[of _ ?L]) (auto simp: free_node_cow_def f keeps_def)
qed

end
