(* ===== verification/Trie_Put.thy ===== *)
theory Trie_Put
  imports Trie_Rep
begin

text \<open>
  Copy-on-write insertion: \<^verbatim>\<open>put_at\<close> and \<^verbatim>\<open>branch_leaf\<close> of \<^verbatim>\<open>catalog/trie.rs\<close> build a tree that maps the key
  to the value and every other key as before, out of fresh blocks and blocks of the old tree, and
  release no block but the batch-local ones of the path they replace.
\<close>

section \<open>Building nodes\<close>

definition heap_tree :: "prims \<Rightarrow> node_crypto \<Rightarrow> live \<Rightarrow> tstate \<Rightarrow> bytes \<Rightarrow> tree \<Rightarrow> bool" where
  "heap_tree P c L s p t \<longleftrightarrow>
     reach L s \<and> rep (node_at P c (ts_b s)) t \<and> owned L s (addrs t) \<and> tree_ok p t"

definition heap_kids :: "prims \<Rightarrow> node_crypto \<Rightarrow> live \<Rightarrow> tstate \<Rightarrow> bytes \<Rightarrow> (u8 \<Rightarrow> tree option) \<Rightarrow> bool" where
  "heap_kids P c L s p f \<longleftrightarrow>
     reach L s \<and> (\<forall>x t. f x = Some t \<longrightarrow> heap_tree P c L s (p @ [x]) t)
     \<and> (\<forall>x t y u. f x = Some t \<longrightarrow> f y = Some u \<longrightarrow> x \<noteq> y \<longrightarrow> addrs t \<inter> addrs u = {})"

definition kid_addrs :: "(u8 \<Rightarrow> tree option) \<Rightarrow> nat set" where
  "kid_addrs f = {a. \<exists>x t. f x = Some t \<and> a \<in> addrs t}"

lemma addrs_kids: "addrs (Nd a tm f) = insert a (kid_addrs f)"
  by (auto simp: kid_addrs_def)

lemma kid_addrsI: "f x = Some t \<Longrightarrow> addrs t \<subseteq> kid_addrs f"
  by (auto simp: kid_addrs_def)

lemma heap_tree_Nd:
  "heap_tree P c L s p (Nd a tm f) \<longleftrightarrow>
     heap_kids P c L s p f \<and> node_at P c (ts_b s) a (node_of (Nd a tm f)) \<and> owned L s {a} \<and> a \<notin> kid_addrs f
     \<and> length p \<le> MAX_KEY_LEN \<and> (\<forall>v. tm = Some v \<longrightarrow> length v \<le> MAX_VAL_LEN)"
proof -
  have o: "owned L s (insert a (kid_addrs f)) \<longleftrightarrow> owned L s {a} \<and> (\<forall>x t. f x = Some t \<longrightarrow> owned L s (addrs t))"
    unfolding owned_def kid_addrs_def by blast
  have n: "a \<notin> kid_addrs f \<longleftrightarrow> (\<forall>x t. f x = Some t \<longrightarrow> a \<notin> addrs t)"
    unfolding kid_addrs_def by blast
  have k: "tree_ok p (Nd a tm f) \<longleftrightarrow> length p \<le> MAX_KEY_LEN \<and> (\<forall>v. tm = Some v \<longrightarrow> length v \<le> MAX_VAL_LEN)
      \<and> (\<forall>x t. f x = Some t \<longrightarrow> tree_ok (p @ [x]) t) \<and> a \<notin> kid_addrs f
      \<and> (\<forall>x t y u. f x = Some t \<longrightarrow> f y = Some u \<longrightarrow> x \<noteq> y \<longrightarrow> addrs t \<inter> addrs u = {})"
    unfolding tree_ok_simps n by meson
  have h: "heap_kids P c L s p f \<longleftrightarrow> reach L s \<and> (\<forall>x t. f x = Some t \<longrightarrow> rep (node_at P c (ts_b s)) t)
      \<and> (\<forall>x t. f x = Some t \<longrightarrow> owned L s (addrs t)) \<and> (\<forall>x t. f x = Some t \<longrightarrow> tree_ok (p @ [x]) t)
      \<and> (\<forall>x t y u. f x = Some t \<longrightarrow> f y = Some u \<longrightarrow> x \<noteq> y \<longrightarrow> addrs t \<inter> addrs u = {})"
    unfolding heap_kids_def heap_tree_def by meson
  show ?thesis
    unfolding heap_tree_def[of P c L s p "Nd a tm f"] k h addrs_kids o rep_simps node_of.simps by meson
qed

lemma heap_tree_keeps:
  assumes "heap_tree P c L s p t" and "keeps F L s L' s'" and "addrs t \<inter> F = {}" and "reach L' s'"
  shows "heap_tree P c L' s' p t"
  using assms rep_keeps[of P c s t L F L' s'] owned_keeps[of L s "addrs t" F L' s'] by (simp add: heap_tree_def)

lemma heap_kids_keeps:
  assumes "heap_kids P c L s p f" and "keeps F L s L' s'" and "kid_addrs f \<inter> F = {}" and "reach L' s'"
  shows "heap_kids P c L' s' p f"
  unfolding heap_kids_def
proof (intro conjI allI impI)
  fix x t assume "f x = Some t"
  moreover from this have "addrs t \<inter> F = {}" using kid_addrsI[of f x t] assms(3) by blast
  moreover have "heap_tree P c L s (p @ [x]) t" using calculation(1) assms(1) by (simp add: heap_kids_def)
  ultimately show "heap_tree P c L' s' (p @ [x]) t" using heap_tree_keeps assms(2,4) by blast
next
  show "addrs t \<inter> addrs u = {}" if "f x = Some t" "f y = Some u" "x \<noteq> y" for x t y u
    using assms(1) that by (simp add: heap_kids_def)
qed (rule assms(4))

lemma heap_kids_upd:
  assumes "heap_kids P c L s p f" and "heap_tree P c L s (p @ [x]) t" and "addrs t \<inter> kid_addrs (f(x := None)) = {}"
  shows "heap_kids P c L s p (f(x := Some t))"
proof -
  have "addrs u \<inter> addrs t = {}" if "f y = Some u" "y \<noteq> x" for y u
    using assms(3) kid_addrsI[of "f(x := None)" y u] that by auto
  with assms(1,2) show ?thesis unfolding heap_kids_def by (auto split: if_splits)
qed

lemma heap_kids_remove: "heap_kids P c L s p f \<Longrightarrow> heap_kids P c L s p (f(x := None))"
  unfolding heap_kids_def by (simp split: if_splits)

lemma heap_kids_empty: "reach L s \<Longrightarrow> heap_kids P c L s p (\<lambda>_. None)"
  by (simp add: heap_kids_def)

lemma heap_kids_used: "heap_kids P c L s p f \<Longrightarrow> kid_addrs f \<subseteq> used L s"
  using owned_used by (fastforce simp: heap_kids_def heap_tree_def kid_addrs_def)

lemma heap_tree_used: "heap_tree P c L s p t \<Longrightarrow> addrs t \<subseteq> used L s"
  using owned_used by (auto simp: heap_tree_def)

lemma kid_addrs_upd: "kid_addrs (f(x := Some t)) = addrs t \<union> kid_addrs (f(x := None))"
  by (auto simp: kid_addrs_def split: if_splits)

lemma kid_addrs_remove: "kid_addrs (f(x := None)) \<subseteq> kid_addrs f"
  by (auto simp: kid_addrs_def split: if_splits)

lemma new_leaf:
  assumes "prims_ok P" and "reach L s" and "alloc_leaf_cow P c k v s = (Inr a, s')" and "take (length p) k = p"
  shows "\<exists>L'. heap_tree P c L' s' p (Lf a k v) \<and> keeps {} L s L' s' \<and> a \<notin> used L s"
proof -
  have "length k \<le> MAX_KEY_LEN" "length v \<le> MAX_VAL_LEN"
    using assms(3) by (auto simp: alloc_leaf_cow_def encode_leaf_def split: if_splits)
  with alloc_leaf[OF assms(1-3)] assms(4) show ?thesis
    by (auto simp: heap_tree_def tree_ok_simps)
qed

lemma new_inner:
  assumes "prims_ok P" and "heap_kids P c L s p f" and "alloc_internal_cow P c \<lparr>in_term = tm, in_slots = slots_of f\<rparr> s = (Inr a, s')"
    and "length p \<le> MAX_KEY_LEN" and "\<forall>v. tm = Some v \<longrightarrow> length v \<le> MAX_VAL_LEN"
  shows "\<exists>L'. heap_tree P c L' s' p (Nd a tm f) \<and> keeps {} L s L' s' \<and> a \<notin> used L s"
proof -
  have "in_ok \<lparr>in_term = tm, in_slots = slots_of f\<rparr>" using assms(5) by (simp add: in_ok_def node_consts)
  moreover have "reach L s" using assms(2) by (simp add: heap_kids_def)
  ultimately obtain L' where L': "reach L' s'" "keeps {} L s L' s'" "owned L' s' {a}"
      "node_at P c (ts_b s') a (node_of (Nd a tm f))" "a \<notin> used L s"
    using alloc_internal[OF assms(1) _ _ assms(3)] by fastforce
  have "heap_kids P c L' s' p f" by (rule heap_kids_keeps[OF assms(2) L'(2) _ L'(1)]) simp
  then show ?thesis
    using L' heap_kids_used[OF assms(2)] assms(4,5) unfolding heap_tree_Nd by blast
qed

lemma heap_addr:
  assumes "heap_tree P c L s p t"
  shows "unat (of_nat (addr_of t) :: u64) = addr_of t" and "(of_nat (addr_of t) :: u64) \<noteq> 0"
proof -
  from assms have "reach L s" "L (addr_of t) = Some 8192" by (auto simp: heap_tree_def owned_def)
  then have l: "8192 \<le> addr_of t" "addr_of t < 2 ^ 64"
    using reach_block[of L s "addr_of t" 8192] by (auto simp: bk_ok_def)
  then show u: "unat (of_nat (addr_of t) :: u64) = addr_of t" by (simp add: unat_of_nat_less)
  show "(of_nat (addr_of t) :: u64) \<noteq> 0"
  proof
    assume "(of_nat (addr_of t) :: u64) = 0"
    with u have "addr_of t = 0" by simp
    with l show False by simp
  qed
qed

section \<open>Branching a leaf\<close>

lemma first_diff_spec:
  assumes "d \<le> m"
  shows "d \<le> first_diff x y m d \<and> first_diff x y m d \<le> m
    \<and> (\<forall>i. d \<le> i \<longrightarrow> i < first_diff x y m d \<longrightarrow> x ! i = y ! i)
    \<and> (first_diff x y m d < m \<longrightarrow> x ! first_diff x y m d \<noteq> y ! first_diff x y m d)"
  using assms
proof (induction x y m d rule: first_diff.induct)
  case (1 x y m d)
  show ?case
  proof (cases "d < m \<and> x ! d = y ! d")
    case True
    with 1 have "d + 1 \<le> first_diff x y m (d + 1) \<and> first_diff x y m (d + 1) \<le> m
      \<and> (\<forall>i. d + 1 \<le> i \<longrightarrow> i < first_diff x y m (d + 1) \<longrightarrow> x ! i = y ! i)
      \<and> (first_diff x y m (d + 1) < m \<longrightarrow> x ! first_diff x y m (d + 1) \<noteq> y ! first_diff x y m (d + 1))" by simp
    moreover have "first_diff x y m d = first_diff x y m (d + 1)" using True by (subst first_diff.simps) simp
    ultimately show ?thesis using True by (auto simp: Suc_le_eq) (metis le_neq_implies_less)+
  next
    case False
    then have "first_diff x y m d = d" by (subst first_diff.simps) (simp only: if_False)
    with False 1 show ?thesis by auto
  qed
qed

lemma single_kid:
  assumes "heap_tree P c L s (p @ [x]) t"
  shows "heap_kids P c L s p [x \<mapsto> t]" and "kid_addrs [x \<mapsto> t] = addrs t"
  using assms by (auto simp: heap_kids_def heap_tree_def kid_addrs_def split: if_splits)

lemma wrap_chain_ok:
  assumes "prims_ok P" and "length key \<le> MAX_KEY_LEN"
  shows "heap_tree P c L s (take d key) t \<Longrightarrow> depth \<le> d \<Longrightarrow> d \<le> length key \<Longrightarrow>
    wrap_chain P c key (rev [depth..<d]) (addr_of t) s = (Inr a, s') \<Longrightarrow>
    \<exists>L' t'. addr_of t' = a \<and> heap_tree P c L' s' (take depth key) t' \<and> keeps {} L s L' s'
      \<and> addrs t' \<inter> used L s \<subseteq> addrs t
      \<and> (\<forall>k. take depth k = take depth key \<longrightarrow> depth \<le> length k \<longrightarrow>
           look t' k depth = (if take d k = take d key \<and> d \<le> length k then look t k d else None))"
proof (induction "d - depth" arbitrary: d t L s)
  case 0
  then show ?case by (intro exI[of _ L] exI[of _ t]) simp
next
  case (Suc n)
  then obtain e where e: "d = Suc e" "depth \<le> e" "n = e - depth" "e < length key"
    by (cases d) auto
  let ?f = "[key ! e \<mapsto> t]"
  have path: "take d key = take e key @ [key ! e]" using e by (simp add: take_Suc_conv_app_nth)
  from Suc.prems(4) e obtain a1 s1 where
    w: "alloc_internal_cow P c (in_empty\<lparr>in_slots := (in_slots in_empty)[unat (key ! e) := of_nat (addr_of t)]\<rparr>) s = (Inr a1, s1)"
      "wrap_chain P c key (rev [depth..<e]) a1 s1 = (Inr a, s')"
    by (auto elim!: bind_s_InrE)
  have node: "in_empty\<lparr>in_slots := (in_slots in_empty)[unat (key ! e) := of_nat (addr_of t)]\<rparr>
      = \<lparr>in_term = None, in_slots = slots_of ?f\<rparr>"
    unfolding slots_of_empty slots_of_upd by (simp add: in_empty_def)
  have kids: "heap_kids P c L s (take e key) ?f" "kid_addrs ?f = addrs t"
    using single_kid Suc.prems(1) path by metis+
  have "length (take e key) \<le> MAX_KEY_LEN" using assms(2) by simp
  then obtain L1 where L1: "heap_tree P c L1 s1 (take e key) (Nd a1 None ?f)" "keeps {} L s L1 s1" "a1 \<notin> used L s"
    using new_inner[OF assms(1) kids(1) w(1)[unfolded node]] by auto
  have "\<exists>L' t'. addr_of t' = a \<and> heap_tree P c L' s' (take depth key) t' \<and> keeps {} L1 s1 L' s'
      \<and> addrs t' \<inter> used L1 s1 \<subseteq> addrs (Nd a1 None ?f)
      \<and> (\<forall>k. take depth k = take depth key \<longrightarrow> depth \<le> length k \<longrightarrow>
           look t' k depth = (if take e k = take e key \<and> e \<le> length k then look (Nd a1 None ?f) k e else None))"
    by (rule Suc.hyps(1)[OF e(3) L1(1) e(2)]) (use e w(2) in simp_all)
  then obtain L' t' where t': "addr_of t' = a" "heap_tree P c L' s' (take depth key) t'" "keeps {} L1 s1 L' s'"
      "addrs t' \<inter> used L1 s1 \<subseteq> addrs (Nd a1 None ?f)"
      "\<forall>k. take depth k = take depth key \<longrightarrow> depth \<le> length k \<longrightarrow>
           look t' k depth = (if take e k = take e key \<and> e \<le> length k then look (Nd a1 None ?f) k e else None)" by blast
  have "keeps {} L s L' s'" using keeps_trans[OF L1(2) t'(3)] by simp
  moreover have "addrs t' \<inter> used L s \<subseteq> addrs t"
    using t'(4) keeps_used[OF L1(2)] L1(3) kids(2) unfolding addrs_kids by blast
  moreover have "look t' k depth = (if take d k = take d key \<and> d \<le> length k then look t k d else None)"
    if k: "take depth k = take depth key" "depth \<le> length k" for k
  proof -
    have "(take d k = take d key \<and> d \<le> length k) = (take e k = take e key \<and> e < length k \<and> k ! e = key ! e)"
      using e by (auto simp: take_Suc_conv_app_nth not_less)
    then show ?thesis using t'(5) k e by auto
  qed
  ultimately show ?case using t'(1,2) by blast
qed

lemma wrap_node:
  assumes "prims_ok P" and "length key \<le> MAX_KEY_LEN" and "heap_kids P c L s (take d key) f" and "depth \<le> d" "d \<le> length key"
    and "\<forall>v. tm = Some v \<longrightarrow> length v \<le> MAX_VAL_LEN"
    and "alloc_internal_cow P c \<lparr>in_term = tm, in_slots = slots_of f\<rparr> s = (Inr a1, s1)"
    and "wrap_chain P c key (rev [depth..<d]) a1 s1 = (Inr a, s')"
  shows "\<exists>L' t'. addr_of t' = a \<and> heap_tree P c L' s' (take depth key) t' \<and> keeps {} L s L' s'
      \<and> addrs t' \<inter> used L s \<subseteq> kid_addrs f
      \<and> (\<forall>k. take depth k = take depth key \<longrightarrow> depth \<le> length k \<longrightarrow>
           look t' k depth = (if take d k = take d key \<and> d \<le> length k then look (Nd a1 tm f) k d else None))"
proof -
  have "length (take d key) \<le> MAX_KEY_LEN" using assms(2) by simp
  then obtain L1 where L1: "heap_tree P c L1 s1 (take d key) (Nd a1 tm f)" "keeps {} L s L1 s1" "a1 \<notin> used L s"
    using new_inner[OF assms(1,3,7)] assms(6) by auto
  have w: "wrap_chain P c key (rev [depth..<d]) (addr_of (Nd a1 tm f)) s1 = (Inr a, s')" using assms(8) by simp
  obtain L' t' where t': "addr_of t' = a" "heap_tree P c L' s' (take depth key) t'" "keeps {} L1 s1 L' s'"
      "addrs t' \<inter> used L1 s1 \<subseteq> addrs (Nd a1 tm f)"
      "\<forall>k. take depth k = take depth key \<longrightarrow> depth \<le> length k \<longrightarrow>
           look t' k depth = (if take d k = take d key \<and> d \<le> length k then look (Nd a1 tm f) k d else None)"
    using wrap_chain_ok[OF assms(1,2) L1(1) assms(4,5) w] by blast
  have "keeps {} L s L' s'" using keeps_trans[OF L1(2) t'(3)] by simp
  moreover have "addrs t' \<inter> used L s \<subseteq> kid_addrs f"
    using t'(4) keeps_used[OF L1(2)] L1(3) unfolding addrs_kids by blast
  ultimately show ?thesis using t'(1,2,5) by blast
qed

lemma path_under: "take (length p) k = p \<Longrightarrow> length p \<le> length k"
  by (metis length_take min.cobounded1 min_def)

lemma first_diff_agree:
  assumes "take (length p) old = p" and "take (length p) new = p" and "m = min (length old) (length new)"
    and "d = first_diff old new m (length p)"
  shows "length p \<le> d \<and> d \<le> m \<and> (d < m \<longrightarrow> old ! d \<noteq> new ! d) \<and> take d new = take d old"
proof -
  have "length p \<le> m" using path_under[OF assms(1)] path_under[OF assms(2)] assms(3) by simp
  then have d: "length p \<le> d" "d \<le> m" "\<And>i. length p \<le> i \<Longrightarrow> i < d \<Longrightarrow> old ! i = new ! i"
      "d < m \<longrightarrow> old ! d \<noteq> new ! d"
    using first_diff_spec[of "length p" m old new] assms(4) by auto
  have "take d new = take d old"
  proof (rule nth_equalityI)
    fix i assume "i < length (take d new)"
    then have i: "i < d" by simp
    show "take d new ! i = take d old ! i"
    proof (cases "i < length p")
      case True
      then show ?thesis using i assms(1,2) by (metis nth_take)
    qed (use d(3)[of i] i in simp)
  qed (use d(2) assms(3) in simp)
  with d show ?thesis by blast
qed

text \<open>One key is a proper prefix of the other.\<close>

lemma branch_prefix:
  assumes "prims_ok P" and "reach L s" and "take (length p) short = p" and "length short < length long"
    and "take (length short) long = short" and "length long \<le> MAX_KEY_LEN" and "length sv \<le> MAX_VAL_LEN"
    and "alloc_leaf_cow P c long lv s = (Inr a1, s1)"
    and "alloc_internal_cow P c \<lparr>in_term = Some sv,
            in_slots = (in_slots in_empty)[unat (long ! length short) := of_nat a1]\<rparr> s1 = (Inr a2, s2)"
    and "wrap_chain P c short (rev [length p..<length short]) a2 s2 = (Inr a, s')"
  shows "\<exists>L' t'. addr_of t' = a \<and> heap_tree P c L' s' p t' \<and> keeps {} L s L' s' \<and> addrs t' \<inter> used L s = {}
    \<and> (\<forall>k. take (length p) k = p \<longrightarrow>
         look t' k (length p) = (if k = short then Some sv else if k = long then Some lv else None))"
proof -
  let ?d = "length short" and ?x = "long ! length short" and ?q = "length p"
  have path: "take (length (short @ [?x])) long = short @ [?x]"
    using assms(4,5) by (simp add: take_Suc_conv_app_nth)
  from new_leaf[OF assms(1,2,8) path] obtain L1 where
    L1: "heap_tree P c L1 s1 (short @ [?x]) (Lf a1 long lv)" "keeps {} L s L1 s1" "a1 \<notin> used L s" by blast
  let ?f = "[?x \<mapsto> Lf a1 long lv]"
  note kids = single_kid[OF L1(1)]
  have node: "\<lparr>in_term = Some sv, in_slots = (in_slots in_empty)[unat ?x := of_nat a1]\<rparr>
      = \<lparr>in_term = Some sv, in_slots = slots_of ?f\<rparr>"
    using slots_of_upd[of "\<lambda>_. None" ?x "Lf a1 long lv"] by (simp add: slots_of_empty)
  have pl: "?q \<le> ?d" by (rule path_under[OF assms(3)])
  have "\<exists>L' t'. addr_of t' = a \<and> heap_tree P c L' s' (take ?q short) t' \<and> keeps {} L1 s1 L' s'
      \<and> addrs t' \<inter> used L1 s1 \<subseteq> kid_addrs ?f
      \<and> (\<forall>k. take ?q k = take ?q short \<longrightarrow> ?q \<le> length k \<longrightarrow>
           look t' k ?q = (if take ?d k = take ?d short \<and> ?d \<le> length k then look (Nd a2 (Some sv) ?f) k ?d else None))"
    by (rule wrap_node[OF assms(1) _ _ pl _ _ assms(9)[unfolded node] assms(10)]) (use kids(1) assms(4,6,7) in simp_all)
  then obtain L' t' where t': "addr_of t' = a" "heap_tree P c L' s' p t'" "keeps {} L1 s1 L' s'"
      "addrs t' \<inter> used L1 s1 \<subseteq> {a1}"
      "\<And>k. take ?q k = p \<Longrightarrow> ?q \<le> length k \<Longrightarrow>
           look t' k ?q = (if take ?d k = short \<and> ?d \<le> length k then look (Nd a2 (Some sv) ?f) k ?d else None)"
    unfolding kids(2) by (auto simp: assms(3))
  have "keeps {} L s L' s'" using keeps_trans[OF L1(2) t'(3)] by simp
  moreover have "addrs t' \<inter> used L s = {}"
    using t'(4) keeps_used[OF L1(2)] L1(3) by blast
  moreover have "look t' k ?q = (if k = short then Some sv else if k = long then Some lv else None)"
    if k: "take ?q k = p" for k
  proof -
    have "k = short \<longleftrightarrow> take ?d k = short \<and> length k = ?d" by auto
    then show ?thesis
      unfolding t'(5)[OF k path_under[OF k]] using assms(4,5) by (auto split: option.splits if_splits)
  qed
  ultimately show ?thesis using t'(1,2) by blast
qed

text \<open>The keys differ at byte \<open>d\<close>.\<close>

lemma branch_fork:
  assumes "prims_ok P" and "reach L s" and "take (length p) old = p" and "length p \<le> d" "d < length old" "d < length new"
    and "take d new = take d old" and "old ! d \<noteq> new ! d" and "length old \<le> MAX_KEY_LEN"
    and "alloc_leaf_cow P c old ov s = (Inr a1, s1)" and "alloc_leaf_cow P c new nv s1 = (Inr a2, s2)"
    and "alloc_internal_cow P c (in_empty\<lparr>in_slots := (in_slots in_empty)
            [unat (old ! d) := of_nat a1, unat (new ! d) := of_nat a2]\<rparr>) s2 = (Inr a3, s3)"
    and "wrap_chain P c old (rev [length p..<d]) a3 s3 = (Inr a, s')"
  shows "\<exists>L' t'. addr_of t' = a \<and> heap_tree P c L' s' p t' \<and> keeps {} L s L' s' \<and> addrs t' \<inter> used L s = {}
    \<and> (\<forall>k. take (length p) k = p \<longrightarrow>
         look t' k (length p) = (if k = new then Some nv else if k = old then Some ov else None))"
proof -
  let ?q = "length p" and ?P = "take d old"
  have path: "take (length (?P @ [old ! d])) old = ?P @ [old ! d]" "take (length (?P @ [new ! d])) new = ?P @ [new ! d]"
    using assms(5,6,7) by (simp_all add: take_Suc_conv_app_nth)
  from new_leaf[OF assms(1,2,10) path(1)] obtain L1 where
    L1: "heap_tree P c L1 s1 (?P @ [old ! d]) (Lf a1 old ov)" "keeps {} L s L1 s1" "a1 \<notin> used L s" by blast
  then have "reach L1 s1" by (simp add: heap_tree_def)
  from new_leaf[OF assms(1) this assms(11) path(2)] obtain L2 where
    L2: "heap_tree P c L2 s2 (?P @ [new ! d]) (Lf a2 new nv)" "keeps {} L1 s1 L2 s2" "a2 \<notin> used L1 s1" by blast
  have old2: "heap_tree P c L2 s2 (?P @ [old ! d]) (Lf a1 old ov)"
    by (rule heap_tree_keeps[OF L1(1) L2(2)]) (use L2(1) in \<open>simp_all add: heap_tree_def\<close>)
  have ne: "a1 \<noteq> a2" using heap_tree_used[OF L1(1)] L2(3) by auto
  let ?f = "[old ! d \<mapsto> Lf a1 old ov, new ! d \<mapsto> Lf a2 new nv]"
  have kids: "heap_kids P c L2 s2 ?P ?f"
    by (rule heap_kids_upd[OF single_kid(1)[OF old2] L2(1)]) (use ne in \<open>auto simp: kid_addrs_def split: if_splits\<close>)
  have ka: "kid_addrs ?f = {a1, a2}"
  proof -
    have "[old ! d \<mapsto> Lf a1 old ov](new ! d := None) = [old ! d \<mapsto> Lf a1 old ov]"
      using assms(8) by (simp add: fun_eq_iff)
    then show ?thesis using kid_addrs_upd[of "[old ! d \<mapsto> Lf a1 old ov]" "new ! d" "Lf a2 new nv"] single_kid(2)[OF old2]
      by auto
  qed
  have node: "in_empty\<lparr>in_slots := (in_slots in_empty)[unat (old ! d) := of_nat a1, unat (new ! d) := of_nat a2]\<rparr>
      = \<lparr>in_term = None, in_slots = slots_of ?f\<rparr>"
    using slots_of_upd[of "\<lambda>_. None" "old ! d" "Lf a1 old ov"] slots_of_upd[of "[old ! d \<mapsto> Lf a1 old ov]" "new ! d" "Lf a2 new nv"]
    by (simp add: slots_of_empty) (simp add: in_empty_def)
  have "\<exists>L' t'. addr_of t' = a \<and> heap_tree P c L' s' (take ?q old) t' \<and> keeps {} L2 s2 L' s'
      \<and> addrs t' \<inter> used L2 s2 \<subseteq> kid_addrs ?f
      \<and> (\<forall>k. take ?q k = take ?q old \<longrightarrow> ?q \<le> length k \<longrightarrow>
           look t' k ?q = (if take d k = ?P \<and> d \<le> length k then look (Nd a3 None ?f) k d else None))"
    by (rule wrap_node[OF assms(1,9) kids assms(4) _ _ assms(12)[unfolded node] assms(13)]) (use assms(5) in simp_all)
  then obtain L' t' where t': "addr_of t' = a" "heap_tree P c L' s' p t'" "keeps {} L2 s2 L' s'"
      "addrs t' \<inter> used L2 s2 \<subseteq> {a1, a2}"
      "\<And>k. take ?q k = p \<Longrightarrow> ?q \<le> length k \<Longrightarrow>
           look t' k ?q = (if take d k = ?P \<and> d \<le> length k then look (Nd a3 None ?f) k d else None)"
    unfolding ka assms(3) by blast
  have k2: "keeps {} L s L2 s2" using keeps_trans[OF L1(2) L2(2)] by simp
  then have "keeps {} L s L' s'" using keeps_trans[OF _ t'(3)] by fastforce
  moreover have "addrs t' \<inter> used L s = {}"
    using t'(4) keeps_used[OF k2] keeps_used[OF L1(2)] L1(3) L2(3) by blast
  moreover have "look t' k ?q = (if k = new then Some nv else if k = old then Some ov else None)"
    if k: "take ?q k = p" for k
    unfolding t'(5)[OF k path_under[OF k]] using assms(5-8) by (auto split: option.splits if_splits)
  ultimately show ?thesis using t'(1,2) by blast
qed

lemma branch_leaf_ok:
  assumes "prims_ok P" and "reach L s" and "take (length p) old = p" and "take (length p) new = p" and "old \<noteq> new"
    and "length old \<le> MAX_KEY_LEN" "length new \<le> MAX_KEY_LEN" and "length ov \<le> MAX_VAL_LEN" "length nv \<le> MAX_VAL_LEN"
    and br: "branch_leaf P c old ov new nv (length p) s = (Inr a, s')"
  shows "\<exists>L' t'. addr_of t' = a \<and> heap_tree P c L' s' p t' \<and> keeps {} L s L' s' \<and> addrs t' \<inter> used L s = {}
    \<and> (\<forall>k. take (length p) k = p \<longrightarrow>
         look t' k (length p) = (if k = new then Some nv else if k = old then Some ov else None))"
proof -
  define m where "m = min (length old) (length new)"
  define d where "d = first_diff old new m (length p)"
  have d: "length p \<le> d" "d \<le> m" "d < m \<Longrightarrow> old ! d \<noteq> new ! d" and agree: "take d new = take d old"
    using first_diff_agree[OF assms(3,4) m_def d_def] by auto
  show ?thesis
  proof (cases "d = m")
    case True
    show ?thesis
    proof (cases "length old < length new")
      case lt: True
      have pre: "take (length old) new = old" and dl: "d = length old" using agree True lt by (simp_all add: m_def)
      from br lt True dl obtain a1 s1 a2 s2 where
        "alloc_leaf_cow P c new nv s = (Inr a1, s1)"
        "alloc_internal_cow P c \<lparr>in_term = Some ov, in_slots = (in_slots in_empty)[unat (new ! length old) := of_nat a1]\<rparr> s1 = (Inr a2, s2)"
        "wrap_chain P c old (rev [length p..<length old]) a2 s2 = (Inr a, s')"
        by (auto simp: branch_leaf_def Let_def m_def[symmetric] d_def[symmetric] elim!: bind_s_InrE split: if_splits)
      note r = branch_prefix[OF assms(1,2,3) lt pre assms(7,8) this]
      have "(if k = old then Some ov else if k = new then Some nv else None)
          = (if k = new then Some nv else if k = old then Some ov else None)" for k using assms(5) by simp
      from r[unfolded this] show ?thesis .
    next
      case ge: False
      then have dl: "d = length new" using True by (simp add: m_def)
      with agree have pre: "take (length new) old = new" by simp
      have "length new \<noteq> length old" using pre assms(5) by auto
      then have lt: "length new < length old" using ge by simp
      from br ge True dl lt obtain a1 s1 a2 s2 where
        "alloc_leaf_cow P c old ov s = (Inr a1, s1)"
        "alloc_internal_cow P c \<lparr>in_term = Some nv, in_slots = (in_slots in_empty)[unat (old ! length new) := of_nat a1]\<rparr> s1 = (Inr a2, s2)"
        "wrap_chain P c new (rev [length p..<length new]) a2 s2 = (Inr a, s')"
        by (auto simp: branch_leaf_def Let_def m_def[symmetric] d_def[symmetric] elim!: bind_s_InrE split: if_splits)
      from branch_prefix[OF assms(1,2,4) lt pre assms(6,9) this] show ?thesis .
    qed
  next
    case False
    then have dm: "d < m" using d(2) by simp
    then have lt: "d < length old" "d < length new" "old ! d \<noteq> new ! d" using d(3)[OF dm] by (simp_all add: m_def)
    from br False lt obtain a1 s1 a2 s2 a3 s3 where
      "alloc_leaf_cow P c old ov s = (Inr a1, s1)" "alloc_leaf_cow P c new nv s1 = (Inr a2, s2)"
      "alloc_internal_cow P c (in_empty\<lparr>in_slots := (in_slots in_empty)
            [unat (old ! d) := of_nat a1, unat (new ! d) := of_nat a2]\<rparr>) s2 = (Inr a3, s3)"
      "wrap_chain P c old (rev [length p..<d]) a3 s3 = (Inr a, s')"
      by (auto simp: branch_leaf_def Let_def m_def[symmetric] d_def[symmetric] elim!: bind_s_InrE split: if_splits)
    then show ?thesis by (rule branch_fork[OF assms(1,2,3) d(1) lt(1,2) agree lt(3) assms(6)])
  qed
qed

section \<open>Insertion\<close>

lemma read_leaf:
  assumes "node_at P c b a (LeafNode k v)"
  obtains block where "read_node_with_backup P b a c = Inr block" "block ! OFF_KIND = KIND_LEAF" "decode_leaf block = Inr (k, v)"
  using assms by (auto simp: node_at_def)

lemma read_inner:
  assumes "node_at P c b a (InnerNode i)"
  obtains block where "read_node_with_backup P b a c = Inr block" "block ! OFF_KIND = KIND_INTERNAL"
    "block ! OFF_KIND \<noteq> KIND_LEAF" "in_decode block = i"
  using assms by (auto simp: node_at_def KIND_LEAF_def KIND_INTERNAL_def)

lemma put_at_leaf:
  assumes "node_at P c (ts_b s) a (LeafNode k v)"
  shows "put_at P c a key val d s =
    bind_s (if k = key then alloc_leaf_cow P c key val s else branch_leaf P c k v key val d s)
      (\<lambda>na s. (Inr na, free_node_cow a s))"
  by (rule read_leaf[OF assms]) (subst put_at.simps, simp)

lemma put_at_inner:
  assumes "node_at P c (ts_b s) a (InnerNode i)"
  shows "put_at P c a key val d s =
    bind_s (if d = length key then alloc_internal_cow P c (i\<lparr>in_term := Some val\<rparr>) s
            else if length key < d then (Inl (Panic ''index out of bounds''), s)
            else bind_s (if in_slots i ! unat (key ! d) = 0 then alloc_leaf_cow P c key val s
                         else put_at P c (unat (in_slots i ! unat (key ! d))) key val (d + 1) s)
                   (\<lambda>nc s. alloc_internal_cow P c (i\<lparr>in_slots := (in_slots i)[unat (key ! d) := of_nat nc]\<rparr>) s))
      (\<lambda>na s. (Inr na, free_node_cow a s))"
  by (rule read_inner[OF assms]) (subst put_at.simps, simp add: Let_def)

text \<open>The last step of a frame: the node it replaces is released if it is batch-local.\<close>

lemma supersede:
  assumes "heap_tree P c L1 s1 p t'" and "keeps F L s L1 s1" and "owned L1 s1 {a}" and "a \<notin> addrs t'"
    and "F \<subseteq> reclaimable s \<inter> A" and "a \<in> A"
  shows "\<exists>L2. heap_tree P c L2 (free_node_cow a s1) p t' \<and> keeps (reclaimable s \<inter> A) L s L2 (free_node_cow a s1)"
proof -
  have "reach L1 s1" using assms(1) by (simp add: heap_tree_def)
  from free_node[OF this assms(3)] obtain L2 where
    L2: "reach L2 (free_node_cow a s1)" "keeps (reclaimable s1 \<inter> {a}) L1 s1 L2 (free_node_cow a s1)" by blast
  have "addrs t' \<inter> (reclaimable s1 \<inter> {a}) = {}" using assms(4) by blast
  then have "heap_tree P c L2 (free_node_cow a s1) p t'" by (rule heap_tree_keeps[OF assms(1) L2(2) _ L2(1)])
  moreover have "keeps (reclaimable s \<inter> A) L s L2 (free_node_cow a s1)"
    by (rule keeps_mono[OF keeps_trans[OF assms(2) L2(2)]]) (use assms(5,6) keeps_reclaimable[OF assms(2)] in auto)
  ultimately show ?thesis by blast
qed

definition put_result :: "prims \<Rightarrow> node_crypto \<Rightarrow> live \<Rightarrow> tstate \<Rightarrow> bytes \<Rightarrow> tree \<Rightarrow> bytes \<Rightarrow> bytes \<Rightarrow> nat \<Rightarrow> tstate \<Rightarrow> bool" where
  "put_result P c L s p t key val a s' \<longleftrightarrow>
     (\<exists>L' t'. addr_of t' = a \<and> heap_tree P c L' s' p t' \<and> keeps (reclaimable s \<inter> addrs t) L s L' s'
        \<and> addrs t' \<inter> used L s \<subseteq> addrs t
        \<and> (\<forall>k. take (length p) k = p \<longrightarrow>
             look t' k (length p) = (if k = key then Some val else look t k (length p))))"

lemma put_resultI:
  assumes "heap_tree P c L s p t" and "heap_tree P c L1 s1 p t'" and "keeps F L s L1 s1" and "F \<subseteq> reclaimable s \<inter> (addrs t - {addr_of t})"
    and "addr_of t \<notin> addrs t'" and "addrs t' \<inter> used L s \<subseteq> addrs t"
    and "\<And>k. take (length p) k = p \<Longrightarrow> look t' k (length p) = (if k = key then Some val else look t k (length p))"
  shows "put_result P c L s p t key val (addr_of t') (free_node_cow (addr_of t) s1)"
proof -
  have "owned L s {addr_of t}" using assms(1) by (auto simp: heap_tree_def owned_def)
  then have "owned L1 s1 {addr_of t}" by (rule owned_keeps[OF _ assms(3)]) (use assms(4) in blast)
  moreover have "F \<subseteq> reclaimable s \<inter> addrs t" using assms(4) by blast
  ultimately obtain L2 where "heap_tree P c L2 (free_node_cow (addr_of t) s1) p t'"
      "keeps (reclaimable s \<inter> addrs t) L s L2 (free_node_cow (addr_of t) s1)"
    using supersede[OF assms(2,3) _ assms(5), of "addrs t"] by auto
  with assms(6,7) show ?thesis unfolding put_result_def by blast
qed

text \<open>An inner node whose child under byte \<open>x\<close> has been replaced by a new subtree.\<close>

definition kid_at :: "(u8 \<Rightarrow> tree option) \<Rightarrow> u8 \<Rightarrow> nat set" where
  "kid_at f x = (case f x of None \<Rightarrow> {} | Some u \<Rightarrow> addrs u)"

lemma kid_at_sub: "kid_at f x \<subseteq> kid_addrs f"
  by (auto simp: kid_at_def kid_addrs_def split: option.splits)

lemma kid_at_disjoint: "heap_kids P c L s p f \<Longrightarrow> kid_at f x \<inter> kid_addrs (f(x := None)) = {}"
  by (fastforce simp: kid_at_def kid_addrs_def heap_kids_def split: option.splits if_splits)

lemma replace_kid:
  assumes "prims_ok P" and t: "heap_tree P c L s p (Nd a tm f)"
    and u: "heap_tree P c L1 s1 (p @ [x]) u" "keeps F L s L1 s1" "F \<subseteq> kid_at f x" "addrs u \<inter> used L s \<subseteq> kid_at f x"
    and al: "alloc_internal_cow P c \<lparr>in_term = tm, in_slots = (slots_of f)[unat x := of_nat (addr_of u)]\<rparr> s1 = (Inr na, s2)"
  shows "\<exists>L2. heap_tree P c L2 s2 p (Nd na tm (f(x := Some u))) \<and> keeps F L s L2 s2
    \<and> a \<notin> addrs (Nd na tm (f(x := Some u))) \<and> addrs (Nd na tm (f(x := Some u))) \<inter> used L s \<subseteq> kid_addrs f"
proof -
  let ?g = "f(x := None)"
  from t have kids: "heap_kids P c L s p f" and an: "a \<notin> kid_addrs f" "a \<in> used L s"
    and bounds: "length p \<le> MAX_KEY_LEN" "\<forall>v. tm = Some v \<longrightarrow> length v \<le> MAX_VAL_LEN"
    using heap_tree_used[OF t] by (auto simp: heap_tree_Nd)
  have dj: "kid_addrs ?g \<inter> kid_at f x = {}" using kid_at_disjoint[OF kids, of x] by blast
  have gu: "kid_addrs ?g \<subseteq> used L s" using heap_kids_used[OF kids] kid_addrs_remove[of f x] by blast
  have r1: "reach L1 s1" using u(1) by (simp add: heap_tree_def)
  have g1: "heap_kids P c L1 s1 p ?g"
    by (rule heap_kids_keeps[OF heap_kids_remove[OF kids] u(2) _ r1]) (use dj u(3) in blast)
  have "addrs u \<inter> kid_addrs ?g = {}" using u(4) gu dj by blast
  then have k1: "heap_kids P c L1 s1 p (f(x := Some u))"
    using heap_kids_upd[OF g1 u(1)] by simp
  have "alloc_internal_cow P c \<lparr>in_term = tm, in_slots = slots_of (f(x := Some u))\<rparr> s1 = (Inr na, s2)"
    using al by (simp add: slots_of_upd)
  from new_inner[OF assms(1) k1 this bounds] obtain L2 where
    L2: "heap_tree P c L2 s2 p (Nd na tm (f(x := Some u)))" "keeps {} L1 s1 L2 s2" "na \<notin> used L1 s1" by blast
  have "a \<notin> kid_at f x" using an(1) kid_at_sub[of f x] by blast
  then have a1: "a \<in> used L1 s1" using keeps_used[OF u(2)] an(2) u(3) by blast
  have all: "addrs (Nd na tm (f(x := Some u))) = insert na (addrs u \<union> kid_addrs ?g)"
    unfolding addrs_kids kid_addrs_upd ..
  have "a \<notin> addrs (Nd na tm (f(x := Some u)))"
    unfolding all using a1 L2(3) u(4) an kid_at_sub[of f x] kid_addrs_remove[of f x] by blast
  moreover have "addrs (Nd na tm (f(x := Some u))) \<inter> used L s \<subseteq> kid_addrs f"
    unfolding all using keeps_used[OF u(2)] L2(3) u(3,4) kid_at_sub[of f x] kid_addrs_remove[of f x] by blast
  moreover have "keeps F L s L2 s2" using keeps_trans[OF u(2) L2(2)] by simp
  ultimately show ?thesis using L2(1) by blast
qed

lemma under_child: "take (length p) k = p \<Longrightarrow> length p < length k \<Longrightarrow> take (length (p @ [k ! length p])) k = p @ [k ! length p]"
  by (simp add: take_Suc_conv_app_nth)

lemma put_leaf_case:
  assumes "prims_ok P" and "length key \<le> MAX_KEY_LEN" "length val \<le> MAX_VAL_LEN" and t: "heap_tree P c L s p (Lf b k v)"
    and "take (length p) key = p" and "put_at P c b key val (length p) s = (Inr a, s')"
  shows "put_result P c L s p (Lf b k v) key val a s'"
proof -
  from t have n: "node_at P c (ts_b s) b (LeafNode k v)" and r: "reach L s"
    and k: "take (length p) k = p" "length k \<le> MAX_KEY_LEN" "length v \<le> MAX_VAL_LEN"
    by (auto simp: heap_tree_def tree_ok_simps)
  have bu: "b \<in> used L s" using heap_tree_used[OF t] by simp
  have "\<exists>L1 s1 t'. addr_of t' = a \<and> s' = free_node_cow b s1 \<and> heap_tree P c L1 s1 p t' \<and> keeps {} L s L1 s1
      \<and> addrs t' \<inter> used L s = {} \<and> (\<forall>k'. take (length p) k' = p \<longrightarrow>
        look t' k' (length p) = (if k' = key then Some val else if k' = k then Some v else None))"
  proof (cases "k = key")
    case True
    with assms(6) obtain s1 where s1: "alloc_leaf_cow P c key val s = (Inr a, s1)" "s' = free_node_cow b s1"
      by (auto simp: put_at_leaf[OF n] elim!: bind_s_InrE)
    from new_leaf[OF assms(1) r s1(1) assms(5)] obtain L1 where
      "heap_tree P c L1 s1 p (Lf a key val)" "keeps {} L s L1 s1" "a \<notin> used L s" by blast
    with s1(2) True show ?thesis by (intro exI[of _ L1] exI[of _ s1] exI[of _ "Lf a key val"]) auto
  next
    case False
    with assms(6) obtain s1 where s1: "branch_leaf P c k v key val (length p) s = (Inr a, s1)" "s' = free_node_cow b s1"
      by (auto simp: put_at_leaf[OF n] elim!: bind_s_InrE)
    from branch_leaf_ok[OF assms(1) r k(1) assms(5) False k(2) assms(2) k(3) assms(3) s1(1)] s1(2) show ?thesis by blast
  qed
  then obtain L1 s1 t' where t': "addr_of t' = a" "s' = free_node_cow b s1" "heap_tree P c L1 s1 p t'" "keeps {} L s L1 s1"
    "addrs t' \<inter> used L s = {}" "\<And>k'. take (length p) k' = p \<Longrightarrow>
        look t' k' (length p) = (if k' = key then Some val else if k' = k then Some v else None)" by blast
  have "put_result P c L s p (Lf b k v) key val (addr_of t') (free_node_cow (addr_of (Lf b k v)) s1)"
    by (rule put_resultI[OF t t'(3,4)]) (use t'(5,6) bu in auto)
  with t'(1,2) show ?thesis by simp
qed

lemma bind_s_chain:
  "bind_s (bind_s m g) (\<lambda>x s. (Inr x, h s)) = (Inr y, t) \<Longrightarrow>
   \<exists>x s s'. m = (Inr x, s) \<and> g x s = (Inr y, s') \<and> t = h s'"
  by (auto elim!: bind_s_InrE)

lemma put_kid:
  assumes "prims_ok P" and t: "heap_tree P c L s p (Nd b tm f)" and "take (length p) key = p" and "length p < length key"
    and IH: "\<And>u. f (key ! length p) = Some u \<Longrightarrow> heap_tree P c L s (p @ [key ! length p]) u \<Longrightarrow>
      put_at P c (addr_of u) key val (length p + 1) s = (Inr nc, s1) \<Longrightarrow>
      put_result P c L s (p @ [key ! length p]) u key val nc s1"
    and op: "(if slots_of f ! unat (key ! length p) = 0 then alloc_leaf_cow P c key val s
       else put_at P c (unat (slots_of f ! unat (key ! length p))) key val (length p + 1) s) = (Inr nc, s1)"
  shows "\<exists>L1 u. addr_of u = nc \<and> heap_tree P c L1 s1 (p @ [key ! length p]) u
    \<and> keeps (reclaimable s \<inter> kid_at f (key ! length p)) L s L1 s1
    \<and> addrs u \<inter> used L s \<subseteq> kid_at f (key ! length p)
    \<and> (\<forall>k. take (length p + 1) k = p @ [key ! length p] \<longrightarrow> look u k (length p + 1) =
         (if k = key then Some val else case f (key ! length p) of None \<Rightarrow> None | Some w \<Rightarrow> look w k (length p + 1)))"
proof (cases "f (key ! length p)")
  case None
  with op have "alloc_leaf_cow P c key val s = (Inr nc, s1)" by (simp add: slots_of_nth)
  moreover have "reach L s" using t by (simp add: heap_tree_def)
  ultimately obtain L1 where "heap_tree P c L1 s1 (p @ [key ! length p]) (Lf nc key val)" "keeps {} L s L1 s1" "nc \<notin> used L s"
    using new_leaf[OF assms(1) _ _ under_child[OF assms(3,4)]] by blast
  with None show ?thesis by (intro exI[of _ L1] exI[of _ "Lf nc key val"]) (auto simp: kid_at_def)
next
  case (Some u)
  have h: "heap_tree P c L s (p @ [key ! length p]) u" using t Some by (auto simp: heap_tree_Nd heap_kids_def)
  note ha = heap_addr[OF h]
  have pu: "put_at P c (addr_of u) key val (length p + 1) s = (Inr nc, s1)"
    using op Some ha by (simp add: slots_of_nth)
  have len: "length (p @ [key ! length p]) = length p + 1" by simp
  from IH[OF Some h pu] show ?thesis
    unfolding put_result_def len kid_at_def Some option.case by blast
qed

lemma put_inner_case:
  assumes "prims_ok P" and "length key \<le> MAX_KEY_LEN" "length val \<le> MAX_VAL_LEN" and t: "heap_tree P c L s p (Nd b tm f)"
    and key: "take (length p) key = p" and put: "put_at P c b key val (length p) s = (Inr a, s')"
    and IH: "\<And>u nc s1. length p < length key \<Longrightarrow> f (key ! length p) = Some u \<Longrightarrow> heap_tree P c L s (p @ [key ! length p]) u \<Longrightarrow>
      put_at P c (addr_of u) key val (length p + 1) s = (Inr nc, s1) \<Longrightarrow>
      put_result P c L s (p @ [key ! length p]) u key val nc s1"
  shows "put_result P c L s p (Nd b tm f) key val a s'"
proof -
  let ?t = "Nd b tm f"
  from t have n: "node_at P c (ts_b s) b (InnerNode \<lparr>in_term = tm, in_slots = slots_of f\<rparr>)"
    and kids: "heap_kids P c L s p f" and bn: "b \<notin> kid_addrs f" and pl: "length p \<le> MAX_KEY_LEN" by (simp_all add: heap_tree_Nd)
  have bu: "b \<in> used L s" "kid_addrs f \<subseteq> used L s" using heap_tree_used[OF t] heap_kids_used[OF kids] by auto
  have le: "length p \<le> length key" by (rule path_under[OF key])
  show ?thesis
  proof (cases "length p = length key")
    case True
    with key have kp: "key = p" by simp
    from put True obtain s1 where s1: "alloc_internal_cow P c \<lparr>in_term = Some val, in_slots = slots_of f\<rparr> s = (Inr a, s1)"
        "s' = free_node_cow b s1"
      by (auto simp: put_at_inner[OF n] elim!: bind_s_InrE)
    from new_inner[OF assms(1) kids s1(1) pl] assms(3) obtain L1 where
      L1: "heap_tree P c L1 s1 p (Nd a (Some val) f)" "keeps {} L s L1 s1" "a \<notin> used L s" by auto
    have "put_result P c L s p ?t key val (addr_of (Nd a (Some val) f)) (free_node_cow (addr_of ?t) s1)"
      by (rule put_resultI[OF t L1(1,2)]) (use L1(3) bu bn kp in \<open>auto simp: addrs_kids\<close>)
    with s1(2) show ?thesis by simp
  next
    case False
    with le have lt: "length p < length key" by simp
    let ?x = "key ! length p"
    have "bind_s (bind_s (if slots_of f ! unat ?x = 0 then alloc_leaf_cow P c key val s
          else put_at P c (unat (slots_of f ! unat ?x)) key val (length p + 1) s)
        (\<lambda>nc s. alloc_internal_cow P c \<lparr>in_term = tm, in_slots = (slots_of f)[unat ?x := of_nat nc]\<rparr> s))
        (\<lambda>na s. (Inr na, free_node_cow b s)) = (Inr a, s')"
      using put False lt by (simp add: put_at_inner[OF n] cong: if_cong)
    from bind_s_chain[OF this] obtain nc s1 s2 where op:
        "(if slots_of f ! unat ?x = 0 then alloc_leaf_cow P c key val s
          else put_at P c (unat (slots_of f ! unat ?x)) key val (length p + 1) s) = (Inr nc, s1)"
      and al: "alloc_internal_cow P c \<lparr>in_term = tm, in_slots = (slots_of f)[unat ?x := of_nat nc]\<rparr> s1 = (Inr a, s2)"
      and s': "s' = free_node_cow b s2"
      by blast
    from put_kid[OF assms(1) t key lt IH[OF lt] op] obtain L1 u where
      u: "addr_of u = nc" "heap_tree P c L1 s1 (p @ [?x]) u" "keeps (reclaimable s \<inter> kid_at f ?x) L s L1 s1"
        "addrs u \<inter> used L s \<subseteq> kid_at f ?x"
        "\<And>k. take (length p + 1) k = p @ [?x] \<Longrightarrow> look u k (length p + 1) =
           (if k = key then Some val else case f ?x of None \<Rightarrow> None | Some w \<Rightarrow> look w k (length p + 1))" by blast
    let ?n = "Nd a tm (f(?x := Some u))"
    obtain L2 where L2: "heap_tree P c L2 s2 p ?n" "keeps (reclaimable s \<inter> kid_at f ?x) L s L2 s2"
        "b \<notin> addrs ?n" "addrs ?n \<inter> used L s \<subseteq> kid_addrs f"
      using replace_kid[OF assms(1) t u(2,3) _ u(4), of a s2] al u(1) by auto
    have "look ?n k (length p) = (if k = key then Some val else look ?t k (length p))" if k: "take (length p) k = p" for k
    proof (cases "length p < length k \<and> k ! length p = ?x")
      case True
      with under_child[OF k] have "take (length p + 1) k = p @ [?x]" by simp
      from u(5)[OF this] True show ?thesis by (auto split: option.splits)
    next
      case False
      with lt path_under[OF k] show ?thesis by auto
    qed
    then have "put_result P c L s p ?t key val (addr_of ?n) (free_node_cow (addr_of ?t) s2)"
      using put_resultI[OF t L2(1,2)] L2(3,4) bn kid_at_sub[of f ?x] by (fastforce simp: addrs_kids)
    with s' show ?thesis by simp
  qed
qed

lemma put_at_ok:
  assumes "prims_ok P" and "length key \<le> MAX_KEY_LEN" "length val \<le> MAX_VAL_LEN"
  shows "heap_tree P c L s p t \<Longrightarrow> take (length p) key = p \<Longrightarrow> put_at P c (addr_of t) key val (length p) s = (Inr a, s') \<Longrightarrow>
    put_result P c L s p t key val a s'"
proof (induction t arbitrary: p a s')
  case (Lf b k v)
  then show ?case using put_leaf_case[OF assms, of c L s p b k v] by simp
next
  case (Nd b tm f)
  show ?case
  proof (rule put_inner_case[OF assms Nd.prems(1,2)])
    show "put_at P c b key val (length p) s = (Inr a, s')" using Nd.prems(3) by simp
    fix u nc s1
    assume lt: "length p < length key" and u: "f (key ! length p) = Some u" "heap_tree P c L s (p @ [key ! length p]) u"
      "put_at P c (addr_of u) key val (length p + 1) s = (Inr nc, s1)"
    show "put_result P c L s (p @ [key ! length p]) u key val nc s1"
    proof (rule Nd.IH[OF _ _ u(2)])
      show "f (key ! length p) \<in> range f" by simp
      show "u \<in> set_option (f (key ! length p))" by (simp add: u(1))
      show "take (length (p @ [key ! length p])) key = p @ [key ! length p]" by (rule under_child[OF Nd.prems(2) lt])
      show "put_at P c (addr_of u) key val (length (p @ [key ! length p])) s = (Inr nc, s1)" using u(3) by simp
    qed
  qed
qed

end
