(* ===== verification/Trie_Remove.thy ===== *)
theory Trie_Remove
  imports Trie_Put
begin

text \<open>
  Copy-on-write removal: \<^verbatim>\<open>remove_at\<close> and \<^verbatim>\<open>rebuild_after_remove\<close> of \<^verbatim>\<open>catalog/trie.rs\<close>. A removal reports
  absence exactly when the key is absent; otherwise the subtree it returns maps the key to nothing and
  every other key as before, and it reports \<open>Pruned\<close> only when nothing else is left.
\<close>

section \<open>Rebuilding a node\<close>

lemma lone_loop_spec:
  "lone_loop i ss idx = Some j \<Longrightarrow>
     (case idx of
        Some j0 \<Rightarrow> j = j0 \<and> (\<forall>n < length ss. ss ! n = 0)
      | None \<Rightarrow> i \<le> j \<and> j < i + length ss \<and> ss ! (j - i) \<noteq> 0 \<and> (\<forall>n < length ss. n \<noteq> j - i \<longrightarrow> ss ! n = 0))"
proof (induction i ss idx rule: lone_loop.induct)
  case (1 i idx)
  then show ?case by simp
next
  case (2 i s ss idx)
  show ?case
  proof (cases "s = 0")
    case True
    with 2 have "case idx of
        Some j0 \<Rightarrow> j = j0 \<and> (\<forall>n < length ss. ss ! n = 0)
      | None \<Rightarrow> i + 1 \<le> j \<and> j < i + 1 + length ss \<and> ss ! (j - (i + 1)) \<noteq> 0 \<and> (\<forall>n < length ss. n \<noteq> j - (i + 1) \<longrightarrow> ss ! n = 0)"
      by simp
    with True show ?thesis
      by (cases idx) (auto simp: nth_Cons' Suc_le_eq)
  next
    case False
    with 2 have "idx = None" "j = i" "\<forall>n < length ss. ss ! n = 0" by (auto split: if_splits)
    with False show ?thesis by (auto simp: nth_Cons')
  qed
qed

lemma lone_child_spec:
  assumes "lone_child node = Some j"
  shows "in_term node = None \<and> j < length (in_slots node) \<and> in_slots node ! j \<noteq> 0
    \<and> (\<forall>n < length (in_slots node). n \<noteq> j \<longrightarrow> in_slots node ! n = 0)"
  using assms lone_loop_spec[of 0 "in_slots node" None j] by (auto simp: lone_child_def split: if_splits)

lemma slot_zero:
  assumes "heap_kids P c L s p f"
  shows "slots_of f ! unat x = 0 \<longleftrightarrow> f x = None"
proof (cases "f x")
  case (Some u)
  with assms have "heap_tree P c L s (p @ [x]) u" by (simp add: heap_kids_def)
  from heap_addr(2)[OF this] Some show ?thesis by (simp add: slots_of_nth)
qed (simp add: slots_of_nth)

lemma no_kids:
  assumes "heap_kids P c L s p f" and "list_all (\<lambda>v. v = 0) (slots_of f)"
  shows "f = (\<lambda>_. None)"
proof
  fix x :: u8
  have "slots_of f ! unat x = 0" using assms(2) unat_u8_less[of x] by (simp add: list_all_length)
  then show "f x = None" using slot_zero[OF assms(1)] by blast
qed

lemma one_kid:
  assumes "heap_kids P c L s p f" and "lone_child \<lparr>in_term = tm, in_slots = slots_of f\<rparr> = Some j"
  obtains x u where "tm = None" "f = [x \<mapsto> u]" "slots_of f ! j = of_nat (addr_of u)" "heap_tree P c L s (p @ [x]) u"
proof -
  from lone_child_spec[OF assms(2)] have j: "tm = None" "j < 256" "slots_of f ! j \<noteq> 0"
    "\<And>n. n < 256 \<Longrightarrow> n \<noteq> j \<Longrightarrow> slots_of f ! n = 0" by auto
  define x :: u8 where "x = of_nat j"
  have x: "unat x = j" using j(2) by (simp add: x_def unat_of_nat_less)
  then obtain u where u: "f x = Some u" using j(3) slot_zero[OF assms(1), of x] by auto
  have "f y = None" if "y \<noteq> x" for y
  proof -
    have "unat y \<noteq> j" using that x by (metis word_unat_eq_iff)
    then show ?thesis using j(4)[OF unat_u8_less] slot_zero[OF assms(1), of y] by simp
  qed
  then have "f = [x \<mapsto> u]" using u by auto
  moreover have "slots_of f ! j = of_nat (addr_of u)" using slots_of_nth[of f x] x u by simp
  moreover have "heap_tree P c L s (p @ [x]) u" using assms(1) u by (simp add: heap_kids_def)
  ultimately show ?thesis using j(1) by (intro that[of x u])
qed

definition rebuilt :: "prims \<Rightarrow> node_crypto \<Rightarrow> live \<Rightarrow> tstate \<Rightarrow> bytes \<Rightarrow> bytes option \<Rightarrow> (u8 \<Rightarrow> tree option) \<Rightarrow>
    remove_result \<Rightarrow> tstate \<Rightarrow> bool" where
  "rebuilt P c L s p tm f r s' \<longleftrightarrow>
     (case r of
        Absent \<Rightarrow> False
      | Pruned \<Rightarrow> s' = s \<and> tm = None \<and> f = (\<lambda>_. None)
      | Replaced a \<Rightarrow>
          (\<exists>L' t'. addr_of t' = a \<and> heap_tree P c L' s' p t' \<and> keeps {} L s L' s' \<and> addrs t' \<inter> used L s \<subseteq> kid_addrs f
             \<and> (\<forall>k. take (length p) k = p \<longrightarrow> look t' k (length p) = look (Nd 0 tm f) k (length p))))"

lemma rebuilt_rewrite:
  assumes "prims_ok P" and "heap_kids P c L s p f" and "length p \<le> MAX_KEY_LEN" and "\<forall>v. tm = Some v \<longrightarrow> length v \<le> MAX_VAL_LEN"
    and "alloc_internal_cow P c \<lparr>in_term = tm, in_slots = slots_of f\<rparr> s = (Inr a, s')"
  shows "rebuilt P c L s p tm f (Replaced a) s'"
proof -
  obtain L' where "heap_tree P c L' s' p (Nd a tm f)" "keeps {} L s L' s'" "a \<notin> used L s"
    using new_inner[OF assms(1,2,5,3,4)] by blast
  moreover from this have "addrs (Nd a tm f) \<inter> used L s \<subseteq> kid_addrs f" unfolding addrs_kids by blast
  moreover have "look (Nd a tm f) k (length p) = look (Nd 0 tm f) k (length p)" for k by simp
  ultimately show ?thesis unfolding rebuilt_def remove_result.case
    by (intro exI[of _ L'] exI[of _ "Nd a tm f"] conjI allI impI) simp_all
qed

lemma rebuilt_collapse:
  assumes "prims_ok P" and "heap_tree P c L s (p @ [x]) (Lf b k v)" and "alloc_leaf_cow P c k v s = (Inr a, s')"
  shows "rebuilt P c L s p None [x \<mapsto> Lf b k v] (Replaced a) s'"
proof -
  from assms(2) have r: "reach L s" and k: "take (length (p @ [x])) k = p @ [x]"
    by (auto simp: heap_tree_def tree_ok_simps)
  have kl: "length p < length k" using path_under[OF k] by simp
  have kx: "k ! length p = x" using arg_cong[OF k, of "\<lambda>l. l ! length p"] by simp
  have "take (length p) k = p" using arg_cong[OF k, of "take (length p)"] by (simp add: min_def)
  from new_leaf[OF assms(1) r assms(3) this] obtain L' where
    "heap_tree P c L' s' p (Lf a k v)" "keeps {} L s L' s'" "a \<notin> used L s" by blast
  moreover have "look (Lf a k v) k' (length p) = look (Nd 0 None [x \<mapsto> Lf b k v]) k' (length p)" for k'
    using kl kx by auto
  ultimately show ?thesis unfolding rebuilt_def remove_result.case
    by (intro exI[of _ L'] exI[of _ "Lf a k v"] conjI allI impI) simp_all
qed

lemma rebuild_ok:
  assumes "prims_ok P" and kids: "heap_kids P c L s p f" and pl: "length p \<le> MAX_KEY_LEN"
    and tm: "\<forall>v. tm = Some v \<longrightarrow> length v \<le> MAX_VAL_LEN"
    and op: "rebuild_after_remove P c \<lparr>in_term = tm, in_slots = slots_of f\<rparr> s = (Inr r, s')"
  shows "rebuilt P c L s p tm f r s'"
proof (cases "in_is_empty \<lparr>in_term = tm, in_slots = slots_of f\<rparr>")
  case True
  with op no_kids[OF kids] show ?thesis
    by (simp add: rebuild_after_remove_def rebuilt_def in_is_empty_def)
next
  case ne: False
  have rw: "rebuilt P c L s p tm f r s'"
    if "bind_s (alloc_internal_cow P c \<lparr>in_term = tm, in_slots = slots_of f\<rparr> s) (\<lambda>a s. (Inr (Replaced a), s)) = (Inr r, s')"
    using that rebuilt_rewrite[OF assms(1) kids pl tm] by (auto elim!: bind_s_InrE)
  show ?thesis
  proof (cases "lone_child \<lparr>in_term = tm, in_slots = slots_of f\<rparr>")
    case None
    with op ne rw show ?thesis by (simp add: rebuild_after_remove_def Let_def)
  next
    case (Some j)
    obtain x u where u: "tm = None" "f = [x \<mapsto> u]" "slots_of f ! j = of_nat (addr_of u)" "heap_tree P c L s (p @ [x]) u"
      by (rule one_kid[OF kids Some])
    from u(4) have n: "node_at P c (ts_b s) (addr_of u) (node_of u)" using rep_node by (auto simp: heap_tree_def)
    have ad: "unat (slots_of f ! j) = addr_of u" using u(3) heap_addr(1)[OF u(4)] by simp
    show ?thesis
    proof (cases u)
      case (Lf b k v)
      obtain block where bl: "read_node_with_backup P (ts_b s) b c = Inr block" "block ! OFF_KIND = KIND_LEAF"
          "decode_leaf block = Inr (k, v)"
        using read_leaf[of P c "ts_b s" b k v] n Lf by auto
      with op ne Some Lf ad obtain a where "alloc_leaf_cow P c k v s = (Inr a, s')" "r = Replaced a"
        by (auto simp: rebuild_after_remove_def Let_def elim!: bind_s_InrE)
      with rebuilt_collapse[OF assms(1), of c L s p x b k v] u Lf show ?thesis by simp
    next
      case (Nd b tm' f')
      from n Nd have ni: "node_at P c (ts_b s) b (InnerNode \<lparr>in_term = tm', in_slots = slots_of f'\<rparr>)" by simp
      obtain block where "read_node_with_backup P (ts_b s) b c = Inr block" "block ! OFF_KIND \<noteq> KIND_LEAF"
        by (rule read_inner[OF ni], rule that, assumption+)
      with op ne Some Nd ad rw show ?thesis by (simp add: rebuild_after_remove_def Let_def)
    qed
  qed
qed

section \<open>Removal\<close>

lemma remove_at_leaf:
  assumes "node_at P c (ts_b s) a (LeafNode k v)"
  shows "remove_at P c a key d s = (if k = key then (Inr Pruned, free_node_cow a s) else (Inr Absent, s))"
  by (rule read_leaf[OF assms]) (subst remove_at.simps, simp)

lemma remove_at_inner:
  assumes "node_at P c (ts_b s) a (InnerNode i)"
  shows "remove_at P c a key d s =
    (if d = length key
     then if in_term i = None then (Inr Absent, s)
          else bind_s (rebuild_after_remove P c (i\<lparr>in_term := None\<rparr>) s) (\<lambda>r s. (Inr r, free_node_cow a s))
     else if length key < d then (Inl (Panic ''index out of bounds''), s)
     else if in_slots i ! unat (key ! d) = 0 then (Inr Absent, s)
     else bind_s (remove_at P c (unat (in_slots i ! unat (key ! d))) key (d + 1) s) (\<lambda>res s.
            case res of
              Absent \<Rightarrow> (Inr Absent, s)
            | Replaced nc \<Rightarrow>
                bind_s (alloc_internal_cow P c (i\<lparr>in_slots := (in_slots i)[unat (key ! d) := of_nat nc]\<rparr>) s)
                  (\<lambda>new s. (Inr (Replaced new), free_node_cow a s))
            | Pruned \<Rightarrow>
                bind_s (rebuild_after_remove P c (i\<lparr>in_slots := (in_slots i)[unat (key ! d) := 0]\<rparr>) s) (\<lambda>r s.
                  (Inr r, free_node_cow a s))))"
  by (rule read_inner[OF assms]) (subst remove_at.simps, simp add: Let_def)

definition removed :: "prims \<Rightarrow> node_crypto \<Rightarrow> live \<Rightarrow> tstate \<Rightarrow> bytes \<Rightarrow> tree \<Rightarrow> bytes \<Rightarrow> remove_result \<Rightarrow> tstate \<Rightarrow> bool" where
  "removed P c L s p t key r s' \<longleftrightarrow>
     (case r of
        Absent \<Rightarrow> s' = s \<and> look t key (length p) = None
      | Pruned \<Rightarrow>
          look t key (length p) \<noteq> None \<and> (\<forall>k. take (length p) k = p \<longrightarrow> k \<noteq> key \<longrightarrow> look t k (length p) = None)
          \<and> (\<exists>L'. reach L' s' \<and> keeps (reclaimable s \<inter> addrs t) L s L' s')
      | Replaced a \<Rightarrow>
          look t key (length p) \<noteq> None
          \<and> (\<exists>L' t'. addr_of t' = a \<and> heap_tree P c L' s' p t' \<and> keeps (reclaimable s \<inter> addrs t) L s L' s'
               \<and> addrs t' \<inter> used L s \<subseteq> addrs t
               \<and> (\<forall>k. take (length p) k = p \<longrightarrow>
                    look t' k (length p) = (if k = key then None else look t k (length p)))))"

text \<open>The node at \<open>addr_of t\<close> has been replaced or dropped: the release at the end of a frame.\<close>

lemma removed_replacedI:
  assumes "heap_tree P c L s p t" and "heap_tree P c L1 s1 p t'" and "keeps F L s L1 s1" and "F \<subseteq> reclaimable s \<inter> (addrs t - {addr_of t})"
    and "addr_of t \<notin> addrs t'" and "addrs t' \<inter> used L s \<subseteq> addrs t" and "look t key (length p) \<noteq> None"
    and "\<And>k. take (length p) k = p \<Longrightarrow> look t' k (length p) = (if k = key then None else look t k (length p))"
  shows "removed P c L s p t key (Replaced (addr_of t')) (free_node_cow (addr_of t) s1)"
proof -
  have "owned L s {addr_of t}" using assms(1) by (auto simp: heap_tree_def owned_def)
  then have "owned L1 s1 {addr_of t}" by (rule owned_keeps[OF _ assms(3)]) (use assms(4) in blast)
  moreover have "F \<subseteq> reclaimable s \<inter> addrs t" using assms(4) by blast
  ultimately obtain L2 where "heap_tree P c L2 (free_node_cow (addr_of t) s1) p t'"
      "keeps (reclaimable s \<inter> addrs t) L s L2 (free_node_cow (addr_of t) s1)"
    using supersede[OF assms(2,3) _ assms(5), of "addrs t"] by auto
  with assms(6-8) show ?thesis unfolding removed_def remove_result.case by blast
qed

lemma removed_prunedI:
  assumes "heap_tree P c L s p t" and "reach L1 s1" and "keeps F L s L1 s1" and "F \<subseteq> reclaimable s \<inter> (addrs t - {addr_of t})"
    and "look t key (length p) \<noteq> None" and "\<And>k. take (length p) k = p \<Longrightarrow> k \<noteq> key \<Longrightarrow> look t k (length p) = None"
  shows "removed P c L s p t key Pruned (free_node_cow (addr_of t) s1)"
proof -
  have "owned L s {addr_of t}" using assms(1) by (auto simp: heap_tree_def owned_def)
  then have "owned L1 s1 {addr_of t}" by (rule owned_keeps[OF _ assms(3)]) (use assms(4) in blast)
  from free_node[OF assms(2) this] obtain L2 where
    L2: "reach L2 (free_node_cow (addr_of t) s1)"
      "keeps (reclaimable s1 \<inter> {addr_of t}) L1 s1 L2 (free_node_cow (addr_of t) s1)" by blast
  have "keeps (reclaimable s \<inter> addrs t) L s L2 (free_node_cow (addr_of t) s1)"
    by (rule keeps_mono[OF keeps_trans[OF assms(3) L2(2)]]) (use assms(4) keeps_reclaimable[OF assms(3)] in auto)
  with L2(1) assms(5,6) show ?thesis unfolding removed_def remove_result.case by blast
qed

lemma removed_rebuiltI:
  assumes t: "heap_tree P c L s p (Nd b tm f)" and k1: "keeps F L s L1 s1" and F: "F \<subseteq> reclaimable s \<inter> kid_addrs f"
    and kids: "heap_kids P c L1 s1 p g" and g: "kid_addrs g \<subseteq> kid_addrs f"
    and rb: "rebuilt P c L1 s1 p tm' g r s2"
    and look: "look (Nd b tm f) key (length p) \<noteq> None"
    and same: "\<And>k. take (length p) k = p \<Longrightarrow> look (Nd 0 tm' g) k (length p) = (if k = key then None else look (Nd b tm f) k (length p))"
  shows "removed P c L s p (Nd b tm f) key r (free_node_cow b s2)"
proof -
  let ?t = "Nd b tm f"
  from t have bn: "b \<notin> kid_addrs f" by (simp add: heap_tree_Nd)
  have bu: "b \<in> used L s" using heap_tree_used[OF t] by (auto simp: addrs_kids)
  have F': "F \<subseteq> reclaimable s \<inter> (addrs ?t - {addr_of ?t})" using F bn by (auto simp: addrs_kids)
  show ?thesis
  proof (cases r)
    case Absent
    with rb show ?thesis by (simp add: rebuilt_def)
  next
    case (Replaced a)
    with rb obtain L2 t' where t': "addr_of t' = a" "heap_tree P c L2 s2 p t'" "keeps {} L1 s1 L2 s2"
        "addrs t' \<inter> used L1 s1 \<subseteq> kid_addrs g"
        "\<And>k. take (length p) k = p \<Longrightarrow> look t' k (length p) = look (Nd 0 tm' g) k (length p)"
      unfolding rebuilt_def by auto
    have k2: "keeps F L s L2 s2" using keeps_trans[OF k1 t'(3)] by simp
    have sub: "used L s - F \<subseteq> used L1 s1" by (rule keeps_used[OF k1])
    have "b \<notin> addrs t'" using bu bn sub F t'(4) g by blast
    moreover have "addrs t' \<inter> used L s \<subseteq> addrs ?t" unfolding addrs_kids using sub F t'(4) g by blast
    ultimately have "removed P c L s p ?t key (Replaced (addr_of t')) (free_node_cow (addr_of ?t) s2)"
      using removed_replacedI[OF t t'(2) k2 F' _ _ look] t'(5) same by simp
    with t'(1) Replaced show ?thesis by simp
  next
    case Pruned
    with rb have e: "s2 = s1" "tm' = None" "g = (\<lambda>_. None)" by (simp_all add: rebuilt_def)
    have r1: "reach L1 s1" using kids by (simp add: heap_kids_def)
    have "removed P c L s p ?t key Pruned (free_node_cow (addr_of ?t) s1)"
    proof (rule removed_prunedI[OF t r1 k1 F' look])
      fix k assume k: "take (length p) k = p" "k \<noteq> key"
      have "look (Nd 0 tm' g) k (length p) = None" using e by simp
      with same[OF k(1)] k(2) show "look ?t k (length p) = None" by (simp del: look_Nd)
    qed
    with Pruned e show ?thesis by simp
  qed
qed

lemma remove_replaced_kid:
  assumes "prims_ok P" and t: "heap_tree P c L s p (Nd b tm f)" and fx: "f (key ! length p) = Some w"
    and key: "take (length p) key = p" "length p < length key"
    and u: "removed P c L s (p @ [key ! length p]) w key (Replaced nc) s1"
    and al: "alloc_internal_cow P c \<lparr>in_term = tm, in_slots = (slots_of f)[unat (key ! length p) := of_nat nc]\<rparr> s1 = (Inr na, s2)"
  shows "removed P c L s p (Nd b tm f) key (Replaced na) (free_node_cow b s2)"
proof -
  let ?x = "key ! length p" and ?t = "Nd b tm f"
  have len: "length (p @ [?x]) = length p + 1" by simp
  from u obtain L1 u' where u': "addr_of u' = nc" "heap_tree P c L1 s1 (p @ [?x]) u'"
      "keeps (reclaimable s \<inter> addrs w) L s L1 s1" "addrs u' \<inter> used L s \<subseteq> addrs w" "look w key (length p + 1) \<noteq> None"
      "\<And>k. take (length p + 1) k = p @ [?x] \<Longrightarrow> look u' k (length p + 1) = (if k = key then None else look w k (length p + 1))"
    unfolding removed_def remove_result.case len by blast
  have kw: "kid_at f ?x = addrs w" using fx by (simp add: kid_at_def)
  let ?n = "Nd na tm (f(?x := Some u'))"
  obtain L2 where L2: "heap_tree P c L2 s2 p ?n" "keeps (reclaimable s \<inter> addrs w) L s L2 s2"
      "b \<notin> addrs ?n" "addrs ?n \<inter> used L s \<subseteq> kid_addrs f"
    using replace_kid[OF assms(1) t u'(2,3) _ _ al[folded u'(1)]] u'(4) unfolding kw by auto
  from t have bn: "b \<notin> kid_addrs f" by (simp add: heap_tree_Nd)
  have wk: "addrs w \<subseteq> kid_addrs f" using kid_at_sub[of f ?x] kw by simp
  have "look ?n k (length p) = (if k = key then None else look ?t k (length p))" if k: "take (length p) k = p" for k
  proof (cases "length p < length k \<and> k ! length p = ?x")
    case True
    with under_child[OF k] have "take (length p + 1) k = p @ [?x]" by simp
    from u'(6)[OF this] True fx show ?thesis by auto
  next
    case False
    with key(2) path_under[OF k] show ?thesis by auto
  qed
  moreover have "look ?t key (length p) \<noteq> None" using u'(5) fx key(2) by auto
  moreover have "reclaimable s \<inter> addrs w \<subseteq> reclaimable s \<inter> (addrs ?t - {addr_of ?t})" using bn wk by (auto simp: addrs_kids)
  ultimately have "removed P c L s p ?t key (Replaced (addr_of ?n)) (free_node_cow (addr_of ?t) s2)"
    using removed_replacedI[OF t L2(1,2)] L2(3,4) unfolding addrs_kids[of b] by (auto simp del: look_Nd)
  then show ?thesis by simp
qed

lemma remove_pruned_kid:
  assumes "prims_ok P" and t: "heap_tree P c L s p (Nd b tm f)" and fx: "f (key ! length p) = Some w"
    and key: "take (length p) key = p" "length p < length key"
    and u: "removed P c L s (p @ [key ! length p]) w key Pruned s1"
    and rb: "rebuild_after_remove P c \<lparr>in_term = tm, in_slots = (slots_of f)[unat (key ! length p) := 0]\<rparr> s1 = (Inr r, s2)"
  shows "removed P c L s p (Nd b tm f) key r (free_node_cow b s2)"
proof -
  let ?x = "key ! length p" and ?t = "Nd b tm f"
  have len: "length (p @ [?x]) = length p + 1" by simp
  from u obtain L1 where L1: "reach L1 s1" "keeps (reclaimable s \<inter> addrs w) L s L1 s1" "look w key (length p + 1) \<noteq> None"
      "\<And>k. take (length p + 1) k = p @ [?x] \<Longrightarrow> k \<noteq> key \<Longrightarrow> look w k (length p + 1) = None"
    unfolding removed_def remove_result.case len by blast
  have kw: "kid_at f ?x = addrs w" using fx by (simp add: kid_at_def)
  have wk: "addrs w \<subseteq> kid_addrs f" using kid_at_sub[of f ?x] kw by simp
  from t have kids: "heap_kids P c L s p f" and b: "length p \<le> MAX_KEY_LEN" "\<forall>v. tm = Some v \<longrightarrow> length v \<le> MAX_VAL_LEN"
    by (simp_all add: heap_tree_Nd)
  have k1: "heap_kids P c L1 s1 p (f(?x := None))"
    by (rule heap_kids_keeps[OF heap_kids_remove[OF kids] L1(2) _ L1(1)]) (use kid_at_disjoint[OF kids, of ?x] kw in blast)
  have "rebuilt P c L1 s1 p tm (f(?x := None)) r s2"
    using rebuild_ok[OF assms(1) k1 b] rb by (simp add: slots_of_clear)
  moreover have "look ?t key (length p) \<noteq> None" using L1(3) fx key(2) by auto
  moreover have "look (Nd 0 tm (f(?x := None))) k (length p) = (if k = key then None else look ?t k (length p))"
    if k: "take (length p) k = p" for k
  proof (cases "length p < length k \<and> k ! length p = ?x")
    case True
    with under_child[OF k] have "take (length p + 1) k = p @ [?x]" by simp
    from L1(4)[OF this] True fx show ?thesis by auto
  next
    case False
    with key(2) path_under[OF k] show ?thesis by auto
  qed
  moreover have "reclaimable s \<inter> addrs w \<subseteq> reclaimable s \<inter> kid_addrs f" using wk by blast
  ultimately show ?thesis using removed_rebuiltI[OF t L1(2) _ k1 kid_addrs_remove] by blast
qed

lemma remove_inner_case:
  assumes "prims_ok P" and t: "heap_tree P c L s p (Nd b tm f)" and key: "take (length p) key = p"
    and op: "remove_at P c b key (length p) s = (Inr r, s')"
    and IH: "\<And>u r' s1. length p < length key \<Longrightarrow> f (key ! length p) = Some u \<Longrightarrow> heap_tree P c L s (p @ [key ! length p]) u \<Longrightarrow>
      remove_at P c (addr_of u) key (length p + 1) s = (Inr r', s1) \<Longrightarrow>
      removed P c L s (p @ [key ! length p]) u key r' s1"
  shows "removed P c L s p (Nd b tm f) key r s'"
proof -
  let ?x = "key ! length p"
  from t have n: "node_at P c (ts_b s) b (InnerNode \<lparr>in_term = tm, in_slots = slots_of f\<rparr>)"
    and kids: "heap_kids P c L s p f" and pl: "length p \<le> MAX_KEY_LEN" by (simp_all add: heap_tree_Nd)
  note op' = op[unfolded remove_at_inner[OF n] internal.simps]
  show ?thesis
  proof (cases "length p = length key")
    case end_here: True
    with key have kp: "key = p" by simp
    show ?thesis
    proof (cases tm)
      case None
      with op' end_here show ?thesis by (simp add: removed_def)
    next
      case (Some v)
      with op' end_here obtain s1 where s1: "rebuild_after_remove P c \<lparr>in_term = None, in_slots = slots_of f\<rparr> s = (Inr r, s1)"
          "s' = free_node_cow b s1" by (auto elim!: bind_s_InrE)
      have rb: "rebuilt P c L s p None f r s1" using rebuild_ok[OF assms(1) kids pl _ s1(1)] by simp
      have "removed P c L s p (Nd b tm f) key r (free_node_cow b s1)"
        by (rule removed_rebuiltI[OF t keeps_refl[of "{}"] _ kids _ rb]) (use Some kp in auto)
      with s1(2) show ?thesis by simp
    qed
  next
    case False
    with path_under[OF key] have lt: "length p < length key" by simp
    show ?thesis
    proof (cases "f ?x")
      case None
      with op' False lt show ?thesis by (simp add: removed_def slots_of_nth)
    next
      case (Some w)
      have h: "heap_tree P c L s (p @ [?x]) w" using kids Some by (simp add: heap_kids_def)
      have sl: "unat (slots_of f ! unat ?x) = addr_of w" "slots_of f ! unat ?x \<noteq> 0"
        using heap_addr[OF h] Some by (simp_all add: slots_of_nth)
      obtain r' s1 where r': "remove_at P c (addr_of w) key (length p + 1) s = (Inr r', s1)"
        using op' False lt sl by (auto elim!: bind_s_InrE)
      note u = IH[OF lt Some h r']
      have len: "length (p @ [?x]) = length p + 1" by simp
      show ?thesis
      proof (cases r')
        case Absent
        with op' False lt sl r' u Some show ?thesis by (simp add: removed_def)
      next
        case (Replaced nc)
        with op' False lt sl r' obtain na s2 where
          "alloc_internal_cow P c \<lparr>in_term = tm, in_slots = (slots_of f)[unat ?x := of_nat nc]\<rparr> s1 = (Inr na, s2)"
          "r = Replaced na" "s' = free_node_cow b s2" by (auto elim!: bind_s_InrE)
        with remove_replaced_kid[OF assms(1) t Some key lt u[unfolded Replaced]] show ?thesis by simp
      next
        case Pruned
        with op' False lt sl r' obtain s2 where
          "rebuild_after_remove P c \<lparr>in_term = tm, in_slots = (slots_of f)[unat ?x := 0]\<rparr> s1 = (Inr r, s2)"
          "s' = free_node_cow b s2" by (auto elim!: bind_s_InrE)
        with remove_pruned_kid[OF assms(1) t Some key lt u[unfolded Pruned]] show ?thesis by simp
      qed
    qed
  qed
qed

lemma remove_at_ok:
  assumes "prims_ok P"
  shows "heap_tree P c L s p t \<Longrightarrow> take (length p) key = p \<Longrightarrow> remove_at P c (addr_of t) key (length p) s = (Inr r, s') \<Longrightarrow>
    removed P c L s p t key r s'"
proof (induction t arbitrary: p r s')
  case (Lf b k v)
  then have n: "node_at P c (ts_b s) b (LeafNode k v)" by (simp add: heap_tree_def)
  show ?case
  proof (cases "k = key")
    case True
    with Lf.prems(3) have "r = Pruned" "s' = free_node_cow b s" by (auto simp: remove_at_leaf[OF n])
    moreover have "reach L s" using Lf.prems(1) by (simp add: heap_tree_def)
    ultimately show ?thesis using removed_prunedI[OF Lf.prems(1) _ keeps_refl[of "{}"]] True by auto
  next
    case False
    with Lf.prems(3) show ?thesis by (auto simp: remove_at_leaf[OF n] removed_def)
  qed
next
  case (Nd b tm f)
  show ?case
  proof (rule remove_inner_case[OF assms Nd.prems(1,2)])
    show "remove_at P c b key (length p) s = (Inr r, s')" using Nd.prems(3) by simp
    fix u r' s1
    assume lt: "length p < length key" and u: "f (key ! length p) = Some u" "heap_tree P c L s (p @ [key ! length p]) u"
      "remove_at P c (addr_of u) key (length p + 1) s = (Inr r', s1)"
    show "removed P c L s (p @ [key ! length p]) u key r' s1"
    proof (rule Nd.IH[OF _ _ u(2)])
      show "f (key ! length p) \<in> range f" by simp
      show "u \<in> set_option (f (key ! length p))" by (simp add: u(1))
      show "take (length (p @ [key ! length p])) key = p @ [key ! length p]" by (rule under_child[OF Nd.prems(2) lt])
      show "remove_at P c (addr_of u) key (length (p @ [key ! length p])) s = (Inr r', s1)" using u(3) by simp
    qed
  qed
qed

end
