(* ===== verification/Trie_Map.thy ===== *)
theory Trie_Map
  imports Trie_Remove
begin

text \<open>
  The trie as a map from byte strings to byte strings. \<open>trie_state P T L s m A\<close> says that the container
  of \<open>s\<close> holds, under the handle \<open>T\<close>, a trie with the contents \<open>m\<close> in the node blocks \<open>A\<close>, all of them blocks
  in use of the allocator. Lookup, insertion, removal and creation are exact with respect to \<open>m\<close>; the
  locale \<open>byte_map\<close> is the contract the catalogs build on.
\<close>

section \<open>Contents\<close>

definition trie_state :: "prims \<Rightarrow> trie \<Rightarrow> live \<Rightarrow> tstate \<Rightarrow> (bytes \<rightharpoonup> bytes) \<Rightarrow> nat set \<Rightarrow> bool" where
  "trie_state P T L s m A \<longleftrightarrow>
     (\<exists>t. heap_tree P (tr_crypto T) L s [] t \<and> addr_of t = tr_root T \<and> contents t = m \<and> addrs t = A)"

lemma get_at_ok:
  "heap_tree P c L s p t \<Longrightarrow> take (length p) key = p \<Longrightarrow> get_at P c (ts_b s) (addr_of t) key (length p) = Inr (look t key (length p))"
proof (induction t arbitrary: p)
  case (Lf b k v)
  then have n: "node_at P c (ts_b s) b (LeafNode k v)" by (simp add: heap_tree_def)
  show ?case by (rule read_leaf[OF n]) (subst get_at.simps, simp)
next
  case (Nd b tm f)
  let ?x = "key ! length p"
  from Nd.prems(1) have n: "node_at P c (ts_b s) b (InnerNode \<lparr>in_term = tm, in_slots = slots_of f\<rparr>)"
    and kids: "heap_kids P c L s p f" by (simp_all add: heap_tree_Nd)
  have eq: "get_at P c (ts_b s) b key (length p) =
      (if length p = length key then Inr tm
       else if length key < length p then Inl (Panic ''index out of bounds'')
       else if slots_of f ! unat ?x = 0 then Inr None
       else get_at P c (ts_b s) (unat (slots_of f ! unat ?x)) key (length p + 1))"
    by (rule read_inner[OF n]) (subst get_at.simps, simp add: Let_def)
  show ?case
  proof (cases "length p = length key")
    case False
    with path_under[OF Nd.prems(2)] have lt: "length p < length key" by simp
    show ?thesis
    proof (cases "f ?x")
      case None
      with eq False lt show ?thesis by (simp add: slots_of_nth)
    next
      case (Some u)
      then have h: "heap_tree P c L s (p @ [?x]) u" using kids by (simp add: heap_kids_def)
      have "get_at P c (ts_b s) (addr_of u) key (length (p @ [?x])) = Inr (look u key (length (p @ [?x])))"
        by (rule Nd.IH[OF rangeI[of f ?x] _ h under_child[OF Nd.prems(2) lt]]) (simp add: Some)
      with eq False lt Some heap_addr[OF h] show ?thesis by (simp add: slots_of_nth)
    qed
  qed (use eq in simp)
qed

lemma trie_get_ok: "trie_state P T L s m A \<Longrightarrow> trie_get P T (ts_b s) key = Inr (m key)"
proof -
  assume "trie_state P T L s m A"
  then obtain t where t: "heap_tree P (tr_crypto T) L s [] t" "addr_of t = tr_root T" "contents t = m"
    by (auto simp: trie_state_def)
  from get_at_ok[OF t(1), of key] t(2,3) show ?thesis by (auto simp: trie_get_def contents_def)
qed

lemma trie_state_keeps:
  assumes "trie_state P T L s m A" and "keeps F L s L' s'" and "A \<inter> F = {}" and "reach L' s'"
  shows "trie_state P T L' s' m A"
  using assms heap_tree_keeps[OF _ assms(2) _ assms(4)] unfolding trie_state_def by blast

lemma trie_state_reach: "trie_state P T L s m A \<Longrightarrow> reach L s"
  by (auto simp: trie_state_def heap_tree_def)

lemma trie_state_owned: "trie_state P T L s m A \<Longrightarrow> owned L s A"
  by (auto simp: trie_state_def heap_tree_def)

lemma trie_put_ok:
  assumes "prims_ok P" and "trie_state P T L s m A" and "trie_put P T key val s = (Inr T', s')"
  shows "\<exists>L' A'. trie_state P T' L' s' (m(key \<mapsto> val)) A' \<and> keeps (reclaimable s \<inter> A) L s L' s' \<and> A' \<inter> used L s \<subseteq> A
    \<and> tr_crypto T' = tr_crypto T"
proof -
  from assms(3) obtain a where b: "length key \<le> MAX_KEY_LEN" "length val \<le> MAX_VAL_LEN"
    and p: "put_at P (tr_crypto T) (tr_root T) key val 0 s = (Inr a, s')" and T': "T' = T\<lparr>tr_root := a\<rparr>"
    by (auto simp: trie_put_def check_bounds_def elim!: bind_s_InrE split: if_splits)
  from assms(2) obtain t where t: "heap_tree P (tr_crypto T) L s [] t" "addr_of t = tr_root T" "contents t = m" "addrs t = A"
    by (auto simp: trie_state_def)
  from put_at_ok[OF assms(1) b t(1), of a s'] p t(2) have "put_result P (tr_crypto T) L s [] t key val a s'" by simp
  then obtain L' t' where t': "addr_of t' = a" "heap_tree P (tr_crypto T) L' s' [] t'" "keeps (reclaimable s \<inter> addrs t) L s L' s'"
      "addrs t' \<inter> used L s \<subseteq> addrs t" "\<forall>k. look t' k 0 = (if k = key then Some val else look t k 0)"
    unfolding put_result_def by auto
  have "contents t' = m(key \<mapsto> val)" using t'(5) t(3) by (auto simp: contents_def fun_eq_iff)
  with t' t(4) T' show ?thesis unfolding trie_state_def by (intro exI[of _ L'] exI[of _ "addrs t'"]) auto
qed

lemma new_empty_root:
  assumes "prims_ok P" and "reach L s" and "alloc_internal_cow P c in_empty s = (Inr a, s')"
  shows "\<exists>L' A. trie_state P \<lparr>tr_root = a, tr_crypto = c\<rparr> L' s' Map.empty A \<and> keeps {} L s L' s' \<and> A \<inter> used L s = {}"
proof -
  have e: "in_empty = \<lparr>in_term = None, in_slots = slots_of (\<lambda>_. None)\<rparr>"
    by (simp add: slots_of_empty[symmetric]) (simp add: in_empty_def)
  let ?t = "Nd a None (\<lambda>_. None)"
  obtain L' where "heap_tree P c L' s' [] ?t" "keeps {} L s L' s'" "a \<notin> used L s"
    using new_inner[OF assms(1) heap_kids_empty[OF assms(2)] assms(3)[unfolded e], of "[]"] by auto
  moreover have "contents ?t = Map.empty" by (simp add: contents_def fun_eq_iff)
  moreover have "addrs ?t = {a}" by (simp add: addrs_kids kid_addrs_def)
  ultimately show ?thesis unfolding trie_state_def by (intro exI[of _ L'] exI[of _ "{a}"]) auto
qed

lemma alloc_and_write_eq: "alloc_and_write_node P c kind p s = alloc_and_write_node_cow P c kind p s"
  by (simp add: alloc_and_write_node_def alloc_and_write_node_cow_def write_with_backup_eq)

lemma trie_create_ok:
  assumes "prims_ok P" and "reach L s" and "trie_create P cipher key s = (Inr T, s')"
  shows "\<exists>L' A. trie_state P T L' s' Map.empty A \<and> keeps {} L s L' s' \<and> A \<inter> used L s = {}"
    and "T = trie_open P (tr_root T) cipher key"
proof -
  from assms(3) obtain a where a: "alloc_internal_cow P (node_crypto_new P cipher key) in_empty s = (Inr a, s')"
    and T: "T = \<lparr>tr_root = a, tr_crypto = node_crypto_new P cipher key\<rparr>"
    by (auto simp: trie_create_def Let_def alloc_and_write_eq alloc_internal_cow_def elim!: bind_s_InrE)
  from new_empty_root[OF assms(1,2) a] T show "\<exists>L' A. trie_state P T L' s' Map.empty A \<and> keeps {} L s L' s' \<and> A \<inter> used L s = {}"
    by simp
  show "T = trie_open P (tr_root T) cipher key" by (simp add: T trie_open_def)
qed

lemma trie_remove_ok:
  assumes "prims_ok P" and "trie_state P T L s m A" and "trie_remove P T key s = (Inr (T', ex), s')"
  shows "ex = (m key \<noteq> None) \<and> (\<not> ex \<longrightarrow> T' = T \<and> s' = s) \<and> tr_crypto T' = tr_crypto T
    \<and> (\<exists>L' A'. trie_state P T' L' s' (m(key := None)) A' \<and> keeps (reclaimable s \<inter> A) L s L' s' \<and> A' \<inter> used L s \<subseteq> A)"
proof -
  from assms(2) obtain t where t: "heap_tree P (tr_crypto T) L s [] t" "addr_of t = tr_root T" "contents t = m" "addrs t = A"
    by (auto simp: trie_state_def)
  from assms(3) obtain r s1 where r: "remove_at P (tr_crypto T) (tr_root T) key 0 s = (Inr r, s1)"
    by (auto simp: trie_remove_def elim!: bind_s_InrE)
  from remove_at_ok[OF assms(1) t(1), of key r s1] r t(2) have rm: "removed P (tr_crypto T) L s [] t key r s1" by simp
  have mk: "look t k 0 = m k" for k using t(3) by (auto simp: contents_def)
  show ?thesis
  proof (cases r)
    case Absent
    with assms(3) r have "T' = T" "\<not> ex" "s' = s1" by (auto simp: trie_remove_def)
    moreover from rm Absent have "s1 = s" "m key = None" by (simp_all add: removed_def mk)
    moreover from this have "m(key := None) = m" by auto
    moreover have "A \<inter> used L s \<subseteq> A" by blast
    ultimately show ?thesis using assms(2) keeps_refl by metis
  next
    case (Replaced a)
    with assms(3) r have e: "T' = T\<lparr>tr_root := a\<rparr>" "ex" "s' = s1" by (auto simp: trie_remove_def)
    from rm Replaced obtain L' t' where t': "addr_of t' = a" "heap_tree P (tr_crypto T) L' s1 [] t'"
        "keeps (reclaimable s \<inter> A) L s L' s1" "addrs t' \<inter> used L s \<subseteq> A" "\<forall>k. look t' k 0 = (if k = key then None else m k)"
        "m key \<noteq> None"
      unfolding removed_def by (auto simp: mk t(4))
    have "contents t' = m(key := None)" using t'(5) by (auto simp: contents_def fun_eq_iff)
    with t' e show ?thesis unfolding trie_state_def by auto
  next
    case Pruned
    with assms(3) r obtain root where al: "alloc_internal_cow P (tr_crypto T) in_empty s1 = (Inr root, s')"
      and e: "T' = T\<lparr>tr_root := root\<rparr>" "ex" by (auto simp: trie_remove_def alloc_internal_cow_def elim!: bind_s_InrE)
    from rm Pruned obtain L1 where L1: "reach L1 s1" "keeps (reclaimable s \<inter> A) L s L1 s1" "m key \<noteq> None" "\<forall>k. k \<noteq> key \<longrightarrow> m k = None"
      unfolding removed_def by (auto simp: mk t(4))
    from new_empty_root[OF assms(1) L1(1) al] obtain L' A' where L': "trie_state P \<lparr>tr_root = root, tr_crypto = tr_crypto T\<rparr> L' s' Map.empty A'"
        "keeps {} L1 s1 L' s'" "A' \<inter> used L1 s1 = {}" by blast
    have "m(key := None) = Map.empty" using L1(4) by (auto simp: fun_eq_iff)
    moreover have "keeps (reclaimable s \<inter> A) L s L' s'" using keeps_trans[OF L1(2) L'(2)] by simp
    moreover have "A' \<inter> used L s \<subseteq> A" using keeps_used[OF L1(2)] L'(3) by blast
    moreover have "T' = \<lparr>tr_root = root, tr_crypto = tr_crypto T\<rparr>" using e(1) by simp
    ultimately show ?thesis using L'(1) e(2) L1(3) by auto
  qed
qed

end
