(* ===== verification/Trie_Scan.thy ===== *)
theory Trie_Scan
  imports Trie_Map
begin

text \<open>
  The two walks over a trie, \<^verbatim>\<open>scan_at\<close> and \<^verbatim>\<open>visit_nodes\<close> of \<^verbatim>\<open>catalog/trie.rs\<close>, against the abstract tree:
  \<open>entries\<close> lists the keys and values below a node in the order of the walk, \<open>nodes\<close> the block addresses in
  preorder. Within the node budget the scan returns exactly the entries under the prefix, sorted, and
  the visit emits exactly the blocks of the trie, each once.
\<close>

section \<open>Enumerations of a tree\<close>

definition byte_list :: "u8 list" where
  "byte_list = map of_nat [0..<256]"

definition kid_list :: "(u8 \<Rightarrow> tree option) \<Rightarrow> u8 list" where
  "kid_list f = filter (\<lambda>x. f x \<noteq> None) byte_list"

primrec nodes :: "tree \<Rightarrow> nat list" where
  "nodes (Lf a k v) = [a]"
| "nodes (Nd a tm f) = a # concat (map (\<lambda>x. case map_option nodes (f x) of None \<Rightarrow> [] | Some l \<Rightarrow> l) byte_list)"

primrec entries :: "tree \<Rightarrow> bytes \<Rightarrow> (bytes \<times> bytes) list" where
  "entries (Lf a k v) = (\<lambda>q. [(k, v)])"
| "entries (Nd a tm f) = (\<lambda>q. (case tm of None \<Rightarrow> [] | Some v \<Rightarrow> [(q, v)])
     @ concat (map (\<lambda>x. case map_option entries (f x) of None \<Rightarrow> [] | Some g \<Rightarrow> g (q @ [x])) byte_list))"

lemma concat_filtered: "concat (map (\<lambda>x. case f x of None \<Rightarrow> [] | Some y \<Rightarrow> g x y) xs) =
    concat (map (\<lambda>x. g x (the (f x))) (filter (\<lambda>x. f x \<noteq> None) xs))"
  by (induction xs) (auto split: option.splits)

lemma nodes_Nd [simp]: "nodes (Nd a tm f) = a # concat (map (\<lambda>x. nodes (the (f x))) (kid_list f))"
proof -
  have "(\<lambda>x. case map_option nodes (f x) of None \<Rightarrow> [] | Some l \<Rightarrow> l) = (\<lambda>x. case f x of None \<Rightarrow> [] | Some t \<Rightarrow> nodes t)"
    by (auto split: option.splits)
  then show ?thesis using concat_filtered[where f = f and g = "\<lambda>_. nodes" and xs = byte_list]
    by (simp add: kid_list_def)
qed

lemma entries_Nd [simp]: "entries (Nd a tm f) q = (case tm of None \<Rightarrow> [] | Some v \<Rightarrow> [(q, v)])
     @ concat (map (\<lambda>x. entries (the (f x)) (q @ [x])) (kid_list f))"
proof -
  have "(\<lambda>x. case map_option entries (f x) of None \<Rightarrow> [] | Some g \<Rightarrow> g (q @ [x]))
      = (\<lambda>x. case f x of None \<Rightarrow> [] | Some t \<Rightarrow> entries t (q @ [x]))"
    by (auto split: option.splits)
  then show ?thesis using concat_filtered[where f = f and g = "\<lambda>x t. entries t (q @ [x])" and xs = byte_list]
    by (simp add: kid_list_def)
qed

declare nodes.simps(2) [simp del] entries.simps(2) [simp del]

lemma byte_list_facts: "set byte_list = UNIV" "sorted_wrt (<) byte_list" "distinct byte_list"
proof -
  have "x \<in> set byte_list" for x
    using unat_u8_less[of x] by (auto simp: byte_list_def intro!: image_eqI[of _ _ "unat x"])
  then show "set byte_list = UNIV" by auto
  have lt: "(of_nat i :: u8) < of_nat j" if "i < j" "j < 256" for i j :: nat
    using that by (simp add: word_less_nat_alt unat_of_nat_less)
  show s: "sorted_wrt (<) byte_list"
    unfolding byte_list_def sorted_wrt_map by (rule sorted_wrt_mono_rel[of _ "(<)"]) (use lt in auto)
  then show "distinct byte_list" by (simp add: strict_sorted_iff)
qed

lemma kid_list_facts: "set (kid_list f) = {x. f x \<noteq> None}" "sorted_wrt (<) (kid_list f)" "distinct (kid_list f)"
  using byte_list_facts by (auto simp: kid_list_def sorted_wrt_filter)

lemma kid_list_the: "x \<in> set (kid_list f) \<Longrightarrow> f x = Some (the (f x))"
  by (simp add: kid_list_facts)

lemma set_nodes: "set (nodes t) = addrs t"
proof (induction t)
  case (Nd a tm f)
  have "set (nodes (the (f x))) = addrs (the (f x))" if "x \<in> set (kid_list f)" for x
    using Nd[OF rangeI[of f x], of "the (f x)"] kid_list_the[OF that] by (metis option.set_intros)
  moreover have "kid_addrs f = (\<Union>x \<in> set (kid_list f). addrs (the (f x)))"
    by (force simp: kid_addrs_def kid_list_facts)
  ultimately show ?case by (simp add: addrs_kids)
qed simp

lemma sorted_concat:
  assumes "sorted_wrt S xs" and "\<And>x. x \<in> set xs \<Longrightarrow> sorted_wrt R (g x)"
    and "\<And>x y a b. x \<in> set xs \<Longrightarrow> y \<in> set xs \<Longrightarrow> S x y \<Longrightarrow> a \<in> set (g x) \<Longrightarrow> b \<in> set (g y) \<Longrightarrow> R a b"
  shows "sorted_wrt R (concat (map g xs))"
  using assms by (induction xs) (fastforce simp: sorted_wrt_append)+

lemma distinct_sorted_wrt_neq: "distinct xs \<longleftrightarrow> sorted_wrt (\<noteq>) xs"
  by (induction xs) auto

lemma nodes_distinct: "tree_ok p t \<Longrightarrow> distinct (nodes t)"
proof (induction rule: tree_ok.induct)
  case (ok_nd p tm f a)
  have "sorted_wrt (\<noteq>) (concat (map (\<lambda>x. nodes (the (f x))) (kid_list f)))"
  proof (rule sorted_concat[of "(<)"])
    show "sorted_wrt (<) (kid_list f)" by (rule kid_list_facts)
    show "sorted_wrt (\<noteq>) (nodes (the (f x)))" if "x \<in> set (kid_list f)" for x
      using ok_nd.IH kid_list_the[OF that] by (auto simp: distinct_sorted_wrt_neq)
    show "i \<noteq> j" if "x \<in> set (kid_list f)" "y \<in> set (kid_list f)" "x < y" "i \<in> set (nodes (the (f x)))" "j \<in> set (nodes (the (f y)))" for x y i j
      using ok_nd.hyps(3)[OF kid_list_the[OF that(1)] kid_list_the[OF that(2)]] that(3-5) by (auto simp: set_nodes)
  qed
  moreover have "a \<notin> set (nodes (the (f x)))" if "x \<in> set (kid_list f)" for x
    using ok_nd.IH kid_list_the[OF that] by (auto simp: set_nodes)
  ultimately show ?case by (auto simp: distinct_sorted_wrt_neq)
qed simp

lemma entries_under: "tree_ok p t \<Longrightarrow> (k, v) \<in> set (entries t p) \<Longrightarrow> take (length p) k = p"
proof (induction arbitrary: k v rule: tree_ok.induct)
  case (ok_nd p tm f a)
  then consider "k = p" | x where "x \<in> set (kid_list f)" "(k, v) \<in> set (entries (the (f x)) (p @ [x]))"
    by (auto split: option.splits)
  then show ?case
  proof cases
    case 2
    then have "take (length (p @ [x])) k = p @ [x]" using ok_nd.IH kid_list_the[OF 2(1)] by blast
    from arg_cong[OF this, of "take (length p)"] show ?thesis by (simp add: min_def)
  qed simp
qed simp

text \<open>The lexicographic order on keys, bytes compared as unsigned numbers.\<close>

abbreviation key_less :: "bytes \<Rightarrow> bytes \<Rightarrow> bool" where
  "key_less \<equiv> ord_class.lexordp"

lemma entries_sorted: "tree_ok p t \<Longrightarrow> sorted_wrt (\<lambda>a b. key_less (fst a) (fst b)) (entries t p)"
proof (induction rule: tree_ok.induct)
  case (ok_nd p tm f a)
  let ?R = "\<lambda>a b :: bytes \<times> bytes. key_less (fst a) (fst b)"
  have under: "\<exists>r. fst e = p @ x # r" if "x \<in> set (kid_list f)" "e \<in> set (entries (the (f x)) (p @ [x]))" for x e
  proof -
    have "tree_ok (p @ [x]) (the (f x))" using ok_nd.IH kid_list_the[OF that(1)] by blast
    then have "take (length (p @ [x])) (fst e) = p @ [x]" using entries_under that(2) by (metis prod.collapse)
    then have "fst e = (p @ [x]) @ drop (length (p @ [x])) (fst e)" by (metis append_take_drop_id)
    then show ?thesis by (metis append.assoc append_Cons append_Nil)
  qed
  have "sorted_wrt ?R (concat (map (\<lambda>x. entries (the (f x)) (p @ [x])) (kid_list f)))"
  proof (rule sorted_concat[of "(<)"])
    show "sorted_wrt (<) (kid_list f)" by (rule kid_list_facts)
    show "sorted_wrt ?R (entries (the (f x)) (p @ [x]))" if "x \<in> set (kid_list f)" for x
      using ok_nd.IH kid_list_the[OF that] by blast
    show "key_less (fst i) (fst j)" if "x \<in> set (kid_list f)" "y \<in> set (kid_list f)" "x < y"
        "i \<in> set (entries (the (f x)) (p @ [x]))" "j \<in> set (entries (the (f y)) (p @ [y]))" for x y i j
      using under[OF that(1,4)] under[OF that(2,5)] that(3) by (auto intro: lexordp_append_left_rightI)
  qed
  moreover have "key_less p (fst e)" if "x \<in> set (kid_list f)" "e \<in> set (entries (the (f x)) (p @ [x]))" for x e
    using under[OF that] lexordp_append_leftI[of "[]" "x # _" p] by auto
  ultimately show ?case by (auto simp: sorted_wrt_append split: option.splits)
qed simp

lemma entries_look:
  "tree_ok p t \<Longrightarrow> (k, v) \<in> set (entries t p) \<longleftrightarrow> take (length p) k = p \<and> look t k (length p) = Some v"
proof (induction arbitrary: k v rule: tree_ok.induct)
  case (ok_nd p tm f a)
  have kid: "(k, v) \<in> set (entries (the (f x)) (p @ [x])) \<longleftrightarrow> take (length p + 1) k = p @ [x] \<and> look (the (f x)) k (length p + 1) = Some v"
    if "x \<in> set (kid_list f)" for x
    using ok_nd.IH kid_list_the[OF that] by (metis length_append_singleton Suc_eq_plus1)
  show ?case
  proof (cases "take (length p) k = p")
    case True
    show ?thesis
    proof (cases "length k = length p")
      case eq: True
      with True have kp: "k = p" by simp
      have "take (length p + 1) k \<noteq> p @ [x]" for x using kp by simp
      with kid kp show ?thesis by (auto split: option.splits)
    next
      case False
      with path_under[OF True] have lt: "length p < length k" by simp
      have "take (length p + 1) k = p @ [x] \<longleftrightarrow> x = k ! length p" for x
        using under_child[OF True lt] by auto
      moreover have "k \<noteq> p" using lt by auto
      ultimately show ?thesis using kid lt kid_list_facts(1)[of f] True
        by (auto split: option.splits)
    qed
  next
    case False
    have "take (length p + 1) k \<noteq> p @ [x]" for x
    proof
      assume "take (length p + 1) k = p @ [x]"
      from arg_cong[OF this, of "take (length p)"] False show False by (simp add: min_def split: if_splits)
    qed
    with kid False show ?thesis by (auto split: option.splits)
  qed
qed auto

section \<open>Children of a node block\<close>

lemma kid_heap:
  assumes "heap_kids P c L s p f" and "x \<in> set (kid_list f)"
  shows "heap_tree P c L s (p @ [x]) (the (f x))"
  using assms kid_list_the[OF assms(2)] by (auto simp: heap_kids_def)

lemma slot_addr: "heap_kids P c L s p f \<Longrightarrow> f x \<noteq> None \<Longrightarrow> unat (slots_of f ! unat x) = addr_of (the (f x))"
  using kid_heap[of P c L s p f x] heap_addr(1)[of P c L s "p @ [x]"] by (auto simp: slots_of_nth kid_list_facts)

lemma enumerate_slots: "enumerate 0 (slots_of f) = map (\<lambda>i. (i, slots_of f ! i)) [0..<256]"
  by (simp add: slots_of_def enumerate_map_upt)

lemma byte_slots:
  assumes "heap_kids P c L s p f"
  shows "map (\<lambda>(i, s). (of_nat i, unat s)) (filter (\<lambda>(i, s). s \<noteq> 0) (enumerate 0 (slots_of f)))
      = map (\<lambda>x. (x, addr_of (the (f x)))) (kid_list f)"
    and "map unat (filter (\<lambda>s. s \<noteq> 0) (slots_of f)) = map (\<lambda>x. addr_of (the (f x))) (kid_list f)"
proof -
  have nz: "slots_of f ! i \<noteq> 0 \<longleftrightarrow> f (of_nat i) \<noteq> None" if "i < 256" for i
    using slot_zero[OF assms, of "of_nat i"] that by (simp add: unat_of_nat_less)
  have ad: "unat (slots_of f ! i) = addr_of (the (f (of_nat i)))" if "i < 256" "f (of_nat i) \<noteq> None" for i
    using slot_addr[OF assms that(2)] that(1) by (simp add: unat_of_nat_less)
  have kl: "kid_list f = map of_nat (filter (\<lambda>i. f (of_nat i) \<noteq> None) [0..<256])"
    by (simp add: kid_list_def byte_list_def filter_map comp_def)
  have fl: "filter (\<lambda>i. slots_of f ! i \<noteq> 0) [0..<256] = filter (\<lambda>i. f (of_nat i) \<noteq> None) [0..<256]"
    by (rule filter_cong) (use nz in auto)
  show "map (\<lambda>(i, s). (of_nat i, unat s)) (filter (\<lambda>(i, s). s \<noteq> 0) (enumerate 0 (slots_of f)))
      = map (\<lambda>x. (x, addr_of (the (f x)))) (kid_list f)"
    unfolding enumerate_slots kl by (simp add: filter_map comp_def fl) (use ad in auto)
  have sl: "slots_of f = map (\<lambda>i. slots_of f ! i) [0..<256]" by (rule nth_equalityI) simp_all
  show "map unat (filter (\<lambda>s. s \<noteq> 0) (slots_of f)) = map (\<lambda>x. addr_of (the (f x))) (kid_list f)"
    by (subst sl, unfold kl) (use fl ad in \<open>simp add: filter_map comp_def\<close>)
qed

section \<open>The prefix scan\<close>

definition under :: "bytes \<Rightarrow> (bytes \<times> bytes) list \<Rightarrow> (bytes \<times> bytes) list" where
  "under prefix es = filter (\<lambda>e. take (length prefix) (fst e) = prefix) es"

text \<open>A path the scan reaches: on the way to the prefix or below it.\<close>

definition on_path :: "bytes \<Rightarrow> bytes \<Rightarrow> bool" where
  "on_path prefix q \<longleftrightarrow> take (length q) prefix = q \<or> take (length prefix) q = prefix"

lemma concat_single:
  "distinct xs \<Longrightarrow> (\<And>x. x \<in> set xs \<Longrightarrow> x \<noteq> y \<Longrightarrow> g x = []) \<Longrightarrow> concat (map g xs) = (if y \<in> set xs then g y else [])"
  by (induction xs) auto

lemma under_leaf: "(length prefix \<le> length k \<and> take (length prefix) k = prefix) = (take (length prefix) k = prefix)"
  using path_under by blast

text \<open>What the node contributes is what the tree has under the prefix.\<close>

lemma under_short:
  assumes "tree_ok q (Nd a tm f)" and "length q < length prefix" and "take (length q) prefix = q"
  shows "under prefix (entries (Nd a tm f) q) =
    (if f (prefix ! length q) = None then []
     else under prefix (entries (the (f (prefix ! length q))) (q @ [prefix ! length q])))"
proof -
  let ?y = "prefix ! length q" and ?g = "\<lambda>x. under prefix (entries (the (f x)) (q @ [x]))"
  have "?g x = []" if x: "x \<in> set (kid_list f)" "x \<noteq> ?y" for x
  proof -
    have "tree_ok (q @ [x]) (the (f x))" using assms(1) kid_list_the[OF x(1)] by (auto simp: tree_ok_simps)
    then have "take (length prefix) (fst e) \<noteq> prefix" if "e \<in> set (entries (the (f x)) (q @ [x]))" for e
    proof -
      assume "tree_ok (q @ [x]) (the (f x))"
      from entries_under[OF this, of "fst e" "snd e"] that have "take (length q + 1) (fst e) = q @ [x]" by simp
      then have "fst e ! length q = x" by (metis add.commute lessI nth_append_length nth_take plus_1_eq_Suc)
      moreover have "fst e ! length q = ?y" if "take (length prefix) (fst e) = prefix"
        using that assms(2) by (metis nth_take)
      ultimately show ?thesis using x(2) by auto
    qed
    then show ?thesis by (auto simp: under_def filter_empty_conv)
  qed
  from concat_single[OF kid_list_facts(3) this] have
    "concat (map ?g (kid_list f)) = (if f ?y = None then [] else ?g ?y)" by (auto simp: kid_list_facts)
  moreover have "under prefix (case tm of None \<Rightarrow> [] | Some v \<Rightarrow> [(q, v)]) = []"
    using assms(2) by (auto simp: under_def split: option.splits)
  moreover have "under prefix (concat (map h xs)) = concat (map (\<lambda>x. under prefix (h x)) xs)" for h and xs :: "u8 list"
    by (induction xs) (auto simp: under_def)
  ultimately show ?thesis by (simp add: under_def)
qed

lemma under_append [simp]: "under prefix (xs @ ys) = under prefix xs @ under prefix ys"
  by (simp add: under_def)

lemma under_concat: "under prefix (concat (map h xs)) = concat (map (\<lambda>x. under prefix (h x)) xs)"
  by (induction xs) (auto simp: under_def)

text \<open>Entering the subtree \<open>t\<close> at path \<open>q\<close> appends its entries under the prefix and goes on with the stack.\<close>

definition scans :: "prims \<Rightarrow> node_crypto \<Rightarrow> backend \<Rightarrow> bytes \<Rightarrow> tree \<Rightarrow> bytes \<Rightarrow> bool" where
  "scans P c b prefix t q \<longleftrightarrow>
     (\<forall>v byte ks stk out. (case byte of None \<Rightarrow> ks = q | Some x \<Rightarrow> ks @ [x] = q) \<longrightarrow> v + length (nodes t) \<le> TRIE_NODE_BUDGET \<longrightarrow>
        (\<exists>n \<le> length (nodes t). scan_loop_at P c b prefix v (Enter (addr_of t) (length q) byte # stk) ks out
           = scan_loop_at P c b prefix (v + n) stk ks (out @ under prefix (entries t q))))"

lemma scan_kids:
  assumes "\<And>x. x \<in> set xs \<Longrightarrow> scans P c b prefix (the (f x)) (q @ [x])"
    and "v + sum_list (map (\<lambda>x. length (nodes (the (f x)))) xs) \<le> TRIE_NODE_BUDGET"
  shows "\<exists>n \<le> sum_list (map (\<lambda>x. length (nodes (the (f x)))) xs).
    scan_loop_at P c b prefix v (map (\<lambda>(bb, child). Enter child (length q + 1) (Some bb)) (map (\<lambda>x. (x, addr_of (the (f x)))) xs) @ stk) q out
    = scan_loop_at P c b prefix (v + n) stk q (out @ concat (map (\<lambda>x. under prefix (entries (the (f x)) (q @ [x]))) xs))"
  using assms
proof (induction xs arbitrary: v out)
  case (Cons x xs)
  let ?rest = "map (\<lambda>(bb, child). Enter child (length q + 1) (Some bb)) (map (\<lambda>x. (x, addr_of (the (f x)))) xs) @ stk"
  have sx: "scans P c b prefix (the (f x)) (q @ [x])" using Cons.prems(1) by simp
  have "v + length (nodes (the (f x))) \<le> TRIE_NODE_BUDGET" using Cons.prems(2) by simp
  with sx[unfolded scans_def, rule_format, where byte = "Some x" and ks = q and v = v and stk = ?rest and out = out] obtain n where n: "n \<le> length (nodes (the (f x)))"
      "scan_loop_at P c b prefix v (Enter (addr_of (the (f x))) (length q + 1) (Some x) # ?rest) q out
       = scan_loop_at P c b prefix (v + n) ?rest q (out @ under prefix (entries (the (f x)) (q @ [x])))" by auto
  have "v + n + sum_list (map (\<lambda>x. length (nodes (the (f x)))) xs) \<le> TRIE_NODE_BUDGET" using Cons.prems(2) n(1) by simp
  from Cons.IH[OF _ this, of "out @ under prefix (entries (the (f x)) (q @ [x]))"] Cons.prems(1) obtain m where
    m: "m \<le> sum_list (map (\<lambda>x. length (nodes (the (f x)))) xs)"
      "scan_loop_at P c b prefix (v + n) ?rest q (out @ under prefix (entries (the (f x)) (q @ [x])))
       = scan_loop_at P c b prefix (v + n + m) stk q ((out @ under prefix (entries (the (f x)) (q @ [x])))
           @ concat (map (\<lambda>x. under prefix (entries (the (f x)) (q @ [x]))) xs))" by auto
  show ?case
    by (rule exI[of _ "n + m"]) (use n m in \<open>simp add: add.assoc\<close>)
qed simp

lemma scan_enter:
  assumes "read_node_with_backup P b addr c = Inr block" and "scan_node prefix d q block = Inr (found, kids)"
    and "v < TRIE_NODE_BUDGET" and "d \<le> TRIE_MAX_DEPTH" and "case byte of None \<Rightarrow> ks = q | Some x \<Rightarrow> ks @ [x] = q"
    and "scan_loop_at P c b prefix (v + 1) (map (\<lambda>(bb, child). Enter child (d + 1) (Some bb)) kids
           @ (case byte of None \<Rightarrow> stk | Some _ \<Rightarrow> Pop # stk)) q (out @ found)
      = scan_loop_at P c b prefix (v + n) (case byte of None \<Rightarrow> stk | Some _ \<Rightarrow> Pop # stk) q res"
  shows "scan_loop_at P c b prefix v (Enter addr d byte # stk) ks out = scan_loop_at P c b prefix (v + n) stk ks res"
proof (cases byte)
  case None
  with assms show ?thesis by (simp add: not_less)
next
  case (Some x)
  with assms(5) have "q = ks @ [x]" by simp
  with assms Some show ?thesis by (simp add: not_less)
qed

lemma length_concat_sum: "length (concat (map h xs)) = sum_list (map (\<lambda>x. length (h x)) xs)"
  by (simp add: length_concat comp_def)

lemma tree_ok_depth: "tree_ok q t \<Longrightarrow> length q \<le> MAX_KEY_LEN"
  using path_under by (cases t) (auto simp: tree_ok_simps intro: le_trans)

lemma nodes_pos: "0 < length (nodes t)"
  by (cases t) simp_all

lemma scans_inner:
  assumes t: "heap_tree P c L s q (Nd a tm f)" and op: "on_path prefix q"
    and IH: "\<And>x. x \<in> set (kid_list f) \<Longrightarrow> on_path prefix (q @ [x]) \<Longrightarrow> scans P c (ts_b s) prefix (the (f x)) (q @ [x])"
  shows "scans P c (ts_b s) prefix (Nd a tm f) q"
  unfolding scans_def
proof (intro allI impI)
  fix v byte ks stk out
  assume kq: "case byte of None \<Rightarrow> ks = q | Some x \<Rightarrow> ks @ [x] = q" and bud: "v + length (nodes (Nd a tm f)) \<le> TRIE_NODE_BUDGET"
  let ?t = "Nd a tm f" and ?b = "ts_b s" and ?len = "\<lambda>xs. sum_list (map (\<lambda>x. length (nodes (the (f x)))) xs)"
  from t have n: "node_at P c ?b a (InnerNode \<lparr>in_term = tm, in_slots = slots_of f\<rparr>)" and kids: "heap_kids P c L s q f"
    by (simp_all add: heap_tree_Nd)
  from t have tok: "tree_ok q ?t" by (simp add: heap_tree_def)
  obtain block where bl: "read_node_with_backup P ?b a c = Inr block" "block ! OFF_KIND \<noteq> KIND_LEAF"
      "in_decode block = \<lparr>in_term = tm, in_slots = slots_of f\<rparr>"
    by (rule read_inner[OF n], rule that, assumption+)
  have depth: "length q \<le> TRIE_MAX_DEPTH" using tree_ok_depth[OF tok] by (simp add: node_consts)
  have v: "v < TRIE_NODE_BUDGET" using bud by simp
  define xs where "xs = (if length q < length prefix then (if f (prefix ! length q) = None then [] else [prefix ! length q]) else kid_list f)"
  define found where "found = (if length q < length prefix then [] else case tm of Some v \<Rightarrow> [(q, v)] | None \<Rightarrow> [])"
  have sn: "scan_node prefix (length q) q block = Inr (found, map (\<lambda>x. (x, addr_of (the (f x)))) xs)"
  proof (cases "length q < length prefix")
    case True
    let ?y = "prefix ! length q"
    have "slots_of f ! unat ?y \<noteq> 0 \<Longrightarrow> unat (slots_of f ! unat ?y) = addr_of (the (f ?y))"
      using slot_addr[OF kids, of ?y] slot_zero[OF kids, of ?y] by simp
    with True bl show ?thesis using slot_zero[OF kids, of ?y] by (simp add: scan_node_def Let_def xs_def found_def)
  next
    case False
    with bl byte_slots(1)[OF kids] show ?thesis by (simp add: scan_node_def Let_def xs_def found_def)
  qed
  have sub: "set xs \<subseteq> set (kid_list f)" by (auto simp: xs_def kid_list_facts)
  have subl: "?len xs \<le> ?len (kid_list f)"
  proof (cases "length q < length prefix \<and> f (prefix ! length q) \<noteq> None")
    case True
    then have "prefix ! length q \<in> set (kid_list f)" by (simp add: kid_list_facts)
    then have "length (nodes (the (f (prefix ! length q)))) \<le> ?len (kid_list f)"
      by (intro member_le_sum_list) (auto intro: image_eqI)
    with True show ?thesis by (auto simp: xs_def)
  qed (auto simp: xs_def)
  have reachd: "on_path prefix (q @ [x])" if "x \<in> set xs" for x
  proof (cases "length q < length prefix")
    case True
    with op have "take (length q) prefix = q" by (auto simp: on_path_def dest: path_under)
    with True that show ?thesis by (auto simp: xs_def on_path_def take_Suc_conv_app_nth split: if_splits)
  next
    case False
    with op have "take (length prefix) q = prefix" by (auto simp: on_path_def)
    with False show ?thesis by (simp add: on_path_def)
  qed
  have "v + 1 + ?len xs \<le> TRIE_NODE_BUDGET" using bud subl by (simp add: length_concat_sum)
  from scan_kids[where P = P and c = c and b = ?b and prefix = prefix and f = f and q = q, OF _ this] IH sub reachd
  have sk: "\<exists>n \<le> ?len xs. scan_loop_at P c ?b prefix (v + 1) (map (\<lambda>(bb, child). Enter child (length q + 1) (Some bb))
        (map (\<lambda>x. (x, addr_of (the (f x)))) xs) @ stk') q (out @ found)
      = scan_loop_at P c ?b prefix (v + 1 + n) stk' q ((out @ found) @ concat (map (\<lambda>x. under prefix (entries (the (f x)) (q @ [x]))) xs))" for stk'
    by blast
  have ent: "under prefix (entries ?t q) = found @ concat (map (\<lambda>x. under prefix (entries (the (f x)) (q @ [x]))) xs)"
  proof (cases "length q < length prefix")
    case True
    with op have "take (length q) prefix = q" by (auto simp: on_path_def dest: path_under)
    with under_short[OF tok True] True show ?thesis by (simp add: xs_def found_def)
  next
    case False
    with op have "take (length prefix) q = prefix" by (auto simp: on_path_def)
    with False have "under prefix (case tm of None \<Rightarrow> [] | Some v \<Rightarrow> [(q, v)]) = found"
      by (auto simp: found_def under_def split: option.splits)
    with False show ?thesis by (simp add: xs_def under_concat)
  qed
  show "\<exists>n \<le> length (nodes ?t). scan_loop_at P c ?b prefix v (Enter (addr_of ?t) (length q) byte # stk) ks out
      = scan_loop_at P c ?b prefix (v + n) stk ks (out @ under prefix (entries ?t q))"
  proof -
    let ?stk = "case byte of None \<Rightarrow> stk | Some _ \<Rightarrow> Pop # stk"
    obtain n where n: "n \<le> ?len xs" "scan_loop_at P c ?b prefix (v + 1) (map (\<lambda>(bb, child). Enter child (length q + 1) (Some bb))
          (map (\<lambda>x. (x, addr_of (the (f x)))) xs) @ ?stk) q (out @ found)
        = scan_loop_at P c ?b prefix (v + Suc n) ?stk q (out @ under prefix (entries ?t q))"
      using sk[of ?stk] unfolding ent by auto
    from scan_enter[OF bl(1) sn v depth kq n(2)] n(1) subl show ?thesis
      by (intro exI[of _ "Suc n"]) (simp add: length_concat_sum)
  qed
qed

lemma scan_subtree:
  "heap_tree P c L s q t \<Longrightarrow> on_path prefix q \<Longrightarrow> scans P c (ts_b s) prefix t q"
proof (induction t arbitrary: q)
  case (Lf a k v)
  then have n: "node_at P c (ts_b s) a (LeafNode k v)" and tok: "tree_ok q (Lf a k v)" by (simp_all add: heap_tree_def)
  obtain block where bl: "read_node_with_backup P (ts_b s) a c = Inr block" "block ! OFF_KIND = KIND_LEAF"
      "decode_leaf block = Inr (k, v)" by (rule read_leaf[OF n])
  have depth: "length q \<le> TRIE_MAX_DEPTH" using tree_ok_depth[OF tok] by (simp add: node_consts)
  have sn: "scan_node prefix (length q) q block = Inr (under prefix (entries (Lf a k v) q), [])"
    using bl by (simp add: scan_node_def under_leaf under_def)
  show ?case unfolding scans_def
  proof (intro allI impI)
    fix w byte ks stk out
    assume kq: "case byte of None \<Rightarrow> ks = q | Some x \<Rightarrow> ks @ [x] = q" and "w + length (nodes (Lf a k v)) \<le> TRIE_NODE_BUDGET"
    then have "w < TRIE_NODE_BUDGET" by simp
    from scan_enter[OF bl(1) sn this depth kq, of stk out 1] show "\<exists>n \<le> length (nodes (Lf a k v)).
        scan_loop_at P c (ts_b s) prefix w (Enter (addr_of (Lf a k v)) (length q) byte # stk) ks out
        = scan_loop_at P c (ts_b s) prefix (w + n) stk ks (out @ under prefix (entries (Lf a k v) q))"
      by (intro exI[of _ 1]) simp
  qed
next
  case (Nd a tm f)
  show ?case
  proof (rule scans_inner[OF Nd.prems])
    fix x assume x: "x \<in> set (kid_list f)" "on_path prefix (q @ [x])"
    have kids: "heap_kids P c L s q f" using Nd.prems(1) by (simp add: heap_tree_Nd)
    show "scans P c (ts_b s) prefix (the (f x)) (q @ [x])"
      by (rule Nd.IH[OF rangeI[of f x] _ kid_heap[OF kids x(1)] x(2)]) (use kid_list_the[OF x(1)] in \<open>metis option.set_intros\<close>)
  qed
qed

lemma scan_prefix_ok:
  assumes "trie_state P T L s m A" and "card A \<le> TRIE_NODE_BUDGET"
  shows "\<exists>xs. scan_prefix P T (ts_b s) prefix = Inr xs \<and> sorted_wrt (\<lambda>a b. key_less (fst a) (fst b)) xs
    \<and> (\<forall>k v. (k, v) \<in> set xs \<longleftrightarrow> m k = Some v \<and> take (length prefix) k = prefix)"
proof -
  from assms(1) obtain t where t: "heap_tree P (tr_crypto T) L s [] t" "addr_of t = tr_root T" "contents t = m" "addrs t = A"
    by (auto simp: trie_state_def)
  then have tok: "tree_ok [] t" by (simp add: heap_tree_def)
  have "length (nodes t) = card A" using distinct_card[OF nodes_distinct[OF tok]] t(4) by (simp add: set_nodes)
  then obtain n where "scan_prefix P T (ts_b s) prefix = scan_loop_at P (tr_crypto T) (ts_b s) prefix n [] [] (under prefix (entries t []))"
    using scan_subtree[OF t(1), of prefix, unfolded scans_def, rule_format, where byte = None and ks = "[]" and v = 0 and stk = "[]" and out = "[]"]
      assms(2) t(2) by (auto simp: on_path_def scan_prefix_def)
  moreover have "sorted_wrt (\<lambda>a b. key_less (fst a) (fst b)) (under prefix (entries t []))"
    unfolding under_def by (rule sorted_wrt_filter[OF entries_sorted[OF tok]])
  moreover have "(k, v) \<in> set (under prefix (entries t [])) \<longleftrightarrow> m k = Some v \<and> take (length prefix) k = prefix" for k v
    using entries_look[OF tok, of k v] t(3) by (auto simp: under_def contents_def)
  ultimately show ?thesis by auto
qed

section \<open>The visit of all nodes\<close>

lemma visit_enter_node:
  assumes "heap_tree P c L s q t" and "length st = length q" and "v < TRIE_NODE_BUDGET"
  shows "visit_enter P c (ts_b s) (addr_of t) v st out =
    (Inr (v + 1, (case t of Lf a k w \<Rightarrow> [] | Nd a tm f \<Rightarrow> map (\<lambda>x. addr_of (the (f x))) (kid_list f)) # st), out @ [addr_of t])"
proof -
  have d: "\<not> TRIE_MAX_DEPTH \<le> length st"
    using tree_ok_depth[of q t] assms(1,2) by (simp add: heap_tree_def node_consts)
  show ?thesis
  proof (cases t)
    case (Lf a k w)
    then have n: "node_at P c (ts_b s) a (LeafNode k w)" using assms(1) by (simp add: heap_tree_def)
    obtain block where "read_node_with_backup P (ts_b s) a c = Inr block" "block ! OFF_KIND = KIND_LEAF"
      by (rule read_leaf[OF n])
    with d assms(3) Lf show ?thesis by (simp add: visit_enter_def Let_def KIND_LEAF_def KIND_INTERNAL_def)
  next
    case (Nd a tm f)
    then have n: "node_at P c (ts_b s) a (InnerNode \<lparr>in_term = tm, in_slots = slots_of f\<rparr>)" and kids: "heap_kids P c L s q f"
      using assms(1) by (simp_all add: heap_tree_Nd)
    obtain block where "read_node_with_backup P (ts_b s) a c = Inr block" "block ! OFF_KIND = KIND_INTERNAL"
        "in_decode block = \<lparr>in_term = tm, in_slots = slots_of f\<rparr>" by (rule read_inner[OF n])
    with d assms(3) Nd byte_slots(2)[OF kids] show ?thesis by (simp add: visit_enter_def Let_def)
  qed
qed

lemma visit_subtree:
  "heap_tree P c L s q t \<Longrightarrow> length st = length q \<Longrightarrow> v + length (nodes t) \<le> TRIE_NODE_BUDGET \<Longrightarrow>
   bind_s (visit_enter P c (ts_b s) (addr_of t) v st out) (\<lambda>(v, st) out. visit_loop P c (ts_b s) v st out)
   = visit_loop P c (ts_b s) (v + length (nodes t)) st (out @ nodes t)"
proof (induction t arbitrary: q st v out)
  case (Lf a k w)
  then show ?case using visit_enter_node[OF Lf.prems(1,2), of v out] by simp
next
  case (Nd a tm f)
  have kids: "heap_kids P c L s q f" using Nd.prems(1) by (simp add: heap_tree_Nd)
  have kid: "visit_loop P c (ts_b s) v ((map (\<lambda>x. addr_of (the (f x))) xs) # st) out
      = visit_loop P c (ts_b s) (v + length (concat (map (\<lambda>x. nodes (the (f x))) xs))) st (out @ concat (map (\<lambda>x. nodes (the (f x))) xs))"
    if "set xs \<subseteq> set (kid_list f)" "v + length (concat (map (\<lambda>x. nodes (the (f x))) xs)) \<le> TRIE_NODE_BUDGET" for xs v out
    using that
  proof (induction xs arbitrary: v out)
    case (Cons x xs)
    have x: "x \<in> set (kid_list f)" using Cons.prems(1) by simp
    let ?st = "map (\<lambda>x. addr_of (the (f x))) xs # st"
    have "bind_s (visit_enter P c (ts_b s) (addr_of (the (f x))) v ?st out) (\<lambda>(v, st) out. visit_loop P c (ts_b s) v st out)
        = visit_loop P c (ts_b s) (v + length (nodes (the (f x)))) ?st (out @ nodes (the (f x)))"
    proof (rule Nd.IH[OF rangeI[of f x] _ kid_heap[OF kids x]])
      show "the (f x) \<in> set_option (f x)" using kid_list_the[OF x] by (metis option.set_intros)
      show "length ?st = length (q @ [x])" using Nd.prems(2) by simp
      show "v + length (nodes (the (f x))) \<le> TRIE_NODE_BUDGET" using Cons.prems(2) by simp
    qed
    then show ?case using Cons by (simp add: add.assoc)
  qed simp
  have "v < TRIE_NODE_BUDGET" using Nd.prems(3) by simp
  from visit_enter_node[OF Nd.prems(1,2) this, of out] show ?case
    using kid[of "kid_list f" "v + 1" "out @ [a]"] Nd.prems(3) by simp
qed

lemma visit_nodes_ok:
  assumes "trie_state P T L s m A" and "card A \<le> TRIE_NODE_BUDGET"
  shows "\<exists>xs. visit_nodes P (tr_crypto T) (ts_b s) (tr_root T) = (Inr (), xs) \<and> distinct xs \<and> set xs = A"
proof -
  from assms(1) obtain t where t: "heap_tree P (tr_crypto T) L s [] t" "addr_of t = tr_root T" "addrs t = A"
    by (auto simp: trie_state_def)
  then have tok: "tree_ok [] t" by (simp add: heap_tree_def)
  have d: "distinct (nodes t)" "length (nodes t) = card A"
    using nodes_distinct[OF tok] distinct_card[OF nodes_distinct[OF tok]] t(3) by (simp_all add: set_nodes)
  have "tr_root T \<noteq> 0"
  proof
    assume "tr_root T = 0"
    then have "(of_nat (addr_of t) :: u64) = 0" using t(2) by simp
    with heap_addr(2)[OF t(1)] show False by contradiction
  qed
  then have "visit_nodes P (tr_crypto T) (ts_b s) (tr_root T) = (Inr (), nodes t)"
    using visit_subtree[OF t(1), of "[]" 0 "[]"] d assms(2) t(2) by (simp add: visit_nodes_def)
  with d t(3) show ?thesis by (auto simp: set_nodes)
qed

text \<open>On any container whatsoever the visit ends, within the budget.\<close>

lemma visit_enter_out:
  "visit_enter P c b a v st out = (r, out') \<Longrightarrow> length out = v \<Longrightarrow> v \<le> TRIE_NODE_BUDGET \<Longrightarrow>
   length out' \<le> TRIE_NODE_BUDGET \<and> (\<forall>w st'. r = Inr (w, st') \<longrightarrow> length out' = w)"
  by (auto simp: visit_enter_def Let_def bind_s_def split: if_splits sum.splits)

lemma visit_loop_out:
  "length out = v \<Longrightarrow> v \<le> TRIE_NODE_BUDGET \<Longrightarrow> length (snd (visit_loop P c b v st out)) \<le> TRIE_NODE_BUDGET"
proof (induction P c b v st out rule: visit_loop.induct)
  case (3 P c b v child kids st out)
  show ?case
  proof (cases "visit_enter P c b child v (kids # st) out")
    case (Pair r out')
    note o = visit_enter_out[OF Pair "3.prems"]
    show ?thesis
    proof (cases r)
      case (Inl e)
      with Pair o show ?thesis by simp
    next
      case (Inr x)
      obtain w st' where x: "x = (w, st')" by fastforce
      have "length (snd (visit_loop P c b w st' out')) \<le> TRIE_NODE_BUDGET"
        by (rule "3.IH"[of x out' w st']) (use Pair Inr x o in simp_all)
      with Pair Inr x show ?thesis by simp
    qed
  qed
qed simp_all

lemma visit_nodes_bounded: "length (snd (visit_nodes P c b root)) \<le> TRIE_NODE_BUDGET"
proof (cases "visit_enter P c b root 0 [] []")
  case (Pair r out)
  note o = visit_enter_out[OF Pair]
  show ?thesis
    using o Pair visit_loop_out by (cases r) (auto simp: visit_nodes_def split: prod.splits)
qed

end
