(* ===== verification/Trie_Frame.thy ===== *)
theory Trie_Frame
  imports Trie_Map
begin

text \<open>
  Copy-on-write as a frame property. Outside a reclaim scope no operation of the trie, whether it
  succeeds or fails and whatever bytes it finds, changes or releases a block that was live before it
  (\<open>quiet\<close>), and a container on a fixed device keeps its length. The property is closed under sequencing, so it is proved once per primitive and carried
  through the operations by the rules collected in \<open>quiet_intros\<close>.
\<close>

definition same_device :: "tstate \<Rightarrow> tstate \<Rightarrow> bool" where
  "same_device s s' \<longleftrightarrow> (bk_no_grow (ts_b s) \<longrightarrow> bk_no_grow (ts_b s') \<and> bk_len (ts_b s') = bk_len (ts_b s))"

lemma same_device_refl [simp]: "same_device s s"
  by (simp add: same_device_def)

lemma same_device_trans: "same_device s s1 \<Longrightarrow> same_device s1 s2 \<Longrightarrow> same_device s s2"
  by (simp add: same_device_def)

definition quiet :: "(tstate \<Rightarrow> 'a result \<times> tstate) \<Rightarrow> bool" where
  "quiet f \<longleftrightarrow>
     (\<forall>L s r s'. reach L s \<longrightarrow> al_reclaim_floor (ts_a s) = None \<longrightarrow> f s = (r, s') \<longrightarrow>
        (\<exists>L'. reach L' s' \<and> keeps {} L s L' s' \<and> same_device s s'))"

named_theorems quiet_intros

lemma quietI:
  "(\<And>L s r s'. reach L s \<Longrightarrow> al_reclaim_floor (ts_a s) = None \<Longrightarrow> f s = (r, s') \<Longrightarrow> \<exists>L'. reach L' s' \<and> keeps {} L s L' s' \<and> same_device s s')
   \<Longrightarrow> quiet f"
  unfolding quiet_def by blast

lemma quietD:
  "quiet f \<Longrightarrow> reach L s \<Longrightarrow> al_reclaim_floor (ts_a s) = None \<Longrightarrow> f s = (r, s') \<Longrightarrow> \<exists>L'. reach L' s' \<and> keeps {} L s L' s' \<and> same_device s s'"
  unfolding quiet_def by blast

lemma quiet_pure [quiet_intros]: "quiet (\<lambda>s. (g s, s))"
  by (rule quietI) (use keeps_refl same_device_refl in blast)

lemma quiet_bind [quiet_intros]:
  assumes "quiet f" and "\<And>x. quiet (h x)"
  shows "quiet (\<lambda>s. bind_s (f s) h)"
proof (rule quietI)
  fix L s r s'
  assume s: "reach L s" "al_reclaim_floor (ts_a s) = None" and b: "bind_s (f s) h = (r, s')"
  obtain r1 s1 where f: "f s = (r1, s1)" by fastforce
  from quietD[OF assms(1) s f] obtain L1 where 1: "reach L1 s1" "keeps {} L s L1 s1" "same_device s s1" by blast
  show "\<exists>L'. reach L' s' \<and> keeps {} L s L' s' \<and> same_device s s'"
  proof (cases r1)
    case (Inl e)
    with b f 1 show ?thesis by auto
  next
    case (Inr x)
    with b f have h: "h x s1 = (r, s')" by simp
    have "al_reclaim_floor (ts_a s1) = None" using 1(2) s(2) by (simp add: keeps_def)
    from quietD[OF assms(2) 1(1) this h] obtain L2 where "reach L2 s'" "keeps {} L1 s1 L2 s'" "same_device s1 s'" by blast
    then show ?thesis using keeps_trans[OF 1(2), of "{}"] same_device_trans[OF 1(3)] by auto
  qed
qed

lemma quiet_if [quiet_intros]: "quiet f \<Longrightarrow> quiet g \<Longrightarrow> quiet (\<lambda>s. if B then f s else g s)"
  by (cases B) simp_all

lemma quiet_free [quiet_intros]: "quiet (\<lambda>s. (Inr x, free_node_cow a s))"
proof (rule quietI)
  fix L s r s'
  assume "reach L s" "al_reclaim_floor (ts_a s) = None" "(Inr x, free_node_cow a s) = (r, s')"
  moreover from this have "s' = s" by (auto simp: free_node_cow_def free_reclaimable_def)
  ultimately show "\<exists>L'. reach L' s' \<and> keeps {} L s L' s' \<and> same_device s s'" by (intro exI[of _ L]) simp
qed

section \<open>Writing a fresh node\<close>

lemma crc_block_length: "length payload \<le> 4084 \<Longrightarrow> length (crc_block P kind payload) = 4096"
  by (simp add: crc_block_def Let_def node_consts codec_simps)

lemma write_block_any:
  assumes "write_node_block P c addr kind payload s = (r, s')"
  shows "ts_a s' = ts_a s \<and> (ts_b s' = ts_b s \<or> (\<exists>raw. length raw = 4096 \<and> bk_write_at (ts_b s) addr raw = Inr (ts_b s')))"
proof (cases "nc_cipher c = CIPHER_AES256_GCM")
  case True
  then show ?thesis
    using assms gcm_block_length
    by (fastforce simp: write_node_block_def fill_random_def ts_write_at_def Let_def node_consts bind_s_def
        split: if_splits sum.splits)
next
  case False
  then show ?thesis
    using assms crc_block_length[of payload P kind]
    by (auto simp: write_node_block_def ts_write_at_def node_consts split: if_splits sum.splits)
qed

lemma write_block_frame:
  assumes "reach L s" and "L a = Some 8192" and "x = a \<or> x = a + 4096" and "write_node_block P c x kind p s = (r, s')"
  shows "reach L s' \<and> keeps {a} L s L s'"
proof -
  note w = write_block_any[OF assms(4)]
  show ?thesis
  proof (cases "ts_b s' = ts_b s")
    case True
    with w assms(1) show ?thesis by (simp add: keeps_def)
  next
    case False
    then obtain raw where raw: "length raw = 4096" "bk_write_at (ts_b s) x raw = Inr (ts_b s')" and a: "ts_a s' = ts_a s"
      using w by blast
    have "alloc_step (L, ts_a s, ts_b s) (L, ts_a s, ts_b s')"
      by (rule st_write[where L = L and a = a, OF assms(2) _ _ raw(2)]) (use assms(3) raw(1) in auto)
    with assms(1) a have r: "reach L s'" using step by fastforce
    have dj: "disjoint_blocks L" using reachable_al_ok[OF assms(1)] by (simp add: al_ok_def blocks_ok_def)
    note img = bk_write_at_InrD(1,4)[OF raw(2)]
    have len: "length (bk_bytes (ts_b s)) = bk_len (ts_b s)" using reach_block(3)[OF assms(1,2)] by (simp add: bk_ok_def)
    have "slice y n (bk_bytes (ts_b s')) = slice y n (bk_bytes (ts_b s))" if y: "L y = Some n" "y \<noteq> a" for y n
    proof -
      have "a + 8192 \<le> y \<or> y + n \<le> a" using dj y assms(2) unfolding disjoint_blocks_def by blast
      then have "y + n \<le> x \<or> x + 4096 \<le> y" using assms(3) by auto
      then show ?thesis
        using img raw(1) len slice_splice_above[of x raw y "bk_bytes (ts_b s)" n] slice_splice_below[of y n x raw "bk_bytes (ts_b s)"]
        by auto
    qed
    with r a show ?thesis by (simp add: keeps_def)
  qed
qed

text \<open>The allocator grows a container only when its device allows it.\<close>

lemma grow_device: "bk_no_grow b \<Longrightarrow> \<exists>e. grow_for al b need = Inl e"
  by (simp add: grow_for_def Let_def bk_grow_def)

lemma alloc_aligned_device:
  assumes "bk_no_grow b" and "alloc_aligned al b len r = Inr (al', b', loc)"
  shows "b' = b"
proof -
  obtain e where "grow_for al b (block_size len) = Inl e" using grow_device[OF assms(1)] by blast
  with assms(2) show ?thesis
    by (auto simp: alloc_aligned_def Let_def split: option.splits if_splits prod.splits)
qed

lemma backup_addr_InrD: "backup_addr a = Inr x \<Longrightarrow> x = a + 4096"
  by (auto simp: backup_addr_def node_consts split: if_splits)

lemma write_pair_frame:
  assumes "reach L s" and "L a = Some 8192" and "write_node_pair_no_flush P c a kind p s = (r, s')"
  shows "reach L s' \<and> keeps {a} L s L s'"
proof (cases "backup_addr a")
  case (Inl e)
  with assms show ?thesis by (simp add: write_node_pair_no_flush_def)
next
  case (Inr x)
  obtain r1 s1 where 1: "write_node_block P c x kind p s = (r1, s1)" by fastforce
  from write_block_frame[OF assms(1,2) _ 1] backup_addr_InrD[OF Inr] have f1: "reach L s1" "keeps {a} L s L s1" by auto
  show ?thesis
  proof (cases r1)
    case (Inl e)
    with assms(3) Inr 1 f1 show ?thesis by (simp add: write_node_pair_no_flush_def)
  next
    case (Inr u)
    have "write_node_block P c a kind p s1 = (r, s')"
      using assms(3) \<open>backup_addr a = Inr x\<close> 1 Inr by (simp add: write_node_pair_no_flush_def)
    from write_block_frame[OF f1(1) assms(2) _ this] have "reach L s'" "keeps {a} L s1 L s'" by auto
    with keeps_trans[OF f1(2)] show ?thesis by fastforce
  qed
qed

lemma write_block_device: "write_node_block P c addr kind p s = (r, s') \<Longrightarrow> same_device s s'"
  using write_block_any[of P c addr kind p s r s'] bk_write_at_InrD(2,3)[of "ts_b s" addr _ "ts_b s'"]
  by (auto simp: same_device_def)

lemma write_pair_device:
  assumes "write_node_pair_no_flush P c a kind p s = (r, s')"
  shows "same_device s s'"
proof (cases "backup_addr a")
  case (Inl e)
  with assms show ?thesis by (simp add: write_node_pair_no_flush_def)
next
  case (Inr x)
  obtain r1 s1 where 1: "write_node_block P c x kind p s = (r1, s1)" by fastforce
  note d = write_block_device[OF 1]
  show ?thesis
  proof (cases r1)
    case (Inl e)
    with assms Inr 1 d show ?thesis by (simp add: write_node_pair_no_flush_def)
  next
    case (Inr u)
    have "write_node_block P c a kind p s1 = (r, s')"
      using assms \<open>backup_addr a = Inr x\<close> 1 Inr by (simp add: write_node_pair_no_flush_def)
    from same_device_trans[OF d write_block_device[OF this]] show ?thesis .
  qed
qed

lemma alloc_device: "ts_alloc len reg s = (r, s') \<Longrightarrow> same_device s s'"
  using alloc_aligned_device[of "ts_b s" "ts_a s" len reg]
  by (fastforce simp: ts_alloc_def same_device_def split: sum.splits)

lemma node_frame:
  assumes s: "reach L s" and f: "alloc_and_write_node_cow P c kind p s = (r, s')"
  shows "\<exists>L'. reach L' s' \<and> keeps {} L s L' s' \<and> same_device s s'"
proof (cases "alloc_aligned (ts_a s) (ts_b s) NODE_ALLOC_SIZE CatalogHead")
  case (Inl e)
  then have "s' = s" using f by (simp add: alloc_and_write_node_cow_def ts_alloc_def)
  then show ?thesis using s by (intro exI[of _ L]) simp
next
  case (Inr x)
  then obtain loc s1 where al: "ts_alloc NODE_ALLOC_SIZE CatalogHead s = (Inr loc, s1)"
    by (cases x) (auto simp: ts_alloc_def)
  define L1 where "L1 = (moved_live (ts_a s) (ts_b s) (ts_b s1) L)(bl_addr loc \<mapsto> 8192)"
  have 1: "reach L1 s1" "keeps {} L s L1 s1" "bl_addr loc \<notin> used L s"
    using alloc_forward[OF s al] by (simp_all add: L1_def)
  obtain r2 where w: "write_node_pair_no_flush P c (bl_addr loc) kind p s1 = (r2, s')"
    using f al by (auto simp: alloc_and_write_node_cow_def bind_s_def split: prod.splits sum.splits)
  have 2: "reach L1 s'" "keeps {bl_addr loc} L1 s1 L1 s'"
    using write_pair_frame[OF 1(1) _ w] by (simp_all add: L1_def)
  have "keeps {} L s L1 s'" by (rule keeps_unused[OF keeps_trans[OF 1(2) 2(2)]]) (use 1(3) in auto)
  moreover have "same_device s s'" using alloc_device[OF al] write_pair_device[OF w] by (rule same_device_trans)
  ultimately show ?thesis using 2(1) by blast
qed

lemma quiet_node [quiet_intros]: "quiet (alloc_and_write_node_cow P c kind p)"
  by (rule quietI) (rule node_frame)

section \<open>The operations\<close>

lemma quiet_internal [quiet_intros]: "quiet (alloc_internal_cow P c i)"
  unfolding alloc_internal_cow_def[abs_def] by (intro quiet_intros)

lemma quiet_leaf [quiet_intros]: "quiet (alloc_leaf_cow P c k v)"
  unfolding alloc_leaf_cow_def[abs_def] by (intro quiet_intros)

lemma quiet_wrap [quiet_intros]: "quiet (wrap_chain P c key ds a)"
proof (induction ds arbitrary: a)
  case Nil
  have "wrap_chain P c key [] a = (\<lambda>s. (Inr a, s))" by (simp add: fun_eq_iff)
  then show ?case by (simp add: quiet_pure)
next
  case (Cons d ds)
  have "wrap_chain P c key (d # ds) a =
      (\<lambda>s. bind_s (alloc_internal_cow P c (in_empty\<lparr>in_slots := (in_slots in_empty)[unat (key ! d) := of_nat a]\<rparr>) s) (wrap_chain P c key ds))"
    by (simp add: fun_eq_iff)
  then show ?case by (simp add: quiet_bind quiet_internal Cons)
qed

lemma quiet_branch [quiet_intros]: "quiet (branch_leaf P c ok ov nk nv d)"
  unfolding branch_leaf_def[abs_def] Let_def
  by (cases "length ok < length nk") (simp only: if_True if_False prod.case, intro quiet_intros)+

lemma quiet_put_at: "quiet (put_at P c a key val depth)"
proof (induction "length key - depth" arbitrary: a depth rule: less_induct)
  case less
  let ?n = "in_decode" and ?x = "unat (key ! depth)"
  let ?f = "\<lambda>block s. if block ! OFF_KIND = KIND_LEAF
          then bind_s (decode_leaf block, s) (\<lambda>kv s.
                 if fst kv = key then alloc_leaf_cow P c key val s else branch_leaf P c (fst kv) (snd kv) key val depth s)
          else if depth = length key then alloc_internal_cow P c ((?n block)\<lparr>in_term := Some val\<rparr>) s
          else if length key < depth then (Inl (Panic ''index out of bounds''), s)
          else bind_s (if in_slots (?n block) ! ?x = 0 then alloc_leaf_cow P c key val s
                   else put_at P c (unat (in_slots (?n block) ! ?x)) key val (depth + 1) s)
                 (\<lambda>y s. alloc_internal_cow P c ((?n block)\<lparr>in_slots := (in_slots (?n block))[?x := of_nat y]\<rparr>) s)"
  have eq: "put_at P c a key val depth =
    (\<lambda>s. bind_s (read_node_with_backup P (ts_b s) a c, s) (\<lambda>block s. bind_s (?f block s) (\<lambda>x s. (Inr x, free_node_cow a s))))"
    by (rule ext, subst put_at.simps) (simp add: Let_def case_prod_unfold cong: if_cong)
  have q: "quiet (?f block)" for block
  proof (cases "depth < length key")
    case True
    then have "length key - (depth + 1) < length key - depth" by simp
    note less[OF this]
    then show ?thesis by (intro quiet_intros)
  next
    case False
    then have "?f block = (\<lambda>s. if block ! OFF_KIND = KIND_LEAF
          then bind_s (decode_leaf block, s) (\<lambda>kv s.
                 if fst kv = key then alloc_leaf_cow P c key val s else branch_leaf P c (fst kv) (snd kv) key val depth s)
          else if depth = length key then alloc_internal_cow P c ((?n block)\<lparr>in_term := Some val\<rparr>) s
          else (Inl (Panic ''index out of bounds''), s))" by (auto simp: fun_eq_iff)
    then show ?thesis by (simp only:) (intro quiet_intros)
  qed
  show ?case unfolding eq by (rule quiet_bind[OF quiet_pure quiet_bind[OF q quiet_free]])
qed

lemma quiet_put: "quiet (trie_put P T key val)"
  unfolding trie_put_def[abs_def] by (intro quiet_intros quiet_put_at)

lemma quiet_case_option [quiet_intros]: "quiet f \<Longrightarrow> (\<And>x. quiet (g x)) \<Longrightarrow> quiet (\<lambda>s. case o' of None \<Rightarrow> f s | Some x \<Rightarrow> g x s)"
  by (cases o') simp_all

lemma quiet_case_prod [quiet_intros]: "(\<And>x y. quiet (g x y)) \<Longrightarrow> quiet (\<lambda>s. case p of (x, y) \<Rightarrow> g x y s)"
  by (cases p) simp

lemma quiet_case_result [quiet_intros]:
  "quiet f \<Longrightarrow> (\<And>x. quiet (g x)) \<Longrightarrow> quiet h \<Longrightarrow> quiet (\<lambda>s. case r of Absent \<Rightarrow> f s | Replaced x \<Rightarrow> g x s | Pruned \<Rightarrow> h s)"
  by (cases r) simp_all

lemma quiet_rebuild [quiet_intros]: "quiet (rebuild_after_remove P c node)"
  unfolding rebuild_after_remove_def[abs_def] Let_def case_prod_unfold by (intro quiet_intros)

lemma quiet_remove_at: "quiet (remove_at P c a key depth)"
proof (induction "length key - depth" arbitrary: a depth rule: less_induct)
  case less
  show ?case
  proof (cases "depth < length key")
    case True
    then have "length key - (depth + 1) < length key - depth" by simp
    note less[OF this]
    then show ?thesis
      by (subst remove_at.simps[abs_def]) (simp only: Let_def case_prod_unfold, intro quiet_intros)
  next
    case False
    have "remove_at P c a key depth = (\<lambda>s. bind_s (read_node_with_backup P (ts_b s) a c, s) (\<lambda>block s.
       if block ! OFF_KIND = KIND_LEAF
       then bind_s (decode_leaf block, s) (\<lambda>kv s.
              if fst kv = key then (Inr Pruned, free_node_cow a s) else (Inr Absent, s))
       else if depth = length key
       then if in_term (in_decode block) = None then (Inr Absent, s)
            else bind_s (rebuild_after_remove P c ((in_decode block)\<lparr>in_term := None\<rparr>) s) (\<lambda>r s. (Inr r, free_node_cow a s))
       else (Inl (Panic ''index out of bounds''), s)))"
      by (rule ext, subst remove_at.simps) (use False in \<open>simp add: Let_def case_prod_unfold cong: if_cong\<close>)
    then show ?thesis by (simp only:) (intro quiet_intros)
  qed
qed

lemma quiet_remove: "quiet (trie_remove P T key)"
  unfolding trie_remove_def[abs_def] by (intro quiet_intros quiet_remove_at)

lemma quiet_create: "quiet (trie_create P cipher key)"
  unfolding trie_create_def[abs_def] Let_def alloc_and_write_eq by (intro quiet_intros)

section \<open>Other tries\<close>

lemma quiet_trie_state:
  assumes "quiet f" and "trie_state P T L s m A" and "al_reclaim_floor (ts_a s) = None" and "f s = (r, s')"
  shows "\<exists>L'. trie_state P T L' s' m A"
  using quietD[OF assms(1) trie_state_reach[OF assms(2)] assms(3,4)] trie_state_keeps[OF assms(2)] by blast

end
