(* ===== verification/Trie_Fail.thy ===== *)
theory Trie_Fail
  imports Trie_Frame
begin

text \<open>
  Insertions and removals that fail while a reclaim scope is open. Such an operation may have released nodes of the trie it
  worked on before it failed, so its handle is of no use afterwards; everything else is as it was: blocks below the floor of the scope, and
  all blocks that are not nodes of that trie, keep their bytes and stay in use.
\<close>

section \<open>Operations that only allocate\<close>

definition gentle :: "(tstate \<Rightarrow> 'a result \<times> tstate) \<Rightarrow> bool" where
  "gentle f \<longleftrightarrow> (\<forall>L s r s'. reach L s \<longrightarrow> f s = (r, s') \<longrightarrow> (\<exists>L'. reach L' s' \<and> keeps {} L s L' s'))"

named_theorems gentle_intros

lemma gentleI: "(\<And>L s r s'. reach L s \<Longrightarrow> f s = (r, s') \<Longrightarrow> \<exists>L'. reach L' s' \<and> keeps {} L s L' s') \<Longrightarrow> gentle f"
  unfolding gentle_def by blast

lemma gentleD: "gentle f \<Longrightarrow> reach L s \<Longrightarrow> f s = (r, s') \<Longrightarrow> \<exists>L'. reach L' s' \<and> keeps {} L s L' s'"
  unfolding gentle_def by blast

lemma gentle_pure [gentle_intros]: "gentle (\<lambda>s. (g s, s))"
  by (rule gentleI) (use keeps_refl in blast)

lemma gentle_bind [gentle_intros]:
  assumes "gentle f" and "\<And>x. gentle (h x)"
  shows "gentle (\<lambda>s. bind_s (f s) h)"
proof (rule gentleI)
  fix L s r s'
  assume s: "reach L s" and b: "bind_s (f s) h = (r, s')"
  obtain r1 s1 where f: "f s = (r1, s1)" by fastforce
  from gentleD[OF assms(1) s f] obtain L1 where 1: "reach L1 s1" "keeps {} L s L1 s1" by blast
  show "\<exists>L'. reach L' s' \<and> keeps {} L s L' s'"
  proof (cases r1)
    case (Inl e)
    with b f 1 show ?thesis by auto
  next
    case (Inr x)
    with b f have "h x s1 = (r, s')" by simp
    from gentleD[OF assms(2) 1(1) this] obtain L2 where "reach L2 s'" "keeps {} L1 s1 L2 s'" by blast
    then show ?thesis using keeps_trans[OF 1(2), of "{}"] by auto
  qed
qed

lemma gentle_if [gentle_intros]: "gentle f \<Longrightarrow> gentle g \<Longrightarrow> gentle (\<lambda>s. if B then f s else g s)"
  by (cases B) simp_all

lemma gentle_case_option [gentle_intros]: "gentle f \<Longrightarrow> (\<And>x. gentle (g x)) \<Longrightarrow> gentle (\<lambda>s. case o' of None \<Rightarrow> f s | Some x \<Rightarrow> g x s)"
  by (cases o') simp_all

lemma gentle_node [gentle_intros]: "gentle (alloc_and_write_node_cow P c kind p)"
  by (rule gentleI) (use node_frame in blast)

lemma gentle_internal [gentle_intros]: "gentle (alloc_internal_cow P c i)"
  unfolding alloc_internal_cow_def[abs_def] by (intro gentle_intros)

lemma gentle_leaf [gentle_intros]: "gentle (alloc_leaf_cow P c k v)"
  unfolding alloc_leaf_cow_def[abs_def] by (intro gentle_intros)

lemma gentle_wrap [gentle_intros]: "gentle (wrap_chain P c key ds a)"
proof (induction ds arbitrary: a)
  case Nil
  have "wrap_chain P c key [] a = (\<lambda>s. (Inr a, s))" by (simp add: fun_eq_iff)
  then show ?case by (simp add: gentle_pure)
next
  case (Cons d ds)
  have "wrap_chain P c key (d # ds) a =
      (\<lambda>s. bind_s (alloc_internal_cow P c (in_empty\<lparr>in_slots := (in_slots in_empty)[unat (key ! d) := of_nat a]\<rparr>) s) (wrap_chain P c key ds))"
    by (simp add: fun_eq_iff)
  then show ?case by (simp add: gentle_bind gentle_internal Cons)
qed

lemma gentle_branch [gentle_intros]: "gentle (branch_leaf P c ok ov nk nv d)"
  unfolding branch_leaf_def[abs_def] Let_def
  by (cases "length ok < length nk") (simp only: if_True if_False prod.case, intro gentle_intros)+

lemma gentle_rebuild [gentle_intros]: "gentle (rebuild_after_remove P c node)"
  unfolding rebuild_after_remove_def[abs_def] Let_def case_prod_unfold by (intro gentle_intros)

section \<open>Failed insertions and removals\<close>

text \<open>What a failed operation on the trie with nodes \<open>A\<close> may have touched.\<close>

definition spared :: "nat set \<Rightarrow> live \<Rightarrow> tstate \<Rightarrow> tstate \<Rightarrow> bool" where
  "spared A L s s' \<longleftrightarrow> (\<exists>L'. reach L' s' \<and> keeps (reclaimable s \<inter> A) L s L' s')"

lemma gentle_spared: "gentle f \<Longrightarrow> reach L s \<Longrightarrow> f s = (r, s') \<Longrightarrow> spared A L s s'"
  unfolding spared_def using gentleD keeps_mono[of "{}"] by blast

lemma spared_then:
  assumes "reach L1 s1" and "keeps F L s L1 s1" and "F \<subseteq> reclaimable s \<inter> A" and "gentle f" and "f s1 = (r, s')"
  shows "spared A L s s'"
proof -
  from gentleD[OF assms(4,1,5)] obtain L2 where 2: "reach L2 s'" "keeps {} L1 s1 L2 s'" by blast
  have "keeps (reclaimable s \<inter> A) L s L2 s'" by (rule keeps_mono[OF keeps_trans[OF assms(2) 2(2)]]) (use assms(3) in blast)
  with 2(1) show ?thesis unfolding spared_def by blast
qed

lemma spared_mono: "spared A L s s' \<Longrightarrow> A \<subseteq> B \<Longrightarrow> spared B L s s'"
  unfolding spared_def by (meson keeps_mono Int_mono order_refl)

lemma bind_s_InlE:
  assumes "bind_s m f = (Inl e, t)"
  obtains (first) "m = (Inl e, t)" | (rest) x s where "m = (Inr x, s)" "f x s = (Inl e, t)"
  using assms by (cases m; cases "fst m") auto

lemma put_at_fails:
  assumes "prims_ok P" and "length key \<le> MAX_KEY_LEN" "length val \<le> MAX_VAL_LEN"
  shows "heap_tree P c L s p t \<Longrightarrow> take (length p) key = p \<Longrightarrow> put_at P c (addr_of t) key val (length p) s = (Inl e, s') \<Longrightarrow>
    spared (addrs t) L s s'"
proof (induction t arbitrary: p s')
  case (Lf b k v)
  then have n: "node_at P c (ts_b s) b (LeafNode k v)" and r: "reach L s" by (simp_all add: heap_tree_def)
  from Lf.prems(3) have "(if k = key then alloc_leaf_cow P c key val s else branch_leaf P c k v key val (length p) s) = (Inl e, s')"
    by (auto simp: put_at_leaf[OF n] elim: bind_s_InlE)
  moreover have "gentle (\<lambda>s. if k = key then alloc_leaf_cow P c key val s else branch_leaf P c k v key val (length p) s)"
    by (intro gentle_intros)
  ultimately show ?case using gentle_spared[OF _ r] by blast
next
  case (Nd b tm f)
  let ?x = "key ! length p" and ?i = "\<lparr>in_term = tm, in_slots = slots_of f\<rparr>"
  from Nd.prems(1) have n: "node_at P c (ts_b s) b (InnerNode ?i)" and kids: "heap_kids P c L s p f" by (simp_all add: heap_tree_Nd)
  from Nd.prems(1) have r: "reach L s" by (simp add: heap_tree_def)
  note le = path_under[OF Nd.prems(2)]
  have op: "(if length p = length key then alloc_internal_cow P c (?i\<lparr>in_term := Some val\<rparr>) s
      else bind_s (if slots_of f ! unat ?x = 0 then alloc_leaf_cow P c key val s
                   else put_at P c (unat (slots_of f ! unat ?x)) key val (length p + 1) s)
             (\<lambda>nc s. alloc_internal_cow P c (?i\<lparr>in_slots := (slots_of f)[unat ?x := of_nat nc]\<rparr>) s)) = (Inl e, s')"
    using Nd.prems(3) le by (auto simp: put_at_inner[OF n] elim!: bind_s_InlE split: if_splits)
  show ?case
  proof (cases "length p < length key \<and> f ?x \<noteq> None")
    case True
    then obtain u where u: "f ?x = Some u" and lt: "length p < length key" by blast
    have h: "heap_tree P c L s (p @ [?x]) u" using kids u by (simp add: heap_kids_def)
    have sub: "addrs u \<subseteq> addrs (Nd b tm f)" using kid_addrsI[of f ?x u] u by (auto simp: addrs_kids)
    note th = under_child[OF Nd.prems(2) lt]
    have op': "bind_s (put_at P c (addr_of u) key val (length (p @ [?x])) s)
        (\<lambda>nc s. alloc_internal_cow P c (?i\<lparr>in_slots := (slots_of f)[unat ?x := of_nat nc]\<rparr>) s) = (Inl e, s')"
      using op lt u heap_addr[OF h] by (simp add: slots_of_nth)
    then show ?thesis
    proof (cases rule: bind_s_InlE)
      case first
      have "spared (addrs u) L s s'" by (rule Nd.IH[OF rangeI[of f ?x] _ h th first]) (simp add: u)
      then show ?thesis by (rule spared_mono[OF _ sub])
    next
      case (rest nc s1)
      from put_at_ok[OF assms h th rest(1)] obtain L1 t1 where 1: "heap_tree P c L1 s1 (p @ [?x]) t1"
        "keeps (reclaimable s \<inter> addrs u) L s L1 s1" unfolding put_result_def by blast
      have "reach L1 s1" using 1(1) by (simp add: heap_tree_def)
      then show ?thesis by (rule spared_then[OF _ 1(2) _ gentle_internal rest(2)]) (use sub in blast)
    qed
  next
    case False
    let ?g = "\<lambda>s. if length p = length key then alloc_internal_cow P c (?i\<lparr>in_term := Some val\<rparr>) s
        else bind_s (alloc_leaf_cow P c key val s)
             (\<lambda>nc s. alloc_internal_cow P c (?i\<lparr>in_slots := (slots_of f)[unat ?x := of_nat nc]\<rparr>) s)"
    have "?g s = (Inl e, s')" using op False le by (auto simp: slots_of_nth split: if_splits)
    moreover have "gentle ?g" by (intro gentle_intros)
    ultimately show ?thesis using gentle_spared[OF _ r] by blast
  qed
qed

lemma remove_at_fails:
  assumes "prims_ok P"
  shows "heap_tree P c L s p t \<Longrightarrow> take (length p) key = p \<Longrightarrow> remove_at P c (addr_of t) key (length p) s = (Inl e, s') \<Longrightarrow>
    spared (addrs t) L s s'"
proof (induction t arbitrary: p s')
  case (Lf b k v)
  then have n: "node_at P c (ts_b s) b (LeafNode k v)" by (simp add: heap_tree_def)
  from Lf.prems(3) show ?case by (simp add: remove_at_leaf[OF n] split: if_splits)
next
  case (Nd b tm f)
  let ?x = "key ! length p" and ?i = "\<lparr>in_term = tm, in_slots = slots_of f\<rparr>"
  from Nd.prems(1) have n: "node_at P c (ts_b s) b (InnerNode ?i)" and kids: "heap_kids P c L s p f" by (simp_all add: heap_tree_Nd)
  from Nd.prems(1) have r: "reach L s" by (simp add: heap_tree_def)
  note le = path_under[OF Nd.prems(2)]
  show ?case
  proof (cases "length p = length key")
    case True
    with Nd.prems(3) have "rebuild_after_remove P c (?i\<lparr>in_term := None\<rparr>) s = (Inl e, s')"
      by (auto simp: remove_at_inner[OF n] elim!: bind_s_InlE split: if_splits)
    then show ?thesis by (rule gentle_spared[OF gentle_rebuild r])
  next
    case False
    with le have lt: "length p < length key" by simp
    with Nd.prems(3) have "f ?x \<noteq> None"
      by (cases "f ?x") (simp_all add: remove_at_inner[OF n] slots_of_nth)
    then obtain u where u: "f ?x = Some u" by blast
    have h: "heap_tree P c L s (p @ [?x]) u" using kids u by (simp add: heap_kids_def)
    have sub: "addrs u \<subseteq> addrs (Nd b tm f)" using kid_addrsI[of f ?x u] u by (auto simp: addrs_kids)
    note th = under_child[OF Nd.prems(2) lt]
    let ?rest = "\<lambda>res s. case res of
              Absent \<Rightarrow> (Inr Absent, s)
            | Replaced nc \<Rightarrow>
                bind_s (alloc_internal_cow P c (?i\<lparr>in_slots := (in_slots ?i)[unat ?x := of_nat nc]\<rparr>) s)
                  (\<lambda>new s. (Inr (Replaced new), free_node_cow b s))
            | Pruned \<Rightarrow>
                bind_s (rebuild_after_remove P c (?i\<lparr>in_slots := (in_slots ?i)[unat ?x := 0]\<rparr>) s) (\<lambda>r s.
                  (Inr r, free_node_cow b s))"
    have "bind_s (remove_at P c (addr_of u) key (length (p @ [?x])) s) ?rest = (Inl e, s')"
      using Nd.prems(3) lt u heap_addr[OF h] by (simp add: remove_at_inner[OF n] slots_of_nth)
    then show ?thesis
    proof (cases rule: bind_s_InlE)
      case first
      have "spared (addrs u) L s s'" by (rule Nd.IH[OF rangeI[of f ?x] _ h th first]) (simp add: u)
      then show ?thesis by (rule spared_mono[OF _ sub])
    next
      case (rest res s1)
      note rm = remove_at_ok[OF assms h th rest(1)]
      show ?thesis
      proof (cases res)
        case Absent
        with rest(2) show ?thesis by simp
      next
        case (Replaced nc)
        with rm obtain L1 t1 where 1: "heap_tree P c L1 s1 (p @ [?x]) t1" "keeps (reclaimable s \<inter> addrs u) L s L1 s1"
          by (auto simp: removed_def)
        from rest(2) Replaced have "alloc_internal_cow P c (?i\<lparr>in_slots := (in_slots ?i)[unat ?x := of_nat nc]\<rparr>) s1 = (Inl e, s')"
          by (auto elim: bind_s_InlE)
        moreover have "reach L1 s1" using 1(1) by (simp add: heap_tree_def)
        ultimately show ?thesis using spared_then[OF _ 1(2) _ gentle_internal] sub by blast
      next
        case Pruned
        with rm obtain L1 where 1: "reach L1 s1" "keeps (reclaimable s \<inter> addrs u) L s L1 s1" by (auto simp: removed_def)
        from rest(2) Pruned have "rebuild_after_remove P c (?i\<lparr>in_slots := (in_slots ?i)[unat ?x := 0]\<rparr>) s1 = (Inl e, s')"
          by (auto elim: bind_s_InlE)
        then show ?thesis using spared_then[OF 1 _ gentle_rebuild] sub by blast
      qed
    qed
  qed
qed

lemma trie_put_fails:
  assumes "prims_ok P" and "trie_state P T L s m A" and "trie_put P T key val s = (Inl e, s')"
  shows "spared A L s s'"
proof (cases "length key \<le> MAX_KEY_LEN \<and> length val \<le> MAX_VAL_LEN")
  case True
  then have b: "check_bounds key val = Inr ()" "length key \<le> MAX_KEY_LEN" "length val \<le> MAX_VAL_LEN" by (simp_all add: check_bounds_def)
  from assms(2) obtain t where t: "heap_tree P (tr_crypto T) L s [] t" "addr_of t = tr_root T" "addrs t = A"
    by (auto simp: trie_state_def)
  from assms(3) b(1) t(2) have "put_at P (tr_crypto T) (addr_of t) key val (length ([] :: bytes)) s = (Inl e, s')"
    by (auto simp: trie_put_def elim: bind_s_InlE)
  from put_at_fails[OF assms(1) b(2,3) t(1) _ this] t(3) show ?thesis by simp
next
  case False
  with assms(3) have "s' = s" by (auto simp: trie_put_def check_bounds_def split: if_splits)
  with trie_state_reach[OF assms(2)] show ?thesis unfolding spared_def using keeps_refl by blast
qed

lemma trie_remove_fails:
  assumes "prims_ok P" and "trie_state P T L s m A" and "trie_remove P T key s = (Inl e, s')"
  shows "spared A L s s'"
proof -
  from assms(2) obtain t where t: "heap_tree P (tr_crypto T) L s [] t" "addr_of t = tr_root T" "addrs t = A"
    by (auto simp: trie_state_def)
  from assms(3) show ?thesis unfolding trie_remove_def
  proof (cases rule: bind_s_InlE)
    case first
    with t(2) have "remove_at P (tr_crypto T) (addr_of t) key (length ([] :: bytes)) s = (Inl e, s')" by simp
    from remove_at_fails[OF assms(1) t(1) _ this] t(3) show ?thesis by simp
  next
    case (rest res s1)
    then have "res = Pruned" by (cases res) simp_all
    with rest t(2) have "remove_at P (tr_crypto T) (addr_of t) key (length ([] :: bytes)) s = (Inr Pruned, s1)" by simp
    from remove_at_ok[OF assms(1) t(1) _ this] t(3) obtain L1 where 1: "reach L1 s1" "keeps (reclaimable s \<inter> A) L s L1 s1"
      by (auto simp: removed_def)
    let ?g = "\<lambda>s. bind_s (in_encode in_empty, s) (\<lambda>payload s.
             bind_s (alloc_and_write_node_cow P (tr_crypto T) KIND_INTERNAL payload s) (\<lambda>root s.
               (Inr (T\<lparr>tr_root := root\<rparr>, True), s)))"
    have "gentle ?g" by (intro gentle_intros)
    moreover have "?g s1 = (Inl e, s')" using rest(2) \<open>res = Pruned\<close> by simp
    ultimately show ?thesis using spared_then[OF 1, of A] by blast
  qed
qed

end
