(* ===== verification/Trie_Total.thy ===== *)
theory Trie_Total
  imports Trie_Map
begin

text \<open>
  When an insertion returns. A node costs two blocks of the forward space and, under encryption, two
  nonces; an insertion allocates at most one node per byte of the key and three more. With that much
  room between the frontier and the eviction tail no error branch of \<^verbatim>\<open>put\<close> is taken.
\<close>

definition room_for :: "node_crypto \<Rightarrow> nat \<Rightarrow> tstate \<Rightarrow> bool" where
  "room_for c n s \<longleftrightarrow>
     al_live_hwm (ts_a s) + 8192 * n \<le> al_tail_low (ts_a s) \<and> 2 * ent_need c * n \<le> length (ts_ent s)"

lemma room_for_mono: "room_for c n s \<Longrightarrow> m \<le> n \<Longrightarrow> room_for c m s"
  unfolding room_for_def by (meson add_le_mono le_refl mult_le_mono order_trans)

lemma alloc_room:
  assumes "reach L s" and "room_for c (Suc n) s"
  shows "\<exists>loc s1. ts_alloc NODE_ALLOC_SIZE CatalogHead s = (Inr loc, s1) \<and> ts_ent s1 = ts_ent s
    \<and> al_live_hwm (ts_a s1) + 8192 * n \<le> al_tail_low (ts_a s1)"
proof -
  from reachable_al_ok[OF assms(1)] have ok: "al_ok L (bk_len (ts_b s)) (ts_a s)" by simp
  show ?thesis
  proof (cases "fl_first_fit (freelist_for (ts_a s) CatalogHead) (block_size NODE_ALLOC_SIZE)")
    case None
    have le: "\<not> al_tail_low (ts_a s) < al_live_hwm (ts_a s) + 8192" using assms(2) by (simp add: room_for_def)
    with None show ?thesis using assms(2)
      by (auto simp: ts_alloc_def alloc_aligned_def node_size Let_def bump_forward_def room_for_def)
  next
    case (Some a)
    obtain m where "fl_remove_range (freelist_for (ts_a s) CatalogHead) a (block_size NODE_ALLOC_SIZE) = Inr m"
      by (rule take_free_ok[OF ok Some block_size_pos block_size_dvd])
    with Some show ?thesis using assms(2)
      by (auto simp: ts_alloc_def alloc_aligned_def Let_def room_for_def)
  qed
qed

lemma alloc_node_total:
  assumes "prims_ok P" and "reach L s" and "length p \<le> 4056" and "room_for c (Suc n) s"
  shows "\<exists>a s'. alloc_and_write_node_cow P c kind p s = (Inr a, s') \<and> room_for c n s'"
proof -
  obtain loc s1 where al: "ts_alloc NODE_ALLOC_SIZE CatalogHead s = (Inr loc, s1)" "ts_ent s1 = ts_ent s"
      "al_live_hwm (ts_a s1) + 8192 * n \<le> al_tail_low (ts_a s1)"
    using alloc_room[OF assms(2,4)] by blast
  define L1 where "L1 = (moved_live (ts_a s) (ts_b s) (ts_b s1) L)(bl_addr loc \<mapsto> 8192)"
  have r1: "reach L1 s1" using alloc_forward[OF assms(2) al(1)] by (simp add: L1_def)
  have l1: "L1 (bl_addr loc) = Some 8192" by (simp add: L1_def)
  have e: "2 * ent_need c \<le> length (ts_ent s1)" "2 * ent_need c * Suc n \<le> length (ts_ent s1)"
    using assms(4) al(2) by (simp_all add: room_for_def)
  obtain s' where w: "write_node_pair_no_flush P c (bl_addr loc) kind p s1 = (Inr (), s')"
      "length (ts_ent s') = length (ts_ent s1) - 2 * ent_need c"
    using write_pair_ok[OF assms(1) reach_block(3)[OF r1 l1] _ assms(3) e(1)] reach_block(1)[OF r1 l1] by blast
  have "ts_a s' = ts_a s1" using write_pairD[OF assms(1) reach_block(3)[OF r1 l1] w(1)] by simp
  then have "room_for c n s'" using al(3) e(2) w(2) by (simp add: room_for_def)
  then show ?thesis using al(1) w(1) by (simp add: alloc_and_write_node_cow_def)
qed

lemma alloc_leaf_total:
  assumes "prims_ok P" and "reach L s" and "length k \<le> MAX_KEY_LEN" "length v \<le> MAX_VAL_LEN" and "room_for c (Suc n) s"
  shows "\<exists>a s'. alloc_leaf_cow P c k v s = (Inr a, s') \<and> room_for c n s'"
proof -
  obtain p where "encode_leaf k v = Inr p" "length p \<le> 4056"
    using node_payload_ok[of "LeafNode k v"] assms(3,4) by auto
  with alloc_node_total[OF assms(1,2) _ assms(5)] show ?thesis by (simp add: alloc_leaf_cow_def)
qed

lemma alloc_internal_total:
  assumes "prims_ok P" and "reach L s" and "in_ok i" and "room_for c (Suc n) s"
  shows "\<exists>a s'. alloc_internal_cow P c i s = (Inr a, s') \<and> room_for c n s'"
proof -
  obtain p where "in_encode i = Inr p" "length p \<le> 4056"
    using node_payload_ok[of "InnerNode i"] assms(3) by auto
  with alloc_node_total[OF assms(1,2) _ assms(4)] show ?thesis by (simp add: alloc_internal_cow_def)
qed

lemma in_ok_single: "in_ok (in_empty\<lparr>in_slots := (in_slots in_empty)[i := w]\<rparr>)"
  by (simp add: in_ok_def in_empty_def)

lemma wrap_chain_total:
  assumes "prims_ok P"
  shows "reach L s \<Longrightarrow> room_for c (length ds + n) s \<Longrightarrow> \<exists>a' s'. wrap_chain P c key ds a s = (Inr a', s') \<and> room_for c n s'"
proof (induction ds arbitrary: a s L)
  case (Cons d ds)
  let ?i = "in_empty\<lparr>in_slots := (in_slots in_empty)[unat (key ! d) := of_nat a]\<rparr>"
  have "room_for c (Suc (length ds + n)) s" using Cons.prems(2) by simp
  from alloc_internal_total[OF assms Cons.prems(1) in_ok_single this] obtain a1 s1 where
    a1: "alloc_internal_cow P c ?i s = (Inr a1, s1)" "room_for c (length ds + n) s1" by blast
  from alloc_internal[OF assms Cons.prems(1) in_ok_single a1(1)] obtain L1 where "reach L1 s1" by blast
  from Cons.IH[OF this a1(2)] a1(1) show ?case by simp
qed simp

lemma branch_leaf_total:
  assumes "prims_ok P" and r: "reach L s" and "take (length p) old = p" and "take (length p) new = p" and "old \<noteq> new"
    and b: "length old \<le> MAX_KEY_LEN" "length new \<le> MAX_KEY_LEN" "length ov \<le> MAX_VAL_LEN" "length nv \<le> MAX_VAL_LEN"
    and room: "room_for c (length new - length p + 3 + n) s"
  shows "\<exists>a s'. branch_leaf P c old ov new nv (length p) s = (Inr a, s') \<and> room_for c n s'"
proof -
  define m where "m = min (length old) (length new)"
  define d where "d = first_diff old new m (length p)"
  have d: "length p \<le> d" "d \<le> m" and agree: "take d old = take d new"
    using first_diff_agree[OF assms(3,4) m_def d_def] by auto
  have dn: "d \<le> length new" "d \<le> length old" using d(2) by (simp_all add: m_def)
  define w where "w = d - length p"
  have rm: "room_for c (Suc (Suc (Suc (w + n)))) s"
    by (rule room_for_mono[OF room]) (use dn d(1) in \<open>simp add: w_def\<close>)
  note leaf = alloc_leaf_total[OF assms(1)] and inner = alloc_internal_total[OF assms(1)] and wrap = wrap_chain_total[OF assms(1)]
  have wl: "length (rev [length p..<d]) = w" by (simp add: w_def)
  show ?thesis
  proof (cases "d = m")
    case True
    define sk sv lk lv where k: "sk = (if length old < length new then old else new)" "sv = (if length old < length new then ov else nv)"
      "lk = (if length old < length new then new else old)" "lv = (if length old < length new then nv else ov)"
    have "length old \<noteq> length new" using agree True assms(5) by (auto simp: m_def)
    then have dl: "d < length lk" using True by (auto simp: k m_def)
    have kb: "length lk \<le> MAX_KEY_LEN" "length lv \<le> MAX_VAL_LEN" "length sv \<le> MAX_VAL_LEN" using b by (auto simp: k)
    obtain a1 s1 where 1: "alloc_leaf_cow P c lk lv s = (Inr a1, s1)" "room_for c (Suc (Suc (w + n))) s1"
      using leaf[OF r kb(1,2) rm] by blast
    obtain L1 where r1: "reach L1 s1" using alloc_leaf[OF assms(1) r 1(1)] by blast
    let ?i = "\<lparr>in_term = Some sv, in_slots = (in_slots in_empty)[unat (lk ! d) := of_nat a1]\<rparr>"
    have io: "in_ok ?i" using kb(3) by (simp add: in_ok_def in_empty_def)
    obtain a2 s2 where 2: "alloc_internal_cow P c ?i s1 = (Inr a2, s2)" "room_for c (Suc (w + n)) s2"
      using inner[OF r1 io 1(2)] by blast
    obtain L2 where r2: "reach L2 s2" using alloc_internal[OF assms(1) r1 io 2(1)] by blast
    have "room_for c (length (rev [length p..<d]) + n) s2" unfolding wl by (rule room_for_mono[OF 2(2)]) simp
    from wrap[OF r2 this, of sk a2] obtain a' s' where 3: "wrap_chain P c sk (rev [length p..<d]) a2 s2 = (Inr a', s')" "room_for c n s'"
      by blast
    have "branch_leaf P c old ov new nv (length p) s = (Inr a', s')"
      using 1(1) 2(1) 3(1) True dl
      by (cases "length old < length new") (simp_all add: branch_leaf_def Let_def m_def[symmetric] d_def[symmetric] k)
    with 3(2) show ?thesis by blast
  next
    case False
    then have lt: "d < length old" "d < length new" using d(2) by (auto simp: m_def)
    obtain a1 s1 where 1: "alloc_leaf_cow P c old ov s = (Inr a1, s1)" "room_for c (Suc (Suc (w + n))) s1"
      using leaf[OF r b(1,3) rm] by blast
    obtain L1 where r1: "reach L1 s1" using alloc_leaf[OF assms(1) r 1(1)] by blast
    obtain a2 s2 where 2: "alloc_leaf_cow P c new nv s1 = (Inr a2, s2)" "room_for c (Suc (w + n)) s2"
      using leaf[OF r1 b(2,4) 1(2)] by blast
    obtain L2 where r2: "reach L2 s2" using alloc_leaf[OF assms(1) r1 2(1)] by blast
    let ?i = "in_empty\<lparr>in_slots := (in_slots in_empty)[unat (old ! d) := of_nat a1, unat (new ! d) := of_nat a2]\<rparr>"
    have io: "in_ok ?i" by (simp add: in_ok_def in_empty_def)
    obtain a3 s3 where 3: "alloc_internal_cow P c ?i s2 = (Inr a3, s3)" "room_for c (w + n) s3"
      using inner[OF r2 io 2(2)] by blast
    obtain L3 where r3: "reach L3 s3" using alloc_internal[OF assms(1) r2 io 3(1)] by blast
    from wrap[OF r3, of c "rev [length p..<d]" n old a3] 3(2) wl obtain a' s' where
      4: "wrap_chain P c old (rev [length p..<d]) a3 s3 = (Inr a', s')" "room_for c n s'" by auto
    have "branch_leaf P c old ov new nv (length p) s = (Inr a', s')"
      using 1(1) 2(1) 3(1) 4(1) False lt by (simp add: branch_leaf_def Let_def m_def[symmetric] d_def[symmetric])
    with 4(2) show ?thesis by blast
  qed
qed

lemma room_free [simp]: "room_for c n (free_node_cow a s) = room_for c n s"
  by (simp add: room_for_def free_node_cow_def free_reclaimable_def split: option.splits)

lemma put_at_total:
  assumes "prims_ok P" and b: "length key \<le> MAX_KEY_LEN" "length val \<le> MAX_VAL_LEN"
  shows "heap_tree P c L s p t \<Longrightarrow> take (length p) key = p \<Longrightarrow> room_for c (length key - length p + 3 + n) s \<Longrightarrow>
    \<exists>a s'. put_at P c (addr_of t) key val (length p) s = (Inr a, s') \<and> room_for c n s'"
proof (induction t arbitrary: p n)
  case (Lf x k v)
  then have nd: "node_at P c (ts_b s) x (LeafNode k v)" and r: "reach L s"
    and k: "take (length p) k = p" "length k \<le> MAX_KEY_LEN" "length v \<le> MAX_VAL_LEN"
    by (auto simp: heap_tree_def tree_ok_simps)
  have "room_for c (Suc n) s" by (rule room_for_mono[OF Lf.prems(3)]) simp
  then have "\<exists>a s'. alloc_leaf_cow P c key val s = (Inr a, s') \<and> room_for c n s'"
    by (rule alloc_leaf_total[OF assms(1) r b])
  moreover have "k \<noteq> key \<Longrightarrow> \<exists>a s'. branch_leaf P c k v key val (length p) s = (Inr a, s') \<and> room_for c n s'"
    using branch_leaf_total[OF assms(1) r k(1) Lf.prems(2) _ k(2) b(1) k(3) b(2) Lf.prems(3)] by blast
  ultimately show ?case by (cases "k = key") (auto simp: put_at_leaf[OF nd])
next
  case (Nd x tm f)
  let ?x = "key ! length p" and ?i = "\<lparr>in_term = tm, in_slots = slots_of f\<rparr>"
  from Nd.prems(1) have nd: "node_at P c (ts_b s) x (InnerNode ?i)" and r: "reach L s"
    and kids: "heap_kids P c L s p f" and tm: "\<forall>v. tm = Some v \<longrightarrow> length v \<le> MAX_VAL_LEN"
    by (simp_all add: heap_tree_Nd heap_kids_def)
  show ?case
  proof (cases "length p = length key")
    case True
    have "in_ok (?i\<lparr>in_term := Some val\<rparr>)" using b(2) by (simp add: in_ok_def node_consts)
    moreover have "room_for c (Suc n) s" by (rule room_for_mono[OF Nd.prems(3)]) simp
    ultimately show ?thesis using alloc_internal_total[OF assms(1) r] True by (fastforce simp: put_at_inner[OF nd])
  next
    case False
    with path_under[OF Nd.prems(2)] have lt: "length p < length key" by simp
    define kid where "kid = (if slots_of f ! unat ?x = 0 then alloc_leaf_cow P c key val s
      else put_at P c (unat (slots_of f ! unat ?x)) key val (length p + 1) s)"
    have "\<exists>nc s1 L1. kid = (Inr nc, s1) \<and> room_for c (Suc n) s1 \<and> reach L1 s1"
    proof (cases "f ?x")
      case None
      have "room_for c (Suc (Suc n)) s" by (rule room_for_mono[OF Nd.prems(3)]) simp
      from alloc_leaf_total[OF assms(1) r b this] obtain a1 s1 where
        a1: "alloc_leaf_cow P c key val s = (Inr a1, s1)" "room_for c (Suc n) s1" by blast
      with alloc_leaf[OF assms(1) r a1(1)] None show ?thesis by (auto simp: kid_def slots_of_nth)
    next
      case (Some u)
      then have h: "heap_tree P c L s (p @ [?x]) u" using kids by (simp add: heap_kids_def)
      have under: "take (length (p @ [?x])) key = p @ [?x]" by (rule under_child[OF Nd.prems(2) lt])
      have "\<exists>a s'. put_at P c (addr_of u) key val (length (p @ [?x])) s = (Inr a, s') \<and> room_for c (Suc n) s'"
        by (rule Nd.IH[OF rangeI[of f ?x] _ h under room_for_mono[OF Nd.prems(3)]]) (use Some lt in simp_all)
      then obtain a1 s1 where a1: "put_at P c (addr_of u) key val (length (p @ [?x])) s = (Inr a1, s1)" "room_for c (Suc n) s1"
        by blast
      from put_at_ok[OF assms(1) b h under a1(1)] obtain L1 where "reach L1 s1" by (auto simp: put_result_def heap_tree_def)
      with a1 heap_addr[OF h] Some show ?thesis by (auto simp: kid_def slots_of_nth)
    qed
    then obtain nc s1 L1 where kid: "kid = (Inr nc, s1)" "room_for c (Suc n) s1" "reach L1 s1" by blast
    have "in_ok (?i\<lparr>in_slots := (slots_of f)[unat ?x := of_nat nc]\<rparr>)" using tm by (simp add: in_ok_def node_consts)
    from alloc_internal_total[OF assms(1) kid(3) this kid(2)] obtain a2 s2 where
      "alloc_internal_cow P c (?i\<lparr>in_slots := (slots_of f)[unat ?x := of_nat nc]\<rparr>) s1 = (Inr a2, s2)" "room_for c n s2" by blast
    moreover have "put_at P c x key val (length p) s =
        bind_s (bind_s kid (\<lambda>nc s. alloc_internal_cow P c (?i\<lparr>in_slots := (slots_of f)[unat ?x := of_nat nc]\<rparr>) s))
          (\<lambda>na s. (Inr na, free_node_cow x s))"
      unfolding kid_def put_at_inner[OF nd] using False lt by (simp cong: if_cong)
    ultimately show ?thesis using kid(1) by simp
  qed
qed

lemma trie_put_total:
  assumes "prims_ok P" and "trie_state P T L s m A" and "length key \<le> MAX_KEY_LEN" "length val \<le> MAX_VAL_LEN"
    and "room_for (tr_crypto T) (length key + 3 + n) s"
  shows "\<exists>T' s'. trie_put P T key val s = (Inr T', s') \<and> room_for (tr_crypto T) n s'"
proof -
  from assms(2) obtain t where t: "heap_tree P (tr_crypto T) L s [] t" "addr_of t = tr_root T" by (auto simp: trie_state_def)
  from put_at_total[OF assms(1,3,4) t(1), of n] t(2) assms(3-5) show ?thesis
    by (auto simp: trie_put_def check_bounds_def)
qed

lemma trie_create_total:
  assumes "prims_ok P" and "reach L s" and "room_for (node_crypto_new P cipher key) (Suc n) s"
  shows "\<exists>T s'. trie_create P cipher key s = (Inr T, s') \<and> room_for (node_crypto_new P cipher key) n s'"
proof -
  have "in_ok in_empty" by (simp add: in_ok_def in_empty_def)
  from alloc_internal_total[OF assms(1,2) this assms(3)] show ?thesis
    by (auto simp: trie_create_def Let_def alloc_and_write_eq alloc_internal_cow_def bind_s_def split: prod.splits sum.splits)
qed

end
