(* ===== verification/Catalog.thy ===== *)
theory Catalog
  imports Trie_Scan Trie_Fail Trie_Total
begin

text \<open>
  The two catalogs of a container, \<^verbatim>\<open>KeyCatalog\<close> (path to UUID) and \<^verbatim>\<open>IdCatalog\<close> (UUID to record
  address) of \<^verbatim>\<open>sfs-core/src/catalog/trie.rs\<close>: two tries in one container, sharing its allocator. The
  transition system \<open>cat_reach\<close> interleaves their operations, failed ones included, with reclaim scopes
  and with closing and reopening through the persisted roots, beside the two finite maps they stand for.
\<close>

section \<open>Operations\<close>

type_synonym uuid = bytes

definition key_create :: "prims \<Rightarrow> cipher_suite_id \<Rightarrow> bytes \<Rightarrow> tstate \<Rightarrow> trie result \<times> tstate" where
  "key_create P cipher container_key s = trie_create P cipher container_key s"

definition key_open :: "prims \<Rightarrow> nat \<Rightarrow> cipher_suite_id \<Rightarrow> bytes \<Rightarrow> trie" where
  "key_open P root cipher container_key = trie_open P root cipher container_key"

definition get_path :: "prims \<Rightarrow> trie \<Rightarrow> backend \<Rightarrow> bytes \<Rightarrow> uuid option result" where
  "get_path P kc b path =
     bind_r (trie_get P kc b path) (\<lambda>r.
       case r of
         Some v \<Rightarrow> if length v \<noteq> 16 then Inl (Integrity ''KeyCatalog value for path is not a 16-byte uuid'')
                   else Inr (Some v)
       | None \<Rightarrow> Inr None)"

definition put_path :: "prims \<Rightarrow> trie \<Rightarrow> bytes \<Rightarrow> uuid \<Rightarrow> tstate \<Rightarrow> trie result \<times> tstate" where
  "put_path P kc path uuid s = trie_put P kc path uuid s"

definition remove_path :: "prims \<Rightarrow> trie \<Rightarrow> bytes \<Rightarrow> tstate \<Rightarrow> (trie \<times> bool) result \<times> tstate" where
  "remove_path P kc path s = trie_remove P kc path s"

fun collect_paths :: "(bytes \<times> bytes) list \<Rightarrow> (bytes \<times> uuid) list \<Rightarrow> (bytes \<times> uuid) list result" where
  "collect_paths [] out = Inr out"
| "collect_paths ((k, v) # es) out =
     (if length v \<noteq> 16 then Inl (Integrity ''KeyCatalog value is not a 16-byte uuid'')
      else collect_paths es (out @ [(k, v)]))"

definition scan_paths :: "prims \<Rightarrow> trie \<Rightarrow> backend \<Rightarrow> bytes \<Rightarrow> (bytes \<times> uuid) list result" where
  "scan_paths P kc b prefix = bind_r (scan_prefix P kc b prefix) (\<lambda>es. collect_paths es [])"

definition key_root :: "trie \<Rightarrow> nat" where
  "key_root kc = tr_root kc"

definition id_create :: "prims \<Rightarrow> cipher_suite_id \<Rightarrow> bytes \<Rightarrow> tstate \<Rightarrow> trie result \<times> tstate" where
  "id_create P cipher container_key s = trie_create P cipher container_key s"

definition id_open :: "prims \<Rightarrow> nat \<Rightarrow> cipher_suite_id \<Rightarrow> bytes \<Rightarrow> trie" where
  "id_open P root cipher container_key = trie_open P root cipher container_key"

definition get_uuid :: "prims \<Rightarrow> trie \<Rightarrow> backend \<Rightarrow> uuid \<Rightarrow> u64 option result" where
  "get_uuid P ic b uuid =
     bind_r (trie_get P ic b uuid) (\<lambda>r.
       case r of
         Some v \<Rightarrow> if length v \<noteq> 8 then Inl (Integrity ''IdCatalog value is not an 8-byte addr'')
                   else Inr (Some (u64_from_le v))
       | None \<Rightarrow> Inr None)"

definition put_uuid :: "prims \<Rightarrow> trie \<Rightarrow> uuid \<Rightarrow> u64 \<Rightarrow> tstate \<Rightarrow> trie result \<times> tstate" where
  "put_uuid P ic uuid record_addr s = trie_put P ic uuid (u64_to_le record_addr) s"

fun collect_ids :: "(bytes \<times> bytes) list \<Rightarrow> (uuid \<times> u64) list \<Rightarrow> (uuid \<times> u64) list result" where
  "collect_ids [] out = Inr out"
| "collect_ids ((k, v) # es) out =
     (if length k \<noteq> 16 \<or> length v \<noteq> 8 then Inl (Integrity ''IdCatalog entry has wrong widths'')
      else collect_ids es (out @ [(k, u64_from_le v)]))"

definition scan_all :: "prims \<Rightarrow> trie \<Rightarrow> backend \<Rightarrow> (uuid \<times> u64) list result" where
  "scan_all P ic b = bind_r (scan_prefix P ic b []) (\<lambda>es. collect_ids es [])"

definition id_root :: "trie \<Rightarrow> nat" where
  "id_root ic = tr_root ic"

definition hash128 :: "(bytes \<Rightarrow> bytes) \<Rightarrow> bytes \<Rightarrow> bytes" where
  "hash128 sha256 key = take 16 (sha256 key)"

definition new_uuid :: "tstate \<Rightarrow> uuid result \<times> tstate" where
  "new_uuid s = fill_random 16 s"

section \<open>The catalogs of a running container\<close>

definition ts_scope :: "(allocator \<Rightarrow> allocator) \<Rightarrow> tstate \<Rightarrow> tstate" where
  "ts_scope f s = s\<lparr>ts_a := f (ts_a s)\<rparr>"

text \<open>A transaction on the catalogs: it opens a reclaim scope and works on copies of the two handles. It is over when it is given
  up, be it after an operation that failed, which may have released nodes the working handles still name.\<close>

inductive scope_run :: "prims \<Rightarrow> trie \<Rightarrow> trie \<Rightarrow> tstate \<Rightarrow> trie \<Rightarrow> trie \<Rightarrow> tstate \<Rightarrow> bool" for P kc0 ic0 s0 where
  run_begin: "scope_run P kc0 ic0 s0 kc0 ic0 (ts_scope begin_reclaim_scope s0)"
| run_put_path: "scope_run P kc0 ic0 s0 kc ic s \<Longrightarrow> put_path P kc path uuid s = (Inr kc', s') \<Longrightarrow> scope_run P kc0 ic0 s0 kc' ic s'"
| run_remove_path: "scope_run P kc0 ic0 s0 kc ic s \<Longrightarrow> remove_path P kc path s = (Inr (kc', ex), s') \<Longrightarrow> scope_run P kc0 ic0 s0 kc' ic s'"
| run_put_uuid: "scope_run P kc0 ic0 s0 kc ic s \<Longrightarrow> put_uuid P ic uuid a s = (Inr ic', s') \<Longrightarrow> scope_run P kc0 ic0 s0 kc ic' s'"

inductive given_up :: "prims \<Rightarrow> trie \<Rightarrow> trie \<Rightarrow> tstate \<Rightarrow> tstate \<Rightarrow> bool" for P kc0 ic0 s0 where
  up_abandoned: "scope_run P kc0 ic0 s0 kc ic s \<Longrightarrow> given_up P kc0 ic0 s0 s"
| up_put_path: "scope_run P kc0 ic0 s0 kc ic s \<Longrightarrow> put_path P kc path uuid s = (Inl e, s') \<Longrightarrow> given_up P kc0 ic0 s0 s'"
| up_remove_path: "scope_run P kc0 ic0 s0 kc ic s \<Longrightarrow> remove_path P kc path s = (Inl e, s') \<Longrightarrow> given_up P kc0 ic0 s0 s'"
| up_put_uuid: "scope_run P kc0 ic0 s0 kc ic s \<Longrightarrow> put_uuid P ic uuid a s = (Inl e, s') \<Longrightarrow> given_up P kc0 ic0 s0 s'"

text \<open>The histories of a container. Outside a reclaim scope a failed operation leaves the handle usable. Inside one it does not: the
  transaction is given up and the handles from before the scope are read again, as a reopened container does.\<close>

inductive cat_reach :: "prims \<Rightarrow> cipher_suite_id \<Rightarrow> bytes \<Rightarrow> trie \<Rightarrow> trie \<Rightarrow> tstate \<Rightarrow>
    (bytes \<rightharpoonup> uuid) \<Rightarrow> (uuid \<rightharpoonup> u64) \<Rightarrow> bool" for P cipher ck where
  cat_create: "reach L s \<Longrightarrow> key_create P cipher ck s = (Inr kc, s1) \<Longrightarrow> id_create P cipher ck s1 = (Inr ic, s2) \<Longrightarrow>
    cat_reach P cipher ck kc ic s2 Map.empty Map.empty"
| cat_put_path: "cat_reach P cipher ck kc ic s pm im \<Longrightarrow> length uuid = 16 \<Longrightarrow> put_path P kc path uuid s = (Inr kc', s') \<Longrightarrow>
    cat_reach P cipher ck kc' ic s' (pm(path \<mapsto> uuid)) im"
| cat_remove_path: "cat_reach P cipher ck kc ic s pm im \<Longrightarrow> remove_path P kc path s = (Inr (kc', ex), s') \<Longrightarrow>
    cat_reach P cipher ck kc' ic s' (pm(path := None)) im"
| cat_put_uuid: "cat_reach P cipher ck kc ic s pm im \<Longrightarrow> length uuid = 16 \<Longrightarrow> put_uuid P ic uuid record_addr s = (Inr ic', s') \<Longrightarrow>
    cat_reach P cipher ck kc ic' s' pm (im(uuid \<mapsto> record_addr))"
| cat_put_path_err: "cat_reach P cipher ck kc ic s pm im \<Longrightarrow> \<not> in_reclaim_scope (ts_a s) \<Longrightarrow>
    put_path P kc path uuid s = (Inl e, s') \<Longrightarrow> cat_reach P cipher ck kc ic s' pm im"
| cat_remove_path_err: "cat_reach P cipher ck kc ic s pm im \<Longrightarrow> \<not> in_reclaim_scope (ts_a s) \<Longrightarrow>
    remove_path P kc path s = (Inl e, s') \<Longrightarrow> cat_reach P cipher ck kc ic s' pm im"
| cat_put_uuid_err: "cat_reach P cipher ck kc ic s pm im \<Longrightarrow> \<not> in_reclaim_scope (ts_a s) \<Longrightarrow>
    put_uuid P ic uuid record_addr s = (Inl e, s') \<Longrightarrow> cat_reach P cipher ck kc ic s' pm im"
| cat_give_up: "cat_reach P cipher ck kc ic s pm im \<Longrightarrow> \<not> in_reclaim_scope (ts_a s) \<Longrightarrow> given_up P kc ic s s' \<Longrightarrow>
    cat_reach P cipher ck kc ic (ts_scope end_reclaim_scope s') pm im"
| cat_begin: "cat_reach P cipher ck kc ic s pm im \<Longrightarrow> cat_reach P cipher ck kc ic (ts_scope begin_reclaim_scope s) pm im"
| cat_end: "cat_reach P cipher ck kc ic s pm im \<Longrightarrow> cat_reach P cipher ck kc ic (ts_scope end_reclaim_scope s) pm im"
| cat_reopen: "cat_reach P cipher ck kc ic s pm im \<Longrightarrow>
    cat_reach P cipher ck (key_open P (key_root kc) cipher ck) (id_open P (id_root ic) cipher ck) s pm im"

text \<open>The maps the tries hold: the values as bytes, keys and values of the widths the readers check.\<close>

definition id_bytes :: "(uuid \<rightharpoonup> u64) \<Rightarrow> bytes \<rightharpoonup> bytes" where
  "id_bytes im = (\<lambda>k. map_option u64_to_le (im k))"

lemma id_bytes_upd [simp]: "id_bytes (im(u \<mapsto> a)) = (id_bytes im)(u \<mapsto> u64_to_le a)" "id_bytes Map.empty = Map.empty"
  by (auto simp: id_bytes_def)

definition cat_ok :: "prims \<Rightarrow> cipher_suite_id \<Rightarrow> bytes \<Rightarrow> trie \<Rightarrow> trie \<Rightarrow> tstate \<Rightarrow> (bytes \<rightharpoonup> uuid) \<Rightarrow> (uuid \<rightharpoonup> u64) \<Rightarrow> bool" where
  "cat_ok P cipher ck kc ic s pm im \<longleftrightarrow>
     (\<exists>L A B. trie_state P kc L s pm A \<and> trie_state P ic L s (id_bytes im) B \<and> A \<inter> B = {})
     \<and> (\<forall>p u. pm p = Some u \<longrightarrow> length u = 16) \<and> (\<forall>u a. im u = Some a \<longrightarrow> length u = 16)
     \<and> tr_crypto kc = node_crypto_new P cipher ck \<and> tr_crypto ic = node_crypto_new P cipher ck"

section \<open>The invariant\<close>

text \<open>One trie of a pair is updated: the other keeps its nodes and the two stay disjoint.\<close>

lemma update_one:
  assumes "trie_state P T L s m A" "trie_state P U L s n B" "A \<inter> B = {}"
    and "trie_state P T' L' s' m' A'" "keeps (reclaimable s \<inter> A) L s L' s'" "A' \<inter> used L s \<subseteq> A"
  shows "trie_state P U L' s' n B \<and> A' \<inter> B = {}"
proof
  show "trie_state P U L' s' n B"
    by (rule trie_state_keeps[OF assms(2,5) _ trie_state_reach[OF assms(4)]]) (use assms(3) in blast)
  show "A' \<inter> B = {}" using owned_used[OF trie_state_owned[OF assms(2)]] assms(3,6) by blast
qed

lemma trie_state_alloc_only:
  assumes "trie_state P T L s m A" and "reach L (ts_scope f s)" and "al_live_hwm (f (ts_a s)) = al_live_hwm (ts_a s)"
    and "al_deferred (f (ts_a s)) = al_deferred (ts_a s)"
  shows "trie_state P T L (ts_scope f s) m A"
proof -
  have "heap_tree P (tr_crypto T) L (ts_scope f s) [] t" if "heap_tree P (tr_crypto T) L s [] t" for t
    using that assms(2-4) by (simp add: heap_tree_def owned_def ts_scope_def)
  then show ?thesis using assms(1) unfolding trie_state_def by blast
qed

lemma cat_quiet:
  assumes "cat_ok P cipher ck kc ic s pm im" and "\<not> in_reclaim_scope (ts_a s)" and "quiet f" and "f s = (r, s')"
  shows "cat_ok P cipher ck kc ic s' pm im"
proof -
  from assms(1) obtain L A B where t: "trie_state P kc L s pm A" "trie_state P ic L s (id_bytes im) B" "A \<inter> B = {}"
    by (auto simp: cat_ok_def)
  have "al_reclaim_floor (ts_a s) = None" using assms(2) by (simp add: in_reclaim_scope_def)
  from quietD[OF assms(3) trie_state_reach[OF t(1)] this assms(4)] obtain L' where
    "reach L' s'" "keeps {} L s L' s'" by blast
  with t have "trie_state P kc L' s' pm A" "trie_state P ic L' s' (id_bytes im) B"
    by (auto intro: trie_state_keeps)
  with assms(1) t(3) show ?thesis unfolding cat_ok_def by blast
qed

lemma cat_scope:
  assumes "cat_ok P cipher ck kc ic s pm im" and "\<And>L. alloc_step (L, ts_a s, ts_b s) (L, f (ts_a s), ts_b s)"
    and "al_live_hwm (f (ts_a s)) = al_live_hwm (ts_a s)" and "al_deferred (f (ts_a s)) = al_deferred (ts_a s)"
  shows "cat_ok P cipher ck kc ic (ts_scope f s) pm im"
proof -
  have "trie_state P T L (ts_scope f s) m A" if "trie_state P T L s m A" for T L m A
    by (rule trie_state_alloc_only[where f = f, OF that _ assms(3,4)])
      (use step[OF trie_state_reach[OF that] assms(2)] in \<open>simp add: ts_scope_def\<close>)
  with assms(1) show ?thesis unfolding cat_ok_def by blast
qed

lemma cat_put_path_ok:
  assumes "prims_ok P" and "cat_ok P cipher ck kc ic s pm im" and "length uuid = 16"
    and "put_path P kc path uuid s = (Inr kc', s')"
  shows "cat_ok P cipher ck kc' ic s' (pm(path \<mapsto> uuid)) im"
proof -
  from assms(2) obtain L A B where t: "trie_state P kc L s pm A" "trie_state P ic L s (id_bytes im) B" "A \<inter> B = {}"
    by (auto simp: cat_ok_def)
  from trie_put_ok[OF assms(1) t(1) assms(4)[unfolded put_path_def]] obtain L' A' where
    p: "trie_state P kc' L' s' (pm(path \<mapsto> uuid)) A'" "keeps (reclaimable s \<inter> A) L s L' s'" "A' \<inter> used L s \<subseteq> A"
      "tr_crypto kc' = tr_crypto kc" by blast
  from update_one[OF t p(1-3)] p assms(2,3) show ?thesis unfolding cat_ok_def by auto
qed

lemma cat_remove_path_ok:
  assumes "prims_ok P" and "cat_ok P cipher ck kc ic s pm im" and "remove_path P kc path s = (Inr (kc', ex), s')"
  shows "cat_ok P cipher ck kc' ic s' (pm(path := None)) im"
proof -
  from assms(2) obtain L A B where t: "trie_state P kc L s pm A" "trie_state P ic L s (id_bytes im) B" "A \<inter> B = {}"
    by (auto simp: cat_ok_def)
  from trie_remove_ok[OF assms(1) t(1) assms(3)[unfolded remove_path_def]] obtain L' A' where
    p: "trie_state P kc' L' s' (pm(path := None)) A'" "keeps (reclaimable s \<inter> A) L s L' s'" "A' \<inter> used L s \<subseteq> A"
      "tr_crypto kc' = tr_crypto kc" by blast
  from update_one[OF t p(1-3)] p assms(2) show ?thesis unfolding cat_ok_def by auto
qed

lemma cat_put_uuid_ok:
  assumes "prims_ok P" and "cat_ok P cipher ck kc ic s pm im" and "length uuid = 16"
    and "put_uuid P ic uuid a s = (Inr ic', s')"
  shows "cat_ok P cipher ck kc ic' s' pm (im(uuid \<mapsto> a))"
proof -
  from assms(2) obtain L A B where t: "trie_state P kc L s pm A" "trie_state P ic L s (id_bytes im) B" "B \<inter> A = {}"
    by (auto simp: cat_ok_def Int_commute)
  from trie_put_ok[OF assms(1) t(2) assms(4)[unfolded put_uuid_def]] obtain L' B' where
    p: "trie_state P ic' L' s' (id_bytes (im(uuid \<mapsto> a))) B'" "keeps (reclaimable s \<inter> B) L s L' s'" "B' \<inter> used L s \<subseteq> B"
      "tr_crypto ic' = tr_crypto ic" by auto
  from update_one[OF t(2,1,3) p(1-3)] p assms(2,3) show ?thesis unfolding cat_ok_def by (auto simp: Int_commute)
qed

lemma cat_create_ok:
  assumes "prims_ok P" and "reach L s" and "key_create P cipher ck s = (Inr kc, s1)" and "id_create P cipher ck s1 = (Inr ic, s2)"
  shows "cat_ok P cipher ck kc ic s2 Map.empty Map.empty"
proof -
  note c1 = trie_create_ok[OF assms(1,2) assms(3)[unfolded key_create_def]]
  from c1(1) obtain L1 A where 1: "trie_state P kc L1 s1 Map.empty A" by blast
  note c2 = trie_create_ok[OF assms(1) trie_state_reach[OF 1] assms(4)[unfolded id_create_def]]
  from c2(1) obtain L2 B where 2: "trie_state P ic L2 s2 Map.empty B" "keeps {} L1 s1 L2 s2" "B \<inter> used L1 s1 = {}" by blast
  have "trie_state P kc L2 s2 Map.empty A" by (rule trie_state_keeps[OF 1 2(2) _ trie_state_reach[OF 2(1)]]) simp
  moreover have "A \<inter> B = {}" using 2(3) owned_used[OF trie_state_owned[OF 1]] by blast
  moreover have "tr_crypto kc = node_crypto_new P cipher ck" "tr_crypto ic = node_crypto_new P cipher ck"
    using c1(2) c2(2) by (metis trie_open_def trie.select_convs(2))+
  ultimately show ?thesis using 2(1) unfolding cat_ok_def by auto
qed

section \<open>Transactions that are given up\<close>

text \<open>During a transaction the working tries are sound and those of its start are intact, out of reach of the scope.\<close>

definition in_flight :: "prims \<Rightarrow> trie \<Rightarrow> trie \<Rightarrow> (bytes \<rightharpoonup> bytes) \<Rightarrow> (bytes \<rightharpoonup> bytes) \<Rightarrow> nat set \<Rightarrow> nat set \<Rightarrow> trie \<Rightarrow> trie \<Rightarrow> tstate \<Rightarrow> bool" where
  "in_flight P kc0 ic0 m0 n0 A0 B0 kc ic s \<longleftrightarrow>
     (\<exists>L m n A B. trie_state P kc L s m A \<and> trie_state P ic L s n B \<and> A \<inter> B = {}
        \<and> trie_state P kc0 L s m0 A0 \<and> trie_state P ic0 L s n0 B0) \<and> reclaimable s \<inter> (A0 \<union> B0) = {}"

lemma in_flightE:
  assumes "in_flight P kc0 ic0 m0 n0 A0 B0 kc ic s"
  obtains L m n A B where "trie_state P kc L s m A" "trie_state P ic L s n B" "A \<inter> B = {}" "trie_state P kc0 L s m0 A0"
    "trie_state P ic0 L s n0 B0" "reclaimable s \<inter> (A0 \<union> B0) = {}"
  using assms unfolding in_flight_def by blast

text \<open>A change within the nodes the scope may release keeps the tries of the start.\<close>

lemma start_kept:
  assumes "keeps F L s L' s'" and "F \<subseteq> reclaimable s" and "reach L' s'" and "reclaimable s \<inter> (A0 \<union> B0) = {}"
    and "trie_state P kc0 L s m0 A0" and "trie_state P ic0 L s n0 B0"
  shows "trie_state P kc0 L' s' m0 A0" and "trie_state P ic0 L' s' n0 B0" and "reclaimable s' \<inter> (A0 \<union> B0) = {}"
proof -
  show "trie_state P kc0 L' s' m0 A0" by (rule trie_state_keeps[OF assms(5,1) _ assms(3)]) (use assms(2,4) in blast)
  show "trie_state P ic0 L' s' n0 B0" by (rule trie_state_keeps[OF assms(6,1) _ assms(3)]) (use assms(2,4) in blast)
  show "reclaimable s' \<inter> (A0 \<union> B0) = {}" using assms(4) keeps_reclaimable[OF assms(1)] by simp
qed

lemma flight_key:
  assumes "in_flight P kc0 ic0 m0 n0 A0 B0 kc ic s"
    and "\<And>L m A. trie_state P kc L s m A \<Longrightarrow>
      \<exists>L' m' A'. trie_state P kc' L' s' m' A' \<and> keeps (reclaimable s \<inter> A) L s L' s' \<and> A' \<inter> used L s \<subseteq> A"
  shows "in_flight P kc0 ic0 m0 n0 A0 B0 kc' ic s'"
proof -
  from assms(1) obtain L m n A B where t: "trie_state P kc L s m A" "trie_state P ic L s n B" "A \<inter> B = {}"
    and o: "trie_state P kc0 L s m0 A0" "trie_state P ic0 L s n0 B0" and f: "reclaimable s \<inter> (A0 \<union> B0) = {}" by (elim in_flightE)
  from assms(2)[OF t(1)] obtain L' m' A' where
    p: "trie_state P kc' L' s' m' A'" "keeps (reclaimable s \<inter> A) L s L' s'" "A' \<inter> used L s \<subseteq> A" by blast
  note k = start_kept[OF p(2) _ trie_state_reach[OF p(1)] f o]
  from update_one[OF t p] p(1) k show ?thesis unfolding in_flight_def by blast
qed

lemma flight_swap: "in_flight P kc0 ic0 m0 n0 A0 B0 kc ic s \<Longrightarrow> in_flight P ic0 kc0 n0 m0 B0 A0 ic kc s"
  unfolding in_flight_def by blast

lemma scope_run_flight:
  assumes "prims_ok P" and "trie_state P kc0 L s0 m0 A0" and "trie_state P ic0 L s0 n0 B0" and "A0 \<inter> B0 = {}"
    and "\<not> in_reclaim_scope (ts_a s0)"
  shows "scope_run P kc0 ic0 s0 kc ic s \<Longrightarrow> in_flight P kc0 ic0 m0 n0 A0 B0 kc ic s"
proof (induction rule: scope_run.induct)
  case run_begin
  let ?s = "ts_scope begin_reclaim_scope s0"
  have fl: "al_reclaim_floor (ts_a ?s) = Some (al_live_hwm (ts_a s0))"
    using assms(5) by (simp add: ts_scope_def begin_reclaim_scope_def in_reclaim_scope_def Let_def)
  have "reach L ?s" using step[OF trie_state_reach[OF assms(2)] st_begin] by (simp add: ts_scope_def)
  then have "trie_state P T L ?s m A" if "trie_state P T L s0 m A" for T m A
    by (rule trie_state_alloc_only[OF that]) (simp_all add: begin_reclaim_scope_def Let_def)
  moreover have "a < al_live_hwm (ts_a s0)" if "a \<in> A0 \<union> B0" for a
    using that trie_state_owned[OF assms(2)] trie_state_owned[OF assms(3)] by (auto simp: owned_def)
  then have "reclaimable ?s \<inter> (A0 \<union> B0) = {}" using fl by (fastforce simp: reclaimable_def)
  ultimately show ?case using assms(2-4) unfolding in_flight_def by blast
next
  case (run_put_path kc ic s path uuid kc' s')
  show ?case
    by (rule flight_key[OF run_put_path.IH]) (drule trie_put_ok[OF assms(1) _ run_put_path.hyps(2)[unfolded put_path_def]], blast)
next
  case (run_remove_path kc ic s path kc' ex s')
  show ?case
    by (rule flight_key[OF run_remove_path.IH]) (drule trie_remove_ok[OF assms(1) _ run_remove_path.hyps(2)[unfolded remove_path_def]], blast)
next
  case (run_put_uuid kc ic s uuid a ic' s')
  show ?case
    by (rule flight_swap, rule flight_key[OF flight_swap[OF run_put_uuid.IH]])
      (drule trie_put_ok[OF assms(1) _ run_put_uuid.hyps(2)[unfolded put_uuid_def]], blast)
qed

lemma given_up_start:
  assumes "prims_ok P" and t: "trie_state P kc0 L s0 m0 A0" "trie_state P ic0 L s0 n0 B0" "A0 \<inter> B0 = {}"
    and n: "\<not> in_reclaim_scope (ts_a s0)" and g: "given_up P kc0 ic0 s0 s'"
  shows "\<exists>L'. trie_state P kc0 L' s' m0 A0 \<and> trie_state P ic0 L' s' n0 B0"
proof -
  note fly = scope_run_flight[OF assms(1) t n]
  have lost: "\<exists>L'. trie_state P kc0 L' s' m0 A0 \<and> trie_state P ic0 L' s' n0 B0"
    if "in_flight P kc0 ic0 m0 n0 A0 B0 kc ic s"
      and "\<And>L m n A B. trie_state P kc L s m A \<Longrightarrow> trie_state P ic L s n B \<Longrightarrow> spared A L s s' \<or> spared B L s s'" for kc ic s
  proof -
    from that(1) obtain L m n A B where w: "trie_state P kc L s m A" "trie_state P ic L s n B"
      and o: "trie_state P kc0 L s m0 A0" "trie_state P ic0 L s n0 B0" and f: "reclaimable s \<inter> (A0 \<union> B0) = {}" by (elim in_flightE)
    from that(2)[OF w] obtain X L' where x: "reach L' s'" "keeps (reclaimable s \<inter> X) L s L' s'" unfolding spared_def by blast
    from start_kept(1,2)[OF x(2) _ x(1) f o] show ?thesis by blast
  qed
  from g show ?thesis
  proof cases
    case (up_abandoned kc ic)
    from fly[OF this] show ?thesis by (auto elim!: in_flightE)
  next
    case (up_put_path kc ic s path uuid e)
    show ?thesis by (rule lost[OF fly[OF up_put_path(1)]]) (drule trie_put_fails[OF assms(1) _ up_put_path(2)[unfolded put_path_def]], blast)
  next
    case (up_remove_path kc ic s path e)
    show ?thesis
      by (rule lost[OF fly[OF up_remove_path(1)]]) (drule trie_remove_fails[OF assms(1) _ up_remove_path(2)[unfolded remove_path_def]], blast)
  next
    case (up_put_uuid kc ic s uuid a e)
    show ?thesis by (rule lost[OF fly[OF up_put_uuid(1)]]) (rule disjI2, rule trie_put_fails[OF assms(1) _ up_put_uuid(2)[unfolded put_uuid_def]])
  qed
qed

lemma cat_give_up_ok:
  assumes "prims_ok P" and "cat_ok P cipher ck kc ic s pm im" and "\<not> in_reclaim_scope (ts_a s)" and "given_up P kc ic s s'"
  shows "cat_ok P cipher ck kc ic (ts_scope end_reclaim_scope s') pm im"
proof -
  from assms(2) obtain L A B where t: "trie_state P kc L s pm A" "trie_state P ic L s (id_bytes im) B" "A \<inter> B = {}"
    by (auto simp: cat_ok_def)
  from given_up_start[OF assms(1) t assms(3,4)] t(3) assms(2) have "cat_ok P cipher ck kc ic s' pm im" unfolding cat_ok_def by blast
  from cat_scope[where f = end_reclaim_scope, OF this st_end] show ?thesis by (simp add: end_reclaim_scope_def)
qed

lemma cat_inv: "cat_reach P cipher ck kc ic s pm im \<Longrightarrow> prims_ok P \<Longrightarrow> cat_ok P cipher ck kc ic s pm im"
proof (induction rule: cat_reach.induct)
  case (cat_create L s kc s1 ic s2)
  then show ?case by (intro cat_create_ok)
next
  case (cat_put_path kc ic s pm im uuid path kc' s')
  then show ?case by (intro cat_put_path_ok) auto
next
  case (cat_remove_path kc ic s pm im path kc' ex s')
  then show ?case by (intro cat_remove_path_ok) auto
next
  case (cat_put_uuid kc ic s pm im uuid a ic' s')
  then show ?case by (intro cat_put_uuid_ok) auto
next
  case (cat_put_path_err kc ic s pm im path uuid e s')
  from cat_quiet[OF cat_put_path_err.IH _ quiet_put] cat_put_path_err show ?case by (simp add: put_path_def)
next
  case (cat_remove_path_err kc ic s pm im path e s')
  from cat_quiet[OF cat_remove_path_err.IH _ quiet_remove] cat_remove_path_err show ?case by (simp add: remove_path_def)
next
  case (cat_put_uuid_err kc ic s pm im uuid a e s')
  from cat_quiet[OF cat_put_uuid_err.IH _ quiet_put] cat_put_uuid_err show ?case by (simp add: put_uuid_def)
next
  case (cat_give_up kc ic s pm im s')
  then show ?case by (intro cat_give_up_ok) auto
next
  case (cat_begin kc ic s pm im)
  then have "cat_ok P cipher ck kc ic s pm im" by simp
  from cat_scope[where f = begin_reclaim_scope, OF this st_begin] show ?case by (simp add: begin_reclaim_scope_def Let_def)
next
  case (cat_end kc ic s pm im)
  then have "cat_ok P cipher ck kc ic s pm im" by simp
  from cat_scope[where f = end_reclaim_scope, OF this st_end] show ?case by (simp add: end_reclaim_scope_def)
next
  case (cat_reopen kc ic s pm im)
  then have "key_open P (key_root kc) cipher ck = kc" "id_open P (id_root ic) cipher ck = ic"
    by (auto simp: cat_ok_def key_open_def id_open_def key_root_def id_root_def trie_open_def)
  with cat_reopen show ?case by simp
qed

section \<open>Reading the catalogs\<close>

lemma cat_get_path: "cat_ok P cipher ck kc ic s pm im \<Longrightarrow> get_path P kc (ts_b s) path = Inr (pm path)"
  unfolding cat_ok_def get_path_def using trie_get_ok by (fastforce split: option.splits)

lemma cat_get_uuid: "cat_ok P cipher ck kc ic s pm im \<Longrightarrow> get_uuid P ic (ts_b s) uuid = Inr (im uuid)"
proof -
  assume "cat_ok P cipher ck kc ic s pm im"
  then have "trie_get P ic (ts_b s) uuid = Inr (id_bytes im uuid)" unfolding cat_ok_def using trie_get_ok by blast
  then show ?thesis by (auto simp: get_uuid_def id_bytes_def split: option.splits)
qed

text \<open>Node blocks are disjoint, so the length of the container bounds their number.\<close>

lemma trie_nodes_le: "trie_state P T L s m A \<Longrightarrow> card A \<le> bk_len (ts_b s) div 8192"
proof -
  assume t: "trie_state P T L s m A"
  note r = trie_state_reach[OF t] and ow = trie_state_owned[OF t]
  have dj: "disjoint_blocks L" using reachable_al_ok[OF r] by (simp add: al_ok_def blocks_ok_def)
  have la: "L a = Some 8192" if "a \<in> A" for a using ow that by (simp add: owned_def)
  have "inj_on (\<lambda>a. a div 8192) A"
  proof (rule inj_onI)
    fix a b :: nat assume ab: "a \<in> A" "b \<in> A" "a div 8192 = b div 8192"
    have "\<not> a + 8192 \<le> b" "\<not> b + 8192 \<le> a" using ab(3) by auto
    then show "a = b" using dj la[OF ab(1)] la[OF ab(2)] unfolding disjoint_blocks_def by blast
  qed
  moreover have "(\<lambda>a. a div 8192) ` A \<subseteq> {..< bk_len (ts_b s) div 8192}"
  proof
    fix x assume "x \<in> (\<lambda>a. a div 8192) ` A"
    then obtain a where a: "a \<in> A" "x = a div 8192" by blast
    have "(a + 8192) div 8192 \<le> bk_len (ts_b s) div 8192"
      by (rule div_le_mono[OF reach_block(1)[OF r la[OF a(1)]]])
    with a show "x \<in> {..< bk_len (ts_b s) div 8192}" by simp
  qed
  ultimately have "card A \<le> card {..< bk_len (ts_b s) div 8192}" by (rule card_inj_on_le) simp
  then show ?thesis by simp
qed

lemma collect_paths_ok: "(\<forall>e \<in> set es. length (snd e) = 16) \<Longrightarrow> collect_paths es out = Inr (out @ es)"
  by (induction es out rule: collect_paths.induct) auto

lemma collect_ids_ok:
  "(\<forall>e \<in> set es. length (fst e) = 16 \<and> length (snd e) = 8) \<Longrightarrow>
   collect_ids es out = Inr (out @ map (\<lambda>(k, v). (k, u64_from_le v)) es)"
  by (induction es out rule: collect_ids.induct) auto

lemma cat_scan_paths:
  assumes "cat_ok P cipher ck kc ic s pm im" and "bk_len (ts_b s) \<le> 8192 * TRIE_NODE_BUDGET"
  shows "\<exists>xs. scan_paths P kc (ts_b s) prefix = Inr xs \<and> sorted_wrt (\<lambda>a b. key_less (fst a) (fst b)) xs
    \<and> (\<forall>k u. (k, u) \<in> set xs \<longleftrightarrow> pm k = Some u \<and> take (length prefix) k = prefix)"
proof -
  from assms(1) obtain L A where t: "trie_state P kc L s pm A" by (auto simp: cat_ok_def)
  have "card A \<le> TRIE_NODE_BUDGET" using trie_nodes_le[OF t] div_le_mono[OF assms(2), of 8192] by simp
  from scan_prefix_ok[OF t this, of prefix] obtain xs where xs: "scan_prefix P kc (ts_b s) prefix = Inr xs"
    "sorted_wrt (\<lambda>a b. key_less (fst a) (fst b)) xs" "\<forall>k u. (k, u) \<in> set xs \<longleftrightarrow> pm k = Some u \<and> take (length prefix) k = prefix" by blast
  have "\<forall>e \<in> set xs. length (snd e) = 16" using xs(3) assms(1) by (auto simp: cat_ok_def)
  from collect_paths_ok[OF this, of "[]"] xs show ?thesis by (simp add: scan_paths_def)
qed

lemma sorted_keys_distinct: "sorted_wrt (\<lambda>a b. key_less (fst a) (fst b)) xs \<Longrightarrow> distinct (map fst xs)"
  by (induction xs) (auto dest!: bspec simp: lexordp_irreflexive')

lemma option_eqI: "(\<And>y. a = Some y \<longleftrightarrow> b = Some y) \<Longrightarrow> a = b"
  by (cases a; cases b) auto

lemma cat_scan_all:
  assumes "cat_ok P cipher ck kc ic s pm im" and "bk_len (ts_b s) \<le> 8192 * TRIE_NODE_BUDGET"
  shows "\<exists>xs. scan_all P ic (ts_b s) = Inr xs \<and> distinct (map fst xs) \<and> map_of xs = im"
proof -
  from assms(1) obtain L B where t: "trie_state P ic L s (id_bytes im) B" by (auto simp: cat_ok_def)
  have "card B \<le> TRIE_NODE_BUDGET" using trie_nodes_le[OF t] div_le_mono[OF assms(2), of 8192] by simp
  from scan_prefix_ok[OF t this, of "[]"] obtain es where es: "scan_prefix P ic (ts_b s) [] = Inr es"
    "sorted_wrt (\<lambda>a b. key_less (fst a) (fst b)) es" "\<forall>k v. (k, v) \<in> set es \<longleftrightarrow> id_bytes im k = Some v" by auto
  define xs where "xs = map (\<lambda>(k, v). (k, u64_from_le v)) es"
  have "\<forall>e \<in> set es. length (fst e) = 16 \<and> length (snd e) = 8" using es(3) assms(1) by (auto simp: cat_ok_def id_bytes_def)
  from collect_ids_ok[OF this, of "[]"] es(1) have sc: "scan_all P ic (ts_b s) = Inr xs" by (simp add: scan_all_def xs_def)
  have "map fst xs = map fst es" by (simp add: xs_def case_prod_unfold)
  then have d: "distinct (map fst xs)" using sorted_keys_distinct[OF es(2)] by simp
  have m: "(k, a) \<in> set xs \<longleftrightarrow> im k = Some a" for k a
  proof -
    have "(k, a) \<in> set xs \<longleftrightarrow> (\<exists>v. (k, v) \<in> set es \<and> a = u64_from_le v)" by (auto simp: xs_def)
    also have "\<dots> \<longleftrightarrow> (\<exists>v. id_bytes im k = Some v \<and> a = u64_from_le v)" using es(3) by simp
    also have "\<dots> \<longleftrightarrow> im k = Some a" by (cases "im k") (auto simp: id_bytes_def)
    finally show ?thesis .
  qed
  have "map_of xs = im"
    by (rule ext, rule option_eqI) (simp add: map_of_eq_Some_iff[OF d] m)
  with sc d show ?thesis by blast
qed

end
