(* ===== verification/Catalog_Props.thy ===== *)
theory Catalog_Props
  imports Catalog
begin

text \<open>
  What the catalogs promise to the version store, and the interface it relies on: \<open>byte_map\<close> is the
  contract of a persistent map held in a container, interpreted on the trie; \<open>run_ops\<close> is a client's
  sequence of updates and its lemma is proved once from the contract.
\<close>

section \<open>The contract of a persistent map\<close>

datatype map_op = MPut bytes bytes | MDel bytes

fun run_ops :: "('t \<Rightarrow> bytes \<Rightarrow> bytes \<Rightarrow> 's \<Rightarrow> 't result \<times> 's) \<Rightarrow> ('t \<Rightarrow> bytes \<Rightarrow> 's \<Rightarrow> ('t \<times> bool) result \<times> 's) \<Rightarrow>
    map_op list \<Rightarrow> 't \<Rightarrow> 's \<Rightarrow> 't result \<times> 's" where
  "run_ops put del [] t s = (Inr t, s)"
| "run_ops put del (MPut k v # ops) t s = bind_s (put t k v s) (\<lambda>t s. run_ops put del ops t s)"
| "run_ops put del (MDel k # ops) t s = bind_s (del t k s) (\<lambda>r s. run_ops put del ops (fst r) s)"

fun run_map :: "map_op list \<Rightarrow> (bytes \<rightharpoonup> bytes) \<Rightarrow> bytes \<rightharpoonup> bytes" where
  "run_map [] m = m"
| "run_map (MPut k v # ops) m = run_map ops (m(k \<mapsto> v))"
| "run_map (MDel k # ops) m = run_map ops (m(k := None))"

locale byte_map =
  fixes holds :: "'t \<Rightarrow> 's \<Rightarrow> (bytes \<rightharpoonup> bytes) \<Rightarrow> bool"
    and get :: "'t \<Rightarrow> 's \<Rightarrow> bytes \<Rightarrow> bytes option result"
    and put :: "'t \<Rightarrow> bytes \<Rightarrow> bytes \<Rightarrow> 's \<Rightarrow> 't result \<times> 's"
    and del :: "'t \<Rightarrow> bytes \<Rightarrow> 's \<Rightarrow> ('t \<times> bool) result \<times> 's"
  assumes get_law: "holds t s m \<Longrightarrow> get t s k = Inr (m k)"
    and put_law: "holds t s m \<Longrightarrow> put t k v s = (Inr t', s') \<Longrightarrow> holds t' s' (m(k \<mapsto> v))"
    and del_law: "holds t s m \<Longrightarrow> del t k s = (Inr (t', ex), s') \<Longrightarrow> holds t' s' (m(k := None)) \<and> ex = (m k \<noteq> None)"
begin

lemma holds_unique: "holds t s m \<Longrightarrow> holds t s m' \<Longrightarrow> m = m'"
  using get_law by (metis ext sum.inject(2))

lemma run_holds: "holds t s m \<Longrightarrow> run_ops put del ops t s = (Inr t', s') \<Longrightarrow> holds t' s' (run_map ops m)"
proof (induction ops arbitrary: t s m)
  case (Cons op ops)
  show ?case
  proof (cases op)
    case (MPut k v)
    with Cons show ?thesis by (auto elim!: bind_s_InrE dest: put_law)
  next
    case (MDel k)
    with Cons show ?thesis by (auto elim!: bind_s_InrE dest: del_law)
  qed
qed simp

lemma run_get: "holds t s m \<Longrightarrow> run_ops put del ops t s = (Inr t', s') \<Longrightarrow> get t' s' k = Inr (run_map ops m k)"
  using get_law[OF run_holds] by blast

end

definition trie_holds :: "prims \<Rightarrow> trie \<Rightarrow> tstate \<Rightarrow> (bytes \<rightharpoonup> bytes) \<Rightarrow> bool" where
  "trie_holds P T s m \<longleftrightarrow> prims_ok P \<and> (\<exists>L A. trie_state P T L s m A)"

interpretation trie_map: byte_map "trie_holds P" "\<lambda>T s k. trie_get P T (ts_b s) k" "trie_put P" "trie_remove P" for P
proof unfold_locales
  fix T s m k
  assume "trie_holds P T s m"
  then show "trie_get P T (ts_b s) k = Inr (m k)" using trie_get_ok by (auto simp: trie_holds_def)
next
  fix T s m k v T' s'
  assume h: "trie_holds P T s m" and p: "trie_put P T k v s = (Inr T', s')"
  from h obtain L A where "prims_ok P" "trie_state P T L s m A" by (auto simp: trie_holds_def)
  from trie_put_ok[OF this p] this(1) show "trie_holds P T' s' (m(k \<mapsto> v))" unfolding trie_holds_def by blast
next
  fix T s m k T' ex s'
  assume h: "trie_holds P T s m" and p: "trie_remove P T k s = (Inr (T', ex), s')"
  from h obtain L A where "prims_ok P" "trie_state P T L s m A" by (auto simp: trie_holds_def)
  from trie_remove_ok[OF this p] this(1) show "trie_holds P T' s' (m(k := None)) \<and> ex = (m k \<noteq> None)"
    unfolding trie_holds_def by blast
qed

section \<open>A small container\<close>

definition demo_ts :: tstate where
  "demo_ts = \<lparr>ts_b = demo_bk\<lparr>bk_no_grow := True\<rparr>, ts_a = al_new demo_bk, ts_ent = []\<rparr>"

abbreviation demo_crypto :: node_crypto where
  "demo_crypto \<equiv> node_crypto_new toy_prims CIPHER_NONE []"

definition fixed_state :: "tstate \<Rightarrow> bool" where
  "fixed_state s \<longleftrightarrow> (\<exists>L. reach L s) \<and> al_reclaim_floor (ts_a s) = None \<and> bk_no_grow (ts_b s) \<and> bk_len (ts_b s) = 65536"

lemma demo_ts_room: "fixed_state demo_ts" "room_for demo_crypto 7 demo_ts"
proof -
  have "reach Map.empty demo_ts"
    using start[of "demo_bk\<lparr>bk_no_grow := True\<rparr>"]
    by (simp add: demo_ts_def al_new_def bk_ok_def BASE_BLOCK_def demo_bk_def)
  then show "fixed_state demo_ts" by (auto simp: fixed_state_def) (simp_all add: demo_ts_def al_new_def demo_bk_def)
  show "room_for demo_crypto 7 demo_ts"
    by (simp add: demo_ts_def room_for_def ent_need_def node_crypto_new_def CIPHER_NONE_def
        CIPHER_AES256_GCM_def al_new_def demo_bk_def BASE_BLOCK_def)
qed

lemma quiet_fixed:
  assumes "quiet f" and "fixed_state s" and "f s = (r, s')"
  shows "fixed_state s'"
proof -
  from assms(2) obtain L where L: "reach L s" "al_reclaim_floor (ts_a s) = None" by (auto simp: fixed_state_def)
  from quietD[OF assms(1) L assms(3)] obtain L' where L': "reach L' s'" "keeps {} L s L' s'" "same_device s s'" by blast
  have "al_reclaim_floor (ts_a s') = None" using L'(2) L(2) by (simp add: keeps_def)
  moreover have "bk_no_grow (ts_b s')" "bk_len (ts_b s') = 65536" using L'(3) assms(2) by (simp_all add: same_device_def fixed_state_def)
  ultimately show ?thesis using L'(1) unfolding fixed_state_def by blast
qed

lemma demo_create:
  "\<exists>kc ic s. cat_reach toy_prims CIPHER_NONE [] kc ic s Map.empty Map.empty \<and> fixed_state s \<and> room_for demo_crypto 5 s"
proof -
  from demo_ts_room(1) obtain L where L: "reach L demo_ts" by (auto simp: fixed_state_def)
  from demo_ts_room(2) have "room_for demo_crypto (Suc 6) demo_ts" by (simp add: eval_nat_numeral)
  from trie_create_total[OF toy_prims_ok L this] obtain kc s1 where
    1: "trie_create toy_prims CIPHER_NONE [] demo_ts = (Inr kc, s1)" "room_for demo_crypto 6 s1" by blast
  have f1: "fixed_state s1" by (rule quiet_fixed[OF quiet_create demo_ts_room(1) 1(1)])
  then obtain L1 where L1: "reach L1 s1" by (auto simp: fixed_state_def)
  from 1(2) have "room_for demo_crypto (Suc 5) s1" by (simp add: eval_nat_numeral)
  from trie_create_total[OF toy_prims_ok L1 this] obtain ic s2 where
    2: "trie_create toy_prims CIPHER_NONE [] s1 = (Inr ic, s2)" "room_for demo_crypto 5 s2" by blast
  have "fixed_state s2" by (rule quiet_fixed[OF quiet_create f1 2(1)])
  with cat_create[of L demo_ts toy_prims CIPHER_NONE "[]" kc s1 ic s2] L 1 2 show ?thesis
    by (auto simp: key_create_def id_create_def)
qed

lemma cat_put_total:
  assumes "prims_ok P" and "cat_ok P cipher ck kc ic s pm im" and "length path \<le> MAX_KEY_LEN" and "length uuid = 16"
    and "room_for (node_crypto_new P cipher ck) (length path + 3 + n) s"
  shows "\<exists>kc' s'. put_path P kc path uuid s = (Inr kc', s') \<and> room_for (node_crypto_new P cipher ck) n s'"
proof -
  from assms(2) obtain L A where t: "trie_state P kc L s pm A" "tr_crypto kc = node_crypto_new P cipher ck"
    by (auto simp: cat_ok_def)
  from trie_put_total[OF assms(1) t(1) assms(3), of uuid n] t(2) assms(4,5) show ?thesis
    by (simp add: put_path_def MAX_VAL_LEN_def)
qed

text \<open>The path \<^verbatim>\<open>/\<close> mapped to the UUID of sixteen ones.\<close>

lemma demo_put:
  "\<exists>kc ic s. cat_reach toy_prims CIPHER_NONE [] kc ic s [[47] \<mapsto> replicate 16 1] Map.empty \<and> fixed_state s"
proof -
  from demo_create obtain kc ic s where c: "cat_reach toy_prims CIPHER_NONE [] kc ic s Map.empty Map.empty"
    "fixed_state s" "room_for demo_crypto 5 s" by blast
  have "room_for demo_crypto (length [47 :: u8] + 3 + 1) s" using c(3) by simp
  from cat_put_total[OF toy_prims_ok cat_inv[OF c(1) toy_prims_ok] _ _ this, of "replicate 16 1"] obtain kc' s' where
    p: "put_path toy_prims kc [47] (replicate 16 1) s = (Inr kc', s')" by (auto simp: node_consts)
  have "fixed_state s'" by (rule quiet_fixed[OF quiet_put c(2) p[unfolded put_path_def]])
  with cat_put_path[OF c(1) _ p] show ?thesis by auto
qed

section \<open>Properties\<close>

text \<open>C1. Both catalogs return exactly what the two finite maps of their history hold: a path gives the UUID last put under it unless
  removed since, a UUID its last record address, anything else nothing. A history is made of creations, insertions and removals that
  succeed, inside or outside a reclaim scope; operations that fail outside a scope, after which the catalogs go on; whole transactions that
  are given up, also after an operation that failed inside their scope, after which the handles and maps from before the transaction hold;
  the opening and closing of scopes; and reopenings. Going on with the working handles after a failure inside a scope is not
  such a history: the failed operation may have released nodes they name.
\<close>

theorem catalogs_refine_maps:
  assumes "prims_ok P" and "cat_reach P cipher ck kc ic s pm im"
  shows "get_path P kc (ts_b s) path = Inr (pm path) \<and> get_uuid P ic (ts_b s) uuid = Inr (im uuid)"
  using cat_get_path cat_get_uuid cat_inv[OF assms(2,1)] by blast

theorem catalogs_refine_maps_witness:
  "(\<exists>kc ic s. cat_reach toy_prims CIPHER_NONE [] kc ic s [[47] \<mapsto> replicate 16 1] Map.empty
     \<and> get_path toy_prims kc (ts_b s) [47] = Inr (Some (replicate 16 1)) \<and> get_path toy_prims kc (ts_b s) [48] = Inr None)
   \<and> (\<exists>kc ic s s'. given_up toy_prims kc ic s s' \<and> cat_reach toy_prims CIPHER_NONE [] kc ic (ts_scope end_reclaim_scope s') Map.empty Map.empty
     \<and> get_path toy_prims kc (ts_b s') [47] = Inr None)"
proof
  from demo_put obtain kc ic s where c: "cat_reach toy_prims CIPHER_NONE [] kc ic s [[47] \<mapsto> replicate 16 1] Map.empty" by blast
  from catalogs_refine_maps[OF toy_prims_ok c, of "[47]"] catalogs_refine_maps[OF toy_prims_ok c, of "[48]"] c
  show "\<exists>kc ic s. cat_reach toy_prims CIPHER_NONE [] kc ic s [[47] \<mapsto> replicate 16 1] Map.empty
     \<and> get_path toy_prims kc (ts_b s) [47] = Inr (Some (replicate 16 1)) \<and> get_path toy_prims kc (ts_b s) [48] = Inr None" by auto
next
  from demo_create obtain kc ic s where c: "cat_reach toy_prims CIPHER_NONE [] kc ic s Map.empty Map.empty" "fixed_state s" by blast
  have n: "\<not> in_reclaim_scope (ts_a s)" using c(2) by (simp add: fixed_state_def in_reclaim_scope_def)
  let ?s = "ts_scope begin_reclaim_scope s"
  have "put_path toy_prims kc (replicate (Suc MAX_KEY_LEN) 0) [] ?s = (Inl (case check_bounds (replicate (Suc MAX_KEY_LEN) 0) [] of Inl e \<Rightarrow> e), ?s)"
    by (simp add: put_path_def trie_put_def check_bounds_def)
  from up_put_path[OF run_begin this] have g: "given_up toy_prims kc ic s ?s" .
  from cat_give_up[OF c(1) n g] have r: "cat_reach toy_prims CIPHER_NONE [] kc ic (ts_scope end_reclaim_scope ?s) Map.empty Map.empty" .
  have "get_path toy_prims kc (ts_b ?s) [47] = Inr None" using catalogs_refine_maps[OF toy_prims_ok r, of "[47]"] by (simp add: ts_scope_def)
  with g r show "\<exists>kc ic s s'. given_up toy_prims kc ic s s' \<and> cat_reach toy_prims CIPHER_NONE [] kc ic (ts_scope end_reclaim_scope s') Map.empty Map.empty
     \<and> get_path toy_prims kc (ts_b s') [47] = Inr None" by blast
qed

text \<open>C12. The listings are exact: \<^verbatim>\<open>scan_paths\<close> returns, in byte order, every path under the prefix with its
  UUID and nothing else, and \<^verbatim>\<open>scan_all\<close> the whole UUID map once. The container holds no more blocks than
  the visit budget allows nodes, 8 GiB.
\<close>

theorem catalog_scans_exact:
  assumes "prims_ok P" and "cat_reach P cipher ck kc ic s pm im" and "bk_len (ts_b s) \<le> 8192 * TRIE_NODE_BUDGET"
  shows "(\<exists>xs. scan_paths P kc (ts_b s) prefix = Inr xs \<and> sorted_wrt (\<lambda>a b. key_less (fst a) (fst b)) xs
      \<and> set xs = {(k, u). pm k = Some u \<and> take (length prefix) k = prefix})
    \<and> (\<exists>ys. scan_all P ic (ts_b s) = Inr ys \<and> distinct (map fst ys) \<and> map_of ys = im)"
proof
  from cat_scan_paths[OF cat_inv[OF assms(2,1)] assms(3), of prefix] obtain xs where
    xs: "scan_paths P kc (ts_b s) prefix = Inr xs" "sorted_wrt (\<lambda>a b. key_less (fst a) (fst b)) xs"
      "\<forall>k u. (k, u) \<in> set xs \<longleftrightarrow> pm k = Some u \<and> take (length prefix) k = prefix" by blast
  have "set xs = {(k, u). pm k = Some u \<and> take (length prefix) k = prefix}" using xs(3) by auto
  with xs show "\<exists>xs. scan_paths P kc (ts_b s) prefix = Inr xs \<and> sorted_wrt (\<lambda>a b. key_less (fst a) (fst b)) xs
      \<and> set xs = {(k, u). pm k = Some u \<and> take (length prefix) k = prefix}" by blast
  show "\<exists>ys. scan_all P ic (ts_b s) = Inr ys \<and> distinct (map fst ys) \<and> map_of ys = im"
    by (rule cat_scan_all[OF cat_inv[OF assms(2,1)] assms(3)])
qed

theorem catalog_scans_exact_witness:
  "\<exists>kc ic s. cat_reach toy_prims CIPHER_NONE [] kc ic s [[47] \<mapsto> replicate 16 1] Map.empty
     \<and> bk_len (ts_b s) = 65536
     \<and> (\<exists>xs. scan_paths toy_prims kc (ts_b s) [47] = Inr xs \<and> set xs = {([47], replicate 16 1)})
     \<and> scan_all toy_prims ic (ts_b s) = Inr []"
proof -
  from demo_put obtain kc ic s where c: "cat_reach toy_prims CIPHER_NONE [] kc ic s [[47] \<mapsto> replicate 16 1] Map.empty"
    "fixed_state s" by blast
  have n: "bk_len (ts_b s) = 65536" using c(2) by (simp add: fixed_state_def)
  then have "bk_len (ts_b s) \<le> 8192 * TRIE_NODE_BUDGET" by (simp add: TRIE_NODE_BUDGET_def)
  note e = catalog_scans_exact[OF toy_prims_ok c(1) this, of "[47]"]
  have only: "{(k, u). [[47 :: u8] \<mapsto> replicate 16 (1 :: u8)] k = Some u \<and> take (length [47 :: u8]) k = [47]} = {([47], replicate 16 1)}"
    by (auto split: if_splits)
  from e have "\<exists>xs. scan_paths toy_prims kc (ts_b s) [47] = Inr xs \<and> set xs = {([47], replicate 16 1)}" unfolding only by blast
  moreover have "scan_all toy_prims ic (ts_b s) = Inr []" using e by auto
  ultimately show ?thesis using c(1) n by blast
qed

text \<open>C6. Copy-on-write isolates readers and makes failure harmless. Outside a reclaim scope, whatever trie
  operation runs, on whatever trie, corrupt ones included, with whatever result, every lookup through
  the roots held before it returns in the new container what it returned in the old one.
\<close>

theorem old_roots_stay_readable:
  assumes "prims_ok P" and "cat_reach P cipher ck kc ic s pm im" and "\<not> in_reclaim_scope (ts_a s)"
    and "s' = snd (trie_put P T key val s) \<or> s' = snd (trie_remove P T key s) \<or> s' = snd (trie_create P cipher' ck' s)"
  shows "get_path P kc (ts_b s') path = get_path P kc (ts_b s) path \<and> get_uuid P ic (ts_b s') uuid = get_uuid P ic (ts_b s) uuid"
proof -
  note ok = cat_inv[OF assms(2,1)]
  note q = cat_quiet[OF ok assms(3)]
  note p = q[OF quiet_put prod.collapse[symmetric]] q[OF quiet_remove prod.collapse[symmetric]]
    q[OF quiet_create prod.collapse[symmetric]]
  have "cat_ok P cipher ck kc ic s' pm im" using assms(4) by (elim disjE) (simp_all only: p)
  then show ?thesis using ok by (simp add: cat_get_path cat_get_uuid)
qed

theorem old_roots_stay_readable_witness:
  "\<exists>kc ic s. cat_reach toy_prims CIPHER_NONE [] kc ic s [[47] \<mapsto> replicate 16 1] Map.empty
     \<and> get_path toy_prims kc (ts_b (snd (trie_put toy_prims kc [47] [] s))) [47] = Inr (Some (replicate 16 1))"
proof -
  from demo_put obtain kc ic s where c: "cat_reach toy_prims CIPHER_NONE [] kc ic s [[47] \<mapsto> replicate 16 1] Map.empty"
    "fixed_state s" by blast
  have f: "\<not> in_reclaim_scope (ts_a s)" using c(2) by (simp add: fixed_state_def in_reclaim_scope_def)
  have "get_path toy_prims kc (ts_b s) [47] = Inr (Some (replicate 16 1))"
    using cat_get_path[OF cat_inv[OF c(1) toy_prims_ok], of "[47]"] by simp
  with old_roots_stay_readable[OF toy_prims_ok c(1) f disjI1[OF refl], of kc "[47]" "[]" "[47]" "[]"]
  have "get_path toy_prims kc (ts_b (snd (trie_put toy_prims kc [47] [] s))) [47] = Inr (Some (replicate 16 1))" by simp
  with c(1) show ?thesis by blast
qed

text \<open>C13. An insertion returns. With room between the frontier and the eviction tail for one node per byte
  of the path and three more, and the nonces these need, \<^verbatim>\<open>put_path\<close> takes no error branch, and the new
  root returns the UUID just put.
\<close>

theorem put_path_returns:
  assumes "prims_ok P" and "cat_reach P cipher ck kc ic s pm im" and "length path \<le> MAX_KEY_LEN" and "length uuid = 16"
    and "room_for (node_crypto_new P cipher ck) (length path + 3) s"
  shows "\<exists>kc' s'. put_path P kc path uuid s = (Inr kc', s') \<and> get_path P kc' (ts_b s') path = Inr (Some uuid)"
proof -
  note ok = cat_inv[OF assms(2,1)]
  from cat_put_total[OF assms(1) ok assms(3,4), of 0] assms(5) obtain kc' s' where
    p: "put_path P kc path uuid s = (Inr kc', s')" by auto
  from cat_get_path[OF cat_put_path_ok[OF assms(1) ok assms(4) p], of path] p show ?thesis by auto
qed

theorem put_path_returns_witness:
  "\<exists>kc ic s kc' s'. cat_reach toy_prims CIPHER_NONE [] kc ic s Map.empty Map.empty \<and> room_for demo_crypto 5 s
     \<and> put_path toy_prims kc [47, 97] (replicate 16 1) s = (Inr kc', s')
     \<and> get_path toy_prims kc' (ts_b s') [47, 97] = Inr (Some (replicate 16 1))"
proof -
  from demo_create obtain kc ic s where c: "cat_reach toy_prims CIPHER_NONE [] kc ic s Map.empty Map.empty"
    "room_for demo_crypto 5 s" by blast
  have "room_for demo_crypto (length [47 :: u8, 97] + 3) s" using c(2) by simp
  from put_path_returns[OF toy_prims_ok c(1) _ _ this, of "replicate 16 1"] have
    "\<exists>kc' s'. put_path toy_prims kc [47, 97] (replicate 16 1) s = (Inr kc', s')
       \<and> get_path toy_prims kc' (ts_b s') [47, 97] = Inr (Some (replicate 16 1))" by (simp add: node_consts)
  with c show ?thesis by blast
qed

text \<open>The walk that finds the live nodes after a reopening is exact on both catalogs: it visits each node
  block once, within the container and below the forward frontier, and no block belongs to both.
\<close>

theorem catalog_walk_exact:
  assumes "prims_ok P" and "cat_reach P cipher ck kc ic s pm im" and "bk_len (ts_b s) \<le> 8192 * TRIE_NODE_BUDGET"
  shows "\<exists>xs ys. visit_nodes P (tr_crypto kc) (ts_b s) (key_root kc) = (Inr (), xs)
    \<and> visit_nodes P (tr_crypto ic) (ts_b s) (id_root ic) = (Inr (), ys) \<and> distinct (xs @ ys)
    \<and> (\<forall>a \<in> set (xs @ ys). 8192 \<le> a \<and> a + 8192 \<le> bk_len (ts_b s) \<and> a < al_live_hwm (ts_a s))"
proof -
  from cat_inv[OF assms(2,1)] obtain L A B where t: "trie_state P kc L s pm A" "trie_state P ic L s (id_bytes im) B" "A \<inter> B = {}"
    by (auto simp: cat_ok_def)
  have c: "card A \<le> TRIE_NODE_BUDGET" "card B \<le> TRIE_NODE_BUDGET"
    using trie_nodes_le[OF t(1)] trie_nodes_le[OF t(2)] div_le_mono[OF assms(3), of 8192] by simp_all
  obtain xs where x: "visit_nodes P (tr_crypto kc) (ts_b s) (tr_root kc) = (Inr (), xs)" "distinct xs" "set xs = A"
    using visit_nodes_ok[OF t(1) c(1)] by blast
  obtain ys where y: "visit_nodes P (tr_crypto ic) (ts_b s) (tr_root ic) = (Inr (), ys)" "distinct ys" "set ys = B"
    using visit_nodes_ok[OF t(2) c(2)] by blast
  have "8192 \<le> a \<and> a + 8192 \<le> bk_len (ts_b s) \<and> a < al_live_hwm (ts_a s)" if "a \<in> A \<union> B" for a
  proof -
    have "owned L s (A \<union> B)" using trie_state_owned[OF t(1)] trie_state_owned[OF t(2)] by simp
    with that have "L a = Some 8192" "a < al_live_hwm (ts_a s)" by (simp_all only: owned_def)
    with reach_block(1,2)[OF trie_state_reach[OF t(1)]] show ?thesis by blast
  qed
  then show ?thesis using x y t(3) unfolding key_root_def id_root_def
    by (intro exI[of _ xs] exI[of _ ys]) auto
qed

theorem catalog_walk_exact_witness:
  "\<exists>kc ic s. cat_reach toy_prims CIPHER_NONE [] kc ic s [[47] \<mapsto> replicate 16 1] Map.empty
     \<and> (\<exists>xs. visit_nodes toy_prims (tr_crypto kc) (ts_b s) (key_root kc) = (Inr (), xs) \<and> distinct xs)"
proof -
  from demo_put obtain kc ic s where c: "cat_reach toy_prims CIPHER_NONE [] kc ic s [[47] \<mapsto> replicate 16 1] Map.empty"
    "fixed_state s" by blast
  have "bk_len (ts_b s) \<le> 8192 * TRIE_NODE_BUDGET" using c(2) by (simp add: fixed_state_def TRIE_NODE_BUDGET_def)
  from catalog_walk_exact[OF toy_prims_ok c(1) this] have
    "\<exists>xs. visit_nodes toy_prims (tr_crypto kc) (ts_b s) (key_root kc) = (Inr (), xs) \<and> distinct xs" by (metis distinct_append)
  with c(1) show ?thesis by blast
qed

text \<open>The walk ends on every container, hostile ones included: whatever the blocks hold, cycles among the
  nodes or children outside the container, it hands at most \<^verbatim>\<open>TRIE_NODE_BUDGET\<close> addresses to its caller.
\<close>

theorem walk_bounded: "length (snd (visit_nodes P c b root_addr)) \<le> TRIE_NODE_BUDGET"
  by (rule visit_nodes_bounded)

end
