(* ===== verification/Cursor.thy ===== *)
theory Cursor
  imports Sfs_Prelude
begin

text \<open>
  The record decoders of the crate keep a buffer, an offset that only grows, and the end of the
  region they may read. A \<open>reader\<close> is one step of such a decoder: the end of the region, the buffer
  and the offset give a value and the next offset, or an error. Two facts about readers compose along
  the code: \<open>reads\<close> (the reader gives back an encoded value wherever it stands in the buffer) and
  \<open>sane\<close> (on every input it ends with a value at a later offset or with an integrity error, never
  with a panic).
\<close>

type_synonym 'a reader = "nat \<Rightarrow> bytes \<Rightarrow> nat \<Rightarrow> ('a \<times> nat) result"

definition bind_rd :: "'a reader \<Rightarrow> ('a \<Rightarrow> 'b reader) \<Rightarrow> 'b reader" where
  "bind_rd r f lim buf off = bind_r (r lim buf off) (\<lambda>(x, off'). f x lim buf off')"

definition ret_rd :: "'a \<Rightarrow> 'a reader" where
  "ret_rd x lim buf off = Inr (x, off)"

definition fail_rd :: "string \<Rightarrow> 'a reader" where
  "fail_rd m lim buf off = Inl (Integrity m)"

text \<open>A slice of fixed length, with the message of the caller.\<close>

definition bytes_rd :: "string \<Rightarrow> nat \<Rightarrow> bytes reader" where
  "bytes_rd m n lim buf off =
     (case get_range buf off n of Some bs \<Rightarrow> Inr (bs, off + n) | None \<Rightarrow> Inl (Integrity m))"

definition u8_rd :: "string \<Rightarrow> u8 reader" where
  "u8_rd m lim buf off = (if off < length buf then Inr (buf ! off, off + 1) else Inl (Integrity m))"

text \<open>The counting loop \<^verbatim>\<open>for _ in 0..n\<close>.\<close>

fun loop_rd :: "nat \<Rightarrow> 'a reader \<Rightarrow> 'a list reader" where
  "loop_rd 0 r lim buf off = Inr ([], off)"
| "loop_rd (Suc n) r lim buf off =
     bind_r (r lim buf off) (\<lambda>(x, off1). bind_r (loop_rd n r lim buf off1) (\<lambda>(xs, off2). Inr (x # xs, off2)))"

text \<open>The guard before an allocation: \<open>n\<close> items of at least \<open>w\<close> bytes fit in front of the end.\<close>

definition guard_rd :: "string \<Rightarrow> nat \<Rightarrow> nat \<Rightarrow> 'a reader \<Rightarrow> 'a reader" where
  "guard_rd m w n r lim buf off = (if (lim - off) div w < n then Inl (Integrity m) else r lim buf off)"

text \<open>A trailing field that older records do not have.\<close>

definition opt_rd :: "'a \<Rightarrow> 'a reader \<Rightarrow> 'a reader" where
  "opt_rd d r lim buf off = (if off < lim then r lim buf off else Inr (d, off))"

text \<open>A callee that gets the buffer cut at the end of the region.\<close>

definition cut_rd :: "'a reader \<Rightarrow> 'a reader" where
  "cut_rd r lim buf off = r (length (take lim buf)) (take lim buf) off"

section \<open>Reading back\<close>

definition reads :: "'a reader \<Rightarrow> bytes \<Rightarrow> 'a \<Rightarrow> bool" where
  "reads r enc x \<longleftrightarrow>
     (\<forall>lim pre rest. length pre + length enc \<le> lim \<longrightarrow> lim \<le> length (pre @ enc @ rest) \<longrightarrow>
        r lim (pre @ enc @ rest) (length pre) = Inr (x, length pre + length enc))"

named_theorems reads_intros

lemma readsI:
  "(\<And>lim pre rest. length pre + length enc \<le> lim \<Longrightarrow> lim \<le> length (pre @ enc @ rest) \<Longrightarrow>
     r lim (pre @ enc @ rest) (length pre) = Inr (x, length pre + length enc)) \<Longrightarrow> reads r enc x"
  unfolding reads_def by blast

lemma readsD:
  "reads r enc x \<Longrightarrow> length pre + length enc \<le> lim \<Longrightarrow> lim \<le> length (pre @ enc @ rest) \<Longrightarrow>
   r lim (pre @ enc @ rest) (length pre) = Inr (x, length pre + length enc)"
  unfolding reads_def by blast

lemma get_range_at: "n = length xs \<Longrightarrow> get_range (pre @ xs @ rest) (length pre) n = Some xs"
  by (simp add: get_range_def slice_append_skip slice_append_exact)

lemma reads_ret [reads_intros]: "reads (ret_rd x) [] x"
  by (simp add: reads_def ret_rd_def)

lemma reads_bind [reads_intros]:
  assumes "reads r e x" and "reads (f x) e' y"
  shows "reads (bind_rd r f) (e @ e') y"
proof (rule readsI)
  fix lim pre rest
  assume l: "length pre + length (e @ e') \<le> lim" "lim \<le> length (pre @ (e @ e') @ rest)"
  have "r lim (pre @ e @ e' @ rest) (length pre) = Inr (x, length pre + length e)"
    by (rule readsD[OF assms(1)]) (use l in auto)
  moreover have "f x lim ((pre @ e) @ e' @ rest) (length (pre @ e)) = Inr (y, length (pre @ e) + length e')"
    by (rule readsD[OF assms(2)]) (use l in auto)
  ultimately show "bind_rd r f lim (pre @ (e @ e') @ rest) (length pre) = Inr (y, length pre + length (e @ e'))"
    by (simp add: bind_rd_def add.assoc)
qed

lemma reads_ret_bind: "reads r e x \<Longrightarrow> reads (bind_rd r (\<lambda>x. ret_rd (f x))) e (f x)"
  using reads_bind[of r e x "\<lambda>x. ret_rd (f x)" "[]" "f x"] reads_ret[of "f x"] by simp

lemma reads_bytes [reads_intros]: "length bs = n \<Longrightarrow> reads (bytes_rd m n) bs bs"
  by (simp add: reads_def bytes_rd_def get_range_at)

lemma reads_u8 [reads_intros]: "reads (u8_rd m) [b] b"
  by (simp add: reads_def u8_rd_def)

lemma reads_loop [reads_intros]:
  "length xs = n \<Longrightarrow> (\<And>x. x \<in> set xs \<Longrightarrow> reads r (enc x) x) \<Longrightarrow> reads (loop_rd n r) (concat (map enc xs)) xs"
proof (induction xs arbitrary: n)
  case Nil
  then show ?case by (simp add: reads_def)
next
  case (Cons x xs)
  have x: "reads r (enc x) x" and xs: "reads (loop_rd (length xs) r) (concat (map enc xs)) xs" using Cons by simp_all
  have "reads (bind_rd r (\<lambda>x. bind_rd (loop_rd (length xs) r) (\<lambda>xs. ret_rd (x # xs)))) (enc x @ concat (map enc xs)) (x # xs)"
    by (rule reads_bind[OF x reads_ret_bind[OF xs]])
  moreover have "loop_rd (Suc (length xs)) r = bind_rd r (\<lambda>x. bind_rd (loop_rd (length xs) r) (\<lambda>xs. ret_rd (x # xs)))"
    by (simp add: fun_eq_iff bind_rd_def ret_rd_def)
  ultimately show ?case using Cons.prems(1) by auto
qed

lemma reads_guard [reads_intros]: "reads r e x \<Longrightarrow> n * w \<le> length e \<Longrightarrow> 0 < w \<Longrightarrow> reads (guard_rd m w n r) e x"
proof (rule readsI)
  fix lim pre rest
  assume r: "reads r e x" and n: "n * w \<le> length e" "0 < w"
    and l: "length pre + length e \<le> lim" "lim \<le> length (pre @ e @ rest)"
  have "n * w \<le> lim - length pre" using n(1) l(1) by simp
  then have "n \<le> (lim - length pre) div w" using n(2) by (simp add: less_eq_div_iff_mult_less_eq)
  with readsD[OF r l] show "guard_rd m w n r lim (pre @ e @ rest) (length pre) = Inr (x, length pre + length e)"
    by (simp add: guard_rd_def)
qed

lemma reads_opt [reads_intros]: "reads r e x \<Longrightarrow> e \<noteq> [] \<Longrightarrow> reads (opt_rd d r) e x"
  unfolding reads_def opt_rd_def by (auto simp: neq_Nil_conv)

lemma reads_cut [reads_intros]: "reads r e x \<Longrightarrow> reads (cut_rd r) e x"
proof (rule readsI)
  fix lim pre rest
  assume r: "reads r e x" and l: "length pre + length e \<le> lim" "lim \<le> length (pre @ e @ rest)"
  have t: "take lim (pre @ e @ rest) = pre @ e @ take (lim - length pre - length e) rest" using l(1) by simp
  then have "length (take lim (pre @ e @ rest)) = lim" using l by simp
  then show "cut_rd r lim (pre @ e @ rest) (length pre) = Inr (x, length pre + length e)"
    unfolding cut_rd_def using readsD[OF r l(1), of "take (lim - length pre - length e) rest"] t l by simp
qed

section \<open>No panic\<close>

definition sane :: "'a reader \<Rightarrow> bool" where
  "sane r \<longleftrightarrow> (\<forall>lim buf off. case r lim buf off of Inl e \<Rightarrow> (\<exists>m. e = Integrity m) | Inr (x, off') \<Rightarrow> off \<le> off')"

named_theorems sane_intros

lemma saneI:
  "(\<And>lim buf off e. r lim buf off = Inl e \<Longrightarrow> \<exists>m. e = Integrity m) \<Longrightarrow>
   (\<And>lim buf off x off'. r lim buf off = Inr (x, off') \<Longrightarrow> off \<le> off') \<Longrightarrow> sane r"
  unfolding sane_def by (auto split: sum.splits)

lemma saneD:
  "sane r \<Longrightarrow> r lim buf off = Inl e \<Longrightarrow> \<exists>m. e = Integrity m"
  "sane r \<Longrightarrow> r lim buf off = Inr (x, off') \<Longrightarrow> off \<le> off'"
  unfolding sane_def by (force split: sum.splits)+

lemma sane_ret [sane_intros]: "sane (ret_rd x)"
  by (simp add: sane_def ret_rd_def)

lemma sane_fail [sane_intros]: "sane (fail_rd m)"
  by (simp add: sane_def fail_rd_def)

lemma sane_bind [sane_intros]:
  assumes "sane r" and "\<And>x. sane (f x)"
  shows "sane (bind_rd r f)"
proof (rule saneI)
  fix lim buf off e assume "bind_rd r f lim buf off = Inl e"
  then show "\<exists>m. e = Integrity m"
    using saneD(1)[OF assms(1)] saneD(1)[OF assms(2)] by (cases "r lim buf off") (fastforce simp: bind_rd_def)+
next
  fix lim buf off x off' assume "bind_rd r f lim buf off = Inr (x, off')"
  then obtain y off1 where "r lim buf off = Inr (y, off1)" "f y lim buf off1 = Inr (x, off')"
    by (auto simp: bind_rd_def)
  from saneD(2)[OF assms(1) this(1)] saneD(2)[OF assms(2) this(2)] show "off \<le> off'" by simp
qed

lemma sane_bytes [sane_intros]: "sane (bytes_rd m n)"
  by (auto simp: sane_def bytes_rd_def split: option.splits)

lemma sane_u8 [sane_intros]: "sane (u8_rd m)"
  by (auto simp: sane_def u8_rd_def)

lemma sane_loop [sane_intros]: "sane r \<Longrightarrow> sane (loop_rd n r)"
proof (induction n)
  case (Suc n)
  have "loop_rd (Suc n) r = bind_rd r (\<lambda>x. bind_rd (loop_rd n r) (\<lambda>xs. ret_rd (x # xs)))"
    by (simp add: fun_eq_iff bind_rd_def ret_rd_def)
  then show ?case using Suc by (simp add: sane_intros)
qed (simp add: sane_def)

lemma sane_guard [sane_intros]: "sane r \<Longrightarrow> sane (guard_rd m w n r)"
  by (auto simp: sane_def guard_rd_def)

lemma sane_opt [sane_intros]: "sane r \<Longrightarrow> sane (opt_rd d r)"
  by (auto simp: sane_def opt_rd_def)

lemma sane_cut [sane_intros]: "sane r \<Longrightarrow> sane (cut_rd r)"
  by (auto simp: sane_def cut_rd_def)

lemma sane_if [sane_intros]: "sane r \<Longrightarrow> sane r' \<Longrightarrow> sane (if b then r else r')"
  by simp

section \<open>What a reader can return\<close>

definition gives :: "'a reader \<Rightarrow> ('a \<Rightarrow> bool) \<Rightarrow> bool" where
  "gives r Q \<longleftrightarrow> (\<forall>lim buf off x off'. r lim buf off = Inr (x, off') \<longrightarrow> Q x)"

lemma givesI: "(\<And>lim buf off x off'. r lim buf off = Inr (x, off') \<Longrightarrow> Q x) \<Longrightarrow> gives r Q"
  unfolding gives_def by blast

lemma givesD: "gives r Q \<Longrightarrow> r lim buf off = Inr (x, off') \<Longrightarrow> Q x"
  unfolding gives_def by blast

lemma gives_True: "gives r (\<lambda>_. True)"
  by (simp add: gives_def)

lemma gives_mono: "gives r Q \<Longrightarrow> (\<And>x. Q x \<Longrightarrow> R x) \<Longrightarrow> gives r R"
  unfolding gives_def by blast

lemma gives_ret: "Q x \<Longrightarrow> gives (ret_rd x) Q"
  by (simp add: gives_def ret_rd_def)

lemma gives_fail: "gives (fail_rd m) Q"
  by (simp add: gives_def fail_rd_def)

lemma gives_bind: "gives r Q \<Longrightarrow> (\<And>x. Q x \<Longrightarrow> gives (f x) R) \<Longrightarrow> gives (bind_rd r f) R"
  by (rule givesI) (auto simp: bind_rd_def dest: givesD)

lemma gives_bytes: "gives (bytes_rd m n) (\<lambda>bs. length bs = n)"
  by (rule givesI) (auto simp: bytes_rd_def get_range_def split: option.splits if_splits)

lemma gives_loop: "gives r Q \<Longrightarrow> gives (loop_rd n r) (\<lambda>xs. length xs = n \<and> (\<forall>x \<in> set xs. Q x))"
proof (induction n)
  case (Suc n)
  have "loop_rd (Suc n) r = bind_rd r (\<lambda>x. bind_rd (loop_rd n r) (\<lambda>xs. ret_rd (x # xs)))"
    by (simp add: fun_eq_iff bind_rd_def ret_rd_def)
  moreover have "gives \<dots> (\<lambda>xs. length xs = Suc n \<and> (\<forall>x \<in> set xs. Q x))"
    by (rule gives_bind[OF Suc.prems gives_bind[OF Suc.IH[OF Suc.prems]]]) (simp add: gives_ret)
  ultimately show ?case by simp
qed (simp add: gives_def)

lemma gives_guard: "gives r Q \<Longrightarrow> gives (guard_rd m w n r) Q"
  by (auto simp: gives_def guard_rd_def)

lemma gives_opt: "gives r Q \<Longrightarrow> Q d \<Longrightarrow> gives (opt_rd d r) Q"
  by (auto simp: gives_def opt_rd_def)

lemma gives_cut: "gives r Q \<Longrightarrow> gives (cut_rd r) Q"
  by (auto simp: gives_def cut_rd_def)

lemma gives_if: "(b \<Longrightarrow> gives r Q) \<Longrightarrow> (\<not> b \<Longrightarrow> gives r' Q) \<Longrightarrow> gives (if b then r else r') Q"
  by simp

section \<open>What was read\<close>

text \<open>
  A reader \<open>emits\<close> the relation \<open>P\<close> when every value it returns is related to exactly the bytes it has consumed. Where \<open>P\<close> is
  \<open>bs = enc x\<close> the reader accepts nothing but encodings.
\<close>

definition emits :: "'a reader \<Rightarrow> ('a \<Rightarrow> bytes \<Rightarrow> bool) \<Rightarrow> bool" where
  "emits r P \<longleftrightarrow> (\<forall>lim buf off x off'. r lim buf off = Inr (x, off') \<longrightarrow> off \<le> length buf \<longrightarrow>
     off \<le> off' \<and> off' \<le> length buf \<and> P x (slice off (off' - off) buf))"

lemma emitsI:
  "(\<And>lim buf off x off'. r lim buf off = Inr (x, off') \<Longrightarrow> off \<le> length buf \<Longrightarrow>
     off \<le> off' \<and> off' \<le> length buf \<and> P x (slice off (off' - off) buf)) \<Longrightarrow> emits r P"
  unfolding emits_def by blast

lemma emitsD:
  assumes "emits r P" "r lim buf off = Inr (x, off')" "off \<le> length buf"
  shows "off \<le> off'" "off' \<le> length buf" "P x (slice off (off' - off) buf)"
  using assms unfolding emits_def by blast+

lemma emits_mono: "emits r P \<Longrightarrow> (\<And>x bs. P x bs \<Longrightarrow> Q x bs) \<Longrightarrow> emits r Q"
  unfolding emits_def by blast

lemma emits_ret: "emits (ret_rd x) (\<lambda>y bs. y = x \<and> bs = [])"
  by (rule emitsI) (simp add: ret_rd_def)

lemma emits_fail: "emits (fail_rd m) P"
  by (rule emitsI) (simp add: fail_rd_def)

lemma emits_bytes: "emits (bytes_rd m n) (\<lambda>x bs. bs = x \<and> length x = n)"
  by (rule emitsI) (auto simp: bytes_rd_def get_range_def split: option.splits if_splits)

lemma emits_u8: "emits (u8_rd m) (\<lambda>x bs. bs = [x])"
  by (rule emitsI) (auto simp: u8_rd_def slice_def Cons_nth_drop_Suc[symmetric] split: if_splits)

lemma emits_bind:
  assumes "emits r P" "\<And>x bs. P x bs \<Longrightarrow> emits (f x) (Q x)"
  shows "emits (bind_rd r f) (\<lambda>y bs. \<exists>x b1 b2. bs = b1 @ b2 \<and> P x b1 \<and> Q x y b2)"
proof (rule emitsI)
  fix lim buf off y off'
  assume "bind_rd r f lim buf off = Inr (y, off')" and off: "off \<le> length buf"
  then obtain x off1 where r: "r lim buf off = Inr (x, off1)" and f: "f x lim buf off1 = Inr (y, off')"
    by (auto simp: bind_rd_def)
  note p = emitsD[OF assms(1) r off]
  note q = emitsD[OF assms(2)[OF p(3)] f p(2)]
  have "slice off (off' - off) buf = slice off (off1 - off) buf @ slice off1 (off' - off1) buf"
    using slice_join[of off "off1 - off" buf "off' - off1"] p(1) q(1) by simp
  then show "off \<le> off' \<and> off' \<le> length buf \<and>
      (\<exists>x b1 b2. slice off (off' - off) buf = b1 @ b2 \<and> P x b1 \<and> Q x y b2)"
    using p q by (meson order.trans)
qed

lemma emits_if: "(b \<Longrightarrow> emits r P) \<Longrightarrow> (\<not> b \<Longrightarrow> emits r' P) \<Longrightarrow> emits (if b then r else r') P"
  by simp

lemma emits_loop:
  assumes "emits r (\<lambda>x bs. ok x \<and> bs = enc x)"
  shows "emits (loop_rd n r) (\<lambda>xs bs. length xs = n \<and> (\<forall>x \<in> set xs. ok x) \<and> bs = concat (map enc xs))"
proof (induction n)
  case 0
  show ?case by (rule emitsI) simp
next
  case (Suc n)
  have "loop_rd (Suc n) r = bind_rd r (\<lambda>x. bind_rd (loop_rd n r) (\<lambda>xs. ret_rd (x # xs)))"
    by (simp add: fun_eq_iff bind_rd_def ret_rd_def)
  moreover have "emits \<dots> (\<lambda>xs bs. length xs = Suc n \<and> (\<forall>x \<in> set xs. ok x) \<and> bs = concat (map enc xs))"
    by (rule emits_mono[OF emits_bind[OF assms emits_bind[OF Suc emits_ret]]]) auto
  ultimately show ?case by simp
qed

text \<open>A whole buffer: the reader starts at its front and has to stop at its end.\<close>

definition run_rd :: "'a reader \<Rightarrow> bytes \<Rightarrow> 'a option" where
  "run_rd r buf =
     (case r (length buf) buf 0 of Inl _ \<Rightarrow> None | Inr (x, off) \<Rightarrow> if off \<noteq> length buf then None else Some x)"

lemma run_rd_reads: "reads r enc x \<Longrightarrow> run_rd r enc = Some x"
  using readsD[of r enc x "[]" "length enc" "[]"] by (simp add: run_rd_def)

lemma run_rd_emits: "emits r P \<Longrightarrow> run_rd r buf = Some x \<Longrightarrow> P x buf"
  using emitsD(3)[of r P "length buf" buf 0 x "length buf"]
  by (auto simp: run_rd_def slice_all split: sum.splits prod.splits if_splits)

lemma run_rd_exact:
  assumes "\<And>x. ok x \<Longrightarrow> reads r (enc x) x" "emits r (\<lambda>x bs. ok x \<and> bs = enc x)"
  shows "run_rd r buf = Some x \<longleftrightarrow> ok x \<and> buf = enc x"
  using run_rd_reads[OF assms(1)] run_rd_emits[OF assms(2)] by metis

section \<open>Exact readers\<close>

text \<open>A reader is exact for an encoding when it reads back every encoding of a value it admits, and accepts nothing else.\<close>

definition exact :: "'a reader \<Rightarrow> ('a \<Rightarrow> bool) \<Rightarrow> ('a \<Rightarrow> bytes) \<Rightarrow> bool" where
  "exact r ok enc \<longleftrightarrow> (\<forall>x. ok x \<longrightarrow> reads r (enc x) x) \<and> emits r (\<lambda>x bs. ok x \<and> bs = enc x)"

lemma exactI: "(\<And>x. ok x \<Longrightarrow> reads r (enc x) x) \<Longrightarrow> emits r (\<lambda>x bs. ok x \<and> bs = enc x) \<Longrightarrow> exact r ok enc"
  unfolding exact_def by blast

lemma exactD: "exact r ok enc \<Longrightarrow> ok x \<Longrightarrow> reads r (enc x) x" "exact r ok enc \<Longrightarrow> emits r (\<lambda>x bs. ok x \<and> bs = enc x)"
  unfolding exact_def by blast+

lemma exact_run: "exact r ok enc \<Longrightarrow> run_rd r buf = Some x \<longleftrightarrow> ok x \<and> buf = enc x"
  by (rule run_rd_exact) (auto dest: exactD)

text \<open>Two readers in sequence; the value is put together by an injective function of both.\<close>

lemma exact_pair:
  assumes r: "exact r ok enc" and f: "\<And>x. ok x \<Longrightarrow> exact (f x) (ok' x) (enc' x)"
    and inv: "\<And>x y. ok x \<Longrightarrow> ok' x y \<Longrightarrow> p y = x"
  shows "exact (bind_rd r f) (\<lambda>y. ok (p y) \<and> ok' (p y) y) (\<lambda>y. enc (p y) @ enc' (p y) y)"
proof (rule exactI)
  fix y assume "ok (p y) \<and> ok' (p y) y"
  then show "reads (bind_rd r f) (enc (p y) @ enc' (p y) y) y" using exactD(1)[OF r] exactD(1)[OF f] by (intro reads_bind) auto
next
  show "emits (bind_rd r f) (\<lambda>y bs. (ok (p y) \<and> ok' (p y) y) \<and> bs = enc (p y) @ enc' (p y) y)"
    by (rule emits_mono[OF emits_bind[OF exactD(2)[OF r] exactD(2)[OF f]]]) (auto simp: inv)
qed

lemma exact_ret: "exact (ret_rd x) (\<lambda>y. y = x) (\<lambda>_. [])"
  by (rule exactI) (auto intro: reads_ret emits_mono[OF emits_ret])

lemma exact_cong: "exact r ok enc \<Longrightarrow> (\<And>x. ok x \<longleftrightarrow> ok' x) \<Longrightarrow> (\<And>x. ok' x \<Longrightarrow> enc x = enc' x) \<Longrightarrow> exact r ok' enc'"
  unfolding exact_def by (auto elim!: emits_mono)

lemma exact_bytes: "exact (bytes_rd m n) (\<lambda>bs. length bs = n) (\<lambda>bs. bs)"
  by (rule exactI) (auto intro: reads_bytes emits_mono[OF emits_bytes])

lemma exact_map:
  assumes "exact r ok enc" "\<And>x. ok x \<Longrightarrow> g (f x) = x"
  shows "exact (bind_rd r (\<lambda>x. ret_rd (f x))) (\<lambda>y. ok (g y) \<and> f (g y) = y) (\<lambda>y. enc (g y))"
  using exact_pair[OF assms(1) exact_ret, of f g] assms(2) by (auto elim!: exact_cong)

lemma exact_guard: "exact r ok enc \<Longrightarrow> exact (if b then r else fail_rd m) (\<lambda>y. b \<and> ok y) enc"
  by (auto simp: exact_def intro: emits_fail elim: emits_mono)

lemma exact_fail: "exact (fail_rd m) (\<lambda>_. False) enc"
  by (auto simp: exact_def intro: emits_fail)

lemma exact_loop:
  assumes "exact r ok enc"
  shows "exact (loop_rd n r) (\<lambda>xs. length xs = n \<and> (\<forall>x \<in> set xs. ok x)) (\<lambda>xs. concat (map enc xs))"
proof (rule exactI)
  fix xs assume "length xs = n \<and> (\<forall>x \<in> set xs. ok x)"
  then show "reads (loop_rd n r) (concat (map enc xs)) xs" using exactD(1)[OF assms] by (intro reads_loop) auto
next
  show "emits (loop_rd n r) (\<lambda>xs bs. (length xs = n \<and> (\<forall>x \<in> set xs. ok x)) \<and> bs = concat (map enc xs))"
    using emits_loop[OF exactD(2)[OF assms], of n] by simp
qed

end
