(* ===== verification/Unit_Record.thy ===== *)
theory Unit_Record
  imports Cursor Version_Vector Crypto Allocator
begin

unbundle bit_operations_syntax

text \<open>
  Unit records, \<^verbatim>\<open>sfs-core/src/unit.rs\<close>: the on-disk description of a file or database record with its
  two versioned streams, its encoding with optional trailing fields and a checksum, the byte string
  that a signature covers with its parser, and the bitmaps that mark fragments unchanged since a
  commit. The decoder is written as readers over a cursor; each definition is one block of the code.
\<close>

section \<open>Data\<close>

definition UNIT_MAGIC :: bytes where
  "UNIT_MAGIC = [115, 102, 115, 117, 0, 114, 49, 0]"

record commit_bitmap =
  cb_commit :: bytes
  cb_bits :: bytes

definition MIN_FRAGSIZE_EXP :: u8 where "MIN_FRAGSIZE_EXP = 12"
definition MAX_FRAGSIZE_EXP :: u8 where "MAX_FRAGSIZE_EXP = 25"

record stream_meta =
  sm_unit_map :: "u64 list"
  sm_locations :: "block_loc list"
  sm_vv :: version_vector
  sm_fragsize_exp :: u8
  sm_last_frag_length :: u32
  sm_pins :: "commit_bitmap list"

datatype unit_kind = Blob | KvRecord

record db_head =
  dh_store :: bytes
  dh_pk :: bytes
  dh_kind :: unit_kind

record unit_record =
  ur_uuid :: bytes
  ur_content :: "stream_meta option"
  ur_meta :: "stream_meta option"
  ur_parent :: "u64 option"
  ur_concurrent_strains :: "u64 list"
  ur_content_suite :: "cipher_suite_id option"
  ur_frag_suites :: "cipher_suite_id list"
  ur_signature :: "bytes option"
  ur_db :: "db_head option"
  ur_superseded :: "u64 list"

section \<open>Encoding\<close>

definition len_u32 :: "'a list \<Rightarrow> bytes" where
  "len_u32 xs = u32_to_le (word_of_nat (length xs))"

definition loc_bytes :: "block_loc \<Rightarrow> bytes" where
  "loc_bytes loc = u64_to_le (of_nat (bl_addr loc)) @ u32_to_le (bl_len loc)"

definition pin_bytes :: "commit_bitmap \<Rightarrow> bytes" where
  "pin_bytes pin = cb_commit pin @ len_u32 (cb_bits pin) @ cb_bits pin"

definition encode_stream_meta :: "stream_meta \<Rightarrow> bytes" where
  "encode_stream_meta sm =
     len_u32 (sm_unit_map sm) @ concat (map u64_to_le (sm_unit_map sm))
     @ len_u32 (sm_locations sm) @ concat (map loc_bytes (sm_locations sm))
     @ len_u32 (vv_to_bytes (sm_vv sm)) @ vv_to_bytes (sm_vv sm)
     @ [sm_fragsize_exp sm] @ u32_to_le (sm_last_frag_length sm)
     @ len_u32 (sm_pins sm) @ concat (map pin_bytes (sm_pins sm))"

definition stream_flags :: "'a option \<Rightarrow> 'a option \<Rightarrow> u8" where
  "stream_flags content meta = (if content = None then 0 else 1) OR (if meta = None then 0 else 2)"

definition stream_bytes :: "('a \<Rightarrow> bytes) \<Rightarrow> 'a option \<Rightarrow> bytes" where
  "stream_bytes enc s = (case s of None \<Rightarrow> [] | Some sm \<Rightarrow> enc sm)"

definition opt_bytes :: "('a \<Rightarrow> bytes) \<Rightarrow> 'a option \<Rightarrow> bytes" where
  "opt_bytes enc v = (case v of None \<Rightarrow> [0] | Some x \<Rightarrow> 1 # enc x)"

definition kind_byte :: "unit_kind \<Rightarrow> u8" where
  "kind_byte k = (case k of Blob \<Rightarrow> 0 | KvRecord \<Rightarrow> 1)"

definition db_bytes :: "db_head \<Rightarrow> bytes" where
  "db_bytes db = dh_store db @ dh_pk db @ [kind_byte (dh_kind db)]"

definition unit_body :: "unit_record \<Rightarrow> bytes" where
  "unit_body r =
     UNIT_MAGIC @ ur_uuid r @ opt_bytes u64_to_le (ur_parent r)
     @ [stream_flags (ur_content r) (ur_meta r)]
     @ stream_bytes encode_stream_meta (ur_content r) @ stream_bytes encode_stream_meta (ur_meta r)
     @ len_u32 (ur_concurrent_strains r) @ concat (map u64_to_le (ur_concurrent_strains r))
     @ opt_bytes u16_to_le (ur_content_suite r)
     @ len_u32 (ur_frag_suites r) @ concat (map u16_to_le (ur_frag_suites r))
     @ opt_bytes (\<lambda>sig. sig) (ur_signature r)
     @ opt_bytes db_bytes (ur_db r)
     @ len_u32 (ur_superseded r) @ concat (map u64_to_le (ur_superseded r))"

definition unit_encode :: "prims \<Rightarrow> unit_record \<Rightarrow> bytes" where
  "unit_encode P r = (let body = unit_body r in body @ u32_to_le (p_crc32 P body))"

section \<open>Decoding\<close>

definition unit_read_u16 :: "u16 reader" where
  "unit_read_u16 =
     bind_rd (bytes_rd ''UnitRecord decode: buffer too short'' 2) (\<lambda>bs. ret_rd (u16_from_le bs))"

definition unit_read_u32_le :: "u32 reader" where
  "unit_read_u32_le =
     bind_rd (bytes_rd ''UnitRecord decode: buffer too short (need u32)'' 4) (\<lambda>bs. ret_rd (u32_from_le bs))"

definition unit_read_u64_le :: "u64 reader" where
  "unit_read_u64_le =
     bind_rd (bytes_rd ''UnitRecord decode: buffer too short (need u64)'' 8) (\<lambda>bs. ret_rd (u64_from_le bs))"

definition unit_read_bytes :: "nat \<Rightarrow> bytes reader" where
  "unit_read_bytes n = bytes_rd ''UnitRecord decode: buffer too short'' n"

text \<open>A counted sequence: the count, the guard against a count the region cannot hold, the loop.\<close>

definition read_vec :: "string \<Rightarrow> nat \<Rightarrow> 'a reader \<Rightarrow> 'a list reader" where
  "read_vec m w item =
     bind_rd unit_read_u32_le (\<lambda>n. guard_rd m w (unat n) (loop_rd (unat n) item))"

definition read_loc :: "block_loc reader" where
  "read_loc =
     bind_rd unit_read_u64_le (\<lambda>addr. bind_rd unit_read_u32_le (\<lambda>len.
       ret_rd \<lparr>bl_addr = unat addr, bl_len = len\<rparr>))"

definition read_pin :: "commit_bitmap reader" where
  "read_pin =
     bind_rd (unit_read_bytes 16) (\<lambda>commit. bind_rd unit_read_u32_le (\<lambda>bits_len.
     bind_rd (bytes_rd ''UnitRecord decode: buffer too short for pin bits'' (unat bits_len)) (\<lambda>bits.
       ret_rd \<lparr>cb_commit = commit, cb_bits = bits\<rparr>)))"

definition lift_rd :: "'a result \<Rightarrow> 'a reader" where
  "lift_rd v lim buf off = bind_r v (\<lambda>x. Inr (x, off))"

definition decode_stream_meta :: "stream_meta reader" where
  "decode_stream_meta =
     bind_rd (read_vec ''unit_map length exceeds buffer'' 8 unit_read_u64_le) (\<lambda>unit_map.
     bind_rd (read_vec ''locations length exceeds buffer'' 12 read_loc) (\<lambda>locations.
     if length unit_map \<noteq> length locations then fail_rd ''StreamMeta: unit_map and locations length mismatch''
     else bind_rd unit_read_u32_le (\<lambda>vv_len.
     bind_rd (bytes_rd ''UnitRecord decode: buffer too short for vv'' (unat vv_len)) (\<lambda>vv_slice.
     bind_rd (lift_rd (vv_from_bytes vv_slice)) (\<lambda>vv.
     bind_rd (u8_rd ''UnitRecord decode: buffer too short for fragsize_exp'') (\<lambda>fragsize_exp.
     bind_rd unit_read_u32_le (\<lambda>last_frag_length.
     bind_rd (read_vec ''pins_count exceeds buffer'' 20 read_pin) (\<lambda>pins.
       ret_rd \<lparr>sm_unit_map = unit_map, sm_locations = locations, sm_vv = vv, sm_fragsize_exp = fragsize_exp,
               sm_last_frag_length = last_frag_length, sm_pins = pins\<rparr>))))))))"

definition read_opt :: "string \<Rightarrow> string \<Rightarrow> 'a reader \<Rightarrow> 'a option reader" where
  "read_opt short bad r =
     bind_rd (u8_rd short) (\<lambda>flag.
       if flag = 0 then ret_rd None
       else if flag = 1 then bind_rd r (\<lambda>x. ret_rd (Some x))
       else fail_rd bad)"

definition read_stream :: "u8 \<Rightarrow> nat \<Rightarrow> stream_meta option reader" where
  "read_stream flags kind_idx =
     (if bit flags kind_idx
      then (\<lambda>lim buf off.
        if lim \<le> off then Inl (Integrity ''UnitRecord decode: buffer exhausted before stream data'')
        else cut_rd (bind_rd decode_stream_meta (\<lambda>sm. ret_rd (Some sm))) lim buf off)
      else ret_rd None)"

definition read_db :: "db_head reader" where
  "read_db =
     bind_rd (unit_read_bytes 16) (\<lambda>store. bind_rd (unit_read_bytes 16) (\<lambda>pk.
     bind_rd (u8_rd ''UnitRecord decode: buffer too short for db kind'') (\<lambda>kind_byte.
       if kind_byte = 0 then ret_rd \<lparr>dh_store = store, dh_pk = pk, dh_kind = Blob\<rparr>
       else if kind_byte = 1 then ret_rd \<lparr>dh_store = store, dh_pk = pk, dh_kind = KvRecord\<rparr>
       else fail_rd ''UnitRecord decode: invalid db kind'')))"

definition content_exp_bad :: "stream_meta option \<Rightarrow> bool" where
  "content_exp_bad content =
     (case content of
        None \<Rightarrow> False
      | Some sm \<Rightarrow> \<not> (MIN_FRAGSIZE_EXP \<le> sm_fragsize_exp sm \<and> sm_fragsize_exp sm \<le> MAX_FRAGSIZE_EXP))"

definition unit_head :: "(bytes \<times> u64 option \<times> stream_meta option \<times> stream_meta option) reader" where
  "unit_head =
     bind_rd (unit_read_bytes 16) (\<lambda>uuid.
     bind_rd (read_opt ''UnitRecord decode: buffer too short for parent_flag'' ''UnitRecord decode: invalid parent_flag''
                unit_read_u64_le) (\<lambda>parent.
     bind_rd (u8_rd ''UnitRecord decode: buffer too short for stream_flags'') (\<lambda>flags.
     if flags AND NOT 3 \<noteq> 0 then fail_rd ''UnitRecord decode: unknown stream flags''
     else bind_rd (read_stream flags 0) (\<lambda>content.
     bind_rd (read_stream flags 1) (\<lambda>meta.
     if content_exp_bad content then fail_rd ''content stream fragsize_exp out of range''
     else ret_rd (uuid, parent, content, meta))))))"

text \<open>The trailing fields, each absent from records older than it.\<close>

definition unit_trailer :: "bytes \<times> u64 option \<times> stream_meta option \<times> stream_meta option \<Rightarrow> unit_record reader" where
  "unit_trailer head =
     (case head of (uuid, parent, content, meta) \<Rightarrow>
     bind_rd (opt_rd [] (read_vec ''UnitRecord decode: strains_count exceeds buffer'' 8 unit_read_u64_le)) (\<lambda>strains.
     bind_rd (opt_rd None (read_opt ''UnitRecord decode: buffer too short for content_suite_flag''
                ''UnitRecord decode: invalid content_suite_flag'' unit_read_u16)) (\<lambda>content_suite.
     bind_rd (opt_rd [] (read_vec ''UnitRecord decode: frag_suites count exceeds buffer'' 2 unit_read_u16)) (\<lambda>frag_suites.
     bind_rd (opt_rd None (read_opt ''UnitRecord decode: buffer too short for sig_flag''
                ''UnitRecord decode: invalid sig_flag'' (unit_read_bytes 64))) (\<lambda>signature.
     bind_rd (opt_rd None (read_opt ''UnitRecord decode: buffer too short for db_flag''
                ''UnitRecord decode: invalid db_flag'' read_db)) (\<lambda>db.
     bind_rd (opt_rd [] (read_vec ''UnitRecord decode: superseded count exceeds buffer'' 8 unit_read_u64_le)) (\<lambda>superseded.
       ret_rd \<lparr>ur_uuid = uuid, ur_content = content, ur_meta = meta, ur_parent = parent,
               ur_concurrent_strains = strains, ur_content_suite = content_suite, ur_frag_suites = frag_suites,
               ur_signature = signature, ur_db = db, ur_superseded = superseded\<rparr>)))))))"

definition unit_fields :: "unit_record reader" where
  "unit_fields = bind_rd unit_head unit_trailer"

definition unit_decode :: "prims \<Rightarrow> bytes \<Rightarrow> unit_record result" where
  "unit_decode P buf =
     (if length buf < 30 then Inl (Integrity ''UnitRecord decode: buffer too short'')
      else bind_r (unit_read_bytes 8 (length buf) buf 0) (\<lambda>(magic, _).
      if magic \<noteq> UNIT_MAGIC then Inl (Integrity ''UnitRecord decode: bad magic'')
      else let body_end = length buf - 4 in
      bind_r (unit_read_u32_le (length buf) buf body_end) (\<lambda>(stored_crc, _).
      if stored_crc \<noteq> p_crc32 P (take body_end buf) then Inl (Integrity ''UnitRecord decode: CRC mismatch'')
      else bind_r (unit_fields body_end buf 8) (\<lambda>(r, _). Inr r))))"

section \<open>Reading back\<close>

definition stream_ok :: "stream_meta \<Rightarrow> bool" where
  "stream_ok sm \<longleftrightarrow>
     length (sm_unit_map sm) < 2 ^ 32 \<and> length (sm_locations sm) = length (sm_unit_map sm)
     \<and> (\<forall>loc \<in> set (sm_locations sm). bl_addr loc < 2 ^ 64) \<and> vv_wire_ok (sm_vv sm)
     \<and> length (sm_pins sm) < 2 ^ 32
     \<and> (\<forall>pin \<in> set (sm_pins sm). length (cb_commit pin) = 16 \<and> length (cb_bits pin) < 2 ^ 32)"

definition unit_ok :: "unit_record \<Rightarrow> bool" where
  "unit_ok r \<longleftrightarrow>
     length (ur_uuid r) = 16
     \<and> (\<forall>sm. ur_content r = Some sm \<longrightarrow> stream_ok sm) \<and> (\<forall>sm. ur_meta r = Some sm \<longrightarrow> stream_ok sm)
     \<and> \<not> content_exp_bad (ur_content r)
     \<and> length (ur_concurrent_strains r) < 2 ^ 32 \<and> length (ur_frag_suites r) < 2 ^ 32
     \<and> (\<forall>sig. ur_signature r = Some sig \<longrightarrow> length sig = 64)
     \<and> (\<forall>db. ur_db r = Some db \<longrightarrow> length (dh_store db) = 16 \<and> length (dh_pk db) = 16)
     \<and> length (ur_superseded r) < 2 ^ 32"

lemma reads_u16 [reads_intros]: "reads unit_read_u16 (u16_to_le w) w"
  unfolding unit_read_u16_def using reads_ret_bind[OF reads_bytes[of "u16_to_le w" 2], where f = u16_from_le] by simp

lemma reads_u32 [reads_intros]: "reads unit_read_u32_le (u32_to_le w) w"
  unfolding unit_read_u32_le_def using reads_ret_bind[OF reads_bytes[of "u32_to_le w" 4], where f = u32_from_le] by simp

lemma reads_u64 [reads_intros]: "reads unit_read_u64_le (u64_to_le w) w"
  unfolding unit_read_u64_le_def using reads_ret_bind[OF reads_bytes[of "u64_to_le w" 8], where f = u64_from_le] by simp

lemma reads_fixed [reads_intros]: "length bs = n \<Longrightarrow> reads (unit_read_bytes n) bs bs"
  unfolding unit_read_bytes_def by (rule reads_bytes)

lemma unat_len: "length xs < 2 ^ 32 \<Longrightarrow> unat (word_of_nat (length xs) :: u32) = length xs"
  by (simp add: unat_of_nat)

lemma length_concat_ge: "(\<And>x. x \<in> set xs \<Longrightarrow> w \<le> length (enc x)) \<Longrightarrow> length xs * w \<le> length (concat (map enc xs))"
  by (induction xs) (simp, fastforce)

lemma reads_vec [reads_intros]:
  assumes "length xs < 2 ^ 32" and "0 < w" and "\<And>x. x \<in> set xs \<Longrightarrow> reads item (enc x) x \<and> w \<le> length (enc x)"
  shows "reads (read_vec m w item) (len_u32 xs @ concat (map enc xs)) xs"
  unfolding read_vec_def len_u32_def
proof (rule reads_bind[OF reads_u32])
  show "reads (guard_rd m w (unat (word_of_nat (length xs) :: u32)) (loop_rd (unat (word_of_nat (length xs) :: u32)) item))
      (concat (map enc xs)) xs"
    unfolding unat_len[OF assms(1)]
    by (intro reads_guard reads_loop length_concat_ge) (use assms in auto)
qed

lemma reads_loc: "bl_addr loc < 2 ^ 64 \<Longrightarrow> reads read_loc (loc_bytes loc) loc"
proof -
  assume a: "bl_addr loc < 2 ^ 64"
  have "reads read_loc (u64_to_le (of_nat (bl_addr loc)) @ u32_to_le (bl_len loc))
      \<lparr>bl_addr = unat (of_nat (bl_addr loc) :: u64), bl_len = bl_len loc\<rparr>"
    unfolding read_loc_def by (rule reads_bind[OF reads_u64 reads_ret_bind[OF reads_u32]])
  then show ?thesis using a by (cases loc) (simp add: loc_bytes_def unat_of_nat)
qed

lemma reads_pin: "length (cb_commit pin) = 16 \<Longrightarrow> length (cb_bits pin) < 2 ^ 32 \<Longrightarrow> reads read_pin (pin_bytes pin) pin"
proof -
  assume c: "length (cb_commit pin) = 16" "length (cb_bits pin) < 2 ^ 32"
  have "reads read_pin (cb_commit pin @ u32_to_le (word_of_nat (length (cb_bits pin))) @ cb_bits pin)
      \<lparr>cb_commit = cb_commit pin, cb_bits = cb_bits pin\<rparr>"
    unfolding read_pin_def
    by (rule reads_bind[OF reads_fixed[OF c(1)] reads_bind[OF reads_u32 reads_ret_bind[OF reads_bytes]]]) (use c(2) in \<open>simp add: unat_len\<close>)
  then show ?thesis by (cases pin) (simp add: pin_bytes_def len_u32_def)
qed

lemma item_lengths [simp]: "length (loc_bytes loc) = 12" "length (pin_bytes pin) = length (cb_commit pin) + 4 + length (cb_bits pin)"
  by (simp_all add: loc_bytes_def pin_bytes_def len_u32_def)

lemma reads_lift: "v = Inr x \<Longrightarrow> reads (lift_rd v) [] x"
  by (simp add: reads_def lift_rd_def)

lemma vv_bytes_len: "vv_wire_ok v \<Longrightarrow> length (vv_to_bytes v) < 2 ^ 32"
  by (simp add: vv_wire_ok_def vv_to_bytes_def)

lemma reads_stream_meta:
  assumes "stream_ok sm"
  shows "reads decode_stream_meta (encode_stream_meta sm) sm"
proof -
  note ok = assms[unfolded stream_ok_def]
  let ?um = "len_u32 (sm_unit_map sm) @ concat (map u64_to_le (sm_unit_map sm))"
    and ?lc = "len_u32 (sm_locations sm) @ concat (map loc_bytes (sm_locations sm))"
    and ?pn = "len_u32 (sm_pins sm) @ concat (map pin_bytes (sm_pins sm))"
  have um: "reads (read_vec m 8 unit_read_u64_le) ?um (sm_unit_map sm)" for m
    by (rule reads_vec) (use ok in \<open>auto intro: reads_u64\<close>)
  have lc: "reads (read_vec m 12 read_loc) ?lc (sm_locations sm)" for m
    by (rule reads_vec) (use ok in \<open>auto intro: reads_loc\<close>)
  have pn: "reads (read_vec m 20 read_pin) ?pn (sm_pins sm)" for m
    by (rule reads_vec) (use ok in \<open>auto intro: reads_pin\<close>)
  have vl: "length (vv_to_bytes (sm_vv sm)) = unat (word_of_nat (length (vv_to_bytes (sm_vv sm))) :: u32)"
    using ok by (simp only: unat_len[OF vv_bytes_len])
  have eq: "(if length (sm_unit_map sm) \<noteq> length (sm_locations sm) then x else y) = y" for x y :: "stream_meta reader"
    using ok by simp
  have "reads decode_stream_meta
      (?um @ ?lc @ len_u32 (vv_to_bytes (sm_vv sm)) @ vv_to_bytes (sm_vv sm) @ [] @ [sm_fragsize_exp sm]
        @ u32_to_le (sm_last_frag_length sm) @ ?pn)
      \<lparr>sm_unit_map = sm_unit_map sm, sm_locations = sm_locations sm, sm_vv = sm_vv sm, sm_fragsize_exp = sm_fragsize_exp sm,
       sm_last_frag_length = sm_last_frag_length sm, sm_pins = sm_pins sm\<rparr>"
    unfolding decode_stream_meta_def len_u32_def[of "vv_to_bytes (sm_vv sm)"]
    apply (rule reads_bind[OF um], rule reads_bind[OF lc])
    apply (simp only: eq)
    apply (rule reads_bind[OF reads_u32], rule reads_bind[OF reads_bytes[OF vl]])
    apply (rule reads_bind[OF reads_lift], rule vv_wire.dec_enc, use ok in simp)
    apply (rule reads_bind[OF reads_u8], rule reads_bind[OF reads_u32], rule reads_ret_bind[OF pn])
    done
  then show ?thesis by (cases sm) (simp add: encode_stream_meta_def)
qed

lemma reads_opt_field:
  assumes "\<And>x. v = Some x \<Longrightarrow> reads r (enc x) x"
  shows "reads (read_opt short bad r) (opt_bytes enc v) v"
proof (cases v)
  case None
  have "reads (read_opt short bad r) ([0] @ []) None"
    unfolding read_opt_def by (rule reads_bind[OF reads_u8]) (simp add: reads_ret)
  then show ?thesis by (simp add: None opt_bytes_def)
next
  case (Some x)
  have "reads (read_opt short bad r) ([1] @ enc x) (Some x)"
    unfolding read_opt_def by (rule reads_bind[OF reads_u8]) (simp add: reads_ret_bind[OF assms[OF Some]])
  then show ?thesis by (simp add: Some opt_bytes_def)
qed

lemma flags_bits: "bit (stream_flags c m) 0 \<longleftrightarrow> c \<noteq> None" "bit (stream_flags c m) 1 \<longleftrightarrow> m \<noteq> None"
    "stream_flags c m AND NOT 3 = 0"
  by (simp_all add: stream_flags_def)

lemma stream_enc_length: "21 \<le> length (encode_stream_meta sm)"
  by (simp add: encode_stream_meta_def len_u32_def)

lemma reads_stream:
  assumes "\<And>sm. c = Some sm \<Longrightarrow> stream_ok sm" and "bit flags k \<longleftrightarrow> c \<noteq> None"
  shows "reads (read_stream flags k) (stream_bytes encode_stream_meta c) c"
proof (cases c)
  case None
  then show ?thesis using assms(2) by (simp add: read_stream_def stream_bytes_def reads_ret)
next
  case (Some sm)
  have r: "reads (cut_rd (bind_rd decode_stream_meta (\<lambda>sm. ret_rd (Some sm)))) (encode_stream_meta sm) (Some sm)"
    by (rule reads_cut[OF reads_ret_bind[OF reads_stream_meta[OF assms(1)[OF Some]]]])
  show ?thesis
  proof (rule readsI)
    fix lim pre rest
    assume l: "length pre + length (stream_bytes encode_stream_meta c) \<le> lim"
      "lim \<le> length (pre @ stream_bytes encode_stream_meta c @ rest)"
    then have "\<not> lim \<le> length pre" using stream_enc_length[of sm] by (simp add: Some stream_bytes_def)
    with readsD[OF r, of pre lim rest] l show "read_stream flags k lim (pre @ stream_bytes encode_stream_meta c @ rest) (length pre)
        = Inr (c, length pre + length (stream_bytes encode_stream_meta c))"
      using assms(2) by (simp add: read_stream_def Some stream_bytes_def)
  qed
qed

lemma reads_db:
  assumes "length (dh_store db) = 16" and "length (dh_pk db) = 16"
  shows "reads read_db (db_bytes db) db"
proof -
  have "reads read_db (dh_store db @ dh_pk db @ [kind_byte (dh_kind db)] @ []) db"
    unfolding read_db_def
    by (rule reads_bind[OF reads_fixed[OF assms(1)] reads_bind[OF reads_fixed[OF assms(2)] reads_bind[OF reads_u8]]])
      (cases db, cases "dh_kind db", simp_all add: kind_byte_def reads_ret)
  then show ?thesis by (simp add: db_bytes_def)
qed

lemma opt_bytes_ne [simp]: "opt_bytes enc v \<noteq> []"
  by (cases v) (simp_all add: opt_bytes_def)

lemma len_u32_length [simp]: "length (len_u32 xs) = 4"
  by (simp add: len_u32_def)

lemma len_u32_ne [simp]: "len_u32 xs @ ys \<noteq> []"
  using len_u32_length[of xs] by (metis append_is_Nil_conv list.size(3) zero_neq_numeral)

lemma reads_opt_vec:
  assumes "length xs < 2 ^ 32" and "0 < w" and "\<And>x. reads item (enc x) x \<and> w \<le> length (enc x)"
  shows "reads (opt_rd [] (read_vec m w item)) (len_u32 xs @ concat (map enc xs)) xs"
  by (rule reads_opt[OF reads_vec len_u32_ne]) (use assms in auto)

lemma reads_unit_fields:
  assumes "unit_ok r"
  shows "\<exists>e. unit_body r = UNIT_MAGIC @ e \<and> reads unit_fields e r"
proof -
  note ok = assms[unfolded unit_ok_def]
  let ?vec = "\<lambda>enc xs. len_u32 xs @ concat (map enc xs)"
  let ?h = "ur_uuid r @ opt_bytes u64_to_le (ur_parent r) @ [stream_flags (ur_content r) (ur_meta r)]
     @ stream_bytes encode_stream_meta (ur_content r) @ stream_bytes encode_stream_meta (ur_meta r) @ []"
  let ?t = "?vec u64_to_le (ur_concurrent_strains r) @ opt_bytes u16_to_le (ur_content_suite r)
     @ ?vec u16_to_le (ur_frag_suites r) @ opt_bytes (\<lambda>sig. sig) (ur_signature r) @ opt_bytes db_bytes (ur_db r)
     @ ?vec u64_to_le (ur_superseded r)"
  have u64s: "reads (opt_rd [] (read_vec m 8 unit_read_u64_le)) (?vec u64_to_le xs) xs" if "length xs < 2 ^ 32" for xs m
    by (rule reads_opt_vec[OF that]) (simp_all add: reads_u64)
  have u16s: "reads (opt_rd [] (read_vec m 2 unit_read_u16)) (?vec u16_to_le xs) xs" if "length xs < 2 ^ 32" for xs m
    by (rule reads_opt_vec[OF that]) (simp_all add: reads_u16)
  have opt: "reads (opt_rd None (read_opt a b rd)) (opt_bytes enc v) v" if "\<And>x. v = Some x \<Longrightarrow> reads rd (enc x) x"
    for a b rd enc and v :: "'v option" by (rule reads_opt[OF reads_opt_field opt_bytes_ne]) (rule that)
  have "reads unit_head ?h (ur_uuid r, ur_parent r, ur_content r, ur_meta r)"
    unfolding unit_head_def
    apply (rule reads_bind[OF reads_fixed], use ok in simp)
    apply (rule reads_bind[OF reads_opt_field[OF reads_u64]], rule reads_bind[OF reads_u8])
    apply (simp only: flags_bits(3) if_False simp_thms)
    apply (rule reads_bind[OF reads_stream[OF _ flags_bits(1)]], use ok in simp)
    apply (rule reads_bind[OF reads_stream[OF _ flags_bits(2)]], use ok in simp)
    apply (simp only: ok if_False reads_ret)
    done
  moreover have "reads (unit_trailer (ur_uuid r, ur_parent r, ur_content r, ur_meta r)) ?t
     \<lparr>ur_uuid = ur_uuid r, ur_content = ur_content r, ur_meta = ur_meta r, ur_parent = ur_parent r,
      ur_concurrent_strains = ur_concurrent_strains r, ur_content_suite = ur_content_suite r, ur_frag_suites = ur_frag_suites r,
      ur_signature = ur_signature r, ur_db = ur_db r, ur_superseded = ur_superseded r\<rparr>"
    unfolding unit_trailer_def prod.case
    apply (rule reads_bind[OF u64s], use ok in simp)
    apply (rule reads_bind[OF opt[OF reads_u16]])
    apply (rule reads_bind[OF u16s], use ok in simp)
    apply (rule reads_bind[OF opt[OF reads_fixed]], use ok in simp)
    apply (rule reads_bind[OF opt[OF reads_db]], use ok in simp, use ok in simp)
    apply (rule reads_ret_bind[OF u64s], use ok in simp)
    done
  ultimately have "reads unit_fields (?h @ ?t) r" unfolding unit_fields_def by (cases r) (simp only: reads_bind unit_record.select_convs)
  then show ?thesis by (intro exI[of _ "?h @ ?t"]) (simp add: unit_body_def)
qed

lemma decode_encoded_unit:
  assumes "unit_ok r"
  shows "unit_decode P (unit_encode P r) = Inr r"
proof -
  from reads_unit_fields[OF assms] obtain e where e: "unit_body r = UNIT_MAGIC @ e" "reads unit_fields e r" by blast
  let ?crc = "u32_to_le (p_crc32 P (unit_body r))"
  have buf: "unit_encode P r = UNIT_MAGIC @ e @ ?crc" by (simp add: unit_encode_def e(1) Let_def)
  have m: "length UNIT_MAGIC = 8" by (simp add: UNIT_MAGIC_def)
  have f: "unit_fields (8 + length e) (UNIT_MAGIC @ e @ ?crc) 8 = Inr (r, 8 + length e)"
    using readsD[OF e(2), of UNIT_MAGIC "8 + length e" ?crc] m by simp
  have "length (unit_body r) \<ge> 26" using assms
    by (auto simp: unit_body_def unit_ok_def UNIT_MAGIC_def opt_bytes_def split: option.splits)
  then have l: "18 \<le> length e" using e(1) m by simp
  have mg: "unit_read_bytes 8 n (UNIT_MAGIC @ e @ ?crc) 0 = Inr (UNIT_MAGIC, 8)" for n
    using get_range_at[of 8 UNIT_MAGIC "[]" "e @ ?crc"] m by (simp add: unit_read_bytes_def bytes_rd_def)
  have cr: "unit_read_u32_le n (UNIT_MAGIC @ e @ ?crc) (8 + length e) = Inr (p_crc32 P (unit_body r), 12 + length e)" for n
    using get_range_at[of 4 ?crc "UNIT_MAGIC @ e" "[]"] m by (simp add: unit_read_u32_le_def bind_rd_def bytes_rd_def ret_rd_def)
  show ?thesis unfolding buf unit_decode_def using l m f mg cr by (simp add: e(1) Let_def)
qed

section \<open>What decodes is well formed\<close>

lemma u32_bound: "unat (w :: u32) < 4294967296" and u64_bound: "unat (v :: u64) < 18446744073709551616"
  using unat_lt2p[of w] unat_lt2p[of v] by simp_all

lemma gives_vec: "gives item Q \<Longrightarrow> gives (read_vec m w item) (\<lambda>xs. length xs < 2 ^ 32 \<and> (\<forall>x \<in> set xs. Q x))"
  unfolding read_vec_def
  by (rule gives_bind[OF gives_True], rule gives_guard, rule gives_mono, erule gives_loop) (simp add: u32_bound)

lemma gives_loc: "gives read_loc (\<lambda>loc. bl_addr loc < 2 ^ 64)"
  unfolding read_loc_def
  by (rule gives_bind[OF gives_True gives_bind[OF gives_True gives_ret]]) (simp add: u64_bound)

lemma gives_pin: "gives read_pin (\<lambda>pin. length (cb_commit pin) = 16 \<and> length (cb_bits pin) < 2 ^ 32)"
  unfolding read_pin_def unit_read_bytes_def
  by (rule gives_bind[OF gives_bytes gives_bind[OF gives_True gives_bind[OF gives_bytes gives_ret]]]) (simp add: u32_bound)

lemma gives_vv: "gives (lift_rd (vv_from_bytes bs)) vv_wire_ok"
  by (rule givesI) (auto simp: lift_rd_def dest: vv_wire.enc_dec)

lemma gives_stream_meta: "gives decode_stream_meta stream_ok"
  unfolding decode_stream_meta_def
  apply (rule gives_bind[OF gives_vec[OF gives_True]], rule gives_bind[OF gives_vec[OF gives_loc]])
  apply (rule gives_if[OF gives_fail])
  apply (rule gives_bind[OF gives_True gives_bind[OF gives_True gives_bind[OF gives_vv gives_bind[OF gives_True]]]])
  apply (rule gives_bind[OF gives_True gives_bind[OF gives_vec[OF gives_pin] gives_ret]])
  apply (simp add: stream_ok_def)
  done

lemma gives_read_opt: "gives r Q \<Longrightarrow> gives (read_opt a b r) (\<lambda>v. \<forall>x. v = Some x \<longrightarrow> Q x)"
  unfolding read_opt_def
  by (rule gives_bind[OF gives_True], intro gives_if gives_fail gives_ret gives_bind[OF _ gives_ret]) auto

lemma gives_stream: "gives (read_stream flags k) (\<lambda>v. \<forall>sm. v = Some sm \<longrightarrow> stream_ok sm)"
proof -
  have "gives (cut_rd (bind_rd decode_stream_meta (\<lambda>sm. ret_rd (Some sm)))) (\<lambda>v. \<forall>sm. v = Some sm \<longrightarrow> stream_ok sm)"
    by (rule gives_cut[OF gives_bind[OF gives_stream_meta gives_ret]]) simp
  then have "gives (\<lambda>lim buf off. if lim \<le> off then Inl (Integrity m)
      else cut_rd (bind_rd decode_stream_meta (\<lambda>sm. ret_rd (Some sm))) lim buf off) (\<lambda>v. \<forall>sm. v = Some sm \<longrightarrow> stream_ok sm)" for m
    unfolding gives_def by simp
  then show ?thesis unfolding read_stream_def by (intro gives_if gives_ret) auto
qed

lemma gives_db: "gives read_db (\<lambda>db. length (dh_store db) = 16 \<and> length (dh_pk db) = 16)"
  unfolding read_db_def unit_read_bytes_def
  by (rule gives_bind[OF gives_bytes gives_bind[OF gives_bytes gives_bind[OF gives_True]]], intro gives_if gives_fail gives_ret) simp_all

lemma gives_unit_fields: "gives unit_fields unit_ok"
  unfolding unit_fields_def
proof (rule gives_bind)
  let ?Q = "\<lambda>h. case h of (uuid, parent, content, meta) \<Rightarrow> length uuid = 16 \<and> (\<forall>sm. content = Some sm \<longrightarrow> stream_ok sm)
      \<and> (\<forall>sm. meta = Some sm \<longrightarrow> stream_ok sm) \<and> \<not> content_exp_bad content"
  show "gives unit_head ?Q"
    unfolding unit_head_def unit_read_bytes_def
    apply (rule gives_bind[OF gives_bytes gives_bind[OF gives_True gives_bind[OF gives_True]]])
    apply (rule gives_if[OF gives_fail], rule gives_bind[OF gives_stream gives_bind[OF gives_stream]])
    apply (rule gives_if[OF gives_fail gives_ret], simp)
    done
  note vec = gives_opt[OF gives_vec[OF gives_True]]
  show "gives (unit_trailer h) unit_ok" if "?Q h" for h
    using that unfolding unit_trailer_def unit_read_bytes_def
    apply (cases h, simp only: prod.case)
    apply (rule gives_bind[OF vec], simp, rule gives_bind[OF gives_True], rule gives_bind[OF vec], simp)
    apply (rule gives_bind[OF gives_opt[OF gives_read_opt[OF gives_bytes]]], simp)
    apply (rule gives_bind[OF gives_opt[OF gives_read_opt[OF gives_db]]], simp)
    apply (rule gives_bind[OF vec gives_ret], simp)
    apply (simp add: unit_ok_def)
    done
qed

lemma decoded_unit_ok: "unit_decode P buf = Inr r \<Longrightarrow> unit_ok r"
  using givesD[OF gives_unit_fields] by (fastforce simp: unit_decode_def Let_def split: if_splits)

section \<open>No panic\<close>

lemma sane_lift: "(\<And>e. v = Inl e \<Longrightarrow> \<exists>m. e = Integrity m) \<Longrightarrow> sane (lift_rd v)"
  by (cases v) (auto simp: sane_def lift_rd_def)

lemma vv_from_loop_err: "vv_from_loop buf i n prev = Inl e \<Longrightarrow> \<exists>m. e = Integrity m"
proof (induction buf i n prev rule: vv_from_loop.induct)
  case (2 buf i n prev)
  define o' where "o' = 2 + i * 10"
  define a where "a = u16_from_le (slice o' 2 buf)"
  note p = "2.prems"[unfolded vv_from_loop.simps Let_def, folded o'_def, folded a_def]
    and ih = "2.IH"[OF refl refl refl, folded o'_def, folded a_def]
  show ?case using p ih by (cases "vv_from_loop buf (Suc i) n (Some a)") (auto split: if_splits)
qed simp

lemma vv_from_bytes_err: "vv_from_bytes buf = Inl e \<Longrightarrow> \<exists>m. e = Integrity m"
  using vv_from_loop_err[of buf 0 _ None e]
  by (cases "vv_from_loop buf 0 (unat (u16_from_le (slice 0 2 buf))) None") (auto simp: vv_from_bytes_def Let_def split: if_splits)

lemma sane_ints [sane_intros]: "sane unit_read_u16" "sane unit_read_u32_le" "sane unit_read_u64_le" "sane (unit_read_bytes n)"
  unfolding unit_read_u16_def unit_read_u32_le_def unit_read_u64_le_def unit_read_bytes_def by (intro sane_intros)+

lemma sane_vec [sane_intros]: "sane item \<Longrightarrow> sane (read_vec m w item)"
  unfolding read_vec_def by (intro sane_intros)

lemma sane_items [sane_intros]: "sane read_loc" "sane read_pin" "sane read_db"
  unfolding read_loc_def read_pin_def read_db_def by (intro sane_intros)+

lemma sane_vv [sane_intros]: "sane (lift_rd (vv_from_bytes bs))"
  by (rule sane_lift[OF vv_from_bytes_err])

lemma sane_stream_meta [sane_intros]: "sane decode_stream_meta"
  unfolding decode_stream_meta_def by (intro sane_intros)

lemma sane_read_opt [sane_intros]: "sane r \<Longrightarrow> sane (read_opt a b r)"
  unfolding read_opt_def by (intro sane_intros)

lemma sane_stream [sane_intros]: "sane (read_stream flags k)"
proof -
  have "sane (cut_rd (bind_rd decode_stream_meta (\<lambda>sm. ret_rd (Some sm))))" by (intro sane_intros)
  then show ?thesis by (auto simp: read_stream_def sane_def ret_rd_def)
qed

lemma sane_unit_fields: "sane unit_fields"
proof -
  have "sane unit_head" unfolding unit_head_def by (intro sane_intros)
  moreover have "sane (unit_trailer h)" for h
    unfolding unit_trailer_def by (cases h) (simp only: prod.case, intro sane_intros)
  ultimately show ?thesis unfolding unit_fields_def by (intro sane_bind)
qed

lemma unit_decode_err: "unit_decode P buf = Inl e \<Longrightarrow> \<exists>m. e = Integrity m"
proof -
  assume e: "unit_decode P buf = Inl e"
  obtain mg where 1: "length buf < 30 \<or> unit_read_bytes 8 (length buf) buf 0 = Inr (mg, 8)"
    by (cases "length buf < 30") (auto simp: unit_read_bytes_def bytes_rd_def get_range_def)
  obtain c where 2: "length buf < 30 \<or> unit_read_u32_le (length buf) buf (length buf - 4) = Inr (c, length buf)"
    by (cases "length buf < 30") (auto simp: unit_read_u32_le_def bind_rd_def ret_rd_def bytes_rd_def get_range_def)
  show ?thesis
    using e 1 2 saneD(1)[OF sane_unit_fields, of "length buf - 4" buf 8]
    by (cases "unit_fields (length buf - 4) buf 8") (auto simp: unit_decode_def Let_def split: if_splits)
qed

end
