(* ===== verification/Unit_Signing.thy ===== *)
theory Unit_Signing
  imports Unit_Record
begin

unbundle bit_operations_syntax

text \<open>
  The byte string a unit record's signature covers and its parser, and the bitmaps of unchanged
  fragments, from \<^verbatim>\<open>sfs-core/src/unit.rs\<close>. The payload determines the signed fields of a record; the
  parser is the inverse on records of the blob surface and rejects every record of the database surface.
\<close>

section \<open>Signing payload\<close>

definition sig_stream_bytes :: "stream_meta \<Rightarrow> bytes" where
  "sig_stream_bytes sm =
     len_u32 (sm_unit_map sm) @ concat (map u64_to_le (sm_unit_map sm))
     @ len_u32 (vv_to_bytes (sm_vv sm)) @ vv_to_bytes (sm_vv sm)
     @ [sm_fragsize_exp sm] @ u32_to_le (sm_last_frag_length sm)"

definition sig_db_bytes :: "db_head option \<Rightarrow> bytes" where
  "sig_db_bytes db = (case db of None \<Rightarrow> [] | Some h \<Rightarrow> ascii ''sfsu-db'' @ dh_store h @ dh_pk h @ [kind_byte (dh_kind h)])"

definition signing_payload :: "unit_record \<Rightarrow> bytes" where
  "signing_payload r =
     ascii ''sfsu-sig'' @ ur_uuid r @ [stream_flags (ur_content r) (ur_meta r)]
     @ stream_bytes sig_stream_bytes (ur_content r) @ stream_bytes sig_stream_bytes (ur_meta r)
     @ sig_db_bytes (ur_db r)"

record parsed_stream_sig =
  ps_unit_map :: "u64 list"
  ps_vv_bytes :: bytes
  ps_fragsize_exp :: u8
  ps_last_frag_length :: u32

record parsed_signing_payload =
  pp_uuid :: bytes
  pp_content :: "parsed_stream_sig option"
  pp_meta :: "parsed_stream_sig option"

definition sig_stream :: "parsed_stream_sig reader" where
  "sig_stream =
     bind_rd (read_vec ''signing_payload: unit_map length exceeds buffer'' 8 unit_read_u64_le) (\<lambda>unit_map.
     bind_rd unit_read_u32_le (\<lambda>vv_len.
     bind_rd (bytes_rd ''signing_payload: vv_bytes truncated'' (unat vv_len)) (\<lambda>vv_bytes.
     bind_rd (u8_rd ''signing_payload: too short for fragsize_exp'') (\<lambda>fragsize_exp.
     bind_rd unit_read_u32_le (\<lambda>last_frag_length.
       ret_rd \<lparr>ps_unit_map = unit_map, ps_vv_bytes = vv_bytes, ps_fragsize_exp = fragsize_exp,
               ps_last_frag_length = last_frag_length\<rparr>)))))"

definition sig_slot :: "u8 \<Rightarrow> nat \<Rightarrow> parsed_stream_sig option reader" where
  "sig_slot flags idx =
     (if \<not> bit flags idx then ret_rd None else bind_rd sig_stream (\<lambda>s. ret_rd (Some s)))"

definition sig_fields :: "parsed_signing_payload reader" where
  "sig_fields =
     bind_rd (bytes_rd ''signing_payload: too short for magic'' 8) (\<lambda>magic.
     if magic \<noteq> ascii ''sfsu-sig'' then fail_rd ''signing_payload: bad magic''
     else bind_rd (unit_read_bytes 16) (\<lambda>uuid.
     bind_rd (u8_rd ''signing_payload: too short for stream_flags'') (\<lambda>flags.
     if flags AND NOT 3 \<noteq> 0 then fail_rd ''signing_payload: unknown stream flags''
     else bind_rd (sig_slot flags 0) (\<lambda>content. bind_rd (sig_slot flags 1) (\<lambda>meta.
       ret_rd \<lparr>pp_uuid = uuid, pp_content = content, pp_meta = meta\<rparr>)))))"

definition parse_signing_payload :: "bytes \<Rightarrow> parsed_signing_payload result" where
  "parse_signing_payload buf =
     bind_r (sig_fields (length buf) buf 0) (\<lambda>(p, off).
       if off \<noteq> length buf then Inl (Integrity ''signing_payload: trailing bytes after parse'') else Inr p)"

section \<open>Bitmaps\<close>

definition bitmap_set_bit :: "bytes \<Rightarrow> nat \<Rightarrow> bytes" where
  "bitmap_set_bit bits frag =
     (let byte = frag div 8; b = 7 - frag mod 8;
          bits = bits @ replicate (byte + 1 - length bits) 0
      in bits[byte := (bits ! byte) OR push_bit b 1])"

definition bitmap_get_bit :: "bytes \<Rightarrow> nat \<Rightarrow> bool" where
  "bitmap_get_bit bits frag =
     (let byte = frag div 8; b = 7 - frag mod 8
      in if byte < length bits then (bits ! byte) AND push_bit b 1 \<noteq> 0 else False)"

definition bitmap_clear_bit :: "bytes \<Rightarrow> nat \<Rightarrow> bytes" where
  "bitmap_clear_bit bits frag =
     (let byte = frag div 8; b = 7 - frag mod 8
      in if byte < length bits then bits[byte := (bits ! byte) AND NOT (push_bit b 1)] else bits)"

section \<open>What the payload determines\<close>

definition stream_signed :: "stream_meta \<Rightarrow> parsed_stream_sig" where
  "stream_signed sm =
     \<lparr>ps_unit_map = sm_unit_map sm, ps_vv_bytes = vv_to_bytes (sm_vv sm), ps_fragsize_exp = sm_fragsize_exp sm,
      ps_last_frag_length = sm_last_frag_length sm\<rparr>"

definition signed_fields :: "unit_record \<Rightarrow> parsed_signing_payload" where
  "signed_fields r =
     \<lparr>pp_uuid = ur_uuid r, pp_content = map_option stream_signed (ur_content r),
      pp_meta = map_option stream_signed (ur_meta r)\<rparr>"

lemma reads_sig_stream:
  assumes "stream_ok sm"
  shows "reads sig_stream (sig_stream_bytes sm) (stream_signed sm)"
proof -
  note ok = assms[unfolded stream_ok_def]
  let ?um = "len_u32 (sm_unit_map sm) @ concat (map u64_to_le (sm_unit_map sm))"
  have um: "reads (read_vec m 8 unit_read_u64_le) ?um (sm_unit_map sm)" for m
    by (rule reads_vec) (use ok in \<open>auto intro: reads_u64\<close>)
  have vl: "length (vv_to_bytes (sm_vv sm)) = unat (word_of_nat (length (vv_to_bytes (sm_vv sm))) :: u32)"
    using ok by (simp only: unat_len[OF vv_bytes_len])
  have "reads sig_stream
      (?um @ len_u32 (vv_to_bytes (sm_vv sm)) @ vv_to_bytes (sm_vv sm) @ [sm_fragsize_exp sm] @ u32_to_le (sm_last_frag_length sm))
      (stream_signed sm)"
    unfolding sig_stream_def stream_signed_def len_u32_def[of "vv_to_bytes (sm_vv sm)"]
    by (rule reads_bind[OF um], rule reads_bind[OF reads_u32], rule reads_bind[OF reads_bytes[OF vl]],
        rule reads_bind[OF reads_u8], rule reads_ret_bind[OF reads_u32])
  then show ?thesis by (simp add: sig_stream_bytes_def)
qed

lemma reads_sig_slot:
  assumes "\<And>sm. c = Some sm \<Longrightarrow> stream_ok sm" and "bit flags k \<longleftrightarrow> c \<noteq> None"
  shows "reads (sig_slot flags k) (stream_bytes sig_stream_bytes c) (map_option stream_signed c)"
  using assms reads_ret_bind[OF reads_sig_stream] by (cases c) (auto simp: sig_slot_def stream_bytes_def reads_ret)

lemma reads_sig_fields:
  assumes "unit_ok r"
  shows "\<exists>e. signing_payload r = e @ sig_db_bytes (ur_db r) \<and> reads sig_fields e (signed_fields r)"
proof -
  note ok = assms[unfolded unit_ok_def]
  let ?e = "ascii ''sfsu-sig'' @ ur_uuid r @ [stream_flags (ur_content r) (ur_meta r)]
     @ stream_bytes sig_stream_bytes (ur_content r) @ stream_bytes sig_stream_bytes (ur_meta r)"
  have "reads sig_fields ?e (signed_fields r)"
    unfolding sig_fields_def signed_fields_def
    apply (rule reads_bind[OF reads_bytes], simp)
    apply (simp only: simp_thms if_False)
    apply (rule reads_bind[OF reads_fixed], use ok in simp)
    apply (rule reads_bind[OF reads_u8])
    apply (simp only: flags_bits(3) simp_thms if_False)
    apply (rule reads_bind[OF reads_sig_slot[OF _ flags_bits(1)]], use ok in simp)
    apply (rule reads_ret_bind[OF reads_sig_slot[OF _ flags_bits(2)]], use ok in simp)
    done
  then show ?thesis by (intro exI[of _ ?e]) (simp add: signing_payload_def)
qed

lemma sig_fields_payload:
  assumes "unit_ok r"
  shows "sig_fields (length (signing_payload r)) (signing_payload r) 0
    = Inr (signed_fields r, length (signing_payload r) - length (sig_db_bytes (ur_db r)))"
proof -
  from reads_sig_fields[OF assms] obtain e where
    e: "signing_payload r = e @ sig_db_bytes (ur_db r)" "reads sig_fields e (signed_fields r)" by blast
  from readsD[OF e(2), of "[]" "length (signing_payload r)" "sig_db_bytes (ur_db r)"] e(1) show ?thesis by simp
qed

lemma sig_db_inj:
  assumes "sig_db_bytes d = sig_db_bytes d'"
    and "\<And>h. d = Some h \<Longrightarrow> length (dh_store h) = 16 \<and> length (dh_pk h) = 16"
    and "\<And>h. d' = Some h \<Longrightarrow> length (dh_store h) = 16 \<and> length (dh_pk h) = 16"
  shows "d = d'"
proof (cases d; cases d')
  fix h h' assume h: "d = Some h" "d' = Some h'"
  from assms(1) have "dh_store h @ dh_pk h @ [kind_byte (dh_kind h)] = dh_store h' @ dh_pk h' @ [kind_byte (dh_kind h')]"
    by (simp add: sig_db_bytes_def h)
  with assms(2)[OF h(1)] assms(3)[OF h(2)] have "dh_store h = dh_store h' \<and> dh_pk h = dh_pk h' \<and> kind_byte (dh_kind h) = kind_byte (dh_kind h')"
    by simp
  then show "d = d'" by (cases h; cases h') (auto simp: h kind_byte_def split: unit_kind.splits)
qed (use assms(1) in \<open>auto simp: sig_db_bytes_def ascii_def\<close>)

section \<open>Bitmap lemmas\<close>

lemma bitmap_get_alt: "bitmap_get_bit bits frag \<longleftrightarrow> frag div 8 < length bits \<and> bit (bits ! (frag div 8)) (7 - frag mod 8)"
  unfolding bitmap_get_bit_def Let_def bit_iff_and_push_bit_not_eq_0 by auto

lemma frag_eq: "f div 8 = g div 8 \<Longrightarrow> (7 - f mod 8 = 7 - g mod 8) = (f = (g :: nat))"
proof -
  assume d: "f div 8 = g div 8"
  have "f mod 8 < 8" "g mod 8 < 8" by simp_all
  then have "(7 - f mod 8 = 7 - g mod 8) = (f mod 8 = g mod 8)" by arith
  with d show ?thesis by (metis div_mult_mod_eq)
qed

lemma bit_flag: "n < 8 \<Longrightarrow> bit (push_bit n 1 :: u8) m \<longleftrightarrow> m = n"
  by (auto simp: bit_exp_iff)

lemma bitmap_set_get: "bitmap_get_bit (bitmap_set_bit bits f) g \<longleftrightarrow> g = f \<or> bitmap_get_bit bits g"
proof -
  let ?B = "bits @ replicate (f div 8 + 1 - length bits) 0" and ?b = "7 - f mod 8"
  have len: "f div 8 < length ?B" by simp
  have ext: "bitmap_get_bit ?B g \<longleftrightarrow> bitmap_get_bit bits g" by (auto simp: bitmap_get_alt nth_append)
  show ?thesis
  proof (cases "g div 8 = f div 8")
    case True
    have "bitmap_get_bit (bitmap_set_bit bits f) g \<longleftrightarrow> bit (?B ! (f div 8) OR push_bit ?b 1) (7 - g mod 8)"
      unfolding bitmap_get_alt bitmap_set_bit_def Let_def using len True by simp
    also have "\<dots> \<longleftrightarrow> bit (?B ! (f div 8)) (7 - g mod 8) \<or> g = f"
      unfolding bit_or_iff using bit_flag[of ?b "7 - g mod 8"] frag_eq[OF True] by auto
    also have "bit (?B ! (f div 8)) (7 - g mod 8) \<longleftrightarrow> bitmap_get_bit ?B g" using len True by (simp add: bitmap_get_alt)
    finally show ?thesis using ext by blast
  next
    case False
    then have "bitmap_get_bit (bitmap_set_bit bits f) g \<longleftrightarrow> bitmap_get_bit ?B g"
      unfolding bitmap_get_alt bitmap_set_bit_def Let_def by simp
    with ext False show ?thesis by auto
  qed
qed

lemma bitmap_clear_get: "bitmap_get_bit (bitmap_clear_bit bits f) g \<longleftrightarrow> g \<noteq> f \<and> bitmap_get_bit bits g"
proof (cases "f div 8 < length bits")
  case len: True
  let ?b = "7 - f mod 8"
  show ?thesis
  proof (cases "g div 8 = f div 8")
    case True
    have "bitmap_get_bit (bitmap_clear_bit bits f) g \<longleftrightarrow> bit (bits ! (f div 8) AND NOT (push_bit ?b 1)) (7 - g mod 8)"
      unfolding bitmap_get_alt bitmap_clear_bit_def Let_def using len True by simp
    also have "\<dots> \<longleftrightarrow> bit (bits ! (f div 8)) (7 - g mod 8) \<and> g \<noteq> f"
      unfolding bit_and_iff bit_not_iff using bit_flag[of ?b "7 - g mod 8"] frag_eq[OF True] by auto
    finally show ?thesis using len True by (auto simp: bitmap_get_alt)
  next
    case False
    then show ?thesis using len unfolding bitmap_get_alt bitmap_clear_bit_def Let_def by auto
  qed
next
  case False
  then show ?thesis by (auto simp: bitmap_get_alt bitmap_clear_bit_def)
qed

section \<open>Interface and properties\<close>

interpretation unit_wire: codec unit_ok "unit_encode P" "unit_decode P" for P
  by unfold_locales (rule decode_encoded_unit)

definition demo_stream :: stream_meta where
  "demo_stream =
     \<lparr>sm_unit_map = [1, 2], sm_locations = [\<lparr>bl_addr = 8192, bl_len = 10\<rparr>, \<lparr>bl_addr = 12288, bl_len = 7\<rparr>],
      sm_vv = \<lparr>vv_entries = [(3, 4)]\<rparr>, sm_fragsize_exp = 12, sm_last_frag_length = 7,
      sm_pins = [\<lparr>cb_commit = replicate 16 9, cb_bits = [128]\<rparr>]\<rparr>"

definition demo_unit :: unit_record where
  "demo_unit =
     \<lparr>ur_uuid = replicate 16 5, ur_content = Some demo_stream, ur_meta = None, ur_parent = Some 4096,
      ur_concurrent_strains = [], ur_content_suite = Some 1, ur_frag_suites = [], ur_signature = None,
      ur_db = Some \<lparr>dh_store = replicate 16 1, dh_pk = replicate 16 2, dh_kind = KvRecord\<rparr>, ur_superseded = [7]\<rparr>"

lemma demo_unit_ok: "unit_ok demo_unit" "unit_ok (demo_unit\<lparr>ur_db := None\<rparr>)"
  by (simp_all add: unit_ok_def demo_unit_def demo_stream_def stream_ok_def vv_wire_ok_def vv_inv_def content_exp_bad_def
      MIN_FRAGSIZE_EXP_def MAX_FRAGSIZE_EXP_def)

text \<open>C20. The record codec: a well-formed record decodes from its encoding, whatever decodes is well formed
  (parallel version and location maps, a content fragment exponent between 12 and 25, a canonical
  version vector, fields of their widths), and a byte string that does not decode is reported as an
  integrity error, never as a panic.\<close>

theorem unit_record_codec:
  "(unit_ok r \<longrightarrow> unit_decode P (unit_encode P r) = Inr r)
   \<and> (unit_decode P buf = Inr r' \<longrightarrow> unit_ok r')
   \<and> (unit_decode P buf = Inl e \<longrightarrow> (\<exists>m. e = Integrity m))"
  using unit_wire.dec_enc decoded_unit_ok unit_decode_err by blast

theorem unit_record_codec_witness:
  "unit_decode toy_prims (unit_encode toy_prims demo_unit) = Inr demo_unit
   \<and> (\<exists>m. unit_decode toy_prims [] = Inl (Integrity m))"
proof -
  obtain e where e: "unit_decode toy_prims [] = Inl e" by (simp add: unit_decode_def)
  show ?thesis using unit_record_codec[of demo_unit toy_prims "[]" demo_unit e] demo_unit_ok(1) e by blast
qed

text \<open>C21. The signed byte string binds a record's logical identity: two well-formed records with the same
  payload have the same UUID, the same version map, version vector and fragment geometry in each
  stream, and the same database head, whatever their locations, suites, pins and history are.\<close>

theorem signing_payload_binds:
  assumes "unit_ok r" and "unit_ok r'" and "signing_payload r = signing_payload r'"
  shows "signed_fields r = signed_fields r' \<and> ur_db r = ur_db r'"
proof -
  note p = sig_fields_payload[OF assms(1)] sig_fields_payload[OF assms(2)]
  have f: "signed_fields r = signed_fields r'" and
    l: "length (signing_payload r) - length (sig_db_bytes (ur_db r)) = length (signing_payload r) - length (sig_db_bytes (ur_db r'))"
    using p assms(3) by simp_all
  from reads_sig_fields[OF assms(1)] reads_sig_fields[OF assms(2)] obtain e e' where
    e: "signing_payload r = e @ sig_db_bytes (ur_db r)" "signing_payload r' = e' @ sig_db_bytes (ur_db r')" by blast
  then have "length e = length e'" using l assms(3) by (metis add_diff_cancel_right' length_append)
  then have "sig_db_bytes (ur_db r) = sig_db_bytes (ur_db r')" using e assms(3) by simp
  then have "ur_db r = ur_db r'" by (rule sig_db_inj) (use assms in \<open>auto simp: unit_ok_def\<close>)
  with f show ?thesis by simp
qed

theorem signing_payload_binds_witness:
  "signed_fields demo_unit = signed_fields (demo_unit\<lparr>ur_parent := None, ur_superseded := []\<rparr>)
   \<and> signing_payload demo_unit = signing_payload (demo_unit\<lparr>ur_parent := None, ur_superseded := []\<rparr>)"
proof -
  have s: "signing_payload demo_unit = signing_payload (demo_unit\<lparr>ur_parent := None, ur_superseded := []\<rparr>)"
    by (simp add: signing_payload_def)
  have "unit_ok (demo_unit\<lparr>ur_parent := None, ur_superseded := []\<rparr>)" using demo_unit_ok(1) by (simp add: unit_ok_def)
  from signing_payload_binds[OF demo_unit_ok(1) this s] s show ?thesis by simp
qed

text \<open>C22. Parsing a signed payload gives the signed fields back exactly when the record has no database
  head; the payload of every record of the database surface is rejected for trailing bytes, so such a
  record cannot be imported by a peer that checks signatures.\<close>

theorem parse_signing_payload_partial:
  assumes "unit_ok r"
  shows "parse_signing_payload (signing_payload r) =
    (if ur_db r = None then Inr (signed_fields r)
     else Inl (Integrity ''signing_payload: trailing bytes after parse''))"
proof -
  have d: "sig_db_bytes (ur_db r) = [] \<longleftrightarrow> ur_db r = None" by (auto simp: sig_db_bytes_def ascii_def split: option.splits)
  have "length (sig_db_bytes (ur_db r)) \<le> length (signing_payload r)" by (simp add: signing_payload_def)
  then have "length (signing_payload r) - length (sig_db_bytes (ur_db r)) = length (signing_payload r) \<longleftrightarrow> ur_db r = None"
    using d by (cases "sig_db_bytes (ur_db r)") auto
  then show ?thesis unfolding parse_signing_payload_def sig_fields_payload[OF assms] by simp
qed

theorem parse_signing_payload_partial_witness:
  "parse_signing_payload (signing_payload (demo_unit\<lparr>ur_db := None\<rparr>)) = Inr (signed_fields demo_unit)
   \<and> \<not> is_ok (parse_signing_payload (signing_payload demo_unit))"
  using parse_signing_payload_partial[OF demo_unit_ok(1)] parse_signing_payload_partial[OF demo_unit_ok(2)]
  by (simp add: demo_unit_def signed_fields_def)

text \<open>Setting the bit of a fragment sets that bit and no other, extending the bitmap with zeros when
  needed; clearing it clears that bit and no other.\<close>

lemma bitmap_bits_exact:
  "bitmap_get_bit (bitmap_set_bit bits f) g = (g = f \<or> bitmap_get_bit bits g)
   \<and> bitmap_get_bit (bitmap_clear_bit bits f) g = (g \<noteq> f \<and> bitmap_get_bit bits g)"
  using bitmap_set_get bitmap_clear_get by blast

end
