(* ===== verification/GF256.thy ===== *)
theory GF256
  imports Sfs_Prelude
begin

unbundle bit_operations_syntax

text \<open>
  The field of 256 elements as \<^verbatim>\<open>sfs-saas/src/recovery.rs\<close> computes in it: shift-and-add multiplication
  modulo the polynomial 0x11b, the logarithm and exponential tables of the generator 3, and
  multiplication and division by table lookup. The shift-and-add product makes the bytes a field
  (an instance of the class), and the table operations are that field's product and quotient.
\<close>

section \<open>The code\<close>

text \<open>One step of the multiplication loop doubles the factor.\<close>

definition xtime :: "u8 \<Rightarrow> u8" where
  "xtime a = (let hi = a AND 0x80; a = push_bit 1 a in if hi \<noteq> 0 then a XOR 0x1b else a)"

fun gf_mul_loop :: "nat \<Rightarrow> u8 \<Rightarrow> u8 \<Rightarrow> u8 \<Rightarrow> u8" where
  "gf_mul_loop 0 a b p = p"
| "gf_mul_loop (Suc n) a b p =
     gf_mul_loop n (xtime a) (drop_bit 1 b) (if b AND 1 \<noteq> 0 then p XOR a else p)"

definition gf_mul_slow :: "u8 \<Rightarrow> u8 \<Rightarrow> u8" where
  "gf_mul_slow a b = gf_mul_loop 8 a b 0"

fun tables_loop :: "nat list \<Rightarrow> u8 \<Rightarrow> u8 list \<Rightarrow> u8 list \<Rightarrow> u8 list \<times> u8 list" where
  "tables_loop [] x log_t exp_t = (log_t, exp_t)"
| "tables_loop (i # is) x log_t exp_t =
     tables_loop is (gf_mul_slow x 3) (log_t[unat x := of_nat i]) (exp_t[i := x])"

definition build_gf256_tables :: "u8 list \<times> u8 list" where
  "build_gf256_tables =
     (let (log_t, exp_t) = tables_loop [0..<255] 1 (replicate 256 0) (replicate 256 0)
      in (log_t, exp_t[255 := 1]))"

definition gf_mul :: "u8 \<Rightarrow> u8 \<Rightarrow> u8 list \<Rightarrow> u8 list \<Rightarrow> u8" where
  "gf_mul a b log_t exp_t =
     (if a = 0 \<or> b = 0 then 0
      else exp_t ! ((unat (log_t ! unat a) + unat (log_t ! unat b)) mod 255))"

definition gf_div :: "u8 \<Rightarrow> u8 \<Rightarrow> u8 list \<Rightarrow> u8 list \<Rightarrow> u8 result" where
  "gf_div a b log_t exp_t =
     (if b = 0 then Inl (Panic ''division by zero in GF(256)'')
      else if a = 0 then Inr 0
      else Inr (exp_t ! ((unat (log_t ! unat a) + 255 - unat (log_t ! unat b)) mod 255)))"

section \<open>The product is bilinear\<close>

lemma xor_cancel [simp]: "(a :: u8) XOR (a XOR b) = b"
  by (simp flip: xor.assoc)

lemma xtime_alt: "xtime a = push_bit 1 a XOR (if bit a 7 then 0x1b else 0)"
proof -
  have "a AND 0x80 \<noteq> 0 \<longleftrightarrow> bit a 7" using bit_iff_and_push_bit_not_eq_0[of a 7] by simp
  then show ?thesis by (simp add: xtime_def Let_def)
qed

lemma xtime_xor: "xtime (a XOR b) = xtime a XOR xtime b"
  unfolding xtime_alt push_bit_xor bit_xor_iff
  by (cases "bit a 7"; cases "bit b 7") (simp_all only: simp_thms if_True if_False xor.assoc xor.commute xor.left_commute xor_cancel xor_self_eq xor.right_neutral xor.left_neutral)

lemma xtime_0 [simp]: "xtime 0 = 0"
  by (simp add: xtime_def)

lemma even_bit: "(b :: u8) AND 1 \<noteq> 0 \<longleftrightarrow> bit b 0"
  unfolding bit_iff_and_push_bit_not_eq_0 by simp

lemma loop_xor_left:
  "gf_mul_loop n (a XOR a') b (p XOR p') = gf_mul_loop n a b p XOR gf_mul_loop n a' b p'"
proof (induction n arbitrary: a a' b p p')
  case (Suc n)
  have "(if b AND 1 \<noteq> 0 then (p XOR p') XOR (a XOR a') else p XOR p')
      = (if b AND 1 \<noteq> 0 then p XOR a else p) XOR (if b AND 1 \<noteq> 0 then p' XOR a' else p')"
    by (simp add: xor.assoc xor.left_commute)
  then show ?case using Suc.IH[of "xtime a" "xtime a'"] by (simp add: xtime_xor)
qed simp

lemma loop_xor_right:
  "gf_mul_loop n a (b XOR b') (p XOR p') = gf_mul_loop n a b p XOR gf_mul_loop n a b' p'"
proof (induction n arbitrary: a b b' p p')
  case (Suc n)
  have "(if (b XOR b') AND 1 \<noteq> 0 then (p XOR p') XOR a else p XOR p')
      = (if b AND 1 \<noteq> 0 then p XOR a else p) XOR (if b' AND 1 \<noteq> 0 then p' XOR a else p')"
    unfolding even_bit bit_xor_iff by (cases "bit b 0"; cases "bit b' 0") (simp_all add: xor.assoc xor.commute xor.left_commute)
  moreover have "drop_bit 1 (b XOR b') = drop_bit 1 b XOR drop_bit 1 b'" by (simp add: drop_bit_xor)
  ultimately show ?case using Suc.IH[of "xtime a"] by simp
qed simp

lemma loop_xtime: "gf_mul_loop n (xtime a) b (xtime p) = xtime (gf_mul_loop n a b p)"
proof (induction n arbitrary: a b p)
  case (Suc n)
  have "(if b AND 1 \<noteq> 0 then xtime p XOR xtime a else xtime p) = xtime (if b AND 1 \<noteq> 0 then p XOR a else p)"
    by (simp add: xtime_xor)
  then show ?case using Suc.IH[of "xtime a"] by simp
qed simp

lemma mul_xor_left: "gf_mul_slow (a XOR a') b = gf_mul_slow a b XOR gf_mul_slow a' b"
  using loop_xor_left[of 8 a a' b 0 0] by (simp add: gf_mul_slow_def)

lemma mul_xor_right: "gf_mul_slow a (b XOR b') = gf_mul_slow a b XOR gf_mul_slow a b'"
  using loop_xor_right[of 8 a b b' 0 0] by (simp add: gf_mul_slow_def)

lemma mul_xtime: "gf_mul_slow (xtime a) b = xtime (gf_mul_slow a b)"
  using loop_xtime[of 8 a b 0] by (simp add: gf_mul_slow_def)

section \<open>Basis\<close>

lemma u8_split: "(a :: u8) = (a AND 1) XOR ((a AND 2) XOR ((a AND 4) XOR ((a AND 8) XOR ((a AND 16) XOR
    ((a AND 32) XOR ((a AND 64) XOR (a AND 128)))))))"
proof (rule bit_eqI)
  fix n
  assume "possible_bit TYPE(u8) n"
  then have "n < 8" by simp
  then have "n \<in> {0, 1, 2, 3, 4, 5, 6, 7}" by auto
  then show "bit a n \<longleftrightarrow> bit ((a AND 1) XOR ((a AND 2) XOR ((a AND 4) XOR ((a AND 8) XOR ((a AND 16) XOR
    ((a AND 32) XOR ((a AND 64) XOR (a AND 128)))))))) n"
    by (elim insertE emptyE) (simp_all add: bit_simps)
qed

lemma and_basis: "(a :: u8) AND 2 ^ i = (if bit a i then 2 ^ i else 0)"
  by (rule bit_eqI) (auto simp: bit_simps)

lemma xor_induct:
  assumes "P 0" and "\<And>i. i < 8 \<Longrightarrow> P (2 ^ i)" and "\<And>a b. P a \<Longrightarrow> P b \<Longrightarrow> P (a XOR b)"
  shows "P (a :: u8)"
proof -
  have m: "P (a AND 2 ^ i)" if "i < 8" for i using assms(1,2) that by (simp add: and_basis)
  have "P (a AND 1)" "P (a AND 2)" "P (a AND 4)" "P (a AND 8)" "P (a AND 16)" "P (a AND 32)" "P (a AND 64)" "P (a AND 128)"
    using m[of 0] m[of 1] m[of 2] m[of 3] m[of 4] m[of 5] m[of 6] m[of 7] by simp_all
  then show ?thesis by (subst u8_split) (intro assms(3))
qed

lemma mul_zero [simp]: "gf_mul_slow 0 b = 0" "gf_mul_slow a 0 = 0"
  using mul_xor_left[of 0 0 b] mul_xor_right[of a 0 0] by simp_all

lemma loop_0 [simp]: "gf_mul_loop n a 0 p = p"
  by (induction n arbitrary: a p) simp_all

lemma loop_basis: "i < n \<Longrightarrow> i < 8 \<Longrightarrow> gf_mul_loop n a (2 ^ i) p = p XOR (xtime ^^ i) a"
proof (induction n arbitrary: i a p)
  case (Suc n)
  show ?case
  proof (cases i)
    case 0
    then show ?thesis by simp
  next
    case (Suc k)
    have "drop_bit 1 (2 ^ Suc k :: u8) = 2 ^ k"
      by (rule bit_eqI) (use Suc.prems Suc in \<open>auto simp: bit_simps\<close>)
    moreover have "\<not> (2 ^ Suc k :: u8) AND 1 \<noteq> 0" unfolding even_bit by (simp add: bit_simps)
    ultimately show ?thesis using Suc.IH[of k "xtime a" p] Suc.prems Suc by (simp add: funpow_swap1)
  qed
qed simp

lemma mul_basis: "i < 8 \<Longrightarrow> gf_mul_slow a (2 ^ i) = (xtime ^^ i) a"
  using loop_basis[of i 8 a 0] by (simp add: gf_mul_slow_def)

lemma xtime_pow: "i < 8 \<Longrightarrow> (xtime ^^ i) 1 = 2 ^ i"
proof -
  assume "i < 8"
  then have "i \<in> {0, 1, 2, 3, 4, 5, 6, 7}" by auto
  then show ?thesis by (elim insertE emptyE) (simp_all add: xtime_def eval_nat_numeral)
qed

lemma mul_one [simp]: "gf_mul_slow a 1 = a"
  using mul_basis[of 0 a] by simp

lemma mul_xtime_pow: "gf_mul_slow ((xtime ^^ n) a) b = (xtime ^^ n) (gf_mul_slow a b)"
  by (induction n) (simp_all add: mul_xtime)

lemma xtime_pow_xor: "(xtime ^^ n) (a XOR b) = (xtime ^^ n) a XOR (xtime ^^ n) b"
  by (induction n) (simp_all add: xtime_xor)

lemma mul_commute: "gf_mul_slow a b = gf_mul_slow b a"
proof (induction a rule: xor_induct)
  case (2 i)
  show ?case
  proof (induction b rule: xor_induct)
    case (2 j)
    have "gf_mul_slow (2 ^ i) (2 ^ j) = (xtime ^^ (j + i)) 1" "gf_mul_slow (2 ^ j) (2 ^ i) = (xtime ^^ (i + j)) 1"
      using mul_basis[OF \<open>i < 8\<close>] mul_basis[OF 2] xtime_pow[OF \<open>i < 8\<close>] xtime_pow[OF 2] by (simp_all only: funpow_add o_apply)
    then show ?case by (simp add: add.commute)
  qed (simp_all add: mul_xor_left mul_xor_right)
qed (simp_all add: mul_xor_left mul_xor_right)

lemma mul_assoc: "gf_mul_slow (gf_mul_slow a b) c = gf_mul_slow a (gf_mul_slow b c)"
proof (induction c rule: xor_induct)
  case (2 i)
  have "gf_mul_slow a (gf_mul_slow b (2 ^ i)) = gf_mul_slow ((xtime ^^ i) b) a" using mul_basis[OF 2] mul_commute by simp
  also have "\<dots> = (xtime ^^ i) (gf_mul_slow a b)" using mul_xtime_pow mul_commute by simp
  finally show ?case using mul_basis[OF 2] by simp
qed (simp_all add: mul_xor_right)

section \<open>The generator\<close>

text \<open>The product written out, to evaluate it on given bytes.\<close>

lemma mul_expand:
  "gf_mul_slow a b = (let a1 = xtime a; a2 = xtime a1; a3 = xtime a2; a4 = xtime a3; a5 = xtime a4; a6 = xtime a5; a7 = xtime a6 in
     (if bit b 0 then a else 0) XOR (if bit b 1 then a1 else 0) XOR (if bit b 2 then a2 else 0) XOR (if bit b 3 then a3 else 0)
     XOR (if bit b 4 then a4 else 0) XOR (if bit b 5 then a5 else 0) XOR (if bit b 6 then a6 else 0) XOR (if bit b 7 then a7 else 0))"
proof -
  have m: "gf_mul_slow a (b AND 2 ^ i) = (if bit b i then (xtime ^^ i) a else 0)" if "i < 8" for i
    using mul_basis[OF that] by (simp add: and_basis)
  show ?thesis
    apply (subst u8_split[of b])
    using m[of 0] m[of 1] m[of 2] m[of 3] m[of 4] m[of 5] m[of 6] m[of 7]
    by (simp only: mul_xor_right Let_def) (simp add: eval_nat_numeral xor.assoc)
qed

definition gpow :: "nat \<Rightarrow> u8" where
  "gpow n = ((\<lambda>x. gf_mul_slow x 3) ^^ n) 1"

lemma gpow_simps: "gpow 0 = 1" "gpow (Suc n) = gf_mul_slow (gpow n) 3"
  by (simp_all add: gpow_def)

lemma gpow_add: "gpow (m + n) = gf_mul_slow (gpow m) (gpow n)"
  by (induction n) (simp_all add: gpow_simps mul_assoc)

lemma gpow_step: "gpow m = a \<Longrightarrow> gpow n = b \<Longrightarrow> k = m + n \<Longrightarrow> gf_mul_slow a b = c \<Longrightarrow> gpow k = c"
  by (simp add: gpow_add)

lemma gpow_values: "gpow 15 = 53" "gpow 51 = 12" "gpow 85 = 189" "gpow 255 = 1"
proof -
  note v = mul_expand xtime_def Let_def
  have 1: "gpow 1 = 3" by (simp add: gpow_simps v)
  have 2: "gpow 2 = 5" by (rule gpow_step[OF 1 1]) (simp_all add: v)
  have 3: "gpow 3 = 15" by (rule gpow_step[OF 2 1]) (simp_all add: v)
  have 6: "gpow 6 = 85" by (rule gpow_step[OF 3 3]) (simp_all add: v)
  have 12: "gpow 12 = 161" by (rule gpow_step[OF 6 6]) (simp_all add: v)
  show 15: "gpow 15 = 53" by (rule gpow_step[OF 12 3]) (simp_all add: v)
  have 24: "gpow 24 = 247" by (rule gpow_step[OF 12 12]) (simp_all add: v)
  have 30: "gpow 30 = 102" by (rule gpow_step[OF 15 15]) (simp_all add: v)
  have 48: "gpow 48 = 83" by (rule gpow_step[OF 24 24]) (simp_all add: v)
  show 51: "gpow 51 = 12" by (rule gpow_step[OF 48 3]) (simp_all add: v)
  have 81: "gpow 81 = 158" by (rule gpow_step[OF 51 30]) (simp_all add: v)
  have 84: "gpow 84 = 107" by (rule gpow_step[OF 81 3]) (simp_all add: v)
  show 85: "gpow 85 = 189" by (rule gpow_step[OF 84 1]) (simp_all add: v)
  have 170: "gpow 170 = 188" by (rule gpow_step[OF 85 85]) (simp_all add: v)
  show 255: "gpow 255 = 1" by (rule gpow_step[OF 170 85]) (simp_all add: v)
qed

lemma gpow_mult_1: "gpow d = 1 \<Longrightarrow> gpow (d * n) = 1"
  by (induction n) (simp_all add: gpow_simps gpow_add)

lemma below_16: "g < (16 :: nat) \<Longrightarrow> g \<in> {0, 1, 2, 3, 4, 5, 6, 7, 8, 9, 10, 11, 12, 13, 14, 15}"
proof -
  assume "g < 16"
  then have "g \<in> {0, 1, 2, 3, 4, 5, 6, 7} \<or> g \<in> {8, 9, 10, 11, 12, 13, 14, 15}" by (cases "g < 8") auto
  then show ?thesis by blast
qed

lemma small_divisor: "255 = g * (k :: nat) \<Longrightarrow> g < 16 \<Longrightarrow> g \<in> {1, 3, 5, 15} \<and> k \<in> {255, 85, 51, 17}"
  by (drule below_16, elim insertE emptyE) (simp_all, presburger+)

lemma proper_divisor: "g dvd (255 :: nat) \<Longrightarrow> g < 255 \<Longrightarrow> g dvd 15 \<or> g dvd 51 \<or> g dvd 85"
proof -
  assume "g dvd 255" and lt: "g < 255"
  then obtain k where k: "255 = g * k" by (auto simp: dvd_def)
  have k': "255 = k * g" using k by (simp only: mult.commute)
  have "g < 16 \<or> k < 16" using k mult_le_mono[of 16 g 16 k] by linarith
  then have "g \<in> {1, 3, 5, 15} \<or> g \<in> {255, 85, 51, 17}"
    using small_divisor[OF k] small_divisor[OF k'] by blast
  then show ?thesis using lt by auto
qed

lemma gpow_order: "0 < d \<Longrightarrow> d < 255 \<Longrightarrow> gpow d \<noteq> 1"
proof
  assume d: "0 < d" "d < 255" and 1: "gpow d = 1"
  let ?g = "gcd d 255"
  obtain x y where xy: "d * x = 255 * y + ?g" using bezout_nat[of d 255] d by auto
  have "gpow (255 * y + ?g) = 1" using gpow_mult_1[OF 1, of x] xy by simp
  then have g1: "gpow ?g = 1" using gpow_mult_1[OF gpow_values(4), of y] by (simp add: gpow_add mul_commute[of 1])
  have "?g \<le> d" using d by (intro gcd_le1_nat) simp
  with d(2) have "?g < 255" by linarith
  from proper_divisor[OF gcd_dvd2 this] have "gpow 15 = 1 \<or> gpow 51 = 1 \<or> gpow 85 = 1"
    using gpow_mult_1[OF g1] by (metis dvdE)
  then show False by (simp add: gpow_values)
qed

lemma gpow_mod: "gpow (n mod 255) = gpow n"
proof -
  have "gpow n = gf_mul_slow (gpow (255 * (n div 255))) (gpow (n mod 255))"
    using gpow_add[of "255 * (n div 255)" "n mod 255"] by simp
  then show ?thesis using gpow_mult_1[OF gpow_values(4)] mul_commute[of 1] by simp
qed

lemma gpow_inj_le: "i \<le> j \<Longrightarrow> j < 255 \<Longrightarrow> gpow i = gpow j \<Longrightarrow> i = j"
proof (rule ccontr)
  assume le: "i \<le> j" "j < 255" and eq: "gpow i = gpow j" and ne: "i \<noteq> j"
  have "255 - i + j = 255 + (j - i)" "255 - i + i = 255" using le by simp_all
  then have "gpow (255 + (j - i)) = gpow 255"
    using gpow_add[of "255 - i" j] gpow_add[of "255 - i" i] eq by metis
  then have "gpow (j - i) = 1" unfolding gpow_add by (simp add: gpow_values mul_commute[of 1])
  moreover have "0 < j - i" "j - i < 255" using le ne by linarith+
  ultimately show False using gpow_order by blast
qed

lemma gpow_inj: "i < 255 \<Longrightarrow> j < 255 \<Longrightarrow> gpow i = gpow j \<Longrightarrow> i = j"
  using gpow_inj_le[of i j] gpow_inj_le[of j i] by (cases "i \<le> j") simp_all

lemma gpow_nonzero: "gpow n \<noteq> 0"
proof
  assume 0: "gpow n = 0"
  have "255 * n = 254 * n + n" by simp
  then have "gf_mul_slow (gpow (254 * n)) (gpow n) = 1" using gpow_mult_1[OF gpow_values(4), of n] by (simp only: gpow_add)
  then show False using 0 by simp
qed

text \<open>The powers of 3 are all the nonzero bytes, which is what the tables rely on.\<close>

lemma gpow_surj: "a \<noteq> 0 \<Longrightarrow> \<exists>n < 255. gpow n = a"
proof -
  assume "a \<noteq> 0"
  have "card (gpow ` {..<255}) = 255" by (subst card_image) (auto intro!: inj_onI gpow_inj)
  moreover have "card (UNIV - {0 :: u8}) = 255" by (simp add: card_Diff_singleton card_word)
  ultimately have "gpow ` {..<255} = UNIV - {0}"
    by (intro card_subset_eq) (auto simp: gpow_nonzero)
  then have "a \<in> gpow ` {..<255}" using \<open>a \<noteq> 0\<close> by simp
  then show ?thesis by (rule imageE) (simp only: lessThan_iff, metis)
qed

section \<open>The tables\<close>

text \<open>
  After the walk has passed the exponents below \<open>m\<close>, both tables are right on them.
\<close>

definition tables_upto :: "nat \<Rightarrow> u8 list \<Rightarrow> u8 list \<Rightarrow> bool" where
  "tables_upto m l e \<longleftrightarrow> length l = 256 \<and> length e = 256 \<and>
     (\<forall>i < m. e ! i = gpow i \<and> l ! unat (gpow i) = of_nat i)"

lemma u8_index: "unat (x :: u8) < 256"
  using unat_lt2p[of x] by simp

lemma tables_upto_step:
  assumes "tables_upto m l e" "m < 255"
  shows "tables_upto (Suc m) (l[unat (gpow m) := of_nat m]) (e[m := gpow m])"
proof -
  have "unat (gpow i) \<noteq> unat (gpow m)" if "i < m" for i
    using gpow_inj[of i m] that assms(2) by (auto simp: word_unat_eq_iff)
  then show ?thesis
    using assms by (fastforce simp: tables_upto_def less_Suc_eq u8_index nth_list_update)
qed

lemma tables_loop_upto:
  assumes "tables_upto m l e" "m + d = 255" "tables_loop [m..<m + d] (gpow m) l e = (l', e')"
  shows "tables_upto 255 l' e'"
  using assms
proof (induction d arbitrary: m l e)
  case (Suc d)
  then have m: "m < 255" by linarith
  have "tables_loop [Suc m..<Suc m + d] (gpow (Suc m)) (l[unat (gpow m) := of_nat m]) (e[m := gpow m]) = (l', e')"
    using Suc.prems(3) by (simp add: upt_conv_Cons gpow_simps del: upt_Suc)
  moreover have "Suc m + d = 255" using Suc.prems(2) by simp
  ultimately show ?case using Suc.IH[OF tables_upto_step[OF Suc.prems(1) m]] by blast
qed simp

lemma tables_correct:
  assumes "build_gf256_tables = (log_t, exp_t)" "i < 255"
  shows "exp_t ! i = gpow i" "log_t ! unat (gpow i) = of_nat i"
proof -
  obtain l e where le: "tables_loop [0..<255] 1 (replicate 256 0) (replicate 256 0) = (l, e)" by fastforce
  have "tables_upto 255 l e"
    by (rule tables_loop_upto[of 0 _ _ 255]) (use le in \<open>simp_all add: gpow_simps tables_upto_def del: upt_rec_numeral\<close>)
  then show "exp_t ! i = gpow i" "log_t ! unat (gpow i) = of_nat i"
    using assms le by (auto simp: build_gf256_tables_def tables_upto_def)
qed

lemma log_unat:
  assumes "build_gf256_tables = (log_t, exp_t)" "i < 255"
  shows "unat (log_t ! unat (gpow i)) = i"
  using tables_correct(2)[OF assms] assms(2) by (simp add: unat_of_nat take_bit_nat_def)

lemma gf_mul_tables:
  assumes T: "build_gf256_tables = (log_t, exp_t)"
  shows "gf_mul a b log_t exp_t = gf_mul_slow a b"
proof (cases "a = 0 \<or> b = 0")
  case False
  then obtain i j where ij: "i < 255" "gpow i = a" "j < 255" "gpow j = b" using gpow_surj by meson
  have "gf_mul a b log_t exp_t = exp_t ! ((i + j) mod 255)"
    using False ij log_unat[OF T, of i] log_unat[OF T, of j] by (auto simp: gf_mul_def)
  also have "\<dots> = gpow ((i + j) mod 255)" by (rule tables_correct(1)[OF T]) simp
  finally show ?thesis using ij by (simp add: gpow_mod gpow_add)
qed (auto simp: gf_mul_def)

lemma gf_div_tables:
  assumes T: "build_gf256_tables = (log_t, exp_t)" and b: "b \<noteq> 0"
  shows "\<exists>q. gf_div a b log_t exp_t = Inr q \<and> gf_mul_slow q b = a"
proof (cases "a = 0")
  case False
  then obtain i j where ij: "i < 255" "gpow i = a" "j < 255" "gpow j = b" using gpow_surj b by meson
  let ?e = "(i + 255 - j) mod 255"
  have "gf_div a b log_t exp_t = Inr (exp_t ! ?e)"
    using False b ij log_unat[OF T, of i] log_unat[OF T, of j] by (auto simp: gf_div_def)
  moreover have "exp_t ! ?e = gpow ?e" by (rule tables_correct(1)[OF T]) simp
  moreover have "gf_mul_slow (gpow ?e) b = a"
  proof -
    have "i + 255 - j + j = i + 255" using ij by simp
    then have "gf_mul_slow (gpow ?e) b = gpow (i + 255)" using ij gpow_add[of "i + 255 - j" j] by (simp only: gpow_mod)
    then show ?thesis using ij by (simp add: gpow_add gpow_values)
  qed
  ultimately show ?thesis by auto
qed (use b in \<open>auto simp: gf_div_def\<close>)

section \<open>The field\<close>

typedef gf256 = "UNIV :: u8 set"
  morphisms byte_of gf_of by simp

setup_lifting type_definition_gf256

definition byte_inverse :: "u8 \<Rightarrow> u8" where
  "byte_inverse a = ((\<lambda>x. gf_mul_slow x a) ^^ 254) 1"

lemma pow_gpow: "((\<lambda>x. gf_mul_slow x (gpow i)) ^^ n) 1 = gpow (n * i)"
  by (induction n) (simp_all add: gpow_simps gpow_add mul_commute)

lemma byte_inverse: "a \<noteq> 0 \<Longrightarrow> gf_mul_slow (byte_inverse a) a = 1"
proof -
  assume "a \<noteq> 0"
  then obtain i where i: "gpow i = a" using gpow_surj by meson
  have "gf_mul_slow (byte_inverse a) a = gpow (254 * i + i)"
    using i pow_gpow[where i = i and n = 254] by (simp only: byte_inverse_def gpow_add)
  also have "254 * i + i = 255 * i" by simp
  finally show ?thesis using gpow_mult_1[OF gpow_values(4)] by simp
qed

lemma byte_inverse_0: "byte_inverse 0 = 0"
proof -
  have "((\<lambda>x. gf_mul_slow x 0) ^^ Suc n) 1 = 0" for n by simp
  from this[of 253] show ?thesis by (simp add: byte_inverse_def)
qed

instantiation gf256 :: field
begin

lift_definition zero_gf256 :: gf256 is 0 .

lift_definition one_gf256 :: gf256 is 1 .

lift_definition plus_gf256 :: "gf256 \<Rightarrow> gf256 \<Rightarrow> gf256" is "(XOR)" .

lift_definition minus_gf256 :: "gf256 \<Rightarrow> gf256 \<Rightarrow> gf256" is "(XOR)" .

lift_definition uminus_gf256 :: "gf256 \<Rightarrow> gf256" is "\<lambda>a. a" .

lift_definition times_gf256 :: "gf256 \<Rightarrow> gf256 \<Rightarrow> gf256" is gf_mul_slow .

lift_definition inverse_gf256 :: "gf256 \<Rightarrow> gf256" is byte_inverse .

definition divide_gf256 :: "gf256 \<Rightarrow> gf256 \<Rightarrow> gf256" where
  "divide_gf256 a b = a * inverse b"

instance
proof
  fix a b c :: gf256
  show "a * b * c = a * (b * c)" by transfer (rule mul_assoc)
  show "a * b = b * a" by transfer (rule mul_commute)
  show "1 * a = a" by transfer (simp add: mul_commute[of 1])
  show "(a + b) * c = a * c + b * c" by transfer (rule mul_xor_left)
  show "a + b + c = a + (b + c)" by transfer (rule xor.assoc)
  show "a + b = b + a" by transfer (rule xor.commute)
  show "0 + a = a" by transfer simp
  show "- a + a = 0" by transfer simp
  show "a - b = a + - b" by transfer simp
  show "(0 :: gf256) \<noteq> 1" by transfer simp
  show "inverse a * a = 1" if "a \<noteq> 0" using that by transfer (rule byte_inverse)
  show "a div b = a * inverse b" by (rule divide_gf256_def)
  show "inverse (0 :: gf256) = 0" by transfer (rule byte_inverse_0)
qed

end

instance gf256 :: finite
proof
  have "gf_of ` UNIV = UNIV" by (metis gf_of_cases surj_def iso_tuple_UNIV_I)
  then show "finite (UNIV :: gf256 set)" by (metis finite_imageI finite)
qed

text \<open>The code's operations on bytes are the field's, read through \<^const>\<open>gf_of\<close>.\<close>

lemma gf_of_simps [simp]: "byte_of (gf_of a) = a" "gf_of (byte_of x) = x"
  by (simp_all add: gf_of_inverse byte_of_inverse)

lemma gf_of_eq [simp]: "gf_of a = gf_of b \<longleftrightarrow> a = b"
  by (simp add: gf_of_inject)

lemma gf_of_0: "gf_of 0 = 0"
  by (simp add: zero_gf256_def)

lemma gf_of_1: "gf_of 1 = 1"
  by (simp add: one_gf256_def)

lemma gf_of_xor: "gf_of (a XOR b) = gf_of a + gf_of b"
  by (simp add: plus_gf256.abs_eq)

lemma gf_of_minus: "gf_of a - gf_of b = gf_of (a XOR b)"
  by (simp add: minus_gf256.abs_eq)

lemma gf_of_mul: "build_gf256_tables = (log_t, exp_t) \<Longrightarrow> gf_of (gf_mul a b log_t exp_t) = gf_of a * gf_of b"
  by (simp add: gf_mul_tables times_gf256.abs_eq)

lemma gf_of_div:
  assumes "build_gf256_tables = (log_t, exp_t)" "b \<noteq> 0"
  shows "gf_div a b log_t exp_t = Inr (byte_of (gf_of a / gf_of b))"
proof -
  obtain q where q: "gf_div a b log_t exp_t = Inr q" "gf_mul_slow q b = a" using gf_div_tables[OF assms] by blast
  have "gf_of q * gf_of b = gf_of a" using q(2) by (simp add: times_gf256.abs_eq)
  moreover have "gf_of b \<noteq> 0" using assms(2) by (simp flip: gf_of_0)
  ultimately have "gf_of q = gf_of a / gf_of b" by (simp add: nonzero_eq_divide_eq)
  then show ?thesis using q(1) by (metis gf_of_simps(1))
qed

lemma uminus_gf256 [simp]: "- (x :: gf256) = x"
  by transfer simp

end
