(* ===== verification/Interpolation.thy ===== *)
theory Interpolation
  imports Main
begin

text \<open>
  Polynomials over a field as coefficient lists, lowest first: how many roots they can have, Lagrange
  interpolation at the origin, and that over a finite field the values at distinct points determine the
  coefficients. The sharing of keys in \<^verbatim>\<open>sfs-saas/src/recovery.rs\<close> is these facts over the field of bytes.
\<close>

fun peval :: "'a :: comm_ring_1 list \<Rightarrow> 'a \<Rightarrow> 'a" where
  "peval [] x = 0"
| "peval (c # cs) x = c + x * peval cs x"

section \<open>Roots\<close>

text \<open>Synthetic division by \<open>x - a\<close>.\<close>

fun sdiv :: "'a :: comm_ring_1 \<Rightarrow> 'a list \<Rightarrow> 'a list" where
  "sdiv a [] = []"
| "sdiv a [c] = []"
| "sdiv a (c # cs) = peval cs a # sdiv a cs"

lemma sdiv_length: "length (sdiv a cs) = length cs - 1"
  by (induction a cs rule: sdiv.induct) auto

lemma sdiv: "peval cs x = peval cs a + (x - a) * peval (sdiv a cs) x"
proof (induction a cs rule: sdiv.induct)
  case (3 a c v va)
  have "peval (c # v # va) x = c + x * (peval (v # va) a + (x - a) * peval (sdiv a (v # va)) x)"
    using 3 by (simp only: peval.simps)
  then show ?case by (simp add: algebra_simps)
qed simp_all

lemma sdiv_zero: "set (sdiv a cs) \<subseteq> {0} \<Longrightarrow> peval cs a = 0 \<Longrightarrow> set cs \<subseteq> {0}"
  by (induction a cs rule: sdiv.induct) auto

lemma peval_zero: "set cs \<subseteq> {0} \<Longrightarrow> peval cs x = 0"
  by (induction cs) auto

lemma many_roots:
  fixes cs :: "'a :: idom list"
  assumes "finite A" "length cs \<le> card A" "\<And>a. a \<in> A \<Longrightarrow> peval cs a = 0"
  shows "set cs \<subseteq> {0}"
  using assms
proof (induction A arbitrary: cs)
  case (insert a A)
  have "peval (sdiv a cs) b = 0" if "b \<in> A" for b
  proof -
    have "(b - a) * peval (sdiv a cs) b = 0" using sdiv[of cs b a] insert.prems(2)[of a] insert.prems(2)[of b] that by simp
    moreover have "b \<noteq> a" using that insert.hyps by auto
    ultimately show ?thesis by simp
  qed
  then have "set (sdiv a cs) \<subseteq> {0}"
    using insert.IH[of "sdiv a cs"] insert.prems(1) insert.hyps by (simp add: sdiv_length)
  then show ?case using insert.prems(2)[of a] sdiv_zero by blast
qed simp

section \<open>Coefficients are determined by values\<close>

definition pdiff :: "'a :: comm_ring_1 list \<Rightarrow> 'a list \<Rightarrow> 'a list" where
  "pdiff cs ds = map2 (-) cs ds"

lemma pdiff_peval: "length cs = length ds \<Longrightarrow> peval (pdiff cs ds) x = peval cs x - peval ds x"
proof (induction cs ds rule: list_induct2)
  case (Cons c cs d ds)
  have "peval (pdiff (c # cs) (d # ds)) x = c - d + x * (peval cs x - peval ds x)"
    using Cons by (simp add: pdiff_def)
  then show ?case by (simp add: algebra_simps)
qed (simp add: pdiff_def)

lemma pdiff_zero: "length cs = length ds \<Longrightarrow> set (pdiff cs ds) \<subseteq> {0} \<Longrightarrow> cs = ds"
  by (induction cs ds rule: list_induct2) (auto simp: pdiff_def)

lemma peval_inj:
  fixes cs :: "'a :: idom list"
  assumes "distinct xs" "length cs = length xs" "length ds = length xs" "map (peval cs) xs = map (peval ds) xs"
  shows "cs = ds"
proof (rule pdiff_zero)
  show "length cs = length ds" using assms by simp
  then show "set (pdiff cs ds) \<subseteq> {0}"
    using assms by (intro many_roots[of "set xs"]) (auto simp: pdiff_def distinct_card pdiff_peval[unfolded pdiff_def])
qed

lemma interpolates:
  fixes xs :: "'a :: {finite, idom} list"
  assumes "distinct xs" "length ys = length xs"
  shows "\<exists>!cs. length cs = length xs \<and> map (peval cs) xs = ys"
proof -
  let ?L = "{cs :: 'a list. set cs \<subseteq> UNIV \<and> length cs = length xs}"
  let ?f = "\<lambda>cs. map (peval cs) xs"
  have "?f ` ?L = ?L"
  proof (rule endo_inj_surj)
    show "finite ?L" by (rule finite_lists_length_eq) simp
    show "inj_on ?f ?L" using peval_inj[OF assms(1)] by (intro inj_onI) auto
  qed auto
  moreover have "ys \<in> ?L" using assms(2) by simp
  ultimately have "ys \<in> ?f ` ?L" by simp
  then obtain cs where "length cs = length xs" "?f cs = ys" by auto
  then show ?thesis using peval_inj[OF assms(1)] by (intro ex1I[of _ cs]) auto
qed

section \<open>Lagrange interpolation\<close>

text \<open>Functions given by at most \<open>n\<close> coefficients.\<close>

definition is_poly :: "nat \<Rightarrow> ('a :: comm_ring_1 \<Rightarrow> 'a) \<Rightarrow> bool" where
  "is_poly n p \<longleftrightarrow> (\<exists>cs. length cs = n \<and> p = peval cs)"

fun padd :: "'a :: comm_ring_1 list \<Rightarrow> 'a list \<Rightarrow> 'a list" where
  "padd [] ds = ds"
| "padd cs [] = cs"
| "padd (c # cs) (d # ds) = (c + d) # padd cs ds"

lemma padd:
  "peval (padd cs ds) x = peval cs x + peval ds x" "length (padd cs ds) = max (length cs) (length ds)"
  by (induction cs ds rule: padd.induct) (simp_all add: distrib_left)

lemma peval_map: "peval (map ((*) c) cs) x = c * peval cs x"
  by (induction cs) (auto simp: algebra_simps)

lemma is_poly_add:
  fixes p q :: "'a :: comm_ring_1 \<Rightarrow> 'a"
  shows "is_poly n p \<Longrightarrow> is_poly n q \<Longrightarrow> is_poly n (\<lambda>x. p x + q x)"
  unfolding is_poly_def
proof (elim exE conjE)
  fix cs ds :: "'a list"
  assume "length cs = n" "p = peval cs" "length ds = n" "q = peval ds"
  then show "\<exists>es. length es = n \<and> (\<lambda>x. p x + q x) = peval es"
    by (intro exI[of _ "padd cs ds"]) (simp add: padd fun_eq_iff)
qed

lemma is_poly_zero: "is_poly n (\<lambda>x :: 'a :: comm_ring_1. 0)"
proof -
  have "peval (replicate n 0) x = 0" for x :: 'a by (rule peval_zero) auto
  then show ?thesis unfolding is_poly_def by (intro exI[of _ "replicate n 0"]) auto
qed

lemma is_poly_cmult:
  fixes p :: "'a :: comm_ring_1 \<Rightarrow> 'a"
  shows "is_poly n p \<Longrightarrow> is_poly n (\<lambda>x. c * p x)"
  unfolding is_poly_def
proof (elim exE conjE)
  fix cs :: "'a list"
  assume "length cs = n" "p = peval cs"
  then show "\<exists>es. length es = n \<and> (\<lambda>x. c * p x) = peval es"
    by (intro exI[of _ "map ((*) c) cs"]) (simp add: peval_map fun_eq_iff)
qed

lemma is_poly_linear: "is_poly n p \<Longrightarrow> is_poly (Suc n) (\<lambda>x. (a - x) * p x)"
proof -
  assume "is_poly n p"
  then obtain cs where cs: "length cs = n" "p = peval cs" unfolding is_poly_def by blast
  have "(a - x) * peval cs x = peval (padd (map ((*) a) cs) (0 # map ((*) (- 1)) cs)) x" for x
    by (simp add: padd peval_map algebra_simps)
  moreover have "length (padd (map ((*) a) cs) (0 # map ((*) (- 1)) cs)) = Suc n" using cs by (simp add: padd)
  ultimately show ?thesis unfolding is_poly_def cs(2) by (intro exI conjI) (assumption, simp)
qed

lemma is_poly_sum: "(\<And>i. i \<in> I \<Longrightarrow> is_poly n (f i)) \<Longrightarrow> is_poly n (\<lambda>x. \<Sum>i\<in>I. f i x)"
  by (induction I rule: infinite_finite_induct) (simp_all add: is_poly_zero is_poly_add)

lemma is_poly_prod: "finite J \<Longrightarrow> is_poly (Suc (card J)) (\<lambda>x. \<Prod>j\<in>J. a j - x)"
proof (induction J rule: finite_induct)
  case empty
  show ?case unfolding is_poly_def by (rule exI[of _ "[1]"]) auto
qed (simp add: is_poly_linear)

definition lagrange_basis :: "'a :: field set \<Rightarrow> 'a \<Rightarrow> 'a \<Rightarrow> 'a" where
  "lagrange_basis A a x = (\<Prod>b\<in>A - {a}. b - x) / (\<Prod>b\<in>A - {a}. b - a)"

lemma lagrange_basis_at:
  assumes "finite A" "b \<in> A"
  shows "lagrange_basis A a b = (if a = b then 1 else 0)"
proof (cases "a = b")
  case True
  have "(\<Prod>c\<in>A - {a}. c - a) \<noteq> 0" using assms by auto
  then show ?thesis using True by (simp add: lagrange_basis_def)
next
  case False
  then have "(\<Prod>c\<in>A - {a}. c - b) = 0" using assms by (intro prod_zero) auto
  then show ?thesis using False by (simp add: lagrange_basis_def)
qed

lemma is_poly_basis: "finite A \<Longrightarrow> a \<in> A \<Longrightarrow> is_poly (card A) (lagrange_basis A a)"
proof -
  assume A: "finite A" "a \<in> A"
  have "Suc (card (A - {a})) = card A" using card_Suc_Diff1[OF A] .
  moreover have "lagrange_basis A a = (\<lambda>x. inverse (\<Prod>b\<in>A - {a}. b - a) * (\<Prod>b\<in>A - {a}. b - x))"
    by (auto simp: lagrange_basis_def divide_inverse mult.commute)
  ultimately show ?thesis using is_poly_cmult[OF is_poly_prod[of "A - {a}" "\<lambda>b. b"]] A by simp
qed

theorem lagrange:
  fixes A :: "'a :: field set"
  assumes A: "finite A" and p: "length cs \<le> card A"
  shows "(\<Sum>a\<in>A. peval cs a * lagrange_basis A a x) = peval cs x"
proof -
  let ?q = "\<lambda>x. \<Sum>a\<in>A. peval cs a * lagrange_basis A a x"
  have "is_poly (card A) ?q" using A by (intro is_poly_sum is_poly_cmult is_poly_basis)
  then obtain ds where ds: "length ds = card A" "?q = peval ds" unfolding is_poly_def by blast
  have q: "?q y = peval ds y" for y using fun_cong[OF ds(2), of y] .
  let ?d = "padd cs (map ((*) (- 1)) ds)"
  have d: "peval ?d y = peval cs y - peval ds y" for y by (simp add: padd peval_map)
  have "?q a = peval cs a" if "a \<in> A" for a
  proof -
    have "?q a = (\<Sum>b\<in>A. if b = a then peval cs a else 0)"
      by (rule sum.cong) (simp_all add: lagrange_basis_at[OF A that])
    then show ?thesis using A that by simp
  qed
  then have r: "peval ?d a = 0" if "a \<in> A" for a using that unfolding d q by simp
  have "length ?d \<le> card A" using p ds(1) by (simp add: padd(2))
  then have "peval ?d x = 0" by (rule peval_zero[OF many_roots[OF A]]) (rule r)
  then show ?thesis unfolding d q by simp
qed

end
