(* ===== verification/Shamir.thy ===== *)
theory Shamir
  imports GF256 Interpolation Crypto
begin

unbundle bit_operations_syntax

text \<open>
  Splitting a key into shares and putting it together again, from \<^verbatim>\<open>sfs-saas/src/recovery.rs\<close>. The
  random generator is a parameter: \<open>rng p\<close> is the \<open>p\<close>-th number it returns. The theorems are the two
  promises of the scheme: \<open>k\<close> shares give the secret back, and fewer tell nothing about it.
\<close>

section \<open>The code\<close>

record share =
  sh_x :: u8
  sh_y :: bytes

datatype recovery_error =
    InsufficientShares
  | InconsistentShares
  | DuplicateShares
  | AeadFailure error
  | RecoveryPanic error

definition gf_poly_eval :: "u8 list \<Rightarrow> u8 \<Rightarrow> u8 list \<Rightarrow> u8 list \<Rightarrow> u8" where
  "gf_poly_eval coefficients x log_t exp_t =
     foldl (\<lambda>res coeff. gf_mul res x log_t exp_t XOR coeff) 0 (rev coefficients)"

definition draw_coefficients :: "(nat \<Rightarrow> u32) \<Rightarrow> nat \<Rightarrow> nat \<Rightarrow> u8 list" where
  "draw_coefficients rng pos m = map (\<lambda>i. ucast (rng (pos + i))) [0..<m]"

fun split_loop :: "(nat \<Rightarrow> u32) \<Rightarrow> nat \<Rightarrow> u8 list \<Rightarrow> u8 list \<Rightarrow> nat \<Rightarrow> nat \<Rightarrow> bytes \<Rightarrow> share list \<Rightarrow> share list" where
  "split_loop rng k log_t exp_t pos byte_idx [] shares = shares"
| "split_loop rng k log_t exp_t pos byte_idx (s # secret) shares =
     (let coefficients = s # draw_coefficients rng pos (k - 1)
      in split_loop rng k log_t exp_t (pos + (k - 1)) (byte_idx + 1) secret
           (map (\<lambda>sh. sh\<lparr>sh_y := (sh_y sh)[byte_idx := gf_poly_eval coefficients (sh_x sh) log_t exp_t]\<rparr>) shares))"

definition split_secret :: "(nat \<Rightarrow> u32) \<Rightarrow> bytes \<Rightarrow> u8 \<Rightarrow> u8 \<Rightarrow> share list result" where
  "split_secret rng secret k n =
     (if unat k < 1 then Inl (Panic ''k must be at least 1'')
      else if \<not> k \<le> n then Inl (Panic ''k must be <= n'')
      else let (log_t, exp_t) = build_gf256_tables;
               shares = map (\<lambda>x. \<lparr>sh_x = of_nat x, sh_y = replicate (length secret) 0\<rparr>) [1..<unat n + 1]
           in Inr (split_loop rng (unat k) log_t exp_t 0 0 secret shares))"

fun has_duplicate :: "share list \<Rightarrow> bool" where
  "has_duplicate [] = False"
| "has_duplicate (s # shares) = (list_ex (\<lambda>t. sh_x s = sh_x t) shares \<or> has_duplicate shares)"

text \<open>Numerator and denominator of the basis polynomial of the share at index \<open>i\<close>.\<close>

definition basis_fraction :: "nat \<Rightarrow> u8 \<Rightarrow> share list \<Rightarrow> u8 list \<Rightarrow> u8 list \<Rightarrow> u8 \<times> u8" where
  "basis_fraction i xi shares log_t exp_t =
     foldl (\<lambda>(num, den) (j, share_j).
         if i = j then (num, den)
         else (gf_mul num (sh_x share_j) log_t exp_t, gf_mul den (xi XOR sh_x share_j) log_t exp_t))
       (1, 1) (enumerate 0 shares)"

fun combine_byte :: "share list \<Rightarrow> nat \<Rightarrow> u8 list \<Rightarrow> u8 list \<Rightarrow> (nat \<times> share) list \<Rightarrow> u8 \<Rightarrow> u8 result" where
  "combine_byte shares byte_idx log_t exp_t [] res = Inr res"
| "combine_byte shares byte_idx log_t exp_t ((i, share_i) # rest) res =
     (let (num, den) = basis_fraction i (sh_x share_i) shares log_t exp_t
      in bind_r (gf_div num den log_t exp_t) (\<lambda>basis.
           combine_byte shares byte_idx log_t exp_t rest
             (res XOR gf_mul (sh_y share_i ! byte_idx) basis log_t exp_t)))"

fun combine_loop :: "share list \<Rightarrow> u8 list \<Rightarrow> u8 list \<Rightarrow> nat list \<Rightarrow> bytes result" where
  "combine_loop shares log_t exp_t [] = Inr []"
| "combine_loop shares log_t exp_t (byte_idx # rest) =
     bind_r (combine_byte shares byte_idx log_t exp_t (enumerate 0 shares) 0) (\<lambda>b.
       bind_r (combine_loop shares log_t exp_t rest) (\<lambda>bs. Inr (b # bs)))"

definition combine_secret :: "share list \<Rightarrow> recovery_error + bytes" where
  "combine_secret shares =
     (if shares = [] then Inl InsufficientShares
      else let secret_len = length (sh_y (hd shares)) in
           if list_ex (\<lambda>s. length (sh_y s) \<noteq> secret_len) shares then Inl InconsistentShares
           else if has_duplicate shares then Inl DuplicateShares
           else let (log_t, exp_t) = build_gf256_tables in
                case combine_loop shares log_t exp_t [0..<secret_len] of
                  Inl e \<Rightarrow> Inl (RecoveryPanic e)
                | Inr secret \<Rightarrow> Inr secret)"

section \<open>Evaluation\<close>

abbreviation gfs :: "bytes \<Rightarrow> gf256 list" where
  "gfs \<equiv> map gf_of"

lemma gf_poly_eval:
  assumes T: "build_gf256_tables = (log_t, exp_t)"
  shows "gf_of (gf_poly_eval cs x log_t exp_t) = peval (gfs cs) (gf_of x)"
proof (induction cs)
  case (Cons c cs)
  have "gf_poly_eval (c # cs) x log_t exp_t = gf_mul (gf_poly_eval cs x log_t exp_t) x log_t exp_t XOR c"
    by (simp add: gf_poly_eval_def)
  then show ?case using Cons by (simp add: gf_of_xor gf_of_mul[OF T] mult.commute add.commute)
qed (simp add: gf_poly_eval_def gf_of_0)

section \<open>What a split gives out\<close>

definition share_bytes :: "(nat \<Rightarrow> u32) \<Rightarrow> nat \<Rightarrow> u8 list \<Rightarrow> u8 list \<Rightarrow> bytes \<Rightarrow> u8 \<Rightarrow> bytes" where
  "share_bytes rng k log_t exp_t secret x =
     map (\<lambda>i. gf_poly_eval (secret ! i # draw_coefficients rng (i * (k - 1)) (k - 1)) x log_t exp_t) [0..<length secret]"

lemma split_loop_nth:
  assumes "i < length shares" "length (sh_y (shares ! i)) = b + length secret"
  shows "split_loop rng k log_t exp_t pos b secret shares ! i =
     (shares ! i)\<lparr>sh_y := take b (sh_y (shares ! i)) @
        map (\<lambda>j. gf_poly_eval (secret ! j # draw_coefficients rng (pos + j * (k - 1)) (k - 1)) (sh_x (shares ! i)) log_t exp_t)
          [0..<length secret]\<rparr>"
  using assms
proof (induction secret arbitrary: pos b shares)
  case (Cons s secret)
  have "[0..<length (s # secret)] = 0 # map Suc [0..<length secret]" by (simp add: upt_conv_Cons map_Suc_upt del: upt_Suc)
  then show ?case using Cons by (simp add: Let_def take_Suc_conv_app_nth add.assoc)
qed simp

lemma split_loop_length: "length (split_loop rng k log_t exp_t pos b secret shares) = length shares"
  by (induction secret arbitrary: pos b shares) (simp_all add: Let_def)

lemma split_secret_shares:
  assumes T: "build_gf256_tables = (log_t, exp_t)" and s: "split_secret rng secret k n = Inr shares"
  shows "length shares = unat n"
    and "i < unat n \<Longrightarrow> shares ! i = \<lparr>sh_x = of_nat (i + 1), sh_y = share_bytes rng (unat k) log_t exp_t secret (of_nat (i + 1))\<rparr>"
    and "1 \<le> unat k" "unat k \<le> unat n"
proof -
  let ?init = "map (\<lambda>x. \<lparr>sh_x = of_nat x, sh_y = replicate (length secret) 0\<rparr>) [1..<unat n + 1]"
  have sh: "shares = split_loop rng (unat k) log_t exp_t 0 0 secret ?init" and "1 \<le> unat k" "k \<le> n"
    using s unfolding split_secret_def Let_def T by (auto simp del: upt_Suc split: if_splits)
  then show "length shares = unat n" "1 \<le> unat k" "unat k \<le> unat n"
    by (simp_all add: split_loop_length word_le_nat_alt)
  assume i: "i < unat n"
  then have "?init ! i = \<lparr>sh_x = of_nat (i + 1), sh_y = replicate (length secret) 0\<rparr>"
    by (subst nth_map) (simp_all del: upt_Suc add: nth_upt)
  then show "shares ! i = \<lparr>sh_x = of_nat (i + 1), sh_y = share_bytes rng (unat k) log_t exp_t secret (of_nat (i + 1))\<rparr>"
    unfolding sh using i by (subst split_loop_nth) (simp_all del: upt_Suc add: share_bytes_def)
qed

section \<open>Reconstruction\<close>

abbreviation gx :: "share \<Rightarrow> gf256" where
  "gx s \<equiv> gf_of (sh_x s)"

lemma has_duplicate: "has_duplicate shares \<longleftrightarrow> \<not> distinct (map sh_x shares)"
  by (induction shares) (auto simp: list_ex_iff)

lemma distinct_gx: "distinct (map sh_x shares) \<Longrightarrow> distinct (map gx shares)"
  by (induction shares) auto

text \<open>Skipping the index of a share is skipping its coordinate.\<close>

lemma skip_index:
  assumes "distinct (map sh_x shares)" "(i, s) \<in> set (enumerate 0 shares)" "(j, t) \<in> set (enumerate 0 shares)"
  shows "i = j \<longleftrightarrow> sh_x t = sh_x s"
  using assms by (auto simp: in_set_enumerate_eq distinct_conv_nth)

lemma basis_foldl:
  assumes T: "build_gf256_tables = (log_t, exp_t)"
    and skip: "\<And>j t. (j, t) \<in> set ts \<Longrightarrow> i = j \<longleftrightarrow> sh_x t = x"
    and r: "foldl (\<lambda>(num, den) (j, share_j).
         if i = j then (num, den)
         else (gf_mul num (sh_x share_j) log_t exp_t, gf_mul den (x XOR sh_x share_j) log_t exp_t)) (a, b) ts = (num, den)"
  shows "gf_of num = gf_of a * (\<Prod>y\<leftarrow>filter ((\<noteq>) (gf_of x)) (map (gx \<circ> snd) ts). y)
       \<and> gf_of den = gf_of b * (\<Prod>y\<leftarrow>filter ((\<noteq>) (gf_of x)) (map (gx \<circ> snd) ts). y - gf_of x)"
  using skip r
proof (induction ts arbitrary: a b)
  case (Cons jt ts)
  obtain j t where jt: "jt = (j, t)" by (cases jt)
  note IH = Cons.IH[OF Cons.prems(1), OF list.set_intros(2)]
  show ?case
  proof (cases "i = j")
    case True
    then show ?thesis using IH[of a b] Cons.prems(1)[of j t] Cons.prems(2) jt by auto
  next
    case False
    then have ne: "gf_of x \<noteq> gx t" using Cons.prems(1)[of j t] jt by auto
    have x: "gf_of (x XOR sh_x t) = gx t - gf_of x" by (simp add: gf_of_minus xor.commute)
    show ?thesis
      using IH[of "gf_mul a (sh_x t) log_t exp_t" "gf_mul b (x XOR sh_x t) log_t exp_t"] Cons.prems(2) jt False ne
      by (simp add: gf_of_mul[OF T] x mult.assoc)
  qed
qed simp

lemma basis_fraction:
  assumes T: "build_gf256_tables = (log_t, exp_t)" and d: "distinct (map sh_x shares)"
    and i: "(i, s) \<in> set (enumerate 0 shares)"
  shows "\<exists>basis. (case basis_fraction i (sh_x s) shares log_t exp_t of (num, den) \<Rightarrow> gf_div num den log_t exp_t) = Inr basis
       \<and> gf_of basis = lagrange_basis (gx ` set shares) (gx s) 0"
proof -
  let ?A = "gx ` set shares - {gx s}"
  obtain num den where nd: "basis_fraction i (sh_x s) shares log_t exp_t = (num, den)" by fastforce
  let ?ys = "filter ((\<noteq>) (gx s)) (map gx shares)"
  have "gf_of num = (\<Prod>y\<leftarrow>?ys. y) \<and> gf_of den = (\<Prod>y\<leftarrow>?ys. y - gx s)"
    using basis_foldl[OF T skip_index[OF d i] nd[unfolded basis_fraction_def]]
    by (simp add: gf_of_1 flip: map_map)
  moreover have "distinct ?ys" "set ?ys = ?A" using distinct_gx[OF d] by (auto simp: image_iff)
  ultimately have n: "gf_of num = (\<Prod>y\<in>?A. y)" "gf_of den = (\<Prod>y\<in>?A. y - gx s)"
    by (metis prod.distinct_set_conv_list)+
  have "gf_of den \<noteq> 0" unfolding n(2) by (subst prod_zero_iff) auto
  then have "den \<noteq> 0" using gf_of_0 by auto
  then show ?thesis using nd n gf_of_div[OF T, of den num] by (simp add: lagrange_basis_def)
qed

lemma combine_byte:
  assumes T: "build_gf256_tables = (log_t, exp_t)" and d: "distinct (map sh_x shares)"
    and "set ts \<subseteq> set (enumerate 0 shares)"
  shows "\<exists>b. combine_byte shares idx log_t exp_t ts res = Inr b
    \<and> gf_of b = gf_of res + (\<Sum>s\<leftarrow>map snd ts. gf_of (sh_y s ! idx) * lagrange_basis (gx ` set shares) (gx s) 0)"
  using assms(3)
proof (induction ts arbitrary: res)
  case (Cons t ts)
  obtain i s where t: "t = (i, s)" by (cases t)
  obtain num den where nd: "basis_fraction i (sh_x s) shares log_t exp_t = (num, den)" by fastforce
  then obtain basis where b: "gf_div num den log_t exp_t = Inr basis" "gf_of basis = lagrange_basis (gx ` set shares) (gx s) 0"
    using basis_fraction[OF T d, of i s] Cons.prems t by auto
  show ?case
    using Cons.IH[of "res XOR gf_mul (sh_y s ! idx) basis log_t exp_t"] Cons.prems nd b t
    by (simp add: gf_of_xor gf_of_mul[OF T] add.assoc)
qed simp

text \<open>Shares that lie on one polynomial give its constant term.\<close>

lemma combine_byte_poly:
  assumes T: "build_gf256_tables = (log_t, exp_t)" and d: "distinct (map sh_x shares)"
    and y: "\<And>s. s \<in> set shares \<Longrightarrow> sh_y s ! idx = gf_poly_eval (c # cs) (sh_x s) log_t exp_t"
    and len: "length cs < length shares"
  shows "combine_byte shares idx log_t exp_t (enumerate 0 shares) 0 = Inr c"
proof -
  let ?A = "gx ` set shares"
  let ?f = "\<lambda>a. peval (gfs (c # cs)) a * lagrange_basis ?A a 0"
  obtain b where b: "combine_byte shares idx log_t exp_t (enumerate 0 shares) 0 = Inr b"
    "gf_of b = (\<Sum>s\<leftarrow>shares. gf_of (sh_y s ! idx) * lagrange_basis ?A (gx s) 0)"
    using combine_byte[OF T d subset_refl, of idx 0] by (auto simp: gf_of_0)
  have "card ?A = length shares" using distinct_card[OF distinct_gx[OF d]] by simp
  then have "(\<Sum>a\<in>?A. ?f a) = peval (gfs (c # cs)) 0" using len by (intro lagrange) simp_all
  moreover have "gf_of b = (\<Sum>a\<leftarrow>map gx shares. ?f a)"
    unfolding b(2) map_map by (rule arg_cong[of _ _ sum_list], rule map_cong) (simp_all add: y gf_poly_eval[OF T])
  moreover have "(\<Sum>a\<leftarrow>map gx shares. ?f a) = (\<Sum>a\<in>?A. ?f a)"
    using sum.distinct_set_conv_list[OF distinct_gx[OF d], of ?f] by simp
  ultimately have "gf_of b = gf_of c" by simp
  then show ?thesis using b(1) by simp
qed

lemma combine_loop_poly:
  assumes T: "build_gf256_tables = (log_t, exp_t)" and d: "distinct (map sh_x shares)"
    and y: "\<And>s idx. s \<in> set shares \<Longrightarrow> idx \<in> set is \<Longrightarrow> sh_y s ! idx = gf_poly_eval (f idx # g idx) (sh_x s) log_t exp_t"
    and len: "\<And>idx. length (g idx) < length shares"
  shows "combine_loop shares log_t exp_t is = Inr (map f is)"
  using y
proof (induction "is")
  case (Cons i "is")
  have "combine_byte shares i log_t exp_t (enumerate 0 shares) 0 = Inr (f i)"
    using Cons.prems by (intro combine_byte_poly[OF T d _ len[of i]]) simp
  then show ?case using Cons by simp
qed simp

lemma share_coordinate: "i < 255 \<Longrightarrow> j < 255 \<Longrightarrow> (of_nat (i + 1) :: u8) = of_nat (j + 1) \<longleftrightarrow> i = j"
proof -
  have "unat (of_nat (m + 1) :: u8) = m + 1" if "m < 255" for m using that by (intro unat_of_nat_less) simp
  then show "i < 255 \<Longrightarrow> j < 255 \<Longrightarrow> (of_nat (i + 1) :: u8) = of_nat (j + 1) \<longleftrightarrow> i = j" by (metis add_right_cancel)
qed

lemma u8_bound: "unat (n :: u8) \<le> 255"
  using unat_lt2p[of n] by simp

lemma split_share:
  assumes T: "build_gf256_tables = (log_t, exp_t)" and s: "split_secret rng secret k n = Inr shares" and "sh \<in> set shares"
  shows "sh_y sh = share_bytes rng (unat k) log_t exp_t secret (sh_x sh)"
    "\<And>t. t \<in> set shares \<Longrightarrow> sh_x sh = sh_x t \<Longrightarrow> sh = t"
proof -
  note S = split_secret_shares[OF T s]
  obtain i where i: "i < unat n" "sh = shares ! i" using assms(3) S(1) by (auto simp: in_set_conv_nth)
  then show y: "sh_y sh = share_bytes rng (unat k) log_t exp_t secret (sh_x sh)" using S(2) by simp
  fix t assume "t \<in> set shares" "sh_x sh = sh_x t"
  moreover from this obtain j where "j < unat n" "t = shares ! j" using S(1) by (auto simp: in_set_conv_nth)
  ultimately show "sh = t" using i S(2) by simp
qed

text \<open>C23. Shamir reconstruction: whatever the random generator returns, any list of at least \<open>k\<close> different
  shares of a split, in any order, combines to the secret that was split.\<close>

theorem shares_reconstruct:
  assumes s: "split_secret rng secret k n = Inr shares"
    and ss: "set ss \<subseteq> set shares" "distinct ss" "unat k \<le> length ss"
  shows "combine_secret ss = Inr secret"
proof -
  obtain log_t exp_t where T: "build_gf256_tables = (log_t, exp_t)" by fastforce
  note S = split_secret_shares[OF T s]
  have y: "sh_y sh = share_bytes rng (unat k) log_t exp_t secret (sh_x sh)" if "sh \<in> set ss" for sh
    using split_share(1)[OF T s] that ss(1) by blast
  have d: "distinct (map sh_x ss)"
    using split_share(2)[OF T s] ss by (auto simp: distinct_map intro!: inj_onI)
  have ne: "ss \<noteq> []" using ss(3) S(3) by auto
  have l: "length (sh_y sh) = length secret" if "sh \<in> set ss" for sh using y[OF that] by (simp add: share_bytes_def)
  have "combine_loop ss log_t exp_t [0..<length secret] = Inr (map (\<lambda>i. secret ! i) [0..<length secret])"
    by (rule combine_loop_poly[OF T d, where g = "\<lambda>i. draw_coefficients rng (i * (unat k - 1)) (unat k - 1)"])
       (use y ss(3) S(3) in \<open>auto simp: share_bytes_def draw_coefficients_def\<close>)
  then show ?thesis
    using ne l hd_in_set[OF ne] d unfolding combine_secret_def T by (auto simp: Let_def has_duplicate map_nth list_ex_iff)
qed

lemma split_secret_ok: "1 \<le> unat k \<Longrightarrow> k \<le> n \<Longrightarrow> \<exists>shares. split_secret rng secret k n = Inr shares"
  by (auto simp: split_secret_def Let_def split: prod.split)

theorem shares_reconstruct_witness:
  "\<exists>shares. split_secret (\<lambda>_. 7) [42, 17] 2 3 = Inr shares \<and> combine_secret [shares ! 2, shares ! 0] = Inr [42, 17]"
proof -
  obtain log_t exp_t where T: "build_gf256_tables = (log_t, exp_t)" by fastforce
  obtain shares where s: "split_secret (\<lambda>_. 7) [42, 17] 2 3 = Inr shares" using split_secret_ok[of 2 3] by auto
  note S = split_secret_shares[OF T s]
  have "combine_secret [shares ! 2, shares ! 0] = Inr [42, 17]"
    by (rule shares_reconstruct[OF s]) (use nth_mem[of 0 shares] nth_mem[of 2 shares] S(1) S(2)[of 0] S(2)[of 2] in auto)
  with s show ?thesis by blast
qed

section \<open>Secrecy\<close>

lemma gfs_bytes: "gfs (map byte_of cs) = cs" "map byte_of (gfs bs) = bs"
  by (simp_all add: o_def)

text \<open>Fewer values than coefficients leave the constant term open: every candidate is explained by exactly one
  choice of the others.\<close>

lemma unique_explanation:
  assumes T: "build_gf256_tables = (log_t, exp_t)"
    and xs: "distinct xs" "0 \<notin> set xs" "length ys = length xs"
  shows "\<exists>!cs. length cs = length xs \<and> map (\<lambda>x. gf_poly_eval (c # cs) x log_t exp_t) xs = ys"
proof -
  let ?P = "\<lambda>ds. length ds = length (0 # gfs xs) \<and> map (peval ds) (0 # gfs xs) = gf_of c # gfs ys"
  have "distinct (0 # gfs xs)" using xs by (auto simp: distinct_map inj_on_def simp flip: gf_of_0)
  then have P: "\<exists>!ds. ?P ds" by (rule interpolates) (simp add: xs(3))
  have iff: "length cs = length xs \<and> map (\<lambda>x. gf_poly_eval (c # cs) x log_t exp_t) xs = ys \<longleftrightarrow> ?P (gfs (c # cs))" for cs
  proof -
    have "map (peval (gfs (c # cs))) (gfs xs) = gfs (map (\<lambda>x. gf_poly_eval (c # cs) x log_t exp_t) xs)"
      by (simp add: gf_poly_eval[OF T] o_def)
    moreover have "gfs as = gfs bs \<longleftrightarrow> as = bs" for as bs by (metis gfs_bytes(2))
    moreover have "map (peval (gfs (c # cs))) (0 # gfs xs) = gf_of c # gfs ys \<longleftrightarrow> map (peval (gfs (c # cs))) (gfs xs) = gfs ys"
      by simp
    ultimately show ?thesis by (simp only: length_map list.size add_right_cancel)
  qed
  obtain d ds where dds: "?P (d # ds)" using P by (metis length_0_conv list.distinct(1) neq_Nil_conv)
  then have "d = gf_of c" by simp
  then have e: "d # ds = gfs (c # map byte_of ds)" by (simp add: o_def)
  show ?thesis
  proof (rule ex1I[of _ "map byte_of ds"])
    show "length (map byte_of ds) = length xs \<and> map (\<lambda>x. gf_poly_eval (c # map byte_of ds) x log_t exp_t) xs = ys"
      unfolding iff using dds e by simp
    fix cs assume "length cs = length xs \<and> map (\<lambda>x. gf_poly_eval (c # cs) x log_t exp_t) xs = ys"
    then have "gfs (c # cs) = gfs (c # map byte_of ds)" unfolding iff using P dds e by metis
    then show "cs = map byte_of ds" by (metis gfs_bytes(2) list.inject)
  qed
qed

text \<open>The random numbers that give the coefficients \<open>f i\<close> to the byte at \<open>i\<close>.\<close>

definition rng_of :: "nat \<Rightarrow> (nat \<Rightarrow> bytes) \<Rightarrow> nat \<Rightarrow> u32" where
  "rng_of m f p = ucast (f (p div m) ! (p mod m))"

lemma draw_rng_of: "length (f i) = m \<Longrightarrow> draw_coefficients (rng_of m f) (i * m) m = f i"
proof (rule nth_equalityI)
  fix j assume "length (f i) = m" "j < length (draw_coefficients (rng_of m f) (i * m) m)"
  then show "draw_coefficients (rng_of m f) (i * m) m ! j = f i ! j"
    by (auto simp: draw_coefficients_def rng_of_def unsigned_ucast_eq take_bit_word_eq_self)
qed (simp add: draw_coefficients_def)

lemma draw_eq:
  assumes "\<And>i. i < l \<Longrightarrow> draw_coefficients r (i * m) m = draw_coefficients r' (i * m) m" "p < m * l"
  shows "ucast (r p) = (ucast (r' p) :: u8)"
proof -
  have m: "p div m < l" "p mod m < m" using assms(2) by (cases m; simp add: less_mult_imp_div_less mult.commute)+
  have "draw_coefficients r (p div m * m) m ! (p mod m) = draw_coefficients r' (p div m * m) m ! (p mod m)"
    using assms(1)[OF m(1)] by simp
  then show ?thesis using m(2) by (simp add: draw_coefficients_def)
qed

lemma share_bytes_eq_iff:
  assumes "length s = length t"
  shows "share_bytes r k l e s x = share_bytes r' k l e t x \<longleftrightarrow>
    (\<forall>i < length s. gf_poly_eval (s ! i # draw_coefficients r (i * (k - 1)) (k - 1)) x l e
                  = gf_poly_eval (t ! i # draw_coefficients r' (i * (k - 1)) (k - 1)) x l e)"
  using assms by (auto simp: share_bytes_def)

text \<open>Two splits look the same at the shares in \<open>X\<close>.\<close>

definition same_view :: "nat set \<Rightarrow> share list \<Rightarrow> share list result \<Rightarrow> bool" where
  "same_view X shares r \<longleftrightarrow> (\<exists>shares'. r = Inr shares' \<and> (\<forall>i\<in>X. shares' ! i = shares ! i))"

lemma same_view_iff:
  assumes T: "build_gf256_tables = (log_t, exp_t)" and s: "split_secret rng secret k n = Inr shares"
    and X: "X = set js" "X \<subseteq> {..<unat n}" and len: "length secret' = length secret"
  shows "same_view X shares (split_secret rng' secret' k n) \<longleftrightarrow>
    (\<forall>i < length secret. map (\<lambda>j. gf_poly_eval (secret' ! i # draw_coefficients rng' (i * (unat k - 1)) (unat k - 1)) (of_nat (j + 1)) log_t exp_t) js
                       = map (\<lambda>j. sh_y (shares ! j) ! i) js)"
proof -
  note S = split_secret_shares[OF T s]
  have "k \<le> n" using S(4) by (simp add: word_le_nat_alt)
  then obtain shares' where s': "split_secret rng' secret' k n = Inr shares'" using split_secret_ok[OF S(3)] by blast
  note S' = split_secret_shares[OF T s']
  have "shares' ! j = shares ! j \<longleftrightarrow>
      (\<forall>i < length secret. gf_poly_eval (secret' ! i # draw_coefficients rng' (i * (unat k - 1)) (unat k - 1)) (of_nat (j + 1)) log_t exp_t
                         = sh_y (shares ! j) ! i)" if "j \<in> X" for j
  proof -
    have j: "j < unat n" using X(2) that by auto
    have "shares' ! j = shares ! j \<longleftrightarrow> share_bytes rng' (unat k) log_t exp_t secret' (of_nat (j + 1)) = sh_y (shares ! j)"
      using S(2)[OF j] S'(2)[OF j] by simp
    also have "\<dots> \<longleftrightarrow> (\<forall>i < length secret.
        gf_poly_eval (secret' ! i # draw_coefficients rng' (i * (unat k - 1)) (unat k - 1)) (of_nat (j + 1)) log_t exp_t
          = sh_y (shares ! j) ! i)"
      using S(2)[OF j] len by (simp only: share.simps share_bytes_eq_iff[OF len]) (simp add: share_bytes_def)
    finally show ?thesis .
  qed
  then show ?thesis unfolding same_view_def s' using X(1) by (simp only: sum.inject map_eq_conv) blast
qed

text \<open>C24. Perfect secrecy: fix \<open>k - 1\<close> shares of a split. For every other secret of the same length there are random
  numbers with which splitting it gives exactly these shares, and their low bytes, all that the split uses of them,
  are unique. So the holders of \<open>k - 1\<close> shares see every secret equally often.\<close>

theorem shares_reveal_nothing:
  assumes s: "split_secret rng secret k n = Inr shares" and len: "length secret' = length secret"
    and X: "X \<subseteq> {..<unat n}" "card X = unat k - 1"
  shows "\<exists>rng'. same_view X shares (split_secret rng' secret' k n)
    \<and> (\<forall>rng''. same_view X shares (split_secret rng'' secret' k n) \<longrightarrow>
         (\<forall>p < (unat k - 1) * length secret. ucast (rng'' p) = (ucast (rng' p) :: u8)))"
proof -
  obtain log_t exp_t where T: "build_gf256_tables = (log_t, exp_t)" by fastforce
  obtain js where js: "X = set js" "distinct js" using finite_distinct_list[OF finite_subset[OF X(1)]] by auto
  then have l: "length js = unat k - 1" using X(2) distinct_card by fastforce
  let ?m = "unat k - 1"
  let ?xs = "map (\<lambda>j. of_nat (j + 1) :: u8) js"
  let ?Q = "\<lambda>i cs. map (\<lambda>j. gf_poly_eval (secret' ! i # cs) (of_nat (j + 1)) log_t exp_t) js = map (\<lambda>j. sh_y (shares ! j) ! i) js"
  have jn: "j < 255" if "j \<in> set js" for j using that js(1) X(1) u8_bound[of n] by auto
  have "distinct ?xs" using js(2) share_coordinate jn by (auto simp: distinct_map inj_on_def)
  moreover have "0 \<notin> set ?xs"
  proof
    assume "0 \<in> set ?xs"
    then obtain j where j: "j \<in> set js" "(of_nat (j + 1) :: u8) = 0" by auto
    then show False using unat_of_nat_less[of "j + 1", where 'a = 8] jn[OF j(1)] by simp
  qed
  ultimately have "\<exists>!cs. length cs = ?m \<and> ?Q i cs" for i
    using unique_explanation[OF T, of ?xs "map (\<lambda>j. sh_y (shares ! j) ! i) js" "secret' ! i"] l by (simp add: o_def)
  then obtain f where f: "\<And>i. length (f i) = ?m \<and> ?Q i (f i)" "\<And>i cs. length cs = ?m \<Longrightarrow> ?Q i cs \<Longrightarrow> cs = f i" by metis
  note view = same_view_iff[OF T s js(1) X(1) len]
  have "same_view X shares (split_secret (rng_of ?m f) secret' k n)"
    unfolding view using f(1) by (simp add: draw_rng_of)
  moreover have "ucast (r p) = (ucast (rng_of ?m f p) :: u8)"
    if "same_view X shares (split_secret r secret' k n)" "p < ?m * length secret" for r p
  proof (rule draw_eq[OF _ that(2)])
    fix i assume "i < length secret"
    then show "draw_coefficients r (i * ?m) ?m = draw_coefficients (rng_of ?m f) (i * ?m) ?m"
      using that(1) f(1)[of i] f(2)[of "draw_coefficients r (i * ?m) ?m" i] unfolding view
      by (simp add: draw_rng_of) (simp add: draw_coefficients_def)
  qed
  ultimately show ?thesis by blast
qed

theorem shares_reveal_nothing_witness:
  "\<exists>shares. split_secret (\<lambda>_. 7) [42] 2 3 = Inr shares \<and> (\<exists>rng'. same_view {1} shares (split_secret rng' [99] 2 3))"
proof -
  obtain shares where s: "split_secret (\<lambda>_. 7) [42] 2 3 = Inr shares" using split_secret_ok[of 2 3] by auto
  have "\<exists>rng'. same_view {1} shares (split_secret rng' [99] 2 3)
    \<and> (\<forall>rng''. same_view {1} shares (split_secret rng'' [99] 2 3) \<longrightarrow>
         (\<forall>p < (unat (2 :: u8) - 1) * length [42 :: u8]. ucast (rng'' p) = (ucast (rng' p) :: u8)))"
    by (rule shares_reveal_nothing[OF s]) simp_all
  then show ?thesis using s by blast
qed

section \<open>Too few shares\<close>

text \<open>
  One share is accepted whatever the threshold was, and its bytes come back as the secret: nothing in a share
  records \<open>k\<close>, so the result of \<^const>\<open>combine_secret\<close> has to be checked by the caller.
\<close>

lemma single_share_accepted: "combine_secret [sh] = Inr (sh_y sh)"
proof -
  obtain log_t exp_t where T: "build_gf256_tables = (log_t, exp_t)" by fastforce
  have "gf_poly_eval [c] x log_t exp_t = c" for c x by (simp add: gf_poly_eval_def gf_mul_def)
  then have "combine_loop [sh] log_t exp_t [0..<length (sh_y sh)] = Inr (map (\<lambda>i. sh_y sh ! i) [0..<length (sh_y sh)])"
    by (intro combine_loop_poly[OF T, where g = "\<lambda>_. []"]) simp_all
  then show ?thesis by (simp add: combine_secret_def T map_nth)
qed

end
