(* ===== verification/Srp.thy ===== *)
theory Srp
  imports Crypto
begin

text \<open>
  Password login and key wrapping of \<^verbatim>\<open>sfs-saas/src/srp.rs\<close>: the SRP-6a client and server sessions, and the root
  key sealed under a key derived from the password. Big integers are natural numbers. The libraries are parameters,
  collected in the record \<open>srp_env\<close>: SHA-256, hexadecimal text, the conversions of the big-integer library, its
  modular power and Argon2id; \<open>env_ok\<close> states what their documentation promises and the code relies on.
  Strings are their UTF-8 bytes.
\<close>

section \<open>Libraries\<close>

record srp_env =
  e_sha256 :: "bytes \<Rightarrow> bytes"
  e_hex :: "bytes \<Rightarrow> bytes"             \<comment> \<open>lower-case hexadecimal text\<close>
  e_to_be :: "nat \<Rightarrow> bytes"             \<comment> \<open>minimal big-endian bytes\<close>
  e_from_be :: "bytes \<Rightarrow> nat"
  e_parse16 :: "bytes \<Rightarrow> nat option"    \<comment> \<open>number written in base 16\<close>
  e_modpow :: "nat \<Rightarrow> nat \<Rightarrow> nat \<Rightarrow> nat"  \<comment> \<open>base, exponent, odd modulus\<close>
  e_upper :: "bytes \<Rightarrow> bytes"
  e_argon :: "bytes \<Rightarrow> bytes \<Rightarrow> bytes option"  \<comment> \<open>password, salt\<close>

text \<open>The lower-case hexadecimal digits. The laws of the parser speak of texts made of them only: the library also reads a leading
  plus sign and underscores, about which nothing is needed.\<close>

definition hex_text :: "bytes \<Rightarrow> bool" where
  "hex_text s \<longleftrightarrow> s \<noteq> [] \<and> list_all (\<lambda>c. 48 \<le> c \<and> c < 58 \<or> 97 \<le> c \<and> c < 103) s"

definition env_ok :: "srp_env \<Rightarrow> bool" where
  "env_ok E \<longleftrightarrow>
     (\<forall>m. length (e_sha256 E m) = 32)
     \<and> (\<forall>bs. length (e_hex E bs) = 2 * length bs)
     \<and> (\<forall>bs. bs \<noteq> [] \<longrightarrow> hex_text (e_hex E bs))
     \<and> (\<forall>s. hex_text s \<longrightarrow> (\<exists>v < 16 ^ length s. e_parse16 E s = Some v))
     \<and> (\<forall>s. hex_text s \<longrightarrow> e_parse16 E (48 # s) = e_parse16 E s)
     \<and> e_parse16 E [48] = Some 0
     \<and> (\<forall>n. e_to_be E n \<noteq> [] \<and> e_parse16 E (e_hex E (e_to_be E n)) = Some n)
     \<and> (\<forall>b e m. odd m \<longrightarrow> m < 256 ^ 256 \<longrightarrow> b < 256 ^ 256 \<longrightarrow> e < 256 ^ 512 \<longrightarrow> e_modpow E b e m = b ^ e mod m)"

section \<open>The group\<close>

definition srp_N :: nat where
  "srp_N = 21766174458617435773191008891802753781907668374255538511144643224689886235383840957210909013086056401571399717235807266581649606472148410291413364152197364477180887395655483738115072677402235101762521901569820740293149529620419333266262073471054548368736039519702486226506248861060256971802984953561121442680157668000761429988222457090413873973970171927093992114751765168063614761119615476233422096442783117971236371647333871414335895773474667308967050807005509320424799678417036867928316761272274230314067548291133582479583061439577559347101961771406173684378522703483495337037655006751328447510550299250924469288819"

definition srp_g :: nat where "srp_g = 2"

definition srp_k :: nat where
  "srp_k = 0x5b9e8ef059c6b32ea59fc1d322d37f04aa30bae5aa9003b8321e21ddb04e300"

datatype srp_error =
    InvalidPublicKey
  | ProofMismatch
  | HexDecode bytes
  | NotRegistered
  | AesGcm
  | SessionNotFound
  | SrpPanic string

fun bind_e :: "'e + 'a \<Rightarrow> ('a \<Rightarrow> 'e + 'b) \<Rightarrow> 'e + 'b" where
  "bind_e (Inl e) f = Inl e"
| "bind_e (Inr x) f = f x"

text \<open>The fixed-width buffers of the constant-time power: 256 bytes for a base, 512 for an exponent.\<close>

definition to_u2048 :: "nat \<Rightarrow> srp_error + nat" where
  "to_u2048 n = (if n < 256 ^ 256 then Inr n else Inl (SrpPanic ''SRP base must be < 2^2048''))"

definition to_u4096 :: "nat \<Rightarrow> srp_error + nat" where
  "to_u4096 n = (if n < 256 ^ 512 then Inr n else Inl (SrpPanic ''SRP exponent must be < 2^4096''))"

definition ct_modpow :: "srp_env \<Rightarrow> nat \<Rightarrow> nat \<Rightarrow> nat \<Rightarrow> srp_error + nat" where
  "ct_modpow E base e modulus =
     bind_e (to_u2048 modulus) (\<lambda>n.
     bind_e (to_u2048 base) (\<lambda>b.
     bind_e (to_u4096 e) (\<lambda>x.
     Inr (e_modpow E b x n))))"

text \<open>Equality of two proofs over a window of 64 bytes.\<close>

definition ct_proof_eq :: "bytes \<Rightarrow> bytes \<Rightarrow> bool" where
  "ct_proof_eq expected received =
     (if length expected > 64 \<or> length received > 64 then False
      else let a = expected @ replicate (64 - length expected) 0;
               b = received @ replicate (64 - length received) 0
           in a = b \<and> length expected = length received)"

section \<open>Core primitives\<close>

definition srp_h :: "srp_env \<Rightarrow> bytes list \<Rightarrow> bytes" where
  "srp_h E parts = e_hex E (e_sha256 E (concat parts))"

definition strip0 :: "bytes \<Rightarrow> bytes" where
  "strip0 s = (let stripped = dropWhile (\<lambda>c. c = 48) s in if stripped = [] then [48] else stripped)"

definition to_hex :: "srp_env \<Rightarrow> nat \<Rightarrow> bytes" where
  "to_hex E n = (if n = 0 then [48] else strip0 (e_hex E (e_to_be E n)))"

definition parse_expect :: "srp_env \<Rightarrow> bytes \<Rightarrow> string \<Rightarrow> srp_error + nat" where
  "parse_expect E s m = (case e_parse16 E s of None \<Rightarrow> Inl (SrpPanic m) | Some v \<Rightarrow> Inr v)"

definition compute_x :: "srp_env \<Rightarrow> bytes \<Rightarrow> bytes \<Rightarrow> bytes \<Rightarrow> srp_error + nat" where
  "compute_x E salt_hex identity password =
     (let inner = srp_h E [identity, ascii '':'', password];
          upper = e_upper E (salt_hex @ strip0 inner);
          outer = srp_h E [upper]
      in parse_expect E (strip0 outer) ''strip0(H) is always valid hex'')"

definition compute_verifier :: "srp_env \<Rightarrow> nat \<Rightarrow> srp_error + bytes" where
  "compute_verifier E x = bind_e (ct_modpow E srp_g x srp_N) (\<lambda>v. Inr (to_hex E v))"

definition compute_u :: "srp_env \<Rightarrow> bytes \<Rightarrow> bytes \<Rightarrow> srp_error + nat" where
  "compute_u E a_hex b_hex = parse_expect E (srp_h E [a_hex, b_hex]) ''SHA-256 hex is always valid''"

definition parse_hex_biguint :: "srp_env \<Rightarrow> bytes \<Rightarrow> srp_error + nat" where
  "parse_hex_biguint E s = (case e_parse16 E s of None \<Rightarrow> Inl (HexDecode s) | Some v \<Rightarrow> Inr v)"

text \<open>The loop draws until a candidate lies in \<open>[1, n)\<close>; \<open>rng i\<close> is the \<open>i\<close>-th buffer the generator fills.\<close>

partial_function (option) random_in_range :: "srp_env \<Rightarrow> (nat \<Rightarrow> bytes) \<Rightarrow> nat \<Rightarrow> nat \<Rightarrow> nat option" where
  "random_in_range E rng i n =
     (let candidate = e_from_be E (rng i)
      in if candidate \<ge> 1 \<and> candidate < n then Some candidate else random_in_range E rng (i + 1) n)"

section \<open>Client session\<close>

record srp_client =
  cl_a :: nat
  cl_a_pub :: nat

definition client_new :: "srp_env \<Rightarrow> nat \<Rightarrow> srp_error + srp_client" where
  "client_new E a = bind_e (ct_modpow E srp_g a srp_N) (\<lambda>a_pub. Inr \<lparr>cl_a = a, cl_a_pub = a_pub\<rparr>)"

definition client_step1 :: "srp_env \<Rightarrow> srp_client \<Rightarrow> bytes" where
  "client_step1 E c = to_hex E (cl_a_pub c)"

definition client_step2 :: "srp_env \<Rightarrow> srp_client \<Rightarrow> bytes \<Rightarrow> bytes \<Rightarrow> bytes \<Rightarrow> bytes \<Rightarrow> srp_error + bytes \<times> bytes \<times> bytes" where
  "client_step2 E c salt_hex identity password b_hex =
     bind_e (parse_hex_biguint E b_hex) (\<lambda>b_pub.
     if b_pub mod srp_N = 0 then Inl InvalidPublicKey
     else
     bind_e (compute_x E salt_hex identity password) (\<lambda>x.
     let a_hex = to_hex E (cl_a_pub c) in
     bind_e (compute_u E a_hex b_hex) (\<lambda>u.
     if u = 0 then Inl InvalidPublicKey
     else
     bind_e (ct_modpow E srp_g x srp_N) (\<lambda>gx.
     let kgx = (srp_k * gx) mod srp_N;
         base = (if b_pub \<ge> kgx then (b_pub - kgx) mod srp_N else (b_pub + srp_N - kgx) mod srp_N);
         e = cl_a c + u * x in
     bind_e (ct_modpow E base e srp_N) (\<lambda>s.
     let s_hex = to_hex E s;
         k_session = srp_h E [s_hex];
         m1 = strip0 (srp_h E [a_hex, b_hex, s_hex])
     in Inr (m1, k_session, s_hex))))))"

definition verify_m2 :: "srp_env \<Rightarrow> bytes \<Rightarrow> bytes \<Rightarrow> bytes \<Rightarrow> bytes \<Rightarrow> bool" where
  "verify_m2 E a_hex m1 s_hex received_m2 = ct_proof_eq (strip0 (srp_h E [a_hex, m1, s_hex])) received_m2"

section \<open>Server session\<close>

record srp_server =
  sv_b :: nat
  sv_b_pub :: nat
  sv_verifier :: nat
  sv_salt :: bytes

definition server_new :: "srp_env \<Rightarrow> nat \<Rightarrow> bytes \<Rightarrow> bytes \<Rightarrow> srp_error + srp_server" where
  "server_new E b salt verifier_hex =
     bind_e (parse_hex_biguint E verifier_hex) (\<lambda>verifier.
     bind_e (ct_modpow E srp_g b srp_N) (\<lambda>gb.
     let kv = (srp_k * verifier) mod srp_N;
         b_pub = (kv + gb) mod srp_N
     in Inr \<lparr>sv_b = b, sv_b_pub = b_pub, sv_verifier = verifier, sv_salt = salt\<rparr>))"

definition server_step1 :: "srp_env \<Rightarrow> srp_server \<Rightarrow> bytes" where
  "server_step1 E s = to_hex E (sv_b_pub s)"

definition server_step2 :: "srp_env \<Rightarrow> srp_server \<Rightarrow> bytes \<Rightarrow> bytes \<Rightarrow> srp_error + bytes" where
  "server_step2 E sv a_hex m1_from_client =
     bind_e (parse_hex_biguint E a_hex) (\<lambda>a_pub.
     if a_pub mod srp_N = 0 then Inl InvalidPublicKey
     else
     let b_hex = to_hex E (sv_b_pub sv) in
     bind_e (compute_u E a_hex b_hex) (\<lambda>u.
     if u = 0 then Inl InvalidPublicKey
     else
     bind_e (ct_modpow E (sv_verifier sv) u srp_N) (\<lambda>vu.
     let av = (a_pub * vu) mod srp_N in
     bind_e (ct_modpow E av (sv_b sv) srp_N) (\<lambda>s.
     let s_hex = to_hex E s;
         expected_m1 = strip0 (srp_h E [a_hex, b_hex, s_hex])
     in if \<not> ct_proof_eq expected_m1 m1_from_client then Inl ProofMismatch
        else Inr (strip0 (srp_h E [a_hex, m1_from_client, s_hex]))))))"

section \<open>Wrapping the root key\<close>

definition srp_derive_kek :: "srp_env \<Rightarrow> bytes \<Rightarrow> bytes \<Rightarrow> srp_error + bytes" where
  "srp_derive_kek E password salt = (case e_argon E password salt of None \<Rightarrow> Inl AesGcm | Some kek \<Rightarrow> Inr kek)"

text \<open>Sealing and opening with AES-256-GCM, without associated data; a key that is not 32 bytes long is refused.\<close>

definition cipher_encrypt :: "prims \<Rightarrow> bytes \<Rightarrow> bytes \<Rightarrow> bytes \<Rightarrow> srp_error + bytes" where
  "cipher_encrypt P kek nonce m = (if length kek \<noteq> 32 then Inl AesGcm else Inr (p_gcm_seal P kek nonce [] m))"

definition cipher_decrypt :: "prims \<Rightarrow> bytes \<Rightarrow> bytes \<Rightarrow> bytes \<Rightarrow> srp_error + bytes" where
  "cipher_decrypt P kek nonce ct =
     (if length kek \<noteq> 32 then Inl AesGcm
      else case p_gcm_open P kek nonce [] ct of None \<Rightarrow> Inl AesGcm | Some m \<Rightarrow> Inr m)"

definition wrap_root_key :: "prims \<Rightarrow> srp_env \<Rightarrow> bytes \<Rightarrow> bytes \<Rightarrow> bytes \<Rightarrow> bytes \<Rightarrow> srp_error + bytes" where
  "wrap_root_key P E nonce password salt root_key =
     bind_e (srp_derive_kek E password salt) (\<lambda>kek.
     bind_e (cipher_encrypt P kek nonce root_key) (\<lambda>ct.
     Inr (nonce @ ct)))"

definition unwrap_root_key :: "prims \<Rightarrow> srp_env \<Rightarrow> bytes \<Rightarrow> bytes \<Rightarrow> bytes \<Rightarrow> srp_error + bytes" where
  "unwrap_root_key P E password salt blob =
     (if length blob < 12 then Inl AesGcm
      else let nonce = take 12 blob; ct = drop 12 blob
           in bind_e (srp_derive_kek E password salt) (\<lambda>kek.
              bind_e (cipher_decrypt P kek nonce ct) (\<lambda>plaintext.
              if length plaintext \<noteq> 32 then Inl AesGcm else Inr plaintext)))"

definition wrap_root_key_envelope :: "prims \<Rightarrow> srp_env \<Rightarrow> bytes \<Rightarrow> bytes \<Rightarrow> bytes \<Rightarrow> bytes \<Rightarrow> srp_error + bytes" where
  "wrap_root_key_envelope P E nonce password salt root_key =
     bind_e (wrap_root_key P E nonce password salt root_key) (\<lambda>blob.
     if length salt \<ge> 2 ^ 16 then Inl AesGcm
     else Inr (u16_to_le (word_of_nat (length salt)) @ salt @ blob))"

definition unwrap_root_key_envelope :: "prims \<Rightarrow> srp_env \<Rightarrow> bytes \<Rightarrow> bytes \<Rightarrow> srp_error + bytes" where
  "unwrap_root_key_envelope P E password envelope =
     (if length envelope < 2 then Inl AesGcm
      else let salt_len = unat (u16_from_le (take 2 envelope)); rest = drop 2 envelope
           in if length rest < salt_len then Inl AesGcm
              else unwrap_root_key P E password (take salt_len rest) (drop salt_len rest))"

section \<open>The group and the powers\<close>

lemma srp_N_facts: "0 < srp_N" "odd srp_N" "srp_N < 256 ^ 256" "1 < srp_N"
  by (simp_all add: srp_N_def)

lemma ct_modpow_ok:
  assumes "env_ok E" "b < 256 ^ 256" "e < 256 ^ 512"
  shows "ct_modpow E b e srp_N = Inr (b ^ e mod srp_N)"
  using assms srp_N_facts by (simp add: ct_modpow_def to_u2048_def to_u4096_def env_ok_def)

section \<open>Hexadecimal text\<close>

lemma parse_strip0: "env_ok E \<Longrightarrow> hex_text s \<Longrightarrow> e_parse16 E (strip0 s) = e_parse16 E s"
proof (induction s)
  case (Cons c s)
  show ?case
  proof (cases "c = 48 \<and> s \<noteq> []")
    case True
    then have "strip0 (c # s) = strip0 s" "hex_text s" using Cons.prems(2) by (simp_all add: strip0_def hex_text_def)
    then show ?thesis using Cons True by (simp add: env_ok_def)
  qed (auto simp: strip0_def)
qed (simp add: hex_text_def)

lemma parse_to_hex: "env_ok E \<Longrightarrow> e_parse16 E (to_hex E n) = Some n"
proof (cases "n = 0")
  case False
  assume E: "env_ok E"
  then have "hex_text (e_hex E (e_to_be E n))" by (simp add: env_ok_def)
  from parse_strip0[OF E this] show ?thesis using False E by (simp add: to_hex_def env_ok_def)
qed (simp add: to_hex_def env_ok_def)

lemma srp_h_hex: "env_ok E \<Longrightarrow> hex_text (srp_h E parts)"
proof -
  assume E: "env_ok E"
  then have "length (e_sha256 E (concat parts)) = 32" by (simp add: env_ok_def)
  then have "e_sha256 E (concat parts) \<noteq> []" by auto
  then show ?thesis using E by (simp add: srp_h_def env_ok_def)
qed

lemma srp_h_length: "env_ok E \<Longrightarrow> length (srp_h E parts) = 64"
  by (simp add: srp_h_def env_ok_def)

lemma strip0_length: "s \<noteq> [] \<Longrightarrow> length (strip0 s) \<le> length s"
  using length_dropWhile_le[of "\<lambda>c. c = 48" s] by (cases s) (auto simp: strip0_def Let_def)

lemma proof_length: "env_ok E \<Longrightarrow> length (strip0 (srp_h E parts)) \<le> 64"
  using strip0_length[of "srp_h E parts"] srp_h_length[of E parts] by fastforce

lemma parse_hash:
  assumes E: "env_ok E"
  shows "\<exists>v. e_parse16 E (srp_h E parts) = Some v \<and> v < 16 ^ 64"
proof -
  have "\<exists>v < 16 ^ length (srp_h E parts). e_parse16 E (srp_h E parts) = Some v" using E srp_h_hex[OF E] unfolding env_ok_def by blast
  then show ?thesis using srp_h_length[OF E] by auto
qed

lemma compute_u_ok: "env_ok E \<Longrightarrow> \<exists>u. compute_u E a b = Inr u \<and> u < 16 ^ 64"
  using parse_hash[of E "[a, b]"] by (auto simp: compute_u_def parse_expect_def)

lemma compute_x_ok:
  assumes E: "env_ok E"
  shows "\<exists>x. compute_x E salt i p = Inr x \<and> x < 16 ^ 64"
proof -
  let ?o = "srp_h E [e_upper E (salt @ strip0 (srp_h E [i, ascii '':'', p]))]"
  obtain x where "e_parse16 E (strip0 ?o) = Some x" "x < 16 ^ 64" using parse_strip0[OF E srp_h_hex[OF E]] parse_hash[OF E] by metis
  then show ?thesis by (simp only: compute_x_def parse_expect_def Let_def) simp
qed

text \<open>The comparison of proofs over padded windows is equality of texts of at most 64 characters.\<close>

lemma ct_proof_eq_exact: "ct_proof_eq e r \<longleftrightarrow> e = r \<and> length e \<le> 64"
  by (auto simp: ct_proof_eq_def Let_def append_eq_append_conv)

lemma proof_accepted: "env_ok E \<Longrightarrow> ct_proof_eq (strip0 (srp_h E ps)) (strip0 (srp_h E ps))"
  using proof_length[of E ps] by (simp add: ct_proof_eq_def Let_def not_less)

section \<open>Both ends compute the same secret\<close>

lemma exponent_fits: "a < srp_N \<Longrightarrow> u < 16 ^ 64 \<Longrightarrow> x < 16 ^ 64 \<Longrightarrow> a + u * x < 256 ^ 512"
proof -
  assume a: "a < srp_N" and u: "u < 16 ^ 64" "x < 16 ^ 64"
  have "u * x < 16 ^ 64 * 16 ^ 64" using u by (intro mult_strict_mono) simp_all
  moreover have "srp_N + 16 ^ 64 * 16 ^ 64 \<le> 256 ^ 512" by (simp add: srp_N_def)
  ultimately show ?thesis using a by linarith
qed

lemma below_N: "a < srp_N \<Longrightarrow> a < 256 ^ 256"
  using srp_N_facts(3) by (meson order.strict_trans)

lemma mod_N_fits: "a mod srp_N < 256 ^ 256"
  by (rule below_N) (simp add: srp_N_facts)

lemma below_exponent: "a < srp_N \<Longrightarrow> a < 256 ^ 512" "(v :: nat) < 16 ^ 64 \<Longrightarrow> v < 256 ^ 512"
  using exponent_fits[of a 0 0] exponent_fits[of 0 v 1] srp_N_facts(1) by simp_all

lemma g_fits: "srp_g < 256 ^ 256"
  by (simp add: srp_g_def)

lemma unmask:
  assumes "0 < (n :: nat)" and B: "B = (k * v mod n + h mod n) mod n"
  shows "(if B \<ge> k * v mod n then (B - k * v mod n) mod n else (B + n - k * v mod n) mod n) = h mod n"
proof -
  let ?m = "k * v mod n" and ?h = "h mod n"
  have b: "?m < n" "?h < n" using assms(1) by simp_all
  show ?thesis
  proof (cases "?m + ?h < n")
    case True
    then have "B = ?m + ?h" using B by simp
    then show ?thesis by simp
  next
    case False
    then have "B = (?m + ?h - n) mod n" unfolding B by (intro le_mod_geq) simp
    moreover have "?m + ?h - n < n" using b by linarith
    ultimately have eq: "B = ?m + ?h - n" by (simp only: mod_less)
    then have "\<not> ?m \<le> B" "B + n - ?m = ?h" using b False by linarith+
    then show ?thesis by simp
  qed
qed

lemma shared_secret:
  "((g :: nat) ^ b mod n) ^ (a + u * x) mod n = (((g ^ a mod n) * ((g ^ x mod n) ^ u mod n)) mod n) ^ b mod n"
proof -
  have "((g ^ a mod n) * ((g ^ x mod n) ^ u mod n)) mod n = g ^ a * (g ^ x) ^ u mod n"
    by (simp add: power_mod mod_mult_eq)
  then have "(((g ^ a mod n) * ((g ^ x mod n) ^ u mod n)) mod n) ^ b mod n = (g ^ a * (g ^ x) ^ u) ^ b mod n"
    by (simp add: power_mod)
  also have "(g ^ a * (g ^ x) ^ u) ^ b = (g ^ b) ^ (a + u * x)"
    by (simp add: power_add power_mult_distrib mult.commute flip: power_mult)
  finally show ?thesis by (simp add: power_mod)
qed

lemma power_g_nonzero: "srp_g ^ a mod srp_N \<noteq> 0"
proof
  assume "srp_g ^ a mod srp_N = 0"
  then have "srp_N dvd 2 ^ a" by (simp add: srp_g_def mod_eq_0_iff_dvd)
  moreover have "coprime srp_N (2 ^ a)" using srp_N_facts(2) by (simp add: coprime_commute)
  ultimately have "is_unit srp_N" by (metis coprime_common_divisor dvd_refl)
  then show False using srp_N_facts(4) by simp
qed

lemma client_new_ok: "env_ok E \<Longrightarrow> a < srp_N \<Longrightarrow> client_new E a = Inr \<lparr>cl_a = a, cl_a_pub = srp_g ^ a mod srp_N\<rparr>"
  by (simp only: client_new_def ct_modpow_ok[OF _ g_fits below_exponent(1)] bind_e.simps)

lemma server_new_ok:
  assumes "env_ok E" "b < srp_N" "e_parse16 E vhex = Some v"
  shows "server_new E b salt vhex =
    Inr \<lparr>sv_b = b, sv_b_pub = (srp_k * v mod srp_N + srp_g ^ b mod srp_N) mod srp_N, sv_verifier = v, sv_salt = salt\<rparr>"
  by (simp only: server_new_def parse_hex_biguint_def assms option.case bind_e.simps Let_def
      ct_modpow_ok[OF assms(1) g_fits below_exponent(1)[OF assms(2)]])

lemma client_step2_ok:
  assumes E: "env_ok E" and c: "cl_a c < srp_N" and B: "e_parse16 E b_hex = Some B" "B mod srp_N \<noteq> 0"
    and x: "compute_x E salt i p = Inr x" and u: "compute_u E (to_hex E (cl_a_pub c)) b_hex = Inr u" "u \<noteq> 0"
  defines "kgx \<equiv> srp_k * (srp_g ^ x mod srp_N) mod srp_N"
  defines "base \<equiv> (if B \<ge> kgx then (B - kgx) mod srp_N else (B + srp_N - kgx) mod srp_N)"
  defines "s_hex \<equiv> to_hex E (base ^ (cl_a c + u * x) mod srp_N)"
  shows "client_step2 E c salt i p b_hex =
    Inr (strip0 (srp_h E [to_hex E (cl_a_pub c), b_hex, s_hex]), srp_h E [s_hex], s_hex)"
proof -
  have xb: "x < 16 ^ 64" using compute_x_ok[OF E] x by (metis sum.inject(2))
  have ub: "u < 16 ^ 64" using compute_u_ok[OF E] u(1) by (metis sum.inject(2))
  have p1: "ct_modpow E srp_g x srp_N = Inr (srp_g ^ x mod srp_N)"
    by (rule ct_modpow_ok[OF E g_fits below_exponent(2)[OF xb]])
  have p2: "ct_modpow E base (cl_a c + u * x) srp_N = Inr (base ^ (cl_a c + u * x) mod srp_N)"
    by (rule ct_modpow_ok[OF E _ exponent_fits[OF c ub xb]]) (simp only: base_def mod_N_fits split: if_split, simp)
  show ?thesis unfolding client_step2_def parse_hex_biguint_def
    by (simp only: B x u option.case bind_e.simps if_False Let_def p1 p2 simp_thms flip: kgx_def base_def s_hex_def)
qed

lemma server_step2_ok:
  assumes E: "env_ok E" and sv: "sv_b sv < srp_N" "sv_verifier sv < 256 ^ 256" and A: "e_parse16 E a_hex = Some A" "A mod srp_N \<noteq> 0"
    and u: "compute_u E a_hex (to_hex E (sv_b_pub sv)) = Inr u" "u \<noteq> 0"
  defines "s_hex \<equiv> to_hex E ((A * (sv_verifier sv ^ u mod srp_N) mod srp_N) ^ sv_b sv mod srp_N)"
  shows "server_step2 E sv a_hex m1 =
    (if \<not> ct_proof_eq (strip0 (srp_h E [a_hex, to_hex E (sv_b_pub sv), s_hex])) m1 then Inl ProofMismatch
     else Inr (strip0 (srp_h E [a_hex, m1, s_hex])))"
proof -
  have ub: "u < 16 ^ 64" using compute_u_ok[OF E] u(1) by (metis sum.inject(2))
  have p1: "ct_modpow E (sv_verifier sv) u srp_N = Inr (sv_verifier sv ^ u mod srp_N)"
    by (rule ct_modpow_ok[OF E sv(2) below_exponent(2)[OF ub]])
  have p2: "ct_modpow E (A * (sv_verifier sv ^ u mod srp_N) mod srp_N) (sv_b sv) srp_N =
      Inr ((A * (sv_verifier sv ^ u mod srp_N) mod srp_N) ^ sv_b sv mod srp_N)"
    by (rule ct_modpow_ok[OF E mod_N_fits below_exponent(1)[OF sv(1)]])
  show ?thesis unfolding server_step2_def parse_hex_biguint_def
    by (simp only: A u option.case bind_e.simps if_False Let_def p1 p2 simp_thms flip: s_hex_def)
qed

text \<open>C25. Agreement: with the verifier registered for the password, every login with that password goes through. Whatever
  the two ephemeral secrets are, unless a guard rejects a public value or the scrambling parameter, the client's step
  succeeds, the server accepts its proof, and the client accepts the server's proof.\<close>

theorem srp_login_agrees:
  assumes E: "env_ok E" and ab: "a < srp_N" "b < srp_N"
    and x: "compute_x E salt i p = Inr x" and v: "compute_verifier E x = Inr vhex"
    and c: "client_new E a = Inr c" and s: "server_new E b salt vhex = Inr sv"
    and B: "sv_b_pub sv \<noteq> 0" and u: "compute_u E (client_step1 E c) (server_step1 E sv) \<noteq> Inr 0"
  shows "\<exists>m1 k s_hex m2. client_step2 E c salt i p (server_step1 E sv) = Inr (m1, k, s_hex)
    \<and> server_step2 E sv (client_step1 E c) m1 = Inr m2 \<and> verify_m2 E (client_step1 E c) m1 s_hex m2"
proof -
  let ?v = "srp_g ^ x mod srp_N" and ?N = srp_N
  obtain u' where u': "compute_u E (client_step1 E c) (server_step1 E sv) = Inr u'" "u' \<noteq> 0" using compute_u_ok[OF E] u by metis
  have "x < 16 ^ 64" using compute_x_ok[OF E] x by (metis sum.inject(2))
  then have "vhex = to_hex E ?v" using v ct_modpow_ok[OF E g_fits below_exponent(2)] by (simp only: compute_verifier_def bind_e.simps sum.inject)
  then have svq: "sv = \<lparr>sv_b = b, sv_b_pub = (srp_k * ?v mod ?N + srp_g ^ b mod ?N) mod ?N, sv_verifier = ?v, sv_salt = salt\<rparr>"
    using s server_new_ok[OF E ab(2) parse_to_hex[OF E]] by (metis sum.inject(2))
  have cq: "c = \<lparr>cl_a = a, cl_a_pub = srp_g ^ a mod ?N\<rparr>" using c client_new_ok[OF E ab(1)] by (metis sum.inject(2))
  have Bm: "sv_b_pub sv mod ?N \<noteq> 0" using B svq by simp
  have base: "(if sv_b_pub sv \<ge> srp_k * ?v mod ?N then (sv_b_pub sv - srp_k * ?v mod ?N) mod ?N
      else (sv_b_pub sv + ?N - srp_k * ?v mod ?N) mod ?N) = srp_g ^ b mod ?N"
    by (rule unmask[OF srp_N_facts(1)]) (simp add: svq)
  let ?s = "to_hex E ((srp_g ^ b mod ?N) ^ (a + u' * x) mod ?N)"
  let ?m1 = "strip0 (srp_h E [client_step1 E c, server_step1 E sv, ?s])"
  have "client_step2 E c salt i p (server_step1 E sv) = Inr (?m1, srp_h E [?s], ?s)"
    using client_step2_ok[OF E _ parse_to_hex[OF E] Bm x] u' ab(1) base
    unfolding server_step1_def client_step1_def by (simp add: cq)
  moreover have "server_step2 E sv (client_step1 E c) ?m1 = Inr (strip0 (srp_h E [client_step1 E c, ?m1, ?s]))"
  proof -
    have vb: "sv_verifier sv < 256 ^ 256" "sv_b sv < ?N" unfolding svq srp_server.simps using ab(2) by (simp_all only: mod_N_fits)
    have anz: "cl_a_pub c mod ?N \<noteq> 0" using power_g_nonzero cq by simp
    have sq: "to_hex E ((cl_a_pub c * (sv_verifier sv ^ u' mod ?N) mod ?N) ^ sv_b sv mod ?N) = ?s"
      using shared_secret[of srp_g b ?N a u' x] by (simp add: cq svq)
    have "ct_proof_eq ?m1 ?m1" by (rule proof_accepted[OF E])
    then show ?thesis
      using server_step2_ok[OF E vb(2,1) parse_to_hex[OF E] anz, of u' ?m1] u'
      unfolding sq server_step1_def client_step1_def by (simp only: if_False not_True_eq_False simp_thms)
  qed
  moreover have "verify_m2 E (client_step1 E c) ?m1 ?s (strip0 (srp_h E [client_step1 E c, ?m1, ?s]))"
    unfolding verify_m2_def by (rule proof_accepted[OF E])
  ultimately show ?thesis by blast
qed

section \<open>An instance of the libraries\<close>

definition digit16 :: "nat \<Rightarrow> u8" where
  "digit16 n = (if n < 10 then 48 + of_nat n else 87 + of_nat n)"

definition undigit16 :: "u8 \<Rightarrow> nat option" where
  "undigit16 c = (if 48 \<le> unat c \<and> unat c < 58 then Some (unat c - 48)
                 else if 97 \<le> unat c \<and> unat c < 103 then Some (unat c - 87) else None)"

fun parse16_from :: "nat \<Rightarrow> bytes \<Rightarrow> nat option" where
  "parse16_from acc [] = Some acc"
| "parse16_from acc (c # s) = (case undigit16 c of None \<Rightarrow> None | Some d \<Rightarrow> parse16_from (16 * acc + d) s)"

definition parse16 :: "bytes \<Rightarrow> nat option" where
  "parse16 s = (if s = [] then None else parse16_from 0 s)"

definition hex16 :: "bytes \<Rightarrow> bytes" where
  "hex16 bs = concat (map (\<lambda>b. [digit16 (unat b div 16), digit16 (unat b mod 16)]) bs)"

definition toy_env :: srp_env where
  "toy_env = \<lparr>e_sha256 = (\<lambda>m. replicate 31 0 @ [1]), e_hex = hex16, e_to_be = (\<lambda>n. rev (le_bytes (Suc n) n)),
     e_from_be = (\<lambda>bs. le_val (rev bs)), e_parse16 = parse16, e_modpow = (\<lambda>b e m. b ^ e mod m), e_upper = (\<lambda>s. s),
     e_argon = (\<lambda>p s. Some (replicate 32 9))\<rparr>"

lemma undigit_digit: "n < 16 \<Longrightarrow> undigit16 (digit16 n) = Some n"
proof -
  assume n: "n < 16"
  have "unat (48 + of_nat m :: u8) = 48 + m" "unat (87 + of_nat m :: u8) = 87 + m" if "m < 16" for m
    using that unat_of_nat_less[of "48 + m", where 'a = 8] unat_of_nat_less[of "87 + m", where 'a = 8] by simp_all
  then show ?thesis using n by (auto simp: undigit16_def digit16_def)
qed

lemma undigit_bound: "undigit16 c = Some d \<Longrightarrow> d < 16"
  by (auto simp: undigit16_def split: if_splits)

lemma parse16_from_bound: "parse16_from acc s = Some v \<Longrightarrow> v < (acc + 1) * 16 ^ length s"
proof (induction acc s rule: parse16_from.induct)
  case (2 acc c s)
  then obtain d where d: "undigit16 c = Some d" "parse16_from (16 * acc + d) s = Some v" by (auto split: option.splits)
  have "v < (16 * acc + d + 1) * 16 ^ length s" using 2 d by blast
  also have "\<dots> \<le> (16 * acc + 16) * 16 ^ length s" using undigit_bound[OF d(1)] by (intro mult_le_mono1) simp
  finally show ?case by (simp add: algebra_simps)
qed simp

lemma parse16_from_hex: "parse16_from acc (hex16 bs) = Some (acc * 256 ^ length bs + le_val (rev bs))"
proof (induction bs arbitrary: acc)
  case (Cons b bs)
  have "parse16_from acc (hex16 (b # bs)) = parse16_from (16 * (16 * acc + unat b div 16) + unat b mod 16) (hex16 bs)"
    using unat_lt2p[of b] by (simp add: hex16_def undigit_digit)
  also have "16 * (16 * acc + unat b div 16) + unat b mod 16 = 256 * acc + unat b" by simp
  finally have "parse16_from acc (hex16 (b # bs)) = Some ((256 * acc + unat b) * 256 ^ length bs + le_val (rev bs))" using Cons by simp
  moreover have "le_val (xs @ [b]) = le_val xs + unat b * 256 ^ length xs" for xs by (induction xs) (simp_all add: algebra_simps)
  ultimately show ?case by (simp add: algebra_simps)
qed (simp add: hex16_def)

lemma digit16_hex: "n < 16 \<Longrightarrow> 48 \<le> digit16 n \<and> digit16 n < 58 \<or> 97 \<le> digit16 n \<and> digit16 n < 103"
  using undigit_digit[of n] by (auto simp: undigit16_def word_le_nat_alt word_less_nat_alt split: if_splits)

lemma hex16_hex: "bs \<noteq> [] \<Longrightarrow> hex_text (hex16 bs)"
proof -
  have "list_all (\<lambda>c. 48 \<le> c \<and> c < 58 \<or> 97 \<le> c \<and> c < 103) (hex16 bs)" for bs
  proof (induction bs)
    case (Cons b bs)
    have "unat b div 16 < 16" "unat b mod 16 < 16" using unat_lt2p[of b] by (simp_all add: less_mult_imp_div_less)
    then show ?case using Cons digit16_hex[of "unat b div 16"] digit16_hex[of "unat b mod 16"] by (simp add: hex16_def)
  qed (simp add: hex16_def)
  moreover have "hex16 bs \<noteq> []" if "bs \<noteq> []" using that by (cases bs) (simp_all add: hex16_def)
  moreover assume "bs \<noteq> []"
  ultimately show ?thesis by (simp add: hex_text_def)
qed

lemma parse16_from_text:
  "list_all (\<lambda>c. 48 \<le> c \<and> c < 58 \<or> 97 \<le> c \<and> c < 103) s \<Longrightarrow> \<exists>v. parse16_from acc s = Some v"
  by (induction s arbitrary: acc) (auto simp: undigit16_def word_le_nat_alt word_less_nat_alt split: option.split)

lemma toy_env_ok: "env_ok toy_env"
proof -
  have l: "length (hex16 bs) = 2 * length bs" for bs by (induction bs) (simp_all add: hex16_def)
  have b: "n < 256 ^ Suc n" for n :: nat by (induction n) simp_all
  have "parse16 (hex16 (rev (le_bytes (Suc n) n))) = Some n" for n
  proof -
    have "hex16 (rev (le_bytes (Suc n) n)) \<noteq> []" using hex16_hex[of "rev (le_bytes (Suc n) n)"] by (simp add: hex_text_def)
    then show ?thesis using b[of n] le_val_le_bytes[of "Suc n" n]
      by (simp add: parse16_def parse16_from_hex del: le_bytes.simps power_Suc)
  qed
  moreover have "parse16 (48 # s) = parse16 s" if "hex_text s" for s using that by (simp add: parse16_def undigit16_def hex_text_def)
  moreover have "\<exists>v < 16 ^ length s. parse16 s = Some v" if "hex_text s" for s
  proof -
    from that obtain v where v: "parse16_from 0 s = Some v" using parse16_from_text by (auto simp: hex_text_def)
    then show ?thesis using parse16_from_bound[OF v] that by (auto simp: parse16_def hex_text_def)
  qed
  moreover have "rev (le_bytes (Suc n) n) \<noteq> []" for n by simp
  moreover have "parse16 [48] = Some 0" by (simp add: parse16_def undigit16_def)
  ultimately show ?thesis unfolding env_ok_def toy_env_def srp_env.simps using l hex16_hex by simp
qed

lemma le_val_zeros: "le_val (replicate n 0) = 0"
  by (induction n) simp_all

lemma toy_hash: "e_parse16 toy_env (srp_h toy_env ps) = Some 1"
  by (simp add: toy_env_def srp_h_def parse16_def parse16_from_hex le_val_zeros) (simp add: hex16_def)

lemma toy_compute_x: "compute_x toy_env salt i p = Inr 1"
proof -
  show ?thesis by (simp add: compute_x_def parse_expect_def Let_def parse_strip0[OF toy_env_ok srp_h_hex[OF toy_env_ok]] toy_hash)
qed

theorem srp_login_agrees_witness:
  "\<exists>c sv m1 k s_hex m2. client_new toy_env 3 = Inr c \<and> server_new toy_env 5 [] (to_hex toy_env 2) = Inr sv
    \<and> client_step2 toy_env c [] [] [] (server_step1 toy_env sv) = Inr (m1, k, s_hex)
    \<and> server_step2 toy_env sv (client_step1 toy_env c) m1 = Inr m2 \<and> verify_m2 toy_env (client_step1 toy_env c) m1 s_hex m2"
proof -
  note E = toy_env_ok
  have N: "3 < srp_N" "5 < srp_N" "2 < srp_N" by (simp_all add: srp_N_def)
  have "1 < (256 :: nat) ^ 512" by simp
  then have v: "compute_verifier toy_env 1 = Inr (to_hex toy_env 2)"
    using ct_modpow_ok[OF E g_fits, of 1] N(3) by (simp only: compute_verifier_def bind_e.simps power_one_right srp_g_def mod_less)
  note c = client_new_ok[OF E N(1)] and s = server_new_ok[OF E N(2) parse_to_hex[OF E, of 2], of "[]"]
  have "\<exists>m1 k s_hex m2.
      client_step2 toy_env \<lparr>cl_a = 3, cl_a_pub = srp_g ^ 3 mod srp_N\<rparr> [] [] []
        (server_step1 toy_env \<lparr>sv_b = 5, sv_b_pub = (srp_k * 2 mod srp_N + srp_g ^ 5 mod srp_N) mod srp_N, sv_verifier = 2, sv_salt = []\<rparr>)
        = Inr (m1, k, s_hex)
      \<and> server_step2 toy_env \<lparr>sv_b = 5, sv_b_pub = (srp_k * 2 mod srp_N + srp_g ^ 5 mod srp_N) mod srp_N, sv_verifier = 2, sv_salt = []\<rparr>
        (client_step1 toy_env \<lparr>cl_a = 3, cl_a_pub = srp_g ^ 3 mod srp_N\<rparr>) m1 = Inr m2
      \<and> verify_m2 toy_env (client_step1 toy_env \<lparr>cl_a = 3, cl_a_pub = srp_g ^ 3 mod srp_N\<rparr>) m1 s_hex m2"
    by (rule srp_login_agrees[OF E N(1,2) toy_compute_x v c s])
      (simp_all add: compute_u_def parse_expect_def toy_hash srp_N_def srp_k_def srp_g_def)
  then show ?thesis using c s by blast
qed

section \<open>Guards\<close>

definition is_panic :: "srp_error + 'a \<Rightarrow> bool" where
  "is_panic r \<longleftrightarrow> (\<exists>m. r = Inl (SrpPanic m))"

text \<open>Bounds on the client: whatever text the server sends as its public value, the client's step ends with proofs or
  with an error value. No base or exponent outgrows the fixed buffers of the constant-time power, since the secret is
  below \<open>N\<close> and both hashes have 256 bits.\<close>

theorem client_never_panics:
  assumes E: "env_ok E" and c: "cl_a c < srp_N"
  shows "\<not> is_panic (client_step2 E c salt i p b_hex)"
proof (cases "e_parse16 E b_hex")
  case None
  then show ?thesis by (simp add: client_step2_def parse_hex_biguint_def is_panic_def)
next
  case (Some B)
  obtain x where x: "compute_x E salt i p = Inr x" using compute_x_ok[OF E] by blast
  obtain u where u: "compute_u E (to_hex E (cl_a_pub c)) b_hex = Inr u" using compute_u_ok[OF E] by blast
  show ?thesis
  proof (cases "B mod srp_N = 0 \<or> u = 0")
    case True
    then show ?thesis using Some x u by (auto simp: client_step2_def parse_hex_biguint_def is_panic_def)
  next
    case False
    then show ?thesis using client_step2_ok[OF E c Some _ x u] by (simp only: is_panic_def) simp
  qed
qed

theorem client_never_panics_witness:
  "\<not> is_panic (client_step2 toy_env \<lparr>cl_a = 3, cl_a_pub = 8\<rparr> [] [] [] [120])"
  by (rule client_never_panics[OF toy_env_ok]) (simp add: srp_N_def)

text \<open>The server refuses every public value that is a multiple of the modulus, and answers a login with its own
  proof only when the client's proof is the expected one.\<close>

theorem server_accepts_only_proof:
  assumes E: "env_ok E" and sv: "sv_b sv < srp_N" "sv_verifier sv < 256 ^ 256" and m2: "server_step2 E sv a_hex m1 = Inr m2"
  shows "\<exists>A u. e_parse16 E a_hex = Some A \<and> A mod srp_N \<noteq> 0 \<and> compute_u E a_hex (server_step1 E sv) = Inr u \<and> u \<noteq> 0
    \<and> m1 = strip0 (srp_h E [a_hex, server_step1 E sv,
          to_hex E ((A * (sv_verifier sv ^ u mod srp_N) mod srp_N) ^ sv_b sv mod srp_N)])"
proof -
  obtain A where A: "e_parse16 E a_hex = Some A" "A mod srp_N \<noteq> 0"
    using m2 by (cases "e_parse16 E a_hex") (auto simp: server_step2_def parse_hex_biguint_def split: if_splits)
  obtain u where u: "compute_u E a_hex (to_hex E (sv_b_pub sv)) = Inr u" using compute_u_ok[OF E] by blast
  have u0: "u \<noteq> 0"
  proof
    assume "u = 0"
    then have "server_step2 E sv a_hex m1 = Inl InvalidPublicKey" using A u by (simp add: server_step2_def parse_hex_biguint_def)
    with m2 show False by simp
  qed
  let ?m = "strip0 (srp_h E [a_hex, to_hex E (sv_b_pub sv), to_hex E ((A * (sv_verifier sv ^ u mod srp_N) mod srp_N) ^ sv_b sv mod srp_N)])"
  have "ct_proof_eq ?m m1" using m2 unfolding server_step2_ok[OF E sv A u u0] by (simp split: if_splits)
  then have "m1 = ?m" by (simp add: ct_proof_eq_exact)
  then show ?thesis using A u u0 unfolding server_step1_def by blast
qed

theorem server_accepts_only_proof_witness:
  "\<exists>m1 m2 A u. server_step2 toy_env \<lparr>sv_b = 5, sv_b_pub = 7, sv_verifier = 2, sv_salt = []\<rparr> (to_hex toy_env 8) m1 = Inr m2
    \<and> e_parse16 toy_env (to_hex toy_env 8) = Some A \<and> A mod srp_N \<noteq> 0 \<and> u \<noteq> 0
    \<and> m1 = strip0 (srp_h toy_env [to_hex toy_env 8, server_step1 toy_env \<lparr>sv_b = 5, sv_b_pub = 7, sv_verifier = 2, sv_salt = []\<rparr>,
          to_hex toy_env ((A * (2 ^ u mod srp_N) mod srp_N) ^ 5 mod srp_N)])"
proof -
  let ?sv = "\<lparr>sv_b = 5, sv_b_pub = 7, sv_verifier = 2, sv_salt = []\<rparr>"
  have b: "sv_b ?sv < srp_N" "sv_verifier ?sv < 256 ^ 256" and m: "8 mod srp_N \<noteq> 0" by (simp_all add: srp_N_def)
  have u: "compute_u toy_env (to_hex toy_env 8) (to_hex toy_env (sv_b_pub ?sv)) = Inr 1"
    by (simp add: compute_u_def parse_expect_def toy_hash)
  have "\<exists>m1 m2. server_step2 toy_env ?sv (to_hex toy_env 8) m1 = Inr m2"
    unfolding server_step2_ok[OF toy_env_ok b parse_to_hex[OF toy_env_ok] m u one_neq_zero]
    by (rule exI, rule exI, subst if_not_P, rule notI, erule notE, rule proof_accepted[OF toy_env_ok], rule refl)
  then obtain m1 m2 where s: "server_step2 toy_env ?sv (to_hex toy_env 8) m1 = Inr m2" by blast
  from server_accepts_only_proof[OF toy_env_ok b s] show ?thesis using s unfolding srp_server.simps by blast
qed



section \<open>The random secrets\<close>

lemma random_in_range_sound: "random_in_range E rng i n = Some r \<Longrightarrow> 1 \<le> r \<and> r < n"
proof (induction rule: random_in_range.raw_induct[rotated 1, consumes 1])
  case (1 random_in_range E rng i n r)
  then show ?case by (auto simp: Let_def split: if_splits)
qed

lemma random_in_range_ends:
  assumes "1 \<le> e_from_be E (rng (i + d))" "e_from_be E (rng (i + d)) < n"
  shows "\<exists>r. random_in_range E rng i n = Some r"
  using assms
proof (induction d arbitrary: i)
  case (Suc d)
  show ?case
  proof (cases "1 \<le> e_from_be E (rng i) \<and> e_from_be E (rng i) < n")
    case False
    then have "random_in_range E rng i n = random_in_range E rng (i + 1) n" by (subst random_in_range.simps) (auto simp: Let_def)
    then show ?thesis using Suc.IH[of "i + 1"] Suc.prems by simp
  qed (subst random_in_range.simps, simp)
qed (subst random_in_range.simps, simp)

text \<open>The secret exponent: as soon as the generator returns one number between 1 and \<open>n\<close>, the sampling loop ends,
  and what it returns lies in that range.\<close>

theorem random_secret_in_range:
  assumes "1 \<le> e_from_be E (rng d)" "e_from_be E (rng d) < n"
  shows "\<exists>r. random_in_range E rng 0 n = Some r \<and> 1 \<le> r \<and> r < n"
  using random_in_range_ends[of E rng 0 d n] random_in_range_sound assms by fastforce

theorem random_secret_in_range_witness: "\<exists>r. random_in_range toy_env (\<lambda>i. [of_nat i]) 0 5 = Some r \<and> 1 \<le> r \<and> r < 5"
  by (rule random_secret_in_range[where d = 3]) (simp_all add: toy_env_def)

section \<open>The envelope\<close>

text \<open>Envelope round trip: a root key sealed under a password, with its salt in the envelope, is opened by the password
  alone, for every salt of fewer than 65536 bytes.\<close>

theorem envelope_roundtrip:
  assumes "prims_ok P" "e_argon E password salt = Some kek" "length kek = 32"
    and "length salt < 2 ^ 16" "length nonce = 12" "length key = 32"
  shows "\<exists>env. wrap_root_key_envelope P E nonce password salt key = Inr env \<and> unwrap_root_key_envelope P E password env = Inr key"
proof -
  have "unat (u16_from_le (u16_to_le (word_of_nat (length salt)))) = length salt"
    using assms(4) by (simp only: u16_le_inverse unat_of_nat_less len_num1 len_bit0 len_bit1) (simp add: unat_of_nat_less)
  then show ?thesis
    using assms by (simp add: wrap_root_key_envelope_def unwrap_root_key_envelope_def wrap_root_key_def unwrap_root_key_def
        srp_derive_kek_def cipher_encrypt_def cipher_decrypt_def prims_ok_def Let_def)
qed

theorem envelope_roundtrip_witness:
  "\<exists>env. wrap_root_key_envelope toy_prims toy_env (replicate 12 1) [112, 119] [7, 8] (replicate 32 5) = Inr env
     \<and> unwrap_root_key_envelope toy_prims toy_env [112, 119] env = Inr (replicate 32 5)"
  by (rule envelope_roundtrip[OF toy_prims_ok, where kek = "replicate 32 9"]) (simp_all add: toy_env_def)

end
