(* ===== verification/Recovery_Code.thy ===== *)
theory Recovery_Code
  imports Srp Fragments
begin

unbundle bit_operations_syntax

text \<open>
  The recovery code of \<^verbatim>\<open>sfs-saas/src/recovery.rs\<close>: 32 random bytes in Crockford base 32, grouped by hyphens
  for the reader, and the blob that holds the root key under it. The key derivation (Argon2id) and the cipher are
  parameters, and the errors are those of \<open>Srp\<close>. The lemmas read the encoder and the decoder as transformations of one stream of bits.
\<close>

section \<open>The code\<close>

definition CROCKFORD :: bytes where
  "CROCKFORD = ascii ''0123456789ABCDEFGHJKMNPQRSTVWXYZ''"

fun encode_drain :: "u64 \<Rightarrow> nat \<Rightarrow> bytes \<Rightarrow> nat \<times> bytes" where
  "encode_drain buf bits out =
     (if bits \<ge> 5
      then encode_drain buf (bits - 5) (out @ [CROCKFORD ! unat (drop_bit (bits - 5) buf AND 0x1f)])
      else (bits, out))"

declare encode_drain.simps [simp del]

fun encode_loop :: "bytes \<Rightarrow> u64 \<Rightarrow> nat \<Rightarrow> bytes \<Rightarrow> u64 \<times> nat \<times> bytes" where
  "encode_loop [] buf bits out = (buf, bits, out)"
| "encode_loop (byte # bytes) buf bits out =
     (let buf = push_bit 8 buf OR ucast byte;
          (bits, out) = encode_drain buf (bits + 8) out
      in encode_loop bytes buf bits out)"

definition crockford_encode :: "bytes \<Rightarrow> bytes" where
  "crockford_encode bytes =
     (let (buf, bits, out) = encode_loop bytes 0 0 []
      in if bits > 0 then out @ [CROCKFORD ! unat (push_bit (5 - bits) buf AND 0x1f)] else out)"

text \<open>Index of the first element, as \<^verbatim>\<open>Iterator::position\<close> returns it.\<close>

fun position :: "('a \<Rightarrow> bool) \<Rightarrow> 'a list \<Rightarrow> nat option" where
  "position p [] = None"
| "position p (x # xs) = (if p x then Some 0 else map_option Suc (position p xs))"

text \<open>
  A string to decode is a list of code points; \<open>upper\<close> is the upper-case mapping of the standard library on one
  code point. The comparison takes the low byte of the code point, as the cast in the source does.
\<close>

fun decode_loop :: "nat list \<Rightarrow> u64 \<Rightarrow> nat \<Rightarrow> bytes \<Rightarrow> bytes option" where
  "decode_loop [] buf bits out = Some out"
| "decode_loop (ch # chs) buf bits out =
     (case position (\<lambda>c. c = word_of_nat ch) CROCKFORD of
        None \<Rightarrow> None
      | Some v \<Rightarrow>
          let buf = push_bit 5 buf OR word_of_nat v;
              bits = bits + 5
          in if bits \<ge> 8 then decode_loop chs buf (bits - 8) (out @ [ucast (drop_bit (bits - 8) buf)])
             else decode_loop chs buf bits out)"

definition crockford_decode :: "(nat \<Rightarrow> nat list) \<Rightarrow> nat list \<Rightarrow> bytes option" where
  "crockford_decode upper s = decode_loop (concat (map upper s)) 0 0 []"

text \<open>Grouping: the chunks are those of \<open>Fragments\<close>.\<close>

fun join :: "'a list \<Rightarrow> 'a list list \<Rightarrow> 'a list" where
  "join sep [] = []"
| "join sep [xs] = xs"
| "join sep (xs # xss) = xs @ sep @ join sep xss"

definition generate_recovery_code :: "bytes \<Rightarrow> bytes" where
  "generate_recovery_code random = join (ascii ''-'') (chunks 8 (crockford_encode random))"

section \<open>The blob\<close>

definition BLOB_SALT_LEN :: nat where "BLOB_SALT_LEN = 16"
definition BLOB_NONCE_LEN :: nat where "BLOB_NONCE_LEN = 12"
definition BLOB_MIN_LEN :: nat where "BLOB_MIN_LEN = BLOB_SALT_LEN + BLOB_NONCE_LEN + 16"

text \<open>\<open>argon secret salt\<close> is the derived key, or nothing where the library refuses its input.\<close>

type_synonym argon = "bytes \<Rightarrow> bytes \<Rightarrow> bytes option"

definition derive_kek :: "argon \<Rightarrow> bytes \<Rightarrow> bytes \<Rightarrow> srp_error + bytes" where
  "derive_kek argon secret salt = (case argon secret salt of None \<Rightarrow> Inl AesGcm | Some kek \<Rightarrow> Inr kek)"

definition wrap_with_secret :: "prims \<Rightarrow> argon \<Rightarrow> bytes \<Rightarrow> bytes \<Rightarrow> bytes \<Rightarrow> bytes \<Rightarrow> srp_error + bytes" where
  "wrap_with_secret P argon salt nonce secret root_key =
     bind_e (derive_kek argon secret salt) (\<lambda>kek.
     bind_e (cipher_encrypt P kek nonce root_key) (\<lambda>ct.
     Inr (salt @ nonce @ ct)))"

definition unwrap_with_secret :: "prims \<Rightarrow> argon \<Rightarrow> bytes \<Rightarrow> bytes \<Rightarrow> srp_error + bytes" where
  "unwrap_with_secret P argon secret blob =
     (if length blob < BLOB_MIN_LEN then Inl AesGcm
      else let salt = take BLOB_SALT_LEN blob; rest = drop BLOB_SALT_LEN blob;
               nonce = take BLOB_NONCE_LEN rest; ct = drop BLOB_NONCE_LEN rest
           in bind_e (derive_kek argon secret salt) (\<lambda>kek.
              bind_e (cipher_decrypt P kek nonce ct) (\<lambda>plaintext.
              if length plaintext \<noteq> 32 then Inl AesGcm else Inr plaintext)))"

definition strip_hyphens :: "bytes \<Rightarrow> bytes" where
  "strip_hyphens s = filter (\<lambda>c. c \<noteq> 45) s"

definition wrap_root_key_recovery :: "prims \<Rightarrow> argon \<Rightarrow> bytes \<Rightarrow> bytes \<Rightarrow> bytes \<Rightarrow> bytes \<Rightarrow> srp_error + bytes" where
  "wrap_root_key_recovery P argon salt nonce recovery_code root_key =
     wrap_with_secret P argon salt nonce (strip_hyphens recovery_code) root_key"

definition recover_root_key :: "prims \<Rightarrow> argon \<Rightarrow> bytes \<Rightarrow> bytes \<Rightarrow> srp_error + bytes" where
  "recover_root_key P argon recovery_code recovery_blob =
     unwrap_with_secret P argon (strip_hyphens recovery_code) recovery_blob"

section \<open>The stream of bits\<close>

definition pend :: "'a :: len word \<Rightarrow> nat \<Rightarrow> bool list" where
  "pend w n = map (bit w) (rev [0..<n])"

lemma length_pend [simp]: "length (pend w n) = n"
  by (simp add: pend_def)

lemma pend_cong: "(\<And>i. i < n \<Longrightarrow> bit v i = bit w i) \<Longrightarrow> pend v n = pend w n"
  by (simp add: pend_def)

lemma pend_split: "pend w (m + n) = pend (drop_bit n w) m @ pend w n"
proof -
  have "[0..<m + n] = [0..<n] @ map (\<lambda>i. i + n) [0..<m]"
    unfolding map_add_upt using upt_add_eq_append[of 0 n m] by (simp add: add.commute)
  then show ?thesis by (simp add: pend_def rev_map bit_drop_bit_eq o_def add.commute)
qed

lemma pend_shift:
  assumes "m + n \<le> LENGTH('a)" "\<And>i. bit v i \<Longrightarrow> i < n"
  shows "pend (push_bit n w OR v :: 'a :: len word) (m + n) = pend w m @ pend v n"
proof -
  have "pend (drop_bit n (push_bit n w OR v)) m = pend w m"
    using assms by (intro pend_cong) (auto simp: bit_simps dest: assms(2))
  moreover have "pend (push_bit n w OR v) n = pend v n" by (intro pend_cong) (auto simp: bit_simps)
  ultimately show ?thesis by (simp add: pend_split)
qed

lemma pend_ucast: "n \<le> LENGTH('a) \<Longrightarrow> n \<le> LENGTH('b) \<Longrightarrow> pend (ucast (w :: 'a :: len word) :: 'b :: len word) n = pend w n"
  by (intro pend_cong) (auto simp: bit_simps)

lemma pend_5: "pend (w AND 0x1f) 5 = pend (w :: u64) 5"
proof -
  have m: "(0x1f :: u64) = mask 5" by (simp add: mask_eq_exp_minus_1)
  show ?thesis unfolding m by (rule pend_cong) (simp add: bit_and_iff bit_mask_iff)
qed

lemma pend_inj: "pend v LENGTH('a) = pend (w :: 'a :: len word) LENGTH('a) \<Longrightarrow> v = w"
  by (auto simp: pend_def intro: bit_word_eqI)

definition bits5 :: "u64 list \<Rightarrow> bool list" where
  "bits5 vs = concat (map (\<lambda>v. pend v 5) vs)"

definition bits8 :: "bytes \<Rightarrow> bool list" where
  "bits8 bs = concat (map (\<lambda>b. pend b 8) bs)"

lemma bits_simps [simp]:
  "bits5 [] = []" "bits5 (v # vs) = pend v 5 @ bits5 vs" "bits5 (vs @ us) = bits5 vs @ bits5 us"
  "bits8 [] = []" "bits8 (b # bs) = pend b 8 @ bits8 bs"
  by (simp_all add: bits5_def bits8_def)

lemma length_bits8: "length (bits8 bs) = 8 * length bs"
  by (induction bs) simp_all

lemma bits8_inj: "length as = length bs \<Longrightarrow> bits8 as = bits8 bs \<Longrightarrow> as = bs"
proof (induction as bs rule: list_induct2)
  case (Cons a as b bs)
  then show ?case using pend_inj[of a b] by simp
qed simp

lemma bits8_prefix:
  assumes "bits8 as @ r = bits8 bs @ q" "length r < 8" "length q < 8"
  shows "as = bs"
proof (rule bits8_inj)
  have "8 * length as + length r = 8 * length bs + length q"
    using arg_cong[OF assms(1), of length] by (simp add: length_bits8)
  then show "length as = length bs" using assms(2,3) by presburger
  then show "bits8 as = bits8 bs" using assms(1) by (simp add: length_bits8)
qed

section \<open>The alphabet\<close>

abbreviation sym5 :: "u64 \<Rightarrow> u8" where
  "sym5 v \<equiv> CROCKFORD ! unat v"

lemma CROCKFORD_facts: "length CROCKFORD = 32" "distinct CROCKFORD" "45 \<notin> set CROCKFORD"
  by (simp_all add: CROCKFORD_def ascii_def)

lemma position_nth: "distinct xs \<Longrightarrow> i < length xs \<Longrightarrow> position (\<lambda>c. c = xs ! i) xs = Some i"
proof (induction xs arbitrary: i)
  case (Cons x xs)
  then show ?case by (cases i) auto
qed simp

lemma small: "unat (w AND 0x1f :: u64) < 32"
  using word_and_le1[of w "0x1f"] by (simp add: word_le_nat_alt and.commute)

section \<open>The encoder\<close>

lemma encode_drain:
  assumes "encode_drain buf bits out = (bits', out')"
  shows "\<exists>vs. out' = out @ map sym5 vs \<and> (\<forall>v\<in>set vs. unat v < 32) \<and> bits' < 5 \<and> bits5 vs @ pend buf bits' = pend buf bits"
  using assms
proof (induction buf bits out rule: encode_drain.induct)
  case (1 buf bits out)
  show ?case
  proof (cases "bits \<ge> 5")
    case True
    let ?v = "drop_bit (bits - 5) buf AND 0x1f"
    have "encode_drain buf (bits - 5) (out @ [sym5 ?v]) = (bits', out')" using "1.prems" True by (simp add: encode_drain.simps)
    from "1.IH"[OF True this] obtain vs where vs: "out' = (out @ [sym5 ?v]) @ map sym5 vs" "\<forall>v\<in>set vs. unat v < 32"
      "bits' < 5" "bits5 vs @ pend buf bits' = pend buf (bits - 5)" by blast
    moreover have "pend buf bits = pend ?v 5 @ pend buf (bits - 5)"
      using pend_split[of buf 5 "bits - 5"] True by (simp add: pend_5)
    ultimately show ?thesis using small by (intro exI[of _ "?v # vs"]) simp
  next
    case False
    then show ?thesis using "1.prems" by (intro exI[of _ "[]"]) (simp add: encode_drain.simps)
  qed
qed

lemma encode_loop:
  assumes "encode_loop bs buf bits out = (buf', bits', out')" "bits < 5"
  shows "\<exists>vs. out' = out @ map sym5 vs \<and> (\<forall>v\<in>set vs. unat v < 32) \<and> bits' < 5 \<and> bits5 vs @ pend buf' bits' = pend buf bits @ bits8 bs"
  using assms
proof (induction bs arbitrary: buf bits out)
  case Nil
  then show ?case by (intro exI[of _ "[]"]) simp
next
  case (Cons b bs)
  let ?buf = "push_bit 8 buf OR ucast b :: u64"
  obtain bits1 out1 where d: "encode_drain ?buf (bits + 8) out = (bits1, out1)" by fastforce
  from encode_drain[OF d] obtain vs where vs: "out1 = out @ map sym5 vs" "\<forall>v\<in>set vs. unat v < 32" "bits1 < 5"
    "bits5 vs @ pend ?buf bits1 = pend ?buf (bits + 8)" by blast
  have "encode_loop bs ?buf bits1 out1 = (buf', bits', out')" using Cons.prems(1) d by (simp add: Let_def)
  from Cons.IH[OF this vs(3)] obtain us where us: "out' = out1 @ map sym5 us" "\<forall>v\<in>set us. unat v < 32" "bits' < 5"
    "bits5 us @ pend buf' bits' = pend ?buf bits1 @ bits8 bs" by blast
  have "pend ?buf (bits + 8) = pend buf bits @ pend b 8"
  proof -
    have "bit (ucast b :: u64) i \<Longrightarrow> i < 8" for i by (auto simp: bit_simps dest: bit_imp_le_length)
    then show ?thesis using Cons.prems(2) by (subst pend_shift) (simp_all add: pend_ucast)
  qed
  with vs us have "bits5 (vs @ us) @ pend buf' bits' = pend buf bits @ bits8 (b # bs)"
    by (metis append.assoc bits_simps(3,5))
  then show ?case using vs us by (intro exI[of _ "vs @ us"]) auto
qed

lemma crockford_encode_stream:
  "\<exists>vs pad. crockford_encode bs = map sym5 vs \<and> (\<forall>v\<in>set vs. unat v < 32) \<and> pad < 5 \<and> bits5 vs = bits8 bs @ replicate pad False"
proof -
  obtain buf bits out where e: "encode_loop bs 0 0 [] = (buf, bits, out)" by (cases "encode_loop bs 0 0 []") auto
  from encode_loop[OF e] obtain vs where vs: "out = map sym5 vs" "\<forall>v\<in>set vs. unat v < 32" "bits < 5"
    "bits5 vs @ pend buf bits = bits8 bs" by (auto simp: pend_def)
  show ?thesis
  proof (cases "bits > 0")
    case True
    let ?v = "push_bit (5 - bits) buf AND 0x1f"
    have "pend ?v 5 = pend buf bits @ replicate (5 - bits) False"
    proof -
      have "pend (push_bit (5 - bits) buf OR 0) (bits + (5 - bits)) = pend buf bits @ pend (0 :: u64) (5 - bits)"
        using vs(3) by (intro pend_shift) simp_all
      moreover have "pend (0 :: u64) n = replicate n False" for n by (rule replicate_eqI) (auto simp: pend_def)
      ultimately show ?thesis using vs(3) by (simp add: pend_5)
    qed
    then show ?thesis
      using e vs True small by (intro exI[of _ "vs @ [?v]"] exI[of _ "5 - bits"]) (auto simp: crockford_encode_def)
  next
    case False
    then show ?thesis using e vs by (intro exI[of _ vs] exI[of _ 0]) (auto simp: crockford_encode_def pend_def)
  qed
qed

section \<open>The decoder\<close>

lemma position_sym: "unat v < 32 \<Longrightarrow> position (\<lambda>c. c = word_of_nat (unat (sym5 v))) CROCKFORD = Some (unat v)"
  using position_nth[OF CROCKFORD_facts(2), of "unat v"] by (simp add: CROCKFORD_facts(1))

lemma bit_small: "unat (v :: u64) < 32 \<Longrightarrow> bit v i \<Longrightarrow> i < 5"
proof (rule ccontr)
  assume v: "unat v < 32" and b: "bit v i" and i: "\<not> i < 5"
  have "take_bit 5 v = v" using v by (simp add: word_unat_eq_iff unsigned_take_bit_eq take_bit_nat_eq_self)
  then have "bit (take_bit 5 v) i" using b by simp
  then show False using i by (simp add: bit_take_bit_iff)
qed

lemma decode_loop:
  assumes "\<forall>v\<in>set vs. unat v < 32" "bits < 8"
  shows "\<exists>os r. decode_loop (map (\<lambda>v. unat (sym5 v)) vs) buf bits out = Some (out @ os) \<and> length r < 8
    \<and> bits8 os @ r = pend buf bits @ bits5 vs"
  using assms
proof (induction vs arbitrary: buf bits out)
  case Nil
  then show ?case by (intro exI[of _ "[]"] exI[of _ "pend buf bits"]) simp
next
  case (Cons v vs)
  let ?buf = "push_bit 5 buf OR v" and ?bits = "bits + 5"
  have p: "position (\<lambda>c. c = word_of_nat (unat (sym5 v))) CROCKFORD = Some (unat v)" using position_sym Cons.prems(1) by simp
  have s: "pend ?buf ?bits = pend buf bits @ pend v 5"
    using Cons.prems bit_small[of v] by (intro pend_shift) simp_all
  have vs: "\<forall>v\<in>set vs. unat v < 32" using Cons.prems(1) by simp
  show ?case
  proof (cases "?bits \<ge> 8")
    case True
    let ?b = "ucast (drop_bit (?bits - 8) ?buf) :: u8"
    obtain os r where IH: "decode_loop (map (\<lambda>v. unat (sym5 v)) vs) ?buf (?bits - 8) (out @ [?b]) = Some ((out @ [?b]) @ os)"
      "length r < 8" "bits8 os @ r = pend ?buf (?bits - 8) @ bits5 vs"
      using Cons.IH[OF vs, of "?bits - 8" ?buf "out @ [?b]"] Cons.prems(2) by fastforce
    have "pend ?buf ?bits = pend ?b 8 @ pend ?buf (?bits - 8)"
      using pend_split[of ?buf 8 "?bits - 8"] True by (simp add: pend_ucast add.commute)
    then have "bits8 (?b # os) @ r = pend buf bits @ bits5 (v # vs)" using IH(3) s by (metis append.assoc bits_simps(2,5))
    then show ?thesis using IH(1,2) p True by (intro exI[of _ "?b # os"] exI[of _ r]) (simp add: Let_def)
  next
    case False
    obtain os r where IH: "decode_loop (map (\<lambda>v. unat (sym5 v)) vs) ?buf ?bits out = Some (out @ os)"
      "length r < 8" "bits8 os @ r = pend ?buf ?bits @ bits5 vs"
      using Cons.IH[OF vs, of ?bits ?buf out] False by fastforce
    then show ?thesis using p False s by (intro exI[of _ os] exI[of _ r]) (simp add: Let_def)
  qed
qed

text \<open>The base-32 text of every byte string decodes to that byte string; of the upper-case mapping only that it
  leaves the characters of the alphabet alone is used.\<close>

theorem crockford_roundtrip:
  assumes "\<And>c. c \<in> set CROCKFORD \<Longrightarrow> upper (unat c) = [unat c]"
  shows "crockford_decode upper (map unat (crockford_encode bs)) = Some bs"
proof -
  obtain vs pad where vs: "crockford_encode bs = map sym5 vs" "\<forall>v\<in>set vs. unat v < 32" "pad < 5"
    "bits5 vs = bits8 bs @ replicate pad False" using crockford_encode_stream by blast
  have "concat (map upper (map unat (map sym5 vs))) = map (\<lambda>v. unat (sym5 v)) vs"
    using vs(2) assms by (induction vs) (simp_all add: CROCKFORD_facts(1))
  moreover obtain os r where os: "decode_loop (map (\<lambda>v. unat (sym5 v)) vs) 0 0 [] = Some os" "length r < 8" "bits8 os @ r = bits5 vs"
    using decode_loop[OF vs(2), of 0 0 "[]"] by (auto simp: pend_def)
  moreover have "os = bs" by (rule bits8_prefix[of _ r _ "replicate pad False"]) (use os vs in simp_all)
  ultimately show ?thesis using vs(1) by (simp add: crockford_decode_def)
qed

theorem crockford_roundtrip_witness:
  "crockford_decode (\<lambda>c. [if 97 \<le> c \<and> c \<le> 122 then c - 32 else c]) (map unat (crockford_encode [1, 200, 77])) = Some [1, 200, 77]"
  by (rule crockford_roundtrip) (auto simp: CROCKFORD_def ascii_def)

text \<open>A code point is compared by its low byte only: U+0130, an upper-case letter, passes for the digit 0.\<close>

lemma decode_accepts_foreign: "upper 304 = [304] \<Longrightarrow> crockford_decode upper [304, 304] = Some [0]"
  by (simp add: crockford_decode_def CROCKFORD_def ascii_def)

section \<open>The code as the user types it\<close>

lemma strip_join: "strip_hyphens (join (ascii ''-'') xss) = concat (map strip_hyphens xss)"
  by (induction "ascii ''-''" xss rule: join.induct) (auto simp: strip_hyphens_def ascii_def)

lemma strip_generated: "strip_hyphens (generate_recovery_code random) = crockford_encode random"
proof -
  obtain vs where vs: "crockford_encode random = map sym5 vs" "\<forall>v\<in>set vs. unat v < 32" using crockford_encode_stream by blast
  have "concat (map strip_hyphens (chunks 8 xs)) = strip_hyphens (concat (chunks 8 xs))" for xs
    by (simp add: strip_hyphens_def[abs_def] filter_concat)
  moreover have "strip_hyphens (map sym5 vs) = map sym5 vs"
    unfolding strip_hyphens_def using vs(2) CROCKFORD_facts by (auto simp: filter_id_conv) (metis nth_mem)
  ultimately show ?thesis unfolding generate_recovery_code_def strip_join using vs(1) by (simp add: concat_chunks)
qed

lemma unwrap_wrap:
  assumes "prims_ok P" "argon secret salt = Some kek" "length kek = 32" "length salt = 16" "length nonce = 12" "length key = 32"
  shows "\<exists>blob. wrap_with_secret P argon salt nonce secret key = Inr blob \<and> length blob = 76
    \<and> unwrap_with_secret P argon secret blob = Inr key"
  using assms by (simp add: wrap_with_secret_def unwrap_with_secret_def derive_kek_def cipher_encrypt_def cipher_decrypt_def
      prims_ok_def BLOB_MIN_LEN_def BLOB_SALT_LEN_def BLOB_NONCE_LEN_def Let_def)

text \<open>Recovery: a root key wrapped under a generated code is a blob of 76 bytes, and the code opens it again, with
  its hyphens or without them.\<close>

theorem recovery_code_opens:
  assumes "prims_ok P" "argon (crockford_encode random) salt = Some kek" "length kek = 32"
    and "length salt = 16" "length nonce = 12" "length key = 32"
  shows "\<exists>blob. wrap_root_key_recovery P argon salt nonce (generate_recovery_code random) key = Inr blob \<and> length blob = 76
    \<and> recover_root_key P argon (generate_recovery_code random) blob = Inr key
    \<and> recover_root_key P argon (crockford_encode random) blob = Inr key"
proof -
  have "strip_hyphens (crockford_encode random) = crockford_encode random"
    using arg_cong[OF strip_generated, of strip_hyphens random] strip_generated[of random] by (simp add: strip_hyphens_def)
  then show ?thesis
    using unwrap_wrap[of P argon "crockford_encode random" salt kek nonce key] assms strip_generated
    by (simp add: wrap_root_key_recovery_def recover_root_key_def)
qed

theorem recovery_code_opens_witness:
  "\<exists>blob. wrap_root_key_recovery toy_prims (\<lambda>_ _. Some (replicate 32 9)) (replicate 16 1) (replicate 12 2)
       (generate_recovery_code [1, 2, 3]) (replicate 32 5) = Inr blob \<and> length blob = 76
     \<and> recover_root_key toy_prims (\<lambda>_ _. Some (replicate 32 9)) (generate_recovery_code [1, 2, 3]) blob = Inr (replicate 32 5)
     \<and> recover_root_key toy_prims (\<lambda>_ _. Some (replicate 32 9)) (crockford_encode [1, 2, 3]) blob = Inr (replicate 32 5)"
  by (rule recovery_code_opens[where kek = "replicate 32 9"]) (simp_all add: toy_prims_ok)

end
