(* ===== verification/Negotiate.thy ===== *)
theory Negotiate
  imports Crypto "HOL-Library.Product_Lexorder"
begin

text \<open>
  The choice of a cipher suite by several peers, from \<^verbatim>\<open>sfs-core/src/crypto/negotiate.rs\<close>: among the suites
  all of them support, the one whose worst rank is smallest, ties going to the stronger suite. Every peer runs it on its own
  list first, so it matters that the order of the peers does not.
\<close>

section \<open>The code\<close>

record ranked_cap =
  rc_suite :: cipher_suite_id
  rc_rank :: u8

definition SECURITY_ORDER :: "cipher_suite_id list" where
  "SECURITY_ORDER = [CIPHER_AES256_GCM, CIPHER_XTS_AES256, CIPHER_NONE]"

fun index_of :: "'a \<Rightarrow> 'a list \<Rightarrow> nat option" where
  "index_of x [] = None"
| "index_of x (y # ys) = (if y = x then Some 0 else map_option Suc (index_of x ys))"

definition security_rank :: "cipher_suite_id \<Rightarrow> u8" where
  "security_rank sid = (case index_of sid SECURITY_ORDER of Some p \<Rightarrow> word_of_nat p | None \<Rightarrow> 255)"

definition rank_at :: "cipher_suite_id \<Rightarrow> ranked_cap list \<Rightarrow> u8" where
  "rank_at sid peer = (case List.find (\<lambda>rc. rc_suite rc = sid) peer of Some rc \<Rightarrow> rc_rank rc | None \<Rightarrow> 255)"

definition worst_rank :: "ranked_cap list list \<Rightarrow> cipher_suite_id \<Rightarrow> u8" where
  "worst_rank peers sid = (case map (rank_at sid) peers of [] \<Rightarrow> 255 | r # rs \<Rightarrow> foldl max r rs)"

fun intersect_loop :: "ranked_cap list list \<Rightarrow> cipher_suite_id list \<Rightarrow> cipher_suite_id list option" where
  "intersect_loop [] common = Some common"
| "intersect_loop (peer # peers) common =
     (let common = filter (\<lambda>sid. sid \<in> set (map rc_suite peer)) common
      in if common = [] then None else intersect_loop peers common)"

text \<open>The first minimum, as \<^verbatim>\<open>Iterator::min_by\<close> returns it.\<close>

fun min_by :: "('a \<Rightarrow> 'a \<Rightarrow> bool) \<Rightarrow> 'a list \<Rightarrow> 'a option" where
  "min_by lt [] = None"
| "min_by lt (x # xs) = Some (foldl (\<lambda>best y. if lt y best then y else best) x xs)"

definition better :: "ranked_cap list list \<Rightarrow> cipher_suite_id \<Rightarrow> cipher_suite_id \<Rightarrow> bool" where
  "better peers a b \<longleftrightarrow>
     worst_rank peers a < worst_rank peers b
     \<or> worst_rank peers a = worst_rank peers b \<and> security_rank a < security_rank b"

definition negotiate :: "ranked_cap list list \<Rightarrow> cipher_suite_id option" where
  "negotiate peers =
     (case peers of
        [] \<Rightarrow> None
      | peer0 # rest \<Rightarrow>
          let common = map rc_suite peer0
          in if common = [] then None
             else case intersect_loop rest common of
                    None \<Rightarrow> None
                  | Some common \<Rightarrow>
                      let candidates = (if list_ex (\<lambda>sid. sid \<noteq> CIPHER_NONE) common
                                        then filter (\<lambda>sid. sid \<noteq> CIPHER_NONE) common else common)
                      in if candidates = [] then None else min_by (better peers) candidates)"

section \<open>The common suites\<close>

definition common_suites :: "ranked_cap list list \<Rightarrow> cipher_suite_id set" where
  "common_suites peers = (if peers = [] then {} else (\<Inter>p\<in>set peers. rc_suite ` set p))"

lemma intersect_loop_Some:
  "intersect_loop ps c = Some d \<Longrightarrow> set d = {sid \<in> set c. \<forall>p\<in>set ps. sid \<in> rc_suite ` set p}"
  by (induction ps c rule: intersect_loop.induct) (auto simp: Let_def split: if_splits)

lemma intersect_loop_None:
  "intersect_loop ps c = None \<Longrightarrow> {sid \<in> set c. \<forall>p\<in>set ps. sid \<in> rc_suite ` set p} = {}"
proof (induction ps c rule: intersect_loop.induct)
  case (2 p ps c)
  let ?f = "filter (\<lambda>sid. sid \<in> set (map rc_suite p)) c"
  have s: "{sid \<in> set c. \<forall>q\<in>set (p # ps). sid \<in> rc_suite ` set q} = {sid \<in> set ?f. \<forall>q\<in>set ps. sid \<in> rc_suite ` set q}" by auto
  show ?case
  proof (cases "?f = []")
    case True
    then show ?thesis unfolding s by simp
  next
    case False
    then have "intersect_loop ps ?f = None" using "2.prems" by (simp only: intersect_loop.simps Let_def if_False)
    then show ?thesis unfolding s using "2.IH"[OF refl False] by blast
  qed
qed simp

lemma intersect_loop_ne: "intersect_loop ps c = Some d \<Longrightarrow> c \<noteq> [] \<Longrightarrow> d \<noteq> []"
  by (induction ps c rule: intersect_loop.induct) (auto simp: Let_def split: if_splits)

lemma min_by_least:
  fixes key :: "'a \<Rightarrow> 'k :: linorder"
  assumes lt: "\<And>a b. lt a b \<longleftrightarrow> key a < key b" and m: "min_by lt xs = Some m"
  shows "m \<in> set xs" "\<And>y. y \<in> set xs \<Longrightarrow> key m \<le> key y"
proof -
  have fold: "foldl (\<lambda>best y. if lt y best then y else best) x ys \<in> insert x (set ys)
      \<and> (\<forall>y\<in>insert x (set ys). key (foldl (\<lambda>best y. if lt y best then y else best) x ys) \<le> key y)" for x ys
  proof (induction ys arbitrary: x)
    case (Cons y ys)
    show ?case
    proof (cases "lt y x")
      case True
      then show ?thesis using Cons[of y] lt[of y x] by (auto intro: order.trans less_imp_le)
    next
      case False
      then show ?thesis using Cons[of x] lt[of y x] by (auto intro: order.trans)
    qed
  qed simp
  from m obtain x ys where "xs = x # ys" "m = foldl (\<lambda>best y. if lt y best then y else best) x ys" by (cases xs) auto
  then show "m \<in> set xs" "\<And>y. y \<in> set xs \<Longrightarrow> key m \<le> key y" using fold[of x ys] by auto
qed

abbreviation suite_key :: "ranked_cap list list \<Rightarrow> cipher_suite_id \<Rightarrow> u8 \<times> u8" where
  "suite_key peers s \<equiv> (worst_rank peers s, security_rank s)"

lemma better_key: "better peers a b \<longleftrightarrow> suite_key peers a < suite_key peers b"
  by (auto simp: better_def less_prod_def')

text \<open>The suites among which the minimum is taken.\<close>

definition eligible :: "ranked_cap list list \<Rightarrow> cipher_suite_id set" where
  "eligible peers = (if common_suites peers - {CIPHER_NONE} = {} then common_suites peers else common_suites peers - {CIPHER_NONE})"

lemma negotiate_cases:
  obtains "negotiate peers = None" "eligible peers = {}"
  | xs where "set xs = eligible peers" "xs \<noteq> []" "negotiate peers = min_by (better peers) xs"
proof (cases peers)
  case Nil
  then show ?thesis using that(1) by (simp add: negotiate_def eligible_def common_suites_def)
next
  case (Cons p0 rest)
  have c: "common_suites peers = {sid \<in> set (map rc_suite p0). \<forall>p\<in>set rest. sid \<in> rc_suite ` set p}"
    using Cons by (auto simp: common_suites_def)
  show ?thesis
  proof (cases "intersect_loop rest (map rc_suite p0)")
    case None
    then show ?thesis using that(1) Cons intersect_loop_None[OF None] c by (simp add: negotiate_def eligible_def Let_def)
  next
    case (Some d)
    have d: "set d = common_suites peers" using intersect_loop_Some[OF Some] c by simp
    let ?c = "if list_ex (\<lambda>sid. sid \<noteq> CIPHER_NONE) d then filter (\<lambda>sid. sid \<noteq> CIPHER_NONE) d else d"
    have e: "set ?c = eligible peers" using d by (auto simp: eligible_def list_ex_iff)
    show ?thesis
    proof (cases "map rc_suite p0 = []")
      case True
      then show ?thesis using that(1) Cons c by (simp add: negotiate_def eligible_def)
    next
      case False
      then have "?c \<noteq> []" using intersect_loop_ne[OF Some False] by (auto simp: list_ex_iff filter_empty_conv)
      moreover from this have "negotiate peers = min_by (better peers) ?c" using Cons Some False by (simp add: negotiate_def Let_def)
      ultimately show ?thesis using that(2)[OF e] by blast
    qed
  qed
qed

lemma negotiate_Some:
  assumes "negotiate peers = Some s"
  shows "s \<in> eligible peers" "\<And>t. t \<in> eligible peers \<Longrightarrow> suite_key peers s \<le> suite_key peers t"
proof -
  obtain xs where xs: "set xs = eligible peers" "negotiate peers = min_by (better peers) xs"
    using assms by (cases rule: negotiate_cases[of peers]) auto
  then have m: "min_by (better peers) xs = Some s" using assms by simp
  note * = min_by_least[of "better peers" "suite_key peers", OF better_key m]
  show "s \<in> eligible peers" "\<And>t. t \<in> eligible peers \<Longrightarrow> suite_key peers s \<le> suite_key peers t" using * xs by auto
qed

lemma negotiate_None: "negotiate peers = None \<longleftrightarrow> eligible peers = {}"
proof (cases rule: negotiate_cases[of peers])
  case (2 xs)
  then obtain y ys where "xs = y # ys" by (cases xs) auto
  then have "negotiate peers \<noteq> None" "eligible peers \<noteq> {}" using 2 by auto
  then show ?thesis by simp
qed simp

lemma eligible_empty: "eligible peers = {} \<longleftrightarrow> common_suites peers = {}"
  by (auto simp: eligible_def)

section \<open>What is agreed\<close>

text \<open>Minimax: negotiation fails exactly when no suite is common to all peers. The agreed suite is common to all of them;
  it is the identity cipher only if nothing else is common; and no other eligible suite has a smaller worst rank, nor the
  same worst rank and a better security rank.\<close>

theorem negotiate_minimax:
  "(negotiate peers = None \<longleftrightarrow> common_suites peers = {})
   \<and> (negotiate peers = Some s \<longrightarrow> s \<in> common_suites peers \<and> (s = CIPHER_NONE \<longrightarrow> common_suites peers = {CIPHER_NONE})
       \<and> (\<forall>t \<in> common_suites peers - {CIPHER_NONE}. suite_key peers s \<le> suite_key peers t))"
proof (intro conjI impI)
  show "negotiate peers = None \<longleftrightarrow> common_suites peers = {}" by (simp add: negotiate_None eligible_empty)
  assume n: "negotiate peers = Some s"
  note N = negotiate_Some[OF n]
  show "s \<in> common_suites peers" using N(1) by (auto simp: eligible_def split: if_splits)
  show "common_suites peers = {CIPHER_NONE}" if "s = CIPHER_NONE" using N(1) that by (auto simp: eligible_def split: if_splits)
  show "\<forall>t \<in> common_suites peers - {CIPHER_NONE}. suite_key peers s \<le> suite_key peers t"
    using N(2) by (auto simp: eligible_def split: if_splits)
qed

theorem negotiate_minimax_witness:
  "negotiate [[\<lparr>rc_suite = 1, rc_rank = 1\<rparr>, \<lparr>rc_suite = 2, rc_rank = 2\<rparr>], [\<lparr>rc_suite = 2, rc_rank = 1\<rparr>, \<lparr>rc_suite = 1, rc_rank = 3\<rparr>]] = Some 2
   \<and> 2 \<in> common_suites [[\<lparr>rc_suite = 1, rc_rank = 1\<rparr>, \<lparr>rc_suite = 2, rc_rank = 2\<rparr>], [\<lparr>rc_suite = 2, rc_rank = 1\<rparr>, \<lparr>rc_suite = 1, rc_rank = 3\<rparr>]]"
proof -
  let ?p = "[[\<lparr>rc_suite = 1, rc_rank = 1\<rparr>, \<lparr>rc_suite = 2, rc_rank = 2\<rparr>], [\<lparr>rc_suite = 2, rc_rank = 1\<rparr>, \<lparr>rc_suite = 1, rc_rank = 3\<rparr>]]"
  have n: "negotiate ?p = Some 2"
    by (simp add: negotiate_def better_def worst_rank_def rank_at_def security_rank_def SECURITY_ORDER_def CIPHER_NONE_def
        CIPHER_AES256_GCM_def CIPHER_XTS_AES256_def Let_def)
  then show ?thesis using negotiate_minimax[of ?p 2] by simp
qed

lemma foldl_max: "foldl max (r :: 'a :: linorder) rs = Max (insert r (set rs))"
proof (induction rs arbitrary: r)
  case (Cons x rs)
  have "foldl max r (x # rs) = Max (insert (max r x) (set rs))" using Cons by simp
  also have "\<dots> = Max (insert r (insert x (set rs)))" by (cases "rs = []") (simp_all add: max.assoc)
  finally show ?case by simp
qed simp

lemma worst_rank_set: "peers \<noteq> [] \<Longrightarrow> worst_rank peers s = Max (rank_at s ` set peers)"
  by (cases peers) (simp_all add: worst_rank_def foldl_max)

lemma security_rank_inj:
  "a \<in> set SECURITY_ORDER \<Longrightarrow> b \<in> set SECURITY_ORDER \<Longrightarrow> security_rank a = security_rank b \<Longrightarrow> a = b"
  by (auto simp: SECURITY_ORDER_def security_rank_def CIPHER_NONE_def CIPHER_AES256_GCM_def CIPHER_XTS_AES256_def)

text \<open>Convergence without coordination: two peers that have fetched the same capability lists, each with its own list in
  front and the others in any order and with any repetition, agree on the same suite, as long as the common suites are
  the ones the crate knows.\<close>

theorem negotiate_converges:
  assumes same: "set ps = set qs" and known: "common_suites ps \<subseteq> set SECURITY_ORDER"
  shows "negotiate ps = negotiate qs"
proof -
  have c: "common_suites ps = common_suites qs" using same by (auto simp: common_suites_def)
  then have e: "eligible ps = eligible qs" by (simp add: eligible_def)
  have k: "suite_key ps s = suite_key qs s" for s
    using same worst_rank_set[of ps s] worst_rank_set[of qs s] by (cases "ps = []"; cases "qs = []") auto
  show ?thesis
  proof (cases "negotiate ps")
    case None
    then show ?thesis using e negotiate_None by metis
  next
    case (Some s)
    then have "negotiate qs \<noteq> None" using e negotiate_None by (metis option.distinct(1))
    then obtain t where t: "negotiate qs = Some t" by auto
    have "s \<in> eligible ps" "t \<in> eligible ps" using negotiate_Some(1) Some t e by auto
    moreover from this have "suite_key ps s = suite_key ps t"
      using negotiate_Some(2)[OF Some, of t] negotiate_Some(2)[OF t, of s] e k by (metis order.antisym)
    moreover have "eligible ps \<subseteq> set SECURITY_ORDER" using known by (auto simp: eligible_def)
    ultimately have "s = t" using security_rank_inj by auto
    then show ?thesis using Some t by simp
  qed
qed

theorem negotiate_converges_witness:
  "negotiate [[\<lparr>rc_suite = 1, rc_rank = 1\<rparr>, \<lparr>rc_suite = 2, rc_rank = 2\<rparr>], [\<lparr>rc_suite = 2, rc_rank = 1\<rparr>, \<lparr>rc_suite = 1, rc_rank = 2\<rparr>]]
   = negotiate [[\<lparr>rc_suite = 2, rc_rank = 1\<rparr>, \<lparr>rc_suite = 1, rc_rank = 2\<rparr>], [\<lparr>rc_suite = 1, rc_rank = 1\<rparr>, \<lparr>rc_suite = 2, rc_rank = 2\<rparr>]]"
  by (rule negotiate_converges) (auto simp: common_suites_def SECURITY_ORDER_def CIPHER_AES256_GCM_def CIPHER_XTS_AES256_def)

end
