(* ===== verification/Service_Wire.thy ===== *)
theory Service_Wire
  imports Cursor Commit_Record Version_Vector Negotiate
begin

text \<open>
  The message bodies of the service, from \<^verbatim>\<open>sfs-saas/src/wire.rs\<close>. Each pair of a framing and a parsing function
  is translated with the cursor readers; a parser that returns \<open>None\<close> is a reader that ends with an error or short of the
  end of the buffer. Every parser accepts exactly the framings of the messages that fit their length fields.
  Strings are their UTF-8 bytes.
\<close>

section \<open>Reading\<close>

definition wire_read_u32 :: "u32 reader" where
  "wire_read_u32 = bind_rd (bytes_rd [] 4) (\<lambda>bs. ret_rd (u32_from_le bs))"

definition wire_read_u64 :: "u64 reader" where
  "wire_read_u64 = bind_rd (bytes_rd [] 8) (\<lambda>bs. ret_rd (u64_from_le bs))"

definition wire_read_uuid :: "bytes reader" where
  "wire_read_uuid = bytes_rd [] 16"

definition read_lp :: "bytes reader" where
  "read_lp = bind_rd wire_read_u32 (\<lambda>len. bytes_rd [] (unat len))"

definition push_lp :: "bytes \<Rightarrow> bytes" where
  "push_lp bs = u32_to_le (word_of_nat (length bs)) @ bs"

text \<open>A string: the bytes of a length-prefixed field, if they are UTF-8.\<close>

definition read_str :: "bytes reader" where
  "read_str = bind_rd read_lp (\<lambda>bs. if utf8_valid bs then ret_rd bs else fail_rd [])"

text \<open>A counted list.\<close>

definition wire_list :: "'a reader \<Rightarrow> 'a list reader" where
  "wire_list r = bind_rd wire_read_u32 (\<lambda>count. loop_rd (unat count) r)"

definition frame_list :: "('a \<Rightarrow> bytes) \<Rightarrow> 'a list \<Rightarrow> bytes" where
  "frame_list enc xs = u32_to_le (word_of_nat (length xs)) @ concat (map enc xs)"

section \<open>The messages\<close>

definition frame_blobs :: "bytes list \<Rightarrow> bytes" where
  "frame_blobs items = frame_list (\<lambda>b. u32_to_le (word_of_nat (length b)) @ b) items"

definition parse_blobs :: "bytes \<Rightarrow> bytes list option" where
  "parse_blobs = run_rd (wire_list (bind_rd wire_read_u32 (\<lambda>len. bytes_rd [] (unat len))))"

definition frame_uuids :: "bytes list \<Rightarrow> bytes" where
  "frame_uuids uuids = frame_list (\<lambda>u. u) uuids"

definition parse_uuids :: "bytes \<Rightarrow> bytes list option" where
  "parse_uuids = run_rd (wire_list wire_read_uuid)"

definition frame_units :: "(bytes \<times> version_vector) list \<Rightarrow> bytes" where
  "frame_units units =
     frame_list (\<lambda>(uuid, vv). uuid @ (let vvb = vv_to_bytes vv in u32_to_le (word_of_nat (length vvb)) @ vvb)) units"

definition read_vv :: "version_vector reader" where
  "read_vv = bind_rd (bind_rd wire_read_u32 (\<lambda>vv_len. bytes_rd [] (unat vv_len))) (\<lambda>bs.
     case vv_from_bytes bs of Inl _ \<Rightarrow> fail_rd [] | Inr vv \<Rightarrow> ret_rd vv)"

definition parse_units :: "bytes \<Rightarrow> (bytes \<times> version_vector) list option" where
  "parse_units = run_rd (wire_list (bind_rd wire_read_uuid (\<lambda>uuid. bind_rd read_vv (\<lambda>vv. ret_rd (uuid, vv)))))"

text \<open>An absent blob is sent as an empty one.\<close>

definition wrapped_field :: "bytes \<Rightarrow> bytes option" where
  "wrapped_field raw = (if raw = [] then None else Some raw)"

definition unwrap_or_empty :: "bytes option \<Rightarrow> bytes" where
  "unwrap_or_empty w = (case w of None \<Rightarrow> [] | Some b \<Rightarrow> b)"

record register_req =
  rq_account :: bytes
  rq_salt :: bytes
  rq_verifier :: bytes
  rq_wrapped :: "bytes option"

definition frame_register :: "bytes \<Rightarrow> bytes \<Rightarrow> bytes \<Rightarrow> bytes option \<Rightarrow> bytes" where
  "frame_register account salt verifier wrapped =
     push_lp account @ push_lp salt @ push_lp verifier @ push_lp (unwrap_or_empty wrapped)"

definition parse_register :: "bytes \<Rightarrow> register_req option" where
  "parse_register = run_rd
     (bind_rd read_str (\<lambda>account. bind_rd read_str (\<lambda>salt. bind_rd read_str (\<lambda>verifier. bind_rd read_lp (\<lambda>wrapped_raw.
        ret_rd \<lparr>rq_account = account, rq_salt = salt, rq_verifier = verifier, rq_wrapped = wrapped_field wrapped_raw\<rparr>)))))"

definition frame_salt_verifier :: "bytes \<Rightarrow> bytes \<Rightarrow> bytes" where
  "frame_salt_verifier salt verifier = push_lp salt @ push_lp verifier"

definition read_pair :: "(bytes \<times> bytes) reader" where
  "read_pair = bind_rd read_str (\<lambda>a. bind_rd read_str (\<lambda>b. ret_rd (a, b)))"

definition parse_salt_verifier :: "bytes \<Rightarrow> (bytes \<times> bytes) option" where
  "parse_salt_verifier = run_rd read_pair"

record credential_update_req =
  cu_salt :: bytes
  cu_verifier :: bytes
  cu_wrapped :: "bytes option"

definition frame_credential_update :: "bytes \<Rightarrow> bytes \<Rightarrow> bytes option \<Rightarrow> bytes" where
  "frame_credential_update salt verifier wrapped =
     push_lp salt @ push_lp verifier @ push_lp (unwrap_or_empty wrapped)"

definition parse_credential_update :: "bytes \<Rightarrow> credential_update_req option" where
  "parse_credential_update = run_rd
     (bind_rd read_str (\<lambda>salt. bind_rd read_str (\<lambda>verifier. bind_rd read_lp (\<lambda>wrapped_raw.
        ret_rd \<lparr>cu_salt = salt, cu_verifier = verifier, cu_wrapped = wrapped_field wrapped_raw\<rparr>))))"

definition frame_step1 :: "bytes \<Rightarrow> bytes \<Rightarrow> bytes" where
  "frame_step1 account a_hex = push_lp account @ push_lp a_hex"

definition parse_step1 :: "bytes \<Rightarrow> (bytes \<times> bytes) option" where
  "parse_step1 = run_rd read_pair"

definition frame_step1_resp :: "bytes \<Rightarrow> bytes \<Rightarrow> bytes" where
  "frame_step1_resp salt_hex b_hex = push_lp salt_hex @ push_lp b_hex"

definition parse_step1_resp :: "bytes \<Rightarrow> (bytes \<times> bytes) option" where
  "parse_step1_resp = run_rd read_pair"

definition frame_step2 :: "bytes \<Rightarrow> bytes \<Rightarrow> bytes \<Rightarrow> bytes" where
  "frame_step2 account a_hex m1 = push_lp account @ push_lp a_hex @ push_lp m1"

definition parse_step2 :: "bytes \<Rightarrow> (bytes \<times> bytes \<times> bytes) option" where
  "parse_step2 = run_rd (bind_rd read_str (\<lambda>account. bind_rd read_str (\<lambda>a_hex. bind_rd read_str (\<lambda>m1. ret_rd (account, a_hex, m1)))))"

definition frame_step2_resp :: "bytes \<Rightarrow> bytes \<Rightarrow> bytes" where
  "frame_step2_resp m2 token = push_lp m2 @ push_lp token"

definition parse_step2_resp :: "bytes \<Rightarrow> (bytes \<times> bytes) option" where
  "parse_step2_resp = run_rd read_pair"

definition cap_bytes :: "ranked_cap \<Rightarrow> bytes" where
  "cap_bytes cap = u16_to_le (rc_suite cap) @ [rc_rank cap]"

definition frame_ranked_caps :: "ranked_cap list \<Rightarrow> bytes" where
  "frame_ranked_caps caps = u32_to_le (word_of_nat (length caps)) @ concat (map cap_bytes caps)"

fun caps_loop :: "nat \<Rightarrow> bytes \<Rightarrow> nat \<Rightarrow> ranked_cap list" where
  "caps_loop 0 buf off = []"
| "caps_loop (Suc n) buf off =
     \<lparr>rc_suite = u16_from_le [buf ! off, buf ! (off + 1)], rc_rank = buf ! (off + 2)\<rparr> # caps_loop n buf (off + 3)"

definition parse_ranked_caps :: "bytes \<Rightarrow> ranked_cap list option" where
  "parse_ranked_caps buf =
     (if length buf < 4 then None
      else let n = unat (u32_from_le [buf ! 0, buf ! 1, buf ! 2, buf ! 3])
           in if length buf \<noteq> n * 3 + 4 then None else Some (caps_loop n buf 4))"

definition frame_put_caps :: "bytes \<Rightarrow> ranked_cap list \<Rightarrow> bytes" where
  "frame_put_caps peer_id caps = push_lp peer_id @ frame_ranked_caps caps"

record put_caps_req =
  pc_peer_id :: bytes
  pc_caps :: "ranked_cap list"

definition parse_put_caps :: "bytes \<Rightarrow> put_caps_req option" where
  "parse_put_caps buf =
     (case read_lp (length buf) buf 0 of
        Inl _ \<Rightarrow> None
      | Inr (peer_id, off) \<Rightarrow>
          if \<not> utf8_valid peer_id then None
          else map_option (\<lambda>caps. \<lparr>pc_peer_id = peer_id, pc_caps = caps\<rparr>) (parse_ranked_caps (drop off buf)))"

definition caps_entry :: "bytes \<times> ranked_cap list \<Rightarrow> bytes" where
  "caps_entry e = push_lp (fst e) @ push_lp (frame_ranked_caps (snd e))"

definition frame_caps_list :: "(bytes \<times> ranked_cap list) list \<Rightarrow> bytes" where
  "frame_caps_list entries = frame_list caps_entry entries"

definition read_caps_entry :: "(bytes \<times> ranked_cap list) reader" where
  "read_caps_entry = bind_rd read_str (\<lambda>peer_id. bind_rd read_lp (\<lambda>caps_bytes.
     case parse_ranked_caps caps_bytes of None \<Rightarrow> fail_rd [] | Some caps \<Rightarrow> ret_rd (peer_id, caps)))"

definition parse_caps_list :: "bytes \<Rightarrow> (bytes \<times> ranked_cap list) list option" where
  "parse_caps_list = run_rd (wire_list read_caps_entry)"

type_synonym block_put = "bytes \<times> u32 \<times> u64 \<times> bytes"
type_synonym block_key = "bytes \<times> u32 \<times> u64"

definition block_put_bytes :: "block_put \<Rightarrow> bytes" where
  "block_put_bytes b = (case b of (uuid, frag, version, ct) \<Rightarrow>
     uuid @ u32_to_le frag @ u64_to_le version @ u32_to_le (word_of_nat (length ct)) @ ct)"

definition frame_block_puts :: "block_put list \<Rightarrow> bytes" where
  "frame_block_puts blocks = frame_list block_put_bytes blocks"

definition read_block_put :: "block_put reader" where
  "read_block_put = bind_rd wire_read_uuid (\<lambda>uuid. bind_rd wire_read_u32 (\<lambda>frag. bind_rd wire_read_u64 (\<lambda>version.
     bind_rd (bind_rd wire_read_u32 (\<lambda>len. bytes_rd [] (unat len))) (\<lambda>ct. ret_rd (uuid, frag, version, ct)))))"

definition parse_block_puts :: "bytes \<Rightarrow> block_put list option" where
  "parse_block_puts = run_rd (wire_list read_block_put)"

definition block_key_bytes :: "block_key \<Rightarrow> bytes" where
  "block_key_bytes k = (case k of (uuid, frag, version) \<Rightarrow> uuid @ u32_to_le frag @ u64_to_le version)"

definition frame_block_keys :: "block_key list \<Rightarrow> bytes" where
  "frame_block_keys keys = frame_list block_key_bytes keys"

definition read_block_key :: "block_key reader" where
  "read_block_key = bind_rd wire_read_uuid (\<lambda>uuid. bind_rd wire_read_u32 (\<lambda>frag. bind_rd wire_read_u64 (\<lambda>version.
     ret_rd (uuid, frag, version))))"

definition parse_block_keys :: "bytes \<Rightarrow> block_key list option" where
  "parse_block_keys = run_rd (wire_list read_block_key)"

section \<open>The fields\<close>

abbreviation u32_len :: "'a list \<Rightarrow> bool" where
  "u32_len xs \<equiv> length xs < 2 ^ 32"

lemma unat_wire_len: "length xs = unat (word_of_nat (length xs) :: u32) \<longleftrightarrow> u32_len xs"
  using unat_lt2p[of "word_of_nat (length xs) :: u32"] unat_of_nat_less[of "length xs", where 'a = 32] by auto

lemma exact_u32: "exact wire_read_u32 (\<lambda>_. True) u32_to_le"
  unfolding wire_read_u32_def
  by (rule exact_cong[OF exact_map[OF exact_bytes, where g = u32_to_le]]) (simp_all add: u32_from_le_inverse)

lemma exact_u64: "exact wire_read_u64 (\<lambda>_. True) u64_to_le"
  unfolding wire_read_u64_def
  by (rule exact_cong[OF exact_map[OF exact_bytes, where g = u64_to_le]]) (simp_all add: u64_from_le_inverse)

lemma exact_uuid: "exact wire_read_uuid (\<lambda>u. length u = 16) (\<lambda>u. u)"
  unfolding wire_read_uuid_def by (rule exact_bytes)

lemma exact_lp: "exact read_lp u32_len push_lp"
  unfolding read_lp_def
  by (rule exact_cong[OF exact_pair[OF exact_u32 exact_bytes, where p = "\<lambda>bs. word_of_nat (length bs)"]])
    (auto simp: push_lp_def unat_wire_len)

abbreviation str_ok :: "bytes \<Rightarrow> bool" where
  "str_ok s \<equiv> utf8_valid s \<and> u32_len s"

lemma exact_str: "exact read_str str_ok push_lp"
  unfolding read_str_def
  by (rule exact_cong[OF exact_pair[OF exact_lp exact_guard[OF exact_ret], where p = "\<lambda>bs. bs"]]) auto

lemma exact_list: "exact r ok enc \<Longrightarrow> exact (wire_list r) (\<lambda>xs. u32_len xs \<and> (\<forall>x \<in> set xs. ok x)) (frame_list enc)"
  unfolding wire_list_def
  by (rule exact_cong[OF exact_pair[OF exact_u32 exact_loop, where p = "\<lambda>xs. word_of_nat (length xs)"]])
    (auto simp: frame_list_def unat_wire_len)

lemma exact_block_put: "exact read_block_put (\<lambda>(u, f, v, ct). length u = 16 \<and> u32_len ct) block_put_bytes"
  unfolding read_block_put_def read_lp_def[symmetric]
  apply (rule exact_cong)
    apply (rule exact_pair[OF exact_uuid, where p = "\<lambda>(u, f, v, ct). u"])
     apply (rule exact_pair[OF exact_u32, where p = "\<lambda>(u, f, v, ct). f"])
      apply (rule exact_pair[OF exact_u64, where p = "\<lambda>(u, f, v, ct). v"])
       apply (rule exact_map[OF exact_lp, where g = "\<lambda>(u, f, v, ct). ct"])
  by (auto simp: block_put_bytes_def push_lp_def)

lemma exact_block_key: "exact read_block_key (\<lambda>(u, f, v). length u = 16) block_key_bytes"
  unfolding read_block_key_def
  apply (rule exact_cong)
    apply (rule exact_pair[OF exact_uuid, where p = "\<lambda>(u, f, v). u"])
     apply (rule exact_pair[OF exact_u32, where p = "\<lambda>(u, f, v). f"])
      apply (rule exact_map[OF exact_u64, where g = "\<lambda>(u, f, v). v"])
  by (auto simp: block_key_bytes_def)

lemma exact_vv: "exact read_vv (\<lambda>vv. vv_wire_ok vv \<and> u32_len (vv_to_bytes vv)) (\<lambda>vv. push_lp (vv_to_bytes vv))"
proof -
  have "exact (case vv_from_bytes bs of Inl _ \<Rightarrow> fail_rd [] | Inr vv \<Rightarrow> ret_rd vv) (\<lambda>vv. vv_wire_ok vv \<and> vv_to_bytes vv = bs) (\<lambda>_. [])" for bs
  proof (cases "vv_from_bytes bs")
    case (Inl e)
    then have "\<not> (vv_wire_ok vv \<and> vv_to_bytes vv = bs)" for vv using vv_wire.dec_iff[of bs vv] by auto
    then show ?thesis using Inl by (auto intro: exact_cong[OF exact_fail])
  next
    case (Inr v)
    then have "vv_wire_ok vv \<and> vv_to_bytes vv = bs \<longleftrightarrow> vv = v" for vv using vv_wire.dec_iff[of bs vv] by auto
    then show ?thesis using Inr by (auto intro: exact_cong[OF exact_ret])
  qed
  then show ?thesis unfolding read_vv_def read_lp_def[symmetric]
    by (rule exact_cong[OF exact_pair[OF exact_lp, where p = vv_to_bytes]]) auto
qed

abbreviation unit_ok :: "bytes \<times> version_vector \<Rightarrow> bool" where
  "unit_ok u \<equiv> length (fst u) = 16 \<and> vv_wire_ok (snd u) \<and> u32_len (vv_to_bytes (snd u))"

lemma exact_unit:
  "exact (bind_rd wire_read_uuid (\<lambda>uuid. bind_rd read_vv (\<lambda>vv. ret_rd (uuid, vv)))) unit_ok
     (\<lambda>(uuid, vv). uuid @ (let vvb = vv_to_bytes vv in u32_to_le (word_of_nat (length vvb)) @ vvb))"
  apply (rule exact_cong)
    apply (rule exact_pair[OF exact_uuid, where p = fst])
     apply (rule exact_map[OF exact_vv, where g = snd])
  by (auto simp: push_lp_def Let_def)

lemma exact_pair_str: "exact read_pair (\<lambda>(a, b). str_ok a \<and> str_ok b) (\<lambda>(a, b). push_lp a @ push_lp b)"
  unfolding read_pair_def
  by (rule exact_cong[OF exact_pair[OF exact_str exact_map[OF exact_str, where g = snd], where p = fst]]) auto

lemma caps_loop_read:
  "caps_loop (length caps) (pre @ concat (map cap_bytes caps)) (length pre) = caps"
proof (induction caps arbitrary: pre)
  case (Cons c caps)
  obtain a b where ab: "u16_to_le (rc_suite c) = [a, b]" using length_2[OF u16_le_length] by blast
  have "caps_loop (length caps) ((pre @ cap_bytes c) @ concat (map cap_bytes caps)) (length (pre @ cap_bytes c)) = caps" by (rule Cons)
  moreover have "cap_bytes c = [a, b, rc_rank c]" using ab by (simp add: cap_bytes_def)
  ultimately show ?case using u16_le_inverse[of "rc_suite c"] ab by (simp add: nth_append numeral_3_eq_3)
qed simp

lemma caps_loop_written:
  assumes "length buf = off + 3 * n"
  shows "concat (map cap_bytes (caps_loop n buf off)) = drop off buf \<and> length (caps_loop n buf off) = n"
  using assms
proof (induction n arbitrary: off)
  case (Suc n)
  have "drop off buf = buf ! off # buf ! (off + 1) # buf ! (off + 2) # drop (off + 3) buf"
    using Suc.prems by (simp add: Cons_nth_drop_Suc[symmetric] numeral_3_eq_3 numeral_2_eq_2)
  moreover have "u16_to_le (u16_from_le [x, y]) = [x, y]" for x y by (simp add: u16_from_le_inverse)
  ultimately show ?case using Suc.IH[of "off + 3"] Suc.prems by (simp add: cap_bytes_def)
qed simp

lemma parse_ranked_caps_exact: "parse_ranked_caps buf = Some caps \<longleftrightarrow> u32_len caps \<and> buf = frame_ranked_caps caps"
proof
  assume p: "parse_ranked_caps buf = Some caps"
  then have l: "4 \<le> length buf" by (auto simp: parse_ranked_caps_def split: if_splits)
  define n where "n = unat (u32_from_le [buf ! 0, buf ! 1, buf ! 2, buf ! 3])"
  have n: "length buf = 4 + 3 * n" "caps = caps_loop n buf 4"
    using p l by (auto simp: parse_ranked_caps_def n_def Let_def split: if_splits)
  have "take 4 buf = [buf ! 0, buf ! 1, buf ! 2, buf ! 3]"
    using l by (simp add: list_eq_iff_nth_eq less_Suc_eq numeral_eq_Suc)
  then have "u32_to_le (word_of_nat n) = take 4 buf" by (simp add: n_def u32_from_le_inverse)
  moreover have "n < 2 ^ 32" unfolding n_def using unat_lt2p[of "u32_from_le [buf ! 0, buf ! 1, buf ! 2, buf ! 3]"] by simp
  ultimately show "u32_len caps \<and> buf = frame_ranked_caps caps"
    using caps_loop_written[OF n(1)] n(2) by (simp add: frame_ranked_caps_def)
next
  assume c: "u32_len caps \<and> buf = frame_ranked_caps caps"
  obtain a b d e where u: "u32_to_le (word_of_nat (length caps)) = [a, b, d, e]"
    using length_4[OF u32_le_length] by blast
  have "length (concat (map cap_bytes caps)) = 3 * length caps" by (induction caps) (simp_all add: cap_bytes_def)
  moreover have "unat (u32_from_le [a, b, d, e]) = length caps" using u c u32_le_inverse[of "word_of_nat (length caps)"] unat_wire_len[of caps] by simp
  moreover have "caps_loop (length caps) ([a, b, d, e] @ concat (map cap_bytes caps)) 4 = caps"
    using caps_loop_read[of caps "[a, b, d, e]"] by (simp add: numeral_eq_Suc)
  ultimately show "parse_ranked_caps buf = Some caps" using c u by (simp add: parse_ranked_caps_def frame_ranked_caps_def)
qed

abbreviation caps_ok :: "bytes \<times> ranked_cap list \<Rightarrow> bool" where
  "caps_ok e \<equiv> str_ok (fst e) \<and> u32_len (snd e) \<and> u32_len (frame_ranked_caps (snd e))"

lemma exact_caps_entry: "exact read_caps_entry caps_ok caps_entry"
proof -
  have "exact (case parse_ranked_caps bs of None \<Rightarrow> fail_rd [] | Some caps \<Rightarrow> ret_rd (p, caps))
      (\<lambda>e. fst e = p \<and> u32_len (snd e) \<and> frame_ranked_caps (snd e) = bs) (\<lambda>_. [])" for bs p
  proof (cases "parse_ranked_caps bs")
    case None
    then have "\<not> (u32_len c \<and> frame_ranked_caps c = bs)" for c using parse_ranked_caps_exact[of bs c] by auto
    then show ?thesis using None by (auto intro: exact_cong[OF exact_fail])
  next
    case (Some d)
    then have "u32_len c \<and> frame_ranked_caps c = bs \<longleftrightarrow> c = d" for c using parse_ranked_caps_exact[of bs c] by auto
    then have "fst e = p \<and> u32_len (snd e) \<and> frame_ranked_caps (snd e) = bs \<longleftrightarrow> e = (p, d)" for e by (cases e) auto
    then show ?thesis using Some by (simp add: exact_ret)
  qed
  from exact_pair[OF exact_lp this, where p = "\<lambda>e. frame_ranked_caps (snd e)"]
  have "exact (bind_rd read_lp (\<lambda>bs. case parse_ranked_caps bs of None \<Rightarrow> fail_rd [] | Some caps \<Rightarrow> ret_rd (p, caps)))
      (\<lambda>e. fst e = p \<and> u32_len (snd e) \<and> u32_len (frame_ranked_caps (snd e))) (\<lambda>e. push_lp (frame_ranked_caps (snd e)))" for p
    by (rule exact_cong) auto
  from exact_pair[OF exact_str this, where p = fst] show ?thesis
    unfolding read_caps_entry_def by (rule exact_cong) (auto simp: caps_entry_def)
qed

abbreviation wrapped_ok :: "bytes option \<Rightarrow> bool" where
  "wrapped_ok w \<equiv> w \<noteq> Some [] \<and> u32_len (unwrap_or_empty w)"

lemma wrapped_inverse: "wrapped_field (unwrap_or_empty w) = w \<longleftrightarrow> w \<noteq> Some []" "unwrap_or_empty (wrapped_field raw) = raw"
  by (auto simp: wrapped_field_def unwrap_or_empty_def split: option.splits)

lemma register_eq:
  "\<lparr>rq_account = a, rq_salt = s, rq_verifier = v, rq_wrapped = w\<rparr> = r \<longleftrightarrow>
     a = rq_account r \<and> s = rq_salt r \<and> v = rq_verifier r \<and> w = rq_wrapped r"
  by (cases r) auto

lemma credential_eq:
  "\<lparr>cu_salt = s, cu_verifier = v, cu_wrapped = w\<rparr> = r \<longleftrightarrow> s = cu_salt r \<and> v = cu_verifier r \<and> w = cu_wrapped r"
  by (cases r) auto

abbreviation register_ok :: "register_req \<Rightarrow> bool" where
  "register_ok r \<equiv> str_ok (rq_account r) \<and> str_ok (rq_salt r) \<and> str_ok (rq_verifier r) \<and> wrapped_ok (rq_wrapped r)"

lemma exact_register:
  "exact (bind_rd read_str (\<lambda>account. bind_rd read_str (\<lambda>salt. bind_rd read_str (\<lambda>verifier. bind_rd read_lp (\<lambda>wrapped_raw.
        ret_rd \<lparr>rq_account = account, rq_salt = salt, rq_verifier = verifier, rq_wrapped = wrapped_field wrapped_raw\<rparr>)))))
     register_ok (\<lambda>r. frame_register (rq_account r) (rq_salt r) (rq_verifier r) (rq_wrapped r))"
  apply (rule exact_cong)
    apply (rule exact_pair[OF exact_str, where p = rq_account])
     apply (rule exact_pair[OF exact_str, where p = rq_salt])
      apply (rule exact_pair[OF exact_str, where p = rq_verifier])
       apply (rule exact_map[OF exact_lp, where g = "\<lambda>r. unwrap_or_empty (rq_wrapped r)"])
  by (auto simp: frame_register_def wrapped_inverse register_eq)

abbreviation credential_ok :: "credential_update_req \<Rightarrow> bool" where
  "credential_ok r \<equiv> str_ok (cu_salt r) \<and> str_ok (cu_verifier r) \<and> wrapped_ok (cu_wrapped r)"

lemma exact_credential_update:
  "exact (bind_rd read_str (\<lambda>salt. bind_rd read_str (\<lambda>verifier. bind_rd read_lp (\<lambda>wrapped_raw.
        ret_rd \<lparr>cu_salt = salt, cu_verifier = verifier, cu_wrapped = wrapped_field wrapped_raw\<rparr>))))
     credential_ok (\<lambda>r. frame_credential_update (cu_salt r) (cu_verifier r) (cu_wrapped r))"
  apply (rule exact_cong)
    apply (rule exact_pair[OF exact_str, where p = cu_salt])
     apply (rule exact_pair[OF exact_str, where p = cu_verifier])
      apply (rule exact_map[OF exact_lp, where g = "\<lambda>r. unwrap_or_empty (cu_wrapped r)"])
  by (auto simp: frame_credential_update_def wrapped_inverse credential_eq)

lemma exact_step2:
  "exact (bind_rd read_str (\<lambda>account. bind_rd read_str (\<lambda>a_hex. bind_rd read_str (\<lambda>m1. ret_rd (account, a_hex, m1)))))
     (\<lambda>(a, b, c). str_ok a \<and> str_ok b \<and> str_ok c) (\<lambda>(a, b, c). frame_step2 a b c)"
  apply (rule exact_cong)
    apply (rule exact_pair[OF exact_str, where p = "\<lambda>(a, b, c). a"])
     apply (rule exact_pair[OF exact_str, where p = "\<lambda>(a, b, c). b"])
      apply (rule exact_map[OF exact_str, where g = "\<lambda>(a, b, c). c"])
  by (auto simp: frame_step2_def)

section \<open>Every parser accepts exactly the framings\<close>

text \<open>Block transfer: a body parses to a list of blocks, keys, units, records or peers exactly when it is the framing of
  that list and all lengths fit their fields. So framing and parsing are inverse, no two bodies mean the same message, and
  a truncated or extended body is refused.\<close>

theorem transfer_bodies_exact:
  "(parse_block_puts buf = Some puts \<longleftrightarrow>
       (u32_len puts \<and> list_all (\<lambda>(u, f, v, ct). length u = 16 \<and> u32_len ct) puts) \<and> buf = frame_block_puts puts)
 \<and> (parse_block_keys buf = Some ks \<longleftrightarrow> (u32_len ks \<and> list_all (\<lambda>(u, f, v). length u = 16) ks) \<and> buf = frame_block_keys ks)
 \<and> (parse_units buf = Some us \<longleftrightarrow> (u32_len us \<and> list_all unit_ok us) \<and> buf = frame_units us)
 \<and> (parse_blobs buf = Some bs \<longleftrightarrow> (u32_len bs \<and> list_all u32_len bs) \<and> buf = frame_blobs bs)
 \<and> (parse_uuids buf = Some ids \<longleftrightarrow> (u32_len ids \<and> list_all (\<lambda>u. length u = 16) ids) \<and> buf = frame_uuids ids)
 \<and> (parse_caps_list buf = Some es \<longleftrightarrow> (u32_len es \<and> list_all caps_ok es) \<and> buf = frame_caps_list es)"
  using exact_run[OF exact_list[OF exact_block_put]] exact_run[OF exact_list[OF exact_block_key]] exact_run[OF exact_list[OF exact_unit]]
    exact_run[OF exact_list[OF exact_lp]] exact_run[OF exact_list[OF exact_uuid]] exact_run[OF exact_list[OF exact_caps_entry]]
  by (intro conjI) (simp_all add: list_all_iff parse_block_puts_def parse_block_keys_def parse_units_def parse_blobs_def parse_uuids_def parse_caps_list_def
      frame_block_puts_def frame_block_keys_def frame_units_def frame_blobs_def frame_uuids_def frame_caps_list_def push_lp_def[abs_def] read_lp_def[symmetric])

text \<open>Login and registration: a body parses to a request exactly when it is the framing of that request, its strings are
  UTF-8 and its lengths fit; an absent wrapped key is the empty one, so an empty wrapped key never parses.\<close>

theorem login_bodies_exact:
  "(parse_register buf = Some r \<longleftrightarrow>
       register_ok r \<and> buf = frame_register (rq_account r) (rq_salt r) (rq_verifier r) (rq_wrapped r))
 \<and> (parse_credential_update buf = Some c \<longleftrightarrow>
       credential_ok c \<and> buf = frame_credential_update (cu_salt c) (cu_verifier c) (cu_wrapped c))
 \<and> (parse_salt_verifier buf = Some (a, b) \<longleftrightarrow> (str_ok a \<and> str_ok b) \<and> buf = frame_salt_verifier a b)
 \<and> (parse_step1 buf = Some (a, b) \<longleftrightarrow> (str_ok a \<and> str_ok b) \<and> buf = frame_step1 a b)
 \<and> (parse_step1_resp buf = Some (a, b) \<longleftrightarrow> (str_ok a \<and> str_ok b) \<and> buf = frame_step1_resp a b)
 \<and> (parse_step2 buf = Some (a, b, d) \<longleftrightarrow> (str_ok a \<and> str_ok b \<and> str_ok d) \<and> buf = frame_step2 a b d)
 \<and> (parse_step2_resp buf = Some (a, b) \<longleftrightarrow> (str_ok a \<and> str_ok b) \<and> buf = frame_step2_resp a b)"
  using exact_run[OF exact_register, of buf r] exact_run[OF exact_credential_update, of buf c]
    exact_run[OF exact_pair_str, of buf "(a, b)"] exact_run[OF exact_step2, of buf "(a, b, d)"]
  by (intro conjI) (simp_all add: parse_register_def parse_credential_update_def parse_salt_verifier_def parse_step1_def parse_step1_resp_def
      parse_step2_def parse_step2_resp_def frame_salt_verifier_def frame_step1_def frame_step1_resp_def frame_step2_resp_def)

lemma put_caps_exact:
  "parse_put_caps buf = Some r \<longleftrightarrow>
     (str_ok (pc_peer_id r) \<and> u32_len (pc_caps r)) \<and> buf = frame_put_caps (pc_peer_id r) (pc_caps r)"
proof
  assume p: "parse_put_caps buf = Some r"
  then obtain off where l: "read_lp (length buf) buf 0 = Inr (pc_peer_id r, off)" "utf8_valid (pc_peer_id r)"
    and c: "parse_ranked_caps (drop off buf) = Some (pc_caps r)"
    by (auto simp: parse_put_caps_def split: sum.splits if_splits)
  note e = emitsD[OF exactD(2)[OF exact_lp] l(1)]
  have "buf = slice 0 off buf @ drop off buf" by (simp add: slice_def)
  then show "(str_ok (pc_peer_id r) \<and> u32_len (pc_caps r)) \<and> buf = frame_put_caps (pc_peer_id r) (pc_caps r)"
    using e c l(2) by (auto simp: parse_ranked_caps_exact frame_put_caps_def)
next
  assume a: "(str_ok (pc_peer_id r) \<and> u32_len (pc_caps r)) \<and> buf = frame_put_caps (pc_peer_id r) (pc_caps r)"
  then have "read_lp (length buf) buf 0 = Inr (pc_peer_id r, length (push_lp (pc_peer_id r)))"
    using readsD[OF exactD(1)[OF exact_lp], of "pc_peer_id r" "[]" "length buf" "frame_ranked_caps (pc_caps r)"] by (simp add: frame_put_caps_def)
  then show "parse_put_caps buf = Some r"
    using a parse_ranked_caps_exact[of "frame_ranked_caps (pc_caps r)" "pc_caps r"] by (simp add: parse_put_caps_def frame_put_caps_def)
qed

end
