(* ===== verification/Blob_Log.thy ===== *)
theory Blob_Log
  imports Crypto "HOL-Library.AList"
begin

text \<open>
  The append-only log of the service, from \<^verbatim>\<open>sfs-saas/src/blobstore.rs\<close>: one file of checksummed records and an
  index from keys to the place of their newest value, rebuilt by a scan when the log is opened. A write that the
  machine does not finish is a separate operation, which leaves a prefix of the record in the file.
\<close>

section \<open>The code\<close>

type_synonym blob_index = "(bytes \<times> nat \<times> nat) list"

record blob_store =
  bl_file :: bytes
  bl_index :: blob_index
  bl_append :: nat

function bl_scan :: "prims \<Rightarrow> bytes \<Rightarrow> nat \<Rightarrow> blob_index \<Rightarrow> blob_index \<times> nat" where
  "bl_scan P file pos index =
     (if pos + 4 > length file then (index, pos)
      else let payload_len = unat (u32_from_le (slice pos 4 file));
               record_end = pos + 4 + payload_len + 4
      in if payload_len = 0 \<or> record_end > length file then (index, pos)
      else let payload = slice (pos + 4) payload_len file;
               stored_crc = u32_from_le (slice (pos + 4 + payload_len) 4 file)
      in if p_crc32 P payload \<noteq> stored_crc then (index, pos)
      else if length payload < 2 then (index, pos)
      else let key_len = unat (u16_from_le [payload ! 0, payload ! 1])
      in if 2 + key_len > length payload then (index, pos)
      else bl_scan P file record_end
             (AList.update (slice 2 key_len payload) (pos + 4 + 2 + key_len, length payload - 2 - key_len) index))"
  by pat_completeness auto
termination by (relation "measure (\<lambda>(P, file, pos, index). length file - pos)") auto

declare bl_scan.simps [simp del]

definition bl_open :: "prims \<Rightarrow> bytes \<Rightarrow> blob_store" where
  "bl_open P file =
     (let (index, pos) = bl_scan P file 0 []
      in \<lparr>bl_file = (if pos \<noteq> length file then take pos file else file), bl_index = index, bl_append = pos\<rparr>)"

definition bl_payload :: "bytes \<Rightarrow> bytes \<Rightarrow> bytes" where
  "bl_payload key value = u16_to_le (word_of_nat (length key)) @ key @ value"

definition bl_record :: "prims \<Rightarrow> bytes \<Rightarrow> bytes \<Rightarrow> bytes" where
  "bl_record P key value =
     u32_to_le (word_of_nat (2 + length key + length value)) @ bl_payload key value
       @ u32_to_le (p_crc32 P (bl_payload key value))"

text \<open>A write at an offset: the bytes behind it stay, the file grows where it has to.\<close>

definition write_file :: "nat \<Rightarrow> bytes \<Rightarrow> bytes \<Rightarrow> bytes" where
  "write_file at data file = take at file @ data @ drop (at + length data) file"

definition bl_put :: "prims \<Rightarrow> blob_store \<Rightarrow> bytes \<Rightarrow> bytes \<Rightarrow> unit result \<times> blob_store" where
  "bl_put P s key value =
     (if length key \<ge> 2 ^ 16 then (Inl (Io InvalidInput ''key too long''), s)
      else if 2 + length key + length value \<ge> 2 ^ 32 then (Inl (Io InvalidInput ''record too large''), s)
      else let record = bl_record P key value; at = bl_append s
           in (Inr (), s\<lparr>bl_file := write_file at record (bl_file s),
                         bl_index := AList.update key (at + 4 + 2 + length key, length value) (bl_index s),
                         bl_append := at + length record\<rparr>))"

text \<open>A put whose write stops after \<open>n\<close> bytes: the index and the append position are not reached.\<close>

definition bl_put_torn :: "prims \<Rightarrow> blob_store \<Rightarrow> nat \<Rightarrow> bytes \<Rightarrow> bytes \<Rightarrow> blob_store" where
  "bl_put_torn P s n key value =
     s\<lparr>bl_file := write_file (bl_append s) (take n (bl_record P key value)) (bl_file s)\<rparr>"

definition bl_get :: "blob_store \<Rightarrow> bytes \<Rightarrow> bytes option result" where
  "bl_get s key =
     (case map_of (bl_index s) key of
        None \<Rightarrow> Inr None
      | Some (off, len) \<Rightarrow>
          (case get_range (bl_file s) off len of
             None \<Rightarrow> Inl (Io UnexpectedEof ''failed to fill whole buffer'')
           | Some buf \<Rightarrow> Inr (Some buf)))"

definition bl_contains_key :: "blob_store \<Rightarrow> bytes \<Rightarrow> bool" where
  "bl_contains_key s key = (map_of (bl_index s) key \<noteq> None)"

definition starts_with :: "'a list \<Rightarrow> 'a list \<Rightarrow> bool" where
  "starts_with xs prefix = (take (length prefix) xs = prefix)"

definition sum_len_with_prefix :: "blob_store \<Rightarrow> bytes \<Rightarrow> nat \<times> nat" where
  "sum_len_with_prefix s prefix =
     (let es = filter (\<lambda>(key, _). starts_with key prefix) (bl_index s)
      in (sum_list (map (\<lambda>(_, _, len). len) es), length es))"

section \<open>One record\<close>

abbreviation kv_ok :: "bytes \<times> bytes \<Rightarrow> bool" where
  "kv_ok kv \<equiv> length (fst kv) < 2 ^ 16 \<and> 2 + length (fst kv) + length (snd kv) < 2 ^ 32"

abbreviation rec_of :: "prims \<Rightarrow> bytes \<times> bytes \<Rightarrow> bytes" where
  "rec_of P kv \<equiv> bl_record P (fst kv) (snd kv)"

lemma length_payload [simp]: "length (bl_payload k v) = 2 + length k + length v"
  by (simp add: bl_payload_def)

lemma length_record [simp]: "length (bl_record P k v) = 10 + length k + length v"
  by (simp add: bl_record_def)

lemma u16_pair: "length bs = 2 \<Longrightarrow> [bs ! 0, bs ! 1] = bs"
  by (auto simp: numeral_2_eq_2 length_Suc_conv)

lemma payload_key: "length k < 2 ^ 16 \<Longrightarrow> unat (u16_from_le [bl_payload k v ! 0, bl_payload k v ! 1]) = length k"
proof -
  assume k: "length k < 2 ^ 16"
  let ?l = "u16_to_le (word_of_nat (length k))"
  have "[bl_payload k v ! 0, bl_payload k v ! 1] = [?l ! 0, ?l ! 1]" by (simp add: bl_payload_def nth_append)
  then show ?thesis using u16_pair[of ?l] k unat_of_nat_less[of "length k", where 'a = 16] by simp
qed

lemma scan_record:
  assumes "kv_ok (k, v)" "file = pre @ bl_record P k v @ rest"
  shows "bl_scan P file (length pre) index =
    bl_scan P file (length pre + length (bl_record P k v)) (AList.update k (length pre + 4 + 2 + length k, length v) index)"
proof -
  define N where "N = 2 + length k + length v"
  have fl: "length pre + 4 + N + 4 \<le> length file" using assms(2) by (simp add: N_def)
  have "slice (length pre) 4 file = u32_to_le (word_of_nat N)"
    using assms(2) by (simp add: bl_record_def slice_append_skip slice_append_exact N_def)
  then have n: "unat (u32_from_le (slice (length pre) 4 file)) = N"
    using assms(1) unat_of_nat_less[of N, where 'a = 32] by (simp add: N_def)
  have p: "slice (length pre + 4) N file = bl_payload k v"
    using slice_append_skip[of "pre @ u32_to_le (word_of_nat N)" "length pre + 4" N] assms(2)
    by (simp add: bl_record_def slice_append_exact N_def)
  have c: "slice (length pre + 4 + N) 4 file = u32_to_le (p_crc32 P (bl_payload k v))"
    using slice_append_skip[of "pre @ u32_to_le (word_of_nat N) @ bl_payload k v" "length pre + 4 + N" 4] assms(2)
    by (simp add: bl_record_def slice_append_exact N_def)
  have key: "slice 2 (length k) (bl_payload k v) = k"
    by (simp add: bl_payload_def slice_append_skip slice_append_exact)
  have r: "length (bl_payload k v) = N" "length pre + length (bl_record P k v) = length pre + 4 + N + 4" by (simp_all add: N_def)
  have kl: "unat (u16_from_le [bl_payload k v ! 0, bl_payload k v ! 1]) = length k" using payload_key assms(1) by simp
  have N: "N \<noteq> 0" "\<not> N < 2" "\<not> N < 2 + length k" "N - 2 - length k = length v" by (simp_all add: N_def)
  show ?thesis
    by (subst bl_scan.simps) (use fl N in \<open>simp only: n p c r kl key Let_def u32_le_inverse if_False simp_thms\<close>, use fl N in simp)
qed

lemma scan_torn:
  assumes "kv_ok (k, v)" "n < length (bl_record P k v)" "file = pre @ take n (bl_record P k v)"
  shows "bl_scan P file (length pre) index = (index, length pre)"
proof (cases "n < 4")
  case True
  then show ?thesis using assms by (subst bl_scan.simps) simp
next
  case False
  let ?n = "2 + length k + length v"
  have "slice (length pre) 4 file = take 4 (take n (bl_record P k v))" using assms(3) by (simp add: slice_def)
  also have "\<dots> = u32_to_le (word_of_nat ?n)" using False by (simp add: bl_record_def)
  finally have "unat (u32_from_le (slice (length pre) 4 file)) = ?n"
    using assms(1) unat_of_nat_less[of ?n, where 'a = 32] by simp
  then show ?thesis using assms(2,3) by (subst bl_scan.simps) (simp add: Let_def)
qed

section \<open>A log\<close>

abbreviation log_of :: "prims \<Rightarrow> (bytes \<times> bytes) list \<Rightarrow> bytes" where
  "log_of P kvs \<equiv> concat (map (rec_of P) kvs)"

fun index_from :: "prims \<Rightarrow> nat \<Rightarrow> (bytes \<times> bytes) list \<Rightarrow> blob_index \<Rightarrow> blob_index" where
  "index_from P pos [] index = index"
| "index_from P pos (kv # kvs) index =
     index_from P (pos + length (rec_of P kv)) kvs
       (AList.update (fst kv) (pos + 4 + 2 + length (fst kv), length (snd kv)) index)"

lemma index_from_snoc:
  "index_from P pos (kvs @ [kv]) index =
     AList.update (fst kv) (pos + length (log_of P kvs) + 4 + 2 + length (fst kv), length (snd kv)) (index_from P pos kvs index)"
  by (induction P pos kvs index rule: index_from.induct) (simp_all add: add.assoc)

lemma scan_log:
  assumes "list_all kv_ok kvs" "file = pre @ log_of P kvs @ rest"
  shows "bl_scan P file (length pre) index = bl_scan P file (length pre + length (log_of P kvs)) (index_from P (length pre) kvs index)"
  using assms
proof (induction kvs arbitrary: pre index)
  case (Cons kv kvs)
  have "bl_scan P file (length pre) index = bl_scan P file (length (pre @ rec_of P kv))
      (AList.update (fst kv) (length pre + 4 + 2 + length (fst kv), length (snd kv)) index)"
    using scan_record[where k = "fst kv" and v = "snd kv" and pre = pre] Cons.prems by simp
  also have "\<dots> = bl_scan P file (length (pre @ rec_of P kv) + length (log_of P kvs))
      (index_from P (length (pre @ rec_of P kv)) kvs (AList.update (fst kv) (length pre + 4 + 2 + length (fst kv), length (snd kv)) index))"
    using Cons.prems by (intro Cons.IH) simp_all
  finally show ?case by (simp add: add.assoc)
qed simp

lemma open_log:
  assumes "list_all kv_ok kvs" "kv_ok (k, v)" "n < length (bl_record P k v)"
  shows "bl_open P (log_of P kvs @ take n (bl_record P k v)) =
    \<lparr>bl_file = log_of P kvs, bl_index = index_from P 0 kvs [], bl_append = length (log_of P kvs)\<rparr>"
  using scan_log[OF assms(1), where pre = "[]" and index = "[]" and P = P and rest = "take n (bl_record P k v)"] scan_torn[OF assms(2,3), where pre = "log_of P kvs"]
  by (simp add: bl_open_def)

text \<open>The state after the acknowledged puts \<open>kvs\<close>.\<close>

definition holds :: "prims \<Rightarrow> (bytes \<times> bytes) list \<Rightarrow> blob_store \<Rightarrow> bool" where
  "holds P kvs s \<longleftrightarrow> list_all kv_ok kvs
     \<and> s = \<lparr>bl_file = log_of P kvs, bl_index = index_from P 0 kvs [], bl_append = length (log_of P kvs)\<rparr>"

lemma holds_open: "list_all kv_ok kvs \<Longrightarrow> kv_ok (k, v) \<Longrightarrow> n < length (bl_record P k v) \<Longrightarrow>
    holds P kvs (bl_open P (log_of P kvs @ take n (bl_record P k v)))"
  by (simp only: holds_def open_log simp_thms)

lemma holds_reopen: "list_all kv_ok kvs \<Longrightarrow> holds P kvs (bl_open P (log_of P kvs))"
  using holds_open[of kvs "[]" "[]" 0 P] by simp

lemma holds_put:
  assumes "holds P kvs s" "bl_put P s k v = (Inr (), s')"
  shows "holds P (kvs @ [(k, v)]) s'"
  using assms by (auto simp: holds_def bl_put_def Let_def write_file_def index_from_snoc split: if_splits)

lemma put_torn_file:
  assumes "holds P kvs s"
  shows "bl_file (bl_put_torn P s n k v) = log_of P kvs @ take n (bl_record P k v)"
  using assms by (simp add: holds_def bl_put_torn_def write_file_def)

section \<open>The map a log holds\<close>

definition map_of_log :: "(bytes \<times> bytes) list \<Rightarrow> bytes \<rightharpoonup> bytes" where
  "map_of_log kvs = foldl (\<lambda>m (k, v). m(k \<mapsto> v)) Map.empty kvs"

lemma map_of_log_snoc: "map_of_log (kvs @ [(k, v)]) = (map_of_log kvs)(k \<mapsto> v)"
  by (simp add: map_of_log_def)

lemma index_places:
  "distinct (map fst (index_from P 0 kvs [])) \<and>
   (\<forall>k. map_of_log kvs k = map_option (\<lambda>(off, len). slice off len (log_of P kvs)) (map_of (index_from P 0 kvs []) k)
      \<and> (\<forall>off len. map_of (index_from P 0 kvs []) k = Some (off, len) \<longrightarrow> off + len \<le> length (log_of P kvs)))"
proof (induction kvs rule: rev_induct)
  case Nil
  then show ?case by (simp add: map_of_log_def)
next
  case (snoc kv kvs)
  obtain k v where kv: "kv = (k, v)" by (cases kv)
  let ?L = "log_of P kvs" and ?I = "index_from P 0 kvs []"
  have new: "slice (length ?L + 4 + 2 + length k) (length v) (?L @ bl_record P k v) = v"
  proof -
    have "bl_record P k v = (u32_to_le (word_of_nat (2 + length k + length v)) @ u16_to_le (word_of_nat (length k)) @ k) @ v
        @ u32_to_le (p_crc32 P (bl_payload k v))" by (simp add: bl_record_def bl_payload_def)
    then show ?thesis by (simp add: slice_def)
  qed
  have old: "slice off len (?L @ r) = slice off len ?L" if "map_of ?I q = Some (off, len)" for q off len r
    using snoc that slice_append_left by blast
  have "map_of_log (kvs @ [kv]) q = map_option (\<lambda>(off, len). slice off len (log_of P (kvs @ [kv]))) (map_of (index_from P 0 (kvs @ [kv]) []) q)" for q
  proof (cases "q = k")
    case True
    then show ?thesis using new by (simp add: kv map_of_log_snoc index_from_snoc update_conv')
  next
    case False
    then show ?thesis using snoc old[of q] by (cases "map_of ?I q") (auto simp: kv map_of_log_snoc index_from_snoc update_conv')
  qed
  moreover have "off + len \<le> length (log_of P (kvs @ [kv]))" if "map_of (index_from P 0 (kvs @ [kv]) []) q = Some (off, len)" for q off len
    using that snoc by (cases "q = k") (fastforce simp: kv index_from_snoc update_conv' intro: trans_le_add1)+
  moreover have "distinct (map fst (index_from P 0 (kvs @ [kv]) []))" using snoc by (simp add: index_from_snoc distinct_update)
  ultimately show ?case by blast
qed

lemma index_distinct: "distinct (map fst (index_from P 0 kvs []))"
  using index_places[of P kvs] by blast

lemma index_lookup: "map_of_log kvs k = map_option (\<lambda>(off, len). slice off len (log_of P kvs)) (map_of (index_from P 0 kvs []) k)"
  using index_places[of P kvs] by blast

lemma index_bound: "map_of (index_from P 0 kvs []) k = Some (off, len) \<Longrightarrow> off + len \<le> length (log_of P kvs)"
  using index_places[of P kvs] by blast

lemma holds_get: "holds P kvs s \<Longrightarrow> bl_get s k = Inr (map_of_log kvs k)"
  using index_lookup[of kvs k P] index_bound[of P kvs k]
  by (cases "map_of (index_from P 0 kvs []) k") (auto simp: holds_def bl_get_def get_range_def)

lemma holds_contains: "holds P kvs s \<Longrightarrow> bl_contains_key s k \<longleftrightarrow> k \<in> dom (map_of_log kvs)"
  using index_lookup[of kvs k P] by (cases "map_of (index_from P 0 kvs []) k") (auto simp: holds_def bl_contains_key_def)

section \<open>Histories\<close>

text \<open>
  The states of a log and the map of the puts that were acknowledged. A crash comes between two operations or inside a put;
  in the latter case a prefix of the record is in the file, and only the whole record counts as written.
\<close>

inductive blob_reach :: "prims \<Rightarrow> blob_store \<Rightarrow> (bytes \<rightharpoonup> bytes) \<Rightarrow> bool" for P where
  created: "blob_reach P (bl_open P []) Map.empty"
| put: "blob_reach P s m \<Longrightarrow> bl_put P s k v = (Inr (), s') \<Longrightarrow> blob_reach P s' (m(k \<mapsto> v))"
| refused: "blob_reach P s m \<Longrightarrow> bl_put P s k v = (Inl e, s') \<Longrightarrow> blob_reach P s' m"
| reopened: "blob_reach P s m \<Longrightarrow> blob_reach P (bl_open P (bl_file s)) m"
| crashed: "blob_reach P s m \<Longrightarrow> kv_ok (k, v) \<Longrightarrow> n < length (bl_record P k v) \<Longrightarrow>
    blob_reach P (bl_open P (bl_file (bl_put_torn P s n k v))) m"
| crashed_late: "blob_reach P s m \<Longrightarrow> kv_ok (k, v) \<Longrightarrow>
    blob_reach P (bl_open P (bl_file (bl_put_torn P s (length (bl_record P k v)) k v))) (m(k \<mapsto> v))"

lemma blob_reach_holds: "blob_reach P s m \<Longrightarrow> \<exists>kvs. holds P kvs s \<and> m = map_of_log kvs"
proof (induction rule: blob_reach.induct)
  case created
  have "holds P [] (bl_open P [])" using holds_reopen[of "[]" P] by simp
  then show ?case by (auto simp: map_of_log_def intro!: exI[of _ "[]"])
next
  case (put s m k v s')
  then show ?case using holds_put map_of_log_snoc by metis
next
  case (refused s m k v e s')
  then show ?case by (auto simp: bl_put_def Let_def split: if_splits)
next
  case (reopened s m)
  then show ?case using holds_reopen by (auto simp: holds_def)
next
  case (crashed s m k v n)
  then obtain kvs where kvs: "holds P kvs s" "m = map_of_log kvs" by blast
  then show ?case using holds_open[OF _ crashed.hyps(2,3), where kvs = kvs] put_torn_file[OF kvs(1)] by (auto simp: holds_def)
next
  case (crashed_late s m k v)
  then obtain kvs where kvs: "holds P kvs s" "m = map_of_log kvs" by blast
  then have "list_all kv_ok (kvs @ [(k, v)])" using crashed_late.hyps(2) by (simp add: holds_def)
  from holds_reopen[OF this, of P] kvs show ?case
    using put_torn_file[OF kvs(1), of "length (bl_record P k v)" k v] by (auto simp: map_of_log_snoc simp del: length_record intro!: exI[of _ "kvs @ [(k, v)]"])
qed

text \<open>C27. Durability of the log: after any history of puts, refusals, reopenings and crashes, crashes in the middle of a record
  included, every key returns the value of the last put that was completed, and a key that was never put is absent.\<close>

theorem log_returns_last_put:
  assumes "blob_reach P s m"
  shows "bl_get s k = Inr (m k) \<and> (bl_contains_key s k \<longleftrightarrow> k \<in> dom m)"
  using blob_reach_holds[OF assms] holds_get holds_contains by blast

lemma put_ok: "kv_ok (k, v) \<Longrightarrow> \<exists>s'. bl_put P s k v = (Inr (), s')"
  by (simp add: bl_put_def Let_def)

theorem log_returns_last_put_witness:
  "\<exists>s. blob_reach toy_prims s [[1] \<mapsto> [5, 6]] \<and> bl_get s [1] = Inr (Some [5, 6]) \<and> \<not> bl_contains_key s [2]"
proof -
  obtain s where s: "bl_put toy_prims (bl_open toy_prims []) [1] [5, 6] = (Inr (), s)" using put_ok[of "[1]" "[5, 6]"] by auto
  have "blob_reach toy_prims (bl_open toy_prims (bl_file (bl_put_torn toy_prims s 7 [2] [9]))) [[1] \<mapsto> [5, 6]]"
    by (rule blob_reach.crashed[OF blob_reach.put[OF blob_reach.created s]]) simp_all
  from log_returns_last_put[OF this, of "[1]"] log_returns_last_put[OF this, of "[2]"] this show ?thesis by auto
qed

text \<open>The accounting over a prefix of the keys counts every stored key once, with the length of its newest value.\<close>

lemma sum_len_exact:
  assumes "blob_reach P s m"
  shows "sum_len_with_prefix s prefix =
    ((\<Sum>k | k \<in> dom m \<and> starts_with k prefix. length (the (m k))), card {k \<in> dom m. starts_with k prefix})"
proof -
  obtain kvs where kvs: "holds P kvs s" "m = map_of_log kvs" using blob_reach_holds[OF assms] by blast
  let ?I = "bl_index s"
  have I: "?I = index_from P 0 kvs []" using kvs(1) by (simp add: holds_def)
  let ?F = "filter (\<lambda>(key, _). starts_with key prefix) ?I"
  have d: "distinct (map fst ?F)" using index_distinct unfolding I by (simp add: distinct_map_filter)
  have "dom m = fst ` set ?I" using index_lookup[of kvs _ P] kvs(2) unfolding I dom_map_of_conv_image_fst[symmetric] by (auto simp: dom_def)
  then have F: "set (map fst ?F) = {k \<in> dom m. starts_with k prefix}" by force
  have len: "snd (snd e) = length (the (m (fst e)))" if "e \<in> set ?F" for e
  proof -
    obtain k off l where e: "e = (k, off, l)" by (cases e) auto
    have i: "map_of (index_from P 0 kvs []) k = Some (off, l)" using that index_distinct unfolding I e by (auto intro: map_of_is_SomeI)
    then have "length (slice off l (log_of P kvs)) = l" using index_bound[OF i] by simp
    then show ?thesis using i index_lookup[of kvs k P] kvs(2) unfolding e by simp
  qed
  have "sum_list (map (\<lambda>(_, _, len). len) ?F) = (\<Sum>k\<leftarrow>map fst ?F. length (the (m k)))"
    unfolding map_map by (rule arg_cong[of _ _ sum_list], rule map_cong[OF refl]) (use len in \<open>auto split: prod.splits\<close>)
  also have "\<dots> = (\<Sum>k\<in>set (map fst ?F). length (the (m k)))" by (rule sum.distinct_set_conv_list[OF d, symmetric])
  finally have "sum_list (map (\<lambda>(_, _, len). len) ?F) = (\<Sum>k | k \<in> dom m \<and> starts_with k prefix. length (the (m k)))" unfolding F .
  moreover have "length ?F = card {k \<in> dom m. starts_with k prefix}" using distinct_card[OF d] unfolding F by simp
  ultimately show ?thesis by (simp add: sum_len_with_prefix_def Let_def)
qed

section \<open>A write that fails without a crash\<close>

text \<open>C28. A failed write forges entries: when the write of a record stops in the middle and the process goes on, the bytes stay
  behind the append position. The next put covers only as many of them as its record is long, and the following scan reads
  on into the rest. If the value of the failed put holds the image of a record at that place, that record becomes part
  of the log: a key that was never put returns a value.\<close>

theorem failed_put_forges:
  assumes h: "blob_reach P s m" and ok: "kv_ok (k2, v2)" "kv_ok (k3, v3)" "kv_ok (k1, x @ bl_record P k3 v3)"
    and place: "6 + length k1 + length x = length (bl_record P k2 v2)" and new: "k3 \<noteq> k2"
    and n: "n = 6 + length k1 + length x + length (bl_record P k3 v3)"
    and t: "s1 = bl_put_torn P s n k1 (x @ bl_record P k3 v3)" and p: "bl_put P s1 k2 v2 = (Inr (), s2)"
  shows "bl_get (bl_open P (bl_file s2)) k3 = Inr (Some v3)"
proof -
  obtain kvs where kvs: "holds P kvs s" using blob_reach_holds[OF h] by blast
  let ?r1 = "bl_record P k1 (x @ bl_record P k3 v3)" and ?L = "log_of P kvs"
  have "bl_file s1 = ?L @ take n ?r1" "bl_append s1 = length ?L"
    using put_torn_file[OF kvs] kvs by (simp_all add: t bl_put_torn_def holds_def)
  then have "bl_file s2 = ?L @ bl_record P k2 v2 @ drop (length (bl_record P k2 v2)) (take n ?r1)"
    using p ok(1) by (auto simp: bl_put_def Let_def write_file_def split: if_splits)
  moreover have "drop (length (bl_record P k2 v2)) (take n ?r1) = bl_record P k3 v3"
    unfolding place[symmetric] n by (simp add: bl_record_def[of P k1] bl_payload_def[of k1])
  ultimately have f: "bl_file s2 = log_of P (kvs @ [(k2, v2), (k3, v3)])" by simp
  have "list_all kv_ok (kvs @ [(k2, v2), (k3, v3)])" using kvs ok by (simp add: holds_def)
  from holds_get[OF holds_reopen[OF this, of P], of k3] show ?thesis
    unfolding f using map_of_log_snoc[of "kvs @ [(k2, v2)]" k3 v3] by simp
qed

theorem failed_put_forges_witness:
  "\<exists>s1 s2. s1 = bl_put_torn toy_prims (bl_open toy_prims []) 22 [1] ([0, 0, 0, 0] @ bl_record toy_prims [3] [])
     \<and> bl_put toy_prims s1 [2] [] = (Inr (), s2)
     \<and> bl_get (bl_open toy_prims (bl_file s2)) [3] = Inr (Some [])"
proof -
  define s1 where "s1 = bl_put_torn toy_prims (bl_open toy_prims []) 22 [1] ([0, 0, 0, 0] @ bl_record toy_prims [3] [])"
  obtain s2 where s2: "bl_put toy_prims s1 [2] [] = (Inr (), s2)" using put_ok[of "[2]" "[]"] by auto
  have "bl_get (bl_open toy_prims (bl_file s2)) [3] = Inr (Some [])"
    by (rule failed_put_forges[OF blob_reach.created _ _ _ _ _ _ s1_def s2]) simp_all
  then show ?thesis using s1_def s2 by blast
qed

end
