(* ===== verification/Sync_Transport.thy ===== *)
theory Sync_Transport
  imports Version_Vector Negotiate "HOL-Library.AList"
begin

text \<open>
  The transports of the synchronisation: the trait and the in-memory relay of \<^verbatim>\<open>sfs-sync/src/lib.rs\<close>. A hash map is an
  association list without duplicate keys; what is iterated over is compared as a set. The trait is the locale
  \<open>transport\<close>: its laws say what a reader sees after each write, and everything that holds for every transport
  (the batch operations, the frontier of records, the accumulated version vector) is proved from them.
\<close>

section \<open>The trait\<close>

type_synonym account = bytes
type_synonym uuid = bytes
type_synonym block_addr = "account \<times> uuid \<times> u32 \<times> u64"
type_synonym unit_addr = "account \<times> uuid"

record stored_record =
  sr_vv :: version_vector
  sr_blob :: bytes

datatype sync_error = NotFound | SyncIo string | WriterSetDowngrade string

type_synonym 'a sync_result = "sync_error + 'a"

text \<open>The default methods of the trait, over the methods they call.\<close>

fun get_blocks ::
  "(account \<Rightarrow> uuid \<Rightarrow> u32 \<Rightarrow> u64 \<Rightarrow> bytes sync_result) \<Rightarrow> account \<Rightarrow> (uuid \<times> u32 \<times> u64) list \<Rightarrow>
   bytes option list sync_result" where
  "get_blocks get_block account [] = Inr []"
| "get_blocks get_block account ((uuid, frag, version) # keys) =
     (case (case get_block account uuid frag version of
              Inr ct \<Rightarrow> Inr (Some ct)
            | Inl NotFound \<Rightarrow> Inr None
            | Inl e \<Rightarrow> Inl e) of
        Inl e \<Rightarrow> Inl e
      | Inr x \<Rightarrow> (case get_blocks get_block account keys of Inl e \<Rightarrow> Inl e | Inr xs \<Rightarrow> Inr (x # xs)))"

fun put_blocks ::
  "(account \<Rightarrow> uuid \<Rightarrow> u32 \<Rightarrow> u64 \<Rightarrow> bytes \<Rightarrow> 's \<Rightarrow> unit sync_result \<times> 's) \<Rightarrow> account \<Rightarrow>
   (uuid \<times> u32 \<times> u64 \<times> bytes) list \<Rightarrow> 's \<Rightarrow> unit sync_result \<times> 's" where
  "put_blocks put_block account [] s = (Inr (), s)"
| "put_blocks put_block account ((uuid, frag, version, ciphertext) # blocks) s =
     (case put_block account uuid frag version ciphertext s of
        (Inl e, s) \<Rightarrow> (Inl e, s)
      | (Inr _, s) \<Rightarrow> put_blocks put_block account blocks s)"

definition get_record :: "(account \<Rightarrow> uuid \<Rightarrow> bytes list sync_result) \<Rightarrow> account \<Rightarrow> uuid \<Rightarrow> bytes sync_result" where
  "get_record get_records account uuid =
     (case get_records account uuid of Inl e \<Rightarrow> Inl e | Inr [] \<Rightarrow> Inl NotFound | Inr (b # _) \<Rightarrow> Inr b)"

section \<open>Hash maps\<close>

definition or_insert :: "'k \<Rightarrow> 'v \<Rightarrow> ('k \<times> 'v) list \<Rightarrow> ('k \<times> 'v) list" where
  "or_insert k v m = (case map_of m k of None \<Rightarrow> AList.update k v m | Some _ \<Rightarrow> m)"

definition get_or :: "'v \<Rightarrow> ('k \<times> 'v) list \<Rightarrow> 'k \<Rightarrow> 'v" where
  "get_or d m k = (case map_of m k of None \<Rightarrow> d | Some v \<Rightarrow> v)"

definition ok_or :: "'e \<Rightarrow> 'a option \<Rightarrow> 'e + 'a" where
  "ok_or e x = (case x of None \<Rightarrow> Inl e | Some a \<Rightarrow> Inr a)"

text \<open>The frontier of concurrent records: a record older than a stored one is dropped, the stored ones that are not newer make
  way for it.\<close>

definition frontier_put :: "stored_record list \<Rightarrow> version_vector \<Rightarrow> bytes \<Rightarrow> stored_record list" where
  "frontier_put frontier vv blob =
     (if list_ex (\<lambda>stored. vv_dominates (sr_vv stored) vv \<and> sr_vv stored \<noteq> vv) frontier then frontier
      else filter (\<lambda>stored. \<not> vv_dominates vv (sr_vv stored)) frontier @ [\<lparr>sr_vv = vv, sr_blob = blob\<rparr>])"

definition join_vv :: "version_vector option \<Rightarrow> version_vector \<Rightarrow> version_vector" where
  "join_vv existing vv = (case existing of Some existing \<Rightarrow> vv_join existing vv | None \<Rightarrow> vv)"

section \<open>The local transport\<close>

record local_transport =
  lt_blocks :: "(block_addr \<times> bytes) list"
  lt_vvs :: "(unit_addr \<times> version_vector) list"
  lt_records :: "(unit_addr \<times> stored_record list) list"
  lt_caps :: "(account \<times> (bytes \<times> ranked_cap list) list) list"
  lt_writer_sets :: "(account \<times> bytes) list"
  lt_key_grants :: "((account \<times> bytes) \<times> bytes) list"

definition lt_new :: local_transport where
  "lt_new = \<lparr>lt_blocks = [], lt_vvs = [], lt_records = [], lt_caps = [], lt_writer_sets = [], lt_key_grants = []\<rparr>"

definition lt_have :: "local_transport \<Rightarrow> account \<Rightarrow> uuid \<Rightarrow> version_vector sync_result" where
  "lt_have t account uuid = ok_or NotFound (map_of (lt_vvs t) (account, uuid))"

definition lt_list_units :: "local_transport \<Rightarrow> account \<Rightarrow> (uuid \<times> version_vector) list sync_result" where
  "lt_list_units t account = Inr (map (\<lambda>((_, uuid), vv). (uuid, vv)) (filter (\<lambda>((acc, _), _). acc = account) (lt_vvs t)))"

definition lt_get_block :: "local_transport \<Rightarrow> account \<Rightarrow> uuid \<Rightarrow> u32 \<Rightarrow> u64 \<Rightarrow> bytes sync_result" where
  "lt_get_block t account uuid frag version = ok_or NotFound (map_of (lt_blocks t) (account, uuid, frag, version))"

definition lt_put_block ::
  "account \<Rightarrow> uuid \<Rightarrow> u32 \<Rightarrow> u64 \<Rightarrow> bytes \<Rightarrow> local_transport \<Rightarrow> unit sync_result \<times> local_transport" where
  "lt_put_block account uuid frag version ciphertext t =
     (Inr (), t\<lparr>lt_blocks := or_insert (account, uuid, frag, version) ciphertext (lt_blocks t)\<rparr>)"

definition lt_overwrite_block ::
  "account \<Rightarrow> uuid \<Rightarrow> u32 \<Rightarrow> u64 \<Rightarrow> bytes \<Rightarrow> local_transport \<Rightarrow> unit sync_result \<times> local_transport" where
  "lt_overwrite_block account uuid frag version ciphertext t =
     (Inr (), t\<lparr>lt_blocks := AList.update (account, uuid, frag, version) ciphertext (lt_blocks t)\<rparr>)"

definition lt_publish_caps ::
  "account \<Rightarrow> bytes \<Rightarrow> ranked_cap list \<Rightarrow> local_transport \<Rightarrow> unit sync_result \<times> local_transport" where
  "lt_publish_caps account peer_id ranked t =
     (Inr (), t\<lparr>lt_caps := AList.update account (AList.update peer_id ranked (get_or [] (lt_caps t) account)) (lt_caps t)\<rparr>)"

definition lt_fetch_caps :: "local_transport \<Rightarrow> account \<Rightarrow> (bytes \<times> ranked_cap list) list sync_result" where
  "lt_fetch_caps t account = Inr (get_or [] (lt_caps t) account)"

definition lt_put_writer_set :: "account \<Rightarrow> bytes \<Rightarrow> local_transport \<Rightarrow> unit sync_result \<times> local_transport" where
  "lt_put_writer_set account blob t = (Inr (), t\<lparr>lt_writer_sets := AList.update account blob (lt_writer_sets t)\<rparr>)"

definition lt_get_writer_set :: "local_transport \<Rightarrow> account \<Rightarrow> bytes option sync_result" where
  "lt_get_writer_set t account = Inr (map_of (lt_writer_sets t) account)"

definition lt_put_key_grant ::
  "account \<Rightarrow> bytes \<Rightarrow> bytes \<Rightarrow> local_transport \<Rightarrow> unit sync_result \<times> local_transport" where
  "lt_put_key_grant account grantee blob t =
     (Inr (), t\<lparr>lt_key_grants := AList.update (account, grantee) blob (lt_key_grants t)\<rparr>)"

definition lt_get_key_grant :: "local_transport \<Rightarrow> account \<Rightarrow> bytes \<Rightarrow> bytes option sync_result" where
  "lt_get_key_grant t account grantee = Inr (map_of (lt_key_grants t) (account, grantee))"

definition lt_set_vv :: "account \<Rightarrow> uuid \<Rightarrow> version_vector \<Rightarrow> local_transport \<Rightarrow> unit sync_result \<times> local_transport" where
  "lt_set_vv account uuid vv t =
     (let key = (account, uuid)
      in (Inr (), t\<lparr>lt_vvs := AList.update key (join_vv (map_of (lt_vvs t) key) vv) (lt_vvs t)\<rparr>))"

definition lt_put_record ::
  "account \<Rightarrow> uuid \<Rightarrow> version_vector \<Rightarrow> bytes \<Rightarrow> local_transport \<Rightarrow> unit sync_result \<times> local_transport" where
  "lt_put_record account uuid vv blob t =
     (let key = (account, uuid)
      in (Inr (), t\<lparr>lt_records := AList.update key (frontier_put (get_or [] (lt_records t) key) vv blob) (lt_records t)\<rparr>))"

definition lt_get_records :: "local_transport \<Rightarrow> account \<Rightarrow> uuid \<Rightarrow> bytes list sync_result" where
  "lt_get_records t account uuid = Inr (map sr_blob (get_or [] (lt_records t) (account, uuid)))"

definition lt_list_records :: "local_transport \<Rightarrow> account \<Rightarrow> uuid list sync_result" where
  "lt_list_records t account = Inr (map snd (filter (\<lambda>(acc, _). acc = account) (map fst (lt_records t))))"

section \<open>Blocks on the wire and the difference of two manifests\<close>

definition frame_block :: "cipher_suite_id \<Rightarrow> bytes \<Rightarrow> bytes" where
  "frame_block suite ciphertext = u16_to_le suite @ ciphertext"

definition unframe_block :: "bytes \<Rightarrow> (cipher_suite_id \<times> bytes) sync_result" where
  "unframe_block framed =
     (if length framed < 2 then Inl (SyncIo ''framed block too short'')
      else Inr (u16_from_le [framed ! 0, framed ! 1], drop 2 framed))"

record unit_state =
  us_uuid :: uuid
  us_vv :: version_vector
  us_frag_versions :: "u64 list"

record block_ref =
  br_uuid :: uuid
  br_frag :: u32
  br_version :: u64

record sync_diff =
  to_push :: "block_ref list"
  to_pull :: "block_ref list"

definition nth_opt :: "'a list \<Rightarrow> nat \<Rightarrow> 'a option" where
  "nth_opt xs i = (if i < length xs then Some (xs ! i) else None)"

fun diff_frag :: "uuid \<Rightarrow> nat \<Rightarrow> u64 option \<Rightarrow> u64 option \<Rightarrow> sync_diff \<Rightarrow> sync_diff" where
  "diff_frag uuid f (Some l) (Some r) d =
     (let push = \<lparr>br_uuid = uuid, br_frag = word_of_nat f, br_version = l\<rparr>;
          pull = \<lparr>br_uuid = uuid, br_frag = word_of_nat f, br_version = r\<rparr>
      in if l = r then d
         else if l = 0 then d\<lparr>to_pull := to_pull d @ [pull]\<rparr>
         else if r = 0 then d\<lparr>to_push := to_push d @ [push]\<rparr>
         else d\<lparr>to_push := to_push d @ [push], to_pull := to_pull d @ [pull]\<rparr>)"
| "diff_frag uuid f (Some l) None d =
     (if l \<noteq> 0 then d\<lparr>to_push := to_push d @ [\<lparr>br_uuid = uuid, br_frag = word_of_nat f, br_version = l\<rparr>]\<rparr> else d)"
| "diff_frag uuid f None (Some r) d =
     (if r \<noteq> 0 then d\<lparr>to_pull := to_pull d @ [\<lparr>br_uuid = uuid, br_frag = word_of_nat f, br_version = r\<rparr>]\<rparr> else d)"
| "diff_frag uuid f None None d = d"

text \<open>The map from a UUID to the fragments of its unit; a later unit with the same UUID replaces an earlier one.\<close>

definition frags_of :: "unit_state list \<Rightarrow> uuid \<Rightarrow> u64 list" where
  "frags_of units uuid = get_or [] (map (\<lambda>u. (us_uuid u, us_frag_versions u)) (rev units)) uuid"

definition diff_unit :: "unit_state list \<Rightarrow> unit_state list \<Rightarrow> sync_diff \<Rightarrow> uuid \<Rightarrow> sync_diff" where
  "diff_unit local remote d uuid =
     (let lf = frags_of local uuid; rf = frags_of remote uuid
      in foldl (\<lambda>d f. diff_frag uuid f (nth_opt lf f) (nth_opt rf f) d) d [0..<max (length lf) (length rf)])"

definition diff :: "unit_state list \<Rightarrow> unit_state list \<Rightarrow> sync_diff" where
  "diff local remote_have =
     (let local_keys = remdups (map us_uuid local);
          remote_keys = remdups (map us_uuid remote_have);
          all_uuids = local_keys @ filter (\<lambda>uuid. uuid \<notin> set local_keys) remote_keys
      in foldl (diff_unit local remote_have) \<lparr>to_push = [], to_pull = []\<rparr> all_uuids)"

section \<open>The frontier\<close>

text \<open>The version vectors of a history of pushes that no other push has superseded.\<close>

definition newest :: "(version_vector \<times> 'b) list \<Rightarrow> version_vector set" where
  "newest H = {v \<in> fst ` set H. \<forall>w \<in> fst ` set H. vv_dominates w v \<longrightarrow> w = v}"

context causal_lattice
begin

lemma maximal_above:
  assumes "finite S" "\<forall>a\<in>S. inv a" "a \<in> S"
  shows "\<exists>m\<in>S. ge m a \<and> (\<forall>b\<in>S. ge b m \<longrightarrow> b = m)"
  using assms
proof (induction S arbitrary: a rule: finite_induct)
  case (insert x F)
  have ix: "inv x" and iF: "\<forall>a\<in>F. inv a" using insert.prems by auto
  have up: "\<exists>m\<in>insert x F. ge m a \<and> (\<forall>b\<in>insert x F. ge b m \<longrightarrow> b = m)" if aF: "a \<in> F" for a
  proof -
    obtain m where m: "m \<in> F" "ge m a" "\<forall>b\<in>F. ge b m \<longrightarrow> b = m" using insert.IH[OF iF aF] by blast
    show ?thesis
    proof (cases "ge x m \<and> x \<noteq> m")
      case True
      then have "ge x a" using m iF ix aF by (meson ge_trans)
      moreover have "b = x" if "b \<in> F" "ge b x" for b
        using that True m iF ix by (metis ge_antisym ge_trans)
      ultimately show ?thesis by blast
    next
      case False
      then show ?thesis using m by blast
    qed
  qed
  show ?case
  proof (cases "a \<in> F")
    case False
    then have a: "a = x" using insert.prems by simp
    show ?thesis
    proof (cases "\<exists>b\<in>F. ge b x")
      case True
      then obtain b where b: "b \<in> F" "ge b x" by blast
      from up[OF b(1)] obtain m where m: "m \<in> insert x F" "ge m b" "\<forall>c\<in>insert x F. ge c m \<longrightarrow> c = m" by blast
      moreover have "ge m x" using m(1,2) b iF ix insert.prems(1) by (meson ge_trans)
      ultimately show ?thesis using a by blast
    next
      case False
      then show ?thesis using a ix ge_refl by blast
    qed
  qed (rule up)
qed simp

end

lemma newest_above:
  assumes "\<forall>v \<in> fst ` set H. vv_inv v" "v \<in> fst ` set H"
  shows "\<exists>m \<in> newest H. vv_dominates m v"
  using vv.maximal_above[of "fst ` set H" v] assms unfolding newest_def by auto

abbreviation push_records :: "(version_vector \<times> bytes) list \<Rightarrow> stored_record list" where
  "push_records H \<equiv> foldl (\<lambda>f (v, b). frontier_put f v b) [] H"

definition frontier_of :: "(version_vector \<times> bytes) list \<Rightarrow> stored_record list \<Rightarrow> bool" where
  "frontier_of H f \<longleftrightarrow> distinct (map sr_vv f) \<and> set (map sr_vv f) = newest H
     \<and> list_all (\<lambda>r. map_of (rev H) (sr_vv r) = Some (sr_blob r)) f"

lemma newest_stale:
  assumes inv: "\<forall>v \<in> fst ` set (H @ [(v, b)]). vv_inv v" and m: "m \<in> newest H" "vv_dominates m v" "m \<noteq> v"
  shows "newest (H @ [(v, b)]) = newest H" "v \<notin> newest H"
proof -
  have mH: "m \<in> fst ` set H" and mx: "\<And>w. w \<in> fst ` set H \<Longrightarrow> vv_dominates w m \<Longrightarrow> w = m"
    using m by (auto simp: newest_def)
  show n: "v \<notin> newest H" using m mH by (auto simp: newest_def)
  have "u = v" if "u \<in> newest H" "vv_dominates v u" for u
  proof -
    have uH: "u \<in> fst ` set H" and ux: "\<And>w. w \<in> fst ` set H \<Longrightarrow> vv_dominates w u \<Longrightarrow> w = u"
      using that by (auto simp: newest_def)
    have i: "vv_inv m" "vv_inv v" "vv_inv u" using inv mH uH by auto
    have "vv_dominates m u" using vv.ge_trans[OF i m(2) that(2)] .
    then have "m = u" using ux mH by blast
    then show ?thesis using m that(2) i vv.ge_antisym by blast
  qed
  then have k: "v = u" if "u \<in> newest H" "vv_dominates v u" for u using that by blast
  have "v \<notin> newest (H @ [(v, b)])" using m mH by (auto simp: newest_def)
  then show "newest (H @ [(v, b)]) = newest H" using n k by (auto simp: newest_def)
qed

lemma newest_fresh:
  assumes inv: "\<forall>v \<in> fst ` set (H @ [(v, b)]). vv_inv v" and fresh: "\<forall>m \<in> newest H. vv_dominates m v \<longrightarrow> m = v"
  shows "newest (H @ [(v, b)]) = insert v {u \<in> newest H. \<not> vv_dominates v u}"
proof -
  have iH: "\<forall>v \<in> fst ` set H. vv_inv v" and iv: "vv_inv v" using inv by auto
  have top: "w = v" if w: "w \<in> fst ` set H" "vv_dominates w v" for w
  proof -
    obtain m where m: "m \<in> newest H" "vv_dominates m w" using newest_above[OF iH w(1)] by blast
    then have i: "vv_inv m" "vv_inv w" using iH w by (auto simp: newest_def)
    have "m = v" using fresh m(1) vv.ge_trans[OF i(1,2) iv m(2) w(2)] by blast
    then show ?thesis using m(2) w(2) i iv vv.ge_antisym by blast
  qed
  have refl: "vv_dominates v v" by (rule vv.ge_refl[OF iv])
  show ?thesis
  proof (intro set_eqI iffI)
    fix u assume u: "u \<in> newest (H @ [(v, b)])"
    show "u \<in> insert v {u \<in> newest H. \<not> vv_dominates v u}"
    proof (cases "u = v")
      case False
      then show ?thesis using u by (auto simp: newest_def)
    qed simp
  next
    fix u assume "u \<in> insert v {u \<in> newest H. \<not> vv_dominates v u}"
    then show "u \<in> newest (H @ [(v, b)])" using top by (auto simp: newest_def)
  qed
qed

lemma frontier_put_step:
  assumes f: "frontier_of H f" and inv: "\<forall>v \<in> fst ` set (H @ [(v, b)]). vv_inv v"
  shows "frontier_of (H @ [(v, b)]) (frontier_put f v b)"
proof (cases "list_ex (\<lambda>r. vv_dominates (sr_vv r) v \<and> sr_vv r \<noteq> v) f")
  case True
  then obtain r where r: "r \<in> set f" "vv_dominates (sr_vv r) v" "sr_vv r \<noteq> v" by (auto simp: list_ex_iff)
  have rn: "sr_vv r \<in> newest H" using r(1) f by (auto simp: frontier_of_def)
  note N = newest_stale[OF inv rn r(2,3)]
  have "sr_vv q \<noteq> v" if "q \<in> set f" for q using f N(2) that by (auto simp: frontier_of_def)
  then show ?thesis using True f N(1) by (auto simp: frontier_put_def frontier_of_def list_all_iff)
next
  case False
  moreover have nf: "newest H = sr_vv ` set f" using f by (simp add: frontier_of_def)
  ultimately have "\<forall>m \<in> newest H. vv_dominates m v \<longrightarrow> m = v" unfolding nf by (auto simp: list_ex_iff)
  note N = newest_fresh[OF inv this]
  let ?g = "filter (\<lambda>r. \<not> vv_dominates v (sr_vv r)) f"
  have refl: "vv_dominates v v" using vv.ge_refl inv by simp
  have ne: "sr_vv r \<noteq> v" if "r \<in> set ?g" for r using that refl by auto
  have "distinct (map sr_vv (?g @ [\<lparr>sr_vv = v, sr_blob = b\<rparr>]))"
    using f ne by (auto simp: frontier_of_def distinct_map_filter)
  moreover have "set (map sr_vv ?g) = {u \<in> newest H. \<not> vv_dominates v u}" unfolding nf by auto
  moreover have "list_all (\<lambda>r. map_of (rev (H @ [(v, b)])) (sr_vv r) = Some (sr_blob r)) (?g @ [\<lparr>sr_vv = v, sr_blob = b\<rparr>])"
    using f ne by (auto simp: frontier_of_def list_all_iff)
  ultimately have "frontier_of (H @ [(v, b)]) (?g @ [\<lparr>sr_vv = v, sr_blob = b\<rparr>])"
    unfolding frontier_of_def N by auto
  then show ?thesis using False by (simp add: frontier_put_def)
qed

lemma frontier_after_pushes:
  "\<forall>v \<in> fst ` set H. vv_inv v \<Longrightarrow> frontier_of H (push_records H)"
proof (induction H rule: rev_induct)
  case Nil
  then show ?case by (simp add: frontier_of_def newest_def)
next
  case (snoc x H)
  obtain v b where x: "x = (v, b)" by (cases x)
  then show ?case using frontier_put_step[of H "push_records H" v b] snoc by simp
qed

lemma frontier_concurrent:
  assumes "frontier_of H f" "i < length f" "j < length f" "i \<noteq> j"
  shows "vv_concurrent_with (sr_vv (f ! i)) (sr_vv (f ! j))"
proof -
  let ?v = "sr_vv (f ! i)" and ?w = "sr_vv (f ! j)"
  have "?v \<noteq> ?w" using assms by (auto simp: frontier_of_def distinct_conv_nth)
  moreover have "?v \<in> newest H" "?w \<in> newest H" using assms by (auto simp: frontier_of_def)
  ultimately have "\<not> vv_dominates ?v ?w" "\<not> vv_dominates ?w ?v" by (auto simp: newest_def)
  then show ?thesis by (simp add: vv_concurrent_with_def)
qed

section \<open>What a difference holds\<close>

definition wanted :: "u64 option \<Rightarrow> u64 option \<Rightarrow> u64 list" where
  "wanted own other = (case other of None \<Rightarrow> [] | Some r \<Rightarrow> if r = 0 \<or> own = Some r then [] else [r])"

abbreviation refs_to :: "uuid \<Rightarrow> nat \<Rightarrow> u64 list \<Rightarrow> block_ref list" where
  "refs_to uuid f vs \<equiv> map (\<lambda>v. \<lparr>br_uuid = uuid, br_frag = word_of_nat f, br_version = v\<rparr>) vs"

lemma diff_frag_lists:
  "to_push (diff_frag uuid f l r d) = to_push d @ refs_to uuid f (wanted r l)"
  "to_pull (diff_frag uuid f l r d) = to_pull d @ refs_to uuid f (wanted l r)"
  by (cases "(uuid, f, l, r, d)" rule: diff_frag.cases; auto simp: wanted_def Let_def)+

lemma foldl_appends:
  assumes "\<And>d x. g (h d x) = g d @ k x"
  shows "g (foldl h d xs) = g d @ concat (map k xs)"
  using assms by (induction xs arbitrary: d) simp_all

definition unit_refs :: "unit_state list \<Rightarrow> unit_state list \<Rightarrow> uuid \<Rightarrow> block_ref list" where
  "unit_refs own other uuid =
     concat (map (\<lambda>f. refs_to uuid f (wanted (nth_opt (frags_of own uuid) f) (nth_opt (frags_of other uuid) f)))
       [0..<max (length (frags_of own uuid)) (length (frags_of other uuid))])"

lemma diff_unit_lists:
  "to_push (diff_unit local remote d uuid) = to_push d @ unit_refs remote local uuid"
  "to_pull (diff_unit local remote d uuid) = to_pull d @ unit_refs local remote uuid"
  unfolding diff_unit_def Let_def unit_refs_def
  by (simp_all add: foldl_appends[of to_push, OF diff_frag_lists(1)] foldl_appends[of to_pull, OF diff_frag_lists(2)] max.commute)

lemma set_unit_refs:
  "set (unit_refs own other uuid) =
     {\<lparr>br_uuid = uuid, br_frag = word_of_nat f, br_version = v\<rparr> | f v.
        nth_opt (frags_of other uuid) f = Some v \<and> v \<noteq> 0 \<and> nth_opt (frags_of own uuid) f \<noteq> Some v}"
  by (fastforce simp: unit_refs_def wanted_def nth_opt_def split: option.splits if_splits)

lemma frags_of_absent: "uuid \<notin> us_uuid ` set units \<Longrightarrow> frags_of units uuid = []"
  by (auto simp: frags_of_def get_or_def split: option.splits dest!: map_of_SomeD)

text \<open>The difference of two manifests asks for exactly the blocks that are missing: a block is pulled exactly if the
  remote side has it, it is not a hole, and the local side has no block or another version at that fragment; a block is
  pushed exactly if the same holds with the sides exchanged.\<close>

theorem diff_exact:
  "set (to_pull (diff local remote)) =
     {\<lparr>br_uuid = u, br_frag = word_of_nat f, br_version = v\<rparr> | u f v.
        nth_opt (frags_of remote u) f = Some v \<and> v \<noteq> 0 \<and> nth_opt (frags_of local u) f \<noteq> Some v}
   \<and> set (to_push (diff local remote)) =
     {\<lparr>br_uuid = u, br_frag = word_of_nat f, br_version = v\<rparr> | u f v.
        nth_opt (frags_of local u) f = Some v \<and> v \<noteq> 0 \<and> nth_opt (frags_of remote u) f \<noteq> Some v}"
proof -
  let ?all = "remdups (map us_uuid local) @ filter (\<lambda>uuid. uuid \<notin> set (remdups (map us_uuid local))) (remdups (map us_uuid remote))"
  have all: "set ?all = us_uuid ` set local \<union> us_uuid ` set remote" by auto
  have d: "diff local remote = foldl (diff_unit local remote) \<lparr>to_push = [], to_pull = []\<rparr> ?all"
    by (simp only: diff_def Let_def)
  have out: "nth_opt (frags_of remote u) f = None" "nth_opt (frags_of local u) f = None" if "u \<notin> set ?all" for u f
    using that unfolding all by (simp_all add: frags_of_absent nth_opt_def)
  have "set (to_pull (diff local remote)) = (\<Union>u \<in> set ?all. set (unit_refs local remote u))"
    unfolding d by (simp add: foldl_appends[of to_pull, OF diff_unit_lists(2)])
  moreover have "set (to_push (diff local remote)) = (\<Union>u \<in> set ?all. set (unit_refs remote local u))"
    unfolding d by (simp add: foldl_appends[of to_push, OF diff_unit_lists(1)])
  ultimately show ?thesis unfolding set_unit_refs using out by fastforce
qed

lemma unframe_frame [simp]: "unframe_block (frame_block suite ct) = Inr (suite, ct)"
proof -
  obtain a b where ab: "u16_to_le suite = [a, b]" using length_2[OF u16_le_length] by blast
  have "u16_from_le [a, b] = suite" using u16_le_inverse[of suite] by (simp only: ab)
  then show ?thesis by (simp add: unframe_block_def frame_block_def ab)
qed

section \<open>What every transport promises\<close>

text \<open>The laws of the trait. The frontier is the abstraction by which the records of a unit are specified; the trait shows
  only its blobs.\<close>

locale transport =
  fixes have_vv :: "'s \<Rightarrow> account \<Rightarrow> uuid \<Rightarrow> version_vector sync_result"
    and get_block :: "'s \<Rightarrow> account \<Rightarrow> uuid \<Rightarrow> u32 \<Rightarrow> u64 \<Rightarrow> bytes sync_result"
    and put_block :: "account \<Rightarrow> uuid \<Rightarrow> u32 \<Rightarrow> u64 \<Rightarrow> bytes \<Rightarrow> 's \<Rightarrow> unit sync_result \<times> 's"
    and overwrite_block :: "account \<Rightarrow> uuid \<Rightarrow> u32 \<Rightarrow> u64 \<Rightarrow> bytes \<Rightarrow> 's \<Rightarrow> unit sync_result \<times> 's"
    and set_vv :: "account \<Rightarrow> uuid \<Rightarrow> version_vector \<Rightarrow> 's \<Rightarrow> unit sync_result \<times> 's"
    and put_record :: "account \<Rightarrow> uuid \<Rightarrow> version_vector \<Rightarrow> bytes \<Rightarrow> 's \<Rightarrow> unit sync_result \<times> 's"
    and get_records :: "'s \<Rightarrow> account \<Rightarrow> uuid \<Rightarrow> bytes list sync_result"
    and frontier :: "'s \<Rightarrow> account \<Rightarrow> uuid \<Rightarrow> stored_record list"
  assumes block_error: "get_block s a u f n = Inl e \<Longrightarrow> e = NotFound"
    and have_error: "have_vv s a u = Inl e \<Longrightarrow> e = NotFound"
    and records_frontier: "get_records s a u = Inr (map sr_blob (frontier s a u))"
    and put_block_ok: "fst (put_block a u f n c s) = Inr ()"
    and put_block_get: "get_block (snd (put_block a u f n c s)) a' u' f' n' =
          (if (a', u', f', n') = (a, u, f, n) \<and> get_block s a u f n = Inl NotFound then Inr c else get_block s a' u' f' n')"
    and overwrite_ok: "fst (overwrite_block a u f n c s) = Inr ()"
    and overwrite_get: "get_block (snd (overwrite_block a u f n c s)) a' u' f' n' =
          (if (a', u', f', n') = (a, u, f, n) then Inr c else get_block s a' u' f' n')"
    and set_vv_ok: "fst (set_vv a u v s) = Inr ()"
    and set_vv_have: "have_vv (snd (set_vv a u v s)) a' u' =
          (if (a', u') = (a, u) then Inr (case have_vv s a u of Inl _ \<Rightarrow> v | Inr w \<Rightarrow> vv_join w v) else have_vv s a' u')"
    and put_record_ok: "fst (put_record a u v b s) = Inr ()"
    and put_record_frontier: "frontier (snd (put_record a u v b s)) a' u' =
          (if (a', u') = (a, u) then frontier_put (frontier s a u) v b else frontier s a' u')"
begin

lemma put_blocks_all:
  "fst (put_blocks put_block a bs s) = Inr ()
   \<and> get_block (snd (put_blocks put_block a bs s)) a u f n =
     (case get_block s a u f n of
        Inr c \<Rightarrow> Inr c
      | Inl _ \<Rightarrow> ok_or NotFound (map_of (map (\<lambda>(u, f, n, c). ((u, f, n), c)) bs) (u, f, n)))"
proof (induction bs arbitrary: s)
  case Nil
  then show ?case by (auto simp: ok_or_def dest: block_error split: sum.split)
next
  case (Cons b bs)
  obtain u0 f0 n0 c0 where b: "b = (u0, f0, n0, c0)" by (cases b)
  obtain s1 where s1: "put_block a u0 f0 n0 c0 s = (Inr (), s1)" using put_block_ok by (metis prod.collapse)
  have g: "get_block s1 a u f n = (if (u, f, n) = (u0, f0, n0) \<and> get_block s a u0 f0 n0 = Inl NotFound then Inr c0 else get_block s a u f n)"
    using put_block_get[of a u0 f0 n0 c0 s a u f n] s1 by auto
  show ?case
    using Cons[of s1] g s1 by (auto simp: b ok_or_def dest: block_error split: sum.split)
qed

lemma get_blocks_all:
  "get_blocks (get_block s) a ks = Inr (map (\<lambda>(u, f, n). case get_block s a u f n of Inl _ \<Rightarrow> None | Inr c \<Rightarrow> Some c) ks)"
proof (induction ks)
  case (Cons k ks)
  obtain u f n where k: "k = (u, f, n)" by (cases k)
  show ?case
    using Cons block_error[of s a u f n] by (cases "get_block s a u f n") (auto simp: k)
qed simp

lemma push_frontier:
  "frontier (foldl (\<lambda>s (v, b). snd (put_record a u v b s)) s H) a u = foldl (\<lambda>f (v, b). frontier_put f v b) (frontier s a u) H"
  by (induction H arbitrary: s) (auto simp: put_record_frontier split: prod.split)

lemma push_have:
  assumes "have_vv s a u = Inl NotFound"
  shows "have_vv (foldl (\<lambda>s v. snd (set_vv a u v s)) s (v # vs)) a u = Inr (foldl vv_join v vs)"
proof -
  have "have_vv (foldl (\<lambda>s v. snd (set_vv a u v s)) t vs) a u = Inr (foldl vv_join w vs)" if "have_vv t a u = Inr w" for t w
    using that by (induction vs arbitrary: t w) (auto simp: set_vv_have)
  then show ?thesis using assms by (simp add: set_vv_have)
qed

end

lemma map_of_or_insert:
  "map_of (or_insert k v m) k' = (if k' = k \<and> map_of m k = None then Some v else map_of m k')"
  by (auto simp: or_insert_def update_conv' split: option.split)

lemma map_of_update: "map_of (AList.update k v m) k' = (if k' = k then Some v else map_of m k')"
  by (simp add: update_conv')

lemma get_or_update: "get_or d (AList.update k v m) k' = (if k' = k then v else get_or d m k')"
  by (simp add: get_or_def update_conv')

interpretation lt: transport lt_have lt_get_block lt_put_block lt_overwrite_block lt_set_vv lt_put_record lt_get_records
  "\<lambda>t a u. get_or [] (lt_records t) (a, u)"
  by unfold_locales
    (auto simp: lt_get_block_def lt_have_def lt_get_records_def lt_put_block_def lt_overwrite_block_def lt_set_vv_def lt_put_record_def
      Let_def ok_or_def join_vv_def map_of_or_insert map_of_update get_or_update split: option.splits if_splits)

end
