(* ===== verification/Server_Store.thy ===== *)
theory Server_Store
  imports Sync_Transport
begin

text \<open>
  The store of the service in memory, \<^verbatim>\<open>ServerStore\<close> of \<^verbatim>\<open>sfs-saas/src/lib.rs\<close>: it is a transport, and it keeps the
  credentials of the accounts. Shown are the laws of the transport, the frontier of the records, and that what one account
  can see of the store depends on the operations of that account alone.
\<close>

section \<open>The code\<close>

record server_store =
  ss_blocks :: "(block_addr \<times> bytes) list"
  ss_vvs :: "(unit_addr \<times> version_vector) list"
  ss_records :: "(unit_addr \<times> stored_record list) list"
  ss_srp_credentials :: "(account \<times> bytes \<times> bytes) list"
  ss_recovery_credentials :: "(account \<times> bytes \<times> bytes) list"
  ss_wrapped_keys :: "(account \<times> bytes) list"
  ss_recovery_blobs :: "(account \<times> bytes) list"

definition ss_new :: server_store where
  "ss_new = \<lparr>ss_blocks = [], ss_vvs = [], ss_records = [], ss_srp_credentials = [], ss_recovery_credentials = [],
     ss_wrapped_keys = [], ss_recovery_blobs = []\<rparr>"

definition ss_put_block ::
  "account \<Rightarrow> uuid \<Rightarrow> u32 \<Rightarrow> u64 \<Rightarrow> bytes \<Rightarrow> server_store \<Rightarrow> unit sync_result \<times> server_store" where
  "ss_put_block account uuid frag version ciphertext s =
     (Inr (), s\<lparr>ss_blocks := or_insert (account, uuid, frag, version) ciphertext (ss_blocks s)\<rparr>)"

definition ss_overwrite_block ::
  "account \<Rightarrow> uuid \<Rightarrow> u32 \<Rightarrow> u64 \<Rightarrow> bytes \<Rightarrow> server_store \<Rightarrow> unit sync_result \<times> server_store" where
  "ss_overwrite_block account uuid frag version ciphertext s =
     (Inr (), s\<lparr>ss_blocks := AList.update (account, uuid, frag, version) ciphertext (ss_blocks s)\<rparr>)"

definition ss_get_block :: "server_store \<Rightarrow> account \<Rightarrow> uuid \<Rightarrow> u32 \<Rightarrow> u64 \<Rightarrow> bytes sync_result" where
  "ss_get_block s account uuid frag version = ok_or NotFound (map_of (ss_blocks s) (account, uuid, frag, version))"

definition ss_have :: "server_store \<Rightarrow> account \<Rightarrow> uuid \<Rightarrow> version_vector sync_result" where
  "ss_have s account uuid = ok_or NotFound (map_of (ss_vvs s) (account, uuid))"

definition ss_set_vv :: "account \<Rightarrow> uuid \<Rightarrow> version_vector \<Rightarrow> server_store \<Rightarrow> unit sync_result \<times> server_store" where
  "ss_set_vv account uuid vv s =
     (let key = (account, uuid)
      in (Inr (), s\<lparr>ss_vvs := AList.update key (join_vv (map_of (ss_vvs s) key) vv) (ss_vvs s)\<rparr>))"

definition ss_list_units :: "server_store \<Rightarrow> account \<Rightarrow> (uuid \<times> version_vector) list sync_result" where
  "ss_list_units s account = Inr (map (\<lambda>((_, uuid), vv). (uuid, vv)) (filter (\<lambda>((acc, _), _). acc = account) (ss_vvs s)))"

definition ss_put_record ::
  "account \<Rightarrow> uuid \<Rightarrow> version_vector \<Rightarrow> bytes \<Rightarrow> server_store \<Rightarrow> unit sync_result \<times> server_store" where
  "ss_put_record account uuid vv blob s =
     (let key = (account, uuid)
      in (Inr (), s\<lparr>ss_records := AList.update key (frontier_put (get_or [] (ss_records s) key) vv blob) (ss_records s)\<rparr>))"

definition ss_get_records :: "server_store \<Rightarrow> account \<Rightarrow> uuid \<Rightarrow> bytes list sync_result" where
  "ss_get_records s account uuid = Inr (map sr_blob (get_or [] (ss_records s) (account, uuid)))"

definition ss_list_records :: "server_store \<Rightarrow> account \<Rightarrow> uuid list sync_result" where
  "ss_list_records s account = Inr (map snd (filter (\<lambda>(acc, _). acc = account) (map fst (ss_records s))))"

text \<open>The sizes are summed in unbounded integers: every summand is the length of a byte string in memory.\<close>

definition account_bytes :: "server_store \<Rightarrow> account \<Rightarrow> nat" where
  "account_bytes s account =
     sum_list (map (\<lambda>(_, ct). length ct) (filter (\<lambda>((acc, _), _). acc = account) (ss_blocks s)))
     + sum_list (concat (map (\<lambda>(_, frontier). map (\<lambda>r. length (sr_blob r)) frontier)
         (filter (\<lambda>((acc, _), _). acc = account) (ss_records s))))"

definition ss_register :: "account \<Rightarrow> bytes \<Rightarrow> bytes \<Rightarrow> server_store \<Rightarrow> bool \<times> server_store" where
  "ss_register account salt verifier s =
     (if map_of (ss_srp_credentials s) account \<noteq> None then (False, s)
      else (True, s\<lparr>ss_srp_credentials := AList.update account (salt, verifier) (ss_srp_credentials s)\<rparr>))"

definition account_exists :: "server_store \<Rightarrow> account \<Rightarrow> bool" where
  "account_exists s account \<longleftrightarrow> map_of (ss_srp_credentials s) account \<noteq> None"

definition update_credentials :: "account \<Rightarrow> bytes \<Rightarrow> bytes \<Rightarrow> server_store \<Rightarrow> server_store" where
  "update_credentials account salt verifier s =
     s\<lparr>ss_srp_credentials := AList.update account (salt, verifier) (ss_srp_credentials s)\<rparr>"

definition get_credentials :: "server_store \<Rightarrow> account \<Rightarrow> (bytes \<times> bytes) option" where
  "get_credentials s account = map_of (ss_srp_credentials s) account"

definition put_recovery_credentials :: "account \<Rightarrow> bytes \<Rightarrow> bytes \<Rightarrow> server_store \<Rightarrow> server_store" where
  "put_recovery_credentials account salt verifier s =
     s\<lparr>ss_recovery_credentials := AList.update account (salt, verifier) (ss_recovery_credentials s)\<rparr>"

definition get_recovery_credentials :: "server_store \<Rightarrow> account \<Rightarrow> (bytes \<times> bytes) option" where
  "get_recovery_credentials s account = map_of (ss_recovery_credentials s) account"

definition put_wrapped_key :: "account \<Rightarrow> bytes \<Rightarrow> server_store \<Rightarrow> server_store" where
  "put_wrapped_key account blob s = s\<lparr>ss_wrapped_keys := AList.update account blob (ss_wrapped_keys s)\<rparr>"

definition get_wrapped_key :: "server_store \<Rightarrow> account \<Rightarrow> bytes option" where
  "get_wrapped_key s account = map_of (ss_wrapped_keys s) account"

definition put_recovery_blob :: "account \<Rightarrow> bytes \<Rightarrow> server_store \<Rightarrow> server_store" where
  "put_recovery_blob account blob s = s\<lparr>ss_recovery_blobs := AList.update account blob (ss_recovery_blobs s)\<rparr>"

definition get_recovery_blob :: "server_store \<Rightarrow> account \<Rightarrow> bytes option" where
  "get_recovery_blob s account = map_of (ss_recovery_blobs s) account"

interpretation ss: transport ss_have ss_get_block ss_put_block ss_overwrite_block ss_set_vv ss_put_record ss_get_records
  "\<lambda>s a u. get_or [] (ss_records s) (a, u)"
  by unfold_locales
    (auto simp: ss_get_block_def ss_have_def ss_get_records_def ss_put_block_def ss_overwrite_block_def ss_set_vv_def ss_put_record_def
      Let_def ok_or_def join_vv_def map_of_or_insert map_of_update get_or_update split: option.splits if_splits)

section \<open>The operations of a client\<close>

datatype server_op =
    OpPutBlock account uuid u32 u64 bytes
  | OpOverwriteBlock account uuid u32 u64 bytes
  | OpSetVv account uuid version_vector
  | OpPutRecord account uuid version_vector bytes
  | OpRegister account bytes bytes
  | OpUpdateCredentials account bytes bytes
  | OpRecoveryCredentials account bytes bytes
  | OpWrappedKey account bytes
  | OpRecoveryBlob account bytes

fun op_account :: "server_op \<Rightarrow> account" where
  "op_account (OpPutBlock a u f n c) = a"
| "op_account (OpOverwriteBlock a u f n c) = a"
| "op_account (OpSetVv a u v) = a"
| "op_account (OpPutRecord a u v b) = a"
| "op_account (OpRegister a x v) = a"
| "op_account (OpUpdateCredentials a x v) = a"
| "op_account (OpRecoveryCredentials a x v) = a"
| "op_account (OpWrappedKey a b) = a"
| "op_account (OpRecoveryBlob a b) = a"

fun op_apply :: "server_store \<Rightarrow> server_op \<Rightarrow> server_store" where
  "op_apply s (OpPutBlock a u f n c) = snd (ss_put_block a u f n c s)"
| "op_apply s (OpOverwriteBlock a u f n c) = snd (ss_overwrite_block a u f n c s)"
| "op_apply s (OpSetVv a u v) = snd (ss_set_vv a u v s)"
| "op_apply s (OpPutRecord a u v b) = snd (ss_put_record a u v b s)"
| "op_apply s (OpRegister a x v) = snd (ss_register a x v s)"
| "op_apply s (OpUpdateCredentials a x v) = update_credentials a x v s"
| "op_apply s (OpRecoveryCredentials a x v) = put_recovery_credentials a x v s"
| "op_apply s (OpWrappedKey a b) = put_wrapped_key a b s"
| "op_apply s (OpRecoveryBlob a b) = put_recovery_blob a b s"

text \<open>Everything an account can ask of the store.\<close>

record account_view =
  av_block :: "uuid \<Rightarrow> u32 \<Rightarrow> u64 \<Rightarrow> bytes sync_result"
  av_have :: "uuid \<Rightarrow> version_vector sync_result"
  av_units :: "(uuid \<times> version_vector) list sync_result"
  av_records :: "uuid \<Rightarrow> bytes list sync_result"
  av_record_ids :: "uuid list sync_result"
  av_bytes :: nat
  av_exists :: bool
  av_credentials :: "(bytes \<times> bytes) option"
  av_recovery_credentials :: "(bytes \<times> bytes) option"
  av_wrapped_key :: "bytes option"
  av_recovery_blob :: "bytes option"

definition view_of :: "account \<Rightarrow> server_store \<Rightarrow> account_view" where
  "view_of a s = \<lparr>av_block = ss_get_block s a, av_have = ss_have s a, av_units = ss_list_units s a,
     av_records = ss_get_records s a, av_record_ids = ss_list_records s a, av_bytes = account_bytes s a,
     av_exists = account_exists s a, av_credentials = get_credentials s a,
     av_recovery_credentials = get_recovery_credentials s a, av_wrapped_key = get_wrapped_key s a,
     av_recovery_blob = get_recovery_blob s a\<rparr>"

section \<open>Isolation of accounts\<close>

definition keep :: "('k \<Rightarrow> bool) \<Rightarrow> ('k \<times> 'v) list \<Rightarrow> ('k \<times> 'v) list" where
  "keep P m = filter (\<lambda>e. P (fst e)) m"

lemma keep_update: "keep P (AList.update k v m) = (if P k then AList.update k v (keep P m) else keep P m)"
  unfolding keep_def by (induction m) auto

lemma map_of_keep: "P k \<Longrightarrow> map_of (keep P m) k = map_of m k"
  unfolding keep_def by (induction m) auto

lemma keep_keep: "keep P (keep P m) = keep P m"
  by (simp add: keep_def)

lemma keep_or_insert: "keep P (or_insert k v m) = (if P k then or_insert k v (keep P m) else keep P m)"
  by (auto simp: or_insert_def keep_update map_of_keep split: option.split)

lemma get_or_keep: "P k \<Longrightarrow> get_or d (keep P m) k = get_or d m k"
  by (simp add: get_or_def map_of_keep)

lemmas keep_simps = keep_update map_of_keep keep_or_insert get_or_keep keep_keep

text \<open>The part of the store under the keys of one account.\<close>

definition of_account :: "account \<Rightarrow> server_store \<Rightarrow> server_store" where
  "of_account a s = \<lparr>ss_blocks = keep (\<lambda>k. fst k = a) (ss_blocks s), ss_vvs = keep (\<lambda>k. fst k = a) (ss_vvs s),
     ss_records = keep (\<lambda>k. fst k = a) (ss_records s), ss_srp_credentials = keep (\<lambda>k. k = a) (ss_srp_credentials s),
     ss_recovery_credentials = keep (\<lambda>k. k = a) (ss_recovery_credentials s),
     ss_wrapped_keys = keep (\<lambda>k. k = a) (ss_wrapped_keys s), ss_recovery_blobs = keep (\<lambda>k. k = a) (ss_recovery_blobs s)\<rparr>"

lemma view_of_account: "view_of a (of_account a s) = view_of a s"
proof -
  have f: "filter (\<lambda>((acc, _), _). acc = a) m = keep (\<lambda>k. fst k = a) m" for m :: "((account \<times> 'b) \<times> 'c) list"
    unfolding keep_def by (rule filter_cong) auto
  have g: "filter (\<lambda>(acc, _). acc = a) (map fst m) = map fst (keep (\<lambda>k. fst k = a) m)" for m :: "((account \<times> 'b) \<times> 'c) list"
    unfolding keep_def by (induction m) auto
  show ?thesis
    by (simp add: view_of_def of_account_def fun_eq_iff ss_get_block_def ss_have_def ss_list_units_def ss_get_records_def
      ss_list_records_def account_bytes_def account_exists_def get_credentials_def get_recovery_credentials_def
      get_wrapped_key_def get_recovery_blob_def keep_simps f g)
qed

lemma of_account_op:
  "of_account a (op_apply s op) = (if op_account op = a then op_apply (of_account a s) op else of_account a s)"
  by (cases op)
    (auto simp: of_account_def ss_put_block_def ss_overwrite_block_def ss_set_vv_def ss_put_record_def ss_register_def
      update_credentials_def put_recovery_credentials_def put_wrapped_key_def put_recovery_blob_def keep_simps Let_def)

lemma of_account_run:
  "of_account a (foldl op_apply s ops) = foldl op_apply (of_account a s) (filter (\<lambda>op. op_account op = a) ops)"
  by (induction ops arbitrary: s) (simp_all add: of_account_op)

text \<open>C30. Isolation of accounts: after any interleaving of the operations of any accounts, everything an account can ask of
  the store is what it would be had only its own operations happened.\<close>

theorem accounts_isolated:
  "view_of a (foldl op_apply s ops) = view_of a (foldl op_apply s (filter (\<lambda>op. op_account op = a) ops))"
proof -
  let ?own = "filter (\<lambda>op. op_account op = a) ops"
  have "of_account a (foldl op_apply s ?own) = foldl op_apply (of_account a s) ?own" by (simp add: of_account_run)
  also have "\<dots> = of_account a (foldl op_apply s ops)" by (simp add: of_account_run)
  finally show ?thesis by (metis view_of_account)
qed

section \<open>Records of a unit\<close>

text \<open>C29. The frontier: after any history of record pushes to a unit of a new store, the stored version vectors are exactly
  those pushed that no other pushed vector supersedes, each once, each with the last blob pushed for it, and
  they are pairwise concurrent. Both transports answer with the same records.\<close>

theorem frontier_exact:
  assumes "list_all (\<lambda>(v, b). vv_inv v) H"
  shows "\<exists>f :: stored_record list. ss_get_records (foldl (\<lambda>s (v, b). snd (ss_put_record a u v b s)) ss_new H) a u = Inr (map sr_blob f)
     \<and> lt_get_records (foldl (\<lambda>t (v, b). snd (lt_put_record a u v b t)) lt_new H) a u = Inr (map sr_blob f)
     \<and> distinct (map sr_vv f) \<and> sr_vv ` set f = newest H
     \<and> list_all (\<lambda>r. map_of (rev H) (sr_vv r) = Some (sr_blob r)) f
     \<and> (\<forall>i < length f. \<forall>j < length f. i \<noteq> j \<longrightarrow> vv_concurrent_with (sr_vv (f ! i)) (sr_vv (f ! j)))"
proof -
  have "\<forall>v \<in> fst ` set H. vv_inv v" using assms by (auto simp: list_all_iff)
  then have f: "frontier_of H (push_records H)" by (rule frontier_after_pushes)
  have "get_or [] (ss_records ss_new) (a, u) = []" "get_or [] (lt_records lt_new) (a, u) = []"
    by (simp_all add: ss_new_def lt_new_def get_or_def)
  then have r: "ss_get_records (foldl (\<lambda>s (v, b). snd (ss_put_record a u v b s)) ss_new H) a u = Inr (map sr_blob (push_records H))"
    "lt_get_records (foldl (\<lambda>t (v, b). snd (lt_put_record a u v b t)) lt_new H) a u = Inr (map sr_blob (push_records H))"
    by (simp_all add: ss.records_frontier lt.records_frontier ss.push_frontier lt.push_frontier)
  have c: "\<forall>i < length (push_records H). \<forall>j < length (push_records H). i \<noteq> j \<longrightarrow>
      vv_concurrent_with (sr_vv (push_records H ! i)) (sr_vv (push_records H ! j))"
    using frontier_concurrent[OF f] by blast
  have "distinct (map sr_vv (push_records H))" "sr_vv ` set (push_records H) = newest H"
    "list_all (\<lambda>r. map_of (rev H) (sr_vv r) = Some (sr_blob r)) (push_records H)"
    using f by (simp_all add: frontier_of_def)
  with r c show ?thesis by (intro exI[of _ "push_records H"] conjI)
qed

theorem frontier_exact_witness:
  "list_all (\<lambda>(v, b). vv_inv v) [(\<lparr>vv_entries = [(1, 1)]\<rparr>, [10]), (\<lparr>vv_entries = [(2, 1)]\<rparr>, [20]), (\<lparr>vv_entries = [(1, 2)]\<rparr>, [30 :: u8])]
   \<and> (\<exists>f :: stored_record list. ss_get_records (foldl (\<lambda>s (v, b). snd (ss_put_record [7] [8] v b s)) ss_new
         [(\<lparr>vv_entries = [(1, 1)]\<rparr>, [10]), (\<lparr>vv_entries = [(2, 1)]\<rparr>, [20]), (\<lparr>vv_entries = [(1, 2)]\<rparr>, [30])]) [7] [8] = Inr (map sr_blob f)
       \<and> distinct (map sr_vv f))"
proof -
  have h: "list_all (\<lambda>(v, b). vv_inv v) [(\<lparr>vv_entries = [(1, 1)]\<rparr>, [10]), (\<lparr>vv_entries = [(2, 1)]\<rparr>, [20]), (\<lparr>vv_entries = [(1, 2)]\<rparr>, [30 :: u8])]"
    by (simp add: vv_inv_def)
  show ?thesis using frontier_exact[OF h, of "[7]" "[8]"] h by blast
qed

end
