(* ===== verification/Nosql_Record.thy ===== *)
theory Nosql_Record
  imports Commit_Record "HOL-Library.List_Lexorder"
begin

text \<open>
  Values and records of the database layer, from \<^verbatim>\<open>sfs-nosql/src/value.rs\<close> and \<^verbatim>\<open>sfs-nosql/src/record.rs\<close>. A string is
  its UTF-8 bytes, a floating-point number is its bit pattern, and a \<^verbatim>\<open>BTreeMap\<close> is its list of entries in the order of
  the keys. A record has a packed layout and a layout with one slot per property; both are read back in front of
  whatever bytes an earlier, longer record left behind.
\<close>

section \<open>Values\<close>

datatype db_value =
    VNull
  | VBool bool
  | VI64 u64
  | VF64 u64
  | VStr bytes
  | VBytes bytes

datatype value_error = VTruncated | BadTag u8 | BadBool u8 | VBadUtf8

definition TAG_NULL :: u8 where "TAG_NULL = 0"
definition TAG_BOOL :: u8 where "TAG_BOOL = 1"
definition TAG_I64 :: u8 where "TAG_I64 = 2"
definition TAG_F64 :: u8 where "TAG_F64 = 3"
definition TAG_STR :: u8 where "TAG_STR = 4"
definition TAG_BYTES :: u8 where "TAG_BYTES = 5"

lemmas tag_defs = TAG_NULL_def TAG_BOOL_def TAG_I64_def TAG_F64_def TAG_STR_def TAG_BYTES_def

fun value_encode :: "db_value \<Rightarrow> bytes" where
  "value_encode VNull = [TAG_NULL]"
| "value_encode (VBool b) = [TAG_BOOL, of_bool b]"
| "value_encode (VI64 v) = TAG_I64 # u64_to_le v"
| "value_encode (VF64 v) = TAG_F64 # u64_to_le v"
| "value_encode (VStr s) = TAG_STR # u32_to_le (word_of_nat (length s)) @ s"
| "value_encode (VBytes b) = TAG_BYTES # u32_to_le (word_of_nat (length b)) @ b"

definition read_arr :: "nat \<Rightarrow> bytes \<Rightarrow> nat \<Rightarrow> value_error + bytes" where
  "read_arr n buf off = (case get_range buf off n of None \<Rightarrow> Inl VTruncated | Some bs \<Rightarrow> Inr bs)"

fun bind_v :: "'e + 'a \<Rightarrow> ('a \<Rightarrow> 'e + 'b) \<Rightarrow> 'e + 'b" where
  "bind_v (Inl e) f = Inl e"
| "bind_v (Inr x) f = f x"

definition value_decode :: "bytes \<Rightarrow> nat \<Rightarrow> value_error + (db_value \<times> nat)" where
  "value_decode buf off =
     (if length buf \<le> off then Inl VTruncated
      else let tag = buf ! off; p = off + 1
           in if tag = TAG_NULL then Inr (VNull, p)
              else if tag = TAG_BOOL
              then if length buf \<le> p then Inl VTruncated
                   else if buf ! p = 0 then Inr (VBool False, p + 1)
                   else if buf ! p = 1 then Inr (VBool True, p + 1)
                   else Inl (BadBool (buf ! p))
              else if tag = TAG_I64 then bind_v (read_arr 8 buf p) (\<lambda>bs. Inr (VI64 (u64_from_le bs), p + 8))
              else if tag = TAG_F64 then bind_v (read_arr 8 buf p) (\<lambda>bs. Inr (VF64 (u64_from_le bs), p + 8))
              else if tag = TAG_STR
              then bind_v (read_arr 4 buf p) (\<lambda>lb. let len = unat (u32_from_le lb) in
                     case get_range buf (p + 4) len of
                       None \<Rightarrow> Inl VTruncated
                     | Some bs \<Rightarrow> if utf8_valid bs then Inr (VStr bs, p + 4 + len) else Inl VBadUtf8)
              else if tag = TAG_BYTES
              then bind_v (read_arr 4 buf p) (\<lambda>lb. let len = unat (u32_from_le lb) in
                     case get_range buf (p + 4) len of
                       None \<Rightarrow> Inl VTruncated
                     | Some bs \<Rightarrow> Inr (VBytes bs, p + 4 + len))
              else Inl (BadTag tag))"

section \<open>Records\<close>

type_synonym props = "(bytes \<times> db_value) list"

record db_record =
  rec_store :: bytes
  rec_pk :: bytes
  rec_props :: props

datatype record_error = RTruncated | RBadUtf8 | RValue value_error | SlotOverflow string

definition SLOTTED_MAGIC :: u32 where "SLOTTED_MAGIC = 0xFFFFFFFF"
definition SLOTTED_VERSION :: u8 where "SLOTTED_VERSION = 1"

definition record_new :: "bytes \<Rightarrow> bytes \<Rightarrow> db_record" where
  "record_new store pk = \<lparr>rec_store = store, rec_pk = pk, rec_props = []\<rparr>"

definition record_with :: "bytes \<Rightarrow> db_value \<Rightarrow> db_record \<Rightarrow> db_record" where
  "record_with name v r = r\<lparr>rec_props := bt_insert name v (rec_props r)\<rparr>"

definition prop_bytes :: "bytes \<times> db_value \<Rightarrow> bytes" where
  "prop_bytes e = u32_to_le (word_of_nat (length (fst e))) @ fst e @ value_encode (snd e)"

definition encode_content :: "db_record \<Rightarrow> bytes" where
  "encode_content r = u32_to_le (word_of_nat (length (rec_props r))) @ concat (map prop_bytes (rec_props r))"

definition nosql_read_u32 :: "bytes \<Rightarrow> nat \<Rightarrow> record_error + (u32 \<times> nat)" where
  "nosql_read_u32 buf p = (case get_range buf p 4 of None \<Rightarrow> Inl RTruncated | Some bs \<Rightarrow> Inr (u32_from_le bs, p + 4))"

definition read_name :: "bytes \<Rightarrow> nat \<Rightarrow> record_error + (bytes \<times> nat)" where
  "read_name buf p =
     bind_v (nosql_read_u32 buf p) (\<lambda>(name_len, p).
       case get_range buf p (unat name_len) of
         None \<Rightarrow> Inl RTruncated
       | Some bs \<Rightarrow> if utf8_valid bs then Inr (bs, p + unat name_len) else Inl RBadUtf8)"

definition from_value_error :: "value_error + 'a \<Rightarrow> record_error + 'a" where
  "from_value_error r = (case r of Inl e \<Rightarrow> Inl (RValue e) | Inr x \<Rightarrow> Inr x)"

fun props_loop :: "nat \<Rightarrow> bytes \<Rightarrow> nat \<Rightarrow> props \<Rightarrow> record_error + props" where
  "props_loop 0 buf p props = Inr props"
| "props_loop (Suc n) buf p props =
     bind_v (read_name buf p) (\<lambda>(name, p).
     bind_v (from_value_error (value_decode buf p)) (\<lambda>(v, p).
     props_loop n buf p (bt_insert name v props)))"

text \<open>The directory of the slotted layout, and its parser.\<close>

definition dir_entry :: "nat \<times> bytes \<Rightarrow> bytes" where
  "dir_entry e = u32_to_le (word_of_nat (length (snd e))) @ snd e @ u32_to_le (word_of_nat (fst e + 1))"

definition slotted_dir :: "u32 \<Rightarrow> props \<Rightarrow> bytes" where
  "slotted_dir slot_size props =
     u32_to_le SLOTTED_MAGIC @ [SLOTTED_VERSION] @ u32_to_le slot_size @ u32_to_le (word_of_nat (length props))
     @ concat (map dir_entry (enumerate 0 (map fst props)))"

fun slots_loop :: "nat \<Rightarrow> bytes \<Rightarrow> nat \<Rightarrow> (bytes \<times> u32) list \<Rightarrow> record_error + (bytes \<times> u32) list" where
  "slots_loop 0 buf p slots = Inr slots"
| "slots_loop (Suc n) buf p slots =
     bind_v (read_name buf p) (\<lambda>(name, p).
     bind_v (nosql_read_u32 buf p) (\<lambda>(slot_index, p).
     slots_loop n buf p (bt_insert name slot_index slots)))"

definition parse_slotted_dir :: "bytes \<Rightarrow> record_error + (u32 \<times> (bytes \<times> u32) list)" where
  "parse_slotted_dir buf =
     bind_v (nosql_read_u32 buf 0) (\<lambda>(magic, p).
       if magic \<noteq> SLOTTED_MAGIC then Inl (SlotOverflow ''not a slotted record'')
       else if length buf \<le> p then Inl RTruncated
       else if buf ! p \<noteq> SLOTTED_VERSION then Inl (SlotOverflow ''unsupported slotted version'')
       else bind_v (nosql_read_u32 buf (p + 1)) (\<lambda>(slot_size, p).
            bind_v (nosql_read_u32 buf p) (\<lambda>(count, p).
            bind_v (slots_loop (unat count) buf p []) (\<lambda>slots. Inr (slot_size, slots)))))"

fun slots_fill :: "nat \<Rightarrow> nat \<Rightarrow> db_value list \<Rightarrow> bytes \<Rightarrow> record_error + bytes" where
  "slots_fill ss i [] out = Inr out"
| "slots_fill ss i (v # vs) out =
     (let vb = value_encode v
      in if ss < length vb then Inl (SlotOverflow ''value of property'')
         else slots_fill ss (i + 1) vs (splice ((i + 1) * ss) vb out))"

definition encode_slotted :: "u32 \<Rightarrow> db_record \<Rightarrow> record_error + bytes" where
  "encode_slotted slot_size r =
     (let ss = unat slot_size; dir = slotted_dir slot_size (rec_props r)
      in if ss < length dir then Inl (SlotOverflow ''directory'')
         else let out = replicate ((length (rec_props r) + 1) * ss) 0
              in slots_fill ss 0 (map snd (rec_props r)) (splice 0 dir out))"

text \<open>The offset of a slot is a product of two 32-bit numbers and cannot overflow \<^verbatim>\<open>usize\<close>.\<close>

fun slotted_loop :: "nat \<Rightarrow> bytes \<Rightarrow> (bytes \<times> u32) list \<Rightarrow> props \<Rightarrow> record_error + props" where
  "slotted_loop ss buf [] props = Inr props"
| "slotted_loop ss buf ((name, slot_index) # slots) props =
     (let off = unat slot_index * ss
      in if length buf \<le> off then Inl RTruncated
         else bind_v (from_value_error (value_decode buf off)) (\<lambda>(v, _).
              slotted_loop ss buf slots (bt_insert name v props)))"

definition decode_slotted :: "bytes \<Rightarrow> bytes \<Rightarrow> bytes \<Rightarrow> record_error + db_record" where
  "decode_slotted store pk buf =
     bind_v (parse_slotted_dir buf) (\<lambda>(slot_size, slots).
     bind_v (slotted_loop (unat slot_size) buf slots []) (\<lambda>props.
     Inr \<lparr>rec_store = store, rec_pk = pk, rec_props = props\<rparr>))"

definition decode_content :: "bytes \<Rightarrow> bytes \<Rightarrow> bytes \<Rightarrow> record_error + db_record" where
  "decode_content store pk buf =
     (if 4 \<le> length buf \<and> u32_from_le [buf ! 0, buf ! 1, buf ! 2, buf ! 3] = SLOTTED_MAGIC then decode_slotted store pk buf
      else bind_v (nosql_read_u32 buf 0) (\<lambda>(count, p).
           bind_v (props_loop (unat count) buf p []) (\<lambda>props.
           Inr \<lparr>rec_store = store, rec_pk = pk, rec_props = props\<rparr>)))"

section \<open>Reading values back\<close>

fun value_ok :: "db_value \<Rightarrow> bool" where
  "value_ok (VStr s) = (length s < 2 ^ 32 \<and> utf8_valid s)"
| "value_ok (VBytes b) = (length b < 2 ^ 32)"
| "value_ok _ = True"

lemma u32_len: "length (xs :: 'a list) < 2 ^ 32 \<Longrightarrow> unat (word_of_nat (length xs) :: u32) = length xs"
  by (rule unat_of_nat_less) simp

lemma read_arr_at: "lies_at buf off bs \<Longrightarrow> n = length bs \<Longrightarrow> read_arr n buf off = Inr bs"
  by (simp add: read_arr_def lies_at_get_range)

lemma value_decode_at:
  assumes "value_ok v" "lies_at buf off (value_encode v)"
  shows "value_decode buf off = Inr (v, off + length (value_encode v))"
proof (cases v)
  case (VStr s)
  have l: "lies_at buf (off + 1) (u32_to_le (word_of_nat (length s)))" "lies_at buf (off + 1 + 4) s"
    using assms VStr by simp_all
  then show ?thesis
    using assms VStr lies_at_get_range[OF l(2) refl] read_arr_at[OF l(1), of 4]
    by (simp add: value_decode_def tag_defs Let_def u32_len)
next
  case (VBytes s)
  have l: "lies_at buf (off + 1) (u32_to_le (word_of_nat (length s)))" "lies_at buf (off + 1 + 4) s"
    using assms VBytes by simp_all
  then show ?thesis
    using assms VBytes lies_at_get_range[OF l(2) refl] read_arr_at[OF l(1), of 4]
    by (simp add: value_decode_def tag_defs Let_def u32_len)
next
  case (VI64 x)
  then show ?thesis
    using assms read_arr_at[of buf "off + 1" "u64_to_le x" 8] by (simp add: value_decode_def tag_defs Let_def)
next
  case (VF64 x)
  then show ?thesis
    using assms read_arr_at[of buf "off + 1" "u64_to_le x" 8] by (simp add: value_decode_def tag_defs Let_def)
qed (use assms in \<open>simp_all add: value_decode_def tag_defs Let_def of_bool_def split: if_splits\<close>)

lemma read_arr_InrD: "read_arr n buf off = Inr bs \<Longrightarrow> lies_at buf off bs \<and> length bs = n"
  by (auto simp: read_arr_def dest: get_range_lies_at split: option.splits)

lemma bind_v_Inr: "bind_v m f = Inr y \<longleftrightarrow> (\<exists>x. m = Inr x \<and> f x = Inr y)"
  by (cases m) auto

lemma len_field:
  assumes "lies_at buf p lb" "length lb = 4" "get_range buf (p + 4) (unat (u32_from_le lb)) = Some bs"
  shows "lies_at buf p (u32_to_le (word_of_nat (length bs)) @ bs) \<and> length bs < 2 ^ 32 \<and> unat (u32_from_le lb) = length bs"
proof -
  have b: "lies_at buf (p + 4) bs" "length bs = unat (u32_from_le lb)" using get_range_lies_at[OF assms(3)] by auto
  then have "u32_to_le (word_of_nat (length bs)) = lb" using u32_from_le_inverse[OF assms(2)] by simp
  moreover have "length bs < 2 ^ 32" using unat_lt2p[of "u32_from_le lb"] b(2) by simp
  ultimately show ?thesis using assms(1,2) b by simp
qed

lemma value_decode_only:
  assumes "value_decode buf off = Inr (v, p)"
  shows "value_ok v \<and> lies_at buf off (value_encode v) \<and> p = off + length (value_encode v)"
proof -
  have o: "off < length buf" using assms by (auto simp: value_decode_def split: if_splits)
  let ?t = "buf ! off"
  consider "?t = TAG_NULL" | "?t = TAG_BOOL" | "?t = TAG_I64" | "?t = TAG_F64" | "?t = TAG_STR" | "?t = TAG_BYTES"
    using assms by (auto simp: value_decode_def Let_def split: if_splits)
  then show ?thesis
  proof cases
    case 5
    then obtain lb bs where l: "read_arr 4 buf (off + 1) = Inr lb" "get_range buf (off + 1 + 4) (unat (u32_from_le lb)) = Some bs"
      "utf8_valid bs" "v = VStr bs" "p = off + 1 + 4 + unat (u32_from_le lb)"
      using assms o by (auto simp: value_decode_def Let_def tag_defs bind_v_Inr split: option.splits if_splits)
    then show ?thesis using 5 o len_field[of buf "off + 1" lb bs] read_arr_InrD[OF l(1)] by simp
  next
    case 6
    then obtain lb bs where l: "read_arr 4 buf (off + 1) = Inr lb" "get_range buf (off + 1 + 4) (unat (u32_from_le lb)) = Some bs"
      "v = VBytes bs" "p = off + 1 + 4 + unat (u32_from_le lb)"
      using assms o by (auto simp: value_decode_def Let_def tag_defs bind_v_Inr split: option.splits if_splits)
    then show ?thesis using 6 o len_field[of buf "off + 1" lb bs] read_arr_InrD[OF l(1)] by simp
  next
    case 3
    then obtain bs where l: "read_arr 8 buf (off + 1) = Inr bs" "v = VI64 (u64_from_le bs)" "p = off + 1 + 8"
      using assms o by (auto simp: value_decode_def Let_def tag_defs bind_v_Inr split: if_splits)
    then show ?thesis using 3 o read_arr_InrD[OF l(1)] by (simp add: u64_from_le_inverse)
  next
    case 4
    then obtain bs where l: "read_arr 8 buf (off + 1) = Inr bs" "v = VF64 (u64_from_le bs)" "p = off + 1 + 8"
      using assms o by (auto simp: value_decode_def Let_def tag_defs bind_v_Inr split: if_splits)
    then show ?thesis using 4 o read_arr_InrD[OF l(1)] by (simp add: u64_from_le_inverse)
  qed (use assms o in \<open>auto simp: value_decode_def Let_def tag_defs split: if_splits\<close>)
qed

section \<open>Reading records back\<close>

definition record_ok :: "db_record \<Rightarrow> bool" where
  "record_ok r \<longleftrightarrow> bt_sorted (rec_props r) \<and> length (rec_props r) < 2 ^ 32 - 1
     \<and> list_all (\<lambda>(name, v). length name < 2 ^ 32 \<and> utf8_valid name \<and> value_ok v) (rec_props r)"

lemma nosql_u32_at: "lies_at buf p (u32_to_le w) \<Longrightarrow> nosql_read_u32 buf p = Inr (w, p + 4)"
  by (simp add: nosql_read_u32_def lies_at_get_range)

lemma read_name_at:
  assumes "lies_at buf p (u32_to_le (word_of_nat (length name)) @ name)" "length name < 2 ^ 32" "utf8_valid name"
  shows "read_name buf p = Inr (name, p + 4 + length name)"
proof -
  have l: "lies_at buf p (u32_to_le (word_of_nat (length name)))" "lies_at buf (p + 4) name" using assms by simp_all
  show ?thesis using assms lies_at_get_range[OF l(2) refl] by (simp add: read_name_def nosql_u32_at[OF l(1)] u32_len)
qed

text \<open>Entries that arrive in the order of their keys are appended.\<close>

lemma bt_insert_snoc: "\<forall>e \<in> set es. fst e < k \<Longrightarrow> bt_insert k v es = es @ [(k, v)]"
  by (induction es) (auto simp: not_less_iff_gr_or_eq)

lemma bt_sorted_append:
  "bt_sorted (xs @ ys) \<longleftrightarrow> bt_sorted xs \<and> bt_sorted ys \<and> (\<forall>x \<in> set xs. \<forall>y \<in> set ys. fst x < fst y)"
  by (induction xs) (auto simp: bt_sorted_Cons)

lemma props_loop_at:
  assumes "lies_at buf p (concat (map prop_bytes es))" "bt_sorted (acc @ es)"
    and "list_all (\<lambda>(name, v). length name < 2 ^ 32 \<and> utf8_valid name \<and> value_ok v) es"
  shows "props_loop (length es) buf p acc = Inr (acc @ es)"
  using assms
proof (induction es arbitrary: p acc)
  case (Cons e es)
  obtain name v where e: "e = (name, v)" by (cases e)
  let ?q = "p + 4 + length name"
  have n: "read_name buf p = Inr (name, ?q)" using Cons.prems e by (intro read_name_at) (simp_all add: prop_bytes_def)
  have v: "value_decode buf ?q = Inr (v, ?q + length (value_encode v))"
    using Cons.prems e by (intro value_decode_at) (simp_all add: prop_bytes_def add.assoc)
  have i: "bt_insert name v acc = acc @ [e]"
    using Cons.prems(2) e by (simp add: bt_insert_snoc bt_sorted_append bt_sorted_Cons)
  have "props_loop (length es) buf (?q + length (value_encode v)) (acc @ [e]) = Inr ((acc @ [e]) @ es)"
    using Cons.prems e by (intro Cons.IH) (simp_all add: prop_bytes_def add.assoc)
  then show ?case by (simp add: n v i from_value_error_def)
qed simp

text \<open>A packed record is read back from its encoding, whatever bytes of an earlier record follow.\<close>

theorem packed_record_roundtrip:
  assumes "record_ok r"
  shows "decode_content (rec_store r) (rec_pk r) (encode_content r @ stale) = Inr r"
proof -
  let ?n = "length (rec_props r)" and ?buf = "encode_content r @ stale"
  have n: "?n < 2 ^ 32 - 1" using assms by (simp add: record_ok_def)
  then have un: "unat (word_of_nat ?n :: u32) = ?n" by (intro unat_of_nat_less) simp
  have l: "lies_at ?buf 0 (encode_content r)" by (rule lies_at_extend) (simp add: lies_at_def slice_def)
  then have l4: "lies_at ?buf 0 (u32_to_le (word_of_nat ?n))" and lp: "lies_at ?buf 4 (concat (map prop_bytes (rec_props r)))"
    by (simp_all add: encode_content_def)
  obtain a b c d where abcd: "u32_to_le (word_of_nat ?n) = [a, b, c, d]" using length_4[OF u32_le_length] by blast
  then have f: "4 \<le> length ?buf" "[?buf ! 0, ?buf ! 1, ?buf ! 2, ?buf ! 3] = u32_to_le (word_of_nat ?n)"
    using l4 by (simp_all add: numeral_eq_Suc)
  have "(word_of_nat ?n :: u32) \<noteq> SLOTTED_MAGIC"
  proof
    assume "(word_of_nat ?n :: u32) = SLOTTED_MAGIC"
    then have "?n = unat SLOTTED_MAGIC" using un by simp
    then show False using n by (simp add: SLOTTED_MAGIC_def)
  qed
  moreover have "u32_from_le [?buf ! 0, ?buf ! 1, ?buf ! 2, ?buf ! 3] = word_of_nat ?n" using f(2) by simp
  moreover have "props_loop ?n ?buf 4 [] = Inr (rec_props r)"
    using props_loop_at[OF lp, of "[]"] assms by (simp add: record_ok_def)
  ultimately show ?thesis by (simp add: decode_content_def nosql_u32_at[OF l4] un)
qed

theorem packed_record_roundtrip_witness:
  "decode_content [117] [1] (encode_content (record_with [97] (VI64 7) (record_new [117] [1])) @ [9, 9])
     = Inr (record_with [97] (VI64 7) (record_new [117] [1]))"
proof -
  have ok: "record_ok (record_with [97] (VI64 7) (record_new [117] [1]))"
    by (simp add: record_ok_def record_with_def record_new_def bt_sorted_Cons)
  show ?thesis using packed_record_roundtrip[OF ok, of "[9, 9]"] by (simp add: record_with_def record_new_def)
qed

section \<open>Slots\<close>

definition slotted_at :: "u32 \<Rightarrow> props \<Rightarrow> bytes \<Rightarrow> bool" where
  "slotted_at slot_size props buf \<longleftrightarrow>
     lies_at buf 0 (slotted_dir slot_size props)
     \<and> (\<forall>i < length props. lies_at buf ((i + 1) * unat slot_size) (value_encode (snd (props ! i))))"

lemma dir_entry_pair: "dir_entry (k, name) = u32_to_le (word_of_nat (length name)) @ name @ u32_to_le (word_of_nat (k + 1))"
  by (simp add: dir_entry_def)

lemma slots_loop_at:
  assumes "lies_at buf p (concat (map dir_entry (enumerate k (map fst es))))" "bt_sorted (acc @ zip (map fst es) (map (\<lambda>i. word_of_nat (i + 1)) [k..<k + length es]))"
    and "list_all (\<lambda>(name, v). length name < 2 ^ 32 \<and> utf8_valid name) es"
  shows "slots_loop (length es) buf p acc = Inr (acc @ zip (map fst es) (map (\<lambda>i. word_of_nat (i + 1)) [k..<k + length es]))"
  using assms
proof (induction es arbitrary: p k acc)
  case (Cons e es)
  obtain name v where e: "e = (name, v)" by (cases e)
  let ?q = "p + 4 + length name" and ?i = "word_of_nat (k + 1) :: u32"
  have up: "[k..<k + length (e # es)] = k # [k + 1..<k + 1 + length es]" by (simp add: upt_conv_Cons del: upt_Suc)
  have l: "lies_at buf p (u32_to_le (word_of_nat (length name)) @ name)" "lies_at buf ?q (u32_to_le ?i)"
    "lies_at buf (?q + 4) (concat (map dir_entry (enumerate (k + 1) (map fst es))))"
    using Cons.prems(1) e by (simp_all add: dir_entry_pair add.assoc)
  have n: "read_name buf p = Inr (name, ?q)" using Cons.prems(3) e l(1) by (intro read_name_at) simp_all
  have s: "bt_sorted ((acc @ [(name, ?i)]) @ zip (map fst es) (map (\<lambda>i. word_of_nat (i + 1)) [k + 1..<k + 1 + length es]))"
    using Cons.prems(2) unfolding up by (simp add: e del: upt_Suc)
  then have i: "bt_insert name ?i acc = acc @ [(name, ?i)]" by (simp add: bt_insert_snoc bt_sorted_append bt_sorted_Cons)
  have "slots_loop (length es) buf (?q + 4) (acc @ [(name, ?i)])
      = Inr ((acc @ [(name, ?i)]) @ zip (map fst es) (map (\<lambda>i. word_of_nat (i + 1)) [k + 1..<k + 1 + length es]))"
    using Cons.prems(3) by (intro Cons.IH[OF l(3) s]) simp
  then show ?case unfolding up using n nosql_u32_at[OF l(2)] i by (simp add: e del: upt_Suc)
qed simp

lemma slotted_loop_at:
  assumes "\<And>j. j < length es \<Longrightarrow> value_ok (snd (es ! j)) \<and> lies_at buf ((k + j + 1) * ss) (value_encode (snd (es ! j)))"
    and "bt_sorted (acc @ es)" "k + length es < 2 ^ 32"
  shows "slotted_loop ss buf (zip (map fst es) (map (\<lambda>i. word_of_nat (i + 1)) [k..<k + length es])) acc = Inr (acc @ es)"
  using assms
proof (induction es arbitrary: k acc)
  case (Cons e es)
  obtain name v where e: "e = (name, v)" by (cases e)
  have up: "[k..<k + length (e # es)] = k # [k + 1..<k + 1 + length es]" by (simp add: upt_conv_Cons del: upt_Suc)
  have u: "unat (word_of_nat (k + 1) :: u32) = k + 1" using Cons.prems(3) by (intro unat_of_nat_less) simp
  have v: "value_ok v" "lies_at buf ((k + 1) * ss) (value_encode v)" using Cons.prems(1)[of 0] e by simp_all
  then have off: "(k + 1) * ss < length buf" by (cases v) simp_all
  have d: "value_decode buf ((k + 1) * ss) = Inr (v, (k + 1) * ss + length (value_encode v))" by (rule value_decode_at[OF v])
  have s: "bt_sorted ((acc @ [e]) @ es)" using Cons.prems(2) by simp
  then have i: "bt_insert name v acc = acc @ [e]" by (simp add: bt_insert_snoc bt_sorted_append bt_sorted_Cons e)
  have "value_ok (snd (es ! j)) \<and> lies_at buf ((k + 1 + j + 1) * ss) (value_encode (snd (es ! j)))" if "j < length es" for j
    using Cons.prems(1)[of "Suc j"] that by (simp add: add.assoc add.commute)
  from Cons.IH[OF this s] Cons.prems(3) have
    "slotted_loop ss buf (zip (map fst es) (map (\<lambda>i. word_of_nat (i + 1)) [k + 1..<k + 1 + length es])) (acc @ [e]) = Inr ((acc @ [e]) @ es)"
    by simp
  then show ?case unfolding up using off d u i by (simp add: e Let_def from_value_error_def del: upt_Suc)
qed simp

lemma bt_sorted_keys: "map fst xs = map fst ys \<Longrightarrow> bt_sorted xs \<longleftrightarrow> bt_sorted ys"
  by (simp add: bt_sorted_def)

lemma decode_slotted_at:
  assumes ok: "record_ok r" and at: "slotted_at slot_size (rec_props r) buf"
  shows "decode_content (rec_store r) (rec_pk r) buf = Inr r"
proof -
  let ?es = "rec_props r" and ?n = "length (rec_props r)" and ?ss = "unat slot_size"
  let ?slots = "zip (map fst ?es) (map (\<lambda>i. word_of_nat (i + 1) :: u32) [0..<0 + ?n])"
  have n: "?n < 2 ^ 32" and sorted: "bt_sorted ?es" using ok by (simp_all add: record_ok_def)
  have un: "unat (word_of_nat ?n :: u32) = ?n" by (rule u32_len[OF n])
  have dir: "lies_at buf 0 (slotted_dir slot_size ?es)" using at by (simp add: slotted_at_def)
  then have l: "lies_at buf 0 (u32_to_le SLOTTED_MAGIC)" "4 < length buf" "buf ! 4 = SLOTTED_VERSION"
    "lies_at buf 5 (u32_to_le slot_size)" "lies_at buf 9 (u32_to_le (word_of_nat ?n))"
    "lies_at buf 13 (concat (map dir_entry (enumerate 0 (map fst ?es))))"
    by (simp_all add: slotted_dir_def)
  obtain a b c d where abcd: "u32_to_le SLOTTED_MAGIC = [a, b, c, d]" using length_4[OF u32_le_length] by blast
  then have "4 \<le> length buf" "[buf ! 0, buf ! 1, buf ! 2, buf ! 3] = u32_to_le SLOTTED_MAGIC"
    using l(1) by (simp_all add: numeral_eq_Suc)
  then have magic: "4 \<le> length buf" "u32_from_le [buf ! 0, buf ! 1, buf ! 2, buf ! 3] = SLOTTED_MAGIC" by simp_all
  have "map fst ?slots = map fst ?es" by simp
  then have "bt_sorted ([] @ ?slots)" using bt_sorted_keys[of ?slots ?es] sorted by (simp only: append_Nil)
  moreover have "list_all (\<lambda>(name, v). length name < 2 ^ 32 \<and> utf8_valid name) ?es"
    using ok by (auto simp: record_ok_def list_all_iff)
  ultimately have "slots_loop ?n buf 13 [] = Inr ([] @ ?slots)" by (rule slots_loop_at[OF l(6)])
  then have p: "parse_slotted_dir buf = Inr (slot_size, ?slots)"
    using l(2,3) nosql_u32_at[OF l(1)] nosql_u32_at[OF l(4)] nosql_u32_at[OF l(5)] by (simp add: parse_slotted_dir_def un)
  have "value_ok (snd (?es ! j)) \<and> lies_at buf ((0 + j + 1) * ?ss) (value_encode (snd (?es ! j)))" if "j < ?n" for j
    using at ok that by (auto simp: slotted_at_def record_ok_def list_all_length case_prod_unfold)
  then have "slotted_loop ?ss buf ?slots [] = Inr ([] @ ?es)" by (rule slotted_loop_at) (use n sorted in simp_all)
  then show ?thesis using magic p by (simp add: decode_content_def decode_slotted_def)
qed

lemma slots_fill_at:
  assumes "slots_fill ss i vs out = Inr out'" "(i + length vs + 1) * ss \<le> length out"
  shows "length out' = length out \<and> (\<forall>j < length vs. lies_at out' ((i + j + 1) * ss) (value_encode (vs ! j)))
     \<and> (\<forall>a bs. lies_at out a bs \<longrightarrow> a + length bs \<le> (i + 1) * ss \<longrightarrow> lies_at out' a bs)"
  using assms
proof (induction ss i vs out rule: slots_fill.induct)
  case (2 ss i v vs out)
  let ?vb = "value_encode v" and ?out = "splice ((i + 1) * ss) (value_encode v) out"
  have vb: "length ?vb \<le> ss" and f: "slots_fill ss (i + 1) vs ?out = Inr out'" using "2.prems"(1) by (auto simp: Let_def split: if_splits)
  have "(i + 1) * ss + ss \<le> (i + length (v # vs) + 1) * ss" by (simp add: algebra_simps)
  then have room: "(i + 1) * ss + length ?vb \<le> length out" using "2.prems"(2) vb by linarith
  then have len: "length ?out = length out" by simp
  have "(i + 1 + length vs + 1) * ss \<le> length ?out" using "2.prems"(2) len by simp
  note IH = "2.IH"[OF refl _ f this]
  have ih: "length out' = length ?out" "\<forall>j < length vs. lies_at out' ((i + 1 + j + 1) * ss) (value_encode (vs ! j))"
    "\<And>a bs. lies_at ?out a bs \<Longrightarrow> a + length bs \<le> (i + 1 + 1) * ss \<Longrightarrow> lies_at out' a bs"
    using IH vb by auto
  have "lies_at out' ((i + j + 1) * ss) (value_encode ((v # vs) ! j))" if j: "j < length (v # vs)" for j
  proof (cases j)
    case 0
    have "lies_at ?out ((i + 1) * ss) ?vb" by (rule lies_at_splice_same[OF room])
    moreover have "(i + 1) * ss + length ?vb \<le> (i + 1 + 1) * ss" using vb by (simp add: algebra_simps)
    ultimately show ?thesis using ih(3) 0 by simp
  next
    case (Suc k)
    then have "i + j + 1 = i + 1 + k + 1" by simp
    then show ?thesis using ih(2) j Suc by simp
  qed
  moreover have "lies_at out' a bs" if a: "lies_at out a bs" "a + length bs \<le> (i + 1) * ss" for a bs
  proof -
    have "lies_at ?out a bs" using lies_at_splice_other[OF a(1) room] a(2) by simp
    moreover have "(i + 1) * ss \<le> (i + 1 + 1) * ss" by simp
    ultimately show ?thesis using ih(3) a(2) by (meson order.trans)
  qed
  ultimately show ?case using ih(1) len by (intro conjI allI impI) simp_all
qed simp

lemma encode_slotted_at:
  assumes "encode_slotted slot_size r = Inr out"
  shows "slotted_at slot_size (rec_props r) out \<and> length out = (length (rec_props r) + 1) * unat slot_size
     \<and> length (slotted_dir slot_size (rec_props r)) \<le> unat slot_size
     \<and> (\<forall>i < length (rec_props r). length (value_encode (snd (rec_props r ! i))) \<le> unat slot_size)"
proof -
  let ?n = "length (rec_props r)" and ?ss = "unat slot_size" and ?dir = "slotted_dir slot_size (rec_props r)"
  let ?out = "splice 0 ?dir (replicate ((?n + 1) * ?ss) 0)"
  have d: "length ?dir \<le> ?ss" and f: "slots_fill ?ss 0 (map snd (rec_props r)) ?out = Inr out"
    using assms by (auto simp: encode_slotted_def Let_def split: if_splits)
  have "?ss \<le> (?n + 1) * ?ss" by simp
  then have room: "0 + length ?dir \<le> length (replicate ((?n + 1) * ?ss) (0 :: u8))" using d by (simp add: order.trans)
  have len: "length ?out = (?n + 1) * ?ss" using room by simp
  have "lies_at ?out 0 ?dir" by (rule lies_at_splice_same[OF room])
  then have "lies_at out 0 ?dir" "length out = (?n + 1) * ?ss"
    "\<forall>j < ?n. lies_at out ((j + 1) * ?ss) (value_encode (snd (rec_props r ! j)))"
    using slots_fill_at[OF f] len d by auto
  moreover have "list_all (\<lambda>v. length (value_encode v) \<le> ss) vs" if "slots_fill ss i vs x = Inr y" for ss i vs x y
    using that by (induction ss i vs x rule: slots_fill.induct) (auto simp: Let_def split: if_splits)
  from this[OF f] have "\<forall>i < ?n. length (value_encode (snd (rec_props r ! i))) \<le> ?ss" by (simp add: list_all_length)
  ultimately show ?thesis using d by (simp add: slotted_at_def)
qed

lemma bt_insert_at:
  assumes "bt_sorted es" "i < length es"
  shows "bt_insert (fst (es ! i)) v es = es[i := (fst (es ! i), v)]"
  using assms
proof (induction es arbitrary: i)
  case (Cons e es)
  show ?case
  proof (cases i)
    case 0
    then show ?thesis by (cases e) simp
  next
    case (Suc j)
    then have "fst e < fst (es ! j)" "\<not> fst (es ! j) < fst e" using Cons.prems by (simp_all add: bt_sorted_Cons) (metis nth_mem order_less_asym)
    then show ?thesis using Cons.IH[of j] Cons.prems Suc by (cases e) (auto simp: bt_sorted_Cons)
  qed
qed simp

lemma slotted_at_extend: "slotted_at ss props buf \<Longrightarrow> slotted_at ss props (buf @ rest)"
  by (simp add: slotted_at_def lies_at_extend)

lemma slotted_at_patch:
  assumes at: "slotted_at slot_size props buf" and i: "i < length props" and len: "length buf = (length props + 1) * unat slot_size"
    and dir: "length (slotted_dir slot_size props) \<le> unat slot_size"
    and fit: "\<forall>j < length props. length (value_encode (snd (props ! j))) \<le> unat slot_size" and v: "length (value_encode v) \<le> unat slot_size"
  shows "slotted_at slot_size (props[i := (fst (props ! i), v)]) (splice ((i + 1) * unat slot_size) (value_encode v) buf)"
proof -
  let ?ss = "unat slot_size" and ?q = "props[i := (fst (props ! i), v)]" and ?b = "splice ((i + 1) * unat slot_size) (value_encode v) buf"
  have "map fst ?q = map fst props" using i by (simp add: map_update list_update_same_conv)
  then have d: "slotted_dir slot_size ?q = slotted_dir slot_size props" by (simp add: slotted_dir_def)
  have "(i + 1) * ?ss + ?ss \<le> (length props + 1) * ?ss" using i mult_le_mono1[of "i + 2" "length props + 1" ?ss] by (simp add: algebra_simps)
  then have room: "(i + 1) * ?ss + length (value_encode v) \<le> length buf" using len v by linarith
  have "?ss \<le> (i + 1) * ?ss" by simp
  then have "0 + length (slotted_dir slot_size props) \<le> (i + 1) * ?ss" using dir by linarith
  then have "lies_at ?b 0 (slotted_dir slot_size ?q)"
    using at lies_at_splice_other[OF _ room, of 0] unfolding d slotted_at_def by blast
  moreover have "lies_at ?b ((j + 1) * ?ss) (value_encode (snd (?q ! j)))" if j: "j < length ?q" for j
  proof (cases "j = i")
    case True
    then show ?thesis using lies_at_splice_same[OF room] i by simp
  next
    case False
    have l: "lies_at buf ((j + 1) * ?ss) (value_encode (snd (props ! j)))" using at j by (simp add: slotted_at_def)
    have "(j + 1) * ?ss + length (value_encode (snd (props ! j))) \<le> (i + 1) * ?ss \<or> (i + 1) * ?ss + length (value_encode v) \<le> (j + 1) * ?ss"
    proof (cases "j < i")
      case True
      then have "(j + 2) * ?ss \<le> (i + 1) * ?ss" by (intro mult_le_mono1) simp
      moreover have "(j + 2) * ?ss = (j + 1) * ?ss + ?ss" by (simp add: algebra_simps)
      moreover have "length (value_encode (snd (props ! j))) \<le> ?ss" using fit j by simp
      ultimately show ?thesis by linarith
    next
      case False
      then have "(i + 2) * ?ss \<le> (j + 1) * ?ss" using \<open>j \<noteq> i\<close> by (intro mult_le_mono1) simp
      moreover have "(i + 2) * ?ss = (i + 1) * ?ss + ?ss" by (simp add: algebra_simps)
      ultimately show ?thesis using v by linarith
    qed
    then show ?thesis using lies_at_splice_other[OF l room] False by simp
  qed
  ultimately show ?thesis by (simp add: slotted_at_def)
qed

text \<open>C31. The layout with slots: a record is read back from it, and overwriting the slot of one property with the encoding of
  a value, shorter or longer than the old one, changes this property and nothing else, whatever follows the record.\<close>

theorem slotted_patch_exact:
  assumes ok: "record_ok r" and enc: "encode_slotted slot_size r = Inr out" and i: "i < length (rec_props r)"
    and v: "value_ok v" "length (value_encode v) \<le> unat slot_size"
  shows "decode_content (rec_store r) (rec_pk r) (out @ stale) = Inr r
     \<and> decode_content (rec_store r) (rec_pk r) (splice ((i + 1) * unat slot_size) (value_encode v) out @ stale)
       = Inr (record_with (fst (rec_props r ! i)) v r)"
proof
  note E = encode_slotted_at[OF enc]
  show "decode_content (rec_store r) (rec_pk r) (out @ stale) = Inr r"
    using E by (intro decode_slotted_at[OF ok slotted_at_extend]) blast
  let ?r = "record_with (fst (rec_props r ! i)) v r"
  have sorted: "bt_sorted (rec_props r)" using ok by (simp add: record_ok_def)
  have p: "rec_props ?r = (rec_props r)[i := (fst (rec_props r ! i), v)]"
    using bt_insert_at[OF sorted i] by (simp add: record_with_def)
  have "bt_sorted (rec_props ?r)" using sorted by (simp add: record_with_def bt_sorted_insert)
  then have rok: "record_ok ?r" using ok v i unfolding record_ok_def p
    by (auto simp: list_all_length nth_list_update)
  have at: "slotted_at slot_size (rec_props ?r) (splice ((i + 1) * unat slot_size) (value_encode v) out)"
    unfolding p by (rule slotted_at_patch) (use E i v in auto)
  from decode_slotted_at[OF rok slotted_at_extend[OF at]]
  show "decode_content (rec_store r) (rec_pk r) (splice ((i + 1) * unat slot_size) (value_encode v) out @ stale) = Inr ?r"
    by (simp add: record_with_def)
qed

theorem slotted_patch_exact_witness:
  "\<exists>out. encode_slotted 64 (record_with [97] (VI64 7) (record_new [117] [1])) = Inr out
     \<and> decode_content [117] [1] (splice 64 (value_encode (VBool True)) out)
       = Inr (record_with [97] (VBool True) (record_new [117] [1]))"
proof -
  let ?r = "record_with [97] (VI64 7) (record_new [117] [1])"
  have ok: "record_ok ?r" by (simp add: record_ok_def record_with_def record_new_def bt_sorted_Cons)
  obtain out where out: "encode_slotted 64 ?r = Inr out"
    by (simp add: encode_slotted_def record_with_def record_new_def slotted_dir_def dir_entry_def Let_def)
  have "decode_content [117] [1] (splice 64 (value_encode (VBool True)) out @ []) = Inr (record_with [97] (VBool True) ?r)"
    using slotted_patch_exact[OF ok out, of 0 "VBool True" "[]"] by (simp add: record_with_def record_new_def)
  then show ?thesis using out by (auto simp: record_with_def record_new_def)
qed

end
