(* ===== verification/Nosql_Order.thy ===== *)
theory Nosql_Order
  imports Nosql_Record
begin

text \<open>
  Keys of the secondary index, from \<^verbatim>\<open>sfs-nosql/src/index.rs\<close>: the encoding of a value whose byte order is the order of
  the values but for the two floating-point zeros, and its rendering in hexadecimal. Text is its bytes in ASCII.
\<close>

section \<open>The code\<close>

definition u64_to_be :: "u64 \<Rightarrow> bytes" where
  "u64_to_be w = rev (u64_to_le w)"

definition SIGN_BIT :: u64 where
  "SIGN_BIT = 0x8000000000000000"

definition f64_ordered :: "u64 \<Rightarrow> u64" where
  "f64_ordered bits = (if and bits SIGN_BIT \<noteq> 0 then not bits else xor bits SIGN_BIT)"

fun order_key :: "db_value \<Rightarrow> bytes" where
  "order_key VNull = [0]"
| "order_key (VBool b) = [1, of_bool b]"
| "order_key (VI64 x) = 2 # u64_to_be (xor x SIGN_BIT)"
| "order_key (VF64 x) = 3 # u64_to_be (f64_ordered x)"
| "order_key (VStr s) = 4 # s"
| "order_key (VBytes b) = 5 # b"

definition hex_digit :: "nat \<Rightarrow> u8" where
  "hex_digit n = word_of_nat (if n < 10 then 48 + n else 87 + n)"

definition hex :: "bytes \<Rightarrow> bytes" where
  "hex bs = concat (map (\<lambda>b. [hex_digit (unat b div 16), hex_digit (unat b mod 16)]) bs)"

section \<open>Byte order\<close>

lemma le_val_append: "le_val (xs @ ys) = le_val xs + 256 ^ length xs * le_val ys"
  by (induction xs) (simp_all add: algebra_simps)

definition be_val :: "bytes \<Rightarrow> nat" where
  "be_val bs = le_val (rev bs)"

lemma be_val_Cons: "be_val (b # bs) = be_val bs + 256 ^ length bs * unat b"
  by (simp add: be_val_def le_val_append)

lemma be_val_bound: "be_val bs < 256 ^ length bs"
  using le_val_bound[of "rev bs"] by (simp add: be_val_def)

lemma digits_less:
  fixes M :: nat
  assumes "p < M" "q < M"
  shows "p + M * x < q + M * y \<longleftrightarrow> x < y \<or> x = y \<and> p < q"
proof -
  have "p + M * x < q + M * y" if "x < y"
  proof -
    have "M * (x + 1) \<le> M * y" using that by (intro mult_le_mono2) simp
    then show ?thesis using assms by (simp add: algebra_simps)
  qed
  moreover have "\<not> p + M * x < q + M * y" if "y < x"
  proof -
    have "M * (y + 1) \<le> M * x" using that by (intro mult_le_mono2) simp
    then show ?thesis using assms by (simp add: algebra_simps)
  qed
  ultimately show ?thesis by (cases x y rule: linorder_cases) auto
qed

lemma be_order: "length xs = length ys \<Longrightarrow> (xs :: bytes) < ys \<longleftrightarrow> be_val xs < be_val ys"
proof (induction xs ys rule: list_induct2)
  case (Cons x xs y ys)
  have "be_val xs < 256 ^ length xs" "be_val ys < 256 ^ length xs" using be_val_bound[of xs] be_val_bound[of ys] Cons.hyps by simp_all
  then show ?case
    using Cons digits_less[of "be_val xs" "256 ^ length xs" "be_val ys" "unat x" "unat y"]
    by (simp add: be_val_Cons word_less_nat_alt) (metis unsigned_word_eqI)
qed simp

lemma u64_be_order: "u64_to_be a < u64_to_be b \<longleftrightarrow> a < b"
proof -
  have "be_val (u64_to_be w) = unat w" for w
    using unat_lt2p[of w] by (simp add: be_val_def u64_to_be_def u64_to_le_def le_val_le_bytes)
  then show ?thesis using be_order[of "u64_to_be a" "u64_to_be b"] by (simp add: u64_to_be_def word_less_nat_alt)
qed

lemma hex_digit_order: "a < 16 \<Longrightarrow> b < 16 \<Longrightarrow> hex_digit a < hex_digit b \<longleftrightarrow> a < b"
  by (simp add: hex_digit_def word_less_nat_alt unat_of_nat_less)

lemma hex_digit_inj: "a < 16 \<Longrightarrow> b < 16 \<Longrightarrow> hex_digit a = hex_digit b \<longleftrightarrow> a = b"
  using hex_digit_order[of a b] hex_digit_order[of b a] by (metis less_irrefl linorder_neqE_nat)

lemma hex_simps [simp]: "hex [] = []" "hex (b # bs) = hex_digit (unat b div 16) # hex_digit (unat b mod 16) # hex bs"
  by (simp_all add: hex_def)

lemma hex_order: "hex xs < hex ys \<longleftrightarrow> xs < ys"
proof (induction xs arbitrary: ys)
  case Nil
  then show ?case by (cases ys) simp_all
next
  case (Cons x xs)
  show ?case
  proof (cases ys)
    case (Cons y ys')
    have b: "unat x div 16 < 16" "unat y div 16 < 16" "unat x mod 16 < 16" "unat y mod 16 < 16"
      using unat_lt2p[of x] unat_lt2p[of y] by (simp_all add: less_mult_imp_div_less)
    have l: "x < y \<longleftrightarrow> unat x div 16 < unat y div 16 \<or> unat x div 16 = unat y div 16 \<and> unat x mod 16 < unat y mod 16"
      using digits_less[OF b(3,4), of "unat x div 16" "unat y div 16"] by (simp add: word_less_nat_alt)
    have e: "x = y \<longleftrightarrow> unat x div 16 = unat y div 16 \<and> unat x mod 16 = unat y mod 16"
      by (metis mult_div_mod_eq unsigned_word_eqI)
    show ?thesis
      unfolding Cons using \<open>\<And>ys. (hex xs < hex ys) = (xs < ys)\<close>[of ys']
      by (simp add: hex_digit_order[OF b(1,2)] hex_digit_order[OF b(3,4)] hex_digit_inj[OF b(1,2)] hex_digit_inj[OF b(3,4)] l e) blast
  qed simp
qed

lemma hex_order_le: "hex xs \<le> hex ys \<longleftrightarrow> xs \<le> ys"
  using hex_order[of ys xs] by (simp add: not_less[symmetric])

section \<open>The order of the values\<close>

text \<open>The number a 64-bit floating-point pattern denotes, in units of \<open>2 ^ -1074\<close>, the distance of the smallest numbers: an
  exponent field of eleven bits, a fraction of 52 bits, subnormal numbers where the exponent field is 0. Both zeros denote 0. The same
  formula puts the infinities outside of all numbers, where they belong, and a pattern that is not a number, which has no place in the
  order of the numbers, beyond the infinity of its sign.\<close>

definition f64_mag :: "nat \<Rightarrow> nat" where
  "f64_mag n = (let ex = n div 2 ^ 52; frac = n mod 2 ^ 52 in if ex = 0 then frac else (2 ^ 52 + frac) * 2 ^ (ex - 1))"

definition f64_num :: "u64 \<Rightarrow> int" where
  "f64_num bits = (if unat bits < 2 ^ 63 then int (f64_mag (unat bits)) else - int (f64_mag (unat bits - 2 ^ 63)))"

text \<open>The order of the keys: by sign and magnitude of the pattern, with the negative zero below the positive one.\<close>

definition f64_rank :: "u64 \<Rightarrow> int" where
  "f64_rank bits = (if unat bits < 2 ^ 63 then int (unat bits) else 2 ^ 63 - int (unat bits) - 1)"

fun val_less :: "db_value \<Rightarrow> db_value \<Rightarrow> bool" where
  "val_less (VBool a) (VBool b) = (\<not> a \<and> b)"
| "val_less (VI64 a) (VI64 b) = (sint a < sint b)"
| "val_less (VF64 a) (VF64 b) = (f64_num a < f64_num b)"
| "val_less (VStr a) (VStr b) = (a < b)"
| "val_less (VBytes a) (VBytes b) = (a < b)"
| "val_less _ _ = False"

fun val_kind :: "db_value \<Rightarrow> nat" where
  "val_kind VNull = 0"
| "val_kind (VBool b) = 1"
| "val_kind (VI64 x) = 2"
| "val_kind (VF64 x) = 3"
| "val_kind (VStr s) = 4"
| "val_kind (VBytes b) = 5"

lemma top_bit: "bit (x :: u64) 63 \<longleftrightarrow> 2 ^ 63 \<le> unat x"
proof -
  define n where "n = unat x"
  have n: "n < 2 * 2 ^ 63" using unat_lt2p[of x] by (simp add: n_def)
  have "bit x 63 \<longleftrightarrow> bit n 63" unfolding n_def by (simp add: bit_unsigned_iff)
  also have "\<dots> \<longleftrightarrow> odd (n div 2 ^ 63)" by (rule bit_iff_odd)
  also have "\<dots> \<longleftrightarrow> 2 ^ 63 \<le> n"
  proof (cases "n < 2 ^ 63")
    case False
    then have "n div 2 ^ 63 = 1" using n by (intro div_nat_eqI) simp_all
    then show ?thesis using False by (simp only: odd_one linorder_not_less simp_thms)
  next
    case True
    then have "n div 2 ^ 63 = 0" by (rule div_less)
    then show ?thesis using True by (simp add: linorder_not_le)
  qed
  finally show ?thesis by (simp only: n_def)
qed

lemma sign_bit: "bit SIGN_BIT n \<longleftrightarrow> n = 63"
proof -
  have e: "SIGN_BIT = 2 ^ 63" by (simp add: SIGN_BIT_def)
  show ?thesis unfolding e by (subst bit_exp_iff) auto
qed

lemma sign_and: "and bits SIGN_BIT \<noteq> 0 \<longleftrightarrow> 2 ^ 63 \<le> unat bits"
proof -
  have "and bits SIGN_BIT = 0 \<longleftrightarrow> \<not> bit bits 63"
  proof
    assume "and bits SIGN_BIT = 0"
    then have "\<not> bit (and bits SIGN_BIT) 63" by simp
    then show "\<not> bit bits 63" by (simp add: bit_and_iff sign_bit)
  next
    assume "\<not> bit bits 63"
    then show "and bits SIGN_BIT = 0" by (intro bit_eqI) (auto simp: bit_and_iff sign_bit)
  qed
  then show ?thesis using top_bit by simp
qed

lemma unat_flip: "unat (xor x SIGN_BIT) = (if unat x < 2 ^ 63 then unat x + 2 ^ 63 else unat x - 2 ^ 63)"
proof -
  have up: "unat (xor y SIGN_BIT) = unat y + 2 ^ 63" if "unat y < 2 ^ 63" for y
  proof -
    have b: "\<not> bit y 63" using that top_bit[of y] by simp
    then have "xor y SIGN_BIT = or y SIGN_BIT" by (intro bit_eqI) (auto simp: bit_xor_iff bit_or_iff sign_bit)
    also have "\<dots> = y + SIGN_BIT" using b by (intro disjunctive_add[symmetric]) (auto simp: sign_bit)
    finally show ?thesis using that by (simp add: SIGN_BIT_def unat_word_ariths)
  qed
  show ?thesis
  proof (cases "unat x < 2 ^ 63")
    case False
    let ?y = "xor x SIGN_BIT"
    have b: "bit x 63" using False top_bit[of x] by simp
    then have "\<not> bit ?y 63" by (simp add: bit_xor_iff sign_bit)
    then have y: "unat ?y < 2 ^ 63" using top_bit[of ?y] by simp
    have "xor ?y SIGN_BIT = x" by (simp add: xor.assoc)
    then show ?thesis using up[OF y] False by simp
  qed (simp add: up)
qed

lemma unat_not: "unat (not x :: u64) = 2 ^ 64 - 1 - unat x"
proof -
  have "not x = - x - 1" by (rule not_eq_complement)
  also have "\<dots> = 18446744073709551615 - x" by simp
  finally have "not x = 18446744073709551615 - x" .
  moreover have "unat x \<le> unat (18446744073709551615 :: u64)" using unat_lt2p[of x] by simp
  ultimately show ?thesis by (simp add: unat_sub word_le_nat_alt)
qed

lemma f64_key: "f64_ordered a < f64_ordered b \<longleftrightarrow> f64_rank a < f64_rank b"
proof -
  define A B where "A = unat a" and "B = unat b"
  have AB: "A < 2 ^ 64" "B < 2 ^ 64" unfolding A_def B_def using unat_lt2p[of a] unat_lt2p[of b] by simp_all
  have k: "unat (f64_ordered x) = (if unat x < 2 ^ 63 then unat x + 2 ^ 63 else 2 ^ 64 - 1 - unat x)" for x
    using sign_and[of x] by (simp add: f64_ordered_def unat_flip unat_not)
  show ?thesis
    unfolding word_less_nat_alt k f64_rank_def A_def[symmetric] B_def[symmetric] using AB by auto
qed

lemma f64_mag_Suc: "f64_mag n < f64_mag (Suc n)"
proof -
  define ex frac where "ex = n div 2 ^ 52" and "frac = n mod 2 ^ 52"
  have f: "frac < 2 ^ 52" and n: "n = ex * 2 ^ 52 + frac" unfolding ex_def frac_def by simp_all
  have m: "f64_mag n = (if ex = 0 then frac else (2 ^ 52 + frac) * 2 ^ (ex - 1))" by (simp add: f64_mag_def ex_def frac_def Let_def)
  show ?thesis
  proof (cases "Suc frac = 2 ^ 52")
    case True
    then have s: "Suc n = Suc ex * 2 ^ 52" using n by simp
    have "f64_mag (Suc n) = 2 ^ 52 * 2 ^ ex" unfolding f64_mag_def Let_def s by simp
    moreover have "(2 ^ 52 + frac) * 2 ^ (ex - 1) < 2 ^ 52 * 2 ^ ex" if "ex \<noteq> 0"
    proof -
      have "(2 ^ 52 + frac) * 2 ^ (ex - 1) < (2 ^ 52 * 2) * 2 ^ (ex - 1)" using f by (intro mult_strict_right_mono) simp_all
      also have "\<dots> = 2 ^ 52 * 2 ^ ex" using that by (cases ex) simp_all
      finally show ?thesis .
    qed
    ultimately show ?thesis using f m by (cases "ex = 0") simp_all
  next
    case False
    then have "Suc frac < 2 ^ 52" using f by simp
    moreover have "Suc n = Suc frac + ex * 2 ^ 52" using n by simp
    ultimately have "Suc n div 2 ^ 52 = ex" "Suc n mod 2 ^ 52 = Suc frac" by (simp_all del: add_Suc)
    then have "f64_mag (Suc n) = (if ex = 0 then Suc frac else (2 ^ 52 + Suc frac) * 2 ^ (ex - 1))" by (simp add: f64_mag_def Let_def)
    then show ?thesis using m by simp
  qed
qed

lemma f64_mag_less: "f64_mag a < f64_mag b \<longleftrightarrow> a < b"
  using strict_mono_less[of f64_mag a b] f64_mag_Suc by (simp add: strict_mono_Suc_iff)

lemma f64_mag_0: "f64_mag 0 = 0" "f64_mag n = 0 \<longleftrightarrow> n = 0"
proof -
  show z: "f64_mag 0 = 0" by (simp add: f64_mag_def)
  show "f64_mag n = 0 \<longleftrightarrow> n = 0" using f64_mag_less[of 0 n] z by auto
qed

text \<open>The keys are ordered as the numbers are, except that the two zeros have different keys.\<close>

lemma f64_rank_num: "f64_rank a < f64_rank b \<longleftrightarrow> f64_num a < f64_num b \<or> a = SIGN_BIT \<and> b = 0"
proof -
  have z: "x = 0 \<longleftrightarrow> unat x = 0" "x = SIGN_BIT \<longleftrightarrow> unat x = 2 ^ 63" for x :: u64
    using word_unat_eq_iff[of x 0] word_unat_eq_iff[of x SIGN_BIT] by (simp_all add: SIGN_BIT_def)
  define A B where "A = unat a" and "B = unat b"
  have p: "f64_mag (A - 2 ^ 63) = 0 \<longleftrightarrow> A \<le> 2 ^ 63" "f64_mag B = 0 \<longleftrightarrow> B = 0" unfolding f64_mag_0(2) by auto
  consider "A < 2 ^ 63" "B < 2 ^ 63" | "A < 2 ^ 63" "2 ^ 63 \<le> B" | "2 ^ 63 \<le> A" "B < 2 ^ 63" | "2 ^ 63 \<le> A" "2 ^ 63 \<le> B" by linarith
  then show ?thesis
    unfolding f64_rank_def f64_num_def z A_def[symmetric] B_def[symmetric] by cases (use p in \<open>auto simp: f64_mag_less\<close>)
qed

lemma sint_unat: "sint (x :: u64) = (if unat x < 2 ^ 63 then int (unat x) else int (unat x) - 2 ^ 64)"
proof -
  define s where "s = sint x"
  have s: "- (2 ^ 63) \<le> s" "s < 2 ^ 63" using sint_ge[of x] sint_lt[of x] by (simp_all add: s_def)
  have u: "int (unat x) = s mod 2 ^ 64" by (simp add: s_def uint_sint take_bit_eq_mod)
  show ?thesis
  proof (cases "0 \<le> s")
    case True
    then have e: "int (unat x) = s" using u s by simp
    then have "int (unat x) < int (2 ^ 63)" using s by simp
    then have "unat x < 2 ^ 63" by (simp only: of_nat_less_iff)
    then show ?thesis using e by (simp add: s_def)
  next
    case False
    have "s mod 2 ^ 64 = (s + 2 ^ 64) mod 2 ^ 64" by (simp only: mod_add_self2)
    also have "\<dots> = s + 2 ^ 64" using s False by (intro mod_pos_pos_trivial) simp_all
    finally have "s mod 2 ^ 64 = s + 2 ^ 64" .
    then have e: "int (unat x) = s + 2 ^ 64" using u by simp
    then have "\<not> int (unat x) < int (2 ^ 63)" using s by simp
    then have "\<not> unat x < 2 ^ 63" by (simp only: of_nat_less_iff not_False_eq_True)
    then show ?thesis using e by (simp add: s_def)
  qed
qed

lemma i64_key: "xor a SIGN_BIT < xor b SIGN_BIT \<longleftrightarrow> sint a < sint b"
proof -
  define A B where "A = unat a" and "B = unat b"
  have AB: "A < 2 ^ 64" "B < 2 ^ 64" unfolding A_def B_def using unat_lt2p[of a] unat_lt2p[of b] by simp_all
  show ?thesis
    unfolding word_less_nat_alt unat_flip sint_unat A_def[symmetric] B_def[symmetric] using AB by auto
qed

lemma order_key_kind: "hd (order_key v) = word_of_nat (val_kind v)" "order_key v \<noteq> []"
  by (cases v; simp)+

lemma order_key_less:
  "val_kind v = val_kind w \<Longrightarrow> order_key v < order_key w \<longleftrightarrow> val_less v w \<or> v = VF64 SIGN_BIT \<and> w = VF64 0"
  by (cases v; cases w) (auto simp: u64_be_order i64_key f64_key f64_rank_num)

text \<open>The order of the index keys is the order of the values: for two values of the same type, comparing the
  hexadecimal text of their keys is comparing the values, except that the key of the negative zero is below that of the
  positive one; and the keys of values of different types are ordered by the type.\<close>

lemma order_key_order:
  "hex (order_key v) < hex (order_key w) \<longleftrightarrow>
     val_kind v < val_kind w \<or> val_kind v = val_kind w \<and> val_less v w \<or> v = VF64 SIGN_BIT \<and> w = VF64 0"
proof (cases "val_kind v = val_kind w")
  case True
  then show ?thesis by (auto simp: hex_order order_key_less)
next
  case False
  obtain x xs y ys where e: "order_key v = x # xs" "order_key w = y # ys" using order_key_kind(2)[of v] order_key_kind(2)[of w]
    by (metis list.exhaust)
  have h: "x = word_of_nat (val_kind v)" "y = word_of_nat (val_kind w)" using order_key_kind(1)[of v] order_key_kind(1)[of w] e by simp_all
  have k: "val_kind v < 256" "val_kind w < 256" by (cases v; simp) (cases w; simp)
  then have "unat x = val_kind v" "unat y = val_kind w" unfolding h by (simp_all add: unat_of_nat_less)
  then have "x < y \<longleftrightarrow> val_kind v < val_kind w" "x \<noteq> y" using False by (auto simp: word_less_nat_alt)
  moreover have "\<not> (v = VF64 SIGN_BIT \<and> w = VF64 0)" using False by auto
  ultimately show ?thesis using False unfolding hex_order e by auto
qed

end
