(* ===== verification/Nosql_Index.thy ===== *)
theory Nosql_Index
  imports Nosql_Order Catalog
begin

text \<open>
  The secondary index, from \<^verbatim>\<open>sfs-nosql/src/index.rs\<close>: the paths of index units and the sets of primary keys they hold; and
  the selection of a range by \<^verbatim>\<open>sfs-nosql/src/query.rs\<close>.
\<close>

section \<open>The code\<close>

definition IDX_PREFIX :: bytes where
  "IDX_PREFIX = [46, 100, 98, 47, 95, 105, 100, 120]"

definition index_prop_prefix :: "(bytes \<Rightarrow> bytes) \<Rightarrow> bytes \<Rightarrow> bytes \<Rightarrow> bytes" where
  "index_prop_prefix sha256 store_hash prop = IDX_PREFIX @ [47] @ hex store_hash @ [47] @ hex (hash128 sha256 prop) @ [47]"

definition index_path :: "(bytes \<Rightarrow> bytes) \<Rightarrow> bytes \<Rightarrow> bytes \<Rightarrow> db_value \<Rightarrow> bytes" where
  "index_path sha256 store_hash prop v = index_prop_prefix sha256 store_hash prop @ hex (order_key v)"

definition index_key_fits :: "(bytes \<Rightarrow> bytes) \<Rightarrow> bytes \<Rightarrow> bytes \<Rightarrow> db_value \<Rightarrow> bool" where
  "index_key_fits sha256 store_hash prop v \<longleftrightarrow> length (index_path sha256 store_hash prop v) \<le> MAX_KEY_LEN"

definition encode_pks :: "bytes list \<Rightarrow> bytes" where
  "encode_pks pks = u32_to_le (word_of_nat (length pks)) @ concat pks"

fun pks_loop :: "nat \<Rightarrow> bytes \<Rightarrow> nat \<Rightarrow> bytes list" where
  "pks_loop 0 buf p = []"
| "pks_loop (Suc n) buf p = (case get_range buf p 16 of None \<Rightarrow> [] | Some pk \<Rightarrow> pk # pks_loop n buf (p + 16))"

definition decode_pks :: "bytes \<Rightarrow> bytes list" where
  "decode_pks buf =
     (if length buf < 4 then []
      else pks_loop (unat (u32_from_le [buf ! 0, buf ! 1, buf ! 2, buf ! 3])) buf 4)"

definition strip_prefix :: "bytes \<Rightarrow> bytes \<Rightarrow> bytes option" where
  "strip_prefix pre path = (if take (length pre) path = pre then Some (drop (length pre) path) else None)"

text \<open>The paths of a listing that a range query reads.\<close>

definition range_paths :: "(bytes \<Rightarrow> bytes) \<Rightarrow> bytes \<Rightarrow> bytes \<Rightarrow> db_value \<Rightarrow> db_value \<Rightarrow> bytes list \<Rightarrow> bytes list" where
  "range_paths sha256 store_hash prop lo hi paths =
     (let pre = index_prop_prefix sha256 store_hash prop; lo_hex = hex (order_key lo); hi_hex = hex (order_key hi)
      in filter (\<lambda>path. case strip_prefix pre path of None \<Rightarrow> False | Some seg \<Rightarrow> lo_hex \<le> seg \<and> seg \<le> hi_hex) paths)"

section \<open>What a range query reads\<close>

lemma index_prefix: "strip_prefix (index_prop_prefix h sh prop) (index_path h sh prop v) = Some (hex (order_key v))"
  by (simp add: strip_prefix_def index_path_def)

text \<open>C32. Which index units a range query reads: of a listing, the unit of a value of the property is read exactly if it is in
  the listing and the value lies within the inclusive bounds, in the order of the types and, within a type, the natural order of the
  values (numbers by what they denote, the two floating-point zeros equal), with one exception on each side that the keys of the two
  zeros cause: a negative zero is missed when the lower bound is the positive zero, and a positive zero is missed when the upper bound
  is the negative zero. A floating-point pattern that is not a number is taken as beyond the infinity of its sign.\<close>

theorem range_query_exact:
  "index_path h sh prop v \<in> set (range_paths h sh prop lo hi paths) \<longleftrightarrow>
     index_path h sh prop v \<in> set paths
     \<and> \<not> (val_kind v < val_kind lo \<or> val_kind v = val_kind lo \<and> val_less v lo)
     \<and> \<not> (val_kind hi < val_kind v \<or> val_kind hi = val_kind v \<and> val_less hi v)
     \<and> \<not> (v = VF64 SIGN_BIT \<and> lo = VF64 0) \<and> \<not> (v = VF64 0 \<and> hi = VF64 SIGN_BIT)"
  by (auto simp: range_paths_def Let_def index_prefix not_less[symmetric] order_key_order)

lemma pks_loop_at: "lies_at buf p (concat pks) \<Longrightarrow> list_all (\<lambda>pk. length pk = 16) pks \<Longrightarrow> pks_loop (length pks) buf p = pks"
  by (induction pks arbitrary: p) (auto simp: lies_at_get_range)

lemma decode_encode_pks:
  assumes "list_all (\<lambda>pk. length pk = 16) pks" "length pks < 2 ^ 32"
  shows "decode_pks (encode_pks pks @ stale) = pks"
proof -
  let ?buf = "encode_pks pks @ stale"
  have "lies_at ?buf 0 (encode_pks pks)" by (rule lies_at_extend) (simp add: lies_at_def slice_def)
  then have l: "lies_at ?buf 0 (u32_to_le (word_of_nat (length pks)))" "lies_at ?buf 4 (concat pks)" by (simp_all add: encode_pks_def)
  obtain a b c d where abcd: "u32_to_le (word_of_nat (length pks)) = [a, b, c, d]" using length_4[OF u32_le_length] by blast
  then have "4 \<le> length ?buf" "[?buf ! 0, ?buf ! 1, ?buf ! 2, ?buf ! 3] = u32_to_le (word_of_nat (length pks))"
    using l(1) by (simp_all add: numeral_eq_Suc)
  then show ?thesis using pks_loop_at[OF l(2) assms(1)] u32_len[OF assms(2)] by (simp add: decode_pks_def)
qed

end
