(* ===== verification/Wb_Cache.thy ===== *)
theory Wb_Cache
  imports Backend
begin

text \<open>
  The write-back cache of an open file handle, \<^verbatim>\<open>sfs-mount/src/wbcache.rs\<close>: dirty extents in a \<^verbatim>\<open>BTreeMap\<close> by their start,
  merged when they overlap or touch, over a base that is read lazily. The specification is a partial map from positions to bytes:
  a write overrides it, a truncation restricts it. Positions are natural numbers below \<open>2 ^ 64\<close>. The two sums the code forms with
  a caller's position, the end of a write and the end of a read window, panic when they leave 64 bits; every other sum is the end of
  an extent in the cache, and those ends are at most the logical length, which is proved to stay below \<open>2 ^ 64\<close>.
\<close>

section \<open>The code\<close>

type_synonym extents = "(nat \<times> bytes) list"

record wb_cache =
  wb_len :: nat
  wb_ranges :: extents
  wb_dirty :: bool

definition wb_new :: "nat \<Rightarrow> wb_cache" where
  "wb_new base_len = \<lparr>wb_len = base_len, wb_ranges = [], wb_dirty = False\<rparr>"

text \<open>The last entry whose key satisfies a bound, and the first.\<close>

definition last_entry :: "(nat \<Rightarrow> bool) \<Rightarrow> extents \<Rightarrow> (nat \<times> bytes) option" where
  "last_entry Q es = (case filter (\<lambda>e. Q (fst e)) es of [] \<Rightarrow> None | x # xs \<Rightarrow> Some (last (x # xs)))"

definition first_entry :: "(nat \<Rightarrow> bool) \<Rightarrow> extents \<Rightarrow> (nat \<times> bytes) option" where
  "first_entry Q es = (case filter (\<lambda>e. Q (fst e)) es of [] \<Rightarrow> None | x # xs \<Rightarrow> Some x)"

text \<open>One merge: the union of the new extent with an old one it touches.\<close>

definition merge_one :: "nat \<times> bytes \<Rightarrow> nat \<times> bytes \<Rightarrow> nat \<times> bytes" where
  "merge_one new old =
     (let (new_start, new_data) = new; (r_start, r_data) = old; r_end = r_start + length r_data;
          (new_start, new_data) =
            (if r_start < new_start then (r_start, take (new_start - r_start) r_data @ new_data) else (new_start, new_data))
      in if new_start + length new_data < r_end
         then (new_start, new_data @ drop (new_start + length new_data - r_start) r_data)
         else (new_start, new_data))"

text \<open>A write of at least one byte whose end is \<open>fin\<close>: the fast path appends in place, the general one merges.\<close>

definition wb_put :: "nat \<Rightarrow> bytes \<Rightarrow> nat \<Rightarrow> wb_cache \<Rightarrow> wb_cache" where
  "wb_put offset data fin c =
     (let len' = (if wb_len c < fin then fin else wb_len c);
          general =
            (let to_merge = filter (\<lambda>(r_start, r_data). r_start \<le> fin \<and> offset \<le> r_start + length r_data) (wb_ranges c);
                 rest = foldl (\<lambda>es e. bt_remove (fst e) es) (wb_ranges c) to_merge;
                 (new_start, new_data) = foldl merge_one (offset, data) to_merge
             in c\<lparr>wb_ranges := bt_insert new_start (splice (offset - new_start) data new_data) rest, wb_len := len', wb_dirty := True\<rparr>)
      in case last_entry (\<lambda>k. k < offset) (wb_ranges c) of
           Some (r_start, r_data) \<Rightarrow>
             if r_start + length r_data = offset \<and> first_entry (\<lambda>k. offset < k \<and> k \<le> fin) (wb_ranges c) = None
             then c\<lparr>wb_ranges := bt_insert r_start (r_data @ data) (wb_ranges c), wb_len := len', wb_dirty := True\<rparr>
             else general
         | None \<Rightarrow> general)"

definition wb_write :: "nat \<Rightarrow> bytes \<Rightarrow> wb_cache \<Rightarrow> wb_cache result" where
  "wb_write offset data c =
     (if data = [] then Inr c
      else if 2 ^ 64 \<le> offset + length data then Inl (Panic ''attempt to add with overflow'')
      else Inr (wb_put offset data (offset + length data) c))"

text \<open>Reading: the loop runs with fuel; \<open>None\<close> means the fuel ran out. The error of the base reader is kept apart from a panic.\<close>

definition covering :: "extents \<Rightarrow> nat \<Rightarrow> (nat \<times> bytes) option" where
  "covering es pos =
     (case last_entry (\<lambda>k. k \<le> pos) es of
        Some (r_start, r_data) \<Rightarrow> if pos < r_start + length r_data then Some (r_start, r_data) else None
      | None \<Rightarrow> None)"

definition gap_bytes :: "nat \<Rightarrow> bytes \<Rightarrow> bytes" where
  "gap_bytes gap_len base_bytes =
     (if length base_bytes < gap_len then base_bytes @ replicate (gap_len - length base_bytes) 0 else take gap_len base_bytes)"

primrec read_loop :: "nat \<Rightarrow> extents \<Rightarrow> (nat \<Rightarrow> nat \<Rightarrow> 'e + bytes) \<Rightarrow> nat \<Rightarrow> nat \<Rightarrow> bytes \<Rightarrow> ('e + bytes) option" where
  "read_loop 0 es base_reader pos fin out = None"
| "read_loop (Suc fuel) es base_reader pos fin out =
     (if fin \<le> pos then Some (Inr out)
      else case covering es pos of
             Some e \<Rightarrow>
               let r_end = fst e + length (snd e); frm = pos - fst e; to = min (min r_end fin - fst e) (length (snd e))
               in read_loop fuel es base_reader (fst e + to) fin (out @ take (to - frm) (drop frm (snd e)))
           | None \<Rightarrow>
               let next_dirty_start = (case first_entry (\<lambda>k. pos \<le> k) es of Some e \<Rightarrow> fst e | None \<Rightarrow> fin);
                   gap_end = min next_dirty_start fin
               in case base_reader pos (gap_end - pos) of
                    Inl e \<Rightarrow> Some (Inl e)
                  | Inr base_bytes \<Rightarrow> read_loop fuel es base_reader gap_end fin (out @ gap_bytes (gap_end - pos) base_bytes))"

definition read_through :: "nat \<Rightarrow> nat \<Rightarrow> (nat \<Rightarrow> nat \<Rightarrow> 'e + bytes) \<Rightarrow> wb_cache \<Rightarrow> ('e + bytes) result option" where
  "read_through offset sz base_reader c =
     (if sz = 0 \<or> wb_len c \<le> offset then Some (Inr (Inr []))
      else if 2 ^ 64 \<le> offset + sz then Some (Inl (Panic ''attempt to add with overflow''))
      else let fin = min (offset + sz) (wb_len c); total = fin - offset
           in if wb_ranges c = []
              then (case base_reader offset total of
                      Inl e \<Rightarrow> Some (Inr (Inl e))
                    | Inr b \<Rightarrow> Some (Inr (Inr (if length b \<noteq> total then resize total b else b))))
              else map_option Inr (read_loop (Suc total) (wb_ranges c) base_reader offset fin []))"

definition wb_truncate :: "nat \<Rightarrow> wb_cache \<Rightarrow> wb_cache" where
  "wb_truncate new_len c =
     (let kept = filter (\<lambda>e. fst e < new_len) (wb_ranges c);
          trimmed = (case last_entry (\<lambda>k. k < new_len) kept of
                       Some (last_start, d) \<Rightarrow>
                         if new_len < last_start + length d then bt_insert last_start (take (new_len - last_start) d) kept else kept
                     | None \<Rightarrow> kept)
      in c\<lparr>wb_ranges := trimmed, wb_len := new_len, wb_dirty := True\<rparr>)"

definition take_dirty_ranges :: "wb_cache \<Rightarrow> extents option \<times> wb_cache" where
  "take_dirty_ranges c =
     (if \<not> wb_dirty c then (None, c) else (Some (wb_ranges c), c\<lparr>wb_ranges := [], wb_dirty := False\<rparr>))"

section \<open>Extents as a partial map\<close>

definition covers :: "nat \<times> bytes \<Rightarrow> nat \<Rightarrow> bool" where
  "covers e p \<longleftrightarrow> fst e \<le> p \<and> p < fst e + length (snd e)"

fun ov :: "extents \<Rightarrow> nat \<rightharpoonup> u8" where
  "ov [] p = None"
| "ov (e # es) p = (if covers e p then Some (snd e ! (p - fst e)) else ov es p)"

text \<open>Extents are not empty, sorted, and neither overlap nor touch.\<close>

definition wb_inv :: "extents \<Rightarrow> bool" where
  "wb_inv es \<longleftrightarrow> sorted_wrt (\<lambda>a b. fst a + length (snd a) < fst b) es \<and> (\<forall>e \<in> set es. snd e \<noteq> [])"

lemma wb_inv_Nil [simp]: "wb_inv []"
  by (simp add: wb_inv_def)

lemma ov_append: "ov (xs @ ys) p = (case ov xs p of None \<Rightarrow> ov ys p | b \<Rightarrow> b)"
  by (induction xs) auto

lemma ov_None: "ov es p = None \<longleftrightarrow> (\<forall>e \<in> set es. \<not> covers e p)"
  by (induction es) auto

lemma ov_Some: "ov es p = Some b \<Longrightarrow> \<exists>e \<in> set es. covers e p \<and> b = snd e ! (p - fst e)"
  by (induction es) (auto split: if_splits)

lemma wb_inv_apart:
  assumes "wb_inv es" "a \<in> set es" "b \<in> set es" "a \<noteq> b"
  shows "fst a + length (snd a) < fst b \<or> fst b + length (snd b) < fst a"
proof -
  obtain i j where ij: "i < length es" "j < length es" "a = es ! i" "b = es ! j" using assms(2,3) by (metis in_set_conv_nth)
  have "i \<noteq> j" using ij assms(4) by auto
  then show ?thesis using assms(1) ij unfolding wb_inv_def sorted_wrt_iff_nth_less by (metis linorder_neqE_nat)
qed

lemma covers_unique: "wb_inv es \<Longrightarrow> a \<in> set es \<Longrightarrow> b \<in> set es \<Longrightarrow> covers a p \<Longrightarrow> covers b p \<Longrightarrow> a = b"
  using wb_inv_apart[of es a b] by (auto simp: covers_def)

lemma ov_at: "wb_inv es \<Longrightarrow> e \<in> set es \<Longrightarrow> covers e p \<Longrightarrow> ov es p = Some (snd e ! (p - fst e))"
proof (cases "ov es p")
  case None
  moreover assume "e \<in> set es" "covers e p"
  ultimately show ?thesis by (simp add: ov_None)
next
  case (Some b)
  assume e: "wb_inv es" "e \<in> set es" "covers e p"
  from ov_Some[OF Some] obtain f where "f \<in> set es" "covers f p" "b = snd f ! (p - fst f)" by blast
  then show ?thesis using Some covers_unique[OF e(1,2) _ e(3)] by blast
qed

lemma ov_cong:
  assumes "wb_inv es" "wb_inv fs" "\<And>e. covers e p \<Longrightarrow> e \<in> set es \<longleftrightarrow> e \<in> set fs"
  shows "ov es p = ov fs p"
proof (cases "ov es p")
  case None
  then have "\<forall>e \<in> set fs. \<not> covers e p" using assms(3) ov_None by blast
  then show ?thesis using None ov_None by metis
next
  case (Some b)
  then obtain e where "e \<in> set es" "covers e p" "b = snd e ! (p - fst e)" using ov_Some by blast
  then show ?thesis using Some assms ov_at by metis
qed

lemma wb_inv_sorted: "wb_inv es \<Longrightarrow> bt_sorted es"
proof -
  assume "wb_inv es"
  then have "sorted_wrt (\<lambda>a b. fst a + length (snd a) < fst b) es" by (simp add: wb_inv_def)
  then have "sorted_wrt (\<lambda>a b. fst a < fst b) es" by (rule sorted_wrt_mono_rel[rotated]) simp
  then show ?thesis by (simp add: bt_sorted_def sorted_wrt_map)
qed

lemma wb_invI:
  assumes "bt_sorted es" "\<And>e. e \<in> set es \<Longrightarrow> snd e \<noteq> []"
    and "\<And>a b. a \<in> set es \<Longrightarrow> b \<in> set es \<Longrightarrow> fst a < fst b \<Longrightarrow> fst a + length (snd a) < fst b"
  shows "wb_inv es"
proof -
  have "sorted_wrt (\<lambda>a b. fst a < fst b) es" using assms(1) by (simp add: bt_sorted_def sorted_wrt_map)
  then have "sorted_wrt (\<lambda>a b. fst a + length (snd a) < fst b) es" by (rule sorted_wrt_mono_rel[rotated]) (rule assms(3))
  then show ?thesis using assms(2) by (simp add: wb_inv_def)
qed

lemma wb_inv_lt: "wb_inv es \<Longrightarrow> a \<in> set es \<Longrightarrow> b \<in> set es \<Longrightarrow> fst a < fst b \<Longrightarrow> fst a + length (snd a) < fst b"
  using wb_inv_apart[of es a b] by fastforce

lemma bt_removes:
  "bt_sorted es \<Longrightarrow> bt_sorted (foldl (\<lambda>es e. bt_remove (fst e) es) es ms)
   \<and> set (foldl (\<lambda>es e. bt_remove (fst e) es) es ms) = {e \<in> set es. fst e \<notin> fst ` set ms}"
  by (induction ms arbitrary: es) (auto simp: bt_sorted_remove)

lemma bt_key_inj: "bt_sorted es \<Longrightarrow> a \<in> set es \<Longrightarrow> b \<in> set es \<Longrightarrow> fst a = fst b \<Longrightarrow> a = b"
  using bt_sorted_map_of[of es] by (metis option.inject prod.collapse)

lemma set_bt_insert_eq: "bt_sorted es \<Longrightarrow> set (bt_insert k v es) = insert (k, v) {e \<in> set es. fst e \<noteq> k}"
proof -
  assume s: "bt_sorted es"
  have i: "bt_sorted (bt_insert k v es)" by (rule bt_sorted_insert[OF s])
  have "(a, b) \<in> set (bt_insert k v es) \<longleftrightarrow> (a, b) \<in> insert (k, v) {e \<in> set es. fst e \<noteq> k}" for a b
    using bt_sorted_map_of[OF i, of a b] bt_sorted_map_of[OF s, of a b] by (simp add: map_of_bt_insert split: if_splits) auto
  then show ?thesis by auto
qed

section \<open>Writing\<close>

text \<open>What the merge loop keeps: the extent covers the written range and everything merged so far, and outside the written
  range it holds the bytes of the merged extents.\<close>

definition merged :: "nat \<Rightarrow> bytes \<Rightarrow> extents \<Rightarrow> nat \<times> bytes \<Rightarrow> bool" where
  "merged off data ms new \<longleftrightarrow>
     fst new \<le> off \<and> off + length data \<le> fst new + length (snd new)
     \<and> (\<forall>p. covers new p \<longleftrightarrow> covers (off, data) p \<or> (\<exists>m \<in> set ms. covers m p))
     \<and> (\<forall>p. covers new p \<longrightarrow> \<not> covers (off, data) p \<longrightarrow> ov ms p = Some (snd new ! (p - fst new)))
     \<and> (fst new = off \<or> fst new \<in> fst ` set ms)
     \<and> (fst new + length (snd new) = off + length data \<or> (\<exists>m \<in> set ms. fst new + length (snd new) = fst m + length (snd m)))"

lemma merged_start: "data \<noteq> [] \<Longrightarrow> merged off data [] (off, data)"
  by (simp add: merged_def)

lemma merge_one_step:
  assumes m: "merged off data ms new" and t: "fst old \<le> off + length data" "off \<le> fst old + length (snd old)"
  shows "merged off data (ms @ [old]) (merge_one new old)"
proof -
  obtain ns nd where new: "new = (ns, nd)" by (cases new)
  obtain s d where old: "old = (s, d)" by (cases old)
  let ?ns = "min s ns" and ?pre = "take (ns - s) d"
  have b: "ns \<le> off" "off + length data \<le> ns + length nd" using m by (simp_all add: merged_def new)
  have t': "s \<le> off + length data" "off \<le> s + length d" using t by (simp_all add: old)
  define nd1 where "nd1 = (if s < ns then ?pre @ nd else nd)"
  have pre: "length ?pre = ns - s" using b t' by auto
  have len1: "?ns + length nd1 = ns + length nd" using b t' by (auto simp: nd1_def min_def)
  define nd2 where "nd2 = (if ?ns + length nd1 < s + length d then nd1 @ drop (?ns + length nd1 - s) d else nd1)"
  have eq: "merge_one new old = (?ns, nd2)"
    by (auto simp: merge_one_def new old Let_def nd1_def nd2_def min_def)
  have len2: "?ns + length nd2 = max (ns + length nd) (s + length d)"
    using len1 b t' by (auto simp: nd2_def max_def)
  have val: "nd2 ! (p - ?ns) = (if ns \<le> p \<and> p < ns + length nd then nd ! (p - ns) else d ! (p - s))"
    if p: "?ns \<le> p" "p < ?ns + length nd2" for p
  proof (cases "ns \<le> p \<and> p < ns + length nd")
    case True
    then have "p - ?ns < length nd1" using len1 by (simp add: min_def split: if_splits)
    then have "nd2 ! (p - ?ns) = nd1 ! (p - ?ns)" by (simp add: nd2_def nth_append)
    also have "\<dots> = nd ! (p - ns)" 
    proof (cases "s < ns")
      case s: True
      have "\<not> p - s < length ?pre" "p - s - length ?pre = p - ns" using True s unfolding pre by linarith+
      then show ?thesis using s unfolding nd1_def by (simp only: nth_append if_True if_False min_absorb1 less_imp_le)
    qed (simp add: nd1_def min_def)
    finally show ?thesis using True by simp
  next
    case False
    show ?thesis
    proof (cases "p < ns")
      case True
      then have s: "s < ns" "?ns = s" using p by (simp_all add: min_def split: if_splits)
      have "p - s < length ?pre" using True s b t' p by simp
      then have "nd2 ! (p - s) = ?pre ! (p - s)" using s by (auto simp: nd2_def nd1_def nth_append)
      also have "\<dots> = d ! (p - s)" using \<open>p - s < length ?pre\<close> by simp
      finally show ?thesis using True s by simp
    next
      case False
      then have q: "ns + length nd \<le> p" using \<open>\<not> (ns \<le> p \<and> p < ns + length nd)\<close> by simp
      then have c: "?ns + length nd1 < s + length d" using p len1 len2 by (simp add: nd2_def split: if_splits)
      have "p - ?ns = length nd1 + (p - (ns + length nd))" using q len1 by simp
      then have "nd2 ! (p - ?ns) = drop (?ns + length nd1 - s) d ! (p - (ns + length nd))"
        using c by (simp add: nd2_def nth_append)
      also have "\<dots> = d ! (p - s)" using q len1 b t' c by simp
      finally show ?thesis using False q by simp
    qed
  qed
  have cov: "covers (?ns, nd2) p \<longleftrightarrow> covers new p \<or> covers old p" for p
    using len2 b t' by (auto simp: covers_def new old min_def max_def)
  have "ov (ms @ [old]) p = Some (nd2 ! (p - ?ns))" if p: "covers (?ns, nd2) p" "\<not> covers (off, data) p" for p
  proof (cases "covers new p")
    case True
    then have "ov ms p = Some (nd ! (p - ns))" using m p(2) by (auto simp: merged_def new)
    moreover have "nd2 ! (p - ?ns) = nd ! (p - ns)" using val[of p] p(1) True by (simp add: covers_def new)
    ultimately show ?thesis by (simp add: ov_append)
  next
    case False
    then have o: "covers old p" using p(1) cov by blast
    have "ov ms p = None" using False m unfolding merged_def ov_None by blast
    moreover have "nd2 ! (p - ?ns) = d ! (p - s)" using val[of p] p(1) False by (auto simp: covers_def new)
    ultimately show ?thesis using o by (simp add: ov_append old)
  qed
  moreover have "?ns = off \<or> ?ns \<in> fst ` set (ms @ [old])" using m by (auto simp: merged_def new old min_def)
  moreover have "?ns + length nd2 = off + length data \<or> (\<exists>m \<in> set (ms @ [old]). ?ns + length nd2 = fst m + length (snd m))"
    using m unfolding len2 by (auto simp: merged_def new old max_def)
  ultimately show ?thesis
    using m cov b len2 unfolding eq merged_def by (auto simp: min_def)
qed

lemma merge_all:
  "merged off data ms0 new \<Longrightarrow> (\<forall>e \<in> set ms. fst e \<le> off + length data \<and> off \<le> fst e + length (snd e)) \<Longrightarrow>
   merged off data (ms0 @ ms) (foldl merge_one new ms)"
proof (induction ms arbitrary: ms0 new)
  case (Cons m ms)
  have "merged off data (ms0 @ [m]) (merge_one new m)" using Cons.prems by (intro merge_one_step) simp_all
  from Cons.IH[OF this] Cons.prems show ?case by simp
qed simp

lemma last_entry_sorted:
  assumes "bt_sorted es"
  shows "last_entry Q es = Some e \<Longrightarrow> e \<in> set es \<and> Q (fst e) \<and> (\<forall>f \<in> set es. Q (fst f) \<longrightarrow> fst f \<le> fst e)"
    and "last_entry Q es = None \<Longrightarrow> f \<in> set es \<Longrightarrow> \<not> Q (fst f)"
proof -
  let ?fs = "filter (\<lambda>e. Q (fst e)) es"
  show "e \<in> set es \<and> Q (fst e) \<and> (\<forall>f \<in> set es. Q (fst f) \<longrightarrow> fst f \<le> fst e)" if l: "last_entry Q es = Some e"
  proof -
    have ne: "?fs \<noteq> []" "e = last ?fs" using l by (auto simp: last_entry_def split: list.splits)
    then have m: "e \<in> set ?fs" using last_in_set by blast
    have fs: "?fs = butlast ?fs @ [e]" using ne by simp
    have "sorted (map fst ?fs)" using assms by (simp add: bt_sorted_def strict_sorted_iff sorted_filter)
    then have "sorted (map fst (butlast ?fs) @ [fst e])" using fs by (metis list.map(1,2) map_append)
    then have "\<forall>f \<in> set (butlast ?fs @ [e]). fst f \<le> fst e" by (auto simp: sorted_append)
    then have "\<forall>f \<in> set ?fs. fst f \<le> fst e" using fs by simp
    then show ?thesis using m by auto
  qed
  show "\<not> Q (fst f)" if "last_entry Q es = None" "f \<in> set es"
    using that by (auto simp: last_entry_def filter_empty_conv split: list.splits)
qed

lemma first_entry_sorted:
  assumes "bt_sorted es"
  shows "first_entry Q es = Some e \<Longrightarrow> e \<in> set es \<and> Q (fst e) \<and> (\<forall>f \<in> set es. Q (fst f) \<longrightarrow> fst e \<le> fst f)"
    and "first_entry Q es = None \<Longrightarrow> f \<in> set es \<Longrightarrow> \<not> Q (fst f)"
proof -
  let ?fs = "filter (\<lambda>e. Q (fst e)) es"
  show "e \<in> set es \<and> Q (fst e) \<and> (\<forall>f \<in> set es. Q (fst f) \<longrightarrow> fst e \<le> fst f)" if l: "first_entry Q es = Some e"
  proof -
    obtain xs where fs: "?fs = e # xs" using l by (auto simp: first_entry_def split: list.splits)
    have "sorted (map fst ?fs)" using assms by (simp add: bt_sorted_def strict_sorted_iff sorted_filter)
    then have "\<forall>f \<in> set ?fs. fst e \<le> fst f" unfolding fs by simp
    moreover have "e \<in> set ?fs" by (simp add: fs)
    ultimately show ?thesis unfolding set_filter by blast
  qed
  show "\<not> Q (fst f)" if "first_entry Q es = None" "f \<in> set es"
    using that by (auto simp: first_entry_def filter_empty_conv split: list.splits)
qed

text \<open>Replacing the extents that touch a range by one that covers them.\<close>

lemma replaced_inv:
  assumes i: "wb_inv es" and d: "data \<noteq> []"
    and ms: "set ms = {e \<in> set es. fst e \<le> off + length data \<and> off \<le> fst e + length (snd e)}"
    and m: "merged off data ms (ns, nd)" and s: "bt_sorted fs"
    and fs: "set fs = insert (ns, nd') {e \<in> set es. e \<notin> set ms}" and l: "length nd' = length nd"
  shows "wb_inv fs"
proof (rule wb_invI[OF s])
  have "0 < length data" "ns \<le> off" "off + length data \<le> ns + length nd" using m d by (simp_all add: merged_def)
  then have "0 < length nd'" using l by linarith
  then have nd: "nd' \<noteq> []" by simp
  moreover have "\<forall>e \<in> set es. snd e \<noteq> []" using i unfolding wb_inv_def by blast
  ultimately show "snd e \<noteq> []" if "e \<in> set fs" for e using that unfolding fs by auto
  have away: "ns + length nd < fst e \<or> fst e + length (snd e) < ns" if e: "e \<in> set es" "e \<notin> set ms" for e
  proof -
    have o: "off + length data < fst e \<or> fst e + length (snd e) < off" using e unfolding ms by auto
    have k: "\<forall>m \<in> set ms. fst m + length (snd m) < fst e \<or> fst e + length (snd e) < fst m"
    proof
      fix m assume "m \<in> set ms"
      then have "m \<in> set es" "m \<noteq> e" using ms e(2) by blast+
      then show "fst m + length (snd m) < fst e \<or> fst e + length (snd e) < fst m" by (rule wb_inv_apart[OF i _ e(1)])
    qed
    have lo: "ns = off \<or> (\<exists>m \<in> set ms. ns = fst m)" and hi: "ns + length nd = off + length data \<or> (\<exists>m \<in> set ms. ns + length nd = fst m + length (snd m))"
      using m by (auto simp: merged_def)
    have t: "fst m \<le> off + length data \<and> off \<le> fst m + length (snd m)" if "m \<in> set ms" for m using that unfolding ms by simp
    from o show ?thesis
    proof
      assume a: "off + length data < fst e"
      have "\<forall>m \<in> set ms. fst m + length (snd m) < fst e" using k t a by fastforce
      then show ?thesis using hi a by auto
    next
      assume a: "fst e + length (snd e) < off"
      have "\<forall>m \<in> set ms. fst e + length (snd e) < fst m" using k t a by fastforce
      then show ?thesis using lo a by auto
    qed
  qed
  fix a b assume ab: "a \<in> set fs" "b \<in> set fs" "fst a < fst b"
  consider "a = (ns, nd')" "b = (ns, nd')" | "a = (ns, nd')" "b \<in> set es" "b \<notin> set ms" | "b = (ns, nd')" "a \<in> set es" "a \<notin> set ms"
    | "a \<in> set es" "b \<in> set es" using ab fs by blast
  then show "fst a + length (snd a) < fst b"
  proof cases
    case 2 then show ?thesis using away[of b] ab l by auto
  next
    case 3 then show ?thesis using away[of a] ab l by auto
  next
    case 4 then show ?thesis using wb_inv_lt[OF i] ab by blast
  qed (use ab in simp)
qed

definition over :: "nat \<Rightarrow> bytes \<Rightarrow> (nat \<rightharpoonup> u8) \<Rightarrow> nat \<rightharpoonup> u8" where
  "over off data f = (\<lambda>p. if off \<le> p \<and> p < off + length data then Some (data ! (p - off)) else f p)"

lemma replaced_ov:
  assumes i: "wb_inv es" and j: "wb_inv fs" and mi: "wb_inv ms"
    and ms: "set ms \<subseteq> set es" and m: "merged off data ms (ns, nd)"
    and fs: "set fs = insert (ns, splice (off - ns) data nd) {e \<in> set es. e \<notin> set ms}"
  shows "ov fs = over off data (ov es)"
proof
  fix p
  let ?new = "(ns, splice (off - ns) data nd)"
  have b: "ns \<le> off" "off + length data \<le> ns + length nd" using m by (simp_all add: merged_def)
  have ln: "length (splice (off - ns) data nd) = length nd" using b by simp
  have c: "covers ?new p \<longleftrightarrow> covers (ns, nd) p" by (simp add: covers_def ln)
  show "ov fs p = over off data (ov es) p"
  proof (cases "covers ?new p")
    case True
    have v: "ov fs p = Some (splice (off - ns) data nd ! (p - ns))" using ov_at[OF j _ True] fs by simp
    have pn: "ns \<le> p" "p - ns < length nd" using True ln by (auto simp: covers_def)
    have s: "splice (off - ns) data nd ! (p - ns) = (if off - ns \<le> p - ns \<and> p - ns < off - ns + length data then data ! (p - ns - (off - ns)) else nd ! (p - ns))"
      using b pn(2) by (intro nth_splice) auto
    show ?thesis
    proof (cases "covers (off, data) p")
      case True
      then show ?thesis using v s b pn by (simp add: over_def covers_def less_diff_conv2) linarith
    next
      case False
      then have "ov ms p = Some (nd ! (p - ns))" using m c \<open>covers ?new p\<close> by (simp add: merged_def)
      then obtain e where e: "e \<in> set ms" "covers e p" "snd e ! (p - fst e) = nd ! (p - ns)" using ov_Some by metis
      then have "ov es p = Some (nd ! (p - ns))" using ov_at[OF i _ e(2)] ms by auto
      moreover have "splice (off - ns) data nd ! (p - ns) = nd ! (p - ns)" using s False b pn by (auto simp: covers_def)
      ultimately show ?thesis using v False by (auto simp: over_def covers_def)
    qed
  next
    case False
    then have n: "\<not> covers (off, data) p" "\<forall>e \<in> set ms. \<not> covers e p" using m c unfolding merged_def by blast+
    have "ov fs p = ov es p" using False n(2) fs ms by (intro ov_cong[OF j i]) auto
    then show ?thesis using n(1) by (auto simp: over_def covers_def)
  qed
qed

lemma wb_inv_filter: "wb_inv es \<Longrightarrow> wb_inv (filter P es)"
  by (auto simp: wb_inv_def sorted_wrt_filter)

text \<open>What the general path leaves, and the fast path.\<close>

lemma general_path:
  assumes i: "wb_inv es" and d: "data \<noteq> []"
    and ms: "ms = filter (\<lambda>(s, r). s \<le> off + length data \<and> off \<le> s + length r) es"
    and n: "(ns, nd) = foldl merge_one (off, data) ms"
    and r: "r = bt_insert ns (splice (off - ns) data nd) (foldl (\<lambda>es e. bt_remove (fst e) es) es ms)"
  shows "wb_inv r \<and> ov r = over off data (ov es)"
proof -
  have sms: "set ms = {e \<in> set es. fst e \<le> off + length data \<and> off \<le> fst e + length (snd e)}" by (auto simp: ms)
  have m: "merged off data ms (ns, nd)"
    using merge_all[OF merged_start[OF d], of ms] sms unfolding n by simp
  have s: "bt_sorted es" by (rule wb_inv_sorted[OF i])
  let ?rest = "foldl (\<lambda>es e. bt_remove (fst e) es) es ms"
  have rs: "bt_sorted ?rest" "set ?rest = {e \<in> set es. fst e \<notin> fst ` set ms}" using bt_removes[OF s] by blast+
  have re: "set ?rest = {e \<in> set es. e \<notin> set ms}"
  proof -
    have "fst e \<in> fst ` set ms \<longleftrightarrow> e \<in> set ms" if "e \<in> set es" for e
    proof
      assume "fst e \<in> fst ` set ms"
      then obtain m where "m \<in> set ms" "fst e = fst m" by blast
      then show "e \<in> set ms" using bt_key_inj[OF s that, of m] sms by blast
    qed blast
    then show ?thesis unfolding rs(2) by blast
  qed
  have b: "ns \<le> off" "off + length data \<le> ns + length nd" using m by (simp_all add: merged_def)
  have nk: "fst e \<noteq> ns" if e: "e \<in> set es" "e \<notin> set ms" for e
  proof
    assume k: "fst e = ns"
    have "fst e \<notin> fst ` set ms" using e rs(2) re by blast
    then have "ns = off" using m k by (auto simp: merged_def)
    then show False using e k sms by auto
  qed
  have set_r: "set r = insert (ns, splice (off - ns) data nd) {e \<in> set es. e \<notin> set ms}"
    unfolding r set_bt_insert_eq[OF rs(1)] re using nk by blast
  have wr: "wb_inv r"
    by (rule replaced_inv[OF i d sms m _ set_r]) (use b in \<open>auto simp: r intro: bt_sorted_insert rs(1)\<close>)
  have "ov r = over off data (ov es)"
    by (rule replaced_ov[OF i wr _ _ m set_r]) (auto simp: ms intro: wb_inv_filter[OF i])
  then show ?thesis using wr by blast
qed

lemma fast_path:
  assumes i: "wb_inv es" and d: "data \<noteq> []"
    and l: "last_entry (\<lambda>k. k < off) es = Some (s, r)" "s + length r = off"
    and f: "first_entry (\<lambda>k. off < k \<and> k \<le> off + length data) es = None"
  shows "wb_inv (bt_insert s (r @ data) es) \<and> ov (bt_insert s (r @ data) es) = over off data (ov es)"
proof -
  have srt: "bt_sorted es" by (rule wb_inv_sorted[OF i])
  have le: "(s, r) \<in> set es" "s < off" using last_entry_sorted(1)[OF srt l(1)] by auto
  have mx: "fst e \<le> s" if "e \<in> set es" "fst e < off" for e using last_entry_sorted(1)[OF srt l(1)] that by auto
  have none: "\<not> (off < fst e \<and> fst e \<le> off + length data)" if "e \<in> set es" for e
    using first_entry_sorted(2)[OF srt f that] .
  have touch: "(fst e \<le> off + length data \<and> off \<le> fst e + length (snd e)) \<longleftrightarrow> e = (s, r)" if e: "e \<in> set es" for e
  proof (cases "e = (s, r)")
    case False
    then consider "fst e + length (snd e) < s" | "off < fst e" using wb_inv_apart[OF i e le(1)] l(2) by auto
    then show ?thesis using False none[OF e] le(2) by cases auto
  qed (use l(2) in simp)
  have sms: "set [(s, r)] = {e \<in> set es. fst e \<le> off + length data \<and> off \<le> fst e + length (snd e)}"
    using touch le(1) by auto
  have "merged off data ([] @ [(s, r)]) (merge_one (off, data) (s, r))"
    using l(2) by (intro merge_one_step merged_start d) simp_all
  moreover have "merge_one (off, data) (s, r) = (s, r @ data)" using l(2) le(2) by (auto simp: merge_one_def Let_def)
  ultimately have m: "merged off data [(s, r)] (s, r @ data)" by simp
  have sp: "splice (off - s) data (r @ data) = r @ data" using l(2) by (auto simp: splice_def)
  have set_r: "set (bt_insert s (r @ data) es) = insert (s, splice (off - s) data (r @ data)) {e \<in> set es. e \<notin> set [(s, r)]}"
  proof -
    have "fst e \<noteq> s \<longleftrightarrow> e \<noteq> (s, r)" if "e \<in> set es" for e using bt_key_inj[OF srt that le(1)] by auto
    then show ?thesis unfolding set_bt_insert_eq[OF srt] sp by auto
  qed
  have wr: "wb_inv (bt_insert s (r @ data) es)"
    by (rule replaced_inv[OF i d sms m _ set_r]) (simp_all add: bt_sorted_insert srt sp)
  have "ov (bt_insert s (r @ data) es) = over off data (ov es)"
    by (rule replaced_ov[OF i wr _ _ m set_r]) (use le i in \<open>auto simp: wb_inv_def\<close>)
  then show ?thesis using wr by blast
qed

lemma wb_put_correct:
  assumes i: "wb_inv (wb_ranges c)" and d: "data \<noteq> []"
  shows "wb_inv (wb_ranges (wb_put off data (off + length data) c))
         \<and> ov (wb_ranges (wb_put off data (off + length data) c)) = over off data (ov (wb_ranges c))
         \<and> wb_len (wb_put off data (off + length data) c) = max (wb_len c) (off + length data)
         \<and> wb_dirty (wb_put off data (off + length data) c)"
proof -
  let ?es = "wb_ranges c"
  define ms where "ms = filter (\<lambda>(s, r). s \<le> off + length data \<and> off \<le> s + length r) ?es"
  obtain ns nd where n: "(ns, nd) = foldl merge_one (off, data) ms" by (metis surj_pair)
  define g where "g = bt_insert ns (splice (off - ns) data nd) (foldl (\<lambda>es e. bt_remove (fst e) es) ?es ms)"
  let ?l = "if wb_len c < off + length data then off + length data else wb_len c"
  have e: "wb_put off data (off + length data) c =
      (case last_entry (\<lambda>k. k < off) ?es of
         Some (s, r) \<Rightarrow> if s + length r = off \<and> first_entry (\<lambda>k. off < k \<and> k \<le> off + length data) ?es = None
                         then c\<lparr>wb_ranges := bt_insert s (r @ data) ?es, wb_len := ?l, wb_dirty := True\<rparr>
                         else c\<lparr>wb_ranges := g, wb_len := ?l, wb_dirty := True\<rparr>
       | None \<Rightarrow> c\<lparr>wb_ranges := g, wb_len := ?l, wb_dirty := True\<rparr>)"
    unfolding wb_put_def Let_def ms_def[symmetric] n[symmetric] g_def[symmetric] prod.case by (rule refl)
  have gp: "wb_inv g \<and> ov g = over off data (ov ?es)" by (rule general_path[OF i d ms_def n g_def])
  show ?thesis
    unfolding e using gp fast_path[OF i d] by (simp add: max_def split: option.split)
qed

section \<open>Truncation\<close>

definition upto :: "nat \<Rightarrow> (nat \<rightharpoonup> u8) \<Rightarrow> nat \<rightharpoonup> u8" where
  "upto n f = (\<lambda>p. if p < n then f p else None)"

lemma wb_truncate_correct:
  assumes i: "wb_inv (wb_ranges c)"
  shows "wb_inv (wb_ranges (wb_truncate n c)) \<and> ov (wb_ranges (wb_truncate n c)) = upto n (ov (wb_ranges c))
         \<and> wb_len (wb_truncate n c) = n"
proof -
  let ?es = "wb_ranges c"
  define kept where "kept = filter (\<lambda>e. fst e < n) ?es"
  have k: "wb_inv kept" "bt_sorted kept" using wb_inv_filter[OF i] wb_inv_sorted unfolding kept_def by blast+
  have ok: "ov kept p = ov ?es p" if "p < n" for p
    by (rule ov_cong[OF k(1) i]) (use that in \<open>auto simp: kept_def covers_def\<close>)
  show ?thesis
  proof (cases "\<exists>s d. last_entry (\<lambda>k. k < n) kept = Some (s, d) \<and> n < s + length d")
    case False
    then have t: "wb_ranges (wb_truncate n c) = kept"
      by (auto simp: wb_truncate_def kept_def[symmetric] Let_def split: option.split)
    have "ov kept p = None" if "n \<le> p" for p
      unfolding ov_None
    proof
      fix e assume e: "e \<in> set kept"
      then have "fst e < n" by (simp add: kept_def)
      then obtain s d where l: "last_entry (\<lambda>k. k < n) kept = Some (s, d)" using last_entry_sorted(2)[OF k(2) _ e] by fastforce
      have m: "(s, d) \<in> set kept" "fst e \<le> s" using last_entry_sorted(1)[OF k(2) l] e \<open>fst e < n\<close> by auto
      have "s + length d \<le> n" using False l by (meson not_le)
      then show "\<not> covers e p" using wb_inv_apart[OF k(1) e m(1)] m(2) that by (cases "e = (s, d)") (auto simp: covers_def)
    qed
    then show ?thesis using ok k(1) unfolding t by (auto simp: upto_def fun_eq_iff not_less wb_truncate_def Let_def)
  next
    case True
    then obtain s d where l: "last_entry (\<lambda>k. k < n) kept = Some (s, d)" "n < s + length d" by blast
    define r where "r = bt_insert s (take (n - s) d) kept"
    have t: "wb_ranges (wb_truncate n c) = r" using l by (simp add: wb_truncate_def kept_def[symmetric] Let_def r_def)
    have m: "(s, d) \<in> set kept" "s < n" and mx: "\<forall>e \<in> set kept. fst e \<le> s"
      using last_entry_sorted(1)[OF k(2) l(1)] by (auto simp: kept_def)
    have sr: "set r = insert (s, take (n - s) d) {e \<in> set kept. e \<noteq> (s, d)}"
    proof -
      have "fst e \<noteq> s \<longleftrightarrow> e \<noteq> (s, d)" if "e \<in> set kept" for e using bt_key_inj[OF k(2) that m(1)] by auto
      then show ?thesis unfolding r_def set_bt_insert_eq[OF k(2)] by auto
    qed
    have before: "fst e + length (snd e) < s" if "e \<in> set kept" "e \<noteq> (s, d)" for e
      using wb_inv_apart[OF k(1) that(1) m(1) that(2)] mx that(1) by fastforce
    have wr: "wb_inv r"
    proof (rule wb_invI)
      show "bt_sorted r" unfolding r_def by (rule bt_sorted_insert[OF k(2)])
      show "snd e \<noteq> []" if "e \<in> set r" for e using that k(1) m l(2) unfolding sr by (auto simp: wb_inv_def)
      show "fst a + length (snd a) < fst b" if "a \<in> set r" "b \<in> set r" "fst a < fst b" for a b
        using that before wb_inv_lt[OF k(1), of a b] unfolding sr by fastforce
    qed
    have "ov r p = upto n (ov ?es) p" for p
    proof (cases "p < n")
      case True
      show ?thesis
      proof (cases "covers (s, d) p")
        case c: True
        then have "covers (s, take (n - s) d) p" using True by (auto simp: covers_def)
        then have "ov r p = Some (take (n - s) d ! (p - s))" using ov_at[OF wr] sr by fastforce
        moreover have "take (n - s) d ! (p - s) = d ! (p - s)" using c True by (auto simp: covers_def)
        moreover have "ov kept p = Some (d ! (p - s))" using ov_at[OF k(1) m(1) c] by simp
        ultimately show ?thesis using ok[OF True] True by (simp add: upto_def)
      next
        case False
        then have "ov r p = ov kept p" by (intro ov_cong[OF wr k(1)]) (auto simp: sr covers_def)
        then show ?thesis using ok True by (simp add: upto_def)
      qed
    next
      case False
      have "ov r p = None" unfolding ov_None sr using before m False l(2) by (fastforce simp: covers_def)
      then show ?thesis using False by (simp add: upto_def)
    qed
    then show ?thesis using wr unfolding t by (auto simp: fun_eq_iff wb_truncate_def Let_def)
  qed
qed

section \<open>Reading\<close>

definition view :: "(nat \<rightharpoonup> u8) \<Rightarrow> bytes \<Rightarrow> nat \<Rightarrow> u8" where
  "view f base p = (case f p of Some b \<Rightarrow> b | None \<Rightarrow> if p < length base then base ! p else 0)"

definition base_read :: "bytes \<Rightarrow> nat \<Rightarrow> nat \<Rightarrow> 'e + bytes" where
  "base_read base off n = Inr (take n (drop off base))"

lemma covering_Some:
  assumes "wb_inv es" "covering es p = Some e"
  shows "e \<in> set es \<and> covers e p"
proof -
  have l: "last_entry (\<lambda>k. k \<le> p) es = Some e" "p < fst e + length (snd e)"
    using assms(2) by (auto simp: covering_def split: option.splits if_splits)
  then show ?thesis using last_entry_sorted(1)[OF wb_inv_sorted[OF assms(1)] l(1)] by (simp add: covers_def)
qed

lemma covering_None:
  assumes i: "wb_inv es" and n: "covering es p = None" and e: "e \<in> set es"
  shows "\<not> covers e p"
proof
  assume c: "covers e p"
  have s: "bt_sorted es" by (rule wb_inv_sorted[OF i])
  have "last_entry (\<lambda>k. k \<le> p) es \<noteq> None" using last_entry_sorted(2)[OF s _ e, of "\<lambda>k. k \<le> p"] c unfolding covers_def by blast
  then obtain l where l: "last_entry (\<lambda>k. k \<le> p) es = Some l" by blast
  then have m: "l \<in> set es" "fst l \<le> p" "fst e \<le> fst l" using last_entry_sorted(1)[OF s l] e c by (auto simp: covers_def)
  then have "e = l" using wb_inv_apart[OF i e m(1)] c by (auto simp: covers_def)
  then show False using n l c by (auto simp: covering_def covers_def split: prod.splits)
qed

lemma gap_bytes_view:
  assumes "a \<le> b" "\<And>p. a \<le> p \<Longrightarrow> p < b \<Longrightarrow> f p = None"
  shows "gap_bytes (b - a) (take (b - a) (drop a base)) = map (view f base) [a..<b]"
proof (rule nth_equalityI)
  fix k assume "k < length (gap_bytes (b - a) (take (b - a) (drop a base)))"
  then have k: "a + k < b" using assms(1) by (auto simp: gap_bytes_def split: if_splits)
  have "f (a + k) = None" using assms(2) k by simp
  then show "gap_bytes (b - a) (take (b - a) (drop a base)) ! k = map (view f base) [a..<b] ! k"
    using k by (auto simp: gap_bytes_def view_def nth_append less_diff_conv add.commute)
qed (auto simp: gap_bytes_def)

lemma extent_view:
  assumes "fst e \<le> a" "a \<le> b" "b \<le> fst e + length (snd e)" "\<And>p. a \<le> p \<Longrightarrow> p < b \<Longrightarrow> f p = Some (snd e ! (p - fst e))"
  shows "take (b - a) (drop (a - fst e) (snd e)) = map (view f base) [a..<b]"
proof (rule nth_equalityI)
  fix k assume "k < length (take (b - a) (drop (a - fst e) (snd e)))"
  then have k: "a + k < b" by auto
  have "f (a + k) = Some (snd e ! (a + k - fst e))" by (rule assms(4)) (use k in simp_all)
  then have v: "map (view f base) [a..<b] ! k = snd e ! (a + k - fst e)" using k by (simp add: view_def)
  have "take (b - a) (drop (a - fst e) (snd e)) ! k = snd e ! (a - fst e + k)"
    using k assms(1,2,3) by (subst nth_take) (auto intro: nth_drop)
  also have "a - fst e + k = a + k - fst e" using assms(1) by simp
  finally show "take (b - a) (drop (a - fst e) (snd e)) ! k = map (view f base) [a..<b] ! k" using v by (rule trans[OF _ sym])
qed (use assms(1,2,3) in simp)

lemma read_loop_correct:
  assumes i: "wb_inv es"
  shows "fin - pos < fuel \<Longrightarrow> read_loop fuel es (base_read base :: nat \<Rightarrow> nat \<Rightarrow> 'e + bytes) pos fin out = Some (Inr (out @ map (view (ov es) base) [pos..<fin]))"
proof (induction fuel arbitrary: pos out)
  case (Suc fuel)
  let ?rd = "base_read base :: nat \<Rightarrow> nat \<Rightarrow> 'e + bytes"
  have up: "map (view (ov es) base) [pos..<q] @ map (view (ov es) base) [q..<fin] = map (view (ov es) base) [pos..<fin]"
    if "pos \<le> q" "q \<le> fin" for q using that by (metis le_Suc_ex map_append upt_add_eq_append)
  show ?case
  proof (cases "fin \<le> pos")
    case False
    show ?thesis
    proof (cases "covering es pos")
      case (Some e)
      let ?q = "min (fst e + length (snd e)) fin"
      have e: "e \<in> set es" "covers e pos" using covering_Some[OF i Some] by auto
      have q: "fst e \<le> pos" "pos < ?q" "?q \<le> fin" "?q \<le> fst e + length (snd e)" using e(2) False by (auto simp: covers_def)
      have to: "min (min (fst e + length (snd e)) fin - fst e) (length (snd e)) = ?q - fst e" "fst e + (pos - fst e) = pos" "fst e + (?q - fst e) = ?q"
        using q by auto
      have x: "take (?q - pos) (drop (pos - fst e) (snd e)) = map (view (ov es) base) [pos..<?q]"
        using q by (intro extent_view ov_at[OF i e(1)]) (auto simp: covers_def)
      have "read_loop (Suc fuel) es ?rd pos fin out = read_loop fuel es ?rd ?q fin (out @ map (view (ov es) base) [pos..<?q])"
        using False by (simp add: Some Let_def to x del: min_def)
      also have "\<dots> = Some (Inr ((out @ map (view (ov es) base) [pos..<?q]) @ map (view (ov es) base) [?q..<fin]))"
        using Suc.prems q by (intro Suc.IH) linarith
      finally show ?thesis using up[of ?q] q by simp
    next
      case None
      define q where "q = min (case first_entry (\<lambda>k. pos \<le> k) es of Some e \<Rightarrow> fst e | None \<Rightarrow> fin) fin"
      have s: "bt_sorted es" by (rule wb_inv_sorted[OF i])
      have nc: "\<not> covers e pos" if "e \<in> set es" for e by (rule covering_None[OF i None that])
      have "fst e \<noteq> pos" if "e \<in> set es" for e
        using nc[OF that] i that unfolding wb_inv_def covers_def by auto
      then have "pos < fst e" if "first_entry (\<lambda>k. pos \<le> k) es = Some e" for e
        using first_entry_sorted(1)[OF s that] by (metis le_neq_implies_less)
      then have q: "pos < q" "q \<le> fin" using False by (auto simp: q_def split: option.split)
      have g: "ov es p = None" if "pos \<le> p" "p < q" for p
        unfolding ov_None
      proof
        fix e assume e: "e \<in> set es"
        show "\<not> covers e p"
        proof (cases "pos \<le> fst e")
          case True
          then obtain f where f: "first_entry (\<lambda>k. pos \<le> k) es = Some f" using first_entry_sorted(2)[OF s _ e, of "\<lambda>k. pos \<le> k"] by blast
          then have "fst f \<le> fst e" using first_entry_sorted(1)[OF s f] e True by blast
          then have "q \<le> fst e" using f by (simp add: q_def)
          then show ?thesis using that by (simp add: covers_def)
        qed (use nc[OF e] that in \<open>auto simp: covers_def\<close>)
      qed
      have x: "gap_bytes (q - pos) (take (q - pos) (drop pos base)) = map (view (ov es) base) [pos..<q]"
        using q g by (intro gap_bytes_view) auto
      have "read_loop (Suc fuel) es ?rd pos fin out = read_loop fuel es ?rd q fin (out @ map (view (ov es) base) [pos..<q])"
        using False by (simp add: None Let_def q_def[symmetric] base_read_def[of base pos] x)
      also have "\<dots> = Some (Inr ((out @ map (view (ov es) base) [pos..<q]) @ map (view (ov es) base) [q..<fin]))"
        using Suc.prems q by (intro Suc.IH) linarith
      finally show ?thesis using up[of q] q by simp
    qed
  qed simp
qed simp

lemma resize_view: "resize n (take n (drop off base)) = map (view (\<lambda>_. None) base) [off..<off + n]"
  by (rule nth_equalityI) (auto simp: resize_def view_def nth_append)

lemma resize_id: "(if length b \<noteq> n then resize n b else b) = resize n b"
  by (auto simp: resize_def)

text \<open>The window of a read leaves 64 bits: it starts inside the file and is not empty.\<close>

definition window_overflows :: "nat \<Rightarrow> nat \<Rightarrow> nat \<Rightarrow> bool" where
  "window_overflows n off sz \<longleftrightarrow> sz \<noteq> 0 \<and> off < n \<and> 2 ^ 64 \<le> off + sz"

lemma read_through_correct:
  assumes "wb_inv (wb_ranges c)"
  shows "read_through off sz (base_read base) c =
         Some (if window_overflows (wb_len c) off sz then Inl (Panic ''attempt to add with overflow'')
               else Inr (Inr (map (view (ov (wb_ranges c)) base) [off..<min (off + sz) (wb_len c)])))"
proof (cases "sz = 0 \<or> wb_len c \<le> off")
  case False
  show ?thesis
  proof (cases "2 ^ 64 \<le> off + sz")
    case True
    then show ?thesis using False by (simp add: read_through_def window_overflows_def)
  next
    case v: False
    have w: "\<not> window_overflows (wb_len c) off sz" using v by (simp add: window_overflows_def)
    show ?thesis
    proof (cases "wb_ranges c = []")
      case True
      let ?n = "min (off + sz) (wb_len c) - off"
      have n: "off + ?n = min (off + sz) (wb_len c)" and o: "ov (wb_ranges c) = (\<lambda>_. None)" using False True by auto
      have "read_through off sz (base_read base) c = Some (Inr (Inr (resize ?n (take ?n (drop off base)))))"
        unfolding read_through_def Let_def base_read_def if_not_P[OF False] if_not_P[OF v] if_P[OF True] sum.case resize_id ..
      then show ?thesis unfolding if_not_P[OF w] by (simp only: resize_view n o)
    next
      case r: False
      show ?thesis
        unfolding read_through_def Let_def if_not_P[OF False] if_not_P[OF v] if_not_P[OF r] if_not_P[OF w]
        by (subst read_loop_correct[OF assms]) simp_all
    qed
  qed
qed (auto simp: read_through_def window_overflows_def)

section \<open>Any sequence of writes and truncations\<close>

datatype wb_op = WbWrite u64 bytes | WbTruncate u64

primrec wb_step :: "wb_op \<Rightarrow> wb_cache \<Rightarrow> wb_cache result" where
  "wb_step (WbWrite off data) c = wb_write (unat off) data c"
| "wb_step (WbTruncate n) c = Inr (wb_truncate (unat n) c)"

primrec wb_run :: "wb_op list \<Rightarrow> wb_cache \<Rightarrow> wb_cache result" where
  "wb_run [] c = Inr c"
| "wb_run (op # ops) c = bind_r (wb_step op c) (wb_run ops)"

text \<open>The specification: the logical length and the bytes written, and when a write ends within 64 bits.\<close>

primrec spec_step :: "wb_op \<Rightarrow> nat \<times> (nat \<rightharpoonup> u8) \<Rightarrow> nat \<times> (nat \<rightharpoonup> u8)" where
  "spec_step (WbWrite off data) s = (if data = [] then fst s else max (fst s) (unat off + length data), over (unat off) data (snd s))"
| "spec_step (WbTruncate n) s = (unat n, upto (unat n) (snd s))"

primrec op_fits :: "wb_op \<Rightarrow> bool" where
  "op_fits (WbWrite off data) \<longleftrightarrow> data = [] \<or> unat off + length data < 2 ^ 64"
| "op_fits (WbTruncate n) \<longleftrightarrow> True"

definition cache_is :: "wb_cache \<Rightarrow> nat \<times> (nat \<rightharpoonup> u8) \<Rightarrow> bool" where
  "cache_is c s \<longleftrightarrow> wb_inv (wb_ranges c) \<and> ov (wb_ranges c) = snd s \<and> wb_len c = fst s \<and> (\<forall>p. snd s p \<noteq> None \<longrightarrow> p < fst s)
     \<and> fst s < 2 ^ 64 \<and> (wb_dirty c \<or> wb_ranges c = [])"

lemma cache_is_step:
  assumes "cache_is c s" "op_fits op"
  shows "\<exists>c'. wb_step op c = Inr c' \<and> cache_is c' (spec_step op s)"
proof -
  have i: "wb_inv (wb_ranges c)" "ov (wb_ranges c) = snd s" "wb_len c = fst s" and b: "\<And>p. snd s p \<noteq> None \<Longrightarrow> p < fst s"
    using assms by (simp_all add: cache_is_def)
  show ?thesis
  proof (cases op)
    case (WbWrite off data)
    show ?thesis
    proof (cases "data = []")
      case True
      then have "over (unat off) data (snd s) = snd s" by (auto simp: over_def fun_eq_iff)
      then show ?thesis using assms True by (simp add: WbWrite wb_write_def)
    next
      case d: False
      have "p < max (fst s) (unat off + length data)" if "over (unat off) data (snd s) p \<noteq> None" for p
        using that b[of p] by (auto simp: over_def less_max_iff_disj split: if_splits)
      then have "cache_is (wb_put (unat off) data (unat off + length data) c) (spec_step op s)"
        using wb_put_correct[OF i(1) d, of "unat off"] assms d by (simp add: cache_is_def WbWrite i)
      moreover have "wb_step op c = Inr (wb_put (unat off) data (unat off + length data) c)"
        using assms(2) d by (simp add: WbWrite wb_write_def)
      ultimately show ?thesis by blast
    qed
  next
    case (WbTruncate n)
    have "wb_dirty (wb_truncate (unat n) c)" by (simp add: wb_truncate_def Let_def)
    then show ?thesis
      using wb_truncate_correct[OF i(1), of "unat n"] unat_lt2p[of n] by (simp add: cache_is_def WbTruncate i upto_def)
  qed
qed

lemma cache_is_run:
  "cache_is c s \<Longrightarrow> list_all op_fits ops \<Longrightarrow> \<exists>c'. wb_run ops c = Inr c' \<and> cache_is c' (fold spec_step ops s)"
proof (induction ops arbitrary: c s)
  case (Cons op ops)
  then obtain c1 where "wb_step op c = Inr c1" "cache_is c1 (spec_step op s)" using cache_is_step[of c s op] by auto
  then show ?case using Cons.IH[of c1 "spec_step op s"] Cons.prems(2) by simp
qed simp

lemma run_overflows:
  "cache_is c s \<Longrightarrow> \<not> list_all op_fits ops \<Longrightarrow> wb_run ops c = Inl (Panic ''attempt to add with overflow'')"
proof (induction ops arbitrary: c s)
  case (Cons op ops)
  show ?case
  proof (cases "op_fits op")
    case True
    then obtain c1 where "wb_step op c = Inr c1" "cache_is c1 (spec_step op s)" using cache_is_step[OF Cons.prems(1)] by blast
    then show ?thesis using Cons.IH Cons.prems(2) True by simp
  next
    case False
    then show ?thesis by (cases op) (simp_all add: wb_write_def)
  qed
qed simp

lemma extents_bounded:
  assumes "cache_is c s" "e \<in> set (wb_ranges c)"
  shows "fst e + length (snd e) \<le> fst s"
proof -
  have i: "wb_inv (wb_ranges c)" "ov (wb_ranges c) = snd s" using assms(1) by (simp_all add: cache_is_def)
  have ne: "snd e \<noteq> []" using i(1) assms(2) by (simp add: wb_inv_def)
  then have "covers e (fst e + (length (snd e) - 1))" by (simp add: covers_def)
  then have "snd s (fst e + (length (snd e) - 1)) \<noteq> None" using ov_at[OF i(1) assms(2)] i(2) by auto
  then have "fst e + (length (snd e) - 1) < fst s" using assms(1) by (auto simp: cache_is_def)
  then show ?thesis using ne by (cases "snd e") auto
qed

text \<open>C33. Take a handle opened on a file of a 64-bit length and any sequence of writes and truncations at 64-bit positions. If some
  write of at least one byte would end at \<open>2 ^ 64\<close> or later, the sequence panics on the overflow of that sum. Otherwise all of it goes
  through, the logical length stays below \<open>2 ^ 64\<close>, and a read at any position for any 32-bit size returns, for the requested window cut
  at the logical length, the last byte written at each position or else the byte of the base (zero past its end); the one exception is a
  non-empty window that starts inside the file and ends at \<open>2 ^ 64\<close> or later, where the read panics instead of cutting it. The extents
  handed out for flushing hold exactly the written bytes, are apart from each other, and none ends past the logical length.\<close>

theorem handle_reads_exact:
  fixes base_len off :: u64 and sz :: u32
  shows
  "let (n, f) = fold spec_step ops (unat base_len, \<lambda>_. None)
   in if list_all op_fits ops
      then \<exists>c. wb_run ops (wb_new (unat base_len)) = Inr c \<and> wb_len c = n \<and> n < 2 ^ 64
           \<and> read_through (unat off) (unat sz) (base_read base) c =
               Some (if window_overflows n (unat off) (unat sz) then Inl (Panic ''attempt to add with overflow'')
                     else Inr (Inr (map (view f base) [unat off..<min (unat off + unat sz) n])))
           \<and> ov (wb_ranges c) = f \<and> sorted_wrt (\<lambda>a b. fst a + length (snd a) < fst b) (wb_ranges c)
           \<and> list_all (\<lambda>e. snd e \<noteq> [] \<and> fst e + length (snd e) \<le> n) (wb_ranges c)
           \<and> (fst (take_dirty_ranges c) = Some (wb_ranges c) \<or> wb_ranges c = [])
      else wb_run ops (wb_new (unat base_len)) = Inl (Panic ''attempt to add with overflow'')"
proof -
  obtain n f where s: "fold spec_step ops (unat base_len, \<lambda>_. None) = (n, f)" by (cases "fold spec_step ops (unat base_len, \<lambda>_. None)")
  have ci: "cache_is (wb_new (unat base_len)) (unat base_len, \<lambda>_. None)"
    using unat_lt2p[of base_len] by (auto simp: cache_is_def wb_new_def)
  show ?thesis
  proof (cases "list_all op_fits ops")
    case True
    from cache_is_run[OF ci True] obtain c where c: "wb_run ops (wb_new (unat base_len)) = Inr c" "cache_is c (n, f)" unfolding s by blast
    have i: "wb_inv (wb_ranges c)" "ov (wb_ranges c) = f" "wb_len c = n" "n < 2 ^ 64" "wb_dirty c \<or> wb_ranges c = []"
      using c(2) by (simp_all add: cache_is_def)
    have "list_all (\<lambda>e. snd e \<noteq> [] \<and> fst e + length (snd e) \<le> n) (wb_ranges c)"
      using extents_bounded[OF c(2)] i(1) by (auto simp: list_all_iff wb_inv_def)
    moreover have "fst (take_dirty_ranges c) = Some (wb_ranges c) \<or> wb_ranges c = []" using i(5) by (auto simp: take_dirty_ranges_def)
    moreover have "sorted_wrt (\<lambda>a b. fst a + length (snd a) < fst b) (wb_ranges c)" using i(1) by (simp add: wb_inv_def)
    ultimately show ?thesis unfolding s Let_def prod.case if_P[OF True]
      using c(1) i(2-4) read_through_correct[OF i(1), of "unat off" "unat sz" base, unfolded i(2,3)] by blast
  qed (use run_overflows[OF ci] in \<open>simp add: s\<close>)
qed

end
