(* ===== verification/Retention.thy ===== *)
theory Retention
  imports Backend Crypto "HOL-Library.AList" "HOL-Library.Signed_Division"
begin

text \<open>
  Superseded blocks in the eviction tail: their self-describing form (\<^verbatim>\<open>EvictedBlock\<close> of \<^verbatim>\<open>sfs-core/src/version/store.rs\<close>), the
  scan of the tail, and the strategies that thin it out (\<^verbatim>\<open>sfs-core/src/retention.rs\<close>). Shown are what the scan finds, including
  images of blocks inside the payload of another block, and exactly which blocks each strategy drops.
\<close>

section \<open>Evicted blocks\<close>

definition EVICT_MAGIC :: bytes where
  "EVICT_MAGIC = [115, 102, 115, 101, 0, 98, 50, 0]"

definition EVICT_HEADER_SIZE :: nat where
  "EVICT_HEADER_SIZE = 8 + 16 + 4 + 4 + 8 + 4 + 8 + 8 + 8"

record evicted_block =
  eb_uuid :: bytes
  eb_frag :: u32
  eb_length :: u32
  eb_old_version :: u64
  eb_commits :: "bytes list"
  eb_bytes :: bytes
  eb_timestamp :: u64
  eb_inplace_addr :: u64
  eb_target_commit_seq :: u64

definition eb_header :: "evicted_block \<Rightarrow> bytes" where
  "eb_header e =
     EVICT_MAGIC @ eb_uuid e @ u32_to_le (eb_frag e) @ u32_to_le (eb_length e) @ u64_to_le (eb_old_version e)
     @ u32_to_le (word_of_nat (length (eb_commits e))) @ u64_to_le (eb_timestamp e) @ u64_to_le (eb_inplace_addr e)
     @ u64_to_le (eb_target_commit_seq e)"

definition eb_encode :: "prims \<Rightarrow> evicted_block \<Rightarrow> bytes" where
  "eb_encode P e = (let out = eb_header e @ concat (eb_commits e) @ eb_bytes e in out @ u32_to_le (p_crc32 P out))"

definition eb_read_commits :: "nat \<Rightarrow> bytes \<Rightarrow> nat \<Rightarrow> bytes list" where
  "eb_read_commits commits_count buf off = chunks_at 16 commits_count buf off"

definition eb_decode :: "prims \<Rightarrow> bytes \<Rightarrow> nat \<Rightarrow> evicted_block result" where
  "eb_decode P buf byte_len =
     (let min_total = EVICT_HEADER_SIZE + byte_len + 4 in
      if 2 ^ 64 \<le> min_total then Inl (Integrity ''evicted block length overflow'')
      else if length buf < min_total then Inl (Integrity ''evicted block buffer too short'')
      else if take 8 buf \<noteq> EVICT_MAGIC then Inl (Integrity ''evicted block: bad magic'')
      else let len = u32_from_le (slice 28 4 buf); commits_count = unat (u32_from_le (slice 40 4 buf)) in
      if unat len \<noteq> byte_len then Inl (Integrity ''evicted block: stored length'')
      else let total = EVICT_HEADER_SIZE + 16 * commits_count + byte_len + 4 in
      if 2 ^ 64 \<le> total then Inl (Integrity ''evicted block total size overflow'')
      else if length buf < total then Inl (Integrity ''evicted block buffer too short for commits'')
      else if u32_from_le (slice (total - 4) 4 buf) \<noteq> p_crc32 P (take (total - 4) buf)
      then Inl (Integrity ''evicted block: CRC mismatch'')
      else Inr \<lparr>eb_uuid = slice 8 16 buf, eb_frag = u32_from_le (slice 24 4 buf), eb_length = len,
                eb_old_version = u64_from_le (slice 32 8 buf),
                eb_commits = eb_read_commits commits_count buf EVICT_HEADER_SIZE,
                eb_bytes = slice (EVICT_HEADER_SIZE + 16 * commits_count) byte_len buf,
                eb_timestamp = u64_from_le (slice 44 8 buf), eb_inplace_addr = u64_from_le (slice 52 8 buf),
                eb_target_commit_seq = u64_from_le (slice 60 8 buf)\<rparr>)"

section \<open>The scan of the tail\<close>

record scanned_block =
  sb_uuid :: bytes
  sb_frag :: u32
  sb_length :: u32
  sb_old_version :: u64
  sb_commits :: "bytes list"
  sb_loc_addr :: nat
  sb_encoded_len :: u32
  sb_timestamp :: u64
  sb_inplace_addr :: u64
  sb_target_commit_seq :: u64

text \<open>What one aligned slot holds, \<open>None\<close> when the slot is skipped.\<close>

definition tail_slot :: "prims \<Rightarrow> backend \<Rightarrow> nat \<Rightarrow> nat \<Rightarrow> scanned_block option" where
  "tail_slot P b container_len addr =
     (case bk_read_at b addr 8 of
        Inl _ \<Rightarrow> None
      | Inr magic \<Rightarrow>
          if magic \<noteq> EVICT_MAGIC then None
          else case bk_read_at b addr EVICT_HEADER_SIZE of
            Inl _ \<Rightarrow> None
          | Inr fixed_hdr \<Rightarrow>
              let len = unat (u32_from_le (slice 28 4 fixed_hdr)); commits_count = unat (u32_from_le (slice 40 4 fixed_hdr));
                  total = EVICT_HEADER_SIZE + 16 * commits_count + len + 4
              in if container_len < addr + total then None
                 else case bk_read_at b addr total of
                   Inl _ \<Rightarrow> None
                 | Inr buf \<Rightarrow>
                     (case eb_decode P buf len of
                        Inl _ \<Rightarrow> None
                      | Inr e \<Rightarrow> Some \<lparr>sb_uuid = eb_uuid e, sb_frag = eb_frag e, sb_length = eb_length e,
                                       sb_old_version = eb_old_version e, sb_commits = eb_commits e, sb_loc_addr = addr,
                                       sb_encoded_len = word_of_nat total, sb_timestamp = eb_timestamp e,
                                       sb_inplace_addr = eb_inplace_addr e, sb_target_commit_seq = eb_target_commit_seq e\<rparr>))"

function tail_loop :: "prims \<Rightarrow> backend \<Rightarrow> nat \<Rightarrow> nat \<Rightarrow> scanned_block list" where
  "tail_loop P b container_len addr =
     (if addr + BASE_BLOCK \<le> container_len
      then (case tail_slot P b container_len addr of Some s \<Rightarrow> [s] | None \<Rightarrow> []) @ tail_loop P b container_len (addr + BASE_BLOCK)
      else [])"
  by pat_completeness auto
termination
  by (relation "measure (\<lambda>(P, b, len, addr). len - addr)") (auto simp: BASE_BLOCK_def)

declare tail_loop.simps [simp del]

definition scan_eviction_tail :: "prims \<Rightarrow> backend \<Rightarrow> nat \<Rightarrow> nat \<Rightarrow> scanned_block list result" where
  "scan_eviction_tail P b tail_low container_len =
     (if container_len \<le> tail_low then Inr [] else Inr (tail_loop P b container_len tail_low))"

section \<open>Undo of uncommitted overwrites\<close>

definition round_up_block :: "nat \<Rightarrow> nat" where
  "round_up_block n = (if n = 0 then BASE_BLOCK else (n + BASE_BLOCK - 1) div BASE_BLOCK * BASE_BLOCK)"

text \<open>The bytes followed by zeros up to the end of the block.\<close>

definition pad_block :: "bytes \<Rightarrow> bytes" where
  "pad_block bs = bs @ replicate (round_up_block (length bs) - length bs) 0"

text \<open>The last loop of \<^verbatim>\<open>rebuild_allocator\<close>: a block of the tail that was overwritten in place by a commit that never
  happened is written back.\<close>

primrec undo_loop :: "prims \<Rightarrow> u64 \<Rightarrow> scanned_block list \<Rightarrow> backend \<Rightarrow> bool result \<times> backend" where
  "undo_loop P active_seq [] b = (Inr False, b)"
| "undo_loop P active_seq (s # ss) b =
     (if sb_inplace_addr s \<noteq> 0 \<and> active_seq < sb_target_commit_seq s
      then case bk_read_at b (sb_loc_addr s) (unat (sb_encoded_len s)) of
             Inl e \<Rightarrow> (Inl e, b)
           | Inr buf \<Rightarrow>
               (case eb_decode P buf (unat (sb_length s)) of
                  Inl e \<Rightarrow> (Inl e, b)
                | Inr ev \<Rightarrow>
                    (case bk_write_at b (unat (sb_inplace_addr s)) (pad_block (eb_bytes ev)) of
                       Inl e \<Rightarrow> (Inl e, b)
                     | Inr b' \<Rightarrow> (case undo_loop P active_seq ss b' of
                                   (Inr _, b'') \<Rightarrow> (Inr True, b'')
                                 | (Inl e, b'') \<Rightarrow> (Inl e, b''))))
      else undo_loop P active_seq ss b)"

section \<open>Strategies\<close>

definition SECS_PER_HOUR :: int where "SECS_PER_HOUR = 3600"
definition SECS_PER_DAY :: int where "SECS_PER_DAY = 86400"
definition SECS_PER_MONTH :: int where "SECS_PER_MONTH = 30 * SECS_PER_DAY"
definition SECS_PER_YEAR :: int where "SECS_PER_YEAR = 365 * SECS_PER_DAY"

record schedule =
  keep_all_secs :: int
  hourly_secs :: int
  daily_secs :: int
  monthly_secs :: int

definition DEFAULT_SCHEDULE :: schedule where
  "DEFAULT_SCHEDULE = \<lparr>keep_all_secs = SECS_PER_HOUR, hourly_secs = 24 * SECS_PER_HOUR, daily_secs = 14 * SECS_PER_DAY,
                       monthly_secs = SECS_PER_YEAR\<rparr>"

datatype bucket_key = FullRes int | Hour int | Day int | Month int | Year int

definition bucket :: "schedule \<Rightarrow> int \<Rightarrow> int \<Rightarrow> bucket_key" where
  "bucket sc age ts =
     (if age < keep_all_secs sc then FullRes ts
      else if age < hourly_secs sc then Hour (ts sdiv SECS_PER_HOUR)
      else if age < daily_secs sc then Day (ts sdiv SECS_PER_DAY)
      else if age < monthly_secs sc then Month (ts sdiv SECS_PER_MONTH)
      else Year (ts sdiv SECS_PER_YEAR))"

datatype eviction_strategy = TimeMachine schedule | KeepAll | Horizon int

definition to_eviction_code :: "eviction_strategy \<Rightarrow> u8" where
  "to_eviction_code st = (case st of TimeMachine _ \<Rightarrow> 0 | KeepAll \<Rightarrow> 1 | Horizon _ \<Rightarrow> 2)"

definition from_eviction_code :: "u8 \<Rightarrow> eviction_strategy" where
  "from_eviction_code c = (if c = 0 then TimeMachine DEFAULT_SCHEDULE else if c = 1 then KeepAll
                           else if c = 2 then Horizon SECS_PER_DAY else KeepAll)"

definition is_pinned :: "scanned_block \<Rightarrow> bool" where
  "is_pinned b \<longleftrightarrow> sb_commits b \<noteq> []"

text \<open>\<^verbatim>\<open>i64::saturating_sub\<close>.\<close>

definition saturating_sub :: "int \<Rightarrow> int \<Rightarrow> int" where
  "saturating_sub a b = max (- (2 ^ 63)) (min (2 ^ 63 - 1) (a - b))"

definition age_of :: "u64 \<Rightarrow> scanned_block \<Rightarrow> int" where
  "age_of now b = saturating_sub (sint now) (sint (sb_timestamp b))"

type_synonym bucket_map = "(bucket_key \<times> int \<times> nat) list"
type_synonym groups = "((bytes \<times> u32) \<times> bucket_map) list"

definition group_step :: "schedule \<Rightarrow> u64 \<Rightarrow> nat \<times> scanned_block \<Rightarrow> groups \<Rightarrow> groups" where
  "group_step sc now ib gs =
     (let (i, b) = ib in
      if is_pinned b then gs
      else let ts = sint (sb_timestamp b); k = (sb_uuid b, sb_frag b); bk = bucket sc (age_of now b) ts;
               bm = (case map_of gs k of Some m \<Rightarrow> m | None \<Rightarrow> []);
               entry = (case map_of bm bk of Some e \<Rightarrow> e | None \<Rightarrow> (- (2 ^ 63), i));
               entry' = (if fst entry < ts then (ts, i) else entry)
           in AList.update k (AList.update bk entry' bm) gs)"

definition winners :: "groups \<Rightarrow> nat list" where
  "winners gs = concat (map (\<lambda>(k, bm). map (\<lambda>(bk, ts, i). i) bm) gs)"

definition apply_strategy :: "scanned_block list \<Rightarrow> eviction_strategy \<Rightarrow> u64 \<Rightarrow> nat list" where
  "apply_strategy blocks st now =
     (case st of
        KeepAll \<Rightarrow> []
      | Horizon keep \<Rightarrow> map fst (filter (\<lambda>(i, b). \<not> is_pinned b \<and> keep \<le> age_of now b) (enumerate 0 blocks))
      | TimeMachine sc \<Rightarrow>
          let ws = winners (fold (group_step sc now) (enumerate 0 blocks) [])
          in map fst (filter (\<lambda>(i, b). \<not> is_pinned b \<and> i \<notin> set ws) (enumerate 0 blocks)))"

definition apply_strategy_ignoring_pins :: "scanned_block list \<Rightarrow> eviction_strategy \<Rightarrow> u64 \<Rightarrow> nat list" where
  "apply_strategy_ignoring_pins blocks st now = apply_strategy (map (\<lambda>b. b\<lparr>sb_commits := []\<rparr>) blocks) st now"

section \<open>Decoding inverts encoding\<close>

definition eb_ok :: "evicted_block \<Rightarrow> bool" where
  "eb_ok e \<longleftrightarrow> length (eb_uuid e) = 16 \<and> list_all (\<lambda>c. length c = 16) (eb_commits e) \<and> length (eb_commits e) < 2 ^ 32
     \<and> length (eb_bytes e) = unat (eb_length e)"

lemma EVICT_MAGIC_length [simp]: "length EVICT_MAGIC = 8"
  by (simp add: EVICT_MAGIC_def)

lemma eb_header_length: "eb_ok e \<Longrightarrow> length (eb_header e) = 68"
  by (simp add: eb_header_def eb_ok_def)

lemma eb_encode_length: "eb_ok e \<Longrightarrow> length (eb_encode P e) = 72 + 16 * length (eb_commits e) + length (eb_bytes e)"
  by (simp add: eb_encode_def Let_def eb_header_length length_concat_width eb_ok_def)

lemma eb_header_fields:
  assumes "eb_ok e"
  shows "take 8 (eb_header e) = EVICT_MAGIC" "slice 8 16 (eb_header e) = eb_uuid e" "u32_from_le (slice 24 4 (eb_header e)) = eb_frag e"
    "u32_from_le (slice 28 4 (eb_header e)) = eb_length e" "u64_from_le (slice 32 8 (eb_header e)) = eb_old_version e"
    "unat (u32_from_le (slice 40 4 (eb_header e))) = length (eb_commits e)" "u64_from_le (slice 44 8 (eb_header e)) = eb_timestamp e"
    "u64_from_le (slice 52 8 (eb_header e)) = eb_inplace_addr e" "u64_from_le (slice 60 8 (eb_header e)) = eb_target_commit_seq e"
  using assms by (simp_all add: eb_header_def eb_ok_def slice_append_skip slice_append_exact slice_all unat_of_nat)

lemma eb_decode_encode:
  assumes e: "eb_ok e" and fit: "length (eb_encode P e) < 2 ^ 64"
  shows "eb_decode P (eb_encode P e @ rest) (length (eb_bytes e)) = Inr e"
proof -
  let ?out = "eb_header e @ concat (eb_commits e) @ eb_bytes e"
  let ?n = "72 + 16 * length (eb_commits e) + length (eb_bytes e)"
  have hl: "length (eb_header e) = 68" by (rule eb_header_length[OF e])
  have cl: "length (concat (eb_commits e)) = 16 * length (eb_commits e)" using e by (simp add: eb_ok_def length_concat_width)
  have enc: "eb_encode P e @ rest = ?out @ u32_to_le (p_crc32 P ?out) @ rest" by (simp add: eb_encode_def Let_def)
  have n: "?n < 2 ^ 64" using fit eb_encode_length[OF e] by simp
  have h: "slice a m (eb_encode P e @ rest) = slice a m (eb_header e)" if "a + m \<le> 68" for a m
    unfolding enc using that hl by (simp add: slice_append_left)
  have mg: "take 8 (eb_encode P e @ rest) = EVICT_MAGIC"
    unfolding take_as_slice h[of 0 8, simplified] by (simp add: take_as_slice[symmetric] eb_header_fields[OF e])
  have cr: "slice (?n - 4) 4 (eb_encode P e @ rest) = u32_to_le (p_crc32 P ?out)"
    unfolding enc using hl cl by (simp add: slice_append_skip slice_append_exact)
  have tk: "take (?n - 4) (eb_encode P e @ rest) = ?out" unfolding enc using hl cl by simp
  have bs: "slice (68 + 16 * length (eb_commits e)) (length (eb_bytes e)) (eb_encode P e @ rest) = eb_bytes e"
    unfolding enc using hl cl by (simp add: slice_append_skip slice_append_exact)
  have cs: "eb_read_commits (length (eb_commits e)) (eb_encode P e @ rest) 68 = eb_commits e"
    using chunks_at_here[of 16 "eb_commits e" "eb_header e" "eb_bytes e @ u32_to_le (p_crc32 P ?out) @ rest"] e hl
    unfolding enc by (simp add: eb_ok_def eb_read_commits_def)
  have lb: "?n \<le> length (eb_encode P e @ rest)" using eb_encode_length[OF e] by simp
  note hs = h[of 8 16, simplified] h[of 24 4, simplified] h[of 28 4, simplified] h[of 32 8, simplified] h[of 40 4, simplified]
    h[of 44 8, simplified] h[of 52 8, simplified] h[of 60 8, simplified]
  have ul: "unat (eb_length e) = length (eb_bytes e)" using e by (simp add: eb_ok_def)
  show ?thesis
    unfolding eb_decode_def Let_def EVICT_HEADER_SIZE_def
    using n mg cr tk bs cs lb ul by (simp add: hs eb_header_fields[OF e])
qed

section \<open>What the scan finds\<close>

definition scanned_at :: "evicted_block \<Rightarrow> nat \<Rightarrow> scanned_block" where
  "scanned_at e addr =
     \<lparr>sb_uuid = eb_uuid e, sb_frag = eb_frag e, sb_length = eb_length e, sb_old_version = eb_old_version e,
      sb_commits = eb_commits e, sb_loc_addr = addr,
      sb_encoded_len = word_of_nat (72 + 16 * length (eb_commits e) + length (eb_bytes e)), sb_timestamp = eb_timestamp e,
      sb_inplace_addr = eb_inplace_addr e, sb_target_commit_seq = eb_target_commit_seq e\<rparr>"

lemma tail_slot_finds:
  assumes b: "bk_ok b" and e: "eb_ok e" and l: "lies_at (bk_bytes b) addr (eb_encode P e)"
    and c: "addr + length (eb_encode P e) \<le> container_len"
  shows "tail_slot P b container_len addr = Some (scanned_at e addr)"
proof -
  let ?n = "72 + 16 * length (eb_commits e) + length (eb_bytes e)"
  have n: "length (eb_encode P e) = ?n" by (rule eb_encode_length[OF e])
  have fit: "addr + ?n \<le> bk_len b" using l b n by (simp add: lies_at_def bk_ok_def)
  then have f64: "length (eb_encode P e) < 2 ^ 64" using b n by (simp add: bk_ok_def)
  have all: "slice addr ?n (bk_bytes b) = eb_encode P e" using l n by (simp add: lies_at_def)
  have part: "slice addr m (bk_bytes b) = take m (eb_encode P e)" if "m \<le> ?n" for m
    using all that by (metis add_0 slice_slice take_as_slice add.right_neutral)
  have r: "bk_read_at b addr m = Inr (take m (eb_encode P e))" if "m \<le> ?n" for m
    using bk_read_at_ok[OF b, of addr m] fit part[OF that] that by simp
  have h68: "take 68 (eb_encode P e) = eb_header e" using eb_header_length[OF e] by (simp add: eb_encode_def Let_def)
  have h8: "take 8 (eb_encode P e) = EVICT_MAGIC" using eb_header_fields(1)[OF e] h68 by (metis min.absorb1 numeral_le_iff semiring_norm(68,69,70,71,72) take_take)
  have ul: "unat (eb_length e) = length (eb_bytes e)" using e by (simp add: eb_ok_def)
  have d: "eb_decode P (eb_encode P e) (length (eb_bytes e)) = Inr e" using eb_decode_encode[OF e f64, of "[]"] by simp
  have rn: "bk_read_at b addr ?n = Inr (eb_encode P e)" using r[of ?n] n by simp
  show ?thesis
    unfolding tail_slot_def EVICT_HEADER_SIZE_def
    using c n by (simp add: r h8 h68 eb_header_fields[OF e] ul Let_def rn[simplified] d scanned_at_def add.commute)
qed

lemma tail_loop_mem:
  "lo \<le> addr \<Longrightarrow> (addr - lo) mod BASE_BLOCK = 0 \<Longrightarrow> addr + BASE_BLOCK \<le> len \<Longrightarrow> tail_slot P b len addr = Some s \<Longrightarrow>
   s \<in> set (tail_loop P b len lo)"
proof (induction P b len lo rule: tail_loop.induct)
  case (1 P b len lo)
  show ?case
  proof (cases "lo = addr")
    case True
    then show ?thesis using "1.prems" by (subst tail_loop.simps) simp
  next
    case False
    obtain k where k: "addr - lo = BASE_BLOCK * k" using "1.prems"(2) by (meson mod_0_imp_dvd dvdE)
    then obtain j where j: "k = Suc j" using False "1.prems"(1) by (cases k) auto
    then have a: "lo + BASE_BLOCK \<le> addr" "addr - (lo + BASE_BLOCK) = BASE_BLOCK * j"
      using k "1.prems"(1) by simp_all
    have "s \<in> set (tail_loop P b len (lo + BASE_BLOCK))" using a "1.prems" by (intro "1.IH") auto
    then show ?thesis using a(1) "1.prems"(3) by (subst tail_loop.simps) simp
  qed
qed

lemma scan_finds:
  assumes "bk_ok b" "eb_ok e" "lies_at (bk_bytes b) addr (eb_encode P e)" "addr + length (eb_encode P e) \<le> container_len"
    and "lo \<le> addr" "(addr - lo) mod BASE_BLOCK = 0" "addr + BASE_BLOCK \<le> container_len"
  shows "\<exists>ss. scan_eviction_tail P b lo container_len = Inr ss \<and> scanned_at e addr \<in> set ss"
  using tail_loop_mem[OF assms(5,6,7) tail_slot_finds[OF assms(1-4)]] assms(5,7)
  by (auto simp: scan_eviction_tail_def BASE_BLOCK_def)

section \<open>What the undo restores\<close>

definition is_undo :: "u64 \<Rightarrow> evicted_block \<Rightarrow> bool" where
  "is_undo act e \<longleftrightarrow> eb_inplace_addr e \<noteq> 0 \<and> act < eb_target_commit_seq e"

definition undo_range :: "evicted_block \<Rightarrow> nat set" where
  "undo_range e = {unat (eb_inplace_addr e)..<unat (eb_inplace_addr e) + round_up_block (length (eb_bytes e))}"

text \<open>Blocks of the tail at their addresses, fit for the undo: they are stored, and what is written back lies inside the container,
  away from the tail blocks themselves, and two blocks for overlapping slots are for the same slot with the same bytes.\<close>

definition undo_ready :: "prims \<Rightarrow> u64 \<Rightarrow> (evicted_block \<times> nat) list \<Rightarrow> backend \<Rightarrow> bool" where
  "undo_ready P act es b \<longleftrightarrow>
     (\<forall>e a. (e, a) \<in> set es \<longrightarrow> eb_ok e \<and> length (eb_encode P e) < 2 ^ 32 \<and> lies_at (bk_bytes b) a (eb_encode P e))
     \<and> (\<forall>e a. (e, a) \<in> set es \<longrightarrow> is_undo act e \<longrightarrow> unat (eb_inplace_addr e) + round_up_block (length (eb_bytes e)) \<le> bk_len b)
     \<and> (\<forall>e a f c. (e, a) \<in> set es \<longrightarrow> (f, c) \<in> set es \<longrightarrow> is_undo act e \<longrightarrow> undo_range e \<inter> {c..<c + length (eb_encode P f)} = {})
     \<and> (\<forall>e a f c. (e, a) \<in> set es \<longrightarrow> (f, c) \<in> set es \<longrightarrow> is_undo act e \<longrightarrow> is_undo act f \<longrightarrow>
          (eb_inplace_addr f = eb_inplace_addr e \<and> eb_bytes f = eb_bytes e) \<or> undo_range e \<inter> undo_range f = {})"

lemma round_up_block_ge: "n \<le> round_up_block n"
proof (cases "n = 0")
  case False
  have "n \<le> (n + BASE_BLOCK - 1) div BASE_BLOCK * BASE_BLOCK"
    using div_mult_mod_eq[of "n + BASE_BLOCK - 1" BASE_BLOCK] mod_less_divisor[of BASE_BLOCK "n + BASE_BLOCK - 1"]
    by (simp add: BASE_BLOCK_def)
  then show ?thesis using False by (simp add: round_up_block_def)
qed (simp add: round_up_block_def)

lemma round_up_block_pos: "0 < round_up_block n"
  using round_up_block_ge[of n] by (cases "n = 0") (auto simp: round_up_block_def BASE_BLOCK_def)

lemma length_pad_block [simp]: "length (pad_block bs) = round_up_block (length bs)"
  using round_up_block_ge[of "length bs"] by (simp add: pad_block_def)

lemma lies_at_disjoint:
  assumes "lies_at dst a bs" "off + length src \<le> length dst" "{off..<off + length src} \<inter> {a..<a + length bs} = {}"
  shows "lies_at (splice off src dst) a bs"
proof (cases "bs = [] \<or> src = []")
  case True
  then show ?thesis using assms(1,2) by (auto simp: lies_at_def splice_def)
next
  case False
  then have "a + length bs \<le> off \<or> off + length src \<le> a"
    using assms(3) by (auto simp: disjoint_iff)
  then show ?thesis by (rule lies_at_splice_other[OF assms(1,2)])
qed

lemma undo_one:
  assumes b: "bk_ok b" and e: "eb_ok e" "length (eb_encode P e) < 2 ^ 32" "lies_at (bk_bytes b) a (eb_encode P e)"
  shows "bk_read_at b (sb_loc_addr (scanned_at e a)) (unat (sb_encoded_len (scanned_at e a))) = Inr (eb_encode P e)
    \<and> eb_decode P (eb_encode P e) (unat (sb_length (scanned_at e a))) = Inr e"
proof -
  let ?n = "72 + 16 * length (eb_commits e) + length (eb_bytes e)"
  have n: "length (eb_encode P e) = ?n" by (rule eb_encode_length[OF e(1)])
  have "unat (word_of_nat k :: u32) = k" if "k < 2 ^ 32" for k using that by (simp add: unat_of_nat)
  then have u: "unat (word_of_nat ?n :: u32) = ?n" using e(2) n by metis
  have "bk_read_at b a ?n = Inr (slice a ?n (bk_bytes b))" using e(3) b n by (intro bk_read_at_ok[OF b]) (simp add: lies_at_def bk_ok_def)
  moreover have "slice a ?n (bk_bytes b) = eb_encode P e" using e(3) n by (simp add: lies_at_def)
  moreover have "eb_decode P (eb_encode P e) (length (eb_bytes e)) = Inr e" using eb_decode_encode[OF e(1), of P "[]"] e(2) by simp
  ultimately show ?thesis using u e(1) by (simp add: scanned_at_def eb_ok_def)
qed

lemma undo_restores:
  assumes "bk_ok b" "undo_ready P act es b"
  shows "\<exists>u b'. undo_loop P act (map (\<lambda>(e, a). scanned_at e a) es) b = (Inr u, b') \<and> bk_ok b' \<and> bk_len b' = bk_len b
    \<and> (\<forall>e a. (e, a) \<in> set es \<longrightarrow> is_undo act e \<longrightarrow> lies_at (bk_bytes b') (unat (eb_inplace_addr e)) (pad_block (eb_bytes e)))
    \<and> (\<forall>a bs. lies_at (bk_bytes b) a bs \<longrightarrow> (\<forall>e c. (e, c) \<in> set es \<longrightarrow> is_undo act e \<longrightarrow> undo_range e \<inter> {a..<a + length bs} = {}) \<longrightarrow> lies_at (bk_bytes b') a bs)"
  using assms
proof (induction es arbitrary: b)
  case (Cons x es)
  obtain e a where x: "x = (e, a)" by (cases x)
  show ?case
  proof (cases "is_undo act e")
    case False
    have r: "undo_ready P act es b" using Cons.prems(2) unfolding undo_ready_def by (meson list.set_intros(2))
    have u: "\<not> (sb_inplace_addr (scanned_at e a) \<noteq> 0 \<and> act < sb_target_commit_seq (scanned_at e a))" using False by (simp add: is_undo_def scanned_at_def)
    show ?thesis using Cons.IH[OF Cons.prems(1) r] False by (simp add: x if_not_P[OF u] del: de_Morgan_conj)
  next
    case True
    let ?w = "unat (eb_inplace_addr e)" and ?p = "pad_block (eb_bytes e)"
    have E: "eb_ok e" "length (eb_encode P e) < 2 ^ 32" "lies_at (bk_bytes b) a (eb_encode P e)"
      and in_b: "?w + length ?p \<le> bk_len b"
      and sep: "\<And>f c. (f, c) \<in> set (x # es) \<Longrightarrow> undo_range e \<inter> {c..<c + length (eb_encode P f)} = {}"
      and comp: "\<And>f c. (f, c) \<in> set (x # es) \<Longrightarrow> is_undo act f \<Longrightarrow>
          (eb_inplace_addr f = eb_inplace_addr e \<and> eb_bytes f = eb_bytes e) \<or> undo_range e \<inter> undo_range f = {}"
      using Cons.prems(2) True unfolding undo_ready_def x length_pad_block by (meson list.set_intros(1))+
    have r: "undo_range e = {?w..<?w + length ?p}" by (simp add: undo_range_def)
    obtain b1 where b1: "bk_write_at b ?w ?p = Inr b1" using bk_write_at_ok[OF Cons.prems(1) in_b] by blast
    note b1D = bk_write_at_InrD[OF b1]
    have ok1: "bk_ok b1" by (rule bk_write_at_pres[OF Cons.prems(1) b1])
    have dst: "?w + length ?p \<le> length (bk_bytes b)" using in_b Cons.prems(1) by (simp add: bk_ok_def)
    have mv: "lies_at (bk_bytes b1) c bs" if "lies_at (bk_bytes b) c bs" "undo_range e \<inter> {c..<c + length bs} = {}" for c bs
      unfolding b1D(4) using that r by (intro lies_at_disjoint[OF _ dst]) simp_all
    have "undo_ready P act es b1"
      using Cons.prems(2) mv sep unfolding undo_ready_def b1D(2) by (meson list.set_intros(2))
    from Cons.IH[OF ok1 this] obtain u b' where IH: "undo_loop P act (map (\<lambda>(e, a). scanned_at e a) es) b1 = (Inr u, b')" "bk_ok b'" "bk_len b' = bk_len b1"
      "\<And>f c. (f, c) \<in> set es \<Longrightarrow> is_undo act f \<Longrightarrow> lies_at (bk_bytes b') (unat (eb_inplace_addr f)) (pad_block (eb_bytes f))"
      and fr: "\<And>a bs. lies_at (bk_bytes b1) a bs \<Longrightarrow> (\<forall>e c. (e, c) \<in> set es \<longrightarrow> is_undo act e \<longrightarrow> undo_range e \<inter> {a..<a + length bs} = {}) \<Longrightarrow> lies_at (bk_bytes b') a bs"
      by blast
    have here: "lies_at (bk_bytes b') ?w ?p"
    proof (cases "\<exists>f c. (f, c) \<in> set es \<and> is_undo act f \<and> eb_inplace_addr f = eb_inplace_addr e \<and> eb_bytes f = eb_bytes e")
      case True
      then show ?thesis using IH(4) by metis
    next
      case False
      have "lies_at (bk_bytes b1) ?w ?p" unfolding b1D(4) by (rule lies_at_splice_same[OF dst])
      moreover have "\<forall>f c. (f, c) \<in> set es \<longrightarrow> is_undo act f \<longrightarrow> undo_range f \<inter> {?w..<?w + length ?p} = {}"
        using comp False unfolding r[symmetric] by (metis Int_commute list.set_intros(2))
      ultimately show ?thesis by (intro fr) auto
    qed
    have u: "sb_inplace_addr (scanned_at e a) \<noteq> 0 \<and> act < sb_target_commit_seq (scanned_at e a)" "sb_inplace_addr (scanned_at e a) = eb_inplace_addr e"
      using True by (simp_all add: is_undo_def scanned_at_def)
    have lp: "undo_loop P act (map (\<lambda>(e, a). scanned_at e a) (x # es)) b = (Inr True, b')"
      using undo_one[OF Cons.prems(1) E] u(1) by (simp add: x u(2) b1 IH(1))
    have fr': "lies_at (bk_bytes b') c bs"
      if l: "lies_at (bk_bytes b) c bs" "\<forall>e d. (e, d) \<in> set (x # es) \<longrightarrow> is_undo act e \<longrightarrow> undo_range e \<inter> {c..<c + length bs} = {}" for c bs
      using l True by (intro fr mv) (auto simp: x)
    have all: "lies_at (bk_bytes b') (unat (eb_inplace_addr f)) (pad_block (eb_bytes f))" if "(f, c) \<in> set (x # es)" "is_undo act f" for f c
      using that IH(4) here by (auto simp: x)
    show ?thesis
      by (intro exI[of _ True] exI[of _ b'] conjI allI impI lp IH(2)) (use IH(3) b1D(2) all fr' in \<open>simp_all\<close>)
  qed
qed auto

lemma tail_loop_two:
  assumes x: "tail_slot P b (a + 2 * BASE_BLOCK) a = Some x" and y: "tail_slot P b (a + 2 * BASE_BLOCK) (a + BASE_BLOCK) = Some y"
  shows "tail_loop P b (a + 2 * BASE_BLOCK) a = [x, y]"
proof -
  have z: "tail_loop P b (a + 2 * BASE_BLOCK) (a + BASE_BLOCK + BASE_BLOCK) = []"
    by (subst tail_loop.simps) (simp add: BASE_BLOCK_def)
  have "tail_loop P b (a + 2 * BASE_BLOCK) (a + BASE_BLOCK) = [y]" by (subst tail_loop.simps) (simp add: y z)
  then show ?thesis by (subst tail_loop.simps) (simp add: x)
qed

text \<open>C36. The scan looks at every slot of the tail, slots inside the payload of a larger block included. A superseded fragment whose
  stored bytes contain the image of a block at a block boundary is therefore reported as a second block; with an address and a
  sequence number of its choosing, the undo of the next mount writes its payload to that address.\<close>

theorem payload_taken_for_undo_image:
  assumes b: "bk_ok b" and e: "eb_ok e" "eb_inplace_addr e = 0" "lies_at (bk_bytes b) a (eb_encode P e)"
    and f: "eb_ok f" "is_undo act f" "eb_bytes e = pre @ eb_encode P f @ post" "EVICT_HEADER_SIZE + 16 * length (eb_commits e) + length pre = BASE_BLOCK"
    and sz: "length (eb_encode P e) \<le> 2 * BASE_BLOCK" and tail: "a + 2 * BASE_BLOCK = bk_len b"
    and slot: "unat (eb_inplace_addr f) + round_up_block (length (eb_bytes f)) \<le> a"
  shows "\<exists>ss b'. scan_eviction_tail P b a (a + 2 * BASE_BLOCK) = Inr ss \<and> undo_loop P act ss b = (Inr True, b')
    \<and> lies_at (bk_bytes b') (unat (eb_inplace_addr f)) (eb_bytes f)"
proof -
  have el: "length (eb_encode P e) = 72 + 16 * length (eb_commits e) + length (eb_bytes e)" by (rule eb_encode_length[OF e(1)])
  have hc: "length (eb_header e @ concat (eb_commits e) @ pre) = BASE_BLOCK"
    using f(4) eb_header_length[OF e(1)] e(1) by (simp add: length_concat_width[of 16] eb_ok_def EVICT_HEADER_SIZE_def)
  have enc: "eb_encode P e = (eb_header e @ concat (eb_commits e) @ pre) @ eb_encode P f @ (post @ u32_to_le (p_crc32 P (eb_header e @ concat (eb_commits e) @ eb_bytes e)))"
    by (simp add: eb_encode_def[of P e] Let_def f(3))
  have lf: "lies_at (bk_bytes b) (a + BASE_BLOCK) (eb_encode P f)"
    using e(3) hc unfolding enc lies_at_append[of _ _ "eb_header e @ concat (eb_commits e) @ pre"] lies_at_append[of _ _ "eb_encode P f"] by metis
  have fl: "length (eb_encode P f) \<le> BASE_BLOCK" using sz hc unfolding enc by (simp add: BASE_BLOCK_def)
  have s1: "tail_slot P b (a + 2 * BASE_BLOCK) a = Some (scanned_at e a)" using sz by (intro tail_slot_finds b e) simp
  have s2: "tail_slot P b (a + 2 * BASE_BLOCK) (a + BASE_BLOCK) = Some (scanned_at f (a + BASE_BLOCK))"
    using fl by (intro tail_slot_finds b f lf) (simp add: BASE_BLOCK_def)
  have ss: "scan_eviction_tail P b a (a + 2 * BASE_BLOCK) = Inr (map (\<lambda>(e, a). scanned_at e a) [(e, a), (f, a + BASE_BLOCK)])"
    using tail_loop_two[OF s1 s2] by (simp add: scan_eviction_tail_def BASE_BLOCK_def)
  have ne: "\<not> is_undo act e" using e(2) by (simp add: is_undo_def)
  have rg: "undo_range f \<inter> {c..<d} = {}" if "a \<le> c" for c d using slot that by (auto simp: undo_range_def)
  have rdy: "undo_ready P act [(e, a), (f, a + BASE_BLOCK)] b"
    unfolding undo_ready_def using e f(1,2) lf fl sz slot tail ne rg by (auto simp: BASE_BLOCK_def)
  obtain u b' where U: "undo_loop P act (map (\<lambda>(e, a). scanned_at e a) [(e, a), (f, a + BASE_BLOCK)]) b = (Inr u, b')"
    "lies_at (bk_bytes b') (unat (eb_inplace_addr f)) (pad_block (eb_bytes f))"
    using undo_restores[OF b rdy] f(2) by auto
  have "u = True" using U(1) f(2) by (auto simp: is_undo_def scanned_at_def split: sum.splits prod.splits if_splits)
  then show ?thesis using ss U unfolding pad_block_def lies_at_append by blast
qed

definition demo_forged :: evicted_block where
  "demo_forged = \<lparr>eb_uuid = replicate 16 9, eb_frag = 0, eb_length = 3, eb_old_version = 1, eb_commits = [], eb_bytes = [1, 2, 3],
                  eb_timestamp = 0, eb_inplace_addr = 4096, eb_target_commit_seq = 99\<rparr>"

definition demo_carrier :: evicted_block where
  "demo_carrier = \<lparr>eb_uuid = replicate 16 7, eb_frag = 0, eb_length = 4103, eb_old_version = 1, eb_commits = [],
                   eb_bytes = replicate 4028 0 @ eb_encode toy_prims demo_forged, eb_timestamp = 0, eb_inplace_addr = 0,
                   eb_target_commit_seq = 0\<rparr>"

definition demo_tail :: backend where
  "demo_tail = \<lparr>bk_store = MemStore (replicate 8192 0 @ eb_encode toy_prims demo_carrier @ replicate 4017 0), bk_len = 16384, bk_no_grow = True\<rparr>"

lemma demo_tail_ok: "eb_ok demo_forged" "eb_ok demo_carrier" "bk_ok demo_tail" "length (eb_encode toy_prims demo_carrier) = 4175"
proof -
  show f: "eb_ok demo_forged" by (simp add: demo_forged_def eb_ok_def)
  have l: "length (eb_encode toy_prims demo_forged) = 75" using eb_encode_length[OF f] by (simp add: demo_forged_def)
  show c: "eb_ok demo_carrier" by (simp add: demo_carrier_def eb_ok_def l)
  show lc: "length (eb_encode toy_prims demo_carrier) = 4175" using eb_encode_length[OF c, of toy_prims] by (simp add: demo_carrier_def l)
  show "bk_ok demo_tail" by (simp add: demo_tail_def bk_ok_def lc)
qed

theorem payload_taken_for_undo_image_witness:
  "\<exists>ss b'. scan_eviction_tail toy_prims demo_tail 8192 (8192 + 2 * BASE_BLOCK) = Inr ss \<and> undo_loop toy_prims 5 ss demo_tail = (Inr True, b')
    \<and> lies_at (bk_bytes b') 4096 [1, 2, 3]"
proof -
  have at: "lies_at (bk_bytes demo_tail) 8192 (eb_encode toy_prims demo_carrier)"
    using lies_at_here[of "replicate 8192 0" "eb_encode toy_prims demo_carrier" "replicate 4017 0"] by (simp add: demo_tail_def)
  have u: "is_undo 5 demo_forged" "eb_inplace_addr demo_carrier = 0" "eb_bytes demo_carrier = replicate 4028 0 @ eb_encode toy_prims demo_forged @ []"
    "EVICT_HEADER_SIZE + 16 * length (eb_commits demo_carrier) + length (replicate 4028 (0 :: u8)) = BASE_BLOCK"
    "8192 + 2 * BASE_BLOCK = bk_len demo_tail" "unat (eb_inplace_addr demo_forged) = 4096" "eb_bytes demo_forged = [1, 2, 3]"
    by (simp_all add: is_undo_def demo_forged_def demo_carrier_def demo_tail_def EVICT_HEADER_SIZE_def BASE_BLOCK_def)
  show ?thesis
    using payload_taken_for_undo_image[OF demo_tail_ok(3,2) u(2) at demo_tail_ok(1) u(1,3,4) _ u(5)] demo_tail_ok(4) u(6,7)
    by (simp add: BASE_BLOCK_def round_up_block_def)
qed

section \<open>What the strategies drop\<close>

text \<open>The slot a block competes in, and the order of two blocks of one slot: the newer one wins, the earlier of two equally old ones.\<close>

definition slot_of :: "schedule \<Rightarrow> u64 \<Rightarrow> scanned_block \<Rightarrow> (bytes \<times> u32) \<times> bucket_key" where
  "slot_of sc now b = ((sb_uuid b, sb_frag b), bucket sc (age_of now b) (sint (sb_timestamp b)))"

definition beats :: "schedule \<Rightarrow> u64 \<Rightarrow> scanned_block list \<Rightarrow> nat \<Rightarrow> nat \<Rightarrow> bool" where
  "beats sc now bs j i \<longleftrightarrow> \<not> is_pinned (bs ! j) \<and> slot_of sc now (bs ! j) = slot_of sc now (bs ! i)
     \<and> (sint (sb_timestamp (bs ! i)) < sint (sb_timestamp (bs ! j)) \<or> sint (sb_timestamp (bs ! j)) = sint (sb_timestamp (bs ! i)) \<and> j < i)"

definition entry_at :: "groups \<Rightarrow> (bytes \<times> u32) \<times> bucket_key \<Rightarrow> (int \<times> nat) option" where
  "entry_at gs sl = (case map_of gs (fst sl) of None \<Rightarrow> None | Some bm \<Rightarrow> map_of bm (snd sl))"

lemma entry_at_step:
  "entry_at (group_step sc now (i, b) gs) sl =
     (if is_pinned b \<or> sl \<noteq> slot_of sc now b then entry_at gs sl
      else let e = (case entry_at gs sl of Some e \<Rightarrow> e | None \<Rightarrow> (- (2 ^ 63), i))
           in Some (if fst e < sint (sb_timestamp b) then (sint (sb_timestamp b), i) else e))"
  by (cases sl) (auto simp: entry_at_def group_step_def slot_of_def Let_def update_conv' split: option.splits)

definition groups_ok :: "groups \<Rightarrow> bool" where
  "groups_ok gs \<longleftrightarrow> distinct (map fst gs) \<and> (\<forall>x \<in> set gs. distinct (map fst (snd x)))"

lemma groups_ok_step: "groups_ok gs \<Longrightarrow> groups_ok (group_step sc now ib gs)"
proof (cases ib)
  case (Pair i b)
  assume ok: "groups_ok gs"
  have d: "distinct (map fst (case map_of gs k of Some m \<Rightarrow> m | None \<Rightarrow> []))" for k
    using ok by (auto simp: groups_ok_def split: option.split dest: map_of_SomeD)
  have u: "set (AList.update k v gs) \<subseteq> insert (k, v) (set gs)" for k v
    by (induction gs) auto
  have keep: "groups_ok (AList.update k v gs)" if "distinct (map fst v)" for k v
    using ok that u[of k v] unfolding groups_ok_def by (auto simp: distinct_update)
  show ?thesis
    unfolding group_step_def Pair Let_def prod.case using ok d by (auto intro!: keep distinct_update)
qed

lemma winners_entry: "groups_ok gs \<Longrightarrow> i \<in> set (winners gs) \<longleftrightarrow> (\<exists>sl t. entry_at gs sl = Some (t, i))"
proof
  assume ok: "groups_ok gs" and "i \<in> set (winners gs)"
  then obtain k bm bk t where m: "(k, bm) \<in> set gs" "(bk, t, i) \<in> set bm" by (auto simp: winners_def)
  then have "map_of gs k = Some bm" "map_of bm bk = Some (t, i)" using ok by (auto simp: groups_ok_def intro: map_of_is_SomeI)
  then show "\<exists>sl t. entry_at gs sl = Some (t, i)" by (intro exI[of _ "(k, bk)"] exI[of _ t]) (simp add: entry_at_def)
next
  assume "\<exists>sl t. entry_at gs sl = Some (t, i)"
  then obtain sl t bm where m: "map_of gs (fst sl) = Some bm" "map_of bm (snd sl) = Some (t, i)"
    by (auto simp: entry_at_def split: option.splits)
  have g: "(fst sl, bm) \<in> set gs" and "(snd sl, t, i) \<in> set bm" using m by (auto dest: map_of_SomeD)
  then have "i \<in> set ((\<lambda>(k, bm). map (\<lambda>(bk, ts, i). i) bm) (fst sl, bm))" by (auto intro: image_eqI[of _ _ "(snd sl, t, i)"])
  then show "i \<in> set (winners gs)" unfolding winners_def set_concat set_map using g by blast
qed

text \<open>After a prefix of the blocks the entry of a slot is the block of the prefix that no other one beats.\<close>

definition best_of :: "schedule \<Rightarrow> u64 \<Rightarrow> scanned_block list \<Rightarrow> nat \<Rightarrow> groups \<Rightarrow> bool" where
  "best_of sc now bs n gs \<longleftrightarrow>
     (\<forall>sl. case entry_at gs sl of
        None \<Rightarrow> \<forall>i < n. \<not> is_pinned (bs ! i) \<longrightarrow> slot_of sc now (bs ! i) \<noteq> sl
      | Some (t, i) \<Rightarrow> i < n \<and> \<not> is_pinned (bs ! i) \<and> slot_of sc now (bs ! i) = sl \<and> t = sint (sb_timestamp (bs ! i))
          \<and> (\<forall>j < n. \<not> beats sc now bs j i))"

lemma best_of_step:
  assumes B: "best_of sc now bs n gs"
  shows "best_of sc now bs (Suc n) (group_step sc now (n, bs ! n) gs)"
  unfolding best_of_def
proof
  fix sl
  let ?gs = "group_step sc now (n, bs ! n) gs" and ?ts = "\<lambda>i. sint (sb_timestamp (bs ! i))"
  have b: "case entry_at gs sl of None \<Rightarrow> \<forall>i < n. \<not> is_pinned (bs ! i) \<longrightarrow> slot_of sc now (bs ! i) \<noteq> sl
      | Some (t, i) \<Rightarrow> i < n \<and> \<not> is_pinned (bs ! i) \<and> slot_of sc now (bs ! i) = sl \<and> t = ?ts i \<and> (\<forall>j < n. \<not> beats sc now bs j i)"
    using B unfolding best_of_def by (rule spec)
  show "case entry_at ?gs sl of None \<Rightarrow> \<forall>i < Suc n. \<not> is_pinned (bs ! i) \<longrightarrow> slot_of sc now (bs ! i) \<noteq> sl
      | Some (t, i) \<Rightarrow> i < Suc n \<and> \<not> is_pinned (bs ! i) \<and> slot_of sc now (bs ! i) = sl \<and> t = ?ts i \<and> (\<forall>j < Suc n. \<not> beats sc now bs j i)"
  proof (cases "is_pinned (bs ! n) \<or> sl \<noteq> slot_of sc now (bs ! n)")
    case True
    then show ?thesis using b unfolding entry_at_step by (auto simp: less_Suc_eq beats_def split: option.splits)
  next
    case False
    then have p: "\<not> is_pinned (bs ! n)" and sl: "sl = slot_of sc now (bs ! n)" by simp_all
    have lo: "- (2 ^ 63) \<le> ?ts n" using sint_ge[of "sb_timestamp (bs ! n)"] by simp
    have self: "\<not> beats sc now bs i i" for i by (simp add: beats_def)
    have won: ?thesis if "entry_at ?gs sl = Some (?ts i, i)" "i < Suc n" "\<not> is_pinned (bs ! i)" "slot_of sc now (bs ! i) = sl"
        "\<And>j. j < Suc n \<Longrightarrow> \<not> beats sc now bs j i" for i
      unfolding that(1) using that(2-) by simp
    show ?thesis
    proof (cases "entry_at gs sl")
      case None
      have "\<not> beats sc now bs j n" if "j < n" for j using b None sl that by (auto simp: beats_def)
      moreover have "entry_at ?gs sl = Some (?ts n, n)" using p sl lo None by (simp add: entry_at_step Let_def)
      ultimately show ?thesis using p sl self by (intro won) (auto simp: less_Suc_eq)
    next
      case (Some e)
      obtain t i where e: "e = (t, i)" by (cases e)
      have i: "i < n" "\<not> is_pinned (bs ! i)" "slot_of sc now (bs ! i) = sl" "t = ?ts i" and nb: "\<And>j. j < n \<Longrightarrow> \<not> beats sc now bs j i"
        using b by (simp_all add: Some e)
      show ?thesis
      proof (cases "?ts i < ?ts n")
        case True
        have "\<not> beats sc now bs j n" if "j < n" for j using nb[OF that] i(3) sl True unfolding beats_def by auto
        moreover have "entry_at ?gs sl = Some (?ts n, n)" using p sl Some True by (simp add: entry_at_step Let_def e i)
        ultimately show ?thesis using p sl self by (intro won) (auto simp: less_Suc_eq)
      next
        case False
        have "\<not> beats sc now bs n i" using i(1) False unfolding beats_def by auto
        moreover have "entry_at ?gs sl = Some (?ts i, i)" using p sl Some False by (simp add: entry_at_step Let_def e i)
        ultimately show ?thesis using i nb by (intro won) (auto simp: less_Suc_eq)
      qed
    qed
  qed
qed

lemma best_of_fold: "n \<le> length bs \<Longrightarrow> best_of sc now bs n (fold (group_step sc now) (enumerate 0 (take n bs)) [])
   \<and> groups_ok (fold (group_step sc now) (enumerate 0 (take n bs)) [])"
proof (induction n)
  case 0
  show ?case by (simp add: best_of_def entry_at_def groups_ok_def)
next
  case (Suc n)
  then have "enumerate 0 (take (Suc n) bs) = enumerate 0 (take n bs) @ [(n, bs ! n)]"
    by (simp add: take_Suc_conv_app_nth enumerate_append_eq)
  then show ?case using Suc by (simp add: best_of_step groups_ok_step)
qed

lemma set_filter_enumerate: "set (map fst (filter (\<lambda>(i, b). Q i b) (enumerate 0 bs))) = {i. i < length bs \<and> Q i (bs ! i)}"
  by (force simp: in_set_enumerate_eq image_iff)

lemma time_machine_drops:
  "set (apply_strategy bs (TimeMachine sc) now) = {i. i < length bs \<and> \<not> is_pinned (bs ! i) \<and> (\<exists>j < length bs. beats sc now bs j i)}"
proof -
  define gs where "gs = fold (group_step sc now) (enumerate 0 bs) []"
  have B: "best_of sc now bs (length bs) gs" and ok: "groups_ok gs" using best_of_fold[of "length bs" bs sc now] by (simp_all add: gs_def)
  have "i \<notin> set (winners gs) \<longleftrightarrow> (\<exists>j < length bs. beats sc now bs j i)" if i: "i < length bs" "\<not> is_pinned (bs ! i)" for i
  proof -
    let ?sl = "slot_of sc now (bs ! i)"
    have b: "case entry_at gs sl of None \<Rightarrow> \<forall>i < length bs. \<not> is_pinned (bs ! i) \<longrightarrow> slot_of sc now (bs ! i) \<noteq> sl
      | Some (t, i) \<Rightarrow> i < length bs \<and> \<not> is_pinned (bs ! i) \<and> slot_of sc now (bs ! i) = sl \<and> t = sint (sb_timestamp (bs ! i)) \<and> (\<forall>j < length bs. \<not> beats sc now bs j i)"
      for sl using B unfolding best_of_def by (rule spec)
    obtain t w where w: "entry_at gs ?sl = Some (t, w)" using b[of ?sl] i by (cases "entry_at gs ?sl") auto
    have W: "w < length bs" "\<not> is_pinned (bs ! w)" "slot_of sc now (bs ! w) = ?sl" "\<And>j. j < length bs \<Longrightarrow> \<not> beats sc now bs j w"
      using b[of ?sl] by (simp_all add: w)
    have "i \<in> set (winners gs) \<longleftrightarrow> i = w"
    proof
      assume "i \<in> set (winners gs)"
      then obtain sl t' where x: "entry_at gs sl = Some (t', i)" using winners_entry[OF ok] by blast
      then have "sl = ?sl" using b[of sl] by simp
      then show "i = w" using x w by simp
    qed (use w winners_entry[OF ok] in blast)
    moreover have "beats sc now bs w i" if "i \<noteq> w" using W(4)[OF i(1)] W(2,3) i(2) that unfolding beats_def by auto
    ultimately show ?thesis using W(1,4) by blast
  qed
  then show ?thesis
    unfolding apply_strategy_def eviction_strategy.case Let_def gs_def[symmetric] set_filter_enumerate by blast
qed

definition demo_scan :: "nat \<Rightarrow> scanned_block" where
  "demo_scan n = \<lparr>sb_uuid = replicate 16 7, sb_frag = 0, sb_length = 5, sb_old_version = word_of_nat n, sb_commits = [],
                   sb_loc_addr = 8192 + 4096 * n, sb_encoded_len = 77, sb_timestamp = 1000, sb_inplace_addr = 0, sb_target_commit_seq = 0\<rparr>"

text \<open>C34. Which blocks each retention strategy drops. The time machine drops exactly the unpinned blocks that another unpinned block
  of the same fragment and time slot beats, by having the later timestamp or the same timestamp and the earlier place in the tail; a
  horizon drops exactly the unpinned blocks whose age is at least the horizon; keeping all drops nothing. A block a commit pins is
  never dropped. The slot is that of the code: the exact second for an age below the first boundary, else the hour, day, 30 days or
  365 days of the timestamp, and an age equal to a boundary belongs to the coarser side of it.

  In three places this is not what the documentation of the module says. It says that a horizon drops the blocks older than it, but a
  block exactly as old is dropped too. Its table keeps every block up to an age of one hour, but a block of exactly that age is thinned
  by the hour. And it gives each block below the first boundary a slot of its own, but two of the same second share one (C35).\<close>

theorem thinning_exact:
  "set (apply_strategy bs (TimeMachine sc) now) = {i. i < length bs \<and> \<not> is_pinned (bs ! i) \<and> (\<exists>j < length bs. beats sc now bs j i)}
   \<and> set (apply_strategy bs (Horizon keep) now) = {i. i < length bs \<and> \<not> is_pinned (bs ! i) \<and> keep \<le> age_of now (bs ! i)}
   \<and> apply_strategy bs KeepAll now = []"
proof (intro conjI)
  show "set (apply_strategy bs (Horizon keep) now) = {i. i < length bs \<and> \<not> is_pinned (bs ! i) \<and> keep \<le> age_of now (bs ! i)}"
    unfolding apply_strategy_def eviction_strategy.case set_filter_enumerate by simp
qed (rule time_machine_drops, simp add: apply_strategy_def)

text \<open>C35. The schedule promises to keep every block younger than its first boundary. Two versions of a fragment written within one
  second share their bucket all the same, and the one found later in the tail is dropped.\<close>

theorem same_second_version_dropped:
  assumes "i < j" "j < length bs" "\<not> is_pinned (bs ! i)" "\<not> is_pinned (bs ! j)"
    and "sb_uuid (bs ! i) = sb_uuid (bs ! j)" "sb_frag (bs ! i) = sb_frag (bs ! j)" "sb_timestamp (bs ! i) = sb_timestamp (bs ! j)"
    and "age_of now (bs ! j) < keep_all_secs sc"
  shows "j \<in> set (apply_strategy bs (TimeMachine sc) now) \<and> bucket sc (age_of now (bs ! j)) (sint (sb_timestamp (bs ! j))) = FullRes (sint (sb_timestamp (bs ! j)))"
proof -
  have "beats sc now bs i j" using assms by (simp add: beats_def slot_of_def age_of_def)
  then have "\<exists>k < length bs. beats sc now bs k j" using assms(1,2) by (intro exI[of _ i]) simp
  then show ?thesis using assms unfolding time_machine_drops by (simp add: bucket_def)
qed

theorem same_second_version_dropped_witness:
  "1 \<in> set (apply_strategy [demo_scan 0, demo_scan 1] (TimeMachine DEFAULT_SCHEDULE) 1010)"
  using same_second_version_dropped[of 0 1 "[demo_scan 0, demo_scan 1]" 1010 DEFAULT_SCHEDULE]
  by (simp add: demo_scan_def is_pinned_def age_of_def saturating_sub_def DEFAULT_SCHEDULE_def SECS_PER_HOUR_def)

end
