(* ===== verification/Writer_Set.thy ===== *)
theory Writer_Set
  imports Unit_Signing
begin

text \<open>
  Who may write: the writer set a container's owner signs (\<^verbatim>\<open>sfs-core/src/version/writerset.rs\<close>), the check of a record that
  travels with its signature (\<^verbatim>\<open>version/verify_trailer.rs\<close>), and the grant that carries a container key to a member
  (\<^verbatim>\<open>crypto/key_grant.rs\<close>). Ed25519 and X25519 come from other crates: they are the records \<open>sig_env\<close> and \<open>dh_env\<close>.
\<close>

section \<open>Signatures\<close>

text \<open>A signing key, \<^verbatim>\<open>SigningKeyHandle\<close> of \<^verbatim>\<open>crypto/sign.rs\<close>, is its seed.\<close>

record sig_env =
  sg_pub :: "bytes \<Rightarrow> bytes"
  sg_sign :: "bytes \<Rightarrow> bytes \<Rightarrow> bytes"
  sg_verify :: "bytes \<Rightarrow> bytes \<Rightarrow> bytes \<Rightarrow> bool"

definition sig_env_ok :: "sig_env \<Rightarrow> bool" where
  "sig_env_ok S \<longleftrightarrow> (\<forall>sk. length (sg_pub S sk) = 32) \<and> (\<forall>sk m. length (sg_sign S sk m) = 64)
     \<and> (\<forall>sk m. sg_verify S (sg_pub S sk) m (sg_sign S sk m))"

section \<open>The writer set\<close>

definition WSET_TAG :: bytes where
  "WSET_TAG = ascii ''sfsu-wset''"

definition WSET_MIN_BLOB_LEN :: nat where
  "WSET_MIN_BLOB_LEN = 9 + 8 + 8 + 32 + 4 + 4 + 64"

record writer_set =
  ws_epoch :: u64
  ws_key_epoch :: u64
  ws_owner_pubkey :: bytes
  ws_writers :: "bytes list"
  ws_removed :: "bytes list"

definition ws_signing_bytes :: "writer_set \<Rightarrow> bytes" where
  "ws_signing_bytes ws =
     WSET_TAG @ u64_to_le (ws_epoch ws) @ u64_to_le (ws_key_epoch ws) @ ws_owner_pubkey ws
     @ u32_to_le (word_of_nat (length (ws_writers ws))) @ concat (ws_writers ws)
     @ u32_to_le (word_of_nat (length (ws_removed ws))) @ concat (ws_removed ws)"

definition ws_seal :: "sig_env \<Rightarrow> bytes \<Rightarrow> writer_set \<Rightarrow> bytes" where
  "ws_seal S owner ws = (let sb = ws_signing_bytes ws in sb @ sg_sign S owner sb)"

text \<open>The sums of the source cannot leave 64 bits, since the counts have 32.\<close>

definition ws_open :: "sig_env \<Rightarrow> bytes \<Rightarrow> writer_set result" where
  "ws_open S blob =
     (if length blob < WSET_MIN_BLOB_LEN then Inl (Integrity ''writer-set blob too short'')
      else if take 9 blob \<noteq> WSET_TAG then Inl (Integrity ''writer-set: wrong domain tag'')
      else let epoch = u64_from_le (slice 9 8 blob); key_epoch = u64_from_le (slice 17 8 blob);
               owner_pubkey = slice 25 32 blob; n = unat (u32_from_le (slice 57 4 blob));
               writers_end = 61 + 32 * n; r_end = writers_end + 4
           in if length blob < r_end then Inl (Integrity ''writer-set: blob too short for n'')
              else let r = unat (u32_from_le (slice writers_end 4 blob)); signing_region_len = r_end + 32 * r
                   in if length blob \<noteq> signing_region_len + 64 then Inl (Integrity ''writer-set: expected length'')
                      else let writers = chunks_at 32 n blob 61; removed = chunks_at 32 r blob r_end;
                               sig = slice signing_region_len 64 blob
                           in if \<not> sg_verify S owner_pubkey (take signing_region_len blob) sig
                              then Inl (Integrity ''writer-set: owner signature verification failed'')
                              else Inr \<lparr>ws_epoch = epoch, ws_key_epoch = key_epoch, ws_owner_pubkey = owner_pubkey,
                                        ws_writers = writers, ws_removed = removed\<rparr>)"

definition ws_contains :: "writer_set \<Rightarrow> bytes \<Rightarrow> bool" where
  "ws_contains ws pubkey \<longleftrightarrow> pubkey \<in> set (ws_writers ws)"

definition is_authorized_reader :: "writer_set \<Rightarrow> bytes \<Rightarrow> bool" where
  "is_authorized_reader ws pubkey \<longleftrightarrow> pubkey \<in> set (ws_writers ws) \<or> pubkey \<in> set (ws_removed ws)"

definition is_valid_successor_of :: "writer_set \<Rightarrow> writer_set \<Rightarrow> bool" where
  "is_valid_successor_of ws prev =
     (if ws_epoch ws \<le> ws_epoch prev then False
      else if ws_owner_pubkey ws \<noteq> ws_owner_pubkey prev then False
      else if ws_key_epoch ws < ws_key_epoch prev then False
      else list_all (ws_contains ws) (ws_writers prev) \<or> ws_key_epoch prev < ws_key_epoch ws)"

section \<open>Records with a trailer\<close>

definition TRAILER_MIN_BLOB :: nat where
  "TRAILER_MIN_BLOB = 4 + 32 + 64 + 4"

record framed_blob =
  fb_writer_pubkey :: bytes
  fb_signature :: bytes
  fb_signing_payload :: bytes
  fb_uuid_from_proj :: bytes

definition parse_framed_blob :: "bytes \<Rightarrow> framed_blob result" where
  "parse_framed_blob blob =
     (if length blob < TRAILER_MIN_BLOB then Inl (Integrity ''verify_record_trailer: blob too short for framing header'')
      else let proj_len = unat (u32_from_le (slice 0 4 blob)) in
      if length blob < 4 + proj_len + (32 + 64 + 4) then Inl (Integrity ''verify_record_trailer: proj_len overflows blob bounds'')
      else if proj_len < 16 then Inl (Integrity ''verify_record_trailer: projection too short to contain uuid'')
      else let off = 4 + proj_len; payload_len = unat (u32_from_le (slice (off + 96) 4 blob)) in
      if off + 100 + payload_len \<noteq> length blob then Inl (Integrity ''verify_record_trailer: payload_len does not match blob end'')
      else Inr \<lparr>fb_writer_pubkey = slice off 32 blob, fb_signature = slice (off + 32) 64 blob,
                fb_signing_payload = drop (off + 100) blob, fb_uuid_from_proj = slice 4 16 blob\<rparr>)"

definition verify_sig_and_uuid :: "sig_env \<Rightarrow> bytes \<Rightarrow> bytes \<Rightarrow> bytes \<Rightarrow> bytes \<Rightarrow> unit result" where
  "verify_sig_and_uuid S pubkey payload sig uuid_from_proj =
     (if \<not> sg_verify S pubkey payload sig then Inl (Integrity ''verify_record_trailer: signature verification failed'')
      else bind_r (parse_signing_payload payload) (\<lambda>parsed.
        if pp_uuid parsed \<noteq> uuid_from_proj
        then Inl (Integrity ''verify_record_trailer: uuid mismatch between trailer and projection'')
        else Inr ()))"

definition verify_record_trailer :: "sig_env \<Rightarrow> bytes \<Rightarrow> writer_set \<Rightarrow> bytes result" where
  "verify_record_trailer S blob ws =
     bind_r (parse_framed_blob blob) (\<lambda>parsed.
       if \<not> ws_contains ws (fb_writer_pubkey parsed)
       then Inl (Integrity ''verify_record_trailer: writer not in current WriterSet'')
       else bind_r (verify_sig_and_uuid S (fb_writer_pubkey parsed) (fb_signing_payload parsed) (fb_signature parsed)
                      (fb_uuid_from_proj parsed)) (\<lambda>_. Inr (fb_writer_pubkey parsed)))"

definition verify_record_trailer_single :: "sig_env \<Rightarrow> bytes \<Rightarrow> bytes \<Rightarrow> unit result" where
  "verify_record_trailer_single S blob writer_pubkey =
     bind_r (parse_framed_blob blob) (\<lambda>parsed.
       verify_sig_and_uuid S writer_pubkey (fb_signing_payload parsed) (fb_signature parsed) (fb_uuid_from_proj parsed))"

section \<open>Key grants\<close>

text \<open>X25519: the public key of a secret, the shared secret, and whether it was contributory.\<close>

record dh_env =
  dh_pub :: "bytes \<Rightarrow> bytes"
  dh_shared :: "bytes \<Rightarrow> bytes \<Rightarrow> bytes"
  dh_contributory :: "bytes \<Rightarrow> bytes \<Rightarrow> bool"

definition dh_env_ok :: "dh_env \<Rightarrow> bool" where
  "dh_env_ok D \<longleftrightarrow> (\<forall>a. length (dh_pub D a) = 32) \<and> (\<forall>a b. dh_shared D a (dh_pub D b) = dh_shared D b (dh_pub D a))
     \<and> (\<forall>a b. dh_contributory D a (dh_pub D b))"

definition GRANT_MAGIC :: bytes where
  "GRANT_MAGIC = ascii ''sfsu-grant''"

definition GRANT_BLOB_LEN :: nat where
  "GRANT_BLOB_LEN = 10 + 32 + 12 + (40 + 16)"

definition derive_kek_grant :: "prims \<Rightarrow> bytes \<Rightarrow> bytes \<Rightarrow> bytes \<Rightarrow> bytes" where
  "derive_kek_grant P shared grantee_pub e_pub = p_hkdf P [] shared (ascii ''sfs-key-grant-v1'' @ grantee_pub @ e_pub) 32"

text \<open>\<open>e_scalar\<close> and \<open>nonce\<close> come from the operating system's random source.\<close>

definition seal_key_grant :: "prims \<Rightarrow> dh_env \<Rightarrow> bytes \<Rightarrow> bytes \<Rightarrow> bytes \<Rightarrow> u64 \<Rightarrow> bytes \<Rightarrow> bytes" where
  "seal_key_grant P D e_scalar nonce root_key key_epoch grantee_pub =
     (let e_pub = dh_pub D e_scalar; shared = dh_shared D e_scalar grantee_pub; kek = derive_kek_grant P shared grantee_pub e_pub;
          plaintext = root_key @ u64_to_le key_epoch
      in GRANT_MAGIC @ e_pub @ nonce @ seal_with_nonce P kek nonce [] plaintext)"

definition open_key_grant :: "prims \<Rightarrow> dh_env \<Rightarrow> bytes \<Rightarrow> bytes \<Rightarrow> (bytes \<times> u64) result" where
  "open_key_grant P D blob grantee_secret =
     (if length blob \<noteq> GRANT_BLOB_LEN then Inl (Integrity ''key-grant blob has wrong length'')
      else if take 10 blob \<noteq> GRANT_MAGIC then Inl (Integrity ''key-grant blob has invalid magic bytes'')
      else let e_pub = slice 10 32 blob; nonce = slice 42 12 blob; ct_tag = drop 54 blob in
      if \<not> dh_contributory D grantee_secret e_pub
      then Inl (Integrity ''key-grant: non-contributory ECDH (small-order ephemeral point)'')
      else let shared = dh_shared D grantee_secret e_pub; kek = derive_kek_grant P shared (dh_pub D grantee_secret) e_pub
           in bind_r (open_with_nonce P kek nonce [] ct_tag) (\<lambda>plaintext.
                if length plaintext \<noteq> 40 then Inl (Integrity ''key-grant: decrypted payload has wrong length'')
                else Inr (take 32 plaintext, u64_from_le (slice 32 8 plaintext))))"

section \<open>What is accepted\<close>

definition ws_ok :: "writer_set \<Rightarrow> bool" where
  "ws_ok ws \<longleftrightarrow> length (ws_owner_pubkey ws) = 32 \<and> list_all (\<lambda>k. length k = 32) (ws_writers ws) \<and> list_all (\<lambda>k. length k = 32) (ws_removed ws)
     \<and> length (ws_writers ws) < 2 ^ 32 \<and> length (ws_removed ws) < 2 ^ 32"

lemma WSET_TAG_length [simp]: "length WSET_TAG = 9"
  by (simp add: WSET_TAG_def)

lemma ws_signing_length: "ws_ok ws \<Longrightarrow> length (ws_signing_bytes ws) = 65 + 32 * length (ws_writers ws) + 32 * length (ws_removed ws)"
  by (simp add: ws_signing_bytes_def ws_ok_def length_concat_width[of 32])

lemma ws_open_signed:
  assumes ok: "ws_ok ws" and s: "length sig = 64" "sg_verify S (ws_owner_pubkey ws) (ws_signing_bytes ws) sig"
  shows "ws_open S (ws_signing_bytes ws @ sig) = Inr ws"
proof -
  let ?n = "length (ws_writers ws)" and ?r = "length (ws_removed ws)"
  let ?b = "ws_signing_bytes ws @ sig"
  let ?h = "WSET_TAG @ u64_to_le (ws_epoch ws) @ u64_to_le (ws_key_epoch ws) @ ws_owner_pubkey ws @ u32_to_le (word_of_nat ?n)"
  have o: "length (ws_owner_pubkey ws) = 32" and cw: "length (concat (ws_writers ws)) = 32 * ?n" and cr: "length (concat (ws_removed ws)) = 32 * ?r"
    and wk: "list_all (\<lambda>k. length k = 32) (ws_writers ws)" "list_all (\<lambda>k. length k = 32) (ws_removed ws)"
    and un: "unat (word_of_nat ?n :: u32) = ?n" "unat (word_of_nat ?r :: u32) = ?r"
    using ok by (auto simp: ws_ok_def length_concat_width[of 32] unat_of_nat)
  have hl: "length ?h = 61" using o by simp
  have b: "?b = ?h @ concat (ws_writers ws) @ u32_to_le (word_of_nat ?r) @ concat (ws_removed ws) @ sig" by (simp add: ws_signing_bytes_def)
  have f: "take 9 ?b = WSET_TAG" "slice 9 8 ?b = u64_to_le (ws_epoch ws)" "slice 17 8 ?b = u64_to_le (ws_key_epoch ws)"
    "slice 25 32 ?b = ws_owner_pubkey ws" "slice 57 4 ?b = u32_to_le (word_of_nat ?n)"
    unfolding b using o by (simp_all add: slice_append_skip slice_append_exact)
  have r: "slice (61 + 32 * ?n) 4 ?b = u32_to_le (word_of_nat ?r)" unfolding b using hl cw by (simp add: slice_append_skip slice_append_exact)
  have w: "chunks_at 32 ?n ?b 61 = ws_writers ws" using chunks_at_here[OF wk(1), of ?h] hl unfolding b by metis
  have rm: "chunks_at 32 ?r ?b (61 + 32 * ?n + 4) = ws_removed ws"
    using chunks_at_here[OF wk(2), of "?h @ concat (ws_writers ws) @ u32_to_le (word_of_nat ?r)" sig] hl cw unfolding b by simp
  have sl: "length (ws_signing_bytes ws) = 61 + 32 * ?n + 4 + 32 * ?r" using ws_signing_length[OF ok] by simp
  have sg: "slice (61 + 32 * ?n + 4 + 32 * ?r) 64 ?b = sig" "take (61 + 32 * ?n + 4 + 32 * ?r) ?b = ws_signing_bytes ws"
    using sl s(1) by (simp_all add: slice_append_skip slice_all)
  have lb: "length ?b = 61 + 32 * ?n + 4 + 32 * ?r + 64" using sl s(1) by simp
  show ?thesis
    unfolding ws_open_def Let_def f r u32_le_inverse un rm w sg lb WSET_MIN_BLOB_LEN_def using s(2) by simp
qed

lemma ws_open_only:
  assumes "ws_open S blob = Inr ws"
  shows "ws_ok ws \<and> (\<exists>sig. length sig = 64 \<and> blob = ws_signing_bytes ws @ sig \<and> sg_verify S (ws_owner_pubkey ws) (ws_signing_bytes ws) sig)"
proof -
  define n where "n = unat (u32_from_le (slice 57 4 blob))"
  define r where "r = unat (u32_from_le (slice (61 + 32 * n) 4 blob))"
  define srl where "srl = 61 + 32 * n + 4 + 32 * r"
  have g: "take 9 blob = WSET_TAG" "length blob = srl + 64" "sg_verify S (slice 25 32 blob) (take srl blob) (slice srl 64 blob)"
    and ws: "ws = \<lparr>ws_epoch = u64_from_le (slice 9 8 blob), ws_key_epoch = u64_from_le (slice 17 8 blob), ws_owner_pubkey = slice 25 32 blob,
                   ws_writers = chunks_at 32 n blob 61, ws_removed = chunks_at 32 r blob (61 + 32 * n + 4)\<rparr>"
    using assms unfolding ws_open_def Let_def n_def[symmetric] r_def[symmetric] srl_def[symmetric] by (auto split: if_splits)
  have nl: "n < 2 ^ 32" "r < 2 ^ 32" unfolding n_def r_def using unat_lt2p[where 'a=32] by simp_all
  have wn: "word_of_nat n = u32_from_le (slice 57 4 blob)" "word_of_nat r = u32_from_le (slice (61 + 32 * n) 4 blob)"
    by (simp_all add: n_def r_def)
  have "ws_ok ws" using g(2) nl by (auto simp: ws_ok_def ws srl_def length_slice_exact intro!: chunks_at_width)
  moreover have "ws_signing_bytes ws = take srl blob"
  proof -
    have "ws_signing_bytes ws = slice 0 9 blob @ slice (0 + 9) 8 blob @ slice (0 + 9 + 8) 8 blob @ slice (0 + 9 + 8 + 8) 32 blob @ slice (0 + 9 + 8 + 8 + 32) 4 blob
        @ slice 61 (32 * n) blob @ slice (61 + 32 * n) 4 blob @ slice (61 + 32 * n + 4) (32 * r) blob"
      using g(1,2) by (simp add: ws_signing_bytes_def ws wn u64_from_le_inverse u32_from_le_inverse length_slice_exact srl_def take_as_slice concat_chunks_at)
    also have "\<dots> = take srl blob"
      using slice_join[of 61 "32 * n" blob 4] slice_join[of 61 "32 * n + 4" blob "32 * r"] slice_join[of 0 61 blob "32 * n + 4 + 32 * r"]
        slice_join[of 0 9 blob 8] slice_join[of 0 17 blob 8] slice_join[of 0 25 blob 32] slice_join[of 0 57 blob 4]
      by (simp add: srl_def take_as_slice add.assoc flip: append_assoc)
    finally show ?thesis .
  qed
  moreover have "blob = take srl blob @ slice srl 64 blob" using g(2) by (simp add: slice_def)
  moreover have "length (slice srl 64 blob) = 64" using g(2) by (simp add: length_slice_exact)
  ultimately show ?thesis using g(3) ws by (intro conjI exI[of _ "slice srl 64 blob"]) simp_all
qed

definition trailer_frame :: "bytes \<Rightarrow> bytes \<Rightarrow> bytes \<Rightarrow> bytes \<Rightarrow> bytes" where
  "trailer_frame proj pk sig payload =
     u32_to_le (word_of_nat (length proj)) @ proj @ pk @ sig @ u32_to_le (word_of_nat (length payload)) @ payload"

lemma parse_framed_frame:
  assumes "16 \<le> length proj" "length proj < 2 ^ 32" "length pk = 32" "length sig = 64" "length payload < 2 ^ 32"
  shows "parse_framed_blob (trailer_frame proj pk sig payload) =
     Inr \<lparr>fb_writer_pubkey = pk, fb_signature = sig, fb_signing_payload = payload, fb_uuid_from_proj = take 16 proj\<rparr>"
proof -
  let ?b = "trailer_frame proj pk sig payload"
  have u: "unat (word_of_nat (length proj) :: u32) = length proj" "unat (word_of_nat (length payload) :: u32) = length payload"
    using assms by (simp_all add: unat_of_nat)
  have f: "slice 0 4 ?b = u32_to_le (word_of_nat (length proj))" "slice (4 + length proj + 96) 4 ?b = u32_to_le (word_of_nat (length payload))"
    "slice (4 + length proj) 32 ?b = pk" "slice (4 + length proj + 32) 64 ?b = sig" "drop (4 + length proj + 100) ?b = payload"
    "slice 4 16 ?b = take 16 proj"
    using assms by (simp_all add: trailer_frame_def slice_append_skip slice_append_exact slice_append_left slice_all take_as_slice)
  have l: "length ?b = 4 + length proj + 100 + length payload" using assms by (simp add: trailer_frame_def)
  show ?thesis
    unfolding parse_framed_blob_def Let_def f u32_le_inverse u l TRAILER_MIN_BLOB_def using assms(1) by simp
qed

lemma parse_framed_only:
  assumes "parse_framed_blob blob = Inr fb"
  shows "\<exists>proj. 16 \<le> length proj \<and> length proj < 2 ^ 32 \<and> length (fb_writer_pubkey fb) = 32 \<and> length (fb_signature fb) = 64
     \<and> length (fb_signing_payload fb) < 2 ^ 32 \<and> fb_uuid_from_proj fb = take 16 proj
     \<and> blob = trailer_frame proj (fb_writer_pubkey fb) (fb_signature fb) (fb_signing_payload fb)"
proof -
  define n where "n = unat (u32_from_le (slice 0 4 blob))"
  define m where "m = unat (u32_from_le (slice (4 + n + 96) 4 blob))"
  have g: "16 \<le> n" "4 + n + 100 + m = length blob"
    and fb: "fb = \<lparr>fb_writer_pubkey = slice (4 + n) 32 blob, fb_signature = slice (4 + n + 32) 64 blob, fb_signing_payload = drop (4 + n + 100) blob,
                   fb_uuid_from_proj = slice 4 16 blob\<rparr>"
    using assms unfolding parse_framed_blob_def Let_def n_def[symmetric] m_def[symmetric] by (auto split: if_splits)
  have nl: "n < 2 ^ 32" "m < 2 ^ 32" unfolding n_def m_def using unat_lt2p[where 'a=32] by simp_all
  have wn: "u32_to_le (word_of_nat n) = slice 0 4 blob" "u32_to_le (word_of_nat m) = slice (4 + n + 96) 4 blob"
    using g(2) by (simp_all add: n_def m_def u32_from_le_inverse length_slice_exact)
  have pl: "length (slice 4 n blob) = n" "length (drop (4 + n + 100) blob) = m" using g(2) by (simp_all add: length_slice_exact)
  have d: "drop (4 + n + 100) blob = slice (4 + n + 100) m blob" using g(2) by (simp add: slice_def)
  have "trailer_frame (slice 4 n blob) (slice (4 + n) 32 blob) (slice (4 + n + 32) 64 blob) (drop (4 + n + 100) blob)
     = slice 0 4 blob @ slice (0 + 4) n blob @ slice (0 + 4 + n) 32 blob @ slice (0 + 4 + n + 32) 64 blob @ slice (0 + 4 + n + 96) 4 blob @ slice (0 + 4 + n + 100) m blob"
    using d unfolding trailer_frame_def pl wn by simp
  also have "\<dots> = slice 0 (4 + n + 32 + 64 + 4 + m) blob"
    using slice_join[of 0 4 blob n] slice_join[of 0 "4 + n" blob 32] slice_join[of 0 "4 + n + 32" blob 64] slice_join[of 0 "4 + n + 96" blob 4]
      slice_join[of 0 "4 + n + 100" blob m] by (simp add: add.assoc flip: append_assoc)
  also have "\<dots> = blob" using g(2) by (simp add: slice_def)
  finally show ?thesis
    using g nl pl by (intro exI[of _ "slice 4 n blob"]) (simp add: fb length_slice_exact take_as_slice slice_slice)
qed

section \<open>The properties\<close>

text \<open>A writer set is accepted exactly when it is the canonical encoding of a set followed by a signature of the owner it names
  over that encoding; in particular what the owner seals is accepted and read back.\<close>

theorem writer_set_exact:
  "(ws_open S blob = Inr ws \<longleftrightarrow>
     ws_ok ws \<and> (\<exists>sig. length sig = 64 \<and> blob = ws_signing_bytes ws @ sig \<and> sg_verify S (ws_owner_pubkey ws) (ws_signing_bytes ws) sig))
   \<and> (sig_env_ok S \<and> ws_ok ws \<and> ws_owner_pubkey ws = sg_pub S owner \<longrightarrow> ws_open S (ws_seal S owner ws) = Inr ws)"
proof
  show "ws_open S blob = Inr ws \<longleftrightarrow>
     ws_ok ws \<and> (\<exists>sig. length sig = 64 \<and> blob = ws_signing_bytes ws @ sig \<and> sg_verify S (ws_owner_pubkey ws) (ws_signing_bytes ws) sig)"
    using ws_open_only ws_open_signed by metis
  show "sig_env_ok S \<and> ws_ok ws \<and> ws_owner_pubkey ws = sg_pub S owner \<longrightarrow> ws_open S (ws_seal S owner ws) = Inr ws"
    by (auto simp: ws_seal_def Let_def sig_env_ok_def intro!: ws_open_signed)
qed

definition toy_sig :: sig_env where
  "toy_sig = \<lparr>sg_pub = (\<lambda>sk. take 32 (sk @ replicate 32 0)), sg_sign = (\<lambda>sk m. take 32 (sk @ replicate 32 0) @ replicate 32 (word_of_nat (length m))),
              sg_verify = (\<lambda>pk m s. s = pk @ replicate 32 (word_of_nat (length m)))\<rparr>"

lemma toy_sig_ok: "sig_env_ok toy_sig"
  by (auto simp: sig_env_ok_def toy_sig_def min_def)

theorem writer_set_exact_witness:
  "let ws = \<lparr>ws_epoch = 1, ws_key_epoch = 0, ws_owner_pubkey = sg_pub toy_sig [5], ws_writers = [replicate 32 1], ws_removed = []\<rparr>
   in ws_open toy_sig (ws_seal toy_sig [5] ws) = Inr ws"
  using writer_set_exact[of toy_sig _ "\<lparr>ws_epoch = 1, ws_key_epoch = 0, ws_owner_pubkey = sg_pub toy_sig [5], ws_writers = [replicate 32 1], ws_removed = []\<rparr>" "[5]"]
    toy_sig_ok by (simp add: ws_ok_def sig_env_ok_def Let_def)

text \<open>C38. Along any succession of writer sets the epoch grows and the owner stays, and as long as the key epoch is the same no writer is lost.\<close>

theorem writers_leave_only_at_rekey:
  assumes "(\<lambda>p n. is_valid_successor_of n p)\<^sup>+\<^sup>+ a b"
  shows "ws_epoch a < ws_epoch b \<and> ws_owner_pubkey b = ws_owner_pubkey a \<and> ws_key_epoch a \<le> ws_key_epoch b
    \<and> (ws_key_epoch b = ws_key_epoch a \<longrightarrow> set (ws_writers a) \<subseteq> set (ws_writers b))"
  using assms
proof (induction rule: tranclp_induct)
  case (base b)
  then show ?case by (auto simp: is_valid_successor_of_def ws_contains_def list_all_iff split: if_splits)
next
  case (step b c)
  then have "ws_epoch b < ws_epoch c" "ws_owner_pubkey c = ws_owner_pubkey b" "ws_key_epoch b \<le> ws_key_epoch c"
    "ws_key_epoch c = ws_key_epoch b \<Longrightarrow> set (ws_writers b) \<subseteq> set (ws_writers c)"
    by (auto simp: is_valid_successor_of_def ws_contains_def list_all_iff split: if_splits)
  note n = this
  have k: "ws_key_epoch a \<le> ws_key_epoch b" using step.IH by (rule conjunct1[OF conjunct2[OF conjunct2]])
  have "set (ws_writers a) \<subseteq> set (ws_writers c)" if "ws_key_epoch c = ws_key_epoch a"
  proof -
    have "ws_key_epoch b = ws_key_epoch a" using k n(3) that by (metis order_antisym)
    then show ?thesis using step.IH n(4) that by fastforce
  qed
  then show ?case using step.IH n(1,2) order_trans[OF k n(3)] by (metis order_less_trans)
qed

theorem writers_leave_only_at_rekey_witness:
  "let a = \<lparr>ws_epoch = 1, ws_key_epoch = 0, ws_owner_pubkey = [], ws_writers = [[1]], ws_removed = []\<rparr>;
       b = \<lparr>ws_epoch = 2, ws_key_epoch = 0, ws_owner_pubkey = [], ws_writers = [[2], [1]], ws_removed = []\<rparr>
   in is_valid_successor_of b a \<and> set (ws_writers a) \<subseteq> set (ws_writers b)"
proof -
  let ?a = "\<lparr>ws_epoch = 1, ws_key_epoch = 0, ws_owner_pubkey = [], ws_writers = [[1]], ws_removed = []\<rparr>"
  let ?b = "\<lparr>ws_epoch = 2, ws_key_epoch = 0, ws_owner_pubkey = [], ws_writers = [[2], [1]], ws_removed = []\<rparr>"
  have s: "is_valid_successor_of ?b ?a" by (simp add: is_valid_successor_of_def ws_contains_def word_le_nat_alt)
  show ?thesis using writers_leave_only_at_rekey[OF tranclp.r_into_trancl[of "\<lambda>p n. is_valid_successor_of n p", OF s]] s by simp
qed

text \<open>C37. A record with a trailer is accepted exactly when it frames a projection, a key of a current writer, a signature of that key
  over the signing payload of the frame, and a payload that parses and whose identifier is the first 16 bytes of the projection. The
  signature does not cover the projection, of which nothing else is looked at.\<close>

theorem trailer_exact:
  "verify_record_trailer S blob ws = Inr pk \<longleftrightarrow>
     (\<exists>proj sig payload p. blob = trailer_frame proj pk sig payload \<and> 16 \<le> length proj \<and> length proj < 2 ^ 32 \<and> length pk = 32
        \<and> length sig = 64 \<and> length payload < 2 ^ 32 \<and> ws_contains ws pk \<and> sg_verify S pk payload sig
        \<and> parse_signing_payload payload = Inr p \<and> pp_uuid p = take 16 proj)"
proof
  assume "verify_record_trailer S blob ws = Inr pk"
  then obtain fb where fb: "parse_framed_blob blob = Inr fb" "ws_contains ws (fb_writer_pubkey fb)" "fb_writer_pubkey fb = pk"
    "verify_sig_and_uuid S (fb_writer_pubkey fb) (fb_signing_payload fb) (fb_signature fb) (fb_uuid_from_proj fb) = Inr ()"
    by (auto simp: verify_record_trailer_def bind_r_Inr_iff split: if_splits)
  from fb(4) obtain p where p: "sg_verify S pk (fb_signing_payload fb) (fb_signature fb)" "parse_signing_payload (fb_signing_payload fb) = Inr p"
    "pp_uuid p = fb_uuid_from_proj fb"
    using fb(3) by (auto simp: verify_sig_and_uuid_def bind_r_Inr_iff split: if_splits)
  from parse_framed_only[OF fb(1)] obtain proj where pr: "16 \<le> length proj" "length proj < 2 ^ 32" "length (fb_writer_pubkey fb) = 32"
    "length (fb_signature fb) = 64" "length (fb_signing_payload fb) < 2 ^ 32" "fb_uuid_from_proj fb = take 16 proj"
    "blob = trailer_frame proj (fb_writer_pubkey fb) (fb_signature fb) (fb_signing_payload fb)" by blast
  show "\<exists>proj sig payload p. blob = trailer_frame proj pk sig payload \<and> 16 \<le> length proj \<and> length proj < 2 ^ 32 \<and> length pk = 32
        \<and> length sig = 64 \<and> length payload < 2 ^ 32 \<and> ws_contains ws pk \<and> sg_verify S pk payload sig
        \<and> parse_signing_payload payload = Inr p \<and> pp_uuid p = take 16 proj"
    by (intro exI[of _ proj] exI[of _ "fb_signature fb"] exI[of _ "fb_signing_payload fb"] exI[of _ p]) (use fb pr p in auto)
next
  assume "\<exists>proj sig payload p. blob = trailer_frame proj pk sig payload \<and> 16 \<le> length proj \<and> length proj < 2 ^ 32 \<and> length pk = 32
        \<and> length sig = 64 \<and> length payload < 2 ^ 32 \<and> ws_contains ws pk \<and> sg_verify S pk payload sig
        \<and> parse_signing_payload payload = Inr p \<and> pp_uuid p = take 16 proj"
  then show "verify_record_trailer S blob ws = Inr pk"
    by (auto simp: verify_record_trailer_def parse_framed_frame verify_sig_and_uuid_def)
qed

text \<open>A key grant sealed to a member opens for that member and gives the key and its epoch back.\<close>

theorem key_grant_opens:
  assumes P: "prims_ok P" and D: "dh_env_ok D" and l: "length root_key = 32" "length nonce = 12"
  shows "open_key_grant P D (seal_key_grant P D e_scalar nonce root_key key_epoch (dh_pub D secret)) secret = Inr (root_key, key_epoch)"
proof -
  let ?e = "dh_pub D e_scalar" and ?k = "derive_kek_grant P (dh_shared D e_scalar (dh_pub D secret)) (dh_pub D secret) (dh_pub D e_scalar)"
  let ?ct = "p_gcm_seal P ?k nonce [] (root_key @ u64_to_le key_epoch)"
  let ?b = "GRANT_MAGIC @ ?e @ nonce @ ?ct"
  have el: "length ?e = 32" "length GRANT_MAGIC = 10" using D by (simp_all add: dh_env_ok_def GRANT_MAGIC_def)
  have cl: "length ?ct = 56" using P l by (simp add: prims_ok_def)
  have f: "take 10 ?b = GRANT_MAGIC" "slice 10 32 ?b = ?e" "slice 42 12 ?b = nonce" "drop 54 ?b = ?ct" "length ?b = GRANT_BLOB_LEN"
    using el cl l by (simp_all add: slice_append_skip slice_append_exact GRANT_BLOB_LEN_def)
  have sh: "dh_shared D secret ?e = dh_shared D e_scalar (dh_pub D secret)" and co: "dh_contributory D secret ?e" using D by (simp_all add: dh_env_ok_def)
  have op: "p_gcm_open P ?k nonce [] ?ct = Some (root_key @ u64_to_le key_epoch)" using P by (simp add: prims_ok_def)
  show ?thesis
    unfolding open_key_grant_def seal_key_grant_def Let_def seal_with_nonce_def open_with_nonce_def f sh
    using co op l by (simp add: slice_append_skip slice_all)
qed

definition toy_dh :: dh_env where
  "toy_dh = \<lparr>dh_pub = (\<lambda>a. replicate 32 3), dh_shared = (\<lambda>a p. replicate 32 4), dh_contributory = (\<lambda>a p. True)\<rparr>"

theorem key_grant_opens_witness:
  "open_key_grant toy_prims toy_dh (seal_key_grant toy_prims toy_dh [1] (replicate 12 2) (replicate 32 9) 7 (dh_pub toy_dh [8])) [8] = Inr (replicate 32 9, 7)"
  by (rule key_grant_opens[OF toy_prims_ok]) (simp_all add: dh_env_ok_def toy_dh_def)

end
