(* ===== verification/Xts.thy ===== *)
theory Xts
  imports Crypto
begin

text \<open>
  AES-256-XTS, \<^verbatim>\<open>sfs-core/src/crypto/xts.rs\<close>, and the registry of cipher suites of \<^verbatim>\<open>crypto/mod.rs\<close>.
  The block cipher is a crate: a record \<open>aes_env\<close> of its two directions, with \<open>aes_ok\<close> for what is
  documented of it (a permutation of blocks of 16 bytes). The tweak chain, the batches and the stealing of
  ciphertext for a sector that is no multiple of 16 bytes are code of the repository. Shown: the batched
  routine equals the one that handles a block at a time, opening inverts sealing for every length of at
  least 16, and lengths are kept.
\<close>

unbundle bit_operations_syntax

section \<open>The block cipher\<close>

record aes_env =
  ae_encrypt :: "bytes \<Rightarrow> bytes \<Rightarrow> bytes"  \<comment> \<open>key, block\<close>
  ae_decrypt :: "bytes \<Rightarrow> bytes \<Rightarrow> bytes"

definition aes_ok :: "aes_env \<Rightarrow> bool" where
  "aes_ok E \<longleftrightarrow>
     (\<forall>k b. length b = 16 \<longrightarrow> length (ae_encrypt E k b) = 16 \<and> length (ae_decrypt E k b) = 16
       \<and> ae_decrypt E k (ae_encrypt E k b) = b \<and> ae_encrypt E k (ae_decrypt E k b) = b)"

section \<open>Keys and tweaks\<close>

definition expand_xts_key :: "prims \<Rightarrow> bytes \<Rightarrow> bytes" where
  "expand_xts_key P key = p_hkdf P (ascii ''sfs-xts-key-salt-v1'') key (ascii ''sfs-xts-key-v1'') 64"

definition derive_tweak :: "prims \<Rightarrow> bytes \<Rightarrow> block_ctx \<Rightarrow> bytes" where
  "derive_tweak P key ctx =
     p_hkdf P (ascii ''sfs-xts-tweak-salt-v1'') key (ascii ''sfs-xts-tweak-v1'' @ block_ctx_bytes ctx) 16"

definition gf128_mul_alpha_le :: "bytes \<Rightarrow> bytes" where
  "gf128_mul_alpha_le t =
     (let lo = u64_from_le (slice 0 8 t); hi = u64_from_le (slice 8 8 t);
          new_lo = push_bit 1 lo XOR (if drop_bit 63 hi \<noteq> 0 then 0x87 else 0);
          new_hi = drop_bit 63 lo OR push_bit 1 hi
      in u64_to_le new_lo @ u64_to_le new_hi)"

definition xor16 :: "bytes \<Rightarrow> bytes \<Rightarrow> bytes" where
  "xor16 block tweak = map2 (XOR) block tweak @ drop (length tweak) block"

definition XTS_BATCH :: nat where
  "XTS_BATCH = 256"

section \<open>A sector\<close>

text \<open>The tweaks of a batch, and the tweak that follows them.\<close>

primrec tweak_batch :: "nat \<Rightarrow> bytes \<Rightarrow> bytes list \<times> bytes" where
  "tweak_batch 0 tweak = ([], tweak)"
| "tweak_batch (Suc n) tweak = (let (ts, t) = tweak_batch n (gf128_mul_alpha_le tweak) in (tweak # ts, t))"

text \<open>The tweaks are xored into the successive blocks of a region; a shorter rest is left alone.\<close>

fun xor_chunks :: "bytes list \<Rightarrow> bytes \<Rightarrow> bytes" where
  "xor_chunks [] region = region"
| "xor_chunks (t # ts) region =
     (if length region < 16 then region else xor16 (take 16 region) t @ xor_chunks ts (drop 16 region))"

definition blocks_inout :: "(bytes \<Rightarrow> bytes) \<Rightarrow> bytes \<Rightarrow> bytes" where
  "blocks_inout f region =
     concat (map f (chunks_at 16 (length region div 16) region 0)) @ drop (16 * (length region div 16)) region"

function batch_loop :: "(bytes \<Rightarrow> bytes) \<Rightarrow> nat \<Rightarrow> nat \<Rightarrow> bytes \<Rightarrow> bytes \<Rightarrow> bytes \<times> bytes" where
  "batch_loop f nosteal_block_count num_done tweak sector =
     (if nosteal_block_count \<le> num_done then (sector, tweak)
      else let n = min XTS_BATCH (nosteal_block_count - num_done);
               (tweaks, tweak') = tweak_batch n tweak;
               region = slice (num_done * 16) (n * 16) sector;
               region' = xor_chunks tweaks (blocks_inout f (xor_chunks tweaks region))
           in batch_loop f nosteal_block_count (num_done + n) tweak' (splice (num_done * 16) region' sector))"
  by pat_completeness auto
termination by (relation "measure (\<lambda>(f, m, d, t, s). m - d)") (auto simp: XTS_BATCH_def)

declare batch_loop.simps [simp del]

definition steal_tail :: "(bytes \<Rightarrow> bytes) \<Rightarrow> bool \<Rightarrow> bytes \<Rightarrow> bytes \<Rightarrow> bytes" where
  "steal_tail f decrypt tweak sector =
     (let block_count = length sector div 16;
          last_tweak = gf128_mul_alpha_le tweak;
          remaining = length sector mod 16;
          first_tweak = (if decrypt then last_tweak else tweak);
          second_tweak = (if decrypt then tweak else last_tweak);
          block = xor16 (f (xor16 (slice (16 * (block_count - 1)) 16 sector) first_tweak)) first_tweak;
          last_block = drop (16 * block_count) sector @ drop remaining block;
          last_block' = xor16 (f (xor16 last_block second_tweak)) second_tweak
      in splice (16 * block_count) (take remaining block) (splice (16 * (block_count - 1)) last_block' sector))"

definition xts_sector_batched :: "aes_env \<Rightarrow> bytes \<Rightarrow> bytes \<Rightarrow> bytes \<Rightarrow> bytes \<Rightarrow> bool \<Rightarrow> bytes" where
  "xts_sector_batched E data_key tweak_key sector raw_tweak decrypt =
     (let block_count = length sector div 16;
          need_stealing = (length sector mod 16 \<noteq> 0);
          tweak = ae_encrypt E tweak_key raw_tweak;
          nosteal_block_count = (if need_stealing then block_count - 1 else block_count);
          f = (if decrypt then ae_decrypt E data_key else ae_encrypt E data_key);
          (sector', tweak') = batch_loop f nosteal_block_count 0 tweak sector
      in if need_stealing then steal_tail f decrypt tweak' sector' else sector')"

section \<open>The suites\<close>

definition xts_seal :: "prims \<Rightarrow> aes_env \<Rightarrow> bytes \<Rightarrow> block_ctx \<Rightarrow> bytes \<Rightarrow> bytes result" where
  "xts_seal P E key ctx plaintext =
     (if length plaintext < 16 then Inl (Crypto ''XTS requires blocks of at least 16 bytes'')
      else let xts_key = expand_xts_key P key
           in Inr (xts_sector_batched E (take 32 xts_key) (drop 32 xts_key) plaintext (derive_tweak P key ctx) False))"

definition xts_open :: "prims \<Rightarrow> aes_env \<Rightarrow> bytes \<Rightarrow> block_ctx \<Rightarrow> bytes \<Rightarrow> bytes result" where
  "xts_open P E key ctx ciphertext =
     (if length ciphertext < 16 then Inl (Crypto ''XTS ciphertext too short'')
      else let xts_key = expand_xts_key P key
           in Inr (xts_sector_batched E (take 32 xts_key) (drop 32 xts_key) ciphertext (derive_tweak P key ctx) True))"

text \<open>Opening in place returns the buffer with the outcome; a buffer that is too short is left as it is.\<close>

definition xts_open_in_place :: "prims \<Rightarrow> aes_env \<Rightarrow> bytes \<Rightarrow> block_ctx \<Rightarrow> bytes \<Rightarrow> unit result \<times> bytes" where
  "xts_open_in_place P E key ctx buf =
     (if length buf < 16 then (Inl (Crypto ''XTS ciphertext too short''), buf)
      else let xts_key = expand_xts_key P key
           in (Inr (), xts_sector_batched E (take 32 xts_key) (drop 32 xts_key) buf (derive_tweak P key ctx) True))"

lemma xts_open_in_place_eq:
  "xts_open_in_place P E key ctx buf = (case xts_open P E key ctx buf of Inl e \<Rightarrow> (Inl e, buf) | Inr m \<Rightarrow> (Inr (), m))"
  by (simp add: xts_open_in_place_def xts_open_def Let_def)

text \<open>A suite is what the registry finds under an identifier.\<close>

datatype suite = SuiteNone | SuiteGcm | SuiteXts

definition registry_get :: "cipher_suite_id \<Rightarrow> suite option" where
  "registry_get sid =
     (if sid = CIPHER_NONE then Some SuiteNone
      else if sid = CIPHER_AES256_GCM then Some SuiteGcm
      else if sid = CIPHER_XTS_AES256 then Some SuiteXts else None)"

primrec suite_seal :: "prims \<Rightarrow> aes_env \<Rightarrow> suite \<Rightarrow> bytes \<Rightarrow> block_ctx \<Rightarrow> bytes \<Rightarrow> bytes result" where
  "suite_seal P E SuiteNone = none_seal"
| "suite_seal P E SuiteGcm = gcm_seal P"
| "suite_seal P E SuiteXts = xts_seal P E"

primrec suite_open :: "prims \<Rightarrow> aes_env \<Rightarrow> suite \<Rightarrow> bytes \<Rightarrow> block_ctx \<Rightarrow> bytes \<Rightarrow> bytes result" where
  "suite_open P E SuiteNone = none_open"
| "suite_open P E SuiteGcm = gcm_open P"
| "suite_open P E SuiteXts = xts_open P E"

primrec min_plaintext_len :: "suite \<Rightarrow> nat" where
  "min_plaintext_len SuiteNone = 0"
| "min_plaintext_len SuiteGcm = 0"
| "min_plaintext_len SuiteXts = 16"

section \<open>One block at a time\<close>

definition xex :: "(bytes \<Rightarrow> bytes) \<Rightarrow> bytes \<Rightarrow> bytes \<Rightarrow> bytes" where
  "xex f t b = xor16 (f (xor16 b t)) t"

primrec xex_chain :: "(bytes \<Rightarrow> bytes) \<Rightarrow> bytes \<Rightarrow> bytes list \<Rightarrow> bytes list" where
  "xex_chain f t [] = []"
| "xex_chain f t (b # bs) = xex f t b # xex_chain f (gf128_mul_alpha_le t) bs"

abbreviation wide :: "bytes list \<Rightarrow> bool" where
  "wide bs \<equiv> list_all (\<lambda>b. length b = 16) bs"

definition block_map :: "(bytes \<Rightarrow> bytes) \<Rightarrow> bool" where
  "block_map f \<longleftrightarrow> (\<forall>b. length b = 16 \<longrightarrow> length (f b) = 16)"

lemma gf_length [simp]: "length (gf128_mul_alpha_le t) = 16"
  by (simp add: gf128_mul_alpha_le_def Let_def)

lemma gf_power_length: "length t = 16 \<Longrightarrow> length ((gf128_mul_alpha_le ^^ n) t) = 16"
  by (cases n) simp_all

lemma xor16_length [simp]: "length b = 16 \<Longrightarrow> length t = 16 \<Longrightarrow> length (xor16 b t) = 16"
  by (simp add: xor16_def)

lemma xor16_twice [simp]: "length b = 16 \<Longrightarrow> length t = 16 \<Longrightarrow> xor16 (xor16 b t) t = b"
  by (auto simp: xor16_def intro!: nth_equalityI simp: xor.assoc)

lemma xex_length [simp]: "block_map f \<Longrightarrow> length b = 16 \<Longrightarrow> length t = 16 \<Longrightarrow> length (xex f t b) = 16"
  by (simp add: xex_def block_map_def)

lemma xex_inverse:
  assumes "length b = 16" and "length t = 16" and "block_map f" and "\<And>b. length b = 16 \<Longrightarrow> g (f b) = b"
  shows "xex g t (xex f t b) = b"
  using assms by (simp add: xex_def block_map_def)

lemma xex_chain_wide: "wide bs \<Longrightarrow> length t = 16 \<Longrightarrow> block_map f \<Longrightarrow> wide (xex_chain f t bs)"
  by (induction bs arbitrary: t) simp_all

lemma length_xex_chain [simp]: "length (xex_chain f t bs) = length bs"
  by (induction bs arbitrary: t) simp_all

lemma xex_chain_append:
  "xex_chain f t (bs @ cs) = xex_chain f t bs @ xex_chain f ((gf128_mul_alpha_le ^^ length bs) t) cs"
  by (induction bs arbitrary: t) (simp_all add: funpow_swap1)

lemma xex_chain_inverse:
  assumes "block_map f" and "\<And>b. length b = 16 \<Longrightarrow> g (f b) = b"
  shows "wide bs \<Longrightarrow> length t = 16 \<Longrightarrow> xex_chain g t (xex_chain f t bs) = bs"
  by (induction bs arbitrary: t) (simp_all add: xex_inverse assms)

section \<open>Batches\<close>

lemma tweak_batch_snd: "snd (tweak_batch n t) = (gf128_mul_alpha_le ^^ n) t"
  by (induction n arbitrary: t) (simp_all add: case_prod_beta funpow_swap1)

lemma tweak_batch_length: "length (fst (tweak_batch n t)) = n"
  by (induction n arbitrary: t) (simp_all add: case_prod_beta)

lemma xor_chunks_concat:
  "wide bs \<Longrightarrow> length ts = length bs \<Longrightarrow> xor_chunks ts (concat bs) = concat (map2 xor16 bs ts)"
  by (induction ts bs rule: list_induct2') simp_all

lemma blocks_inout_concat:
  assumes "wide bs"
  shows "blocks_inout f (concat bs) = concat (map f bs)"
proof -
  have l: "length (concat bs) = 16 * length bs" by (rule length_concat_width[OF assms])
  have "chunks_at 16 (length bs) (concat bs) 0 = bs" using chunks_at_here[of 16 bs "[]" "[]"] assms by simp
  with l show ?thesis by (simp add: blocks_inout_def)
qed

lemma batch_blocks:
  assumes "block_map f"
  shows "wide bs \<Longrightarrow> length t = 16 \<Longrightarrow> map2 xor16 (map f (map2 xor16 bs (fst (tweak_batch (length bs) t)))) (fst (tweak_batch (length bs) t)) = xex_chain f t bs"
  by (induction bs arbitrary: t) (simp_all add: case_prod_beta xex_def)

lemma wide_map2: "wide bs \<Longrightarrow> wide ts \<Longrightarrow> wide (map2 xor16 bs ts)"
  by (induction bs ts rule: list_induct2') simp_all

lemma tweak_batch_wide: "length t = 16 \<Longrightarrow> wide (fst (tweak_batch n t))"
  by (induction n arbitrary: t) (simp_all add: case_prod_beta)

lemma wide_map: "block_map f \<Longrightarrow> wide bs \<Longrightarrow> wide (map f bs)"
  by (induction bs) (simp_all add: block_map_def)

lemma batch_region:
  assumes "block_map f" and "wide bs" and "length t = 16" and "ts = fst (tweak_batch (length bs) t)"
  shows "xor_chunks ts (blocks_inout f (xor_chunks ts (concat bs))) = concat (xex_chain f t bs)"
proof -
  have w: "wide ts" "length ts = length bs" using assms by (simp_all add: tweak_batch_wide tweak_batch_length)
  have m: "wide (map2 xor16 bs ts)" by (rule wide_map2[OF assms(2) w(1)])
  have "xor_chunks ts (concat (map f (map2 xor16 bs ts))) = concat (map2 xor16 (map f (map2 xor16 bs ts)) ts)"
    using wide_map[OF assms(1) m] by (rule xor_chunks_concat) (simp add: w)
  then show ?thesis
    unfolding xor_chunks_concat[OF assms(2) w(2)] blocks_inout_concat[OF m]
    using batch_blocks[OF assms(1,2,3)] assms(4) by simp
qed

lemma splice_mid: "length pre = off \<Longrightarrow> length new = length old \<Longrightarrow> splice off new (pre @ old @ rest) = pre @ new @ rest"
  by (simp add: splice_def)

lemma batch_loop_chain:
  assumes "block_map f"
  shows "wide bs \<Longrightarrow> length t = 16 \<Longrightarrow> length pre = 16 * d \<Longrightarrow> m = d + length bs \<Longrightarrow>
    batch_loop f m d t (pre @ concat bs @ rest)
      = (pre @ concat (xex_chain f t bs) @ rest, (gf128_mul_alpha_le ^^ length bs) t)"
proof (induction "length bs" arbitrary: bs t pre d rule: less_induct)
  case less
  show ?case
  proof (cases "bs = []")
    case True
    then show ?thesis using less.prems by (subst batch_loop.simps) simp
  next
    case False
    define n where "n = min XTS_BATCH (length bs)"
    have n: "0 < n" "n \<le> length bs" "n = min XTS_BATCH (m - d)"
      using False less.prems(4) by (auto simp: n_def XTS_BATCH_def)
    have nm: "\<not> m \<le> d" using False less.prems(4) by simp
    define b1 b2 where "b1 = take n bs" and "b2 = drop n bs"
    have b: "bs = b1 @ b2" "length b1 = n" "wide b1" "wide b2"
      using less.prems(1) n by (auto simp: b1_def b2_def list_all_iff dest: in_set_takeD in_set_dropD)
    have l1: "length (concat b1) = n * 16" using length_concat_width[OF b(3)] b(2) by simp
    let ?t = "(gf128_mul_alpha_le ^^ n) t" and ?c = "concat (xex_chain f t b1)"
    have lc: "length ?c = n * 16"
      using length_concat_width[OF xex_chain_wide[OF b(3) less.prems(2) assms]] b(2) by simp
    obtain ts t' where tb: "tweak_batch n t = (ts, t')" by fastforce
    have ts: "ts = fst (tweak_batch (length b1) t)" "t' = ?t"
      using tb b(2) tweak_batch_snd[of n t] by simp_all
    have rg: "slice (d * 16) (n * 16) (pre @ concat bs @ rest) = concat b1"
      using less.prems(3) l1 by (simp add: b(1) slice_append_skip slice_append_exact)
    have "batch_loop f m d t (pre @ concat bs @ rest)
        = batch_loop f m (d + n) ?t (splice (d * 16) ?c (pre @ concat bs @ rest))"
      unfolding batch_loop.simps[of f m d t] if_not_P[OF nm] n(3)[symmetric] Let_def tb prod.case rg
        batch_region[OF assms b(3) less.prems(2) ts(1)] ts(2) ..
    also have "splice (d * 16) ?c (pre @ concat bs @ rest) = (pre @ ?c) @ concat b2 @ rest"
      using splice_mid[of pre "d * 16" ?c "concat b1" "concat b2 @ rest"] less.prems(3) l1 lc by (simp add: b(1))
    also have "batch_loop f m (d + n) ?t ((pre @ ?c) @ concat b2 @ rest)
        = ((pre @ ?c) @ concat (xex_chain f ?t b2) @ rest, (gf128_mul_alpha_le ^^ length b2) ?t)"
    proof (rule less.hyps)
      show "length b2 < length bs" "m = d + n + length b2" using n(1) b(1,2) less.prems(4) by simp_all
      show "length (pre @ ?c) = 16 * (d + n)" using less.prems(3) lc by simp
    qed (simp_all add: b(4) gf_power_length less.prems(2))
    also have "(gf128_mul_alpha_le ^^ length b2) ?t = (gf128_mul_alpha_le ^^ length bs) t"
      using b(1,2) by (simp add: funpow_add add.commute[of n])
    finally show ?thesis using b(1,2) by (simp add: xex_chain_append)
  qed
qed

section \<open>Whole sectors\<close>

text \<open>The last full block and the rest of a sector, one block at a time.\<close>

definition xex_tail :: "(bytes \<Rightarrow> bytes) \<Rightarrow> bytes \<Rightarrow> bytes \<Rightarrow> bytes \<Rightarrow> bytes \<Rightarrow> bytes" where
  "xex_tail f t1 t2 b r = xex f t2 (r @ drop (length r) (xex f t1 b)) @ take (length r) (xex f t1 b)"

lemma steal_tail_eq:
  assumes "length pre = 16 * k" and "length b = 16" and "r \<noteq> []" and "length r < 16" and "length t = 16" and "block_map f"
  shows "steal_tail f dec t (pre @ b @ r)
    = pre @ (if dec then xex_tail f (gf128_mul_alpha_le t) t b r else xex_tail f t (gf128_mul_alpha_le t) b r)"
proof -
  have l: "length (pre @ b @ r) div 16 = Suc k" "length (pre @ b @ r) mod 16 = length r"
    using assms(1,2,4) by simp_all
  have s: "slice (16 * k) 16 (pre @ b @ r) = b" "drop (16 + 16 * k) (pre @ b @ r) = r"
    using assms(1,2) by (simp_all add: slice_append_skip slice_append_exact)
  have put: "splice (16 + 16 * k) (take (length r) x) (splice (16 * k) y (pre @ b @ r)) = pre @ y @ take (length r) x"
    if "length x = 16" "length y = 16" for x y
  proof -
    have "splice (16 * k) y (pre @ b @ r) = (pre @ y) @ r @ []"
      using splice_mid[of pre "16 * k" y b r] assms(1,2) that by simp
    then show ?thesis
      using splice_mid[of "pre @ y" "16 + 16 * k" "take (length r) x" r "[]"] assms(1,4) that by simp
  qed
  show ?thesis
    unfolding steal_tail_def l mult_Suc_right s diff_Suc_1 Let_def
    using assms(2,4,5,6) by (cases dec) (simp_all add: put xex_tail_def flip: xex_def)
qed

lemma sector_parts:
  assumes "16 \<le> length (s :: bytes)"
  obtains (full) bs where "wide bs" "s = concat bs"
  | (rest) bs b r where "wide bs" "length b = 16" "r \<noteq> []" "length r < 16" "s = concat bs @ b @ r"
proof (cases "length s mod 16 = 0")
  case True
  let ?n = "length s div 16"
  have "16 * ?n = length s" using True by presburger
  then have "wide (chunks_at 16 ?n s 0)" "s = concat (chunks_at 16 ?n s 0)"
    by (auto intro!: chunks_at_width simp: concat_chunks_at slice_all)
  then show ?thesis by (rule full)
next
  case False
  let ?n = "length s div 16 - 1"
  have n: "16 * ?n + 16 + length s mod 16 = length s" using assms by presburger
  let ?cs = "chunks_at 16 ?n s 0" and ?b = "slice (16 * ?n) 16 s" and ?r = "drop 16 (drop (16 * ?n) s)"
  have w: "wide ?cs" using n by (intro chunks_at_width) linarith
  have b: "length ?b = 16" using n by (intro length_slice_exact) linarith
  have r: "length ?r = length s mod 16" unfolding length_drop using n by linarith
  have e: "s = concat ?cs @ ?b @ ?r"
    unfolding concat_chunks_at unfolding slice_def drop_0 by (metis append_take_drop_id)
  have "?r \<noteq> []" using r False by (metis list.size(3))
  moreover have "length ?r < 16" unfolding r by simp
  ultimately show ?thesis by (rule rest[OF w b _ _ e])
qed

lemma batched_full:
  assumes "aes_ok E" and "wide bs" and "length t = 16"
  shows "xts_sector_batched E dk tk (concat bs) t dec
    = concat (xex_chain (if dec then ae_decrypt E dk else ae_encrypt E dk) (ae_encrypt E tk t) bs)"
proof -
  let ?f = "if dec then ae_decrypt E dk else ae_encrypt E dk"
  have l: "length (concat bs) = 16 * length bs" by (rule length_concat_width[OF assms(2)])
  have f: "block_map ?f" and t: "length (ae_encrypt E tk t) = 16" using assms(1,3) by (auto simp: aes_ok_def block_map_def)
  show ?thesis
    using batch_loop_chain[OF f assms(2) t, of "[]" 0 "length bs" "[]"] l by (simp add: xts_sector_batched_def Let_def)
qed

lemma batched_rest:
  fixes tk :: bytes
  assumes "aes_ok E" and "wide bs" and "length t = 16" and "length b = 16" and "r \<noteq> []" and "length r < 16"
  defines "t1 \<equiv> (gf128_mul_alpha_le ^^ length bs) (ae_encrypt E tk t)"
  shows "xts_sector_batched E dk tk (concat bs @ b @ r) t False
      = concat (xex_chain (ae_encrypt E dk) (ae_encrypt E tk t) bs) @ xex_tail (ae_encrypt E dk) t1 (gf128_mul_alpha_le t1) b r"
    and "xts_sector_batched E dk tk (concat bs @ b @ r) t True
      = concat (xex_chain (ae_decrypt E dk) (ae_encrypt E tk t) bs) @ xex_tail (ae_decrypt E dk) (gf128_mul_alpha_le t1) t1 b r"
proof -
  have "xts_sector_batched E dk tk (concat bs @ b @ r) t dec
      = steal_tail f dec t1 (concat (xex_chain f (ae_encrypt E tk t) bs) @ b @ r)"
    if f: "f = (if dec then ae_decrypt E dk else ae_encrypt E dk)" for f dec
  proof -
    have l: "length (concat bs) = 16 * length bs" by (rule length_concat_width[OF assms(2)])
    have bm: "block_map f" and t: "length (ae_encrypt E tk t) = 16" using assms(1,3) f by (auto simp: aes_ok_def block_map_def)
    have c: "length (concat bs @ b @ r) div 16 = Suc (length bs)" "length (concat bs @ b @ r) mod 16 \<noteq> 0"
      using l assms(4,5,6) by simp_all
    show ?thesis
      using batch_loop_chain[OF bm assms(2) t, of "[]" 0 "length bs" "b @ r"] c f
      by (simp add: xts_sector_batched_def Let_def t1_def)
  qed
  moreover have "length t1 = 16" using assms(1,3) by (auto simp: t1_def aes_ok_def intro: gf_power_length)
  moreover have "length (concat (xex_chain f (ae_encrypt E tk t) bs)) = 16 * length bs" if "block_map f" for f
    using length_concat_width[OF xex_chain_wide[OF assms(2) _ that]] assms(1,3) by (simp add: aes_ok_def)
  ultimately show "xts_sector_batched E dk tk (concat bs @ b @ r) t False
      = concat (xex_chain (ae_encrypt E dk) (ae_encrypt E tk t) bs) @ xex_tail (ae_encrypt E dk) t1 (gf128_mul_alpha_le t1) b r"
    "xts_sector_batched E dk tk (concat bs @ b @ r) t True
      = concat (xex_chain (ae_decrypt E dk) (ae_encrypt E tk t) bs) @ xex_tail (ae_decrypt E dk) (gf128_mul_alpha_le t1) t1 b r"
    using assms(1,4,5,6) by (simp_all add: steal_tail_eq[where k = "length bs"] aes_ok_def block_map_def)
qed

lemma xex_tail_inverse:
  assumes "block_map f" and "\<And>b. length b = 16 \<Longrightarrow> g (f b) = b" and "length b = 16" and "length r < 16"
    and "length t1 = 16" and "length t2 = 16"
  defines "c \<equiv> xex_tail f t1 t2 b r"
  shows "xex_tail g t2 t1 (take 16 c) (drop 16 c) = b @ r" and "length c = 16 + length r"
proof -
  let ?x = "xex f t1 b" let ?y = "xex f t2 (r @ drop (length r) ?x)"
  have x: "length ?x = 16" "length ?y = 16" using assms(1,3-6) by simp_all
  have c: "take 16 c = ?y" "drop 16 c = take (length r) ?x" using x by (simp_all add: c_def xex_tail_def)
  have "xex g t2 ?y = r @ drop (length r) ?x" using assms x by (intro xex_inverse) simp_all
  moreover have "xex g t1 ?x = b" using assms by (intro xex_inverse) simp_all
  ultimately show "xex_tail g t2 t1 (take 16 c) (drop 16 c) = b @ r"
    using x assms(4) by (simp add: c xex_tail_def)
  show "length c = 16 + length r" using x assms(4) by (simp add: c_def xex_tail_def)
qed

lemma sector_inverse:
  assumes "aes_ok E" and "length t = 16" and "16 \<le> length s"
  shows "xts_sector_batched E dk tk (xts_sector_batched E dk tk s t False) t True = s"
    and "length (xts_sector_batched E dk tk s t False) = length s"
proof -
  let ?e = "ae_encrypt E dk" and ?d = "ae_decrypt E dk" and ?t = "ae_encrypt E tk t"
  have f: "block_map ?e" "\<And>b. length b = 16 \<Longrightarrow> ?d (?e b) = b" and t: "length ?t = 16"
    using assms(1,2) by (auto simp: aes_ok_def block_map_def)
  have "xts_sector_batched E dk tk (xts_sector_batched E dk tk s t False) t True = s
      \<and> length (xts_sector_batched E dk tk s t False) = length s"
  proof (cases rule: sector_parts[OF assms(3), case_names full rest])
    case (full bs)
    have w: "wide (xex_chain ?e ?t bs)" by (rule xex_chain_wide[OF full(1) t f(1)])
    show ?thesis
      using xex_chain_inverse[OF f full(1) t] length_concat_width[OF w] length_concat_width[OF full(1)]
      by (simp add: full(2) batched_full[OF assms(1) _ assms(2)] full(1) w)
  next
    case (rest bs b r)
    have w: "wide (xex_chain ?e ?t bs)" by (rule xex_chain_wide[OF rest(1) t f(1)])
    let ?t1 = "(gf128_mul_alpha_le ^^ length bs) ?t" let ?c = "xex_tail ?e ?t1 (gf128_mul_alpha_le ?t1) b r"
    have t1: "length ?t1 = 16" by (rule gf_power_length[OF t])
    note i = xex_tail_inverse[OF f rest(2,4) t1, of "gf128_mul_alpha_le ?t1"]
    have c: "?c = take 16 ?c @ drop 16 ?c" "length (take 16 ?c) = 16" "drop 16 ?c \<noteq> []" "length (drop 16 ?c) < 16"
      using i(2) rest(3,4) by simp_all
    have "xts_sector_batched E dk tk (concat (xex_chain ?e ?t bs) @ take 16 ?c @ drop 16 ?c) t True = concat bs @ b @ r"
      using batched_rest(2)[OF assms(1) w assms(2) c(2,3,4)] xex_chain_inverse[OF f rest(1) t] i(1) by simp
    then show ?thesis
      using batched_rest(1)[OF assms(1) rest(1) assms(2) rest(2,3,4)] c(1) i(2)
        length_concat_width[OF w] length_concat_width[OF rest(1)] rest(2,5) by simp
  qed
  then show "xts_sector_batched E dk tk (xts_sector_batched E dk tk s t False) t True = s"
    "length (xts_sector_batched E dk tk s t False) = length s" by simp_all
qed

section \<open>What the suites promise\<close>

primrec suite_overhead :: "suite \<Rightarrow> nat" where
  "suite_overhead SuiteNone = 0"
| "suite_overhead SuiteGcm = 16"
| "suite_overhead SuiteXts = 0"

lemma xts_seal_ok: "16 \<le> length m \<Longrightarrow> is_ok (xts_seal P E key ctx m)"
  by (simp add: xts_seal_def Let_def)

lemma xts_opens:
  assumes "prims_ok P" and "aes_ok E" and "xts_seal P E key ctx m = Inr c"
  shows "xts_open P E key ctx c = Inr m" and "length c = length m"
proof -
  have t: "length (derive_tweak P key ctx) = 16" using assms(1) by (simp add: derive_tweak_def prims_ok_def)
  from assms(3) have m: "16 \<le> length m" by (simp add: xts_seal_def split: if_splits)
  show "xts_open P E key ctx c = Inr m" "length c = length m"
    using sector_inverse[OF assms(2) t m] assms(3) m by (auto simp: xts_seal_def xts_open_def Let_def)
qed

lemma suite_seals:
  assumes "prims_ok P" and "aes_ok E" and "min_plaintext_len s \<le> length m"
  shows "\<exists>c. suite_seal P E s key ctx m = Inr c \<and> suite_open P E s key ctx c = Inr m \<and> length c = length m + suite_overhead s"
proof (cases s)
  case SuiteXts
  then obtain c where "xts_seal P E key ctx m = Inr c" using xts_seal_ok assms(3) by (fastforce simp: is_ok_iff)
  with xts_opens[OF assms(1,2) this] SuiteXts show ?thesis by simp
qed (use assms(1) in \<open>simp_all add: none_seal_def none_open_def gcm_seal_def gcm_open_def prims_ok_def Let_def\<close>)

text \<open>C40. Sealing with AES-256-XTS succeeds exactly for plaintexts of at least one block, keeps the length whether or not the last
  block is full, and is undone by opening; on whole blocks it is the chain of single blocks, so the size of a batch cannot be seen.\<close>

theorem xts_exact:
  assumes "prims_ok P" and "aes_ok E"
  shows "(is_ok (xts_seal P E key ctx m) \<longleftrightarrow> 16 \<le> length m)
    \<and> (\<forall>c. xts_seal P E key ctx m = Inr c \<longrightarrow> length c = length m \<and> xts_open P E key ctx c = Inr m)
    \<and> (\<forall>bs. list_all (\<lambda>b. length b = 16) bs \<and> bs \<noteq> [] \<and> m = concat bs \<longrightarrow>
         xts_seal P E key ctx m = Inr (concat (xex_chain (ae_encrypt E (take 32 (expand_xts_key P key)))
           (ae_encrypt E (drop 32 (expand_xts_key P key)) (derive_tweak P key ctx)) bs)))"
proof -
  have t: "length (derive_tweak P key ctx) = 16" using assms(1) by (simp add: derive_tweak_def prims_ok_def)
  have l: "16 \<le> length (concat bs)" if "wide bs" "bs \<noteq> []" for bs :: "bytes list"
    using length_concat_width[OF that(1)] that(2) by (cases bs) simp_all
  have c: "xts_seal P E key ctx (concat bs) = Inr (concat (xex_chain (ae_encrypt E (take 32 (expand_xts_key P key)))
      (ae_encrypt E (drop 32 (expand_xts_key P key)) (derive_tweak P key ctx)) bs))" if "wide bs" "bs \<noteq> []" for bs
    using l[OF that] by (simp add: xts_seal_def Let_def batched_full[OF assms(2) that(1) t])
  have o: "is_ok (xts_seal P E key ctx m) \<longleftrightarrow> 16 \<le> length m" by (simp add: xts_seal_def Let_def)
  show ?thesis using xts_opens[OF assms] c o by blast
qed

text \<open>A block cipher that reverses a block.\<close>

definition toy_aes :: aes_env where
  "toy_aes = \<lparr>ae_encrypt = (\<lambda>k b. rev b), ae_decrypt = (\<lambda>k b. rev b)\<rparr>"

lemma toy_aes_ok: "aes_ok toy_aes"
  by (simp add: aes_ok_def toy_aes_def)

theorem xts_exact_witness:
  "let ctx = \<lparr>bc_uuid = replicate 16 1, bc_frag = 0, bc_version = 1, bc_key_epoch = 0\<rparr>; m = map of_nat [0..<21]
   in \<exists>c. xts_seal toy_prims toy_aes [] ctx m = Inr c \<and> length c = 21 \<and> xts_open toy_prims toy_aes [] ctx c = Inr m"
proof -
  let ?ctx = "\<lparr>bc_uuid = replicate 16 1, bc_frag = 0, bc_version = 1, bc_key_epoch = 0\<rparr>" and ?m = "map of_nat [0..<21] :: bytes"
  have l: "length ?m = 21" by simp
  note x = xts_exact[OF toy_prims_ok toy_aes_ok, of "[]" ?ctx ?m]
  have "is_ok (xts_seal toy_prims toy_aes [] ?ctx ?m)"
    by (rule iffD2[OF conjunct1[OF x]]) simp
  then obtain c where "xts_seal toy_prims toy_aes [] ?ctx ?m = Inr c" by (meson is_ok_iff)
  moreover from this have "length c = length ?m \<and> xts_open toy_prims toy_aes [] ?ctx c = Inr ?m"
    using conjunct1[OF conjunct2[OF x]] by blast
  ultimately show ?thesis unfolding Let_def l by blast
qed

end
