(* ===== verification/Claims.thy ===== *)
theory Claims
  imports Catalog
begin

text \<open>
  Who uses which bytes of a container. The two catalogs own node blocks; everything else that a head record
  needs (its own block, the fragments of its content, the block of its metadata) is a \<^emph>\<open>claim\<close>, a range of
  bytes under a key. \<open>tidy\<close> says that the claims lie in blocks in use, outside the catalogs, outside the blocks waiting to be
  released, below the cursor of an open pack block, and that two claims never overlap; \<open>space\<close> adds the
  catalogs. Every primitive the version store uses (allocating, packing, writing into a claim, evicting to the
  tail, updating a catalog, retiring and releasing a block, committing a header) is a lemma that says which claims come and go and
  that the bytes under all others stay.
\<close>

section \<open>Ranges\<close>

type_synonym range = "nat \<times> nat"

definition apart :: "range \<Rightarrow> range \<Rightarrow> bool" where
  "apart e f \<longleftrightarrow> fst e + snd e \<le> fst f \<or> fst f + snd f \<le> fst e"

definition placed :: "live \<Rightarrow> tstate \<Rightarrow> nat set \<Rightarrow> range \<Rightarrow> bool" where
  "placed L s N e \<longleftrightarrow>
     0 < snd e
     \<and> (\<exists>c m. L c = Some m \<and> c < al_live_hwm (ts_a s) \<and> c \<le> fst e \<and> fst e + snd e \<le> c + m
          \<and> c \<notin> N \<and> c \<notin> bl_addr ` set (al_deferred (ts_a s))
          \<and> (BASE_BLOCK \<le> snd e \<longrightarrow> c = fst e \<and> m = snd e)
          \<and> (\<forall>u. al_open_pack (ts_a s) = Some (c, u) \<longrightarrow> fst e + snd e \<le> c + u))"

definition tidy :: "live \<Rightarrow> tstate \<Rightarrow> nat set \<Rightarrow> ('k \<rightharpoonup> range) \<Rightarrow> bool" where
  "tidy L s N D \<longleftrightarrow>
     (\<forall>k e. D k = Some e \<longrightarrow> placed L s N e)
     \<and> (\<forall>k e k' e'. D k = Some e \<longrightarrow> D k' = Some e' \<longrightarrow> k \<noteq> k' \<longrightarrow> apart e e')
     \<and> (\<forall>base u. al_open_pack (ts_a s) = Some (base, u) \<longrightarrow> u < BASE_BLOCK \<longrightarrow>
          base \<notin> N \<and> base \<notin> bl_addr ` set (al_deferred (ts_a s)))"

definition same_bytes :: "('k \<rightharpoonup> range) \<Rightarrow> tstate \<Rightarrow> tstate \<Rightarrow> bool" where
  "same_bytes D s s' \<longleftrightarrow>
     (\<forall>k x n. D k = Some (x, n) \<longrightarrow> slice x n (bk_bytes (ts_b s')) = slice x n (bk_bytes (ts_b s)))"

lemma apart_sym: "apart e f \<longleftrightarrow> apart f e"
  by (auto simp: apart_def)

lemma same_bytes_refl [simp]: "same_bytes D s s"
  by (simp add: same_bytes_def)

lemma same_bytes_trans: "same_bytes D s s1 \<Longrightarrow> same_bytes D s1 s2 \<Longrightarrow> same_bytes D s s2"
  by (simp add: same_bytes_def)

lemma same_bytes_mono: "same_bytes D s s' \<Longrightarrow> (\<And>k e. D' k = Some e \<Longrightarrow> \<exists>k'. D k' = Some e) \<Longrightarrow> same_bytes D' s s'"
  unfolding same_bytes_def by blast

lemma placedE:
  assumes "placed L s N e"
  obtains c m where "L c = Some m" "c < al_live_hwm (ts_a s)" "c \<le> fst e" "fst e + snd e \<le> c + m" "c \<notin> N"
    "c \<notin> bl_addr ` set (al_deferred (ts_a s))" "BASE_BLOCK \<le> snd e \<Longrightarrow> c = fst e \<and> m = snd e"
    "\<And>u. al_open_pack (ts_a s) = Some (c, u) \<Longrightarrow> fst e + snd e \<le> c + u" "0 < snd e"
  using assms unfolding placed_def by blast

lemma placedI:
  assumes "L c = Some m" "c < al_live_hwm (ts_a s)" "c \<le> fst e" "fst e + snd e \<le> c + m" "c \<notin> N"
    "c \<notin> bl_addr ` set (al_deferred (ts_a s))" "BASE_BLOCK \<le> snd e \<Longrightarrow> c = fst e \<and> m = snd e"
    "\<And>u. al_open_pack (ts_a s) = Some (c, u) \<Longrightarrow> fst e + snd e \<le> c + u" "0 < snd e"
  shows "placed L s N e"
  using assms unfolding placed_def by blast

lemma tidyD: "tidy L s N D \<Longrightarrow> D k = Some e \<Longrightarrow> placed L s N e"
  "tidy L s N D \<Longrightarrow> D k = Some e \<Longrightarrow> D k' = Some e' \<Longrightarrow> k \<noteq> k' \<Longrightarrow> apart e e'"
  "tidy L s N D \<Longrightarrow> al_open_pack (ts_a s) = Some (base, u) \<Longrightarrow> u < BASE_BLOCK \<Longrightarrow>
    base \<notin> N \<and> base \<notin> bl_addr ` set (al_deferred (ts_a s))"
  unfolding tidy_def by blast+

text \<open>Claims may be dropped and renamed.\<close>

lemma tidy_rename:
  assumes "tidy L s N D" and "\<And>k e. D' k = Some e \<Longrightarrow> D (f k) = Some e" and "inj_on f (dom D')"
  shows "tidy L s N D'"
  unfolding tidy_def
proof (intro conjI allI impI)
  fix k e assume "D' k = Some e"
  with assms show "placed L s N e" by (meson tidyD(1))
next
  fix k e k' e' assume a: "D' k = Some e" "D' k' = Some e'" "k \<noteq> k'"
  then have "f k \<noteq> f k'" using assms(3) by (auto dest: inj_onD)
  with a assms(1,2) show "apart e e'" by (meson tidyD(2))
next
  fix base u assume "al_open_pack (ts_a s) = Some (base, u)" "u < BASE_BLOCK"
  from tidyD(3)[OF assms(1) this] show "base \<notin> N" "base \<notin> bl_addr ` set (al_deferred (ts_a s))" by simp_all
qed

lemma tidy_sub: "tidy L s N D \<Longrightarrow> D' \<subseteq>\<^sub>m D \<Longrightarrow> tidy L s N D'"
  by (rule tidy_rename[where f = id and D = D]) (assumption, metis domI id_apply map_le_def, simp)

section \<open>Frames\<close>

lemma slice_inside:
  assumes "slice c m xs = slice c m ys" and "c \<le> x" and "x + n \<le> c + m"
  shows "slice x n xs = slice x n ys"
  using arg_cong[OF assms(1), of "slice (x - c) n"] assms(2,3) by (simp add: slice_slice)

lemma keepsD:
  assumes "keeps F L s L' s'"
  shows "L a = Some n \<Longrightarrow> a < al_live_hwm (ts_a s) \<Longrightarrow> a \<notin> F \<Longrightarrow> L' a = Some n"
    and "L a = Some n \<Longrightarrow> a < al_live_hwm (ts_a s) \<Longrightarrow> a \<notin> F \<Longrightarrow> slice a n (bk_bytes (ts_b s')) = slice a n (bk_bytes (ts_b s))"
    and "al_live_hwm (ts_a s) \<le> al_live_hwm (ts_a s')" and "al_deferred (ts_a s') = al_deferred (ts_a s)"
    and "al_open_pack (ts_a s') = al_open_pack (ts_a s) \<or> al_open_pack (ts_a s') = None"
    and "al_reclaim_floor (ts_a s') = al_reclaim_floor (ts_a s)"
  using assms by (simp_all add: keeps_def)

lemma open_pack_used: "reach L s \<Longrightarrow> al_open_pack (ts_a s) = Some (base, u) \<Longrightarrow> L base = Some BASE_BLOCK \<and> base \<in> used L s"
  using reachable_al_ok[of L "ts_a s" "ts_b s"] by (auto simp: al_ok_def pending_ok_def used_def)

lemma tidy_keeps:
  assumes "reach L s" and "tidy L s N D" and "keeps F L s L' s'" and "F \<subseteq> N" and "N' \<inter> used L s \<subseteq> N"
  shows "tidy L' s' N' D \<and> same_bytes D s s'"
proof -
  have h: "placed L' s' N' e \<and> slice (fst e) (snd e) (bk_bytes (ts_b s')) = slice (fst e) (snd e) (bk_bytes (ts_b s))"
    if "D k = Some e" for k e
  proof (rule placedE[OF tidyD(1)[OF assms(2) that]])
    fix c m
    assume c: "L c = Some m" "c < al_live_hwm (ts_a s)" "c \<le> fst e" "fst e + snd e \<le> c + m" "c \<notin> N"
      "c \<notin> bl_addr ` set (al_deferred (ts_a s))" "BASE_BLOCK \<le> snd e \<Longrightarrow> c = fst e \<and> m = snd e"
      "\<And>u. al_open_pack (ts_a s) = Some (c, u) \<Longrightarrow> fst e + snd e \<le> c + u" "0 < snd e"
    have cF: "c \<notin> F" using c(5) assms(4) by blast
    have k: "L' c = Some m" "slice c m (bk_bytes (ts_b s')) = slice c m (bk_bytes (ts_b s))"
      "al_live_hwm (ts_a s) \<le> al_live_hwm (ts_a s')" "al_deferred (ts_a s') = al_deferred (ts_a s)"
      "al_open_pack (ts_a s') = al_open_pack (ts_a s) \<or> al_open_pack (ts_a s') = None"
      using keepsD[OF assms(3)] c(1,2) cF by blast+
    have "c \<notin> N'" using assms(5) c(1,2,5) by (auto simp: used_def)
    then have "placed L' s' N' e" using c k by (intro placedI[of L' c m]) auto
    with slice_inside[OF k(2) c(3,4)] show ?thesis by simp
  qed
  have "base \<notin> N' \<and> base \<notin> bl_addr ` set (al_deferred (ts_a s'))"
    if "al_open_pack (ts_a s') = Some (base, u)" "u < BASE_BLOCK" for base u
    using that keepsD(4,5)[OF assms(3)] open_pack_used[OF assms(1), of base u] tidyD(3)[OF assms(2), of base u] assms(5) by auto
  moreover have "apart e e'" if "D k = Some e" "D k' = Some e'" "k \<noteq> k'" for k e k' e'
    by (rule tidyD(2)[OF assms(2) that])
  ultimately have "tidy L' s' N' D" unfolding tidy_def using h by blast
  moreover have "same_bytes D s s'" unfolding same_bytes_def using h by (metis fst_conv snd_conv)
  ultimately show ?thesis ..
qed

lemma write_slice:
  assumes "bk_ok b" and "bk_write_at b off buf = Inr b'" and "x + n \<le> off \<or> off + length buf \<le> x"
  shows "slice x n (bk_bytes b') = slice x n (bk_bytes b)"
proof -
  note w = bk_write_at_InrD[OF assms(2)]
  from assms(1) have "length (bk_bytes b) = bk_len b" by (simp add: bk_ok_def)
  with w assms(3) slice_splice_above[of off buf x "bk_bytes b" n] slice_splice_below[of x n off buf "bk_bytes b"]
  show ?thesis by auto
qed

text \<open>Writing inside one block in use leaves every other block alone.\<close>

lemma block_write_keeps:
  assumes "reach L s" and "L c = Some m" and "c \<le> off" and "off + length buf \<le> c + m"
    and "bk_write_at (ts_b s) off buf = Inr b'"
  shows "reach L (s\<lparr>ts_b := b'\<rparr>) \<and> keeps {c} L s L (s\<lparr>ts_b := b'\<rparr>)"
proof -
  have r: "reach L (s\<lparr>ts_b := b'\<rparr>)"
    using step[OF assms(1) st_write[where L = L and a = c, OF assms(2-5)]] by simp
  have dj: "disjoint_blocks L" using reachable_al_ok[OF assms(1)] by (simp add: al_ok_def blocks_ok_def)
  have "slice x n (bk_bytes b') = slice x n (bk_bytes (ts_b s))" if "L x = Some n" "x \<noteq> c" for x n
  proof -
    have "c + m \<le> x \<or> x + n \<le> c" using dj that assms(2) unfolding disjoint_blocks_def by blast
    then show ?thesis using write_slice[OF reach_block(3)[OF assms(1,2)] assms(5), of x n] assms(3,4) by auto
  qed
  with r show ?thesis by (simp add: keeps_def)
qed

lemma tidy_write:
  assumes "reach L s" and "tidy L s N D" and "D k = Some (x, n)" and "x \<le> off" and "off + length buf \<le> x + n"
    and "bk_write_at (ts_b s) off buf = Inr b'"
  shows "\<exists>c. c \<notin> N \<and> keeps {c} L s L (s\<lparr>ts_b := b'\<rparr>) \<and> reach L (s\<lparr>ts_b := b'\<rparr>)"
    and "tidy L (s\<lparr>ts_b := b'\<rparr>) N D" and "same_bytes (D(k := None)) s (s\<lparr>ts_b := b'\<rparr>)"
proof -
  from tidyD(1)[OF assms(2,3)] obtain c m where c: "L c = Some m" "c \<notin> N" "c \<le> x" "x + n \<le> c + m"
    by (auto elim: placedE)
  have "c \<le> off" "off + length buf \<le> c + m" using c(3,4) assms(4,5) by linarith+
  from block_write_keeps[OF assms(1) c(1) this assms(6)] c(2)
  show "\<exists>c. c \<notin> N \<and> keeps {c} L s L (s\<lparr>ts_b := b'\<rparr>) \<and> reach L (s\<lparr>ts_b := b'\<rparr>)" by blast
  have b: "bk_ok (ts_b s)" by (rule reach_block(3)[OF assms(1) c(1)])
  show "tidy L (s\<lparr>ts_b := b'\<rparr>) N D" using assms(2) by (simp add: tidy_def placed_def)
  show "same_bytes (D(k := None)) s (s\<lparr>ts_b := b'\<rparr>)"
    unfolding same_bytes_def
  proof (intro allI impI)
    fix k' y l assume "(D(k := None)) k' = Some (y, l)"
    then have "D k' = Some (y, l)" "k' \<noteq> k" by (auto split: if_splits)
    then have "apart (x, n) (y, l)" using tidyD(2)[OF assms(2,3)] by metis
    then show "slice y l (bk_bytes (ts_b (s\<lparr>ts_b := b'\<rparr>))) = slice y l (bk_bytes (ts_b s))"
      using write_slice[OF b assms(6), of y l] assms(4,5) by (auto simp: apart_def)
  qed
qed

section \<open>New claims\<close>

lemma node_blocks_used: "trie_state P T L s m A \<Longrightarrow> A \<subseteq> used L s"
  by (rule owned_used[OF trie_state_owned])

lemma node_blocks_kept: "trie_state P T L s m A \<Longrightarrow> A \<inter> bl_addr ` set (al_deferred (ts_a s)) = {}"
  using trie_state_owned[of P T L s m A] unfolding owned_def by blast

lemma tidy_add:
  assumes "tidy L s N D" and "D k = None" and "placed L s N e" and "\<And>k' e'. D k' = Some e' \<Longrightarrow> apart e e'"
  shows "tidy L s N (D(k \<mapsto> e))"
  using assms unfolding tidy_def by (auto simp: apart_sym)

text \<open>A block lent in the forward region.\<close>

lemma tidy_alloc:
  assumes "reach L s" and "tidy L s N D" and "N \<subseteq> used L s" and "ts_alloc len r s = (Inr loc, s1)" and "r \<noteq> EvictionTail" and "D k = None"
  shows "\<exists>L1. reach L1 s1 \<and> keeps {} L s L1 s1 \<and> tidy L1 s1 N (D(k \<mapsto> (bl_addr loc, block_size len))) \<and> same_bytes D s s1"
proof -
  let ?L1 = "(moved_live (ts_a s) (ts_b s) (ts_b s1) L)(bl_addr loc \<mapsto> block_size len)" and ?a = "bl_addr loc"
  have a: "reach ?L1 s1" "keeps {} L s ?L1 s1" "?a \<notin> used L s" "?a \<notin> bl_addr ` set (al_deferred (ts_a s))" "?a < al_live_hwm (ts_a s1)"
    using alloc_any[OF assms(1,4)] assms(5) by simp_all
  have t: "tidy ?L1 s1 N D \<and> same_bytes D s s1" by (rule tidy_keeps[OF assms(1,2) a(2)]) auto
  have ok: "al_ok L (bk_len (ts_b s)) (ts_a s)" "al_ok ?L1 (bk_len (ts_b s1)) (ts_a s1)"
    using reachable_al_ok[OF assms(1)] reachable_al_ok[OF a(1)] by simp_all
  have dj: "disjoint_blocks ?L1" using ok(2) by (simp add: al_ok_def blocks_ok_def)
  have pk: "u' = ?a \<Longrightarrow> False" if "al_open_pack (ts_a s1) = Some (u', u)" for u u'
    using that keepsD(5)[OF a(2)] open_pack_used[OF assms(1), of u' u] a(3) by auto
  have "placed ?L1 s1 N (?a, block_size len)"
    using a assms(3) pk keepsD(4)[OF a(2)] by (intro placedI[of ?L1 ?a "block_size len"]) auto
  moreover have "apart (?a, block_size len) e'" if "D k' = Some e'" for k' e'
  proof (rule placedE[OF tidyD(1)[OF assms(2) that]])
    fix c m assume c: "L c = Some m" "c < al_live_hwm (ts_a s)" "c \<le> fst e'" "fst e' + snd e' \<le> c + m"
    have c1: "?L1 c = Some m" using keepsD(1)[OF a(2) c(1,2)] by simp
    have ca: "c \<noteq> ?a" using c(1,2) a(3) by (auto simp: used_def)
    have "?L1 ?a = Some (block_size len)" by simp
    from dj c1 ca this have "c + m \<le> ?a \<or> ?a + block_size len \<le> c" unfolding disjoint_blocks_def by metis
    with c(3,4) show ?thesis by (auto simp: apart_def)
  qed
  ultimately have "tidy ?L1 s1 N (D(k \<mapsto> (?a, block_size len)))" using t assms(6) by (intro tidy_add) auto
  with a t show ?thesis by blast
qed

text \<open>A range of an open pack block.\<close>

definition ts_pack :: "nat \<Rightarrow> tstate \<Rightarrow> nat result \<times> tstate" where
  "ts_pack need s =
     (case alloc_packed (ts_a s) (ts_b s) need of
        Inl e \<Rightarrow> (Inl e, s)
      | Inr (al, b, addr) \<Rightarrow> (Inr addr, s\<lparr>ts_a := al, ts_b := b\<rparr>))"

lemma trie_state_same_bytes:
  assumes "trie_state P T L s m A" and "reach L' s'" and "ts_b s' = ts_b s" and "al_live_hwm (ts_a s) \<le> al_live_hwm (ts_a s')"
    and "A \<inter> bl_addr ` set (al_deferred (ts_a s')) = {}" and "\<And>a. a \<in> A \<Longrightarrow> L' a = L a"
  shows "trie_state P T L' s' m A"
proof -
  have "heap_tree P (tr_crypto T) L' s' [] t" if "heap_tree P (tr_crypto T) L s [] t" "addrs t = A" for t
    using that assms(2-6) by (fastforce simp: heap_tree_def owned_def)
  then show ?thesis using assms(1) unfolding trie_state_def by blast
qed

lemma tidy_pack:
  assumes "reach L s" and "tidy L s N D" and "N \<subseteq> used L s" and "ts_pack need s = (Inr x, s1)"
    and "0 < need" and "need < BASE_BLOCK" and "D k = None"
  shows "\<exists>L1. reach L1 s1 \<and> (\<forall>P T m A. trie_state P T L s m A \<longrightarrow> trie_state P T L1 s1 m A)
    \<and> tidy L1 s1 N (D(k \<mapsto> (x, need))) \<and> same_bytes D s s1 \<and> ts_ent s1 = ts_ent s"
proof -
  from assms(4) obtain al b where p: "alloc_packed (ts_a s) (ts_b s) need = Inr (al, b, x)" and s1: "s1 = s\<lparr>ts_a := al, ts_b := b\<rparr>"
    by (auto simp: ts_pack_def split: sum.splits)
  let ?L1 = "packed_live (ts_a s) (ts_b s) b need x L"
  have r1: "reach ?L1 s1" using step[OF assms(1) st_pack[OF assms(5,6) p]] by (simp add: s1)
  show ?thesis
    using p
  proof (cases rule: alloc_packed_cases)
    case (reuse base used)
    have L1: "?L1 = L" using reuse by (simp add: packed_live_def)
    note u = open_pack_used[OF assms(1) reuse(1)]
    have us: "used < BASE_BLOCK" using reuse(2) assms(5) by linarith
    note nb = tidyD(3)[OF assms(2) reuse(1) us]
    have dj: "disjoint_blocks L" using reachable_al_ok[OF assms(1)] by (simp add: al_ok_def blocks_ok_def)
    have old: "placed L s1 N e \<and> apart (x, need) e" if "D k' = Some e" for k' e
    proof (rule placedE[OF tidyD(1)[OF assms(2) that]])
      fix c m
      assume c: "L c = Some m" "c < al_live_hwm (ts_a s)" "c \<le> fst e" "fst e + snd e \<le> c + m" "c \<notin> N"
        "c \<notin> bl_addr ` set (al_deferred (ts_a s))" "BASE_BLOCK \<le> snd e \<Longrightarrow> c = fst e \<and> m = snd e"
        "\<And>u. al_open_pack (ts_a s) = Some (c, u) \<Longrightarrow> fst e + snd e \<le> c + u" "0 < snd e"
      have "c = base \<or> c + m \<le> base \<or> base + BASE_BLOCK \<le> c"
        using dj c(1) u unfolding disjoint_blocks_def by blast
      then have "apart (x, need) e" using c(3,4) c(8)[of used] reuse(1,2,5) by (auto simp: apart_def)
      moreover have "placed L s1 N e" using c reuse(1,3) by (intro placedI[of L c m]) (auto simp: s1)
      ultimately show ?thesis by simp
    qed
    have "placed L s1 N (x, need)"
      using u nb reuse(2,3,5) assms(5,6) by (intro placedI[of L base BASE_BLOCK]) (auto simp: s1 used_def)
    with old nb reuse(3) assms(2,7) have "tidy L s1 N (D(k \<mapsto> (x, need)))"
      by (auto simp: tidy_def apart_sym s1)
    moreover have "trie_state P T L s1 m A" if "trie_state P T L s m A" for P T m A
      using that r1 L1 reuse(3,4) trie_state_owned[OF that]
      by (intro trie_state_same_bytes[OF that]) (auto simp: s1 owned_def)
    moreover have "reach L s1" using r1 L1 by simp
    moreover have "same_bytes D s s1" "ts_ent s1 = ts_ent s" using reuse(4) by (simp_all add: s1 same_bytes_def)
    ultimately show ?thesis by blast
  next
    case (fresh al1 loc)
    let ?s = "s\<lparr>ts_a := al1, ts_b := b\<rparr>"
    have al: "ts_alloc (of_nat BASE_BLOCK) LiveMid s = (Inr loc, ?s)" using fresh(2) by (simp add: ts_alloc_def)
    have L1: "?L1 = (moved_live (ts_a s) (ts_b s) b L)(bl_addr loc \<mapsto> BASE_BLOCK)"
      using fresh by (auto simp: packed_live_def split: option.splits)
    have a: "reach ?L1 ?s" "keeps {} L s ?L1 ?s" "x \<notin> Trie_Rep.used L s" "x \<notin> bl_addr ` set (al_deferred (ts_a s))" "x < al_live_hwm al1"
      using alloc_any[OF assms(1) al] unfolding L1 by (simp_all add: block_size_base fresh(4))
    have t: "tidy ?L1 ?s N D \<and> same_bytes D s ?s" by (rule tidy_keeps[OF assms(1,2) a(2)]) auto
    have dj: "disjoint_blocks ?L1" using reachable_al_ok[OF a(1)] by (simp add: al_ok_def blocks_ok_def)
    have Lx: "?L1 x = Some BASE_BLOCK" unfolding L1 by (simp add: fresh(4))
    have old: "placed ?L1 s1 N e \<and> apart (x, need) e" if "D k' = Some e" for k' e
    proof (rule placedE[OF tidyD(1)[OF assms(2) that]])
      fix c m
      assume c: "L c = Some m" "c < al_live_hwm (ts_a s)" "c \<le> fst e" "fst e + snd e \<le> c + m" "c \<notin> N"
        "c \<notin> bl_addr ` set (al_deferred (ts_a s))" "BASE_BLOCK \<le> snd e \<Longrightarrow> c = fst e \<and> m = snd e" "0 < snd e"
      have c1: "?L1 c = Some m" "c < al_live_hwm al1" "al_deferred al1 = al_deferred (ts_a s)"
        using keepsD(1,3,4)[OF a(2)] c(1,2) by auto
      have cx: "c \<noteq> x" using c(1,2) a(3) by (auto simp: used_def)
      from dj c1(1) cx Lx have "c + m \<le> x \<or> x + BASE_BLOCK \<le> c" unfolding disjoint_blocks_def by metis
      then have "apart (x, need) e" using c(3,4) assms(6) by (auto simp: apart_def)
      moreover have "placed ?L1 s1 N e" using c c1 cx fresh(3,4) by (intro placedI[of ?L1 c m]) (auto simp: s1)
      ultimately show ?thesis by simp
    qed
    have d1: "al_deferred al1 = al_deferred (ts_a s)" using keepsD(4)[OF a(2)] by simp
    have xN: "x \<notin> N" using a(3) assms(3) by blast
    have "placed ?L1 s1 N (x, need)"
      using a(4,5) Lx xN d1 fresh(3,4) assms(5,6) by (intro placedI[of ?L1 x BASE_BLOCK]) (auto simp: s1)
    with old a(4) xN d1 fresh(3,4) assms(2,7) have "tidy ?L1 s1 N (D(k \<mapsto> (x, need)))"
      by (auto simp: tidy_def apart_sym s1)
    moreover have "trie_state P T ?L1 s1 m A" if "trie_state P T L s m A" for P T m A
    proof -
      have k: "trie_state P T ?L1 ?s m A" by (rule trie_state_keeps[OF that a(2) _ a(1)]) simp
      show ?thesis using r1 fresh(3) trie_state_owned[OF k]
        by (intro trie_state_same_bytes[OF k]) (auto simp: s1 owned_def)
    qed
    moreover have "same_bytes D s s1" "ts_ent s1 = ts_ent s" using t by (simp_all add: s1 same_bytes_def)
    ultimately show ?thesis using r1 by blast
  qed
qed

section \<open>Catalogs and claims\<close>

definition space :: "prims \<Rightarrow> trie \<Rightarrow> trie \<Rightarrow> tstate \<Rightarrow> (bytes \<rightharpoonup> uuid) \<Rightarrow> (uuid \<rightharpoonup> u64) \<Rightarrow> ('k \<rightharpoonup> range) \<Rightarrow> bool" where
  "space P kc ic s pm im D \<longleftrightarrow>
     (\<exists>L A B. trie_state P kc L s pm A \<and> trie_state P ic L s (id_bytes im) B \<and> A \<inter> B = {} \<and> tidy L s (A \<union> B) D)
     \<and> (\<forall>p u. pm p = Some u \<longrightarrow> length u = 16) \<and> (\<forall>u a. im u = Some a \<longrightarrow> length u = 16)"

lemma spaceE:
  assumes "space P kc ic s pm im D"
  obtains L A B where "reach L s" "trie_state P kc L s pm A" "trie_state P ic L s (id_bytes im) B" "A \<inter> B = {}"
    "tidy L s (A \<union> B) D" "A \<union> B \<subseteq> used L s"
proof -
  from assms obtain L A B where t: "trie_state P kc L s pm A" "trie_state P ic L s (id_bytes im) B" "A \<inter> B = {}" "tidy L s (A \<union> B) D"
    unfolding space_def by blast
  have "A \<union> B \<subseteq> used L s" using node_blocks_used[OF t(1)] node_blocks_used[OF t(2)] by blast
  then show ?thesis using that[OF trie_state_reach[OF t(1)] t] by blast
qed

lemma spaceI:
  assumes "space P kc ic s pm im D" and "trie_state P kc' L' s' pm' A'" and "trie_state P ic' L' s' (id_bytes im') B'" and "A' \<inter> B' = {}"
    and "tidy L' s' (A' \<union> B') D'" and "\<And>p u. pm' p = Some u \<Longrightarrow> pm p \<noteq> Some u \<Longrightarrow> length u = 16" and "\<And>u a. im' u = Some a \<Longrightarrow> im u = None \<Longrightarrow> length u = 16"
  shows "space P kc' ic' s' pm' im' D'"
  using assms unfolding space_def by (metis not_Some_eq)

lemma space_same:
  assumes "space P kc ic s pm im D" and "trie_state P kc L' s' pm A'" and "trie_state P ic L' s' (id_bytes im) B'" and "A' \<inter> B' = {}"
    and "tidy L' s' (A' \<union> B') D'"
  shows "space P kc ic s' pm im D'"
  using assms unfolding space_def by blast

lemma space_sub: "space P kc ic s pm im D \<Longrightarrow> D' \<subseteq>\<^sub>m D \<Longrightarrow> space P kc ic s pm im D'"
  unfolding space_def using tidy_sub by blast

lemma space_rename:
  assumes "space P kc ic s pm im D" and "\<And>k e. D' k = Some e \<Longrightarrow> D (f k) = Some e" and "inj_on f (dom D')"
  shows "space P kc ic s pm im D'"
  using assms(1) tidy_rename[where D = D and D' = D' and f = f, OF _ assms(2,3)] unfolding space_def by blast

lemma space_get_path: "space P kc ic s pm im D \<Longrightarrow> get_path P kc (ts_b s) path = Inr (pm path)"
  unfolding space_def get_path_def using trie_get_ok by (fastforce split: option.splits)

lemma space_get_uuid: "space P kc ic s pm im D \<Longrightarrow> get_uuid P ic (ts_b s) uuid = Inr (im uuid)"
proof -
  assume "space P kc ic s pm im D"
  then have "trie_get P ic (ts_b s) uuid = Inr (id_bytes im uuid)" unfolding space_def using trie_get_ok by blast
  then show ?thesis by (auto simp: get_uuid_def id_bytes_def split: option.splits)
qed

lemma space_bounds:
  assumes "space P kc ic s pm im D" and "D k = Some (x, n)"
  shows "x + n \<le> bk_len (ts_b s)" and "8192 \<le> x" and "0 < n"
proof -
  from assms(1) obtain L A B where t: "reach L s" "tidy L s (A \<union> B) D" by (elim spaceE)
  from tidyD(1)[OF t(2) assms(2)] obtain c m where c: "L c = Some m" "c \<le> x" "x + n \<le> c + m" "0 < n"
    unfolding placed_def fst_conv snd_conv by blast
  from reach_block[OF t(1) c(1)] c show "x + n \<le> bk_len (ts_b s)" "8192 \<le> x" "0 < n" by auto
qed

lemma space_backend: "space P kc ic s pm im D \<Longrightarrow> bk_ok (ts_b s)"
  using reachable_al_ok by (elim spaceE) blast

lemma space_step:
  assumes "space P kc ic s pm im D" and "\<And>L. reach L s \<Longrightarrow> \<exists>L1. reach L1 s1 \<and> keeps {} L s L1 s1"
  shows "space P kc ic s1 pm im D \<and> same_bytes D s s1"
proof -
  from assms(1) obtain L A B where t: "reach L s" "trie_state P kc L s pm A" "trie_state P ic L s (id_bytes im) B" "A \<inter> B = {}"
    "tidy L s (A \<union> B) D" by (elim spaceE)
  from assms(2)[OF t(1)] obtain L1 where 1: "reach L1 s1" "keeps {} L s L1 s1" by blast
  have "tidy L1 s1 (A \<union> B) D \<and> same_bytes D s s1" by (rule tidy_keeps[OF t(1,5) 1(2)]) auto
  moreover have "trie_state P kc L1 s1 pm A" "trie_state P ic L1 s1 (id_bytes im) B"
    using trie_state_keeps[OF t(2) 1(2) _ 1(1)] trie_state_keeps[OF t(3) 1(2) _ 1(1)] by simp_all
  ultimately show ?thesis using space_same[OF assms(1) _ _ t(4)] by blast
qed

lemma space_alloc:
  assumes "space P kc ic s pm im D" and "ts_alloc len r s = (Inr loc, s1)" and "r \<noteq> EvictionTail" and "D k = None"
  shows "space P kc ic s1 pm im (D(k \<mapsto> (bl_addr loc, block_size len)))" and "same_bytes D s s1"
proof -
  from assms(1) obtain L A B where t: "reach L s" "trie_state P kc L s pm A" "trie_state P ic L s (id_bytes im) B" "A \<inter> B = {}"
    "tidy L s (A \<union> B) D" "A \<union> B \<subseteq> used L s" by (elim spaceE)
  from tidy_alloc[OF t(1,5,6) assms(2,3,4)] obtain L1 where 1: "reach L1 s1" "keeps {} L s L1 s1"
    "tidy L1 s1 (A \<union> B) (D(k \<mapsto> (bl_addr loc, block_size len)))" "same_bytes D s s1" by blast
  show "space P kc ic s1 pm im (D(k \<mapsto> (bl_addr loc, block_size len)))"
    using space_same[OF assms(1) trie_state_keeps[OF t(2) 1(2) _ 1(1)] trie_state_keeps[OF t(3) 1(2) _ 1(1)] t(4) 1(3)] by simp
  show "same_bytes D s s1" by (rule 1(4))
qed

lemma space_pack:
  assumes "space P kc ic s pm im D" and "ts_pack need s = (Inr x, s1)" and "0 < need" and "need < BASE_BLOCK" and "D k = None"
  shows "space P kc ic s1 pm im (D(k \<mapsto> (x, need)))" and "same_bytes D s s1" and "ts_ent s1 = ts_ent s"
proof -
  from assms(1) obtain L A B where t: "reach L s" "trie_state P kc L s pm A" "trie_state P ic L s (id_bytes im) B" "A \<inter> B = {}"
    "tidy L s (A \<union> B) D" "A \<union> B \<subseteq> used L s" by (elim spaceE)
  from tidy_pack[OF t(1,5,6) assms(2-5)] obtain L1 where 1: "\<forall>P T m A. trie_state P T L s m A \<longrightarrow> trie_state P T L1 s1 m A"
    "tidy L1 s1 (A \<union> B) (D(k \<mapsto> (x, need)))" "same_bytes D s s1" "ts_ent s1 = ts_ent s" by blast
  have "trie_state P kc L1 s1 pm A" "trie_state P ic L1 s1 (id_bytes im) B" using 1(1) t(2,3) by blast+
  from space_same[OF assms(1) this t(4) 1(2)] show "space P kc ic s1 pm im (D(k \<mapsto> (x, need)))" by simp
  show "same_bytes D s s1" "ts_ent s1 = ts_ent s" by (rule 1(3), rule 1(4))
qed

lemma space_write:
  assumes "space P kc ic s pm im D" and "D k = Some (x, n)" and "x \<le> off" and "off + length buf \<le> x + n"
    and "bk_write_at (ts_b s) off buf = Inr b'"
  shows "space P kc ic (s\<lparr>ts_b := b'\<rparr>) pm im D" and "same_bytes (D(k := None)) s (s\<lparr>ts_b := b'\<rparr>)"
    and "slice off (length buf) (bk_bytes b') = buf"
proof -
  from assms(1) obtain L A B where t: "reach L s" "trie_state P kc L s pm A" "trie_state P ic L s (id_bytes im) B" "A \<inter> B = {}"
    "tidy L s (A \<union> B) D" by (elim spaceE)
  note w = tidy_write[OF t(1,5) assms(2-5)]
  from w(1) obtain c where c: "c \<notin> A \<union> B" "keeps {c} L s L (s\<lparr>ts_b := b'\<rparr>)" "reach L (s\<lparr>ts_b := b'\<rparr>)" by blast
  have "trie_state P kc L (s\<lparr>ts_b := b'\<rparr>) pm A" "trie_state P ic L (s\<lparr>ts_b := b'\<rparr>) (id_bytes im) B"
    using trie_state_keeps[OF t(2) c(2) _ c(3)] trie_state_keeps[OF t(3) c(2) _ c(3)] c(1) by simp_all
  from space_same[OF assms(1) this t(4) w(2)] show "space P kc ic (s\<lparr>ts_b := b'\<rparr>) pm im D" by simp
  show "same_bytes (D(k := None)) s (s\<lparr>ts_b := b'\<rparr>)" by (rule w(3))
  show "slice off (length buf) (bk_bytes b') = buf"
    using bk_write_at_InrD[OF assms(5)] space_backend[OF assms(1)] slice_splice_same[of off buf "bk_bytes (ts_b s)"]
    by (simp add: bk_ok_def)
qed

lemma space_evict:
  assumes "space P kc ic s pm im D" and "ts_alloc len EvictionTail s = (Inr loc, s1)"
    and "bk_write_at (ts_b s1) (bl_addr loc) blk = Inr b'" and "length blk \<le> block_size len"
  shows "space P kc ic (s1\<lparr>ts_b := b'\<rparr>) pm im D \<and> same_bytes D s (s1\<lparr>ts_b := b'\<rparr>)"
proof (rule space_step[OF assms(1)])
  fix L assume r: "reach L s"
  let ?L1 = "(moved_live (ts_a s) (ts_b s) (ts_b s1) L)(bl_addr loc \<mapsto> block_size len)" and ?a = "bl_addr loc"
  have a: "reach ?L1 s1" "keeps {} L s ?L1 s1" "?a \<notin> used L s" using alloc_any[OF r assms(2)] by simp_all
  have w: "reach ?L1 (s1\<lparr>ts_b := b'\<rparr>)" "keeps {?a} ?L1 s1 ?L1 (s1\<lparr>ts_b := b'\<rparr>)"
    using block_write_keeps[OF a(1) _ _ _ assms(3), of ?a "block_size len"] assms(4) by simp_all
  have "keeps {} L s ?L1 (s1\<lparr>ts_b := b'\<rparr>)" by (rule keeps_unused[OF keeps_trans[OF a(2) w(2)]]) (use a(3) in auto)
  with w(1) show "\<exists>L1. reach L1 (s1\<lparr>ts_b := b'\<rparr>) \<and> keeps {} L s L1 (s1\<lparr>ts_b := b'\<rparr>)" by blast
qed

lemma space_header:
  assumes "space P kc ic s pm im D" and "bk_write_at (ts_b s) off buf = Inr b'" and "off + length buf \<le> 2 * BASE_BLOCK"
  shows "space P kc ic (s\<lparr>ts_b := b'\<rparr>) pm im D \<and> same_bytes D s (s\<lparr>ts_b := b'\<rparr>)"
proof (rule space_step[OF assms(1)])
  fix L assume r: "reach L s"
  have "reach L (s\<lparr>ts_b := b'\<rparr>)" using step[OF r st_header[OF assms(3,2)]] by simp
  moreover have "slice x n (bk_bytes b') = slice x n (bk_bytes (ts_b s))" if "L x = Some n" for x n
    using write_slice[OF space_backend[OF assms(1)] assms(2), of x n] reach_block(2)[OF r that] assms(3) by (simp add: BASE_BLOCK_def)
  ultimately show "\<exists>L1. reach L1 (s\<lparr>ts_b := b'\<rparr>) \<and> keeps {} L s L1 (s\<lparr>ts_b := b'\<rparr>)"
    by (intro exI[of _ L]) (simp add: keeps_def)
qed

lemma space_put_path:
  assumes "prims_ok P" and "space P kc ic s pm im D" and "length uuid = 16" and "put_path P kc path uuid s = (Inr kc', s')"
  shows "space P kc' ic s' (pm(path \<mapsto> uuid)) im D \<and> same_bytes D s s' \<and> tr_crypto kc' = tr_crypto kc"
proof -
  from assms(2) obtain L A B where t: "reach L s" "trie_state P kc L s pm A" "trie_state P ic L s (id_bytes im) B" "A \<inter> B = {}"
    "tidy L s (A \<union> B) D" by (elim spaceE)
  from trie_put_ok[OF assms(1) t(2) assms(4)[unfolded put_path_def]] obtain L' A' where
    p: "trie_state P kc' L' s' (pm(path \<mapsto> uuid)) A'" "keeps (reclaimable s \<inter> A) L s L' s'" "A' \<inter> used L s \<subseteq> A"
      "tr_crypto kc' = tr_crypto kc" by blast
  have d: "tidy L' s' (A' \<union> B) D \<and> same_bytes D s s'" by (rule tidy_keeps[OF t(1,5) p(2)]) (use p(3) in auto)
  have u: "trie_state P ic L' s' (id_bytes im) B" "A' \<inter> B = {}" using update_one[OF t(2,3,4) p(1-3)] by simp_all
  have "space P kc' ic s' (pm(path \<mapsto> uuid)) im D"
    by (rule spaceI[OF assms(2) p(1) u]) (use d assms(3) in \<open>auto split: if_splits\<close>)
  with d p(4) show ?thesis by simp
qed

lemma space_put_uuid:
  assumes "prims_ok P" and "space P kc ic s pm im D" and "length uuid = 16" and "put_uuid P ic uuid a s = (Inr ic', s')"
  shows "space P kc ic' s' pm (im(uuid \<mapsto> a)) D \<and> same_bytes D s s' \<and> tr_crypto ic' = tr_crypto ic"
proof -
  from assms(2) obtain L A B where t: "reach L s" "trie_state P kc L s pm A" "trie_state P ic L s (id_bytes im) B" "B \<inter> A = {}"
    "tidy L s (A \<union> B) D" by (elim spaceE) (simp add: Int_commute)
  from trie_put_ok[OF assms(1) t(3) assms(4)[unfolded put_uuid_def]] obtain L' B' where
    p: "trie_state P ic' L' s' (id_bytes (im(uuid \<mapsto> a))) B'" "keeps (reclaimable s \<inter> B) L s L' s'" "B' \<inter> used L s \<subseteq> B"
      "tr_crypto ic' = tr_crypto ic" by auto
  have d: "tidy L' s' (A \<union> B') D \<and> same_bytes D s s'" by (rule tidy_keeps[OF t(1,5) p(2)]) (use p(3) in auto)
  have u: "trie_state P kc L' s' pm A" "A \<inter> B' = {}" using update_one[OF t(3,2,4) p(1-3)] by (simp_all add: Int_commute)
  have "space P kc ic' s' pm (im(uuid \<mapsto> a)) D"
    by (rule spaceI[OF assms(2) u(1) p(1) u(2)]) (use d assms(3) in \<open>auto split: if_splits\<close>)
  with d p(4) show ?thesis by simp
qed

lemma space_remove_path:
  assumes "prims_ok P" and "space P kc ic s pm im D" and "remove_path P kc path s = (Inr (kc', ex), s')"
  shows "space P kc' ic s' (pm(path := None)) im D \<and> same_bytes D s s' \<and> tr_crypto kc' = tr_crypto kc
    \<and> ex = (pm path \<noteq> None) \<and> (\<not> ex \<longrightarrow> kc' = kc \<and> s' = s)"
proof -
  from assms(2) obtain L A B where t: "reach L s" "trie_state P kc L s pm A" "trie_state P ic L s (id_bytes im) B" "A \<inter> B = {}"
    "tidy L s (A \<union> B) D" by (elim spaceE)
  note r = trie_remove_ok[OF assms(1) t(2) assms(3)[unfolded remove_path_def]]
  from r obtain L' A' where
    p: "trie_state P kc' L' s' (pm(path := None)) A'" "keeps (reclaimable s \<inter> A) L s L' s'" "A' \<inter> used L s \<subseteq> A" by blast
  have d: "tidy L' s' (A' \<union> B) D \<and> same_bytes D s s'" by (rule tidy_keeps[OF t(1,5) p(2)]) (use p(3) in auto)
  have u: "trie_state P ic L' s' (id_bytes im) B" "A' \<inter> B = {}" using update_one[OF t(2,3,4) p(1-3)] by simp_all
  have "space P kc' ic s' (pm(path := None)) im D"
    by (rule spaceI[OF assms(2) p(1) u]) (use d in \<open>auto split: if_splits\<close>)
  with d r show ?thesis by blast
qed

text \<open>Blocks parked until the next commit, and their release.\<close>

lemma space_retire:
  assumes "space P kc ic s pm im D" and "D k = Some (x, block_size len)"
  shows "space P kc ic (s\<lparr>ts_a := retire_block \<lparr>bl_addr = x, bl_len = len\<rparr> (ts_a s)\<rparr>) pm im (D(k := None))"
proof -
  let ?loc = "\<lparr>bl_addr = x, bl_len = len\<rparr>" let ?s = "s\<lparr>ts_a := retire_block ?loc (ts_a s)\<rparr>"
  have big: "BASE_BLOCK \<le> block_size len" by (simp add: block_size_def)
  from assms(1) obtain L A B where t: "reach L s" "trie_state P kc L s pm A" "trie_state P ic L s (id_bytes im) B" "A \<inter> B = {}"
    "tidy L s (A \<union> B) D" by (elim spaceE)
  from tidyD(1)[OF t(5) assms(2)] big have x: "L x = Some (block_size len)" "x < al_live_hwm (ts_a s)" "x \<notin> A \<union> B"
      "x \<notin> bl_addr ` set (al_deferred (ts_a s))" "\<And>u. al_open_pack (ts_a s) = Some (x, u) \<Longrightarrow> block_size len \<le> u"
    unfolding placed_def by auto
  have r: "reach L ?s" using step[OF t(1) st_retire[of L ?loc]] x by simp
  have d: "bl_addr ` set (al_deferred (ts_a ?s)) = insert x (bl_addr ` set (al_deferred (ts_a s)))" by (simp add: retire_block_def)
  have tr: "trie_state P kc L ?s pm A" "trie_state P ic L ?s (id_bytes im) B"
    using trie_state_same_bytes[OF t(2) r] trie_state_same_bytes[OF t(3) r] node_blocks_kept[OF t(2)] node_blocks_kept[OF t(3)] x(3)
    unfolding d by (simp_all add: retire_block_def)
  have h: "placed L ?s (A \<union> B) e" if e: "D k' = Some e" "k' \<noteq> k" for k' e
  proof (rule placedE[OF tidyD(1)[OF t(5) e(1)]])
    fix c m
    assume c: "L c = Some m" "c < al_live_hwm (ts_a s)" "c \<le> fst e" "fst e + snd e \<le> c + m" "c \<notin> A \<union> B"
      "c \<notin> bl_addr ` set (al_deferred (ts_a s))" "BASE_BLOCK \<le> snd e \<Longrightarrow> c = fst e \<and> m = snd e"
      "\<And>u. al_open_pack (ts_a s) = Some (c, u) \<Longrightarrow> fst e + snd e \<le> c + u" "0 < snd e"
    have "apart (x, block_size len) e" using tidyD(2)[OF t(5) assms(2) e(1)] e(2) by blast
    then have "c \<noteq> x" using c(1,3,4,9) x(1) by (auto simp: apart_def)
    then show ?thesis using c by (intro placedI[of L c m]) (auto simp: retire_block_def)
  qed
  have "tidy L ?s (A \<union> B) (D(k := None))"
    unfolding tidy_def
  proof (intro conjI allI impI)
    fix k' e assume "(D(k := None)) k' = Some e"
    then show "placed L ?s (A \<union> B) e" using h by (auto split: if_splits)
  next
    fix k1 e1 k2 e2 assume "(D(k := None)) k1 = Some e1" "(D(k := None)) k2 = Some e2" "k1 \<noteq> k2"
    then show "apart e1 e2" using tidyD(2)[OF t(5)] by (auto split: if_splits)
  next
    fix base u assume "al_open_pack (ts_a ?s) = Some (base, u)" "u < BASE_BLOCK"
    then show "base \<notin> A \<union> B" "base \<notin> bl_addr ` set (al_deferred (ts_a ?s))"
      using tidyD(3)[OF t(5), of base u] x(5)[of u] big by (auto simp: retire_block_def)
  qed
  from space_same[OF assms(1) tr t(4) this] show ?thesis .
qed

lemma publish_pack: "al_open_pack (publish_deferred al) = al_open_pack al \<or> al_open_pack (publish_deferred al) = None"
proof -
  have "al_open_pack (foldl (\<lambda>a loc. fst (al_free loc a)) x ds) = al_open_pack x \<or> al_open_pack (foldl (\<lambda>a loc. fst (al_free loc a)) x ds) = None" for x ds
  proof (induction ds arbitrary: x)
    case (Cons d ds)
    from Cons[of "fst (al_free d x)"] al_free_pack[of d x] show ?case by (auto simp del: al_free_sel)
  qed simp
  from this[of "al\<lparr>al_deferred := []\<rparr>" "al_deferred al"] show ?thesis by (simp add: publish_deferred_def Let_def)
qed

lemma space_release:
  assumes "space P kc ic s pm im D"
  shows "space P kc ic (s\<lparr>ts_a := publish_deferred (ts_a s)\<rparr>) pm im D"
proof -
  let ?s = "s\<lparr>ts_a := publish_deferred (ts_a s)\<rparr>"
  from assms obtain L A B where t: "reach L s" "trie_state P kc L s pm A" "trie_state P ic L s (id_bytes im) B" "A \<inter> B = {}"
    "tidy L s (A \<union> B) D" by (elim spaceE)
  let ?L = "released (ts_a s) (al_deferred (ts_a s)) L"
  have r: "reach ?L ?s" using step[OF t(1) st_publish] by simp
  have sel: "al_live_hwm (ts_a ?s) = al_live_hwm (ts_a s)" "al_deferred (ts_a ?s) = []"
    by (simp_all add: publish_sel) (simp add: publish_deferred_def Let_def free_all_sel)
  have same: "?L a = L a" if "a \<notin> bl_addr ` set (al_deferred (ts_a s))" for a using that by (auto simp: released_def)
  have "?L a = L a" if "a \<in> A \<union> B" for a
    using that node_blocks_kept[OF t(2)] node_blocks_kept[OF t(3)] by (intro same) blast
  then have tr: "trie_state P kc ?L ?s pm A" "trie_state P ic ?L ?s (id_bytes im) B"
    using trie_state_same_bytes[OF t(2) r] trie_state_same_bytes[OF t(3) r] sel by simp_all
  have h: "placed ?L ?s (A \<union> B) e" if e: "D k = Some e" for k e
  proof (rule placedE[OF tidyD(1)[OF t(5) e]])
    fix c m
    assume c: "L c = Some m" "c < al_live_hwm (ts_a s)" "c \<le> fst e" "fst e + snd e \<le> c + m" "c \<notin> A \<union> B"
      "c \<notin> bl_addr ` set (al_deferred (ts_a s))" "BASE_BLOCK \<le> snd e \<Longrightarrow> c = fst e \<and> m = snd e"
      "\<And>u. al_open_pack (ts_a s) = Some (c, u) \<Longrightarrow> fst e + snd e \<le> c + u" "0 < snd e"
    show ?thesis using c same[OF c(6)] sel publish_pack[of "ts_a s"] by (intro placedI[of ?L c m]) auto
  qed
  have "tidy ?L ?s (A \<union> B) D"
    using h tidyD(2)[OF t(5)] tidyD(3)[OF t(5)] sel(2) publish_pack[of "ts_a s"] unfolding tidy_def by auto
  from space_same[OF assms tr t(4) this] show ?thesis .
qed

end
