(* ===== verification/Record_Io.thy ===== *)
theory Record_Io
  imports Claims Catalog_Props Writer_Set Retention Header
begin

text \<open>
  Unit records in a container, the first part of \<^verbatim>\<open>sfs-core/src/version/store.rs\<close>: signing and verifying a record under the
  three signing modes, writing it into a fresh block (sealed under the metadata key when the container is
  encrypted), reading it back, and the resolution of a fragment along the chain of superseded records. Shown: a record that was
  written is read back as long as its block is not touched, whatever else happens in the container; only the writers of the
  container can write; records of removed writers stay readable; the resolution finds the newest version
  that is not newer than the one asked for.
\<close>

section \<open>Signatures of records\<close>

text \<open>The part of an open container that reading and writing a record depends on.\<close>

record rec_ctx =
  rc_cipher :: cipher_suite_id
  rc_key :: bytes
  rc_sign_mode :: sign_mode
  rc_writer_pubkey :: bytes
  rc_writer_set :: "writer_set option"
  rc_signing_key :: "bytes option"

datatype membership_scope = Current | CurrentOrRemoved

definition writerset_verifying_member :: "sig_env \<Rightarrow> writer_set \<Rightarrow> bytes \<Rightarrow> bytes \<Rightarrow> membership_scope \<Rightarrow> bytes option" where
  "writerset_verifying_member S ws payload sig scope =
     (let verifies = (\<lambda>m. sg_verify S m payload sig)
      in case scope of
           Current \<Rightarrow> List.find verifies (ws_writers ws)
         | CurrentOrRemoved \<Rightarrow> List.find verifies (ws_writers ws @ ws_removed ws))"

definition verify_record_signature :: "sig_env \<Rightarrow> rec_ctx \<Rightarrow> unit_record \<Rightarrow> membership_scope \<Rightarrow> bytes option result" where
  "verify_record_signature S C rec scope =
     (case rc_sign_mode C of
        Unsigned \<Rightarrow> Inr None
      | Signed \<Rightarrow>
          (case ur_signature rec of
             None \<Rightarrow> Inl (Integrity ''unit record: signature missing in Signed container'')
           | Some sig \<Rightarrow>
               if \<not> sg_verify S (rc_writer_pubkey C) (signing_payload rec) sig
               then Inl (Integrity ''unit record: signature verification failed'')
               else Inr (Some (rc_writer_pubkey C)))
      | WriterSet \<Rightarrow>
          (case rc_writer_set C of
             None \<Rightarrow> Inl (Integrity ''unit record: WriterSet verification requested but no Writer-Set loaded'')
           | Some ws \<Rightarrow>
               (case ur_signature rec of
                  None \<Rightarrow> Inl (Integrity ''unit record: signature missing in WriterSet container'')
                | Some sig \<Rightarrow>
                    (case writerset_verifying_member S ws (signing_payload rec) sig scope of
                       Some member \<Rightarrow> Inr (Some member)
                     | None \<Rightarrow> Inl (Integrity ''unit record: no authorized writer signature (WriterSet fail-closed)'')))))"

datatype record_sign_intent = Fresh | Preserve

definition sign_with :: "sig_env \<Rightarrow> bytes \<Rightarrow> unit_record \<Rightarrow> unit_record" where
  "sign_with S sk rec = rec\<lparr>ur_signature := Some (sg_sign S sk (signing_payload rec))\<rparr>"

definition sign_record :: "sig_env \<Rightarrow> rec_ctx \<Rightarrow> unit_record \<Rightarrow> record_sign_intent \<Rightarrow> unit_record result" where
  "sign_record S C rec intent =
     (case (rc_sign_mode C, intent) of
        (Unsigned, _) \<Rightarrow> Inr rec
      | (Signed, Fresh) \<Rightarrow>
          (case rc_signing_key C of
             None \<Rightarrow> Inl (Integrity ''write_unit_record: container is Signed but no signing key present (verify-only engine cannot write)'')
           | Some sk \<Rightarrow> Inr (sign_with S sk rec))
      | (WriterSet, Fresh) \<Rightarrow>
          (case rc_signing_key C of
             None \<Rightarrow> Inl (Integrity ''write_unit_record: container is WriterSet but no signing key present (verify-only engine cannot write)'')
           | Some sk \<Rightarrow>
               (case rc_writer_set C of
                  None \<Rightarrow> Inl (Integrity ''write_unit_record: WriterSet mode but no Writer-Set loaded'')
                | Some ws \<Rightarrow>
                    if \<not> ws_contains ws (sg_pub S sk)
                    then Inl (Integrity ''write_unit_record: signing key is not a member of the Writer-Set (non-member write rejected)'')
                    else Inr (sign_with S sk rec)))
      | (Signed, Preserve) \<Rightarrow>
          (case ur_signature rec of
             None \<Rightarrow> Inl (Integrity ''write_unit_record: Preserve in Signed container but record has no signature (fail-closed)'')
           | Some sig \<Rightarrow>
               if \<not> sg_verify S (rc_writer_pubkey C) (signing_payload rec) sig
               then Inl (Integrity ''write_unit_record: Preserve signature does not verify under writer_pubkey (fail-closed)'')
               else Inr rec)
      | (WriterSet, Preserve) \<Rightarrow>
          (case ur_signature rec of
             None \<Rightarrow> Inl (Integrity ''write_unit_record: Preserve in WriterSet container but record has no signature (fail-closed)'')
           | Some sig \<Rightarrow>
               (case rc_writer_set C of
                  None \<Rightarrow> Inl (Integrity ''write_unit_record: WriterSet mode but no Writer-Set loaded'')
                | Some ws \<Rightarrow>
                    if writerset_verifying_member S ws (signing_payload rec) sig CurrentOrRemoved = None
                    then Inl (Integrity ''write_unit_record: Preserve signature not verified by any Writer-Set member or removed-tombstone key (fail-closed)'')
                    else Inr rec)))"

section \<open>Blocks of records\<close>

definition record_aad :: "nat \<Rightarrow> bytes" where
  "record_aad addr = u64_to_le (word_of_nat addr) @ [1]"

definition record_prefix :: "rec_ctx \<Rightarrow> nat" where
  "record_prefix C = (if rc_cipher C = CIPHER_AES256_GCM then 16 else 4)"

definition read_unit_record :: "prims \<Rightarrow> sig_env \<Rightarrow> rec_ctx \<Rightarrow> backend \<Rightarrow> nat \<Rightarrow> unit_record result" where
  "read_unit_record P S C b addr =
     bind_r (bk_read_at b addr 4) (\<lambda>len_buf.
       let reclen = unat (u32_from_le len_buf);
           footprint = round_up_block (record_prefix C + reclen)
       in if 2 ^ 64 \<le> addr + footprint then Inl (Panic ''attempt to add with overflow'')
          else if bk_len b < addr + footprint then Inl (Integrity (if rc_cipher C = CIPHER_AES256_GCM then ''unit record (GCM) length exceeds container''
                               else ''unit record length exceeds container''))
          else bind_r
            (if rc_cipher C = CIPHER_AES256_GCM
             then bind_r (bk_read_at b (addr + 4) 12) (\<lambda>nonce.
                  bind_r (bk_read_at b (addr + 16) reclen) (\<lambda>ct.
                    open_with_nonce P (derive_meta_key P (rc_key C)) nonce (record_aad addr) ct))
             else bk_read_at b (addr + 4) reclen)
            (\<lambda>encoded. bind_r (unit_decode P encoded) (\<lambda>rec.
              bind_r (verify_record_signature S C rec CurrentOrRemoved) (\<lambda>_. Inr rec))))"

definition unit_record_raw_size :: "rec_ctx \<Rightarrow> backend \<Rightarrow> nat \<Rightarrow> nat result" where
  "unit_record_raw_size C b addr =
     bind_r (bk_read_at b addr 4) (\<lambda>len_buf. Inr (record_prefix C + unat (u32_from_le len_buf)))"

text \<open>The bytes of a record at an address: its length, the nonce if it is sealed, its encoding.\<close>

definition record_image :: "prims \<Rightarrow> rec_ctx \<Rightarrow> nat \<Rightarrow> bytes \<Rightarrow> bytes \<Rightarrow> bytes" where
  "record_image P C addr nonce encoded =
     (if rc_cipher C = CIPHER_AES256_GCM
      then let ct = seal_with_nonce P (derive_meta_key P (rc_key C)) nonce (record_aad addr) encoded
           in u32_to_le (word_of_nat (length encoded + 16)) @ nonce @ ct
      else u32_to_le (word_of_nat (length encoded)) @ encoded)"

definition write_unit_record :: "prims \<Rightarrow> sig_env \<Rightarrow> rec_ctx \<Rightarrow> unit_record \<Rightarrow> record_sign_intent \<Rightarrow> tstate \<Rightarrow> nat result \<times> tstate" where
  "write_unit_record P S C rec intent s =
     bind_s (sign_record S C rec intent, s) (\<lambda>rec s.
       let encoded = unit_encode P rec in
       if rc_cipher C = CIPHER_AES256_GCM
       then bind_s (ts_alloc (word_of_nat (4 + 12 + (length encoded + 16))) CatalogHead s) (\<lambda>loc s.
            bind_s (fill_random 12 s) (\<lambda>nonce s.
            bind_s (ts_write_at (bl_addr loc) (pad_block (record_image P C (bl_addr loc) nonce encoded)) s) (\<lambda>_ s.
              (Inr (bl_addr loc), s))))
       else bind_s (ts_alloc (word_of_nat (4 + length encoded)) CatalogHead s) (\<lambda>loc s.
            bind_s (ts_write_at (bl_addr loc) (pad_block (record_image P C (bl_addr loc) [] encoded)) s) (\<lambda>_ s.
              (Inr (bl_addr loc), s))))"

text \<open>The additional data of a sealed block of the metadata stream.\<close>

definition meta_stream_aad :: "bytes \<Rightarrow> u64 \<Rightarrow> u64 \<Rightarrow> bytes" where
  "meta_stream_aad uuid addr version = [2] @ uuid @ u64_to_le addr @ u64_to_le version"

section \<open>The chain of records\<close>

definition addr_or_err :: "nat \<Rightarrow> nat result" where
  "addr_or_err addr = (if addr = 0 then Inl (Integrity ''unit record address is unset (0)'') else Inr addr)"

text \<open>What one record says of a fragment: its location, version and suite, if its version is not too new.\<close>

definition frag_in :: "unit_record \<Rightarrow> nat \<Rightarrow> u64 \<Rightarrow> (block_loc \<times> u64 \<times> cipher_suite_id option) option result" where
  "frag_in rec frag at_version =
     (case ur_content rec of
        None \<Rightarrow> Inr None
      | Some sm \<Rightarrow>
          if frag < length (sm_unit_map sm) \<and> sm_unit_map sm ! frag \<le> at_version
          then if frag < length (sm_locations sm)
               then Inr (Some (sm_locations sm ! frag, sm_unit_map sm ! frag,
                      if frag < length (ur_frag_suites rec) then Some (ur_frag_suites rec ! frag) else ur_content_suite rec))
               else Inl (Integrity ''unit_map/locations length mismatch in record'')
          else Inr None)"

text \<open>A damaged container may hold a chain that never ends; then the resolution does not return.\<close>

partial_function (option) resolve_loop :: "(nat \<Rightarrow> unit_record result) \<Rightarrow> nat \<Rightarrow> u64 \<Rightarrow> nat \<Rightarrow>
    (block_loc \<times> u64 \<times> cipher_suite_id option) option result option" where
  "resolve_loop rd frag at_version addr =
     (case rd addr of
        Inl e \<Rightarrow> Some (Inl e)
      | Inr rec \<Rightarrow>
          (case frag_in rec frag at_version of
             Inl e \<Rightarrow> Some (Inl e)
           | Inr (Some x) \<Rightarrow> Some (Inr (Some x))
           | Inr None \<Rightarrow>
               (case ur_parent rec of
                  None \<Rightarrow> Some (Inr None)
                | Some p \<Rightarrow> resolve_loop rd frag at_version (unat p))))"

definition resolve_with_version :: "prims \<Rightarrow> sig_env \<Rightarrow> rec_ctx \<Rightarrow> backend \<Rightarrow> nat \<Rightarrow> nat \<Rightarrow> u64 \<Rightarrow>
    (block_loc \<times> u64 \<times> cipher_suite_id option) option result option" where
  "resolve_with_version P S C b head frag at_version = resolve_loop (read_unit_record P S C b) frag at_version head"

text \<open>\<^verbatim>\<open>resolve\<close> runs the same loop and returns the location only.\<close>

definition resolve_at :: "prims \<Rightarrow> sig_env \<Rightarrow> rec_ctx \<Rightarrow> backend \<Rightarrow> nat \<Rightarrow> nat \<Rightarrow> u64 \<Rightarrow> block_loc option result option" where
  "resolve_at P S C b head frag at_version =
     map_option (map_sum id (map_option fst)) (resolve_loop (read_unit_record P S C b) frag at_version head)"

definition resolve_current :: "prims \<Rightarrow> sig_env \<Rightarrow> rec_ctx \<Rightarrow> backend \<Rightarrow> nat \<Rightarrow> nat \<Rightarrow> block_loc option result" where
  "resolve_current P S C b head frag =
     bind_r (addr_or_err head) (\<lambda>addr. bind_r (read_unit_record P S C b addr) (\<lambda>rec.
       Inr (case ur_content rec of
              None \<Rightarrow> None
            | Some sm \<Rightarrow> if frag < length (sm_locations sm) then Some (sm_locations sm ! frag) else None)))"

section \<open>Records that stay readable\<close>

lemma signing_payload_signature [simp]: "signing_payload (rec\<lparr>ur_signature := sig\<rparr>) = signing_payload rec"
  by (simp add: signing_payload_def)

lemma find_isSome: "x \<in> set xs \<Longrightarrow> Q x \<Longrightarrow> \<exists>y. List.find Q xs = Some y"
  by (induction xs) auto

lemma find_memberD: "List.find Q xs = Some y \<Longrightarrow> y \<in> set xs \<and> Q y"
  by (induction xs) (auto split: if_splits)

lemma verifying_memberI:
  "m \<in> set (ws_writers ws) \<union> set (ws_removed ws) \<Longrightarrow> sg_verify S m p sig \<Longrightarrow>
   \<exists>m'. writerset_verifying_member S ws p sig CurrentOrRemoved = Some m'"
  unfolding writerset_verifying_member_def Let_def membership_scope.case
  by (rule find_isSome[where x = m]) auto

text \<open>The five ways a record gets its signature.\<close>

lemma sign_recordE:
  assumes "sign_record S C rec intent = Inr rec'"
  obtains (plain) "rc_sign_mode C = Unsigned" "rec' = rec"
  | (author) sk where "rc_sign_mode C = Signed" "rc_signing_key C = Some sk" "rec' = sign_with S sk rec"
  | (member) sk ws where "rc_sign_mode C = WriterSet" "rc_writer_set C = Some ws" "ws_contains ws (sg_pub S sk)"
      "rc_signing_key C = Some sk" "rec' = sign_with S sk rec"
  | (kept) sig where "rc_sign_mode C = Signed" "intent = Preserve" "ur_signature rec = Some sig"
      "sg_verify S (rc_writer_pubkey C) (signing_payload rec) sig" "rec' = rec"
  | (kept_member) sig ws m where "rc_sign_mode C = WriterSet" "intent = Preserve" "rc_writer_set C = Some ws"
      "ur_signature rec = Some sig" "writerset_verifying_member S ws (signing_payload rec) sig CurrentOrRemoved = Some m" "rec' = rec"
proof (cases "rc_sign_mode C")
  case Unsigned
  then show ?thesis using assms by (intro plain) (simp_all add: sign_record_def)
next
  case Signed
  show ?thesis
  proof (cases intent)
    case Fresh
    from assms Signed Fresh obtain sk where "rc_signing_key C = Some sk" "rec' = sign_with S sk rec"
      by (cases "rc_signing_key C") (simp_all add: sign_record_def)
    with Signed show ?thesis by (rule author)
  next
    case Preserve
    from assms Signed Preserve obtain sig where "ur_signature rec = Some sig"
      by (cases "ur_signature rec") (simp_all add: sign_record_def)
    with assms Signed Preserve show ?thesis
      by (cases "sg_verify S (rc_writer_pubkey C) (signing_payload rec) sig") (intro kept, simp_all add: sign_record_def)
  qed
next
  case WriterSet
  show ?thesis
  proof (cases intent)
    case Fresh
    from assms WriterSet Fresh obtain sk where sk: "rc_signing_key C = Some sk"
      by (cases "rc_signing_key C") (simp_all add: sign_record_def)
    with assms WriterSet Fresh obtain ws where ws: "rc_writer_set C = Some ws"
      by (cases "rc_writer_set C") (simp_all add: sign_record_def)
    with assms WriterSet Fresh sk have w: "ws_contains ws (sg_pub S sk) \<and> rec' = sign_with S sk rec"
      by (cases "ws_contains ws (sg_pub S sk)") (simp_all add: sign_record_def)
    from WriterSet sk ws conjunct1[OF w] conjunct2[OF w] show ?thesis by (intro member)
  next
    case Preserve
    from assms WriterSet Preserve obtain sig where sig: "ur_signature rec = Some sig"
      by (cases "ur_signature rec") (simp_all add: sign_record_def)
    with assms WriterSet Preserve obtain ws where ws: "rc_writer_set C = Some ws"
      by (cases "rc_writer_set C") (simp_all add: sign_record_def)
    with assms WriterSet Preserve sig obtain m where
      "writerset_verifying_member S ws (signing_payload rec) sig CurrentOrRemoved = Some m" "rec' = rec"
      by (cases "writerset_verifying_member S ws (signing_payload rec) sig CurrentOrRemoved") (simp_all add: sign_record_def)
    with WriterSet Preserve ws sig show ?thesis by (intro kept_member)
  qed
qed

lemma sign_record_shape:
  assumes "sig_env_ok S" and "sign_record S C rec intent = Inr rec'"
  shows "\<exists>sig. rec' = rec\<lparr>ur_signature := sig\<rparr>" and "unit_ok rec \<Longrightarrow> unit_ok rec'"
proof -
  have same: "\<exists>sig. rec = rec\<lparr>ur_signature := sig\<rparr>" by (rule exI[where x = "ur_signature rec"]) simp
  show "\<exists>sig. rec' = rec\<lparr>ur_signature := sig\<rparr>"
    using assms(2) by (cases rule: sign_recordE) (simp only: same, auto simp: sign_with_def intro: same)
  have "length (sg_sign S sk m) = 64" for sk m using assms(1) by (simp add: sig_env_ok_def)
  then have "unit_ok rec \<Longrightarrow> unit_ok (sign_with S sk rec)" for sk by (simp add: unit_ok_def sign_with_def)
  then have "unit_ok rec \<longrightarrow> unit_ok rec'" using assms(2) by - (erule sign_recordE, simp_all)
  then show "unit_ok rec \<Longrightarrow> unit_ok rec'" by simp
qed

lemma sign_record_verifies:
  assumes "sig_env_ok S" and "sign_record S C rec intent = Inr rec'"
    and k: "rc_sign_mode C = Signed \<longrightarrow> (\<forall>sk. rc_signing_key C = Some sk \<longrightarrow> rc_writer_pubkey C = sg_pub S sk)"
  shows "\<exists>w. verify_record_signature S C rec' CurrentOrRemoved = Inr w"
proof -
  have v: "sg_verify S (sg_pub S sk) m (sg_sign S sk m)" for sk m using assms(1) by (simp add: sig_env_ok_def)
  show ?thesis using assms(2)
  proof (cases rule: sign_recordE)
    case (author sk)
    with k v show ?thesis by (simp add: verify_record_signature_def sign_with_def)
  next
    case (member sk ws)
    from member(3) v obtain m where
      "writerset_verifying_member S ws (signing_payload rec) (sg_sign S sk (signing_payload rec)) CurrentOrRemoved = Some m"
      using verifying_memberI[of "sg_pub S sk" ws S, OF _ v] unfolding ws_contains_def by blast
    with member show ?thesis by (simp add: verify_record_signature_def sign_with_def)
  qed (simp_all add: verify_record_signature_def)
qed

text \<open>The block of a record: its image and zeros.\<close>

definition record_at :: "prims \<Rightarrow> rec_ctx \<Rightarrow> bytes \<Rightarrow> nat \<Rightarrow> nat \<Rightarrow> unit_record \<Rightarrow> bool" where
  "record_at P C bs addr n rec \<longleftrightarrow>
     (\<exists>nonce. (rc_cipher C = CIPHER_AES256_GCM \<longrightarrow> length nonce = 12) \<and> unit_ok rec
        \<and> length (record_image P C addr nonce (unit_encode P rec)) < 2 ^ 32
        \<and> n = round_up_block (length (record_image P C addr nonce (unit_encode P rec)))
        \<and> slice addr n bs = pad_block (record_image P C addr nonce (unit_encode P rec)))"

lemma record_at_same_bytes:
  "same_bytes D s s' \<Longrightarrow> D k = Some (addr, n) \<Longrightarrow> record_at P C (bk_bytes (ts_b s)) addr n rec \<Longrightarrow>
   record_at P C (bk_bytes (ts_b s')) addr n rec"
  unfolding record_at_def same_bytes_def by metis

lemma block_size_round: "n < 2 ^ 32 \<Longrightarrow> block_size (word_of_nat n) = round_up_block n"
  using round_up_block_ge[of n]
  by (auto simp: block_size_def round_up_block_def round_up_to_block_def unat_of_nat BASE_BLOCK_def max_def)

text \<open>Reading at the block of a record gives the record.\<close>

lemma record_image_length:
  assumes "prims_ok P" and "rc_cipher C = CIPHER_AES256_GCM \<longrightarrow> length nonce = 12"
  shows "length (record_image P C addr nonce enc) = record_prefix C + (if rc_cipher C = CIPHER_AES256_GCM then length enc + 16 else length enc)"
  using assms by (simp add: record_image_def record_prefix_def Let_def seal_with_nonce_def prims_ok_def)

lemma slice_pad:
  assumes "slice addr n bs = pad_block img" and "n = round_up_block (length img)" and "o' + l \<le> length img"
  shows "slice (addr + o') l bs = slice o' l img"
proof -
  have "length img \<le> n" using assms(2) round_up_block_ge by simp
  then have "slice (addr + o') l bs = slice o' l (pad_block img)" using slice_slice[of o' l n addr bs] assms(1,3) by simp
  then show ?thesis using assms(3) by (simp add: pad_block_def slice_append_left)
qed

lemma read_unit_record_body:
  assumes "bk_ok b" and "addr + n \<le> bk_len b" and "bk_read_at b addr 4 = Inr (u32_to_le (word_of_nat m))" and "m < 2 ^ 32"
    and "n = round_up_block (record_prefix C + m)"
    and "(if rc_cipher C = CIPHER_AES256_GCM
          then bind_r (bk_read_at b (addr + 4) 12) (\<lambda>nonce. bind_r (bk_read_at b (addr + 16) m) (\<lambda>ct.
                 open_with_nonce P (derive_meta_key P (rc_key C)) nonce (record_aad addr) ct))
          else bk_read_at b (addr + 4) m) = Inr (unit_encode P rec)"
    and "unit_ok rec" and "verify_record_signature S C rec CurrentOrRemoved = Inr w"
  shows "read_unit_record P S C b addr = Inr rec"
proof -
  have m: "unat (word_of_nat m :: u32) = m" using assms(4) by (simp add: unat_of_nat)
  have "addr + n < 2 ^ 64" using assms(1,2) by (simp add: bk_ok_def)
  then show ?thesis
    unfolding read_unit_record_def Let_def using assms(2,3,5-8) decode_encoded_unit[OF assms(7), of P]
    by (cases "rc_cipher C = CIPHER_AES256_GCM") (simp_all add: m)
qed

lemma read_record_at:
  assumes "prims_ok P" and "record_at P C (bk_bytes b) addr n rec" and "bk_ok b" and "addr + n \<le> bk_len b"
    and "verify_record_signature S C rec CurrentOrRemoved = Inr w"
  shows "read_unit_record P S C b addr = Inr rec"
proof -
  from assms(2) obtain nonce where nc: "rc_cipher C = CIPHER_AES256_GCM \<longrightarrow> length nonce = 12" and u: "unit_ok rec"
    and lt: "length (record_image P C addr nonce (unit_encode P rec)) < 2 ^ 32"
    and n: "n = round_up_block (length (record_image P C addr nonce (unit_encode P rec)))"
    and sl: "slice addr n (bk_bytes b) = pad_block (record_image P C addr nonce (unit_encode P rec))"
    unfolding record_at_def by blast
  let ?e = "unit_encode P rec" and ?img = "record_image P C addr nonce (unit_encode P rec)"
  define m where "m = (if rc_cipher C = CIPHER_AES256_GCM then length ?e + 16 else length ?e)"
  have len: "length ?img = record_prefix C + m" using record_image_length[OF assms(1) nc] by (simp add: m_def)
  have rd: "bk_read_at b (addr + o') l = Inr (slice o' l ?img)" if "o' + l \<le> length ?img" for o' l
    using slice_pad[OF sl n that] that n round_up_block_ge[of "length ?img"] assms(3,4) by (simp add: bk_read_at_def bk_ok_def)
  have img: "?img = u32_to_le (word_of_nat m) @ (if rc_cipher C = CIPHER_AES256_GCM
      then nonce @ seal_with_nonce P (derive_meta_key P (rc_key C)) nonce (record_aad addr) ?e else ?e)"
    by (simp add: record_image_def m_def Let_def)
  have p: "4 \<le> record_prefix C" by (simp add: record_prefix_def)
  have "slice 0 4 ?img = u32_to_le (word_of_nat m)" unfolding img by (simp add: slice_def)
  with rd[of 0 4] len p have 4: "bk_read_at b addr 4 = Inr (u32_to_le (word_of_nat m))" by simp
  let ?body = "if rc_cipher C = CIPHER_AES256_GCM
          then bind_r (bk_read_at b (addr + 4) 12) (\<lambda>nonce. bind_r (bk_read_at b (addr + 16) m) (\<lambda>ct.
                 open_with_nonce P (derive_meta_key P (rc_key C)) nonce (record_aad addr) ct))
          else bk_read_at b (addr + 4) m"
  have body: "?body = Inr ?e"
  proof (cases "rc_cipher C = CIPHER_AES256_GCM")
    case True
    let ?ct = "seal_with_nonce P (derive_meta_key P (rc_key C)) nonce (record_aad addr) ?e"
    have l: "length nonce = 12" "length ?ct = m" "record_prefix C = 16"
      using nc True assms(1) by (simp_all add: m_def seal_with_nonce_def prims_ok_def record_prefix_def)
    have "slice 4 12 ?img = nonce" "slice 16 m ?img = ?ct" unfolding img using True l by (simp_all add: slice_def)
    with rd[of 4 12] rd[of 16 m] len l(3) have "bk_read_at b (addr + 4) 12 = Inr nonce" "bk_read_at b (addr + 16) m = Inr ?ct" by simp_all
    with True assms(1) show ?thesis by (simp add: open_with_nonce_def seal_with_nonce_def prims_ok_def)
  next
    case False
    then have "slice 4 m ?img = ?e" "record_prefix C = 4" unfolding img by (simp_all add: slice_def m_def record_prefix_def)
    with rd[of 4 m] len False show ?thesis by simp
  qed
  show ?thesis
    by (rule read_unit_record_body[OF assms(3,4) 4 _ _ body u assms(5)]) (use lt len n in simp_all)
qed

section \<open>Writing a record\<close>

lemma fill_randomD: "fill_random n s = (Inr x, s1) \<Longrightarrow> length x = n \<and> s1 = s\<lparr>ts_ent := drop n (ts_ent s)\<rparr>"
  by (auto simp: fill_random_def split: if_splits)

lemma ts_write_atD: "ts_write_at a buf s = (Inr x, s1) \<Longrightarrow> \<exists>b. bk_write_at (ts_b s) a buf = Inr b \<and> s1 = s\<lparr>ts_b := b\<rparr>"
  by (auto simp: ts_write_at_def split: sum.splits)

lemma space_entropy: "space P kc ic s pm im D \<Longrightarrow> space P kc ic (s\<lparr>ts_ent := e\<rparr>) pm im D"
  by (rule conjunct1[OF space_step]) (auto simp: keeps_def)

text \<open>A successful write allocates, draws the nonce if the record is sealed, and writes one block.\<close>

lemma write_unit_recordE:
  assumes "write_unit_record P S C rec intent s = (Inr addr, s1)" and "sign_record S C rec intent = Inr rec'"
  obtains loc sa nonce e b where
    "ts_alloc (word_of_nat (record_prefix C + (if rc_cipher C = CIPHER_AES256_GCM then length (unit_encode P rec') + 16
        else length (unit_encode P rec')))) CatalogHead s = (Inr loc, sa)"
    "addr = bl_addr loc" "rc_cipher C = CIPHER_AES256_GCM \<longrightarrow> length nonce = 12"
    "bk_write_at (ts_b sa) addr (pad_block (record_image P C addr nonce (unit_encode P rec'))) = Inr b"
    "s1 = (sa\<lparr>ts_ent := e\<rparr>)\<lparr>ts_b := b\<rparr>"
proof (cases "rc_cipher C = CIPHER_AES256_GCM")
  case True
  let ?e = "unit_encode P rec'"
  from assms True obtain loc sa nonce sb where
    1: "ts_alloc (word_of_nat (4 + 12 + (length ?e + 16))) CatalogHead s = (Inr loc, sa)" "fill_random 12 sa = (Inr nonce, sb)"
      "ts_write_at (bl_addr loc) (pad_block (record_image P C (bl_addr loc) nonce ?e)) sb = (Inr (), s1)" "addr = bl_addr loc"
    unfolding write_unit_record_def Let_def by (auto elim!: bind_s_InrE)
  from fill_randomD[OF 1(2)] ts_write_atD[OF 1(3)] obtain b where
    2: "length nonce = 12" "sb = sa\<lparr>ts_ent := drop 12 (ts_ent sa)\<rparr>"
      "bk_write_at (ts_b sb) (bl_addr loc) (pad_block (record_image P C (bl_addr loc) nonce ?e)) = Inr b" "s1 = sb\<lparr>ts_b := b\<rparr>" by blast
  show ?thesis
    by (rule that[of loc sa nonce b "drop 12 (ts_ent sa)"]) (use 1 2 True in \<open>simp_all add: record_prefix_def add.assoc\<close>)
next
  case False
  let ?e = "unit_encode P rec'"
  from assms False obtain loc sa where
    1: "ts_alloc (word_of_nat (4 + length ?e)) CatalogHead s = (Inr loc, sa)"
      "ts_write_at (bl_addr loc) (pad_block (record_image P C (bl_addr loc) [] ?e)) sa = (Inr (), s1)" "addr = bl_addr loc"
    unfolding write_unit_record_def Let_def by (auto elim!: bind_s_InrE)
  from ts_write_atD[OF 1(2)] obtain b where
    2: "bk_write_at (ts_b sa) (bl_addr loc) (pad_block (record_image P C (bl_addr loc) [] ?e)) = Inr b" "s1 = sa\<lparr>ts_b := b\<rparr>" by blast
  show ?thesis
    by (rule that[of loc sa "[]" b "ts_ent sa"]) (use 1 2 False in \<open>simp_all add: record_prefix_def\<close>)
qed

text \<open>The block of a new record is a claim of its own, no other claim changes, and the block holds the record.\<close>

lemma write_unit_record_claims:
  assumes "prims_ok P" and "sig_env_ok S" and sp: "space P kc ic s pm im D" and Dk: "D k = None" and "unit_ok rec"
    and w: "write_unit_record P S C rec intent s = (Inr addr, s1)" and sg: "sign_record S C rec intent = Inr rec'"
    and lt: "length (unit_encode P rec') + 32 < 2 ^ 32"
  shows "\<exists>n. space P kc ic s1 pm im (D(k \<mapsto> (addr, n))) \<and> same_bytes D s s1 \<and> record_at P C (bk_bytes (ts_b s1)) addr n rec'"
proof -
  let ?e = "unit_encode P rec'"
  define tot where "tot = record_prefix C + (if rc_cipher C = CIPHER_AES256_GCM then length ?e + 16 else length ?e)"
  have tot: "tot < 2 ^ 32" using lt by (simp add: tot_def record_prefix_def)
  from w sg obtain loc sa nonce e b where al: "ts_alloc (word_of_nat tot) CatalogHead s = (Inr loc, sa)" and addr: "addr = bl_addr loc"
    and nc: "rc_cipher C = CIPHER_AES256_GCM \<longrightarrow> length nonce = 12"
    and wr: "bk_write_at (ts_b sa) addr (pad_block (record_image P C addr nonce ?e)) = Inr b"
    and s1: "s1 = (sa\<lparr>ts_ent := e\<rparr>)\<lparr>ts_b := b\<rparr>"
    unfolding tot_def by (rule write_unit_recordE)
  let ?img = "record_image P C addr nonce ?e" and ?n = "round_up_block tot" and ?D = "D(k \<mapsto> (addr, round_up_block tot))"
  have len: "length ?img = tot" using record_image_length[OF assms(1) nc] by (simp add: tot_def)
  have a: "space P kc ic sa pm im ?D" "same_bytes D s sa"
    using space_alloc[OF sp al _ Dk] block_size_round[OF tot] addr by simp_all
  have sb: "space P kc ic (sa\<lparr>ts_ent := e\<rparr>) pm im ?D" by (rule space_entropy[OF a(1)])
  have wr': "bk_write_at (ts_b (sa\<lparr>ts_ent := e\<rparr>)) addr (pad_block ?img) = Inr b" using wr by simp
  have pl: "length (pad_block ?img) = ?n" by (simp add: length_pad_block len)
  have bd: "addr + length (pad_block ?img) \<le> addr + ?n" using pl by simp
  have Dk': "?D k = Some (addr, ?n)" by simp
  note x = space_write[OF sb Dk' le_refl bd wr']
  have "?D(k := None) = D" using Dk by auto
  with x(2) have "same_bytes D (sa\<lparr>ts_ent := e\<rparr>) s1" unfolding s1 by (simp only:)
  then have "same_bytes D s s1" using a(2) by (simp add: same_bytes_def)
  moreover have "record_at P C (bk_bytes (ts_b s1)) addr ?n rec'"
    unfolding record_at_def using nc sign_record_shape(2)[OF assms(2) sg assms(5)] x(3) pl len tot
    by (intro exI[where x = nonce]) (simp add: s1)
  ultimately show ?thesis using x(1) s1 by blast
qed

text \<open>A write returns when the signature can be made, the forward region has room and there is entropy for the nonce.\<close>

lemma alloc_head_total:
  assumes "reach L s" and "al_live_hwm (ts_a s) + block_size len \<le> al_tail_low (ts_a s)"
  shows "\<exists>loc s1. ts_alloc len CatalogHead s = (Inr loc, s1) \<and> ts_ent s1 = ts_ent s"
proof -
  from reachable_al_ok[OF assms(1)] have ok: "al_ok L (bk_len (ts_b s)) (ts_a s)" by simp
  show ?thesis
  proof (cases "fl_first_fit (freelist_for (ts_a s) CatalogHead) (block_size len)")
    case None
    then show ?thesis using assms(2) by (auto simp: ts_alloc_def alloc_aligned_def Let_def bump_forward_def)
  next
    case (Some a)
    obtain m where "fl_remove_range (freelist_for (ts_a s) CatalogHead) a (block_size len) = Inr m"
      by (rule take_free_ok[OF ok Some block_size_pos block_size_dvd])
    with Some show ?thesis by (auto simp: ts_alloc_def alloc_aligned_def Let_def)
  qed
qed

lemma write_unit_record_total:
  assumes "prims_ok P" and sp: "space P kc ic s pm im D" and sg: "sign_record S C rec intent = Inr rec'"
    and lt: "length (unit_encode P rec') + 32 < 2 ^ 32"
    and room: "al_live_hwm (ts_a s) + round_up_block (length (unit_encode P rec') + 32) \<le> al_tail_low (ts_a s)"
    and ent: "12 \<le> length (ts_ent s) \<or> rc_cipher C \<noteq> CIPHER_AES256_GCM"
  shows "\<exists>addr s1. write_unit_record P S C rec intent s = (Inr addr, s1)"
proof -
  let ?e = "unit_encode P rec'"
  define tot where "tot = record_prefix C + (if rc_cipher C = CIPHER_AES256_GCM then length ?e + 16 else length ?e)"
  have tot: "tot \<le> length ?e + 32" "tot < 2 ^ 32" using lt by (simp_all add: tot_def record_prefix_def)
  have mono: "round_up_block tot \<le> round_up_block (length ?e + 32)"
    using tot(1) by (auto simp: round_up_block_def BASE_BLOCK_def intro!: div_le_mono)
  from sp obtain L where L: "reach L s" by (elim spaceE)
  have "al_live_hwm (ts_a s) + block_size (word_of_nat tot) \<le> al_tail_low (ts_a s)"
    using room mono block_size_round[OF tot(2)] by simp
  from alloc_head_total[OF L this] obtain loc sa where al: "ts_alloc (word_of_nat tot) CatalogHead s = (Inr loc, sa)" "ts_ent sa = ts_ent s" by blast
  have "space P kc ic s pm im (Map.empty :: bool \<rightharpoonup> range)" by (rule space_rename[OF sp]) simp_all
  from space_alloc(1)[OF this al(1), of True] have sp': "space P kc ic sa pm im [True \<mapsto> (bl_addr loc, round_up_block tot)]"
    using block_size_round[OF tot(2)] by simp
  have bd: "bl_addr loc + round_up_block tot \<le> bk_len (ts_b sa)" "bk_ok (ts_b sa)"
    using space_bounds(1)[OF sp', of True] space_backend[OF sp'] by simp_all
  have wr: "\<exists>s1. ts_write_at (bl_addr loc) (pad_block (record_image P C (bl_addr loc) nonce ?e)) (sa\<lparr>ts_ent := en\<rparr>) = (Inr (), s1)"
    if "rc_cipher C = CIPHER_AES256_GCM \<longrightarrow> length nonce = 12" for nonce en
    using bd record_image_length[OF assms(1) that, of "bl_addr loc" ?e]
    by (simp add: ts_write_at_def bk_write_at_def length_pad_block tot_def bk_ok_def)
  show ?thesis
  proof (cases "rc_cipher C = CIPHER_AES256_GCM")
    case True
    with ent al(2) have f: "fill_random 12 sa = (Inr (take 12 (ts_ent sa)), sa\<lparr>ts_ent := drop 12 (ts_ent sa)\<rparr>)" "length (take 12 (ts_ent sa)) = 12"
      by (simp_all add: fill_random_def)
    have "4 + 12 + (length ?e + 16) = tot" using True by (simp add: tot_def record_prefix_def)
    with wr[of "take 12 (ts_ent sa)" "drop 12 (ts_ent sa)"] f al(1) True show ?thesis
      by (auto simp: write_unit_record_def Let_def sg bind_s_def simp del: length_take of_nat_add)
  next
    case False
    have "4 + length ?e = tot" using False by (simp add: tot_def record_prefix_def)
    with wr[of "[]" "ts_ent sa"] al(1) False show ?thesis
      by (auto simp: write_unit_record_def Let_def sg bind_s_def simp del: of_nat_add)
  qed
qed

text \<open>A new container has no claims.\<close>

lemma space_new:
  assumes "prims_ok P" and "reach L s" and "al_open_pack (ts_a s) = None"
    and "key_create P cipher ck s = (Inr kc, s1)" and "id_create P cipher ck s1 = (Inr ic, s2)"
  shows "space P kc ic s2 Map.empty Map.empty Map.empty"
proof -
  from trie_create_ok(1)[OF assms(1,2) assms(4)[unfolded key_create_def]] obtain L1 A where
    1: "trie_state P kc L1 s1 Map.empty A" "keeps {} L s L1 s1" by blast
  from trie_create_ok(1)[OF assms(1) trie_state_reach[OF 1(1)] assms(5)[unfolded id_create_def]] obtain L2 B where
    2: "trie_state P ic L2 s2 Map.empty B" "keeps {} L1 s1 L2 s2" "B \<inter> used L1 s1 = {}" by blast
  have "trie_state P kc L2 s2 Map.empty A" by (rule trie_state_keeps[OF 1(1) 2(2) _ trie_state_reach[OF 2(1)]]) simp
  moreover have "A \<inter> B = {}" using 2(3) node_blocks_used[OF 1(1)] by blast
  moreover have "al_open_pack (ts_a s2) = None" using keepsD(5)[OF 1(2)] keepsD(5)[OF 2(2)] assms(3) by auto
  ultimately show ?thesis using 2(1) unfolding space_def tidy_def by auto
qed

section \<open>Resolution along a chain\<close>

text \<open>The records that are read from an address back to the oldest one.\<close>

inductive record_chain :: "(nat \<Rightarrow> unit_record result) \<Rightarrow> nat \<Rightarrow> unit_record list \<Rightarrow> bool" for rd where
  oldest: "rd addr = Inr rec \<Longrightarrow> ur_parent rec = None \<Longrightarrow> record_chain rd addr [rec]"
| newer: "rd addr = Inr rec \<Longrightarrow> ur_parent rec = Some p \<Longrightarrow> record_chain rd (unat p) recs \<Longrightarrow> record_chain rd addr (rec # recs)"

text \<open>The version of a fragment in a record.\<close>

definition frag_version :: "unit_record \<Rightarrow> nat \<Rightarrow> u64 option" where
  "frag_version rec frag =
     (case ur_content rec of
        None \<Rightarrow> None
      | Some sm \<Rightarrow> if frag < length (sm_unit_map sm) then Some (sm_unit_map sm ! frag) else None)"

definition visible_at :: "nat \<Rightarrow> u64 \<Rightarrow> unit_record \<Rightarrow> bool" where
  "visible_at frag v rec \<longleftrightarrow> (\<exists>x. frag_version rec frag = Some x \<and> x \<le> v)"

lemma frag_in_ok:
  assumes "unit_ok rec"
  shows "if visible_at frag v rec
         then \<exists>sm suite. ur_content rec = Some sm \<and> frag_in rec frag v = Inr (Some (sm_locations sm ! frag, sm_unit_map sm ! frag, suite))
         else frag_in rec frag v = Inr None"
  using assms by (auto simp: frag_in_def visible_at_def frag_version_def unit_ok_def stream_ok_def split: option.splits)

lemma resolve_chain:
  assumes "record_chain rd addr recs" and "\<forall>rec\<in>set recs. unit_ok rec"
  shows "resolve_loop rd frag v addr =
     Some (case List.find (visible_at frag v) recs of None \<Rightarrow> Inr None | Some rec \<Rightarrow> frag_in rec frag v)"
  using assms
proof (induction rule: record_chain.induct)
  case (oldest addr rec)
  then show ?case using frag_in_ok[of rec frag v] by (subst resolve_loop.simps) (auto split: if_splits)
next
  case (newer addr rec p recs)
  then show ?case using frag_in_ok[of rec frag v] by (subst resolve_loop.simps) (auto split: if_splits)
qed

lemma read_unit_recordD:
  assumes "read_unit_record P S C b addr = Inr rec"
  shows "unit_ok rec" and "\<exists>w. verify_record_signature S C rec CurrentOrRemoved = Inr w"
proof -
  from assms obtain enc where "unit_decode P enc = Inr rec" "\<exists>w. verify_record_signature S C rec CurrentOrRemoved = Inr w"
    unfolding read_unit_record_def Let_def by (auto split: if_splits)
  then show "unit_ok rec" "\<exists>w. verify_record_signature S C rec CurrentOrRemoved = Inr w" using decoded_unit_ok by blast+
qed

lemma chain_unit_ok: "record_chain (read_unit_record P S C b) addr recs \<Longrightarrow> \<forall>rec\<in>set recs. unit_ok rec"
  by (induction rule: record_chain.induct) (auto dest: read_unit_recordD(1))

lemma member_signature:
  assumes "verify_record_signature S C rec CurrentOrRemoved = Inr w" and "rc_sign_mode C = WriterSet"
  shows "\<exists>ws sig m. rc_writer_set C = Some ws \<and> ur_signature rec = Some sig
           \<and> m \<in> set (ws_writers ws) \<union> set (ws_removed ws) \<and> sg_verify S m (signing_payload rec) sig"
proof -
  from assms obtain ws where ws: "rc_writer_set C = Some ws"
    by (cases "rc_writer_set C") (simp_all add: verify_record_signature_def)
  with assms obtain sig where sig: "ur_signature rec = Some sig"
    by (cases "ur_signature rec") (simp_all add: verify_record_signature_def)
  with assms ws obtain m where "writerset_verifying_member S ws (signing_payload rec) sig CurrentOrRemoved = Some m"
    by (cases "writerset_verifying_member S ws (signing_payload rec) sig CurrentOrRemoved") (simp_all add: verify_record_signature_def)
  then have "m \<in> set (ws_writers ws @ ws_removed ws) \<and> sg_verify S m (signing_payload rec) sig"
    unfolding writerset_verifying_member_def Let_def membership_scope.case by (rule find_memberD)
  with ws sig show ?thesis by auto
qed

lemma unsigned_write: "sign_record S C rec intent = Inl e \<Longrightarrow> write_unit_record P S C rec intent s = (Inl e, s)"
  by (simp add: write_unit_record_def bind_s_def)

section \<open>A small container with a record\<close>

definition demo_ws :: writer_set where
  "demo_ws = \<lparr>ws_epoch = 1, ws_key_epoch = 0, ws_owner_pubkey = replicate 32 3, ws_writers = [replicate 32 3], ws_removed = []\<rparr>"

definition demo_ctx :: rec_ctx where
  "demo_ctx = \<lparr>rc_cipher = CIPHER_NONE, rc_key = [], rc_sign_mode = WriterSet, rc_writer_pubkey = [], rc_writer_set = Some demo_ws,
               rc_signing_key = Some (replicate 32 3)\<rparr>"

definition demo_rec :: unit_record where
  "demo_rec = demo_unit\<lparr>ur_parent := None\<rparr>"

lemma demo_rec_ok: "unit_ok demo_rec"
  using demo_unit_ok(1) by (simp add: demo_rec_def unit_ok_def)

lemma demo_sign: "sign_record toy_sig demo_ctx demo_rec Fresh = Inr (sign_with toy_sig (replicate 32 3) demo_rec)"
  by (simp add: sign_record_def demo_ctx_def demo_ws_def ws_contains_def toy_sig_def)

lemma demo_length: "length (unit_encode toy_prims (sign_with toy_sig (replicate 32 3) demo_rec)) \<le> 4000"
  by code_simp

lemma demo_space:
  "\<exists>kc ic s addr s1. space toy_prims kc ic s Map.empty Map.empty (Map.empty :: bool \<rightharpoonup> range)
     \<and> write_unit_record toy_prims toy_sig demo_ctx demo_rec Fresh s = (Inr addr, s1)"
proof -
  from demo_ts_room(1) obtain L where L: "reach L demo_ts" by (auto simp: fixed_state_def)
  from demo_ts_room(2) have "room_for demo_crypto (Suc 6) demo_ts" by (simp add: eval_nat_numeral)
  from trie_create_total[OF toy_prims_ok L this] obtain kc s0 where
    1: "trie_create toy_prims CIPHER_NONE [] demo_ts = (Inr kc, s0)" "room_for demo_crypto 6 s0" by blast
  from trie_create_ok(1)[OF toy_prims_ok L 1(1)] obtain L1 A where L1: "trie_state toy_prims kc L1 s0 Map.empty A" by blast
  from 1(2) have "room_for demo_crypto (Suc 5) s0" by (simp add: eval_nat_numeral)
  from trie_create_total[OF toy_prims_ok trie_state_reach[OF L1] this] obtain ic s where
    2: "trie_create toy_prims CIPHER_NONE [] s0 = (Inr ic, s)" "room_for demo_crypto 5 s" by blast
  have "al_open_pack (ts_a demo_ts) = None" by (simp add: demo_ts_def al_new_def)
  from space_new[OF toy_prims_ok L this, unfolded key_create_def id_create_def, OF 1(1) 2(1)]
  have sp: "space toy_prims kc ic s Map.empty Map.empty (Map.empty :: bool \<rightharpoonup> range)" .
  let ?n = "length (unit_encode toy_prims (sign_with toy_sig (replicate 32 3) demo_rec)) + 32"
  have "round_up_block ?n \<le> 4096" using demo_length by (simp add: round_up_block_def BASE_BLOCK_def)
  then have room: "al_live_hwm (ts_a s) + round_up_block ?n \<le> al_tail_low (ts_a s)" using 2(2) by (simp add: room_for_def)
  have lt: "?n < 2 ^ 32" using demo_length by simp
  have c: "12 \<le> length (ts_ent s) \<or> rc_cipher demo_ctx \<noteq> CIPHER_AES256_GCM"
    by (simp add: demo_ctx_def CIPHER_NONE_def CIPHER_AES256_GCM_def)
  show ?thesis using write_unit_record_total[OF toy_prims_ok sp demo_sign lt room c] sp by blast
qed

lemma demo_read:
  "\<exists>s addr s1. write_unit_record toy_prims toy_sig demo_ctx demo_rec Fresh s = (Inr addr, s1)
     \<and> read_unit_record toy_prims toy_sig demo_ctx (ts_b s1) addr = Inr (sign_with toy_sig (replicate 32 3) demo_rec)"
proof -
  from demo_space obtain kc ic s addr s1 where sp: "space toy_prims kc ic s Map.empty Map.empty (Map.empty :: bool \<rightharpoonup> range)"
    and w: "write_unit_record toy_prims toy_sig demo_ctx demo_rec Fresh s = (Inr addr, s1)" by blast
  have lt: "length (unit_encode toy_prims (sign_with toy_sig (replicate 32 3) demo_rec)) + 32 < 2 ^ 32" using demo_length by simp
  from write_unit_record_claims[OF toy_prims_ok toy_sig_ok sp _ demo_rec_ok w demo_sign lt, of True] obtain n where
    n: "space toy_prims kc ic s1 Map.empty Map.empty [True \<mapsto> (addr, n)]"
      "record_at toy_prims demo_ctx (bk_bytes (ts_b s1)) addr n (sign_with toy_sig (replicate 32 3) demo_rec)" by auto
  from sign_record_verifies[OF toy_sig_ok demo_sign] obtain x where
    x: "verify_record_signature toy_sig demo_ctx (sign_with toy_sig (replicate 32 3) demo_rec) CurrentOrRemoved = Inr x"
    by (auto simp: demo_ctx_def)
  have "addr + n \<le> bk_len (ts_b s1)" using space_bounds(1)[OF n(1), of True] by simp
  from read_record_at[OF toy_prims_ok n(2) space_backend[OF n(1)] this x] w show ?thesis by blast
qed

section \<open>Properties\<close>

text \<open>C3. A record that was written stays readable: a write of a well-formed record, sealed or not, signed under any of the three
  modes, puts it into a block that nothing else of the container uses, leaves the bytes of everything else that is stored as they
  were, and from then on reading at the returned address gives the record that was written, signature included, in every later
  state of the container in which that block was not given back or overwritten.\<close>

theorem record_stays_readable:
  assumes "prims_ok P" and "sig_env_ok S" and "space P kc ic s pm im D" and "D k = None" and "unit_ok rec"
    and "rc_sign_mode C = Signed \<longrightarrow> (\<forall>sk. rc_signing_key C = Some sk \<longrightarrow> rc_writer_pubkey C = sg_pub S sk)"
    and "sign_record S C rec intent = Inr rec'" and "length (unit_encode P rec') + 32 < 2 ^ 32"
    and "write_unit_record P S C rec intent s = (Inr addr, s1)"
  shows "\<exists>n sig. rec' = rec\<lparr>ur_signature := sig\<rparr> \<and> space P kc ic s1 pm im (D(k \<mapsto> (addr, n))) \<and> same_bytes D s s1
    \<and> (\<forall>kc2 ic2 s2 pm2 im2 D2. space P kc2 ic2 s2 pm2 im2 D2 \<longrightarrow> D2 k = Some (addr, n) \<longrightarrow> same_bytes [k \<mapsto> (addr, n)] s1 s2 \<longrightarrow>
         read_unit_record P S C (ts_b s2) addr = Inr rec')"
proof -
  from write_unit_record_claims[OF assms(1-5,9,7,8)] obtain n where
    n: "space P kc ic s1 pm im (D(k \<mapsto> (addr, n)))" "same_bytes D s s1" "record_at P C (bk_bytes (ts_b s1)) addr n rec'" by blast
  from sign_record_verifies[OF assms(2,7,6)] obtain w where w: "verify_record_signature S C rec' CurrentOrRemoved = Inr w" by blast
  have "read_unit_record P S C (ts_b s2) addr = Inr rec'"
    if "space P kc2 ic2 s2 pm2 im2 D2" "D2 k = Some (addr, n)" "same_bytes [k \<mapsto> (addr, n)] s1 s2" for kc2 ic2 s2 pm2 im2 D2
  proof (rule read_record_at[OF assms(1) _ space_backend[OF that(1)] space_bounds(1)[OF that(1,2)] w])
    show "record_at P C (bk_bytes (ts_b s2)) addr n rec'" by (rule record_at_same_bytes[OF that(3) _ n(3), of k]) simp
  qed
  with n sign_record_shape(1)[OF assms(2,7)] show ?thesis by blast
qed

theorem record_stays_readable_witness:
  "\<exists>s addr s1. write_unit_record toy_prims toy_sig demo_ctx demo_rec Fresh s = (Inr addr, s1)
     \<and> read_unit_record toy_prims toy_sig demo_ctx (ts_b s1) addr = Inr (sign_with toy_sig (replicate 32 3) demo_rec)"
proof -
  from demo_space obtain kc ic s addr s1 where sp: "space toy_prims kc ic s Map.empty Map.empty (Map.empty :: bool \<rightharpoonup> range)"
    and w: "write_unit_record toy_prims toy_sig demo_ctx demo_rec Fresh s = (Inr addr, s1)" by blast
  have lt: "length (unit_encode toy_prims (sign_with toy_sig (replicate 32 3) demo_rec)) + 32 < 2 ^ 32" using demo_length by simp
  have m: "rc_sign_mode demo_ctx = Signed \<longrightarrow>
      (\<forall>sk. rc_signing_key demo_ctx = Some sk \<longrightarrow> rc_writer_pubkey demo_ctx = sg_pub toy_sig sk)" by (simp add: demo_ctx_def)
  obtain n where n: "space toy_prims kc ic s1 Map.empty Map.empty [True \<mapsto> (addr, n)]"
    "\<forall>kc2 ic2 s2 pm2 im2 D2. space toy_prims kc2 ic2 s2 pm2 im2 D2 \<longrightarrow> D2 True = Some (addr, n) \<longrightarrow> same_bytes [True \<mapsto> (addr, n)] s1 s2 \<longrightarrow>
       read_unit_record toy_prims toy_sig demo_ctx (ts_b s2) addr = Inr (sign_with toy_sig (replicate 32 3) demo_rec)"
    using record_stays_readable[OF toy_prims_ok toy_sig_ok sp _ demo_rec_ok m demo_sign lt w, of True] by auto
  have "[True \<mapsto> (addr, n)] True = Some (addr, n)" by simp
  with n w same_bytes_refl show ?thesis by blast
qed

text \<open>C4. In a container with a writer set only its writers write, and only what a writer signed is read: a new record is written
  only with the key of a current writer and a write that cannot be signed changes nothing; a record that is read carries a signature
  over its payload by a current or a removed writer.\<close>

theorem only_writers_write:
  assumes "rc_sign_mode C = WriterSet"
  shows "(write_unit_record P S C rec Fresh s = (Inr addr, s1) \<longrightarrow>
            (\<exists>ws sk. rc_writer_set C = Some ws \<and> rc_signing_key C = Some sk \<and> sg_pub S sk \<in> set (ws_writers ws)))
    \<and> ((\<nexists>ws sk. rc_writer_set C = Some ws \<and> rc_signing_key C = Some sk \<and> sg_pub S sk \<in> set (ws_writers ws)) \<longrightarrow>
            (\<exists>m. write_unit_record P S C rec Fresh s = (Inl (Integrity m), s)))
    \<and> (read_unit_record P S C b a = Inr rec2 \<longrightarrow>
            (\<exists>ws sig m. rc_writer_set C = Some ws \<and> ur_signature rec2 = Some sig
               \<and> m \<in> set (ws_writers ws) \<union> set (ws_removed ws) \<and> sg_verify S m (signing_payload rec2) sig))"
proof -
  have err: "\<exists>m. sign_record S C rec Fresh = Inl (Integrity m)"
    if "\<nexists>ws sk. rc_writer_set C = Some ws \<and> rc_signing_key C = Some sk \<and> sg_pub S sk \<in> set (ws_writers ws)"
  proof (cases "rc_signing_key C")
    case None
    with assms show ?thesis by (simp add: sign_record_def)
  next
    case (Some sk)
    with assms that show ?thesis by (cases "rc_writer_set C") (simp_all add: sign_record_def ws_contains_def)
  qed
  then have bad: "\<exists>m. write_unit_record P S C rec Fresh s = (Inl (Integrity m), s)"
    if "\<nexists>ws sk. rc_writer_set C = Some ws \<and> rc_signing_key C = Some sk \<and> sg_pub S sk \<in> set (ws_writers ws)"
    using that unsigned_write by blast
  show ?thesis
  proof (intro conjI impI)
    assume "write_unit_record P S C rec Fresh s = (Inr addr, s1)"
    with bad show "\<exists>ws sk. rc_writer_set C = Some ws \<and> rc_signing_key C = Some sk \<and> sg_pub S sk \<in> set (ws_writers ws)" by fastforce
  next
    assume "read_unit_record P S C b a = Inr rec2"
    from read_unit_recordD(2)[OF this] show "\<exists>ws sig m. rc_writer_set C = Some ws \<and> ur_signature rec2 = Some sig
               \<and> m \<in> set (ws_writers ws) \<union> set (ws_removed ws) \<and> sg_verify S m (signing_payload rec2) sig"
      using member_signature assms by blast
  qed (rule bad)
qed

theorem only_writers_write_witness:
  "(\<exists>s addr s1. write_unit_record toy_prims toy_sig demo_ctx demo_rec Fresh s = (Inr addr, s1) \<and> replicate 32 3 \<in> set (ws_writers demo_ws))
   \<and> (\<exists>m. write_unit_record toy_prims toy_sig (demo_ctx\<lparr>rc_signing_key := Some (replicate 32 4)\<rparr>) demo_rec Fresh demo_ts = (Inl (Integrity m), demo_ts))"
proof -
  from demo_space obtain s addr s1 where w: "write_unit_record toy_prims toy_sig demo_ctx demo_rec Fresh s = (Inr addr, s1)" by blast
  have "rc_sign_mode demo_ctx = WriterSet" by (simp add: demo_ctx_def)
  from only_writers_write[OF this, of toy_prims toy_sig demo_rec s addr s1] w
  have 1: "replicate 32 3 \<in> set (ws_writers demo_ws)" by (simp add: demo_ctx_def toy_sig_def)
  let ?C = "demo_ctx\<lparr>rc_signing_key := Some (replicate 32 4)\<rparr>"
  have "rc_sign_mode ?C = WriterSet" by (simp add: demo_ctx_def)
  moreover have "\<nexists>ws sk. rc_writer_set ?C = Some ws \<and> rc_signing_key ?C = Some sk \<and> sg_pub toy_sig sk \<in> set (ws_writers ws)"
    by (simp add: demo_ctx_def demo_ws_def toy_sig_def)
  ultimately have "\<exists>m. write_unit_record toy_prims toy_sig ?C demo_rec Fresh demo_ts = (Inl (Integrity m), demo_ts)"
    using only_writers_write[of ?C toy_prims toy_sig demo_rec demo_ts] by blast
  with 1 w show ?thesis by blast
qed

text \<open>C39. Resolution is exact on every chain of records that ends: it returns, and what it returns is the location and version of the
  fragment in the newest record of the chain whose version of the fragment is not newer than the one asked for, or nothing if
  there is no such record.\<close>

theorem resolve_finds_newest:
  assumes "record_chain (read_unit_record P S C b) head recs"
  shows "case List.find (visible_at frag v) recs of
           None \<Rightarrow> resolve_with_version P S C b head frag v = Some (Inr None) \<and> resolve_at P S C b head frag v = Some (Inr None)
         | Some rec \<Rightarrow> \<exists>sm suite. ur_content rec = Some sm
             \<and> resolve_with_version P S C b head frag v = Some (Inr (Some (sm_locations sm ! frag, sm_unit_map sm ! frag, suite)))
             \<and> resolve_at P S C b head frag v = Some (Inr (Some (sm_locations sm ! frag)))"
proof (cases "List.find (visible_at frag v) recs")
  case None
  then show ?thesis using resolve_chain[OF assms chain_unit_ok[OF assms], of frag v]
    by (simp add: resolve_with_version_def resolve_at_def)
next
  case (Some rec)
  from find_memberD[OF Some] chain_unit_ok[OF assms] have "unit_ok rec" "visible_at frag v rec" by blast+
  with frag_in_ok[of rec frag v] Some show ?thesis using resolve_chain[OF assms chain_unit_ok[OF assms], of frag v]
    by (auto simp: resolve_with_version_def resolve_at_def)
qed

theorem resolve_finds_newest_witness:
  "\<exists>b head sm suite. ur_content demo_rec = Some sm
     \<and> resolve_with_version toy_prims toy_sig demo_ctx b head 0 (2 ^ 63) = Some (Inr (Some (sm_locations sm ! 0, sm_unit_map sm ! 0, suite)))"
proof -
  let ?r = "sign_with toy_sig (replicate 32 3) demo_rec"
  from demo_read obtain b head where r: "read_unit_record toy_prims toy_sig demo_ctx b head = Inr ?r" by blast
  have "ur_parent ?r = None" by (simp add: sign_with_def demo_rec_def)
  with r have "record_chain (read_unit_record toy_prims toy_sig demo_ctx b) head [?r]" by (rule oldest)
  from resolve_finds_newest[OF this, of 0 "2 ^ 63"]
  have "visible_at 0 (2 ^ 63) ?r \<Longrightarrow> ?thesis" by (auto simp: sign_with_def)
  moreover have "visible_at 0 (2 ^ 63) ?r"
    by (simp add: visible_at_def frag_version_def sign_with_def demo_rec_def demo_unit_def demo_stream_def)
  ultimately show ?thesis by blast
qed

end
