(* ===== verification/Spec2Isabelle.thy ===== *)
theory Spec2Isabelle
  imports Version_Vector Fragments Backend Allocator_Steps Crypto Header Wal Commit_Record Catalog_Props Unit_Signing Shamir Recovery_Code Negotiate Service_Wire Blob_Log Server_Store Nosql_Index Wb_Cache Retention Writer_Set Xts Record_Io
begin

text \<open>
  A verification development for sfs, an encrypted, versioned container file system (crates under \<^verbatim>\<open>src/crates\<close>).

  \<^bold>\<open>The program.\<close> A container is one file or device: two header slots, a write-ahead log, and blocks of 4096 bytes that an
  allocator divides into a catalog region, a live region and an eviction tail. Two copy-on-write tries, the catalogs, map paths to
  identifiers and identifiers to unit records; a unit record describes a stream of fragments with its version vector. The
  version store (\<^verbatim>\<open>sfs-core/src/version/store.rs\<close>) drives all of these. Around the container stand the synchronisation
  (\<^verbatim>\<open>sfs-sync\<close>), the hosted service with its login, key recovery and blob log (\<^verbatim>\<open>sfs-saas\<close>), the database layer
  (\<^verbatim>\<open>sfs-nosql\<close>) and the mounted file system (\<^verbatim>\<open>sfs-mount\<close>).

  \<^bold>\<open>Conventions.\<close> A byte string is a list of 8-bit words; a struct is a record, an enum a datatype. A fallible function returns
  \<open>error + 'a\<close> with \<open>bind_r\<close> for \<^verbatim>\<open>?\<close>, and a Rust panic is the error \<open>Panic\<close>; a function that also changes state returns the
  result beside the new state, \<open>bind_s\<close>. Integers keep their width where they are encoded, packed or compared by width;
  addresses and lengths are natural numbers. The overflows the source checks are branches of the model, and so are the unchecked
  sums of version vectors, allocator, node blocks, record IO and write-back cache that leave their width: they panic, as in a build
  with overflow checks. Other sums are of positions inside a file and lengths of byte strings in memory and are not bounded again.
  Values formatted into error messages are left out of them. A
  \<^verbatim>\<open>BTreeMap\<close> is a sorted association list, a \<^verbatim>\<open>HashMap\<close> an association list that is only looked up. Code of other crates
  is a parameter: the records \<open>prims\<close> (CRC-32, HKDF, HMAC, AES-GCM), \<open>srp_env\<close> (SHA-256, hexadecimal text, big integers,
  Argon2id), \<open>sig_env\<close> (signatures) and \<open>aes_env\<close> (the block cipher), with what their documentation promises in named hypotheses such
  as \<open>prims_ok\<close> and \<open>env_ok\<close> and a concrete instance that satisfies them.
  Randomness is an argument.

  \<^bold>\<open>The container.\<close>
    \<^item> \<open>Sfs_Prelude\<close> (\<^verbatim>\<open>lib.rs\<close>) has the errors, slices, little-endian codecs, sorted maps and the interface \<open>codec\<close>;
      \<open>Cursor\<close> the offset-passing readers all decoders are composed of, with the facts \<open>reads\<close>, \<open>sane\<close> and \<open>exact\<close> that compose along them.
    \<^item> \<open>Version_Vector\<close> (\<^verbatim>\<open>version/vector.rs\<close>) and \<open>Fragments\<close> (\<^verbatim>\<open>block.rs\<close>): dominance is a partial order with \<open>join\<close> as
      least upper bound, replicas that join in any order converge, the wire format is canonical, dots and fragment sizes.
    \<^item> \<open>Backend\<close>, \<open>Freelist\<close>, \<open>Allocator\<close>, \<open>Allocator_Inv\<close>, \<open>Allocator_Steps\<close> (\<^verbatim>\<open>container/\<close>): bounds-checked IO, free extents as a
      set of bytes, and the three-region allocator as a state machine. In every reachable state the blocks in use are aligned, disjoint
      from one another and from free space; a new block overlaps none; growing moves the tail without losing a byte; a retired block
      stays intact until the publish.
    \<^item> \<open>Crypto\<close>, \<open>Negotiate\<close> (\<^verbatim>\<open>crypto/\<close>): derived keys, contexts, nonces, sealing; the choice of a suite all peers share.
    \<^item> \<open>Header\<close> (\<^verbatim>\<open>container/header.rs\<close>), \<open>Wal\<close> (\<^verbatim>\<open>wal.rs\<close>), \<open>Commit_Record\<close> (\<^verbatim>\<open>commit.rs\<close>): what a commit publishes and what a
      load returns after any sequence of commits and writes of a slot that leave bytes the decoder rejects; the scan of the log; the
      record codecs.
    \<^item> \<open>Trie_Node\<close>, \<open>Trie\<close>, \<open>Trie_Rep\<close>, \<open>Trie_Put\<close>, \<open>Trie_Remove\<close>, \<open>Trie_Map\<close>, \<open>Trie_Scan\<close>, \<open>Trie_Frame\<close>, \<open>Trie_Fail\<close>, \<open>Trie_Total\<close>,
      \<open>Catalog\<close>, \<open>Catalog_Props\<close> (\<^verbatim>\<open>catalog/trie.rs\<close>): node blocks with a backup copy, the copy-on-write operations, and both catalogs
      over one allocator refine two finite maps through any interleaving of operations, reclaim scopes and reopenings. An operation that
      fails outside a scope changes nothing the catalogs show. One that fails inside a scope may already have released nodes of the
      roots it started from; what is proved then is that the transaction can be given up: the handles from before the scope hold what they
      held. Continuing with the later handles is outside the histories considered. Old roots stay readable, scans are exact and sorted
      in a container of up to 8 GiB, and an insertion succeeds when the space it needs is there.
    \<^item> \<open>Unit_Record\<close>, \<open>Unit_Signing\<close> (\<^verbatim>\<open>unit.rs\<close>): the record codec on every input, and what a signature binds.
    \<^item> \<open>Xts\<close> (\<^verbatim>\<open>crypto/xts.rs\<close>): the batched sector routine with ciphertext stealing equals the one that handles a block at a time, and
      opening inverts sealing.
    \<^item> \<open>Writer_Set\<close> (\<^verbatim>\<open>version/writerset.rs\<close>, \<^verbatim>\<open>version/verify_trailer.rs\<close>, \<^verbatim>\<open>crypto/key_grant.rs\<close>): signed epochs of the set of writers,
      which framed records are accepted, and the grant of a container key.
    \<^item> \<open>Claims\<close> and \<open>Record_Io\<close> (\<^verbatim>\<open>version/store.rs\<close>): which bytes of a container belong to whom through every primitive of the store;
      signing, writing and reading of unit records and the resolution of a fragment along the chain of superseded records. A written
      record stays readable as long as its block is not touched, only writers of the container write, and the resolution finds the newest
      version that is not newer than the one asked for.
    \<^item> \<open>Retention\<close> (\<^verbatim>\<open>retention.rs\<close>, the evicted blocks of \<^verbatim>\<open>version/store.rs\<close>): the scan of the eviction tail, which blocks a strategy
      drops, and the undo pass of a mount.

  \<^bold>\<open>Around the container.\<close>
    \<^item> \<open>GF256\<close>, \<open>Interpolation\<close>, \<open>Shamir\<close>, \<open>Recovery_Code\<close>, \<open>Srp\<close>, \<open>Service_Wire\<close>, \<open>Blob_Log\<close>, \<open>Server_Store\<close> (\<^verbatim>\<open>sfs-saas\<close>): enough shares
      give the key back and fewer say nothing about it; an honest login agrees on a key and no input makes a client panic; parsers accept
      exactly the framings; the log returns the last completed put; accounts of the store do not see one another.
    \<^item> \<open>Sync_Transport\<close> (\<^verbatim>\<open>sfs-sync/src/lib.rs\<close>): the trait as the locale \<open>transport\<close>, interpreted on the local relay and on the store
      of the service.
    \<^item> \<open>Nosql_Record\<close>, \<open>Nosql_Order\<close>, \<open>Nosql_Index\<close> (\<^verbatim>\<open>sfs-nosql\<close>): record layouts, the patch of a slot, index keys in the order of the
      values (the two floating-point zeros apart), ranges.
    \<^item> \<open>Wb_Cache\<close> (\<^verbatim>\<open>sfs-mount/src/wbcache.rs\<close>): dirty extents of a handle refine a partial map from positions to bytes, as long
      as the end of each write and read window fits 64 bits; else the code panics.

  \<^bold>\<open>Bounds and fuel.\<close> The walks over a trie run with the source's own node budget and depth limit, which end them on any input. The
  read loop of the write-back cache gets one unit of fuel per requested byte and one more, and is shown to return with it.

  \<^bold>\<open>Not modelled.\<close> The operations of the engine over these parts (write, read, truncate, publish, checkpoint, merge, defragmentation),
  recovery by scanning, consistency reports and the synchronisation round, which work on the state of the engine as a whole. Operating-system calls, memory mapping, advisory locks, threads, time measurement, network services and command
  line or foreign-function marshalling have no pure content beyond the calls they make. The kernel driver (\<^verbatim>\<open>src/kernel\<close>) is a
  second implementation in C of the formats modelled here.
\<close>

end
